(* ===== verification/Prelude.thy ===== *)
theory Prelude
  imports Main "HOL-Library.Word" "HOL-Library.Multiset"
begin

text \<open>
  Shared vocabulary of the 2.11BSD kernel development: the PDP-11 machine types, the outcome of
  a kernel routine, and the generic lemmas on arrays (lists updated by index) and on words that the
  component theories use.

  A kernel routine ends in one of four ways: it returns (\<open>Ok\<close>), it calls \<^verbatim>\<open>panic\<close>
  (\<open>Panic\<close>), it blocks the calling process in \<^verbatim>\<open>sleep\<close> (\<open>Sleep\<close>, with the wait
  channel), or it reads or writes outside an array (\<open>Fault\<close>: undefined behaviour in C).
\<close>

unbundle bit_operations_syntax

section \<open>Machine types\<close>

text \<open>On the PDP-11 \<^verbatim>\<open>int\<close>, \<^verbatim>\<open>short\<close> and pointers have 16 bits, \<^verbatim>\<open>long\<close> has 32.\<close>

type_synonym u8 = "8 word"
type_synonym u16 = "16 word"
type_synonym u32 = "32 word"

section \<open>Outcomes of kernel routines\<close>

datatype 'a outcome = Ok 'a | Panic string | Sleep nat | Fault

fun obind :: "'a outcome \<Rightarrow> ('a \<Rightarrow> 'b outcome) \<Rightarrow> 'b outcome" where
  "obind (Ok x) f = f x"
| "obind (Panic s) f = Panic s"
| "obind (Sleep c) f = Sleep c"
| "obind Fault f = Fault"

definition omap :: "('a \<Rightarrow> 'b) \<Rightarrow> 'a outcome \<Rightarrow> 'b outcome" where
  "omap f m = obind m (\<lambda>x. Ok (f x))"

fun is_Ok :: "'a outcome \<Rightarrow> bool" where
  "is_Ok (Ok x) = True"
| "is_Ok _ = False"

lemma omap_simps [simp]:
  "omap f (Ok x) = Ok (f x)" "omap f (Panic s) = Panic s"
  "omap f (Sleep c) = Sleep c" "omap f Fault = Fault"
  by (simp_all add: omap_def)

lemma obind_Ok_iff: "obind m f = Ok y \<longleftrightarrow> (\<exists>x. m = Ok x \<and> f x = Ok y)"
  by (cases m) auto

lemma obind_assoc [simp]: "obind (obind m f) g = obind m (\<lambda>x. obind (f x) g)"
  by (cases m) auto

lemma is_Ok_iff: "is_Ok m \<longleftrightarrow> (\<exists>x. m = Ok x)"
  by (cases m) auto

text \<open>The error numbers of \<^verbatim>\<open>sys/h/errno.h\<close> that the modelled code sets.\<close>

datatype errno =
    EPERM | ENOENT | ESRCH | EINTR | EIO | ENXIO | EBADF | ENOMEM | EACCES | EFAULT | EBUSY | ENODEV | EINVAL
  | ENFILE | EMFILE | EFBIG | ENOSPC | EPIPE | EWOULDBLOCK | EOPNOTSUPP | EMSGSIZE | ENOBUFS | EADDRINUSE
  | EADDRNOTAVAIL | ENOTDIR | EISDIR | EROFS | ETXTBSY | EDQUOT | ERESTART | ENOTTY | EAGAIN | ECHILD
  | EFTYPE | ENAMETOOLONG | ENOTEMPTY | EEXIST | ELOOP

section \<open>Collections of rules\<close>

named_theorems kdefs "definitions of the operations that the component proofs unfold"
named_theorems kinv "preservation of the component invariants"

section \<open>Lists and arrays\<close>

lemma list_update_mid [simp]: "(pre @ x # suf)[length pre := y] = pre @ y # suf"
  by (induction pre) auto

lemma nth_mid [simp]: "(pre @ x # suf) ! length pre = x"
  by (rule nth_append_length)

lemma take_mid [simp]: "take (length pre) (pre @ suf) = pre"
  by simp

lemma nth_mid_Suc [simp]: "(pre @ x # y # suf) ! Suc (length pre) = y"
  by (simp add: nth_append)

lemma nth_mid_ext: "i = length pre \<Longrightarrow> (pre @ x # suf) ! i = x"
  by simp

section \<open>Machine words\<close>

lemma unat_sub_le: "(b::'a::len word) \<le> a \<Longrightarrow> unat (a - b) = unat a - unat b"
  by (rule unat_sub)

lemma unat_add_16: "unat a + unat b < 65536 \<Longrightarrow> unat ((a::u16) + b) = unat a + unat b"
  by (simp add: unat_word_ariths)

lemma unat_lt_16 [simp]: "unat (a::u16) < 65536"
  using unsigned_less[of a, where ?'a = nat] by simp

lemma unat_pos: "(a::'a::len word) \<noteq> 0 \<Longrightarrow> 0 < unat a"
  by (simp add: unat_gt_0)

lemma unat_of_nat_16: "n < 65536 \<Longrightarrow> unat (of_nat n :: u16) = n"
  by (simp add: unat_of_nat)

section \<open>C integers\<close>

text \<open>Signed 16-bit and 32-bit values as integers, with the wrap-around written out.\<close>

definition wrap16 :: "int \<Rightarrow> int" where
  "wrap16 x = (x + 32768) mod 65536 - 32768"

definition wrap32 :: "int \<Rightarrow> int" where
  "wrap32 x = (x + 2147483648) mod 4294967296 - 2147483648"

lemma wrap16_id: "- 32768 \<le> x \<Longrightarrow> x \<le> 32767 \<Longrightarrow> wrap16 x = x"
  by (simp add: wrap16_def)

lemma wrap32_id: "- 2147483648 \<le> x \<Longrightarrow> x \<le> 2147483647 \<Longrightarrow> wrap32 x = x"
  by (simp add: wrap32_def)

lemma wrap16_range: "- 32768 \<le> wrap16 x" "wrap16 x \<le> 32767"
  by (simp_all add: wrap16_def)

lemma wrap32_range: "- 2147483648 \<le> wrap32 x" "wrap32 x \<le> 2147483647"
  by (simp_all add: wrap32_def)

text \<open>Division as C does it, truncating towards zero.\<close>

definition cdiv :: "int \<Rightarrow> int \<Rightarrow> int" where
  "cdiv a b = (if (a < 0) = (b < 0) then \<bar>a\<bar> div \<bar>b\<bar> else - (\<bar>a\<bar> div \<bar>b\<bar>))"

lemma cdiv_nonneg: "0 \<le> a \<Longrightarrow> 0 < b \<Longrightarrow> cdiv a b = a div b"
  by (simp add: cdiv_def)

end
