(* ===== verification/Rmap.thy ===== *)
theory Rmap
  imports Prelude
begin

text \<open>
  The resource map allocator of \<^verbatim>\<open>sys/sys/subr_rmap.c\<close>, at the level of the array: a map is
  a dense array of segments ended by an entry of size 0, \<open>m_limit\<close> is the index that
  \<^verbatim>\<open>mp->m_limit\<close> points at. Every access to the array is checked, an access outside is
  \<open>Fault\<close>. The loops of the code are the functions \<open>scan_fit\<close>, \<open>shift_left\<close>,
  \<open>find_after\<close>, \<open>find_end\<close>, \<open>shift_right\<close>; \<open>rmalloc\<close>, \<open>rmfree\<close> and
  \<open>rmalloc3\<close> are the bodies of \<^verbatim>\<open>malloc\<close>, \<^verbatim>\<open>mfree\<close> and \<^verbatim>\<open>malloc3\<close> on the map they are
  given; the metering and the reclaiming of text segments with one retry, which depend on which
  map it is, are left out. The lemmas relate them to the set of free units.
\<close>

section \<open>Data\<close>

record mapent =
  m_size :: u16
  m_addr :: u16

record rmap =
  m_map :: "mapent list"
  m_limit :: nat
  m_name :: string

abbreviation ment :: "u16 \<Rightarrow> u16 \<Rightarrow> mapent" where
  "ment s a \<equiv> \<lparr>m_size = s, m_addr = a\<rparr>"

section \<open>malloc\<close>

text \<open>\<^verbatim>\<open>for (bp = mp->m_map; bp->m_size; ++bp) if (bp->m_size >= size)\<close>\<close>

function scan_fit :: "mapent list \<Rightarrow> u16 \<Rightarrow> nat \<Rightarrow> nat option outcome" where
  "scan_fit xs sz bp =
     (if bp < length xs
      then if m_size (xs ! bp) = 0 then Ok None
           else if sz \<le> m_size (xs ! bp) then Ok (Some bp)
           else scan_fit xs sz (Suc bp)
      else Fault)"
  by pat_completeness auto
termination
  by (relation "measure (\<lambda>(xs, sz, bp). length xs - bp)") auto

text \<open>
  \<^verbatim>\<open>for (ep = bp;; ++ep) { *ep = *++bp; if (!bp->m_size) break; }\<close>, also the loop
  \<^verbatim>\<open>do { *++ep = *++bp; } while (bp->m_size);\<close> of \<^verbatim>\<open>mfree\<close>.
\<close>

function shift_left :: "mapent list \<Rightarrow> nat \<Rightarrow> nat \<Rightarrow> mapent list outcome" where
  "shift_left xs ep bp =
     (if Suc bp < length xs \<and> ep < length xs
      then let xs' = xs[ep := xs ! Suc bp]
           in if m_size (xs' ! Suc bp) = 0 then Ok xs' else shift_left xs' (Suc ep) (Suc bp)
      else Fault)"
  by pat_completeness auto
termination
  by (relation "measure (\<lambda>(xs, ep, bp). length xs - bp)") (auto simp: Let_def)

text \<open>The address returned is 0 (\<^verbatim>\<open>NULL\<close>) when no segment is large enough.\<close>

definition rmalloc :: "rmap \<Rightarrow> u16 \<Rightarrow> (u16 \<times> rmap) outcome" where
  "rmalloc mp sz =
     (if sz = 0 then Panic ''malloc: size = 0''
      else obind (scan_fit (m_map mp) sz 0) (\<lambda>r.
        case r of
          None \<Rightarrow> Ok (0, mp)
        | Some bp \<Rightarrow>
            let xs = m_map mp;
                addr = m_addr (xs ! bp);
                left = m_size (xs ! bp) - sz;
                xs1 = xs[bp := (xs ! bp)\<lparr>m_size := left\<rparr>]
            in if left \<noteq> 0
               then Ok (addr, mp\<lparr>m_map := xs1[bp := (xs1 ! bp)\<lparr>m_addr := addr + sz\<rparr>]\<rparr>)
               else omap (\<lambda>ys. (addr, mp\<lparr>m_map := ys\<rparr>)) (shift_left xs1 bp bp)))"

section \<open>mfree\<close>

text \<open>\<^verbatim>\<open>for (bp = mp->m_map; bp->m_size && bp->m_addr <= addr; ++bp);\<close>\<close>

function find_after :: "mapent list \<Rightarrow> u16 \<Rightarrow> nat \<Rightarrow> nat outcome" where
  "find_after xs addr bp =
     (if bp < length xs
      then if m_size (xs ! bp) \<noteq> 0 \<and> m_addr (xs ! bp) \<le> addr
           then find_after xs addr (Suc bp) else Ok bp
      else Fault)"
  by pat_completeness auto
termination
  by (relation "measure (\<lambda>(xs, addr, bp). length xs - bp)") auto

text \<open>\<^verbatim>\<open>for (start = bp; bp->m_size; ++bp);\<close>\<close>

function find_end :: "mapent list \<Rightarrow> nat \<Rightarrow> nat outcome" where
  "find_end xs bp =
     (if bp < length xs
      then if m_size (xs ! bp) \<noteq> 0 then find_end xs (Suc bp) else Ok bp
      else Fault)"
  by pat_completeness auto
termination
  by (relation "measure (\<lambda>(xs, bp). length xs - bp)") auto

text \<open>
  \<^verbatim>\<open>for (ep = bp - 1; ep >= start; *bp-- = *ep--);\<close> with \<open>n\<close> the number of entries from
  \<open>start\<close> to \<open>ep\<close>.
\<close>

fun shift_right :: "mapent list \<Rightarrow> nat \<Rightarrow> nat \<Rightarrow> mapent list" where
  "shift_right xs start 0 = xs"
| "shift_right xs start (Suc n) =
     shift_right (xs[Suc (start + n) := xs ! (start + n)]) start n"

text \<open>
  The body of \<^verbatim>\<open>mfree\<close>; the boolean says whether the segment was entered in the map
  (\<open>False\<close>: the map overflowed, the segment is lost and a warning is printed).
\<close>

definition rmfree :: "rmap \<Rightarrow> u16 \<Rightarrow> u16 \<Rightarrow> (bool \<times> rmap) outcome" where
  "rmfree mp sz addr =
     (if sz = 0 then Ok (True, mp)
      else if addr = 0 then Panic ''mfree: addr = 0''
      else obind (find_after (m_map mp) addr 0) (\<lambda>bp.
        let xs = m_map mp; ep = bp - 1 in
        if bp \<noteq> 0 \<and> addr \<le> m_addr (xs ! ep) + m_size (xs ! ep)
        then let xs1 = xs[ep := (xs ! ep)\<lparr>m_size := m_size (xs ! ep) + sz\<rparr>]
             in if m_size (xs1 ! bp) \<noteq> 0 \<and> m_addr (xs1 ! bp) \<le> addr + sz
                then let xs2 = xs1[ep := (xs1 ! ep)\<lparr>m_size := m_size (xs1 ! ep) + m_size (xs1 ! bp)\<rparr>]
                     in omap (\<lambda>ys. (True, mp\<lparr>m_map := ys\<rparr>)) (shift_left xs2 (Suc ep) bp)
                else Ok (True, mp\<lparr>m_map := xs1\<rparr>)
        else if m_size (xs ! bp) \<noteq> 0 \<and> m_addr (xs ! bp) \<le> addr + sz
        then Ok (True, mp\<lparr>m_map := xs[bp := ment (m_size (xs ! bp) + sz) addr]\<rparr>)
        else obind (find_end xs bp) (\<lambda>e.
          let start = bp; bp' = Suc e in
          if bp' > m_limit mp then Ok (False, mp)
          else if bp' < length xs
          then Ok (True, mp\<lparr>m_map :=
                 (shift_right xs start (Suc e - start))[start := ment sz addr]\<rparr>)
          else Fault)))"

declare scan_fit.simps [simp del] shift_left.simps [simp del]
  find_after.simps [simp del] find_end.simps [simp del]

section \<open>The segments of a map and its free units\<close>

definition seg :: "mapent \<Rightarrow> nat set" where
  "seg e = {unat (m_addr e) ..< unat (m_addr e) + unat (m_size e)}"

definition seg_end :: "mapent \<Rightarrow> nat" where
  "seg_end e = unat (m_addr e) + unat (m_size e)"

definition entries :: "mapent list \<Rightarrow> mapent list" where
  "entries xs = takeWhile (\<lambda>e. m_size e \<noteq> 0) xs"

definition free_units :: "rmap \<Rightarrow> nat set" where
  "free_units mp = \<Union> (seg ` set (entries (m_map mp)))"

text \<open>
  Well-formed segments: non-empty, not at address 0, inside the 16-bit resource space, in
  increasing order, and maximal (two neighbours neither overlap nor abut).
\<close>

fun wf_ents :: "mapent list \<Rightarrow> bool" where
  "wf_ents [] = True"
| "wf_ents (e # es) \<longleftrightarrow> m_size e \<noteq> 0 \<and> m_addr e \<noteq> 0 \<and> seg_end e \<le> 65536 \<and>
     (\<forall>f\<in>set es. seg_end e < unat (m_addr f)) \<and> wf_ents es"

definition wf_map :: "rmap \<Rightarrow> bool" where
  "wf_map mp \<longleftrightarrow> (let es = entries (m_map mp) in
     wf_ents es \<and> length es < length (m_map mp) \<and> m_map mp ! length es = ment 0 0)"

lemma wf_ents_append:
  "wf_ents (xs @ ys) \<longleftrightarrow> wf_ents xs \<and> wf_ents ys \<and>
     (\<forall>x\<in>set xs. \<forall>y\<in>set ys. seg_end x < unat (m_addr y))"
  by (induction xs) auto

lemma wf_ents_size: "wf_ents es \<Longrightarrow> e \<in> set es \<Longrightarrow> m_size e \<noteq> 0"
  by (induction es) auto

lemma wf_ents_addr: "wf_ents es \<Longrightarrow> e \<in> set es \<Longrightarrow> m_addr e \<noteq> 0"
  by (induction es) auto

lemma wf_ents_end: "wf_ents es \<Longrightarrow> e \<in> set es \<Longrightarrow> seg_end e \<le> 65536"
  by (induction es) auto

lemma entries_append:
  "\<forall>e\<in>set es. m_size e \<noteq> 0 \<Longrightarrow> entries (es @ ment 0 a # rest) = es"
  by (simp add: entries_def takeWhile_append)

lemma entries_rep [simp]: "wf_ents es \<Longrightarrow> entries (es @ ment 0 0 # rest) = es"
  by (rule entries_append) (auto dest: wf_ents_size)

lemma wf_map_rep:
  "wf_map mp \<longleftrightarrow> (\<exists>es rest. m_map mp = es @ ment 0 0 # rest \<and> wf_ents es)"
proof
  assume wf: "wf_map mp"
  let ?xs = "m_map mp" and ?es = "entries (m_map mp)"
  have "?es = take (length ?es) ?xs"
    by (metis entries_def takeWhile_eq_take length_takeWhile_le take_take min.absorb1 order_refl)
  then have "?xs = ?es @ ment 0 0 # drop (Suc (length ?es)) ?xs"
    using wf by (metis wf_map_def id_take_nth_drop)
  then show "\<exists>es rest. ?xs = es @ ment 0 0 # rest \<and> wf_ents es"
    using wf by (metis wf_map_def)
next
  assume "\<exists>es rest. m_map mp = es @ ment 0 0 # rest \<and> wf_ents es"
  then show "wf_map mp" by (auto simp: wf_map_def)
qed

lemma wf_mapE:
  assumes "wf_map mp"
  obtains es rest where "m_map mp = es @ ment 0 0 # rest" "wf_ents es"
    "free_units mp = \<Union> (seg ` set es)" "entries (m_map mp) = es"
  using assms by (auto simp: wf_map_rep free_units_def)

text \<open>A run of free units lies within a single segment.\<close>

lemma seg_run:
  assumes wf: "wf_ents es" and sub: "{b ..< b + n} \<subseteq> \<Union> (seg ` set es)" and n: "0 < n"
  shows "\<exists>e\<in>set es. {b ..< b + n} \<subseteq> seg e"
proof -
  from n have "b \<in> {b ..< b + n}" by simp
  with sub obtain e where e: "e \<in> set es" and be: "b \<in> seg e" by blast
  have step: "b + k \<in> seg e" if "k < n" for k
    using that
  proof (induction k)
    case 0 then show ?case using be by simp
  next
    case (Suc k)
    then have k: "b + k \<in> seg e" by simp
    from Suc.prems have "b + Suc k \<in> {b ..< b + n}" by simp
    with sub obtain f where f: "f \<in> set es" and bf: "b + Suc k \<in> seg f" by blast
    from split_list[OF e] obtain l r where es: "es = l @ e # r" by blast
    with f consider "f = e" | "f \<in> set l" | "f \<in> set r" by auto
    then show ?case
    proof cases
      case 1 with bf show ?thesis by simp
    next
      case 2
      then have "seg_end f < unat (m_addr e)" using wf es by (auto simp: wf_ents_append)
      with bf be show ?thesis by (auto simp: seg_def seg_end_def)
    next
      case 3
      then have "seg_end e < unat (m_addr f)" using wf es by (auto simp: wf_ents_append)
      with bf k show ?thesis by (auto simp: seg_def seg_end_def)
    qed
  qed
  have "{b ..< b + n} \<subseteq> seg e"
  proof
    fix x assume "x \<in> {b ..< b + n}"
    then have "x = b + (x - b)" "x - b < n" by auto
    then show "x \<in> seg e" using step by metis
  qed
  with e show ?thesis by blast
qed

section \<open>The loops on a well-formed array\<close>

lemma scan_fit_none:
  "\<forall>e\<in>set suf. m_size e \<noteq> 0 \<and> m_size e < sz \<Longrightarrow>
   scan_fit (pre @ suf @ ment 0 0 # rest) sz (length pre) = Ok None"
proof (induction suf arbitrary: pre)
  case Nil then show ?case by (simp add: scan_fit.simps)
next
  case (Cons e suf)
  then show ?case
    using Cons.IH[of "pre @ [e]"] by (simp add: scan_fit.simps[of _ _ "length pre"] not_le)
qed

lemma scan_fit_some:
  "\<forall>e\<in>set s1. m_size e \<noteq> 0 \<and> m_size e < sz \<Longrightarrow> sz \<le> m_size e \<Longrightarrow> m_size e \<noteq> 0 \<Longrightarrow>
   scan_fit (pre @ s1 @ e # rest) sz (length pre) = Ok (Some (length pre + length s1))"
proof (induction s1 arbitrary: pre)
  case Nil then show ?case by (simp add: scan_fit.simps)
next
  case (Cons f s1)
  then show ?case
    using Cons.IH[of "pre @ [f]"] by (simp add: scan_fit.simps[of _ _ "length pre"] not_le)
qed

lemma shift_left_rep:
  "\<forall>e\<in>set suf. m_size e \<noteq> 0 \<Longrightarrow>
   shift_left (pre @ h # suf @ ment 0 0 # rest) (length pre) (length pre) =
     Ok (pre @ suf @ ment 0 0 # ment 0 0 # rest)"
proof (induction suf arbitrary: pre h)
  case Nil
  then show ?case by (simp add: shift_left.simps nth_append)
next
  case (Cons e suf)
  let ?xs = "pre @ h # (e # suf) @ ment 0 0 # rest"
  have "?xs[length pre := ?xs ! Suc (length pre)] = (pre @ [e]) @ e # suf @ ment 0 0 # rest"
    by simp
  moreover have "m_size (((pre @ [e]) @ e # suf @ ment 0 0 # rest) ! Suc (length pre)) \<noteq> 0"
    using Cons.prems nth_mid[of "pre @ [e]"] by simp
  ultimately show ?case
    using Cons.IH[of "pre @ [e]" e] Cons.prems
    by (subst shift_left.simps) simp
qed

lemma find_after_rep:
  "\<forall>e\<in>set left. m_size e \<noteq> 0 \<and> m_addr e \<le> addr \<Longrightarrow>
   m_size f = 0 \<or> addr < m_addr f \<Longrightarrow>
   find_after (pre @ left @ f # rest) addr (length pre) = Ok (length pre + length left)"
proof (induction left arbitrary: pre)
  case Nil then show ?case by (subst find_after.simps) (auto simp: not_le)
next
  case (Cons e left)
  then show ?case
    using Cons.IH[of "pre @ [e]"] by (simp add: find_after.simps[of _ _ "length pre"])
qed

lemma find_end_rep:
  "\<forall>e\<in>set right. m_size e \<noteq> 0 \<Longrightarrow>
   find_end (pre @ right @ ment 0 a # rest) (length pre) = Ok (length pre + length right)"
proof (induction right arbitrary: pre)
  case Nil then show ?case by (simp add: find_end.simps)
next
  case (Cons e right)
  then show ?case
    using Cons.IH[of "pre @ [e]"] by (simp add: find_end.simps[of _ "length pre"])
qed

lemma shift_right_rep:
  "shift_right (pre @ mid @ j # rest) (length pre) (length mid) =
     pre @ (hd (mid @ [j])) # mid @ rest"
proof (induction mid arbitrary: j rest rule: rev_induct)
  case Nil then show ?case by simp
next
  case (snoc x mid)
  have eq: "(pre @ (mid @ [x]) @ j # rest)[Suc (length pre + length mid) :=
       (pre @ (mid @ [x]) @ j # rest) ! (length pre + length mid)] = pre @ mid @ x # x # rest"
    using list_update_mid[of "pre @ mid @ [x]" j rest x] nth_mid[of "pre @ mid" x "j # rest"]
    by simp
  then show ?case using snoc[of x "x # rest"] by (simp add: hd_append)
qed

section \<open>malloc takes the lowest sufficient run of free units\<close>

lemma rmalloc_none:
  assumes "m_map mp = es @ ment 0 0 # rest" "wf_ents es" "sz \<noteq> 0"
    and "\<forall>e\<in>set es. m_size e < sz"
  shows "rmalloc mp sz = Ok (0, mp)"
  using assms scan_fit_none[of es sz "[]" rest] wf_ents_size[OF assms(2)]
  by (simp add: rmalloc_def)

lemma rmalloc_part:
  assumes "m_map mp = (s1 @ e # s2) @ ment 0 0 # rest" "wf_ents (s1 @ e # s2)" "sz \<noteq> 0"
    and "\<forall>f\<in>set s1. m_size f < sz" "sz < m_size e"
  shows "rmalloc mp sz = Ok (m_addr e,
    mp\<lparr>m_map := (s1 @ ment (m_size e - sz) (m_addr e + sz) # s2) @ ment 0 0 # rest\<rparr>)"
proof -
  have "\<forall>f\<in>set s1. m_size f \<noteq> 0 \<and> m_size f < sz"
    using assms(2,4) by (auto simp: wf_ents_append dest: wf_ents_size)
  moreover have "m_size e \<noteq> 0" "sz \<le> m_size e" using assms by (auto simp: wf_ents_append)
  ultimately have "scan_fit (m_map mp) sz 0 = Ok (Some (length s1))"
    using scan_fit_some[of s1 sz e "[]" "s2 @ ment 0 0 # rest"] assms(1) by simp
  then show ?thesis using assms by (auto simp: rmalloc_def Let_def)
qed

lemma rmalloc_whole:
  assumes "m_map mp = (s1 @ e # s2) @ ment 0 0 # rest" "wf_ents (s1 @ e # s2)" "sz \<noteq> 0"
    and "\<forall>f\<in>set s1. m_size f < sz" "m_size e = sz"
  shows "rmalloc mp sz = Ok (m_addr e,
    mp\<lparr>m_map := (s1 @ s2) @ ment 0 0 # ment 0 0 # rest\<rparr>)"
proof -
  have s1: "\<forall>f\<in>set s1. m_size f \<noteq> 0 \<and> m_size f < sz"
    using assms(2,4) by (auto simp: wf_ents_append dest: wf_ents_size)
  have s2: "\<forall>f\<in>set s2. m_size f \<noteq> 0"
    using assms(2) by (auto simp: wf_ents_append dest: wf_ents_size)
  have "scan_fit (m_map mp) sz 0 = Ok (Some (length s1))"
    using scan_fit_some[of s1 sz e "[]" "s2 @ ment 0 0 # rest"] assms s1 by auto
  then show ?thesis using assms shift_left_rep[OF s2, of s1 "e\<lparr>m_size := 0\<rparr>" rest]
    by (simp add: rmalloc_def Let_def)
qed

lemma seg_split:
  assumes "sz < m_size e" "seg_end e \<le> 65536"
  shows "seg (ment (m_size e - sz) (m_addr e + sz)) = seg e - {unat (m_addr e) ..< unat (m_addr e) + unat sz}"
    and "unat (m_addr e + sz) = unat (m_addr e) + unat sz"
    and "seg_end (ment (m_size e - sz) (m_addr e + sz)) = seg_end e"
proof -
  have lt: "unat sz < unat (m_size e)" using assms(1) by (simp add: word_less_nat_alt)
  have sub: "unat (m_size e - sz) = unat (m_size e) - unat sz"
    using assms(1) by (intro unat_sub_le) simp
  show add: "unat (m_addr e + sz) = unat (m_addr e) + unat sz"
    using lt assms(2) by (intro unat_add_16) (simp add: seg_end_def)
  show "seg (ment (m_size e - sz) (m_addr e + sz)) =
      seg e - {unat (m_addr e) ..< unat (m_addr e) + unat sz}"
    using lt by (auto simp: seg_def sub add)
  show "seg_end (ment (m_size e - sz) (m_addr e + sz)) = seg_end e"
    using lt by (simp add: seg_end_def sub add)
qed

lemma seg_disjoint:
  assumes "wf_ents (s1 @ e # s2)" "f \<in> set s1 \<union> set s2"
  shows "seg f \<inter> seg e = {}"
  using assms by (auto simp: wf_ents_append seg_def seg_end_def)

lemma wf_ents_shrink:
  assumes wf: "wf_ents (s1 @ e # s2)" and lt: "sz < m_size e" and sz: "sz \<noteq> 0"
  shows "wf_ents (s1 @ ment (m_size e - sz) (m_addr e + sz) # s2)"
proof -
  have le: "seg_end e \<le> 65536" using wf by (simp add: wf_ents_append)
  note sp = seg_split[OF lt le]
  have "m_size e - sz \<noteq> 0" using lt by auto
  moreover have "m_addr e + sz \<noteq> 0"
    using sp(2) unat_pos[OF sz] by (metis add_gr_0 unat_0 less_irrefl)
  ultimately show ?thesis using wf sp by (auto simp: wf_ents_append)
qed

lemma first_fit_lowest:
  assumes wf: "wf_ents (s1 @ e # s2)" and s1: "\<forall>f\<in>set s1. m_size f < sz" and sz: "sz \<noteq> 0"
    and b: "b < unat (m_addr e)"
  shows "\<not> {b ..< b + unat sz} \<subseteq> \<Union> (seg ` set (s1 @ e # s2))"
proof
  assume "{b ..< b + unat sz} \<subseteq> \<Union> (seg ` set (s1 @ e # s2))"
  from seg_run[OF wf this unat_pos[OF sz]] obtain f
    where f: "f \<in> set (s1 @ e # s2)" and sub: "{b ..< b + unat sz} \<subseteq> seg f" by blast
  have b_in: "b \<in> seg f" using sub unat_pos[OF sz] by auto
  have "f \<in> set s1" using f b_in b wf by (auto simp: wf_ents_append seg_def seg_end_def)
  then have "unat (m_size f) < unat sz" using s1 by (auto simp: word_less_nat_alt)
  moreover have "b + unat sz - 1 \<in> seg f" using sub unat_pos[OF sz] by auto
  ultimately show False using b_in by (auto simp: seg_def)
qed

lemma wf_mapI: "m_map mp = es @ ment 0 0 # rest \<Longrightarrow> wf_ents es \<Longrightarrow> wf_map mp"
  by (auto simp: wf_map_rep)

lemma free_units_rep:
  "m_map mp = es @ ment 0 0 # rest \<Longrightarrow> wf_ents es \<Longrightarrow> free_units mp = \<Union> (seg ` set es)"
  by (simp add: free_units_def)

lemma no_fit_no_run:
  assumes wf: "wf_ents es" and small: "\<forall>e\<in>set es. m_size e < sz" and sz: "sz \<noteq> 0"
  shows "\<not> {b ..< b + unat sz} \<subseteq> \<Union> (seg ` set es)"
proof
  assume "{b ..< b + unat sz} \<subseteq> \<Union> (seg ` set es)"
  from seg_run[OF wf this unat_pos[OF sz]] obtain f
    where f: "f \<in> set es" and sub: "{b ..< b + unat sz} \<subseteq> seg f" by blast
  have "unat (m_size f) < unat sz" using f small by (auto simp: word_less_nat_alt)
  moreover have "b \<in> seg f" "b + unat sz - 1 \<in> seg f" using sub unat_pos[OF sz] by auto
  ultimately show False by (auto simp: seg_def)
qed

definition is_run :: "rmap \<Rightarrow> nat \<Rightarrow> u16 \<Rightarrow> bool" where
  "is_run mp b sz \<longleftrightarrow> {b ..< b + unat sz} \<subseteq> free_units mp"

definition same_frame :: "rmap \<Rightarrow> rmap \<Rightarrow> bool" where
  "same_frame mp mp' \<longleftrightarrow> length (m_map mp') = length (m_map mp) \<and> m_limit mp' = m_limit mp \<and>
     m_name mp' = m_name mp"

lemma rmalloc_fits:
  assumes rep: "m_map mp = (s1 @ e # s2) @ ment 0 0 # rest" and wf: "wf_ents (s1 @ e # s2)"
    and sz: "sz \<noteq> 0" and s1: "\<forall>f\<in>set s1. m_size f < sz" and le: "sz \<le> m_size e"
  shows "\<exists>mp'. rmalloc mp sz = Ok (m_addr e, mp') \<and> wf_map mp' \<and> same_frame mp mp' \<and>
    free_units mp' = free_units mp - {unat (m_addr e) ..< unat (m_addr e) + unat sz}"
proof (cases "sz < m_size e")
  case True
  let ?es = "s1 @ ment (m_size e - sz) (m_addr e + sz) # s2"
  let ?mp = "mp\<lparr>m_map := ?es @ ment 0 0 # rest\<rparr>"
  have wf': "wf_ents ?es" by (rule wf_ents_shrink[OF wf True sz])
  have end_le: "seg_end e \<le> 65536" using wf by (simp add: wf_ents_append)
  have "{unat (m_addr e) ..< unat (m_addr e) + unat sz} \<subseteq> seg e"
    using True by (auto simp: seg_def word_less_nat_alt)
  then have "free_units ?mp = free_units mp - {unat (m_addr e) ..< unat (m_addr e) + unat sz}"
    using seg_disjoint[OF wf] seg_split(1)[OF True end_le]
    by (simp add: free_units_rep[OF rep wf] free_units_rep[OF _ wf'] UN_Un) blast
  then show ?thesis
    using rmalloc_part[OF rep wf sz s1 True] wf_mapI[OF _ wf', of ?mp rest] rep
    by (auto simp: same_frame_def)
next
  case False
  then have eq: "m_size e = sz" using le by simp
  let ?mp = "mp\<lparr>m_map := (s1 @ s2) @ ment 0 0 # ment 0 0 # rest\<rparr>"
  have wf': "wf_ents (s1 @ s2)" using wf by (auto simp: wf_ents_append)
  have "free_units ?mp = free_units mp - seg e"
    using seg_disjoint[OF wf]
    by (simp add: free_units_rep[OF rep wf] free_units_rep[OF _ wf'] UN_Un) blast
  then show ?thesis
    using rmalloc_whole[OF rep wf sz s1 eq] wf_mapI[OF _ wf', of ?mp "ment 0 0 # rest"] rep
    by (auto simp: same_frame_def eq seg_def)
qed

lemma rmalloc_ok:
  assumes wf: "wf_map mp" and sz: "sz \<noteq> 0"
  shows "\<exists>a mp'. rmalloc mp sz = Ok (a, mp') \<and> wf_map mp' \<and> same_frame mp mp' \<and>
    (if \<exists>b. is_run mp b sz
     then a \<noteq> 0 \<and> is_run mp (unat a) sz \<and> (\<forall>b < unat a. \<not> is_run mp b sz) \<and>
          free_units mp' = free_units mp - {unat a ..< unat a + unat sz}
     else a = 0 \<and> mp' = mp)"
proof -
  from wf obtain es rest where rep: "m_map mp = es @ ment 0 0 # rest" and wfe: "wf_ents es"
    and fu: "free_units mp = \<Union> (seg ` set es)" by (rule wf_mapE)
  show ?thesis
  proof (cases "\<exists>e\<in>set es. sz \<le> m_size e")
    case False
    then have small: "\<forall>e\<in>set es. m_size e < sz" by (auto simp: not_le)
    then show ?thesis
      using rmalloc_none[OF rep wfe sz small] no_fit_no_run[OF wfe small sz] wf fu
      by (auto simp: is_run_def same_frame_def)
  next
    case True
    then obtain s1 e s2 where es: "es = s1 @ e # s2" and le: "sz \<le> m_size e"
      and s1: "\<forall>f\<in>set s1. \<not> sz \<le> m_size f" by (rule split_list_first_propE)
    from s1 have s1': "\<forall>f\<in>set s1. m_size f < sz" by (auto simp: not_le)
    obtain mp' where mp': "rmalloc mp sz = Ok (m_addr e, mp')" "wf_map mp'" "same_frame mp mp'"
      "free_units mp' = free_units mp - {unat (m_addr e) ..< unat (m_addr e) + unat sz}"
      using rmalloc_fits[of mp s1 e s2 rest sz] rep wfe sz s1' le es by blast
    have run: "is_run mp (unat (m_addr e)) sz"
      using le es fu by (auto simp: is_run_def seg_def word_le_nat_alt)
    have "m_addr e \<noteq> 0" using wfe es by (auto dest: wf_ents_addr)
    then show ?thesis
      using mp' run first_fit_lowest[OF wfe[unfolded es] s1' sz] fu es
      by (auto simp: is_run_def)
  qed
qed

section \<open>mfree gives the units back and keeps the segments maximal\<close>

text \<open>
  The situation of a call \<^verbatim>\<open>mfree(mp, size, addr)\<close>: \<open>L\<close> are the segments at or before
  \<open>addr\<close>, \<open>R\<close> those after, and the returned units are not free yet.
\<close>

definition freeing :: "mapent list \<Rightarrow> mapent list \<Rightarrow> u16 \<Rightarrow> u16 \<Rightarrow> bool" where
  "freeing L R sz addr \<longleftrightarrow> wf_ents (L @ R) \<and> sz \<noteq> 0 \<and> addr \<noteq> 0 \<and> unat addr + unat sz \<le> 65536 \<and>
     (\<forall>e\<in>set L. m_addr e \<le> addr \<and> seg_end e \<le> unat addr) \<and>
     (\<forall>f\<in>set R. addr < m_addr f \<and> unat addr + unat sz \<le> unat (m_addr f))"

lemma freeingI:
  assumes wf: "wf_ents es" and sz: "sz \<noteq> 0" "addr \<noteq> 0" "unat addr + unat sz \<le> 65536"
    and disj: "{unat addr ..< unat addr + unat sz} \<inter> \<Union> (seg ` set es) = {}"
  obtains L R where "es = L @ R" "freeing L R sz addr"
proof
  let ?L = "takeWhile (\<lambda>e. m_addr e \<le> addr) es" and ?R = "dropWhile (\<lambda>e. m_addr e \<le> addr) es"
  show es: "es = ?L @ ?R" by simp
  have L: "seg_end e \<le> unat addr" if "e \<in> set ?L" for e
  proof (rule ccontr)
    assume "\<not> seg_end e \<le> unat addr"
    moreover have "m_addr e \<le> addr" "e \<in> set es"
      using that by (auto dest: set_takeWhileD)
    ultimately have "unat addr \<in> \<Union> (seg ` set es)"
      by (auto simp: seg_def seg_end_def word_le_nat_alt)
    moreover have "unat addr \<in> {unat addr ..< unat addr + unat sz}"
      using unat_pos[OF sz(1)] by simp
    ultimately show False using disj by blast
  qed
  have gt: "addr < m_addr f" if f: "f \<in> set ?R" for f
  proof (cases ?R)
    case Nil then show ?thesis using f unfolding Nil by simp
  next
    case (Cons h t)
    then have "\<not> m_addr h \<le> addr" by (metis hd_dropWhile list.distinct(1) list.sel(1))
    moreover have "f = h \<or> unat (m_addr h) < unat (m_addr f)"
      using f Cons wf es by (metis wf_ents_append wf_ents.simps(2) seg_end_def set_ConsD
          le_add1 le_less_trans)
    ultimately show ?thesis by (auto simp: not_le word_less_nat_alt)
  qed
  have R: "unat addr + unat sz \<le> unat (m_addr f)" if f: "f \<in> set ?R" for f
  proof (rule ccontr)
    assume "\<not> unat addr + unat sz \<le> unat (m_addr f)"
    then have "unat (m_addr f) \<in> {unat addr ..< unat addr + unat sz}"
      using gt[OF f] by (auto simp: word_less_nat_alt)
    moreover have "m_size f \<noteq> 0" "f \<in> set es"
      using f wf wf_ents_size set_dropWhileD by metis+
    then have "unat (m_addr f) \<in> \<Union> (seg ` set es)"
      using unat_pos[of "m_size f"] by (auto simp: seg_def)
    ultimately show False using disj by blast
  qed
  show "freeing ?L ?R sz addr"
    using wf sz L R gt by (auto simp: freeing_def dest: set_takeWhileD)
qed

lemma freeing_find_after:
  assumes "freeing L R sz addr"
  shows "find_after (L @ R @ ment 0 0 # rest) addr 0 = Ok (length L)"
proof -
  have L: "\<forall>e\<in>set L. m_size e \<noteq> 0 \<and> m_addr e \<le> addr"
    using assms by (auto simp: freeing_def wf_ents_append dest: wf_ents_size)
  obtain f r where "R @ ment 0 0 # rest = f # r" "m_size f = 0 \<or> addr < m_addr f"
    using assms by (cases R) (auto simp: freeing_def)
  then show ?thesis using find_after_rep[OF L, of f "[]" r] by simp
qed

text \<open>In the situation \<open>freeing\<close> the 16-bit sums of the code do not wrap where they matter.\<close>

lemma freeing_left:
  assumes "freeing (L @ [e]) R sz addr"
  shows "addr \<le> m_addr e + m_size e \<longleftrightarrow> seg_end e = unat addr"
    and "unat (m_size e + sz) = unat (m_size e) + unat sz"
proof -
  have le: "seg_end e \<le> unat addr" and a: "unat addr + unat sz \<le> 65536" and e0: "m_addr e \<noteq> 0"
    using assms by (auto simp: freeing_def wf_ents_append)
  have "unat (m_addr e + m_size e) = seg_end e"
    using le unat_lt_16[of addr] unfolding seg_end_def by (intro unat_add_16) linarith
  then show "addr \<le> m_addr e + m_size e \<longleftrightarrow> seg_end e = unat addr"
    using le by (auto simp: word_le_nat_alt)
  show "unat (m_size e + sz) = unat (m_size e) + unat sz"
    using le a unat_pos[OF e0] by (intro unat_add_16) (simp add: seg_end_def)
qed

lemma freeing_right:
  assumes "freeing L (f # R) sz addr"
  shows "m_addr f \<le> addr + sz \<longleftrightarrow> unat addr + unat sz = unat (m_addr f)"
    and "unat (addr + sz) = unat addr + unat sz"
    and "unat (m_size f + sz) = unat (m_size f) + unat sz"
proof -
  have le: "unat addr + unat sz \<le> unat (m_addr f)" and e: "seg_end f \<le> 65536" and a: "addr \<noteq> 0"
    using assms by (auto simp: freeing_def wf_ents_append)
  show s: "unat (addr + sz) = unat addr + unat sz"
    using le unat_lt_16[of "m_addr f"] by (intro unat_add_16) linarith
  show "m_addr f \<le> addr + sz \<longleftrightarrow> unat addr + unat sz = unat (m_addr f)"
    using le by (auto simp: word_le_nat_alt s)
  show "unat (m_size f + sz) = unat (m_size f) + unat sz"
    using le e unat_pos[OF a] by (intro unat_add_16) (simp add: seg_end_def)
qed

lemma rmfree_both:
  assumes fr: "freeing (L @ [e]) (f # R) sz addr"
    and rep: "m_map mp = (L @ e # f # R) @ ment 0 0 # rest"
    and ab: "seg_end e = unat addr" "unat addr + unat sz = unat (m_addr f)"
  shows "rmfree mp sz addr = Ok (True, mp\<lparr>m_map :=
    (L @ ment (m_size e + sz + m_size f) (m_addr e) # R) @ ment 0 0 # ment 0 0 # rest\<rparr>)"
proof -
  let ?e = "e\<lparr>m_size := m_size e + sz + m_size f\<rparr>"
  have R: "\<forall>g\<in>set R. m_size g \<noteq> 0" and f0: "m_size f \<noteq> 0"
    using fr by (auto simp: freeing_def wf_ents_append dest: wf_ents_size)
  have e: "?e = ment (m_size e + sz + m_size f) (m_addr e)" by (cases e) simp
  show ?thesis
    using freeing_find_after[OF fr, of rest] rep ab f0 freeing_left(1)[OF fr] freeing_right(1)[OF fr]
      shift_left_rep[OF R, of "L @ [?e]" f rest] fr
    by (simp add: rmfree_def freeing_def Let_def e)
qed

lemma rmfree_left:
  assumes fr: "freeing (L @ [e]) R sz addr"
    and rep: "m_map mp = (L @ e # R) @ ment 0 0 # rest"
    and ab: "seg_end e = unat addr" "\<forall>f R'. R = f # R' \<longrightarrow> unat addr + unat sz \<noteq> unat (m_addr f)"
  shows "rmfree mp sz addr = Ok (True, mp\<lparr>m_map :=
    (L @ ment (m_size e + sz) (m_addr e) # R) @ ment 0 0 # rest\<rparr>)"
proof -
  have e: "e\<lparr>m_size := s\<rparr> = ment s (m_addr e)" for s by (cases e) simp
  note base = freeing_find_after[OF fr, of rest] freeing_left(1)[OF fr]
  show ?thesis
  proof (cases R)
    case Nil then show ?thesis
      using base rep ab fr by (simp add: rmfree_def freeing_def Let_def e)
  next
    case (Cons f R') then show ?thesis
      using base rep ab fr freeing_right(1)[OF fr[unfolded Cons]]
      by (simp add: rmfree_def freeing_def Let_def e)
  qed
qed

lemma freeing_not_left:
  assumes fr: "freeing L R sz addr" and no: "\<forall>L' e. L = L' @ [e] \<longrightarrow> seg_end e \<noteq> unat addr"
  shows "L \<noteq> [] \<Longrightarrow> \<not> addr \<le> m_addr ((L @ ys) ! (length L - 1)) + m_size ((L @ ys) ! (length L - 1))"
proof -
  assume "L \<noteq> []"
  then obtain L' e where L: "L = L' @ [e]" by (cases L rule: rev_cases) auto
  then show "\<not> addr \<le> m_addr ((L @ ys) ! (length L - 1)) + m_size ((L @ ys) ! (length L - 1))"
    using no freeing_left(1)[OF fr[unfolded L]] by simp
qed

lemma rmfree_right:
  assumes fr: "freeing L (f # R) sz addr"
    and rep: "m_map mp = (L @ f # R) @ ment 0 0 # rest"
    and no: "\<forall>L' e. L = L' @ [e] \<longrightarrow> seg_end e \<noteq> unat addr"
    and ab: "unat addr + unat sz = unat (m_addr f)"
  shows "rmfree mp sz addr = Ok (True, mp\<lparr>m_map :=
    (L @ ment (m_size f + sz) addr # R) @ ment 0 0 # rest\<rparr>)"
proof -
  have "m_size f \<noteq> 0" using fr by (auto simp: freeing_def wf_ents_append)
  then show ?thesis
    using freeing_find_after[OF fr, of rest] rep ab fr freeing_right(1)[OF fr]
      freeing_not_left[OF fr no]
    by (auto simp: rmfree_def freeing_def Let_def)
qed

lemma rmfree_new:
  assumes fr: "freeing L R sz addr"
    and rep: "m_map mp = (L @ R) @ ment 0 0 # rest"
    and no: "\<forall>L' e. L = L' @ [e] \<longrightarrow> seg_end e \<noteq> unat addr"
    and nr: "\<forall>f R'. R = f # R' \<longrightarrow> unat addr + unat sz \<noteq> unat (m_addr f)"
  shows "rmfree mp sz addr =
    (if m_limit mp < Suc (length (L @ R)) then Ok (False, mp)
     else case rest of [] \<Rightarrow> Fault
       | j # rest' \<Rightarrow> Ok (True, mp\<lparr>m_map := (L @ ment sz addr # R) @ ment 0 0 # rest'\<rparr>))"
proof -
  have nR: "\<not> (m_size ((R @ ment 0 0 # rest) ! 0) \<noteq> 0 \<and> m_addr ((R @ ment 0 0 # rest) ! 0) \<le> addr + sz)"
    using nr fr freeing_right(1)[of L] by (cases R) auto
  have "\<forall>e\<in>set R. m_size e \<noteq> 0"
    using fr by (auto simp: freeing_def wf_ents_append dest: wf_ents_size)
  from find_end_rep[OF this, of L 0 rest]
  have fe: "find_end (m_map mp) (length L) = Ok (length L + length R)" using rep by simp
  have sh: "shift_right (L @ (R @ [ment 0 0]) @ j # rest') (length L) (Suc (length R)) =
     L @ hd (R @ [ment 0 0]) # (R @ [ment 0 0]) @ rest'" for j rest'
    using shift_right_rep[of L "R @ [ment 0 0]" j rest'] by (cases R) auto
  show ?thesis
    using freeing_find_after[OF fr, of rest] fe rep fr freeing_not_left[OF fr no] nR sh
    by (cases rest) (auto simp: rmfree_def freeing_def Let_def nth_append)
qed

lemma wf_ents_mid:
  "wf_ents (A @ x # B) \<longleftrightarrow> wf_ents A \<and> wf_ents B \<and> m_size x \<noteq> 0 \<and> m_addr x \<noteq> 0 \<and> seg_end x \<le> 65536 \<and>
     (\<forall>a\<in>set A. seg_end a < unat (m_addr x)) \<and> (\<forall>b\<in>set B. seg_end x < unat (m_addr b)) \<and>
     (\<forall>a\<in>set A. \<forall>b\<in>set B. seg_end a < unat (m_addr b))"
  by (auto simp: wf_ents_append)

lemma size_nonzero: "unat (m_size x) = n \<Longrightarrow> 0 < n \<Longrightarrow> m_size x \<noteq> 0"
  by auto

text \<open>
  Replacing the neighbours \<open>M\<close> of the returned units by one segment \<open>x\<close> that is their
  union keeps the array well-formed.
\<close>

lemma wf_ents_merge:
  assumes wf: "wf_ents (A @ M @ B)" and M: "M \<noteq> []" "x = ment s (m_addr (hd M))"
    and s: "unat (m_addr (hd M)) + unat s = seg_end (last M)" and s0: "s \<noteq> 0"
  shows "wf_ents (A @ x # B)"
proof -
  have "seg_end x = seg_end (last M)" using M s by (simp add: seg_end_def)
  moreover have "last M \<in> set M" "hd M \<in> set M" using M by auto
  moreover have "seg_end (last M) \<le> 65536" "m_addr (hd M) \<noteq> 0"
    using wf M wf_ents_end[of M "last M"] wf_ents_addr[of M "hd M"] by (auto simp: wf_ents_append)
  ultimately show ?thesis using wf M s0 unfolding wf_ents_mid wf_ents_append by simp
qed

definition gave_back :: "rmap \<Rightarrow> u16 \<Rightarrow> u16 \<Rightarrow> rmap \<Rightarrow> bool" where
  "gave_back mp sz addr mp' \<longleftrightarrow> wf_map mp' \<and> same_frame mp mp' \<and>
     free_units mp' = free_units mp \<union> {unat addr ..< unat addr + unat sz}"

lemma gave_backI:
  assumes rep: "m_map mp = es @ ment 0 0 # rest" "wf_ents es"
    and rep': "m_map mp' = es' @ ment 0 0 # rest'" and wf': "wf_ents es'"
    and len: "length es' + length rest' = length es + length rest"
    and eq: "m_limit mp' = m_limit mp" "m_name mp' = m_name mp"
    and un: "\<Union> (seg ` set es') = \<Union> (seg ` set es) \<union> {unat addr ..< unat addr + unat sz}"
  shows "gave_back mp sz addr mp'"
  using assms free_units_rep[OF rep] free_units_rep[OF rep' wf'] wf_mapI[OF rep' wf']
  by (auto simp: gave_back_def same_frame_def)

lemma freeing_facts:
  assumes "freeing L R sz addr"
  shows "wf_ents (L @ R)" "sz \<noteq> 0" "addr \<noteq> 0" "0 < unat sz" "unat addr + unat sz \<le> 65536"
  using assms unat_pos by (auto simp: freeing_def)

lemma freeing_strict_right:
  assumes fr: "freeing L R sz addr"
    and nr: "\<forall>f R'. R = f # R' \<longrightarrow> unat addr + unat sz \<noteq> unat (m_addr f)"
  shows "\<forall>b\<in>set R. unat addr + unat sz < unat (m_addr b)"
  using assms freeing_facts[OF fr]
  by (cases R) (force simp: freeing_def wf_ents_append seg_end_def)+

lemma freeing_strict_left:
  assumes fr: "freeing L R sz addr" and no: "\<forall>L' e. L = L' @ [e] \<longrightarrow> seg_end e \<noteq> unat addr"
  shows "\<forall>a\<in>set L. seg_end a < unat addr"
  using assms freeing_facts[OF fr]
  by (cases L rule: rev_cases) (force simp: freeing_def wf_ents_append seg_end_def)+

lemma gave_back_both:
  assumes fr: "freeing (L @ [e]) (f # R) sz addr"
    and rep: "m_map mp = (L @ e # f # R) @ ment 0 0 # rest"
    and ab: "seg_end e = unat addr" "unat addr + unat sz = unat (m_addr f)"
  shows "\<exists>mp'. rmfree mp sz addr = Ok (True, mp') \<and> gave_back mp sz addr mp'"
proof -
  let ?x = "ment (m_size e + sz + m_size f) (m_addr e)"
  let ?mp = "mp\<lparr>m_map := (L @ ?x # R) @ ment 0 0 # ment 0 0 # rest\<rparr>"
  have wf: "wf_ents (L @ e # f # R)" and szp: "0 < unat sz" using freeing_facts[OF fr] by auto
  have fe: "seg_end f \<le> 65536" and e0: "m_addr e \<noteq> 0"
    using wf by (auto simp: wf_ents_append)
  have es: "unat (m_size e + sz) = unat (m_size e) + unat sz" by (rule freeing_left(2)[OF fr])
  have xs: "unat (m_size e + sz + m_size f) = unat (m_size e) + unat sz + unat (m_size f)"
    unfolding es[symmetric] using es ab fe unat_pos[OF e0]
    by (intro unat_add_16) (simp add: seg_end_def)
  have nz: "m_size e + sz + m_size f \<noteq> 0"
  proof
    assume "m_size e + sz + m_size f = 0"
    then show False using xs szp by (simp del: add_eq_0_iff)
  qed
  have wf': "wf_ents (L @ ?x # R)"
    using wf nz ab xs by (intro wf_ents_merge[of _ "[e, f]"]) (simp_all add: seg_end_def)
  have "seg ?x = seg e \<union> {unat addr ..< unat addr + unat sz} \<union> seg f"
    using ab xs by (auto simp: seg_def seg_end_def)
  then have "gave_back mp sz addr ?mp"
    by (intro gave_backI[OF rep wf _ wf']) auto
  then show ?thesis using rmfree_both[OF fr rep ab] by blast
qed

lemma gave_back_left:
  assumes fr: "freeing (L @ [e]) R sz addr"
    and rep: "m_map mp = (L @ e # R) @ ment 0 0 # rest"
    and ab: "seg_end e = unat addr" "\<forall>f R'. R = f # R' \<longrightarrow> unat addr + unat sz \<noteq> unat (m_addr f)"
  shows "\<exists>mp'. rmfree mp sz addr = Ok (True, mp') \<and> gave_back mp sz addr mp'"
proof -
  let ?x = "ment (m_size e + sz) (m_addr e)"
  let ?mp = "mp\<lparr>m_map := (L @ ?x # R) @ ment 0 0 # rest\<rparr>"
  note fa = freeing_facts[OF fr] and es = freeing_left(2)[OF fr]
  have wf: "wf_ents (L @ e # R)" using fa by simp
  have xe: "seg_end ?x = unat addr + unat sz" using ab es by (simp add: seg_end_def)
  have "m_size ?x \<noteq> 0" using es fa(4) by (intro size_nonzero[of ?x, OF refl]) simp
  then have wf': "wf_ents (L @ ?x # R)"
    using wf fa(5) xe freeing_strict_right[OF fr ab(2)] unfolding wf_ents_mid by auto
  have "seg ?x = seg e \<union> {unat addr ..< unat addr + unat sz}"
    using ab es by (auto simp: seg_def seg_end_def)
  then have "gave_back mp sz addr ?mp"
    by (intro gave_backI[OF rep wf _ wf']) auto
  then show ?thesis using rmfree_left[OF fr rep ab] by blast
qed

lemma gave_back_right:
  assumes fr: "freeing L (f # R) sz addr"
    and rep: "m_map mp = (L @ f # R) @ ment 0 0 # rest"
    and no: "\<forall>L' e. L = L' @ [e] \<longrightarrow> seg_end e \<noteq> unat addr"
    and ab: "unat addr + unat sz = unat (m_addr f)"
  shows "\<exists>mp'. rmfree mp sz addr = Ok (True, mp') \<and> gave_back mp sz addr mp'"
proof -
  let ?x = "ment (m_size f + sz) addr"
  let ?mp = "mp\<lparr>m_map := (L @ ?x # R) @ ment 0 0 # rest\<rparr>"
  note fa = freeing_facts[OF fr] and fs = freeing_right(3)[OF fr]
  have xe: "seg_end ?x = seg_end f" using ab fs by (simp add: seg_end_def)
  have "m_size ?x \<noteq> 0" using fs fa(4) by (intro size_nonzero[of ?x, OF refl]) simp
  then have wf': "wf_ents (L @ ?x # R)"
    using fa xe freeing_strict_left[OF fr no] unfolding wf_ents_mid by auto
  have "seg ?x = seg f \<union> {unat addr ..< unat addr + unat sz}"
    using ab fs by (auto simp: seg_def)
  then have "gave_back mp sz addr ?mp"
    by (intro gave_backI[OF rep fa(1) _ wf']) auto
  then show ?thesis using rmfree_right[OF fr rep no ab] by blast
qed

lemma gave_back_new:
  assumes fr: "freeing L R sz addr"
    and rep: "m_map mp = (L @ R) @ ment 0 0 # rest"
    and no: "\<forall>L' e. L = L' @ [e] \<longrightarrow> seg_end e \<noteq> unat addr"
    and nr: "\<forall>f R'. R = f # R' \<longrightarrow> unat addr + unat sz \<noteq> unat (m_addr f)"
    and room: "length (L @ R) < m_limit mp" "m_limit mp < length (m_map mp)"
  shows "\<exists>mp'. rmfree mp sz addr = Ok (True, mp') \<and> gave_back mp sz addr mp'"
proof -
  obtain j rest' where rest: "rest = j # rest'" using room rep by (cases rest) auto
  let ?mp = "mp\<lparr>m_map := (L @ ment sz addr # R) @ ment 0 0 # rest'\<rparr>"
  note fa = freeing_facts[OF fr]
  have wf': "wf_ents (L @ ment sz addr # R)"
    using fa freeing_strict_left[OF fr no] freeing_strict_right[OF fr nr]
    unfolding wf_ents_mid by (auto simp: wf_ents_append seg_end_def)
  have "gave_back mp sz addr ?mp"
    by (intro gave_backI[OF rep fa(1) _ wf']) (auto simp: rest seg_def)
  then show ?thesis using rmfree_new[OF fr rep no nr] room rest by auto
qed

lemma rmfree_split:
  assumes fr: "freeing L R sz addr" and rep: "m_map mp = (L @ R) @ ment 0 0 # rest"
    and lim: "m_limit mp < length (m_map mp)"
  shows "(\<exists>mp'. rmfree mp sz addr = Ok (True, mp') \<and> gave_back mp sz addr mp') \<or>
    (rmfree mp sz addr = Ok (False, mp) \<and> m_limit mp \<le> length (L @ R))"
proof (cases "\<exists>L' e. L = L' @ [e] \<and> seg_end e = unat addr";
       cases "\<exists>f R'. R = f # R' \<and> unat addr + unat sz = unat (m_addr f)")
  assume "\<exists>L' e. L = L' @ [e] \<and> seg_end e = unat addr"
    and "\<exists>f R'. R = f # R' \<and> unat addr + unat sz = unat (m_addr f)"
  then show ?thesis using gave_back_both fr rep by fastforce
next
  assume "\<exists>L' e. L = L' @ [e] \<and> seg_end e = unat addr"
    and "\<nexists>f R'. R = f # R' \<and> unat addr + unat sz = unat (m_addr f)"
  then show ?thesis using gave_back_left[of _ _ R sz addr mp rest] fr rep by fastforce
next
  assume "\<nexists>L' e. L = L' @ [e] \<and> seg_end e = unat addr"
    and "\<exists>f R'. R = f # R' \<and> unat addr + unat sz = unat (m_addr f)"
  then show ?thesis using gave_back_right[of L _ _ sz addr mp rest] fr rep by blast
next
  assume no: "\<nexists>L' e. L = L' @ [e] \<and> seg_end e = unat addr"
    and nr: "\<nexists>f R'. R = f # R' \<and> unat addr + unat sz = unat (m_addr f)"
  show ?thesis
  proof (cases "length (L @ R) < m_limit mp")
    case True then show ?thesis using gave_back_new[OF fr rep _ _ True lim] no nr by blast
  next
    case False then show ?thesis using rmfree_new[OF fr rep] no nr by auto
  qed
qed

lemma rmfree_ok:
  assumes wf: "wf_map mp" and lim: "m_limit mp < length (m_map mp)"
    and sz: "sz \<noteq> 0" "addr \<noteq> 0" "unat addr + unat sz \<le> 65536"
    and disj: "{unat addr ..< unat addr + unat sz} \<inter> free_units mp = {}"
  shows "(\<exists>mp'. rmfree mp sz addr = Ok (True, mp') \<and> gave_back mp sz addr mp') \<or>
    (rmfree mp sz addr = Ok (False, mp) \<and> m_limit mp \<le> length (entries (m_map mp)))"
proof -
  from wf obtain es rest where rep: "m_map mp = es @ ment 0 0 # rest" and wfe: "wf_ents es"
    and fu: "free_units mp = \<Union> (seg ` set es)" and ents: "entries (m_map mp) = es" by (rule wf_mapE)
  from freeingI[OF wfe sz] disj fu obtain L R where "es = L @ R" "freeing L R sz addr" by auto
  then show ?thesis using rmfree_split[of L R sz addr mp rest] rep lim ents by auto
qed

end
