(* ===== verification/Allocator.thy ===== *)
theory Allocator
  imports Prelude
begin

text \<open>
  The contract of an extent allocator, as the kernel's resource maps provide it and the memory
  and swap code rely on it, and what follows for every sequence of calls of a client that frees
  only what it was given: no unit is handed out twice. \<open>alloc_step\<close> is one call of such a
  client; its state is the allocator and the list of the extents (address, size) it holds.
\<close>

definition extent :: "u16 \<times> u16 \<Rightarrow> nat set" where
  "extent e = {unat (fst e) ..< unat (fst e) + unat (snd e)}"

inductive alloc_step ::
  "('s \<Rightarrow> u16 \<Rightarrow> (u16 \<times> 's) outcome) \<Rightarrow> ('s \<Rightarrow> u16 \<Rightarrow> u16 \<Rightarrow> (bool \<times> 's) outcome) \<Rightarrow>
   's \<times> (u16 \<times> u16) list \<Rightarrow> 's \<times> (u16 \<times> u16) list \<Rightarrow> bool"
  for alloc release where
  got: "alloc s sz = Ok (a, s') \<Longrightarrow> sz \<noteq> 0 \<Longrightarrow> a \<noteq> 0 \<Longrightarrow>
     alloc_step alloc release (s, held) (s', (a, sz) # held)"
| refused: "alloc s sz = Ok (0, s') \<Longrightarrow> sz \<noteq> 0 \<Longrightarrow> alloc_step alloc release (s, held) (s', held)"
| gave: "release s sz a = Ok (b, s') \<Longrightarrow> (a, sz) \<in> set held \<Longrightarrow>
     alloc_step alloc release (s, held) (s', remove1 (a, sz) held)"

inductive_cases alloc_stepE: "alloc_step alloc release x y"

definition alloc_reach where
  "alloc_reach alloc release s0 = (alloc_step alloc release)\<^sup>*\<^sup>* (s0, [])"

text \<open>What the client holds: real extents, disjoint from each other and from what is free.\<close>

definition held_ok :: "nat set \<Rightarrow> (u16 \<times> u16) list \<Rightarrow> bool" where
  "held_ok free held \<longleftrightarrow>
     (\<forall>e\<in>set held. fst e \<noteq> 0 \<and> snd e \<noteq> 0 \<and> unat (fst e) + unat (snd e) \<le> 65536 \<and> extent e \<inter> free = {}) \<and>
     sorted_wrt (\<lambda>e f. extent e \<inter> extent f = {}) held"

lemma held_ok_remove1:
  assumes "held_ok free held" "e \<in> set held"
  shows "held_ok (free \<union> extent e) (remove1 e held)" "held_ok free (remove1 e held)"
proof -
  from split_list_first[OF assms(2)] obtain l r where held: "held = l @ e # r" "e \<notin> set l" by blast
  then have rm: "remove1 e held = l @ r" by (simp add: remove1_append)
  have dj: "extent f \<inter> extent e = {}" if "f \<in> set l \<union> set r" for f
    using assms(1) that held by (auto simp: held_ok_def sorted_wrt_append)
  show "held_ok free (remove1 e held)"
    using assms(1) held rm by (auto simp: held_ok_def sorted_wrt_append)
  then show "held_ok (free \<union> extent e) (remove1 e held)"
    using dj unfolding rm held_ok_def by (auto simp: Int_Un_distrib)
qed

lemma held_facts:
  assumes "held_ok free held" "(a, sz) \<in> set held"
  shows "a \<noteq> 0" "sz \<noteq> 0" "unat a + unat sz \<le> 65536" "extent (a, sz) \<inter> free = {}"
  using assms by (fastforce simp: held_ok_def)+

locale extent_allocator =
  fixes inv :: "'s \<Rightarrow> bool"
    and avail :: "'s \<Rightarrow> nat set"
    and alloc :: "'s \<Rightarrow> u16 \<Rightarrow> (u16 \<times> 's) outcome"
    and release :: "'s \<Rightarrow> u16 \<Rightarrow> u16 \<Rightarrow> (bool \<times> 's) outcome"
  assumes avail_bound: "inv s \<Longrightarrow> avail s \<subseteq> {..<65536}"
    and alloc_ok: "inv s \<Longrightarrow> sz \<noteq> 0 \<Longrightarrow> \<exists>a s'. alloc s sz = Ok (a, s') \<and> inv s' \<and>
      (if a = 0 then s' = s
       else extent (a, sz) \<subseteq> avail s \<and> avail s' = avail s - extent (a, sz))"
    and release_ok: "inv s \<Longrightarrow> sz \<noteq> 0 \<Longrightarrow> a \<noteq> 0 \<Longrightarrow> unat a + unat sz \<le> 65536 \<Longrightarrow>
      extent (a, sz) \<inter> avail s = {} \<Longrightarrow> \<exists>b s'. release s sz a = Ok (b, s') \<and> inv s' \<and>
      avail s' = (if b then avail s \<union> extent (a, sz) else avail s)"
begin

definition client_inv :: "nat set \<Rightarrow> 's \<times> (u16 \<times> u16) list \<Rightarrow> bool" where
  "client_inv pool x \<longleftrightarrow> inv (fst x) \<and> held_ok (avail (fst x)) (snd x) \<and>
     avail (fst x) \<union> \<Union> (extent ` set (snd x)) \<subseteq> pool"

lemma extent_bound: "inv s \<Longrightarrow> extent (a, sz) \<subseteq> avail s \<Longrightarrow> sz \<noteq> 0 \<Longrightarrow> unat a + unat sz \<le> 65536"
proof -
  assume "inv s" "extent (a, sz) \<subseteq> avail s" "sz \<noteq> 0"
  then have "{unat a ..< unat a + unat sz} \<subseteq> {..<65536}" "0 < unat sz"
    using avail_bound[of s] unat_pos[of sz] by (auto simp: extent_def)
  moreover from this have "unat a + unat sz - 1 \<in> {unat a ..< unat a + unat sz}" by auto
  ultimately have "unat a + unat sz - 1 < 65536" by (meson lessThan_iff subsetD)
  then show ?thesis by linarith
qed

lemma client_step:
  assumes "alloc_step alloc release x y" "client_inv pool x"
  shows "client_inv pool y"
  using assms
proof (cases rule: alloc_step.cases)
  case (got s sz a s' held)
  then have i: "inv s" "held_ok (avail s) held" "avail s \<union> \<Union> (extent ` set held) \<subseteq> pool"
    using assms(2) by (auto simp: client_inv_def)
  from alloc_ok[OF i(1) got(4)] got
  have s': "inv s'" "extent (a, sz) \<subseteq> avail s" "avail s' = avail s - extent (a, sz)" by auto
  have "unat a + unat sz \<le> 65536" by (rule extent_bound[OF i(1) s'(2) got(4)])
  then show ?thesis using got i s' by (auto simp: client_inv_def held_ok_def)
next
  case (refused s sz s' held)
  then show ?thesis using assms(2) alloc_ok[of s sz] by (auto simp: client_inv_def)
next
  case (gave s sz a b s' held)
  then have i: "inv s" "held_ok (avail s) held" "avail s \<union> \<Union> (extent ` set held) \<subseteq> pool"
    using assms(2) by (auto simp: client_inv_def)
  note e = held_facts[OF i(2) gave(4)]
  from release_ok[OF i(1) e(2,1,3,4)] gave
  have s': "inv s'" "avail s' = (if b then avail s \<union> extent (a, sz) else avail s)" by auto
  have "set (remove1 (a, sz) held) \<subseteq> set held" by (rule set_remove1_subset)
  then have "avail s' \<union> \<Union> (extent ` set (remove1 (a, sz) held)) \<subseteq> pool"
    using i(3) s'(2) gave(4) by auto blast+
  then show ?thesis
    using gave s' held_ok_remove1[OF i(2) gave(4)] by (auto simp: client_inv_def)
qed

lemma client_reach:
  assumes "inv s0" "alloc_reach alloc release s0 (s, held)"
  shows "client_inv (avail s0) (s, held)"
proof -
  have "client_inv (avail s0) (s0, [])" using assms(1) by (simp add: client_inv_def held_ok_def)
  moreover have "(alloc_step alloc release)\<^sup>*\<^sup>* (s0, []) (s, held)"
    using assms(2) by (simp add: alloc_reach_def)
  ultimately show ?thesis
    using rtranclp_induct[where P = "client_inv (avail s0)"] client_step by metis
qed

lemma client_progress:
  assumes "inv s0" "alloc_reach alloc release s0 (s, held)"
  shows "sz \<noteq> 0 \<Longrightarrow> is_Ok (alloc s sz)" "(a, sz) \<in> set held \<Longrightarrow> is_Ok (release s sz a)"
proof -
  have c: "inv s" "held_ok (avail s) held" using client_reach[OF assms] by (auto simp: client_inv_def)
  show "is_Ok (alloc s sz)" if "sz \<noteq> 0" using alloc_ok[OF c(1) that] by auto
  show "is_Ok (release s sz a)" if "(a, sz) \<in> set held"
    using release_ok[OF c(1), of sz a] held_facts[OF c(2) that] by auto
qed

lemma alloc_release:
  assumes "inv s" "sz \<noteq> 0" "alloc s sz = Ok (a, s')" "a \<noteq> 0" "release s' sz a = Ok (True, s'')"
  shows "avail s'' = avail s"
proof -
  from alloc_ok[OF assms(1,2)] assms(3,4)
  have s': "inv s'" "extent (a, sz) \<subseteq> avail s" "avail s' = avail s - extent (a, sz)" by auto
  have "unat a + unat sz \<le> 65536" by (rule extent_bound[OF assms(1) s'(2) assms(2)])
  from release_ok[OF s'(1) assms(2,4) this] s'(3) assms(5)
  have "avail s'' = avail s' \<union> extent (a, sz)" by auto
  then show ?thesis using s' by blast
qed

end

end
