(* ===== verification/Rmap3.thy ===== *)
theory Rmap3
  imports Rmap Allocator
begin

text \<open>
  \<^verbatim>\<open>malloc3\<close> of \<^verbatim>\<open>sys/sys/subr_rmap.c\<close>: the three segments of a process (data, stack and
  u-area) are taken from a map at once, or none is. The definitions follow the code's phases:
  the double loop that reserves sizes (\<open>m3_entry\<close>, \<open>m3_scan\<close>), the restoring of the sizes on
  failure (\<open>m3_restore\<close>), the assignment of addresses (\<open>m3_resolve\<close>) and the removal of the
  used up entries (\<open>m3_compact\<close>).
\<close>

section \<open>Definitions\<close>

record m3state =
  m3_map :: "mapent list"
  madd :: "nat option list"
  remap :: "nat option"
  found :: nat

text \<open>The inner loop over \<^verbatim>\<open>next\<close> for one entry; the boolean is the jump to \<^verbatim>\<open>resolve\<close>.\<close>

fun m3_entry :: "u16 list \<Rightarrow> nat \<Rightarrow> nat list \<Rightarrow> m3state \<Rightarrow> m3state \<times> bool" where
  "m3_entry sizes bp [] st = (st, False)"
| "m3_entry sizes bp (nxt # ns) st =
     (if madd st ! nxt = None \<and> sizes ! nxt \<le> m_size (m3_map st ! bp)
      then let xs = m3_map st;
               e = (xs ! bp)\<lparr>m_size := m_size (xs ! bp) - sizes ! nxt\<rparr>;
               st' = st\<lparr>m3_map := xs[bp := e],
                        madd := (madd st)[nxt := Some bp],
                        remap := (if m_size e = 0 \<and> remap st = None then Some bp else remap st),
                        found := Suc (found st)\<rparr>
           in if found st' = 3 then (st', True) else m3_entry sizes bp ns st'
      else m3_entry sizes bp ns st)"

lemma m3_entry_length: "length (m3_map (fst (m3_entry sizes bp ns st))) = length (m3_map st)"
  by (induction sizes bp ns st rule: m3_entry.induct) (auto simp: Let_def)


declare m3_entry.simps [simp del]

function m3_scan :: "u16 list \<Rightarrow> nat \<Rightarrow> m3state \<Rightarrow> (m3state \<times> bool) outcome" where
  "m3_scan sizes bp st =
     (if bp < length (m3_map st)
      then if m_size (m3_map st ! bp) = 0 then Ok (st, False)
           else let r = m3_entry sizes bp [0, 1, 2] st
                in if snd r then Ok r else m3_scan sizes (Suc bp) (fst r)
      else Fault)"
  by pat_completeness auto
termination
  by (relation "measure (\<lambda>(sizes, bp, st). length (m3_map st) - bp)") (auto simp: m3_entry_length)

declare m3_scan.simps [simp del]

text \<open>\<^verbatim>\<open>if (madd[next]) madd[next]->m_size += sizes[next]\<close>\<close>

fun m3_restore :: "u16 list \<Rightarrow> nat option list \<Rightarrow> nat list \<Rightarrow> mapent list \<Rightarrow> mapent list" where
  "m3_restore sizes md [] xs = xs"
| "m3_restore sizes md (nxt # ns) xs =
     m3_restore sizes md ns
       (case md ! nxt of None \<Rightarrow> xs
        | Some bp \<Rightarrow> xs[bp := (xs ! bp)\<lparr>m_size := m_size (xs ! bp) + sizes ! nxt\<rparr>])"

text \<open>\<^verbatim>\<open>bp = madd[next]; a[next] = bp->m_addr; bp->m_addr += sizes[next];\<close>\<close>

fun m3_resolve :: "u16 list \<Rightarrow> nat option list \<Rightarrow> nat list \<Rightarrow> mapent list \<Rightarrow> u16 list \<times> mapent list" where
  "m3_resolve sizes md [] xs = ([], xs)"
| "m3_resolve sizes md (nxt # ns) xs =
     (let bp = the (md ! nxt);
          a = m_addr (xs ! bp);
          r = m3_resolve sizes md ns (xs[bp := (xs ! bp)\<lparr>m_addr := a + sizes ! nxt\<rparr>])
      in (a # fst r, snd r))"

text \<open>
  \<^verbatim>\<open>for (bp = remap + 1;; ++bp) if (bp->m_size || !bp->m_addr) { *remap++ = *bp;
  if (!bp->m_addr) break; }\<close>
\<close>

function m3_compact :: "mapent list \<Rightarrow> nat \<Rightarrow> nat \<Rightarrow> mapent list outcome" where
  "m3_compact xs rm bp =
     (if bp < length xs \<and> rm < length xs
      then if m_size (xs ! bp) \<noteq> 0 \<or> m_addr (xs ! bp) = 0
           then let xs' = xs[rm := xs ! bp]
                in if m_addr (xs' ! bp) = 0 then Ok xs' else m3_compact xs' (Suc rm) (Suc bp)
           else m3_compact xs rm (Suc bp)
      else Fault)"
  by pat_completeness auto
termination
  by (relation "measure (\<lambda>(xs, rm, bp). length xs - bp)") (auto simp: Let_def)

declare m3_compact.simps [simp del]

text \<open>
  One attempt of \<^verbatim>\<open>malloc3\<close>: \<open>Some a\<close> with the three addresses on success (the code returns
  \<^verbatim>\<open>a[2]\<close>), \<open>None\<close> (\<^verbatim>\<open>NULL\<close>) with the sizes restored when the map cannot hold all three.
\<close>

definition rmalloc3 :: "rmap \<Rightarrow> u16 \<Rightarrow> u16 \<Rightarrow> u16 \<Rightarrow> (u16 list option \<times> rmap) outcome" where
  "rmalloc3 mp d_size s_size u_size =
     (let sizes = [d_size, s_size, u_size];
          st0 = \<lparr>m3_map = m_map mp, madd = [None, None, None], remap = None, found = 0\<rparr>
      in obind (m3_scan sizes 0 st0) (\<lambda>r.
           let st = fst r in
           if snd r
           then let av = m3_resolve sizes (madd st) [0, 1, 2] (m3_map st)
                in case remap st of
                     None \<Rightarrow> Ok (Some (fst av), mp\<lparr>m_map := snd av\<rparr>)
                   | Some rm \<Rightarrow> omap (\<lambda>ys. (Some (fst av), mp\<lparr>m_map := ys\<rparr>))
                                     (m3_compact (snd av) rm (Suc rm))
           else Ok (None, mp\<lparr>m_map := m3_restore sizes (madd st) [0, 1, 2] (m3_map st)\<rparr>)))"

section \<open>The invariant of the scan\<close>

text \<open>The units reserved so far in entry \<open>i\<close>.\<close>

definition used :: "u16 list \<Rightarrow> nat option list \<Rightarrow> nat \<Rightarrow> nat" where
  "used sizes md i = (\<Sum>k<3. if md ! k = Some i then unat (sizes ! k) else 0)"

lemma used_update:
  assumes "k < 3" "length md = 3" "md ! k = None"
  shows "used sizes (md[k := Some j]) i = used sizes md i + (if i = j then unat (sizes ! k) else 0)"
proof -
  have "(\<Sum>l<3. if md[k := Some j] ! l = Some i then unat (sizes ! l) else 0) =
    (\<Sum>l<3. (if md ! l = Some i then unat (sizes ! l) else 0) +
      (if l = k then (if i = j then unat (sizes ! k) else 0) else 0))"
    using assms by (intro sum.cong) (auto simp: nth_list_update)
  also have "\<dots> = used sizes md i + (if i = j then unat (sizes ! k) else 0)"
    using assms by (simp add: sum.distrib used_def)
  finally show ?thesis by (simp add: used_def)
qed

definition shrunk :: "u16 list \<Rightarrow> nat option list \<Rightarrow> mapent list \<Rightarrow> nat \<Rightarrow> mapent" where
  "shrunk sizes md xs0 i = (xs0 ! i)\<lparr>m_size := m_size (xs0 ! i) - of_nat (used sizes md i)\<rparr>"

definition m3_inv :: "u16 list \<Rightarrow> mapent list \<Rightarrow> nat \<Rightarrow> nat \<Rightarrow> m3state \<Rightarrow> bool" where
  "m3_inv sizes xs0 n bp st \<longleftrightarrow>
     length (m3_map st) = length xs0 \<and> length (madd st) = 3 \<and>
     found st = card {k. k < 3 \<and> madd st ! k \<noteq> None} \<and>
     (\<forall>k<3. \<forall>i. madd st ! k = Some i \<longrightarrow> i < n \<and> i \<le> bp) \<and>
     (\<forall>i<length xs0. m3_map st ! i = shrunk sizes (madd st) xs0 i \<and>
        used sizes (madd st) i \<le> unat (m_size (xs0 ! i))) \<and>
     (case remap st of None \<Rightarrow> \<forall>i<n. m_size (m3_map st ! i) \<noteq> 0
      | Some r \<Rightarrow> r < n \<and> r \<le> bp \<and> m_size (m3_map st ! r) = 0 \<and>
          (\<forall>i<r. m_size (m3_map st ! i) \<noteq> 0))"

definition m3_take :: "u16 list \<Rightarrow> nat \<Rightarrow> nat \<Rightarrow> m3state \<Rightarrow> m3state" where
  "m3_take sizes bp nxt st =
     (let xs = m3_map st; e = (xs ! bp)\<lparr>m_size := m_size (xs ! bp) - sizes ! nxt\<rparr>
      in st\<lparr>m3_map := xs[bp := e], madd := (madd st)[nxt := Some bp],
           remap := (if m_size e = 0 \<and> remap st = None then Some bp else remap st),
           found := Suc (found st)\<rparr>)"

lemma m3_entry_Cons:
  "m3_entry sizes bp (nxt # ns) st =
     (if madd st ! nxt = None \<and> sizes ! nxt \<le> m_size (m3_map st ! bp)
      then let st' = m3_take sizes bp nxt st
           in if found st' = 3 then (st', True) else m3_entry sizes bp ns st'
      else m3_entry sizes bp ns st)"
  by (simp add: m3_entry.simps m3_take_def Let_def)

lemma card_taken:
  assumes "k < 3" "length md = 3" "md ! k = None"
  shows "card {l. l < 3 \<and> md[k := Some j] ! l \<noteq> None} = Suc (card {l. l < 3 \<and> md ! l \<noteq> None})"
proof -
  have "{l. l < 3 \<and> md[k := Some j] ! l \<noteq> None} = insert k {l. l < 3 \<and> md ! l \<noteq> None}"
    using assms by (auto simp: nth_list_update)
  then show ?thesis using assms by simp
qed

lemma shrunk_take:
  assumes k: "k < 3" "length md = 3" "md ! k = None"
    and i: "used sizes md i \<le> unat (m_size (xs0 ! i))"
    and le: "i = bp \<Longrightarrow> sizes ! k \<le> m_size (shrunk sizes md xs0 i)"
  shows "shrunk sizes (md[k := Some bp]) xs0 i =
      (if i = bp then (shrunk sizes md xs0 i)\<lparr>m_size := m_size (shrunk sizes md xs0 i) - sizes ! k\<rparr>
       else shrunk sizes md xs0 i)"
    and "used sizes (md[k := Some bp]) i \<le> unat (m_size (xs0 ! i))"
proof -
  show "shrunk sizes (md[k := Some bp]) xs0 i =
      (if i = bp then (shrunk sizes md xs0 i)\<lparr>m_size := m_size (shrunk sizes md xs0 i) - sizes ! k\<rparr>
       else shrunk sizes md xs0 i)"
    using used_update[OF k, of sizes bp i] by (simp add: shrunk_def)
  show "used sizes (md[k := Some bp]) i \<le> unat (m_size (xs0 ! i))"
  proof (cases "i = bp")
    case True
    have u: "unat (of_nat (used sizes md i) :: u16) = used sizes md i"
      using i unat_lt_16[of "m_size (xs0 ! i)"] by (intro unat_of_nat_16) linarith
    then have "unat (m_size (xs0 ! i) - of_nat (used sizes md i)) = unat (m_size (xs0 ! i)) - used sizes md i"
      using i by (subst unat_sub_le) (auto simp: word_le_nat_alt)
    then have "unat (sizes ! k) \<le> unat (m_size (xs0 ! i)) - used sizes md i"
      using le[OF True] by (simp add: shrunk_def word_le_nat_alt)
    then show ?thesis using i True used_update[OF k, of sizes bp i] by simp
  next
    case False then show ?thesis using i used_update[OF k, of sizes bp i] by simp
  qed
qed

lemma m3_take_inv:
  assumes inv: "m3_inv sizes xs0 n bp st" and bp: "bp < n" "n \<le> length xs0"
    and k: "k < 3" "madd st ! k = None" and le: "sizes ! k \<le> m_size (m3_map st ! bp)"
  shows "m3_inv sizes xs0 n bp (m3_take sizes bp k st)"
proof -
  have len: "length (madd st) = 3" "length (m3_map st) = length xs0"
    and ents: "\<And>i. i < length xs0 \<Longrightarrow> m3_map st ! i = shrunk sizes (madd st) xs0 i"
      "\<And>i. i < length xs0 \<Longrightarrow> used sizes (madd st) i \<le> unat (m_size (xs0 ! i))"
    using inv by (auto simp: m3_inv_def)
  let ?st = "m3_take sizes bp k st"
  note tk = shrunk_take[OF k(1) len(1) k(2), of sizes _ xs0 bp]
  have new: "m3_map ?st ! i = shrunk sizes (madd ?st) xs0 i \<and>
      used sizes (madd ?st) i \<le> unat (m_size (xs0 ! i))" if i: "i < length xs0" for i
    using tk[OF ents(2)[OF i]] ents(1)[OF i] le i bp len
    by (auto simp: m3_take_def Let_def nth_list_update)
  have rm: "case remap ?st of None \<Rightarrow> \<forall>i<n. m_size (m3_map ?st ! i) \<noteq> 0
      | Some r \<Rightarrow> r < n \<and> r \<le> bp \<and> m_size (m3_map ?st ! r) = 0 \<and>
          (\<forall>i<r. m_size (m3_map ?st ! i) \<noteq> 0)"
    using inv bp len le
    by (auto simp: m3_inv_def m3_take_def Let_def nth_list_update split: option.splits if_splits)
  have "length (m3_map ?st) = length xs0" "length (madd ?st) = 3"
      "found ?st = card {l. l < 3 \<and> madd ?st ! l \<noteq> None}"
    using inv card_taken[OF k(1) len(1) k(2), of bp]
    by (simp_all add: m3_inv_def m3_take_def Let_def)
  moreover have "\<forall>l<3. \<forall>i. madd ?st ! l = Some i \<longrightarrow> i < n \<and> i \<le> bp"
    using inv bp k len by (auto simp: m3_inv_def m3_take_def Let_def nth_list_update)
  ultimately show ?thesis unfolding m3_inv_def using new rm by blast
qed

lemma m3_entry_inv:
  assumes "m3_inv sizes xs0 n bp st" "bp < n" "n \<le> length xs0" "\<forall>k\<in>set ns. k < 3"
  shows "m3_inv sizes xs0 n bp (fst (m3_entry sizes bp ns st)) \<and>
    (found st \<noteq> 3 \<longrightarrow> (snd (m3_entry sizes bp ns st) \<longleftrightarrow> found (fst (m3_entry sizes bp ns st)) = 3))"
  using assms
proof (induction ns arbitrary: st)
  case Nil then show ?case by (simp add: m3_entry.simps)
next
  case (Cons k ns)
  then show ?case using m3_take_inv[of sizes xs0 n bp st k]
    by (simp add: m3_entry_Cons Let_def)
qed

lemma m3_inv_Suc: "m3_inv sizes xs0 n bp st \<Longrightarrow> m3_inv sizes xs0 n (Suc bp) st"
  by (auto simp: m3_inv_def split: option.splits)

text \<open>An entry that the scan has not reached yet still has its size.\<close>

lemma m3_inv_ahead:
  assumes "m3_inv sizes xs0 n bp st" "bp < i" "i < length xs0"
  shows "m3_map st ! i = xs0 ! i"
proof -
  have "used sizes (madd st) i = 0"
    using assms by (fastforce simp: m3_inv_def used_def)
  then show ?thesis using assms by (simp add: m3_inv_def shrunk_def)
qed

text \<open>A part that is still missing fits in none of the entries visited so far.\<close>

definition m3_tried :: "u16 list \<Rightarrow> nat \<Rightarrow> m3state \<Rightarrow> bool" where
  "m3_tried sizes bp st \<longleftrightarrow>
     (\<forall>k<3. madd st ! k = None \<longrightarrow> (\<forall>i<bp. m_size (m3_map st ! i) < sizes ! k))"

lemma m3_entry_mono:
  assumes "bp < length (m3_map st)" "length (madd st) = 3" "\<forall>k\<in>set ns. k < 3"
  shows "m_size (m3_map (fst (m3_entry sizes bp ns st)) ! bp) \<le> m_size (m3_map st ! bp) \<and>
    (\<forall>i. i \<noteq> bp \<longrightarrow> m3_map (fst (m3_entry sizes bp ns st)) ! i = m3_map st ! i) \<and>
    (\<forall>k. madd st ! k \<noteq> None \<longrightarrow> madd (fst (m3_entry sizes bp ns st)) ! k \<noteq> None)"
  using assms
proof (induction ns arbitrary: st)
  case Nil then show ?case by (simp add: m3_entry.simps)
next
  case (Cons k ns)
  let ?st = "m3_take sizes bp k st"
  show ?case
  proof (cases "madd st ! k = None \<and> sizes ! k \<le> m_size (m3_map st ! bp)")
    case True
    then have "m_size (m3_map ?st ! bp) \<le> m_size (m3_map st ! bp)"
      using Cons.prems(1) by (simp add: m3_take_def Let_def word_sub_le)
    moreover have "\<forall>i. i \<noteq> bp \<longrightarrow> m3_map ?st ! i = m3_map st ! i"
      "\<forall>l. madd st ! l \<noteq> None \<longrightarrow> madd ?st ! l \<noteq> None"
      using Cons.prems True by (auto simp: m3_take_def Let_def nth_list_update)
    moreover have "bp < length (m3_map ?st)" "length (madd ?st) = 3"
      using Cons.prems by (simp_all add: m3_take_def Let_def)
    ultimately show ?thesis
      using Cons.IH[of ?st] Cons.prems True by (auto simp: m3_entry_Cons Let_def)
  next
    case False
    then show ?thesis using Cons.IH[of st] Cons.prems by (auto simp: m3_entry_Cons Let_def)
  qed
qed

lemma m3_entry_rejects:
  assumes "bp < length (m3_map st)" "length (madd st) = 3" "\<forall>k\<in>set ns. k < 3"
    and "\<not> snd (m3_entry sizes bp ns st)" "k \<in> set ns"
    and "madd (fst (m3_entry sizes bp ns st)) ! k = None"
  shows "m_size (m3_map (fst (m3_entry sizes bp ns st)) ! bp) < sizes ! k"
  using assms
proof (induction ns arbitrary: st)
  case Nil then show ?case by simp
next
  case (Cons l ns)
  let ?st = "m3_take sizes bp l st"
  have st: "bp < length (m3_map ?st)" "length (madd ?st) = 3"
    using Cons.prems by (simp_all add: m3_take_def Let_def)
  show ?case
  proof (cases "madd st ! l = None \<and> sizes ! l \<le> m_size (m3_map st ! bp)")
    case True
    then have eq: "m3_entry sizes bp (l # ns) st = m3_entry sizes bp ns ?st"
      using Cons.prems(4) by (auto simp: m3_entry_Cons Let_def split: if_splits)
    have "madd ?st ! l \<noteq> None" using Cons.prems(2,3) by (simp add: m3_take_def Let_def)
    then have "k \<noteq> l"
      using m3_entry_mono[OF st, of ns sizes] Cons.prems(3,6) unfolding eq by auto
    then show ?thesis using Cons.IH[OF st] Cons.prems unfolding eq by auto
  next
    case False
    then have eq: "m3_entry sizes bp (l # ns) st = m3_entry sizes bp ns st"
      by (auto simp: m3_entry_Cons)
    show ?thesis
    proof (cases "k \<in> set ns")
      case True then show ?thesis using Cons unfolding eq by auto
    next
      case notin: False
      then have "k = l" using Cons.prems by simp
      moreover have "madd st ! k = None"
        using m3_entry_mono[of bp st ns sizes] Cons.prems unfolding eq by auto
      ultimately have "m_size (m3_map st ! bp) < sizes ! k" using False by (simp add: not_le)
      then show ?thesis
        using m3_entry_mono[of bp st ns sizes] Cons.prems unfolding eq by auto
    qed
  qed
qed

lemma m3_scan_ok:
  assumes xs0: "xs0 = es @ ment 0 0 # rest" and es: "\<forall>e\<in>set es. m_size e \<noteq> 0"
  shows "m3_inv sizes xs0 (length es) bp st \<Longrightarrow> bp \<le> length es \<Longrightarrow> m3_tried sizes bp st \<Longrightarrow>
     m3_map st ! bp = xs0 ! bp \<Longrightarrow> found st \<noteq> 3 \<Longrightarrow>
     \<exists>st' b. m3_scan sizes bp st = Ok (st', b) \<and> m3_inv sizes xs0 (length es) (length es) st' \<and>
       (if b then found st' = 3 else found st' \<noteq> 3 \<and> m3_tried sizes (length es) st')"
proof (induction "length es - bp" arbitrary: bp st)
  case 0
  then have "bp = length es" by simp
  then show ?case using 0 xs0 by (subst m3_scan.simps) (auto simp: m3_inv_def)
next
  case (Suc d)
  let ?r = "m3_entry sizes bp [0, 1, 2] st" and ?n = "length es"
  have bp: "bp < ?n" "?n \<le> length xs0" "bp < length (m3_map st)" "length (madd st) = 3"
    using Suc xs0 by (auto simp: m3_inv_def)
  have nz: "m_size (m3_map st ! bp) \<noteq> 0"
    using Suc.prems(4) bp(1) es xs0 by (auto simp: nth_append)
  have inv: "m3_inv sizes xs0 ?n bp (fst ?r)" "snd ?r \<longleftrightarrow> found (fst ?r) = 3"
    using m3_entry_inv[OF Suc.prems(1) bp(1,2), of "[0,1,2]"] Suc.prems(5) by auto
  have scan: "m3_scan sizes bp st =
      (if snd ?r then Ok ?r else m3_scan sizes (Suc bp) (fst ?r))"
    using bp nz by (subst m3_scan.simps) (simp add: Let_def)
  show ?case
  proof (cases "snd ?r")
    case True
    have "m3_inv sizes xs0 ?n ?n (fst ?r)"
      using inv(1) bp(1) by (fastforce simp: m3_inv_def split: option.splits)
    then show ?thesis using scan True inv(2) by (metis prod.collapse)
  next
    case False
    have k3: "k \<in> set [0, 1, 2]" if "k < 3" for k :: nat using that by auto
    have "m3_tried sizes (Suc bp) (fst ?r)"
      unfolding m3_tried_def
    proof (intro allI impI)
      fix k i assume k: "k < 3" "madd (fst ?r) ! k = None" and i: "i < Suc bp"
      have mono: "madd st ! k = None" "i \<noteq> bp \<Longrightarrow> m3_map (fst ?r) ! i = m3_map st ! i"
        using m3_entry_mono[OF bp(3,4), of "[0,1,2]" sizes] k(2) by auto
      show "m_size (m3_map (fst ?r) ! i) < sizes ! k"
      proof (cases "i = bp")
        case True
        then show ?thesis using m3_entry_rejects[OF bp(3,4) _ False k3[OF k(1)] k(2)] by simp
      next
        case False
        then show ?thesis using mono Suc.prems(3) k(1) i by (auto simp: m3_tried_def)
      qed
    qed
    moreover have "m3_map (fst ?r) ! Suc bp = xs0 ! Suc bp"
      using m3_inv_ahead[OF inv(1)] bp xs0 by auto
    ultimately show ?thesis
      using Suc.hyps(1)[of "Suc bp" "fst ?r"] m3_inv_Suc[OF inv(1)] Suc.hyps(2) bp(1) scan False inv(2)
      by simp
  qed
qed

section \<open>Restoring and resolving\<close>

lemma mapent_upd_self [simp]: "(e::mapent)\<lparr>m_size := m_size e\<rparr> = e" "e\<lparr>m_addr := m_addr e\<rparr> = e"
  by (cases e; simp)+

lemma m3_restore_length [simp]: "length (m3_restore sizes md ns xs) = length xs"
  by (induction sizes md ns xs rule: m3_restore.induct) (auto split: option.splits)

lemma m3_restore_nth:
  "i < length xs \<Longrightarrow> m3_restore sizes md ns xs ! i =
     (xs ! i)\<lparr>m_size := m_size (xs ! i) + (\<Sum>k\<leftarrow>ns. if md ! k = Some i then sizes ! k else 0)\<rparr>"
proof (induction sizes md ns xs rule: m3_restore.induct)
  case (1 sizes md xs) then show ?case by simp
next
  case (2 sizes md nxt ns xs)
  show ?case using 2
    by (cases "md ! nxt") (auto simp: nth_list_update add.assoc)
qed

lemma used_word:
  "of_nat (used sizes md i) = (\<Sum>k\<leftarrow>[0, 1, 2]. if md ! k = Some i then sizes ! k else (0::u16))"
proof -
  have "used sizes md i = (\<Sum>k\<leftarrow>[0, 1, 2]. if md ! k = Some i then unat (sizes ! k) else 0)"
    by (simp add: used_def eval_nat_numeral lessThan_Suc add.assoc)
  then show ?thesis by simp
qed

lemma m3_restore_inv:
  assumes "m3_inv sizes xs0 n bp st"
  shows "m3_restore sizes (madd st) [0, 1, 2] (m3_map st) = xs0"
proof (rule nth_equalityI)
  show "length (m3_restore sizes (madd st) [0, 1, 2] (m3_map st)) = length xs0"
    using assms unfolding m3_restore_length by (simp add: m3_inv_def)
next
  fix i assume "i < length (m3_restore sizes (madd st) [0, 1, 2] (m3_map st))"
  then have i: "i < length (m3_map st)" "i < length xs0"
    using assms unfolding m3_restore_length by (auto simp: m3_inv_def)
  then have "m3_map st ! i = shrunk sizes (madd st) xs0 i" using assms by (auto simp: m3_inv_def)
  then show "m3_restore sizes (madd st) [0, 1, 2] (m3_map st) ! i = xs0 ! i"
    unfolding m3_restore_nth[OF i(1)] used_word[symmetric] by (simp add: shrunk_def)
qed

lemma m3_resolve_length [simp]: "length (snd (m3_resolve sizes md ns xs)) = length xs"
  by (induction sizes md ns xs rule: m3_resolve.induct) (auto simp: Let_def)

lemma m3_resolve_nth:
  "i < length xs \<Longrightarrow> \<forall>k\<in>set ns. md ! k \<noteq> None \<Longrightarrow> snd (m3_resolve sizes md ns xs) ! i =
     (xs ! i)\<lparr>m_addr := m_addr (xs ! i) + (\<Sum>k\<leftarrow>ns. if md ! k = Some i then sizes ! k else 0)\<rparr>"
proof (induction sizes md ns xs rule: m3_resolve.induct)
  case (1 sizes md xs) then show ?case by simp
next
  case (2 sizes md nxt ns xs)
  then obtain b where b: "md ! nxt = Some b" by auto
  show ?case using 2 b
    by (auto simp: Let_def nth_list_update add.assoc)
qed

declare m3_restore.simps [simp del] m3_resolve.simps [simp del]

section \<open>Compacting\<close>

lemma m3_compact_rep:
  assumes "\<forall>e\<in>set suf. m_addr e \<noteq> 0"
  shows "\<exists>tail. m3_compact (pre @ h # junk @ suf @ ment 0 0 # rest) (length pre) (Suc (length pre + length junk)) =
      Ok (pre @ filter (\<lambda>e. m_size e \<noteq> 0) suf @ ment 0 0 # tail) \<and>
      length pre + length (filter (\<lambda>e. m_size e \<noteq> 0) suf) + length tail =
      length pre + length junk + length suf + Suc (length rest)"
  using assms
proof (induction suf arbitrary: pre h junk)
  case Nil
  let ?xs = "pre @ h # junk @ ment 0 0 # rest"
  have at: "?xs ! Suc (length pre + length junk) = ment 0 0"
    using nth_mid[of "pre @ h # junk" "ment 0 0" rest] by simp
  have "(pre @ ment 0 0 # junk @ ment 0 0 # rest) ! Suc (length pre + length junk) = ment 0 0"
    using nth_mid[of "pre @ ment 0 0 # junk" "ment 0 0" rest] by simp
  then show ?case using at by (subst m3_compact.simps) simp
next
  case (Cons e suf)
  let ?xs = "pre @ h # junk @ (e # suf) @ ment 0 0 # rest"
  let ?bp = "Suc (length pre + length junk)"
  have at: "?xs ! ?bp = e"
    using nth_mid[of "pre @ h # junk" e "suf @ ment 0 0 # rest"] by simp
  have a0: "m_addr e \<noteq> 0" using Cons.prems by simp
  show ?case
  proof (cases "m_size e = 0")
    case True
    have "m3_compact ?xs (length pre) ?bp = m3_compact ?xs (length pre) (Suc ?bp)"
      using at True a0 by (subst m3_compact.simps) simp
    then show ?thesis
      using Cons.IH[of pre h "junk @ [e]"] Cons.prems True by simp
  next
    case False
    have upd: "(pre @ e # junk @ (e # suf) @ ment 0 0 # rest) ! ?bp = e"
      using nth_mid[of "pre @ e # junk" e "suf @ ment 0 0 # rest"] by simp
    have step: "m3_compact ?xs (length pre) ?bp =
        m3_compact ((pre @ [e]) @ (junk @ e # suf @ ment 0 0 # rest)) (Suc (length pre)) (Suc ?bp)"
      using at upd a0 False by (subst m3_compact.simps) simp
    obtain h' junk' where hj: "junk @ [e] = h' # junk'" by (cases junk) auto
    then have "junk @ e # suf @ ment 0 0 # rest = h' # junk' @ suf @ ment 0 0 # rest"
      by (metis append.assoc append_Cons append_Nil)
    with step have step': "m3_compact ?xs (length pre) ?bp =
        m3_compact ((pre @ [e]) @ h' # junk' @ suf @ ment 0 0 # rest) (Suc (length pre)) (Suc ?bp)"
      by (simp only:)
    have "length junk = length junk'" using hj by (metis length_append_singleton length_Cons nat.inject)
    then show ?thesis
      using Cons.IH[of "pre @ [e]" h' junk'] Cons.prems False step' by simp
  qed
qed

section \<open>The three segments\<close>

definition cut :: "mapent \<Rightarrow> nat \<Rightarrow> mapent" where
  "cut e u = ment (m_size e - of_nat u) (m_addr e + of_nat u)"

lemma cut_facts:
  assumes "u \<le> unat (m_size e)" "seg_end e < 65536"
  shows "unat (m_addr (cut e u)) = unat (m_addr e) + u" "seg_end (cut e u) = seg_end e"
    "seg (cut e u) = {unat (m_addr e) + u ..< seg_end e}"
proof -
  have u: "unat (of_nat u :: u16) = u"
    using assms unat_lt_16[of "m_size e"] by (intro unat_of_nat_16) linarith
  have sz: "unat (m_size e - of_nat u) = unat (m_size e) - u"
    using assms(1) u by (subst unat_sub_le) (auto simp: word_le_nat_alt)
  show ad: "unat (m_addr (cut e u)) = unat (m_addr e) + u"
    using assms u by (simp add: cut_def) (subst unat_add_16, auto simp: seg_end_def)
  show "seg_end (cut e u) = seg_end e" using assms(1) ad sz by (simp add: seg_end_def cut_def)
  then have "unat (m_addr (cut e u)) + unat (m_size (cut e u)) = seg_end e"
    by (simp only: seg_end_def)
  then show "seg (cut e u) = {unat (m_addr e) + u ..< seg_end e}"
    unfolding seg_def using ad by simp
qed

lemma wf_ents_sorted_wrt:
  "wf_ents es \<longleftrightarrow> sorted_wrt (\<lambda>e f. seg_end e < unat (m_addr f)) es \<and>
     (\<forall>e\<in>set es. m_size e \<noteq> 0 \<and> m_addr e \<noteq> 0 \<and> seg_end e \<le> 65536)"
  by (induction es) auto

lemma cut_ents_wf:
  assumes wf: "wf_ents es" and top: "\<forall>e\<in>set es. seg_end e < 65536"
    and u: "\<forall>i<length es. u i \<le> unat (m_size (es ! i))"
  shows "wf_ents (filter (\<lambda>e. m_size e \<noteq> 0) (map (\<lambda>i. cut (es ! i) (u i)) [0..<length es]))"
    (is "wf_ents (filter ?P ?es)")
proof -
  have c: "unat (m_addr (cut (es ! i) (u i))) = unat (m_addr (es ! i)) + u i"
      "seg_end (cut (es ! i) (u i)) = seg_end (es ! i)" if "i < length es" for i
    using cut_facts[of "u i" "es ! i"] u top that by auto
  have srt: "seg_end (es ! i) < unat (m_addr (es ! j))" if "i < j" "j < length es" for i j
    using wf that by (auto simp: wf_ents_sorted_wrt sorted_wrt_iff_nth_less)
  have "sorted_wrt (\<lambda>e f. seg_end e < unat (m_addr f)) ?es"
    unfolding sorted_wrt_iff_nth_less using c srt by (fastforce intro: trans_less_add1)
  moreover have "m_addr e \<noteq> 0 \<and> seg_end e \<le> 65536" if e: "e \<in> set ?es" for e
  proof -
    from e obtain i where i: "i < length es" "e = cut (es ! i) (u i)" by auto
    have "m_addr (es ! i) \<noteq> 0" "seg_end (es ! i) \<le> 65536"
      using wf i(1) by (auto simp: wf_ents_sorted_wrt)
    then show ?thesis using c[OF i(1)] unat_pos[of "m_addr (es ! i)"] i(2)
      by (metis add_gr_0 less_irrefl unat_0)
  qed
  ultimately show ?thesis by (auto simp: wf_ents_sorted_wrt intro: sorted_wrt_filter)
qed

lemma cut_ents_seg:
  assumes top: "\<forall>e\<in>set es. seg_end e < 65536"
    and u: "\<forall>i<length es. u i \<le> unat (m_size (es ! i))"
  shows "\<Union> (seg ` set (filter (\<lambda>e. m_size e \<noteq> 0) (map (\<lambda>i. cut (es ! i) (u i)) [0..<length es]))) =
    (\<Union>i<length es. {unat (m_addr (es ! i)) + u i ..< seg_end (es ! i)})"
proof -
  have "\<Union> (seg ` set (filter (\<lambda>e. m_size e \<noteq> 0) xs)) = \<Union> (seg ` set xs)" for xs
    by (auto simp: seg_def)
  then have "\<Union> (seg ` set (filter (\<lambda>e. m_size e \<noteq> 0) (map (\<lambda>i. cut (es ! i) (u i)) [0..<length es]))) =
     (\<Union>i<length es. seg (cut (es ! i) (u i)))"
    by (simp only: set_map set_upt atLeast0LessThan image_image)
  moreover have "seg (cut (es ! i) (u i)) = {unat (m_addr (es ! i)) + u i ..< seg_end (es ! i)}"
    if "i < length es" for i
    using cut_facts(3)[of "u i" "es ! i"] u top that by auto
  ultimately show ?thesis by simp
qed

lemma free_by_index: "\<Union> (seg ` set es) = (\<Union>i<length es. seg (es ! i))"
  by (auto simp: set_conv_nth)

lemma segs_disjoint_nth:
  assumes wf: "wf_ents es" and ij: "i < length es" "j < length es" "i \<noteq> j"
  shows "seg (es ! i) \<inter> seg (es ! j) = {}"
proof -
  have srt: "seg_end (es ! i) < unat (m_addr (es ! j))" if "i < j" "j < length es" for i j
    using wf that by (auto simp: wf_ents_sorted_wrt sorted_wrt_iff_nth_less)
  from ij consider "i < j" | "j < i" by linarith
  then show ?thesis using srt[of i j] srt[of j i] ij by cases (auto simp: seg_def seg_end_def)
qed

lemma found_all:
  assumes "m3_inv sizes xs0 n bp st" "found st = 3"
  shows "\<exists>i0 i1 i2. madd st = [Some i0, Some i1, Some i2] \<and> i0 < n \<and> i1 < n \<and> i2 < n"
proof -
  have len: "length (madd st) = 3" and c: "card {k. k < 3 \<and> madd st ! k \<noteq> None} = card {..<3::nat}"
    using assms by (auto simp: m3_inv_def)
  have "{k. k < 3 \<and> madd st ! k \<noteq> None} = {..<3::nat}"
    by (rule card_subset_eq) (use c in auto)
  then have all: "madd st ! k \<noteq> None" if "k < 3" for k using that by auto
  obtain m0 m1 m2 where md: "madd st = [m0, m1, m2]"
    using len by (auto simp: numeral_3_eq_3 length_Suc_conv)
  have bound: "\<forall>k<3. \<forall>i. madd st ! k = Some i \<longrightarrow> i < n" using assms by (simp add: m3_inv_def)
  have "m0 \<noteq> None" "m1 \<noteq> None" "m2 \<noteq> None"
    using all[of 0] all[of 1] all[of 2] md by simp_all
  then obtain i0 i1 i2 where "m0 = Some i0" "m1 = Some i1" "m2 = Some i2" by blast
  moreover from this have "i0 < n" "i1 < n" "i2 < n"
    using bound[rule_format, of 0] bound[rule_format, of 1] bound[rule_format, of 2] md by auto
  ultimately show ?thesis using md by simp
qed

lemma m3_inv_entry:
  assumes "m3_inv sizes (es @ ment 0 0 # rest) n bp st" "i < length es"
  shows "m3_map st ! i = (es ! i)\<lparr>m_size := m_size (es ! i) - of_nat (used sizes (madd st) i)\<rparr>"
    and "used sizes (madd st) i \<le> unat (m_size (es ! i))" and "i < length (m3_map st)"
proof -
  have "i < length (es @ ment 0 0 # rest)" using assms(2) by simp
  then have "m3_map st ! i = shrunk sizes (madd st) (es @ ment 0 0 # rest) i \<and>
      used sizes (madd st) i \<le> unat (m_size ((es @ ment 0 0 # rest) ! i))"
    and "length (m3_map st) = length (es @ ment 0 0 # rest)"
    using assms(1) by (simp_all only: m3_inv_def)
  then show "m3_map st ! i = (es ! i)\<lparr>m_size := m_size (es ! i) - of_nat (used sizes (madd st) i)\<rparr>"
    "used sizes (madd st) i \<le> unat (m_size (es ! i))" "i < length (m3_map st)"
    using assms(2) by (simp_all add: shrunk_def nth_append)
qed

lemma m3_inv_remap:
  assumes "m3_inv sizes xs0 n bp st"
  shows "remap st = None \<Longrightarrow> \<forall>i<n. m_size (m3_map st ! i) \<noteq> 0"
    and "remap st = Some r \<Longrightarrow> r < n \<and> m_size (m3_map st ! r) = 0 \<and> (\<forall>i<r. m_size (m3_map st ! i) \<noteq> 0)"
proof -
  have "case remap st of None \<Rightarrow> \<forall>i<n. m_size (m3_map st ! i) \<noteq> 0
      | Some r \<Rightarrow> r < n \<and> r \<le> bp \<and> m_size (m3_map st ! r) = 0 \<and> (\<forall>i<r. m_size (m3_map st ! i) \<noteq> 0)"
    using assms by (simp only: m3_inv_def)
  then show "remap st = None \<Longrightarrow> \<forall>i<n. m_size (m3_map st ! i) \<noteq> 0"
    and "remap st = Some r \<Longrightarrow> r < n \<and> m_size (m3_map st ! r) = 0 \<and> (\<forall>i<r. m_size (m3_map st ! i) \<noteq> 0)"
    by auto
qed

lemma resolved_map:
  assumes inv: "m3_inv sizes (es @ ment 0 0 # rest) (length es) (length es) st" and f: "found st = 3"
  shows "snd (m3_resolve sizes (madd st) [0, 1, 2] (m3_map st)) =
    map (\<lambda>i. cut (es ! i) (used sizes (madd st) i)) [0..<length es] @ ment 0 0 # rest"
    (is "?ys = ?zs")
proof (rule nth_equalityI)
  show len: "length ?ys = length ?zs" using inv by (simp add: m3_inv_def)
  obtain i0 i1 i2 where md: "madd st = [Some i0, Some i1, Some i2]"
    "i0 < length es" "i1 < length es" "i2 < length es"
    using found_all[OF inv f] by blast
  fix i assume "i < length ?ys"
  then have i: "i < length (m3_map st)" "i < length (es @ ment 0 0 # rest)" using inv by (auto simp: m3_inv_def)
  have "\<forall>k\<in>set [0, 1, 2]. madd st ! k \<noteq> None" using md by simp
  note r = m3_resolve_nth[OF i(1) this, of sizes, folded used_word]
  have m: "m3_map st ! i = shrunk sizes (madd st) (es @ ment 0 0 # rest) i"
    using inv i by (auto simp: m3_inv_def)
  show "?ys ! i = ?zs ! i"
  proof (cases "i < length es")
    case True
    then show ?thesis using r m by (simp add: shrunk_def nth_append cut_def)
  next
    case False
    then have "used sizes (madd st) i = 0"
      using md by (simp add: used_def eval_nat_numeral lessThan_Suc)
    then show ?thesis using r m False by (simp add: shrunk_def nth_append)
  qed
qed

lemma used_explicit:
  "used [d, s, u] [Some i0, Some i1, Some i2] i =
     (if i0 = i then unat d else 0) + (if i1 = i then unat s else 0) + (if i2 = i then unat u else 0)"
  by (simp add: used_def eval_nat_numeral lessThan_Suc)

lemma m3_finish:
  assumes inv: "m3_inv sizes (es @ ment 0 0 # rest) (length es) (length es) st" and f: "found st = 3"
    and wf: "wf_ents es" and top: "\<forall>e\<in>set es. seg_end e < 65536"
  defines "es' \<equiv> map (\<lambda>i. cut (es ! i) (used sizes (madd st) i)) [0..<length es]"
  shows "\<exists>tail. (case remap st of None \<Rightarrow> Ok (es' @ ment 0 0 # rest)
      | Some rm \<Rightarrow> m3_compact (es' @ ment 0 0 # rest) rm (Suc rm)) =
      Ok (filter (\<lambda>e. m_size e \<noteq> 0) es' @ ment 0 0 # tail) \<and>
      length (filter (\<lambda>e. m_size e \<noteq> 0) es') + length tail = length es + length rest"
proof -
  have u: "\<forall>i<length es. used sizes (madd st) i \<le> unat (m_size (es ! i))"
    using m3_inv_entry(2)[OF inv] by blast
  have sz: "m_size (es' ! i) = m_size (m3_map st ! i)" if "i < length es" for i
    using inv that by (simp add: m3_inv_def es'_def cut_def shrunk_def nth_append)
  have ad: "\<forall>e\<in>set es'. m_addr e \<noteq> 0"
  proof
    fix e assume "e \<in> set es'"
    then obtain i where i: "i < length es" "e = cut (es ! i) (used sizes (madd st) i)"
      by (auto simp: es'_def)
    then have "0 < unat (m_addr e)"
      using cut_facts(1)[of _ "es ! i"] u top wf unat_pos[of "m_addr (es ! i)"]
      by (auto simp: wf_ents_sorted_wrt)
    then show "m_addr e \<noteq> 0" by auto
  qed
  have len: "length es' = length es" by (simp add: es'_def)
  show ?thesis
  proof (cases "remap st")
    case None
    then have "\<forall>i<length es. m_size (es' ! i) \<noteq> 0" using m3_inv_remap(1)[OF inv] sz by simp
    then have "filter (\<lambda>e. m_size e \<noteq> 0) es' = es'"
      using len by (auto simp: filter_id_conv in_set_conv_nth)
    then show ?thesis using None len by simp
  next
    case (Some r)
    then have r: "r < length es'" "m_size (es' ! r) = 0" "\<forall>i<r. m_size (es' ! i) \<noteq> 0"
      using m3_inv_remap(2)[OF inv] sz len by auto
    let ?pre = "take r es'" and ?suf = "drop (Suc r) es'"
    have split: "es' = ?pre @ es' ! r # ?suf" using r(1) by (rule id_take_nth_drop)
    have fpre: "filter (\<lambda>e. m_size e \<noteq> 0) ?pre = ?pre"
      using r by (auto simp: filter_id_conv in_set_conv_nth)
    have fe: "filter (\<lambda>e. m_size e \<noteq> 0) es' = ?pre @ filter (\<lambda>e. m_size e \<noteq> 0) ?suf"
      by (subst split) (simp add: fpre r(2))
    have "\<forall>e\<in>set ?suf. m_addr e \<noteq> 0" using ad by (meson in_set_dropD)
    from m3_compact_rep[OF this, of ?pre "es' ! r" "[]" rest] obtain tail where
      t1: "m3_compact (?pre @ es' ! r # ?suf @ ment 0 0 # rest) r (Suc r) =
         Ok (?pre @ filter (\<lambda>e. m_size e \<noteq> 0) ?suf @ ment 0 0 # tail)"
      and t2: "r + length (filter (\<lambda>e. m_size e \<noteq> 0) ?suf) + length tail = r + length ?suf + Suc (length rest)"
      using r(1) by auto
    have e: "es' @ ment 0 0 # rest = ?pre @ es' ! r # ?suf @ ment 0 0 # rest"
      by (subst split) simp
    have "m3_compact (es' @ ment 0 0 # rest) r (Suc r) =
        Ok (filter (\<lambda>e. m_size e \<noteq> 0) es' @ ment 0 0 # tail)"
      unfolding e fe using t1 by simp
    moreover have "length (filter (\<lambda>e. m_size e \<noteq> 0) es') + length tail = length es + length rest"
      unfolding fe using t2 r(1) len by simp
    ultimately show ?thesis using Some by simp
qed
qed

text \<open>The addresses handed out tile the reserved beginning of each segment.\<close>

lemma tiles:
  assumes wf: "wf_ents es"
    and i: "i0 < length es" "i1 < length es" "i2 < length es"
    and u: "\<forall>i<length es. ui i \<le> unat (m_size (es ! i))"
    and ui: "\<And>i. ui i = (if i0 = i then d else 0) + (if i1 = i then s else 0) + (if i2 = i then (w::nat) else 0)"
    and a: "a0 = unat (m_addr (es ! i0))" "a1 = unat (m_addr (es ! i1)) + (if i0 = i1 then d else 0)"
      "a2 = unat (m_addr (es ! i2)) + (if i0 = i2 then d else 0) + (if i1 = i2 then s else 0)"
  defines "I0 \<equiv> {a0 ..< a0 + d}" and "I1 \<equiv> {a1 ..< a1 + s}" and "I2 \<equiv> {a2 ..< a2 + w}"
  shows "(\<Union>i<length es. {unat (m_addr (es ! i)) + ui i ..< seg_end (es ! i)}) =
      \<Union> (seg ` set es) - (I0 \<union> I1 \<union> I2)"
    and "I0 \<union> I1 \<union> I2 \<subseteq> \<Union> (seg ` set es)"
    and "I0 \<inter> I1 = {}" "I0 \<inter> I2 = {}" "I1 \<inter> I2 = {}"
proof -
  define B where "B i = {unat (m_addr (es ! i)) ..< unat (m_addr (es ! i)) + ui i}" for i
  have Bseg: "B i \<subseteq> seg (es ! i)" if "i < length es" for i
    using u that by (auto simp: B_def seg_def)
  have sub: "I0 \<subseteq> B i0" "I1 \<subseteq> B i1" "I2 \<subseteq> B i2"
    using a ui[of i0] ui[of i1] ui[of i2] by (auto simp: I0_def I1_def I2_def B_def)
  have cov: "B i \<subseteq> I0 \<union> I1 \<union> I2" for i
    using a ui[of i] by (auto simp: I0_def I1_def I2_def B_def split: if_splits)
  have dj: "seg (es ! i) \<inter> seg (es ! j) = {}" if "i < length es" "j < length es" "i \<noteq> j" for i j
    by (rule segs_disjoint_nth[OF wf that])
  have in_i: "x \<in> B i" if "x \<in> I0 \<union> I1 \<union> I2" "x \<in> seg (es ! i)" "i < length es" for x i
    using that sub Bseg[OF i(1)] Bseg[OF i(2)] Bseg[OF i(3)] dj i by blast
  have in_all: "seg (es ! k) \<subseteq> (\<Union>i<length es. seg (es ! i))" if "k < length es" for k
    using that by blast
  have cutB: "{unat (m_addr (es ! i)) + ui i ..< seg_end (es ! i)} = seg (es ! i) - B i" for i
    by (auto simp: B_def seg_def seg_end_def)
  show "(\<Union>i<length es. {unat (m_addr (es ! i)) + ui i ..< seg_end (es ! i)}) =
      \<Union> (seg ` set es) - (I0 \<union> I1 \<union> I2)"
    unfolding free_by_index cutB
  proof (intro equalityI subsetI)
    fix x assume "x \<in> (\<Union>i<length es. seg (es ! i) - B i)"
    then obtain i where "i < length es" "x \<in> seg (es ! i)" "x \<notin> B i" by blast
    then show "x \<in> (\<Union>i<length es. seg (es ! i)) - (I0 \<union> I1 \<union> I2)" using in_i by blast
  next
    fix x assume "x \<in> (\<Union>i<length es. seg (es ! i)) - (I0 \<union> I1 \<union> I2)"
    then obtain i where "i < length es" "x \<in> seg (es ! i)" "x \<notin> I0 \<union> I1 \<union> I2" by blast
    then show "x \<in> (\<Union>i<length es. seg (es ! i) - B i)" using cov by blast
  qed
  show "I0 \<union> I1 \<union> I2 \<subseteq> \<Union> (seg ` set es)"
    unfolding free_by_index
    by (intro Un_least order_trans[OF sub(1) order_trans[OF Bseg[OF i(1)] in_all[OF i(1)]]]
        order_trans[OF sub(2) order_trans[OF Bseg[OF i(2)] in_all[OF i(2)]]]
        order_trans[OF sub(3) order_trans[OF Bseg[OF i(3)] in_all[OF i(3)]]])
  show "I0 \<inter> I1 = {}"
  proof (cases "i0 = i1")
    case True then show ?thesis using a by (auto simp: I0_def I1_def)
  next
    case False then show ?thesis using sub(1,2) Bseg[OF i(1)] Bseg[OF i(2)] dj[OF i(1,2)] by blast
  qed
  show "I0 \<inter> I2 = {}"
  proof (cases "i0 = i2")
    case True then show ?thesis using a by (auto simp: I0_def I2_def)
  next
    case False then show ?thesis using sub(1,3) Bseg[OF i(1)] Bseg[OF i(3)] dj[OF i(1,3)] by blast
  qed
  show "I1 \<inter> I2 = {}"
  proof (cases "i1 = i2")
    case True then show ?thesis using a by (auto simp: I1_def I2_def)
  next
    case False then show ?thesis using sub(2,3) Bseg[OF i(2)] Bseg[OF i(3)] dj[OF i(2,3)] by blast
  qed
qed

lemma m3_inv_init:
  assumes "\<forall>e\<in>set es. m_size e \<noteq> 0"
  shows "m3_inv sizes (es @ ment 0 0 # rest) (length es) 0
    \<lparr>m3_map = es @ ment 0 0 # rest, madd = [None, None, None], remap = None, found = 0\<rparr>"
proof -
  have none: "[None, None, None :: nat option] ! k = None" if "k < 3" for k :: nat
    using that by (auto simp: less_Suc_eq numeral_3_eq_3)
  then have "{k. k < 3 \<and> [None, None, None :: nat option] ! k \<noteq> None} = {}" by auto
  moreover have "used sizes [None, None, None] i = 0" for i using none by (simp add: used_def)
  ultimately show ?thesis using assms none by (auto simp: m3_inv_def shrunk_def nth_append)
qed

lemma top_free:
  assumes "65535 \<notin> free_units mp" "free_units mp = \<Union> (seg ` set es)" "wf_ents es"
  shows "\<forall>e\<in>set es. seg_end e < 65536"
proof (rule ballI, rule ccontr)
  fix e assume e: "e \<in> set es" and "\<not> seg_end e < 65536"
  then have "seg_end e = 65536" using wf_ents_end[OF assms(3) e] by simp
  then have "65535 \<in> seg e"
    using wf_ents_size[OF assms(3) e] unat_pos[of "m_size e"] unat_lt_16[of "m_addr e"]
    unfolding seg_def seg_end_def atLeastLessThan_iff by linarith
  then show False using assms e by blast
qed

lemma m3_fail_small:
  assumes inv: "m3_inv [d, s, u] (es @ ment 0 0 # rest) (length es) (length es) st"
    and fail: "found st \<noteq> 3" "m3_tried [d, s, u] (length es) st" and e: "e \<in> set es"
  shows "unat (m_size e) < unat d + unat s + unat u"
proof -
  have "\<exists>k<3. madd st ! k = None"
  proof (rule ccontr)
    assume "\<not> (\<exists>k<3. madd st ! k = None)"
    then have "{k. k < 3 \<and> madd st ! k \<noteq> None} = {..<3::nat}" by auto
    then show False using inv fail(1) by (simp add: m3_inv_def)
  qed
  then obtain k where k: "k < 3" "madd st ! k = None" by blast
  from e obtain i where i: "i < length es" "e = es ! i" by (metis in_set_conv_nth)
  let ?u = "used [d, s, u] (madd st) i"
  have le: "?u \<le> unat (m_size e)" and m: "m_size (m3_map st ! i) = m_size e - of_nat ?u"
    using m3_inv_entry[OF inv i(1)] i(2) by auto
  have "unat (of_nat ?u :: u16) = ?u"
    using le unat_lt_16[of "m_size e"] by (intro unat_of_nat_16) linarith
  then have "unat (m_size e - of_nat ?u) = unat (m_size e) - ?u"
    using le by (subst unat_sub_le) (auto simp: word_le_nat_alt)
  moreover have "m_size (m3_map st ! i) < [d, s, u] ! k"
    using fail(2) k i by (simp add: m3_tried_def)
  ultimately have "unat (m_size e) < ?u + unat ([d, s, u] ! k)"
    using m by (simp add: word_less_nat_alt)
  also have "\<dots> \<le> unat d + unat s + unat u"
    using k by (auto simp: used_def eval_nat_numeral lessThan_Suc less_Suc_eq)
  finally show ?thesis .
qed

lemma resolved_addrs:
  assumes inv: "m3_inv [d, s, u] (es @ ment 0 0 # rest) (length es) (length es) st"
    and md: "madd st = [Some i0, Some i1, Some i2]" "i0 < length es" "i1 < length es" "i2 < length es"
    and top: "\<forall>e\<in>set es. seg_end e < 65536"
  shows "\<exists>a0 a1 a2. fst (m3_resolve [d, s, u] (madd st) [0, 1, 2] (m3_map st)) = [a0, a1, a2] \<and>
    unat a0 = unat (m_addr (es ! i0)) \<and>
    unat a1 = unat (m_addr (es ! i1)) + (if i0 = i1 then unat d else 0) \<and>
    unat a2 = unat (m_addr (es ! i2)) + (if i0 = i2 then unat d else 0) + (if i1 = i2 then unat s else 0)"
proof -
  have m: "m_addr (m3_map st ! i) = m_addr (es ! i)" "i < length (m3_map st)"
      "used [d, s, u] (madd st) i \<le> unat (m_size (es ! i))" "seg_end (es ! i) < 65536"
    if "i < length es" for i
    using m3_inv_entry[OF inv that] that top by auto
  have u: "used [d, s, u] (madd st) i =
     (if i0 = i then unat d else 0) + (if i1 = i then unat s else 0) + (if i2 = i then unat u else 0)" for i
    unfolding md(1) by (rule used_explicit)
  have add: "unat (m_addr (es ! i1) + d) = unat (m_addr (es ! i1)) + unat d" if "i0 = i1"
    using m(3,4)[OF md(3)] that by (intro unat_add_16) (simp add: u seg_end_def)
  have add1: "unat (m_addr (es ! i2) + d) = unat (m_addr (es ! i2)) + unat d" if "i0 = i2"
    using m(3,4)[OF md(4)] that by (intro unat_add_16) (simp add: u seg_end_def)
  have add2: "unat (m_addr (es ! i2) + s) = unat (m_addr (es ! i2)) + unat s" if "i1 = i2"
    using m(3,4)[OF md(4)] that by (intro unat_add_16) (simp add: u seg_end_def)
  have add3: "unat (m_addr (es ! i2) + d + s) = unat (m_addr (es ! i2)) + unat d + unat s"
    if "i0 = i2" "i1 = i2"
    unfolding add1[OF that(1), symmetric] using add1[OF that(1)] m(3,4)[OF md(4)] that
    by (intro unat_add_16) (simp add: u seg_end_def)
  show ?thesis
    using m(1,2)[OF md(2)] m(1,2)[OF md(3)] m(1,2)[OF md(4)] add add1 add2 add3 md(1)
    by (auto simp: m3_resolve.simps Let_def nth_list_update)
qed

lemma m3_success:
  assumes inv: "m3_inv [d, s, u] (es @ ment 0 0 # rest) (length es) (length es) st" and f: "found st = 3"
    and wf: "wf_ents es" and top: "\<forall>e\<in>set es. seg_end e < 65536"
    and rep: "m_map mp = es @ ment 0 0 # rest"
  defines "av \<equiv> m3_resolve [d, s, u] (madd st) [0, 1, 2] (m3_map st)"
  shows "\<exists>a0 a1 a2 mp'. (case remap st of None \<Rightarrow> Ok (Some (fst av), mp\<lparr>m_map := snd av\<rparr>)
       | Some rm \<Rightarrow> omap (\<lambda>ys. (Some (fst av), mp\<lparr>m_map := ys\<rparr>)) (m3_compact (snd av) rm (Suc rm))) =
       Ok (Some [a0, a1, a2], mp') \<and> wf_map mp' \<and> same_frame mp mp' \<and>
         {unat a0 ..< unat a0 + unat d} \<inter> {unat a1 ..< unat a1 + unat s} = {} \<and>
         {unat a0 ..< unat a0 + unat d} \<inter> {unat a2 ..< unat a2 + unat u} = {} \<and>
         {unat a1 ..< unat a1 + unat s} \<inter> {unat a2 ..< unat a2 + unat u} = {} \<and>
         {unat a0 ..< unat a0 + unat d} \<union> {unat a1 ..< unat a1 + unat s} \<union>
           {unat a2 ..< unat a2 + unat u} \<subseteq> free_units mp \<and>
         free_units mp' = free_units mp - ({unat a0 ..< unat a0 + unat d} \<union>
           {unat a1 ..< unat a1 + unat s} \<union> {unat a2 ..< unat a2 + unat u})"
proof -
  let ?u = "used [d, s, u] (madd st)"
  let ?es = "map (\<lambda>i. cut (es ! i) (?u i)) [0..<length es]"
  let ?fs = "filter (\<lambda>e. m_size e \<noteq> 0) ?es"
  obtain i0 i1 i2 where md: "madd st = [Some i0, Some i1, Some i2]"
    "i0 < length es" "i1 < length es" "i2 < length es"
    using found_all[OF inv f] by blast
  obtain a0 a1 a2 where fst: "fst av = [a0, a1, a2]" and a: "unat a0 = unat (m_addr (es ! i0))"
      "unat a1 = unat (m_addr (es ! i1)) + (if i0 = i1 then unat d else 0)"
      "unat a2 = unat (m_addr (es ! i2)) + (if i0 = i2 then unat d else 0) + (if i1 = i2 then unat s else 0)"
    using resolved_addrs[OF inv md top] unfolding av_def by blast
  have u: "\<forall>i<length es. ?u i \<le> unat (m_size (es ! i))" using m3_inv_entry(2)[OF inv] by blast
  have ue: "?u i = (if i0 = i then unat d else 0) + (if i1 = i then unat s else 0) +
      (if i2 = i then unat u else 0)" for i
    unfolding md(1) by (rule used_explicit)
  have snd: "snd av = ?es @ ment 0 0 # rest" unfolding av_def by (rule resolved_map[OF inv f])
  obtain tail where t: "(case remap st of None \<Rightarrow> Ok (snd av) | Some rm \<Rightarrow> m3_compact (snd av) rm (Suc rm)) =
      Ok (?fs @ ment 0 0 # tail)" "length ?fs + length tail = length es + length rest"
    using m3_finish[OF inv f wf top] unfolding snd by blast
  let ?mp = "mp\<lparr>m_map := ?fs @ ment 0 0 # tail\<rparr>"
  have wf': "wf_ents ?fs" by (rule cut_ents_wf[OF wf top u])
  have "(case remap st of None \<Rightarrow> Ok (Some (fst av), mp\<lparr>m_map := snd av\<rparr>)
       | Some rm \<Rightarrow> omap (\<lambda>ys. (Some (fst av), mp\<lparr>m_map := ys\<rparr>)) (m3_compact (snd av) rm (Suc rm))) =
       Ok (Some [a0, a1, a2], ?mp)"
    using t(1) fst by (cases "remap st") auto
  moreover have "wf_map ?mp" using wf_mapI[OF _ wf', of ?mp tail] by simp
  moreover have "same_frame mp ?mp" using rep t(2) by (simp add: same_frame_def)
  moreover have "free_units ?mp = (\<Union>i<length es. {unat (m_addr (es ! i)) + ?u i ..< seg_end (es ! i)})"
    unfolding cut_ents_seg[OF top u, symmetric] by (rule free_units_rep[OF _ wf']) simp
  moreover have "free_units mp = \<Union> (seg ` set es)" by (rule free_units_rep[OF rep wf])
  ultimately show ?thesis using tiles[OF wf md(2-4) u ue a] by auto
qed

lemma rmalloc3_ok:
  assumes wf: "wf_map mp" and top: "65535 \<notin> free_units mp"
  shows "\<exists>r mp'. rmalloc3 mp d s u = Ok (r, mp') \<and> wf_map mp' \<and> same_frame mp mp' \<and>
    (case r of
       None \<Rightarrow> mp' = mp \<and> (\<forall>e\<in>set (entries (m_map mp)). unat (m_size e) < unat d + unat s + unat u)
     | Some a \<Rightarrow> \<exists>a0 a1 a2. a = [a0, a1, a2] \<and>
         {unat a0 ..< unat a0 + unat d} \<inter> {unat a1 ..< unat a1 + unat s} = {} \<and>
         {unat a0 ..< unat a0 + unat d} \<inter> {unat a2 ..< unat a2 + unat u} = {} \<and>
         {unat a1 ..< unat a1 + unat s} \<inter> {unat a2 ..< unat a2 + unat u} = {} \<and>
         {unat a0 ..< unat a0 + unat d} \<union> {unat a1 ..< unat a1 + unat s} \<union>
           {unat a2 ..< unat a2 + unat u} \<subseteq> free_units mp \<and>
         free_units mp' = free_units mp - ({unat a0 ..< unat a0 + unat d} \<union>
           {unat a1 ..< unat a1 + unat s} \<union> {unat a2 ..< unat a2 + unat u}))"
proof -
  let ?sizes = "[d, s, u]"
  from wf obtain es rest where rep: "m_map mp = es @ ment 0 0 # rest" and wfe: "wf_ents es"
    and fu: "free_units mp = \<Union> (seg ` set es)" and ents: "entries (m_map mp) = es" by (rule wf_mapE)
  let ?st0 = "\<lparr>m3_map = m_map mp, madd = [None, None, None], remap = None, found = 0\<rparr>"
  have nz: "\<forall>e\<in>set es. m_size e \<noteq> 0" using wfe by (auto dest: wf_ents_size)
  have inv0: "m3_inv ?sizes (es @ ment 0 0 # rest) (length es) 0 ?st0"
    using m3_inv_init[OF nz] rep by simp
  obtain st b where scan: "m3_scan ?sizes 0 ?st0 = Ok (st, b)"
    and inv: "m3_inv ?sizes (es @ ment 0 0 # rest) (length es) (length es) st"
    and res: "if b then found st = 3 else found st \<noteq> 3 \<and> m3_tried ?sizes (length es) st"
    using m3_scan_ok[OF refl nz inv0] rep by (auto simp: m3_tried_def)
  show ?thesis
  proof (cases b)
    case False
    have "rmalloc3 mp d s u = Ok (None, mp)"
      using scan False m3_restore_inv[OF inv] rep by (simp add: rmalloc3_def Let_def)
    moreover have "unat (m_size e) < unat d + unat s + unat u" if "e \<in> set es" for e
      using m3_fail_small[OF inv _ _ that] res False by auto
    ultimately show ?thesis using wf ents by (auto simp: same_frame_def)
  next
    case True
    then have f: "found st = 3" using res by simp
    have topE: "\<forall>e\<in>set es. seg_end e < 65536" using top fu wfe by (rule top_free)
    have "rmalloc3 mp d s u = (let av = m3_resolve ?sizes (madd st) [0, 1, 2] (m3_map st) in
        case remap st of None \<Rightarrow> Ok (Some (fst av), mp\<lparr>m_map := snd av\<rparr>)
        | Some rm \<Rightarrow> omap (\<lambda>ys. (Some (fst av), mp\<lparr>m_map := ys\<rparr>)) (m3_compact (snd av) rm (Suc rm)))"
      using scan True by (simp add: rmalloc3_def Let_def)
    then show ?thesis
      using m3_success[OF inv f wfe topE rep] unfolding Let_def by auto
  qed
qed

section \<open>The resource map is an extent allocator\<close>

text \<open>\<open>m_limit\<close> points at the last slot of the array, as \<^verbatim>\<open>map.h\<close> says.\<close>

definition rmap_ok :: "rmap \<Rightarrow> bool" where
  "rmap_ok mp \<longleftrightarrow> wf_map mp \<and> m_limit mp < length (m_map mp)"

lemma free_units_bound: "wf_map mp \<Longrightarrow> free_units mp \<subseteq> {..<65536}"
proof -
  assume "wf_map mp"
  then obtain es where es: "wf_ents es" "free_units mp = \<Union> (seg ` set es)" by (metis wf_mapE)
  have "seg e \<subseteq> {..<65536}" if "e \<in> set es" for e
    using wf_ents_end[OF es(1) that] by (auto simp: seg_def seg_end_def)
  then show "free_units mp \<subseteq> {..<65536}" using es(2) by blast
qed

interpretation rm: extent_allocator rmap_ok free_units rmalloc rmfree
proof
  fix s assume "rmap_ok s"
  then show "free_units s \<subseteq> {..<65536}" by (simp add: rmap_ok_def free_units_bound)
next
  fix s sz assume s: "rmap_ok s" and sz: "sz \<noteq> (0::u16)"
  then show "\<exists>a s'. rmalloc s sz = Ok (a, s') \<and> rmap_ok s' \<and>
      (if a = 0 then s' = s else extent (a, sz) \<subseteq> free_units s \<and> free_units s' = free_units s - extent (a, sz))"
    using rmalloc_ok[of s sz]
    by (auto simp: rmap_ok_def is_run_def extent_def same_frame_def split: if_splits)
next
  fix s sz a
  assume s: "rmap_ok s" and sz: "sz \<noteq> (0::u16)" "a \<noteq> (0::u16)" "unat a + unat sz \<le> 65536"
    and dj: "extent (a, sz) \<inter> free_units s = {}"
  then consider mp' where "rmfree s sz a = Ok (True, mp')" "gave_back s sz a mp'"
    | "rmfree s sz a = Ok (False, s)"
    using rmfree_ok[of s sz a] by (auto simp: rmap_ok_def extent_def)
  then show "\<exists>b s'. rmfree s sz a = Ok (b, s') \<and> rmap_ok s' \<and>
      free_units s' = (if b then free_units s \<union> extent (a, sz) else free_units s)"
    using s by cases (auto simp: rmap_ok_def gave_back_def same_frame_def extent_def)
qed

section \<open>Properties\<close>

definition sample_map :: rmap where
  "sample_map = \<lparr>m_map = [ment 5 10, ment 20 100, ment 0 0, ment 0 0], m_limit = 3, m_name = ''coremap''\<rparr>"

lemma sample_map_wf: "wf_map sample_map" "free_units sample_map = {10..<15} \<union> {100..<120}"
  by (auto simp: sample_map_def wf_map_def Let_def entries_def free_units_def seg_def seg_end_def)

text \<open>
  C24. \<^verbatim>\<open>malloc\<close> is first-fit and exact: on a well-formed map it returns the lowest address at
  which a run of the wanted size is free and removes exactly that run, keeping the map
  well-formed; it returns 0, leaving the map as it was, exactly when there is no such run.
\<close>

theorem malloc_first_fit:
  assumes "wf_map mp" and "sz \<noteq> 0"
  shows "\<exists>a mp'. rmalloc mp sz = Ok (a, mp') \<and> wf_map mp' \<and> same_frame mp mp' \<and>
    (if \<exists>b. is_run mp b sz
     then a \<noteq> 0 \<and> is_run mp (unat a) sz \<and> (\<forall>b < unat a. \<not> is_run mp b sz) \<and>
          free_units mp' = free_units mp - {unat a ..< unat a + unat sz}
     else a = 0 \<and> mp' = mp)"
  by (rule rmalloc_ok[OF assms])

theorem malloc_first_fit_witness:
  "\<exists>a mp'. rmalloc sample_map 8 = Ok (a, mp') \<and> wf_map mp' \<and> a \<noteq> 0"
proof -
  have "is_run sample_map 100 8" by (auto simp: is_run_def sample_map_wf)
  then have ex: "\<exists>b. is_run sample_map b 8" by blast
  have "(8::u16) \<noteq> 0" by simp
  from malloc_first_fit[OF sample_map_wf(1) this] show ?thesis unfolding if_P[OF ex] by blast
qed

text \<open>
  \<^verbatim>\<open>mfree\<close> of an extent that is not free returns (it neither faults nor panics), keeps the
  segments sorted and maximal, and makes exactly the returned units free; the extent is lost
  only when the map already has as many segments as \<^verbatim>\<open>m_limit\<close> allows.
\<close>

lemma mfree_returns_units:
  assumes "wf_map mp" "m_limit mp < length (m_map mp)" "sz \<noteq> 0" "addr \<noteq> 0"
    and "unat addr + unat sz \<le> 65536" "{unat addr ..< unat addr + unat sz} \<inter> free_units mp = {}"
  shows "(\<exists>mp'. rmfree mp sz addr = Ok (True, mp') \<and> wf_map mp' \<and> same_frame mp mp' \<and>
       free_units mp' = free_units mp \<union> {unat addr ..< unat addr + unat sz}) \<or>
    (rmfree mp sz addr = Ok (False, mp) \<and> m_limit mp \<le> length (entries (m_map mp)))"
  using rmfree_ok[OF assms] by (simp add: gave_back_def)

text \<open>
  C30. \<^verbatim>\<open>malloc3\<close> is all or nothing: it takes three pairwise disjoint extents of the wanted sizes
  out of the free units and nothing else, or it leaves the map exactly as it was; it fails only
  when no single segment could hold all three.
\<close>

theorem malloc3_all_or_nothing:
  assumes "wf_map mp" and "65535 \<notin> free_units mp"
  shows "\<exists>r mp'. rmalloc3 mp d s u = Ok (r, mp') \<and> wf_map mp' \<and> same_frame mp mp' \<and>
    (case r of
       None \<Rightarrow> mp' = mp \<and> (\<forall>e\<in>set (entries (m_map mp)). unat (m_size e) < unat d + unat s + unat u)
     | Some a \<Rightarrow> \<exists>a0 a1 a2. a = [a0, a1, a2] \<and>
         {unat a0 ..< unat a0 + unat d} \<inter> {unat a1 ..< unat a1 + unat s} = {} \<and>
         {unat a0 ..< unat a0 + unat d} \<inter> {unat a2 ..< unat a2 + unat u} = {} \<and>
         {unat a1 ..< unat a1 + unat s} \<inter> {unat a2 ..< unat a2 + unat u} = {} \<and>
         {unat a0 ..< unat a0 + unat d} \<union> {unat a1 ..< unat a1 + unat s} \<union>
           {unat a2 ..< unat a2 + unat u} \<subseteq> free_units mp \<and>
         free_units mp' = free_units mp - ({unat a0 ..< unat a0 + unat d} \<union>
           {unat a1 ..< unat a1 + unat s} \<union> {unat a2 ..< unat a2 + unat u}))"
  by (rule rmalloc3_ok[OF assms])

theorem malloc3_all_or_nothing_witness:
  "\<exists>a mp'. rmalloc3 sample_map 10 4 6 = Ok (Some a, mp') \<and> wf_map mp' \<and> length a = 3"
proof -
  have "ment 20 100 \<in> set (entries (m_map sample_map))" by (simp add: sample_map_def entries_def)
  then show ?thesis
    using malloc3_all_or_nothing[OF sample_map_wf(1), of 10 4 6]
    by (auto simp: sample_map_wf(2) split: option.splits)
qed



text \<open>
  C39. The maps of \<^verbatim>\<open>param.c\<close> have \<^verbatim>\<open>m_limit\<close> one past the last slot (\<^verbatim>\<open>&_coremap[CMAPSIZ]\<close>), not
  at the last slot as \<^verbatim>\<open>map.h\<close> documents: when such a map is full, \<^verbatim>\<open>mfree\<close> of an extent that
  abuts no segment writes the terminating entry outside the array instead of reporting the
  overflow.
\<close>

theorem mfree_writes_past_full_map:
  assumes "m_map mp = es @ [ment 0 0]" "wf_ents es" "m_limit mp = length (m_map mp)"
    and "sz \<noteq> 0" "addr \<noteq> 0" "unat addr + unat sz \<le> 65536"
    and "\<forall>e\<in>set es. seg_end e < unat addr \<or> unat addr + unat sz < unat (m_addr e)"
  shows "rmfree mp sz addr = Fault"
proof -
  have "{unat addr ..< unat addr + unat sz} \<inter> \<Union> (seg ` set es) = {}"
    using assms(7) by (force simp: seg_def seg_end_def)
  from freeingI[OF assms(2,4-6) this] obtain L R where LR: "es = L @ R" "freeing L R sz addr" .
  have "rmfree mp sz addr = (if m_limit mp < Suc (length (L @ R)) then Ok (False, mp)
     else case [] of [] \<Rightarrow> Fault
       | j # rest' \<Rightarrow> Ok (True, mp\<lparr>m_map := (L @ ment sz addr # R) @ ment 0 0 # rest'\<rparr>))"
    using assms(1,7) LR unat_pos[OF assms(4)]
    by (intro rmfree_new[OF LR(2)]) (auto simp: seg_end_def)
  then show ?thesis using assms(1,3) LR(1) by simp
qed

theorem mfree_writes_past_full_map_witness:
  "rmfree \<lparr>m_map = [ment 5 10, ment 20 100, ment 0 0], m_limit = 3, m_name = ''coremap''\<rparr> 4 50 = Fault"
  by (rule mfree_writes_past_full_map[of _ "[ment 5 10, ment 20 100]"])
     (simp_all add: seg_end_def)

end
