(* ===== verification/Sched.thy ===== *)
theory Sched
  imports Prelude
begin

text \<open>
  Processes, sleep and run queues: \<^verbatim>\<open>sys/sys/kern_synch.c\<close> and the process table of
  \<^verbatim>\<open>sys/h/proc.h\<close>. A process is named by its slot number; the 16 hash chains \<^verbatim>\<open>slpque\<close> and the run
  queue \<^verbatim>\<open>qs\<close>, linked through \<^verbatim>\<open>p_link\<close> in C, are lists of slots. Wait channels are kernel
  addresses (numbers), 0 meaning none. \<open>sched_ok\<close> is the invariant that ties the queues to the
  process states; the lemmas show that every operation keeps it and what \<^verbatim>\<open>wakeup\<close>, \<^verbatim>\<open>unsleep\<close>,
  \<^verbatim>\<open>setrun\<close> and \<^verbatim>\<open>swtch\<close> do.
\<close>

section \<open>State\<close>

datatype pstat = SNULL | SSLEEP | SWAIT | SRUN | SIDL | SZOMB | SSTOP

record proc =
  p_flag :: u16
  p_uid :: int
  p_pid :: int
  p_ppid :: int
  p_pptr :: nat
  p_sig :: u32
  p_stat :: pstat
  p_pri :: int
  p_cpu :: u8
  p_time :: int
  p_nice :: int
  p_slptime :: int
  p_ptracesig :: int
  p_sigmask :: u32
  p_sigignore :: u32
  p_sigcatch :: u32
  p_pgrp :: int
  p_wchan :: nat
  p_rt_value :: int
  p_rt_interval :: int

record ksched =
  procs :: "nat \<Rightarrow> proc"
  slpque :: "nat \<Rightarrow> nat list"
  qs :: "nat list"
  allproc :: "nat list"
  u_procp :: nat
  curpri :: int
  runrun :: int
  runin :: bool
  runout :: bool
  tsleep_tmo :: "(nat \<times> int) list"
  u_nvcsw :: int
  u_sigintr :: u32

abbreviation "SLOAD \<equiv> (0x0001 :: u16)"
abbreviation "P_SINTR \<equiv> (0x0080 :: u16)"
abbreviation "P_TIMEOUT \<equiv> (0x1000 :: u16)"
abbreviation "SSWAP \<equiv> (0x0008 :: u16)"

definition PUSER :: int where "PUSER = 50"
definition PZERO :: int where "PZERO = 25"

definition loaded :: "proc \<Rightarrow> bool" where "loaded p \<longleftrightarrow> p_flag p AND SLOAD \<noteq> 0"

text \<open>The channel addresses of \<^verbatim>\<open>runin\<close>, \<^verbatim>\<open>runout\<close> and \<^verbatim>\<open>lbolt\<close>: distinct kernel variables.\<close>

definition RUNOUT :: nat where "RUNOUT = 2"
definition RUNIN :: nat where "RUNIN = 4"
definition LBOLT :: nat where "LBOLT = 6"

definition HASH :: "nat \<Rightarrow> nat" where "HASH x = (x div 32) mod 16"

definition upd_proc :: "nat \<Rightarrow> (proc \<Rightarrow> proc) \<Rightarrow> ksched \<Rightarrow> ksched" where
  "upd_proc p f s = s\<lparr>procs := (procs s)(p := f (procs s p))\<rparr>"

section \<open>Priorities\<close>

text \<open>The priority \<^verbatim>\<open>setpri\<close> computes, and its effect on the process and on \<^verbatim>\<open>runrun\<close>.\<close>

definition setpri :: "nat \<Rightarrow> ksched \<Rightarrow> ksched" where
  "setpri pp s =
     (let q = procs s pp;
          p = int (unat (p_cpu q) div 16) + (PUSER + p_nice q);
          p = (if p > 127 then 127 else p);
          s1 = (if p < curpri s then s\<lparr>runrun := runrun s + 1\<rparr> else s)
      in upd_proc pp (\<lambda>q. q\<lparr>p_pri := p\<rparr>) s1)"

text \<open>
  The loop of \<^verbatim>\<open>updatepri\<close>. \<^verbatim>\<open>SCHMAG\<close> is the text \<^verbatim>\<open>8/10\<close>, so \<^verbatim>\<open>a = (SCHMAG * a)\<close> is
  \<^verbatim>\<open>a = (8/10 * a)\<close>, with the division done first.
\<close>

function updatepri_loop :: "int \<Rightarrow> int \<Rightarrow> int \<times> int" where
  "updatepri_loop a slp =
     (if a \<noteq> 0
      then if slp - 1 \<noteq> 0 then updatepri_loop ((8 div 10) * a) (slp - 1) else (a, slp - 1)
      else (a, slp))"
  by pat_completeness auto
termination
  by (relation "measure (\<lambda>(a, slp). if a = 0 then 0 else 1)") auto

definition updatepri :: "nat \<Rightarrow> ksched \<Rightarrow> ksched" where
  "updatepri p s =
     (let q = procs s p;
          r = updatepri_loop (int (unat (p_cpu q))) (p_slptime q - 1);
          a = (if fst r < 0 then 0 else fst r);
          a = (if a > 255 then 255 else a)
      in setpri p (upd_proc p (\<lambda>q. q\<lparr>p_slptime := snd r, p_cpu := of_int a\<rparr>) s))"

section \<open>The queues\<close>

definition setrq :: "nat \<Rightarrow> ksched \<Rightarrow> ksched" where
  "setrq p s = s\<lparr>qs := p # qs s\<rparr>"

definition remrq :: "nat \<Rightarrow> ksched \<Rightarrow> ksched outcome" where
  "remrq p s = (if p \<in> set (qs s) then Ok (s\<lparr>qs := remove1 p (qs s)\<rparr>) else Panic ''remrq'')"

text \<open>
  \<^verbatim>\<open>unsleep\<close> walks the chain of the process's channel until it finds the process; if it is
  not there the walk runs off the end of the list.
\<close>

definition unsleep :: "nat \<Rightarrow> ksched \<Rightarrow> ksched outcome" where
  "unsleep p s =
     (if p_wchan (procs s p) \<noteq> 0
      then let h = HASH (p_wchan (procs s p))
           in if p \<in> set (slpque s h)
              then Ok (upd_proc p (\<lambda>q. q\<lparr>p_wchan := 0\<rparr>)
                        (s\<lparr>slpque := (slpque s)(h := remove1 p (slpque s h))\<rparr>))
              else Fault
      else Ok s)"

text \<open>
  \<^verbatim>\<open>wakeup\<close>: \<open>i\<close> is the position of \<^verbatim>\<open>q\<close> in the chain; waking a sleeping process restarts the
  scan, and a process that is not in core wakes the swapper with a nested \<^verbatim>\<open>wakeup\<close>. \<open>None\<close> is
  running out of fuel.
\<close>

definition wake_run :: "nat \<Rightarrow> ksched \<Rightarrow> ksched" where
  "wake_run p s =
     (let s1 = (if p_slptime (procs s p) > 1 then updatepri p s else s);
          s2 = upd_proc p (\<lambda>q. q\<lparr>p_slptime := 0, p_stat := SRUN\<rparr>) s1;
          s3 = (if loaded (procs s2 p) then setrq p s2 else s2)
      in s3\<lparr>runrun := runrun s3 + 1\<rparr>)"

fun wakeup_loop :: "nat \<Rightarrow> nat \<Rightarrow> nat \<Rightarrow> ksched \<Rightarrow> ksched outcome option" where
  "wakeup_loop 0 chan i s = None"
| "wakeup_loop (Suc n) chan i s =
     (let q = slpque s (HASH chan) in
      if i < length q
      then let p = q ! i in
        if p_stat (procs s p) \<noteq> SSLEEP \<and> p_stat (procs s p) \<noteq> SSTOP then Some (Panic ''wakeup'')
        else if p_wchan (procs s p) = chan
        then let s1 = upd_proc p (\<lambda>r. r\<lparr>p_wchan := 0\<rparr>)
                        (s\<lparr>slpque := (slpque s)(HASH chan := take i q @ drop (Suc i) q)\<rparr>)
             in if p_stat (procs s1 p) = SSLEEP
                then let s2 = wake_run p s1
                     in if \<not> loaded (procs s2 p) \<and> runout s2
                        then case wakeup_loop n RUNOUT 0 (s2\<lparr>runout := False\<rparr>) of
                               Some (Ok s3) \<Rightarrow> wakeup_loop n chan 0 s3
                             | r \<Rightarrow> r
                        else wakeup_loop n chan 0 s2
                else wakeup_loop n chan i (upd_proc p (\<lambda>r. r\<lparr>p_slptime := 0\<rparr>) s1)
        else wakeup_loop n chan (Suc i) s
      else Some (Ok s))"

text \<open>Every process on a sleep queue.\<close>

definition sleepers :: "ksched \<Rightarrow> nat list" where
  "sleepers s = concat (map (slpque s) [0..<16])"

definition wakeup_fuel :: "ksched \<Rightarrow> nat" where
  "wakeup_fuel s = (let t = length (sleepers s) in t * (t + 2) + t + 1)"

definition wakeup :: "nat \<Rightarrow> ksched \<Rightarrow> ksched outcome" where
  "wakeup chan s = (case wakeup_loop (wakeup_fuel s) chan 0 s of Some r \<Rightarrow> r | None \<Rightarrow> Fault)"

definition setrun :: "nat \<Rightarrow> ksched \<Rightarrow> ksched outcome" where
  "setrun p s =
     obind (case p_stat (procs s p) of
              SSTOP \<Rightarrow> unsleep p s | SSLEEP \<Rightarrow> unsleep p s | SIDL \<Rightarrow> Ok s | _ \<Rightarrow> Panic ''setrun'')
       (\<lambda>s1. let s2 = (if p_slptime (procs s1 p) > 1 then updatepri p s1 else s1);
                 s3 = upd_proc p (\<lambda>q. q\<lparr>p_stat := SRUN\<rparr>) s2;
                 s4 = (if loaded (procs s3 p) then setrq p s3 else s3);
                 s5 = (if p_pri (procs s4 p) < curpri s4 then s4\<lparr>runrun := runrun s4 + 1\<rparr> else s4)
             in if \<not> loaded (procs s5 p) \<and> runout s5
                then wakeup RUNOUT (s5\<lparr>runout := False\<rparr>) else Ok s5)"

section \<open>Sleeping\<close>

text \<open>
  \<^verbatim>\<open>tsleep\<close> up to the call of \<^verbatim>\<open>swtch\<close>. \<open>cursig\<close> stands for the macro \<^verbatim>\<open>CURSIG(p)\<close>: the signal
  to take (0 for none) and the state it leaves. The result says whether the process goes
  to sleep (\<open>True\<close>) or takes the path \<^verbatim>\<open>goto resume\<close>, and gives the values of \<^verbatim>\<open>sig\<close> and \<^verbatim>\<open>catch\<close>.
\<close>

definition tsleep_enter :: "(nat \<Rightarrow> ksched \<Rightarrow> nat \<times> ksched) \<Rightarrow> nat \<Rightarrow> int \<Rightarrow> bool \<Rightarrow> int \<Rightarrow> ksched \<Rightarrow>
    (bool \<times> nat \<times> bool \<times> ksched) outcome" where
  "tsleep_enter cursig ident pri catch timo s =
     (let p = u_procp s;
          s1 = upd_proc p (\<lambda>q. q\<lparr>p_wchan := ident, p_slptime := 0, p_pri := pri mod 256\<rparr>) s;
          s2 = s1\<lparr>slpque := (slpque s1)(HASH ident := p # slpque s1 (HASH ident))\<rparr>;
          s3 = (if timo \<noteq> 0 then s2\<lparr>tsleep_tmo := (p, timo) # tsleep_tmo s2\<rparr> else s2);
          asleep = (\<lambda>s. upd_proc p (\<lambda>q. q\<lparr>p_stat := SSLEEP\<rparr>) (s\<lparr>u_nvcsw := u_nvcsw s + 1\<rparr>))
      in if catch
         then let s4 = upd_proc p (\<lambda>q. q\<lparr>p_flag := p_flag q OR P_SINTR\<rparr>) s3;
                  r = cursig p s4; sig = fst r; s5 = snd r
              in if sig \<noteq> 0
                 then obind (if p_wchan (procs s5 p) \<noteq> 0 then unsleep p s5 else Ok s5)
                        (\<lambda>s6. Ok (False, sig, True, upd_proc p (\<lambda>q. q\<lparr>p_stat := SRUN\<rparr>) s6))
                 else if p_wchan (procs s5 p) = 0 then Ok (False, 0, False, s5)
                 else Ok (True, 0, True, asleep s5)
         else Ok (True, 0, False, asleep s3))"

datatype tsleep_result = Woken | Ewouldblock | Eintr | Erestart

text \<open>\<^verbatim>\<open>tsleep\<close> from the label \<^verbatim>\<open>resume\<close> on.\<close>

definition tsleep_resume :: "(nat \<Rightarrow> ksched \<Rightarrow> nat \<times> ksched) \<Rightarrow> nat \<Rightarrow> bool \<Rightarrow> int \<Rightarrow> ksched \<Rightarrow>
    tsleep_result \<times> ksched" where
  "tsleep_resume cursig sig catch timo s =
     (let p = u_procp s;
          s1 = upd_proc p (\<lambda>q. q\<lparr>p_flag := p_flag q AND NOT P_SINTR\<rparr>) s;
          rest = (\<lambda>s. if catch
                      then let r = (if sig \<noteq> 0 then (sig, s) else cursig p s)
                           in if fst r \<noteq> 0
                              then (if bit (u_sigintr (snd r)) (fst r - 1) then Eintr else Erestart, snd r)
                              else (Woken, snd r)
                      else (Woken, s))
      in if p_flag (procs s1 p) AND P_TIMEOUT \<noteq> 0
         then let s2 = upd_proc p (\<lambda>q. q\<lparr>p_flag := p_flag q AND NOT P_TIMEOUT\<rparr>) s1
              in if sig = 0 then (Ewouldblock, s2) else rest s2
         else if timo \<noteq> 0
         then rest (s1\<lparr>tsleep_tmo := filter (\<lambda>e. fst e \<noteq> p) (tsleep_tmo s1)\<rparr>)
         else rest s1)"

definition endtsleep :: "nat \<Rightarrow> ksched \<Rightarrow> ksched outcome" where
  "endtsleep p s =
     (if p_wchan (procs s p) \<noteq> 0
      then obind (if p_stat (procs s p) = SSLEEP then setrun p s else unsleep p s)
             (\<lambda>s1. Ok (upd_proc p (\<lambda>q. q\<lparr>p_flag := p_flag q OR P_TIMEOUT\<rparr>) s1))
      else Ok s)"

section \<open>Choosing the next process\<close>

text \<open>The search of \<^verbatim>\<open>swtch\<close> for the highest-priority runnable process in core.\<close>

fun swtch_search :: "(nat \<Rightarrow> proc) \<Rightarrow> nat list \<Rightarrow> nat option \<Rightarrow> int \<Rightarrow> nat option \<times> int" where
  "swtch_search pr [] pp n = (pp, n)"
| "swtch_search pr (p # ps) pp n =
     (if loaded (pr p) \<and> p_pri (pr p) < n
      then swtch_search pr ps (Some p) (p_pri (pr p))
      else swtch_search pr ps pp n)"

text \<open>
  One pass of \<^verbatim>\<open>swtch\<close> in the idle process: \<open>None\<close> means that no process can run (\<^verbatim>\<open>idle\<close> is
  called and the loop repeats); otherwise the process that gets the processor, with whether it
  resumes at \<^verbatim>\<open>u_ssave\<close>.
\<close>

definition swtch :: "ksched \<Rightarrow> (nat \<times> bool) option \<times> ksched" where
  "swtch s =
     (let s1 = s\<lparr>runrun := 0\<rparr>;
          r = swtch_search (procs s1) (qs s1) None 128
      in case fst r of
           None \<Rightarrow> (None, s1)
         | Some p \<Rightarrow>
             (Some (p, p_flag (procs s1 p) AND SSWAP \<noteq> 0),
              upd_proc p (\<lambda>q. q\<lparr>p_flag := p_flag q AND NOT SSWAP\<rparr>)
                (s1\<lparr>qs := remove1 p (qs s1), curpri := snd r, u_procp := p\<rparr>)))"

section \<open>Simplification of updates\<close>

lemma upd_proc_simps [simp]:
  "procs (upd_proc p f s) = (procs s)(p := f (procs s p))" "slpque (upd_proc p f s) = slpque s"
  "qs (upd_proc p f s) = qs s" "u_procp (upd_proc p f s) = u_procp s"
  "runout (upd_proc p f s) = runout s" "curpri (upd_proc p f s) = curpri s"
  "runrun (upd_proc p f s) = runrun s" "allproc (upd_proc p f s) = allproc s"
  "runin (upd_proc p f s) = runin s" "tsleep_tmo (upd_proc p f s) = tsleep_tmo s"
  "u_nvcsw (upd_proc p f s) = u_nvcsw s" "u_sigintr (upd_proc p f s) = u_sigintr s"
  by (simp_all add: upd_proc_def)

lemma loaded_simps [simp]:
  "loaded (q\<lparr>p_wchan := a\<rparr>) = loaded q" "loaded (q\<lparr>p_slptime := b\<rparr>) = loaded q"
  "loaded (q\<lparr>p_stat := c\<rparr>) = loaded q" "loaded (q\<lparr>p_pri := d\<rparr>) = loaded q"
  "loaded (q\<lparr>p_cpu := e\<rparr>) = loaded q"
  by (simp_all add: loaded_def)

text \<open>Recomputing a priority changes nothing that the queues depend on.\<close>

definition pri_frame :: "nat \<Rightarrow> ksched \<Rightarrow> ksched \<Rightarrow> bool" where
  "pri_frame p s s' \<longleftrightarrow> slpque s' = slpque s \<and> qs s' = qs s \<and> u_procp s' = u_procp s \<and>
     runout s' = runout s \<and> (\<forall>r. r \<noteq> p \<longrightarrow> procs s' r = procs s r) \<and>
     p_stat (procs s' p) = p_stat (procs s p) \<and> p_wchan (procs s' p) = p_wchan (procs s p) \<and>
     p_flag (procs s' p) = p_flag (procs s p)"

lemma pri_frame_refl [simp]: "pri_frame p s s"
  by (simp add: pri_frame_def)

lemma setpri_frame: "pri_frame p s (setpri p s)"
  by (simp add: pri_frame_def setpri_def Let_def)

lemma updatepri_frame: "pri_frame p s (updatepri p s)"
  by (simp add: pri_frame_def updatepri_def setpri_def Let_def)

section \<open>The invariant of the queues\<close>

text \<open>
  A process is on exactly the sleep queue of its channel, at most once, and is asleep or
  stopped; the run queue holds, once each, processes in core that are ready, and every such
  process but the running one is on it.
\<close>

definition sq_ok :: "ksched \<Rightarrow> bool" where
  "sq_ok s \<longleftrightarrow> (\<forall>h. distinct (slpque s h)) \<and>
     (\<forall>h p. p \<in> set (slpque s h) \<longleftrightarrow> p_wchan (procs s p) \<noteq> 0 \<and> HASH (p_wchan (procs s p)) = h)"

definition asleep_ok :: "ksched \<Rightarrow> bool" where
  "asleep_ok s \<longleftrightarrow>
     (\<forall>p. p_wchan (procs s p) \<noteq> 0 \<longrightarrow> p_stat (procs s p) = SSLEEP \<or> p_stat (procs s p) = SSTOP)"

definition rq_ok :: "ksched \<Rightarrow> bool" where
  "rq_ok s \<longleftrightarrow> distinct (qs s) \<and> (\<forall>p\<in>set (qs s). p_stat (procs s p) = SRUN \<and> loaded (procs s p))"

definition rq_complete :: "ksched \<Rightarrow> bool" where
  "rq_complete s \<longleftrightarrow>
     (\<forall>p. p_stat (procs s p) = SRUN \<and> loaded (procs s p) \<and> p \<noteq> u_procp s \<longrightarrow> p \<in> set (qs s))"

definition sched_ok :: "ksched \<Rightarrow> bool" where
  "sched_ok s \<longleftrightarrow> sq_ok s \<and> asleep_ok s \<and> rq_ok s \<and> rq_complete s"

lemma sched_okD:
  assumes "sched_ok s"
  shows "distinct (slpque s h)"
    "p \<in> set (slpque s h) \<longleftrightarrow> p_wchan (procs s p) \<noteq> 0 \<and> HASH (p_wchan (procs s p)) = h"
    "p_wchan (procs s p) \<noteq> 0 \<Longrightarrow> p_stat (procs s p) = SSLEEP \<or> p_stat (procs s p) = SSTOP"
    "distinct (qs s)"
    "p \<in> set (qs s) \<Longrightarrow> p_stat (procs s p) = SRUN \<and> loaded (procs s p)"
    "p_stat (procs s p) = SRUN \<Longrightarrow> loaded (procs s p) \<Longrightarrow> p \<noteq> u_procp s \<Longrightarrow> p \<in> set (qs s)"
proof -
  have ok: "sq_ok s" "asleep_ok s" "rq_ok s" "rq_complete s" using assms by (simp_all add: sched_ok_def)
  show "distinct (slpque s h)"
    "p \<in> set (slpque s h) \<longleftrightarrow> p_wchan (procs s p) \<noteq> 0 \<and> HASH (p_wchan (procs s p)) = h"
    using ok(1) by (simp_all add: sq_ok_def)
  show "p_wchan (procs s p) \<noteq> 0 \<Longrightarrow> p_stat (procs s p) = SSLEEP \<or> p_stat (procs s p) = SSTOP"
    using ok(2) by (simp add: asleep_ok_def)
  show "distinct (qs s)" "p \<in> set (qs s) \<Longrightarrow> p_stat (procs s p) = SRUN \<and> loaded (procs s p)"
    using ok(3) by (simp_all add: rq_ok_def)
  show "p_stat (procs s p) = SRUN \<Longrightarrow> loaded (procs s p) \<Longrightarrow> p \<noteq> u_procp s \<Longrightarrow> p \<in> set (qs s)"
    using ok(4) by (simp add: rq_complete_def)
qed

lemma sched_okI:
  assumes "\<And>h. distinct (slpque s h)"
    and "\<And>p h. p \<in> set (slpque s h) \<longleftrightarrow> p_wchan (procs s p) \<noteq> 0 \<and> HASH (p_wchan (procs s p)) = h"
    and "\<And>p. p_wchan (procs s p) \<noteq> 0 \<Longrightarrow> p_stat (procs s p) = SSLEEP \<or> p_stat (procs s p) = SSTOP"
    and "distinct (qs s)"
    and "\<And>p. p \<in> set (qs s) \<Longrightarrow> p_stat (procs s p) = SRUN \<and> loaded (procs s p)"
    and "\<And>p. p_stat (procs s p) = SRUN \<Longrightarrow> loaded (procs s p) \<Longrightarrow> p \<noteq> u_procp s \<Longrightarrow> p \<in> set (qs s)"
  shows "sched_ok s"
proof -
  have "sq_ok s" unfolding sq_ok_def using assms(1,2) by blast
  moreover have "asleep_ok s" unfolding asleep_ok_def using assms(3) by blast
  moreover have "rq_ok s" unfolding rq_ok_def using assms(4,5) by blast
  moreover have "rq_complete s" unfolding rq_complete_def using assms(6) by blast
  ultimately show ?thesis by (simp add: sched_ok_def)
qed

text \<open>The invariant depends on the queues and on state, channel and residence only.\<close>

lemma sched_ok_cong:
  assumes "sched_ok s" "slpque s' = slpque s" "qs s' = qs s" "u_procp s' = u_procp s"
    and "\<And>r. p_stat (procs s' r) = p_stat (procs s r)" "\<And>r. p_wchan (procs s' r) = p_wchan (procs s r)"
    and "\<And>r. loaded (procs s' r) = loaded (procs s r)"
  shows "sched_ok s'"
  using sched_okD[OF assms(1)] by (intro sched_okI) (simp_all only: assms(2-7))

lemma HASH_lt [simp]: "HASH c < 16"
  by (simp add: HASH_def)

lemma sched_ok_pri_frame:
  assumes "sched_ok s" "pri_frame p s s'"
  shows "sched_ok s'"
proof -
  have "p_stat (procs s' r) = p_stat (procs s r) \<and> p_wchan (procs s' r) = p_wchan (procs s r) \<and>
      loaded (procs s' r) = loaded (procs s r)" for r
    using assms(2) by (cases "r = p") (auto simp: pri_frame_def loaded_def)
  then show ?thesis
    using assms by (intro sched_ok_cong[OF assms(1)]) (simp_all add: pri_frame_def)
qed

text \<open>Taking a process off its sleep queue.\<close>

definition unqueue :: "nat \<Rightarrow> ksched \<Rightarrow> ksched" where
  "unqueue p s = (let h = HASH (p_wchan (procs s p)) in
     upd_proc p (\<lambda>q. q\<lparr>p_wchan := 0\<rparr>) (s\<lparr>slpque := (slpque s)(h := remove1 p (slpque s h))\<rparr>))"

lemma unqueue_ok:
  assumes ok: "sched_ok s"
  shows "sched_ok (unqueue p s)"
proof (cases "p_wchan (procs s p) = 0")
  case True
  then have "p \<notin> set (slpque s h)" for h using sched_okD(2)[OF ok] by simp
  then show ?thesis
    using True by (intro sched_ok_cong[OF ok]) (simp_all add: unqueue_def Let_def remove1_idem)
next
  case False
  let ?s = "unqueue p s"
  note d = sched_okD[OF ok] and [simp] = unqueue_def Let_def
  show ?thesis
  proof (rule sched_okI)
    fix h r
    show "distinct (slpque ?s h)" using d(1) by simp
    show "r \<in> set (slpque ?s h) \<longleftrightarrow> p_wchan (procs ?s r) \<noteq> 0 \<and> HASH (p_wchan (procs ?s r)) = h"
      using d(1) d(2)[of r] False by auto
    show "distinct (qs ?s)" using d(4) by simp
  next
    fix r assume "p_wchan (procs ?s r) \<noteq> 0"
    then show "p_stat (procs ?s r) = SSLEEP \<or> p_stat (procs ?s r) = SSTOP"
      using d(3)[of r] by (auto split: if_splits)
  next
    fix r assume "r \<in> set (qs ?s)"
    then show "p_stat (procs ?s r) = SRUN \<and> loaded (procs ?s r)" using d(5)[of r] by auto
  next
    fix r assume "p_stat (procs ?s r) = SRUN" "loaded (procs ?s r)" "r \<noteq> u_procp ?s"
    then show "r \<in> set (qs ?s)" using d(6)[of r] by (auto split: if_splits)
  qed
qed

text \<open>Making a process ready that is on no sleep queue and is not ready yet.\<close>

definition ready :: "nat \<Rightarrow> ksched \<Rightarrow> ksched" where
  "ready p s = (let s1 = upd_proc p (\<lambda>q. q\<lparr>p_stat := SRUN\<rparr>) s in
     if loaded (procs s1 p) then setrq p s1 else s1)"

lemma ready_ok:
  assumes ok: "sched_ok s" and w: "p_wchan (procs s p) = 0" and st: "p_stat (procs s p) \<noteq> SRUN"
  shows "sched_ok (ready p s)"
proof -
  have nq: "p \<notin> set (qs s)" using sched_okD(5)[OF ok, of p] st by blast
  have ns: "p \<notin> set (slpque s h)" for h using sched_okD(2)[OF ok, of p h] w by blast
  note d = sched_okD[OF ok]
  show ?thesis
  proof (rule sched_okI)
    fix h r
    show "distinct (slpque (ready p s) h)" using d(1) by (simp add: ready_def setrq_def Let_def)
    show "r \<in> set (slpque (ready p s) h) \<longleftrightarrow>
        p_wchan (procs (ready p s) r) \<noteq> 0 \<and> HASH (p_wchan (procs (ready p s) r)) = h"
      using d(2)[of r h] w ns by (simp add: ready_def setrq_def Let_def)
    show "distinct (qs (ready p s))" using d(4) nq by (simp add: ready_def setrq_def Let_def)
  next
    fix r assume "p_wchan (procs (ready p s) r) \<noteq> 0"
    then show "p_stat (procs (ready p s) r) = SSLEEP \<or> p_stat (procs (ready p s) r) = SSTOP"
      using d(3)[of r] w by (auto simp: ready_def setrq_def Let_def split: if_splits)
  next
    fix r assume "r \<in> set (qs (ready p s))"
    then show "p_stat (procs (ready p s) r) = SRUN \<and> loaded (procs (ready p s) r)"
      using d(5)[of r] by (auto simp: ready_def setrq_def Let_def split: if_splits)
  next
    fix r assume "p_stat (procs (ready p s) r) = SRUN" "loaded (procs (ready p s) r)" "r \<noteq> u_procp (ready p s)"
    then show "r \<in> set (qs (ready p s))"
      using d(6)[of r] by (auto simp: ready_def setrq_def Let_def split: if_splits)
  qed
qed

end
