(* ===== verification/Sched_Props.thy ===== *)
theory Sched_Props
  imports Sched
begin

text \<open>
  What the scheduler operations of \<open>Sched\<close> do and that they keep \<open>sched_ok\<close>: \<^verbatim>\<open>wakeup\<close>
  terminates, wakes everyone waiting on the channel and nobody else (but for the swapper),
  \<^verbatim>\<open>setrun\<close> and \<^verbatim>\<open>endtsleep\<close> make one process ready, \<^verbatim>\<open>swtch\<close> picks a best process.
\<close>

section \<open>Counting sleepers\<close>

lemma length_sleepers: "length (sleepers s) = (\<Sum>h<16. length (slpque s h))"
  by (simp add: sleepers_def length_concat interv_sum_list_conv_sum_set_nat atLeast0LessThan comp_def)

lemma sleepers_bucket: "h < 16 \<Longrightarrow> length (slpque s h) \<le> length (sleepers s)"
  unfolding length_sleepers by (rule member_le_sum) auto

lemma sleepers_update:
  assumes "h < 16" "Suc (length q) = length (slpque s h)" "slpque s' = (slpque s)(h := q)"
  shows "Suc (length (sleepers s')) = length (sleepers s)"
proof -
  have "(\<Sum>k<16. length (slpque s k)) = length (slpque s h) + (\<Sum>k\<in>{..<16} - {h}. length (slpque s k))"
    using assms(1) by (intro sum.remove) auto
  moreover have "(\<Sum>k<16. length (slpque s' k)) = length q + (\<Sum>k\<in>{..<16} - {h}. length (slpque s' k))"
    using assms(1,3) by (subst sum.remove[of _ h]) auto
  moreover have "(\<Sum>k\<in>{..<16} - {h}. length (slpque s' k)) = (\<Sum>k\<in>{..<16} - {h}. length (slpque s k))"
    using assms(3) by (intro sum.cong) auto
  ultimately show ?thesis unfolding length_sleepers using assms(2) by simp
qed

lemma remove1_nth: "distinct q \<Longrightarrow> i < length q \<Longrightarrow> remove1 (q ! i) q = take i q @ drop (Suc i) q"
proof (induction q arbitrary: i)
  case (Cons a q) then show ?case by (cases i) auto
qed simp

section \<open>The effect of waking\<close>

text \<open>Processes waiting on a channel in \<open>C\<close> may have been woken; nothing else changed.\<close>

definition woke :: "nat set \<Rightarrow> ksched \<Rightarrow> ksched \<Rightarrow> bool" where
  "woke C s s' \<longleftrightarrow> (\<forall>p. procs s' p = procs s p \<or>
     p_wchan (procs s p) \<in> C \<and> p_wchan (procs s p) \<noteq> 0 \<and> p_wchan (procs s' p) = 0 \<and>
     p_stat (procs s' p) = (if p_stat (procs s p) = SSLEEP then SRUN else p_stat (procs s p)))"

lemma woke_refl [simp]: "woke C s s"
  by (simp add: woke_def)

lemma woke_trans: "woke C s t \<Longrightarrow> woke C t r \<Longrightarrow> woke C s r"
  unfolding woke_def by (metis (no_types, lifting))

lemma woke_mono: "woke C s t \<Longrightarrow> C \<subseteq> D \<Longrightarrow> woke D s t"
  unfolding woke_def by blast

lemma wake_run_facts:
  shows "slpque (wake_run p s) = slpque s" "runout (wake_run p s) = runout s"
    "u_procp (wake_run p s) = u_procp s" "r \<noteq> p \<Longrightarrow> procs (wake_run p s) r = procs s r"
    "p_stat (procs (wake_run p s) p) = SRUN" "p_wchan (procs (wake_run p s) p) = p_wchan (procs s p)"
proof -
  let ?s1 = "if p_slptime (procs s p) > 1 then updatepri p s else s"
  have f: "pri_frame p s ?s1" using updatepri_frame by simp
  show "slpque (wake_run p s) = slpque s" "runout (wake_run p s) = runout s"
    "u_procp (wake_run p s) = u_procp s" "r \<noteq> p \<Longrightarrow> procs (wake_run p s) r = procs s r"
    "p_stat (procs (wake_run p s) p) = SRUN" "p_wchan (procs (wake_run p s) p) = p_wchan (procs s p)"
    using f by (auto simp: wake_run_def setrq_def Let_def pri_frame_def)
qed

lemma wake_run_ok:
  assumes ok: "sched_ok s" and w: "p_wchan (procs s p) = 0" and st: "p_stat (procs s p) \<noteq> SRUN"
  shows "sched_ok (wake_run p s)"
proof -
  let ?s1 = "if p_slptime (procs s p) > 1 then updatepri p s else s"
  let ?s2 = "upd_proc p (\<lambda>q. q\<lparr>p_slptime := 0\<rparr>) ?s1"
  have f: "pri_frame p s ?s1" using updatepri_frame by simp
  have "sched_ok ?s1" by (rule sched_ok_pri_frame[OF ok f])
  then have "sched_ok ?s2" by (rule sched_ok_cong) auto
  moreover have "p_wchan (procs ?s2 p) = 0" "p_stat (procs ?s2 p) \<noteq> SRUN"
    using f w st by (auto simp: pri_frame_def)
  ultimately have "sched_ok (ready p ?s2)" by (rule ready_ok)
  then show ?thesis
    by (rule sched_ok_cong) (auto simp: wake_run_def ready_def setrq_def Let_def)
qed

lemma unqueue_facts:
  "runout (unqueue p s) = runout s" "u_procp (unqueue p s) = u_procp s"
  "r \<noteq> p \<Longrightarrow> procs (unqueue p s) r = procs s r"
  "p_stat (procs (unqueue p s) p) = p_stat (procs s p)" "p_wchan (procs (unqueue p s) p) = 0"
  "qs (unqueue p s) = qs s" "loaded (procs (unqueue p s) p) = loaded (procs s p)"
  by (simp_all add: unqueue_def Let_def)

lemma unqueue_sleepers:
  assumes ok: "sched_ok s" and w: "p_wchan (procs s p) \<noteq> 0"
  shows "Suc (length (sleepers (unqueue p s))) = length (sleepers s)"
proof -
  let ?h = "HASH (p_wchan (procs s p))"
  have "p \<in> set (slpque s ?h)" using sched_okD(2)[OF ok, of p ?h] w by simp
  then have "Suc (length (remove1 p (slpque s ?h))) = length (slpque s ?h)"
    by (simp add: length_remove1) (metis One_nat_def Suc_pred length_pos_if_in_set)
  then show ?thesis by (intro sleepers_update) (auto simp: unqueue_def Let_def)
qed

lemma sleepers_cong: "slpque s' = slpque s \<Longrightarrow> length (sleepers s') = length (sleepers s)"
  by (simp add: length_sleepers)

section \<open>wakeup\<close>

lemma wakeup_step_eq:
  assumes "sched_ok s" "i < length (slpque s (HASH chan))"
    and p: "p = slpque s (HASH chan) ! i" and w: "p_wchan (procs s p) = chan"
  shows "upd_proc p (\<lambda>r. r\<lparr>p_wchan := 0\<rparr>) (s\<lparr>slpque := (slpque s)(HASH chan :=
      take i (slpque s (HASH chan)) @ drop (Suc i) (slpque s (HASH chan)))\<rparr>) = unqueue p s"
  using remove1_nth[OF sched_okD(1)[OF assms(1)] assms(2)] p w
  by (simp add: unqueue_def Let_def)

definition enough :: "nat \<Rightarrow> nat \<Rightarrow> nat \<Rightarrow> ksched \<Rightarrow> bool" where
  "enough n chan i s \<longleftrightarrow> (let t = length (sleepers s) in
     t * (t + 2) + (length (slpque s (HASH chan)) - i) < n)"

lemma enough_less:
  assumes "enough (Suc n) chan i s" "length (sleepers s') < length (sleepers s)"
  shows "enough n c j s'"
proof -
  let ?t = "length (sleepers s)" and ?t' = "length (sleepers s')"
  have "length (slpque s' (HASH c)) - j \<le> ?t'" using sleepers_bucket[OF HASH_lt, of s' c] by simp
  moreover have "?t' * (?t' + 2) + ?t' < ?t * (?t + 2)"
  proof -
    have "?t' * (?t' + 2) + ?t' = ?t' * (?t' + 3)" by (simp add: algebra_simps)
    also have "\<dots> \<le> ?t' * (?t + 2)" using assms(2) by (intro mult_le_mono2) simp
    also have "\<dots> < ?t * (?t + 2)" using assms(2) by (intro mult_less_mono1) simp_all
    finally show ?thesis .
  qed
  ultimately show ?thesis using assms(1) by (simp add: enough_def Let_def)
qed

definition wakeup_post :: "nat \<Rightarrow> ksched \<Rightarrow> ksched \<Rightarrow> bool" where
  "wakeup_post chan s s' \<longleftrightarrow> sched_ok s' \<and> woke {chan, RUNOUT} s s' \<and>
     (\<forall>p. p_wchan (procs s' p) \<noteq> chan) \<and> length (sleepers s') \<le> length (sleepers s) \<and>
     u_procp s' = u_procp s"

lemma wakeup_post_step:
  assumes "wakeup_post chan t s'" "woke {chan, RUNOUT} s t" "length (sleepers t) \<le> length (sleepers s)"
    "u_procp t = u_procp s"
  shows "wakeup_post chan s s'"
  using assms woke_trans unfolding wakeup_post_def by (metis (no_types, lifting) le_trans)

lemma woke_one:
  assumes "\<And>r. r \<noteq> p \<Longrightarrow> procs s' r = procs s r" "p_wchan (procs s p) \<in> C" "p_wchan (procs s p) \<noteq> 0"
    "p_wchan (procs s' p) = 0"
    "p_stat (procs s' p) = (if p_stat (procs s p) = SSLEEP then SRUN else p_stat (procs s p))"
  shows "woke C s s'"
  using assms unfolding woke_def by metis

lemma wakeup_loop_ok:
  assumes "sched_ok s" "chan \<noteq> 0" "i \<le> length (slpque s (HASH chan))"
    and "\<forall>j<i. p_wchan (procs s (slpque s (HASH chan) ! j)) \<noteq> chan" "enough n chan i s"
  shows "\<exists>s'. wakeup_loop n chan i s = Some (Ok s') \<and> wakeup_post chan s s'"
  using assms
proof (induction n arbitrary: chan i s)
  case 0 then show ?case by (simp add: enough_def)
next
  case (Suc n)
  note ok = Suc.prems(1)
  let ?q = "slpque s (HASH chan)"
  show ?case
  proof (cases "i < length ?q")
    case False
    have "p_wchan (procs s p) \<noteq> chan" for p
    proof
      assume "p_wchan (procs s p) = chan"
      then have "p \<in> set ?q" using sched_okD(2)[OF ok, of p "HASH chan"] Suc.prems(2) by simp
      then show False using Suc.prems(3,4) False \<open>p_wchan (procs s p) = chan\<close>
        by (metis in_set_conv_nth less_le_trans le_antisym nat_le_linear not_le)
    qed
    then show ?thesis using False ok by (simp add: wakeup_post_def Let_def)
  next
    case True
    define p where "p = ?q ! i"
    have "p \<in> set ?q" using True by (simp add: p_def)
    then have w0: "p_wchan (procs s p) \<noteq> 0" using sched_okD(2)[OF ok] by simp
    then have st: "p_stat (procs s p) = SSLEEP \<or> p_stat (procs s p) = SSTOP" by (rule sched_okD(3)[OF ok])
    show ?thesis
    proof (cases "p_wchan (procs s p) = chan")
      case False
      have "\<forall>j<Suc i. p_wchan (procs s (?q ! j)) \<noteq> chan"
        using Suc.prems(4) False by (simp add: less_Suc_eq p_def)
      moreover have "enough n chan (Suc i) s" using Suc.prems(5) True by (auto simp: enough_def Let_def)
      moreover have "wakeup_loop (Suc n) chan i s = wakeup_loop n chan (Suc i) s"
        using True False st by (auto simp: Let_def p_def)
      ultimately show ?thesis using Suc.IH[OF ok Suc.prems(2)] True by (simp del: wakeup_loop.simps)
    next
      case w: True
      let ?s1 = "unqueue p s"
      note eq = wakeup_step_eq[OF ok True p_def w] and uf = unqueue_facts[where p = p and s = s]
      have ok1: "sched_ok ?s1" by (rule unqueue_ok[OF ok])
      have t1: "length (sleepers ?s1) < length (sleepers s)" using unqueue_sleepers[OF ok w0] by simp
      show ?thesis
      proof (cases "p_stat (procs s p) = SSLEEP")
        case True': True
        let ?s2 = "wake_run p ?s1" let ?s2' = "?s2\<lparr>runout := False\<rparr>"
        note wf = wake_run_facts[where p = p and s = ?s1]
        have ok2: "sched_ok ?s2" using wake_run_ok[OF ok1] uf True' by simp
        have k2: "woke {chan, RUNOUT} s ?s2"
          using wf uf w w0 True' by (intro woke_one[of p]) auto
        have t2: "length (sleepers ?s2) < length (sleepers s)" using sleepers_cong[OF wf(1)] t1 by simp
        have loop: "wakeup_loop (Suc n) chan i s =
            (if \<not> loaded (procs ?s2 p) \<and> runout ?s2
             then case wakeup_loop n RUNOUT 0 ?s2' of Some (Ok s3) \<Rightarrow> wakeup_loop n chan 0 s3 | r \<Rightarrow> r
             else wakeup_loop n chan 0 ?s2)"
          using True w eq uf(4) True' by (simp add: Let_def p_def[symmetric])
        show ?thesis
        proof (cases "\<not> loaded (procs ?s2 p) \<and> runout ?s2")
          case False
          then show ?thesis
            using Suc.IH[OF ok2 Suc.prems(2), of 0] enough_less[OF Suc.prems(5) t2] loop
              wakeup_post_step[OF _ k2] t2 wf uf by (fastforce simp del: wakeup_loop.simps)
        next
          case nest: True
          have ok2': "sched_ok ?s2'" using ok2 by (rule sched_ok_cong) auto
          have t2': "length (sleepers ?s2') < length (sleepers s)" using sleepers_cong[of ?s2' ?s2] t2 by simp
          obtain s3 where s3: "wakeup_loop n RUNOUT 0 ?s2' = Some (Ok s3)" "wakeup_post RUNOUT ?s2' s3"
            using Suc.IH[OF ok2', of RUNOUT 0] enough_less[OF Suc.prems(5) t2']
            by (auto simp: RUNOUT_def simp del: wakeup_loop.simps)
          have "woke {RUNOUT, RUNOUT} ?s2' s3" using s3(2) by (simp only: wakeup_post_def)
          then have "woke {chan, RUNOUT} ?s2' s3" by (rule woke_mono) auto
          moreover have "woke {chan, RUNOUT} s ?s2'" using k2 by (simp add: woke_def)
          ultimately have k3: "woke {chan, RUNOUT} s s3" by (metis woke_trans)
          have t3: "length (sleepers s3) < length (sleepers s)" and ok3: "sched_ok s3"
            and u3: "u_procp s3 = u_procp s"
            using s3(2) t2' wf uf by (auto simp: wakeup_post_def)
          then show ?thesis
            using Suc.IH[OF ok3 Suc.prems(2), of 0] enough_less[OF Suc.prems(5) t3] loop nest s3(1)
              wakeup_post_step[OF _ k3] by (fastforce simp del: wakeup_loop.simps)
        qed
      next
        case False
        let ?s2 = "upd_proc p (\<lambda>r. r\<lparr>p_slptime := 0\<rparr>) ?s1"
        have ok2: "sched_ok ?s2" using ok1 by (rule sched_ok_cong) auto
        have k2: "woke {chan, RUNOUT} s ?s2" using uf w w0 False by (intro woke_one[of p]) auto
        have q2: "slpque ?s2 (HASH chan) = take i ?q @ drop (Suc i) ?q"
          using remove1_nth[OF sched_okD(1)[OF ok] True] w by (simp add: unqueue_def Let_def p_def)
        have j: "\<forall>j<i. p_wchan (procs ?s2 (slpque ?s2 (HASH chan) ! j)) \<noteq> chan"
          using Suc.prems(2,4) True unfolding q2 by (auto simp: nth_append unqueue_def Let_def)
        have t2: "length (sleepers ?s2) < length (sleepers s)" using t1 sleepers_cong[of ?s2 ?s1] by simp
        have "i \<le> length (slpque ?s2 (HASH chan))" using True unfolding q2 by simp
        moreover have "wakeup_loop (Suc n) chan i s = wakeup_loop n chan i ?s2"
          using True w eq uf(4) False st by (simp add: Let_def p_def[symmetric])
        ultimately show ?thesis
          using Suc.IH[OF ok2 Suc.prems(2) _ j] enough_less[OF Suc.prems(5) t2]
            wakeup_post_step[OF _ k2] t2 uf by (fastforce simp del: wakeup_loop.simps)
      qed
    qed
  qed
qed

lemma wakeup_ok:
  assumes "sched_ok s" "chan \<noteq> 0"
  shows "\<exists>s'. wakeup chan s = Ok s' \<and> wakeup_post chan s s'"
proof -
  have "enough (wakeup_fuel s) chan 0 s"
    using sleepers_bucket[OF HASH_lt, of s chan] by (simp add: enough_def wakeup_fuel_def Let_def)
  from wakeup_loop_ok[OF assms _ _ this] show ?thesis by (auto simp: wakeup_def)
qed

section \<open>The other operations keep the invariant\<close>

lemma unsleep_ok:
  assumes "sched_ok s"
  shows "unsleep p s = Ok (unqueue p s)"
proof (cases "p_wchan (procs s p) = 0")
  case True
  then have "p \<notin> set (slpque s (HASH 0))" using sched_okD(2)[OF assms, of p "HASH 0"] by simp
  then have "unqueue p s = s"
    using True by (simp add: unqueue_def Let_def upd_proc_def remove1_idem fun_upd_idem)
  then show ?thesis using True by (simp add: unsleep_def)
next
  case False
  then show ?thesis
    using sched_okD(2)[OF assms, of p "HASH (p_wchan (procs s p))"] by (simp add: unsleep_def unqueue_def Let_def)
qed

lemma setrun_ok:
  assumes ok: "sched_ok s" and st: "p_stat (procs s p) \<in> {SSLEEP, SSTOP, SIDL}"
  shows "\<exists>s'. setrun p s = Ok s' \<and> sched_ok s' \<and> p_stat (procs s' p) = SRUN \<and>
    p_wchan (procs s' p) = 0 \<and> u_procp s' = u_procp s \<and>
    (\<forall>r. r \<noteq> p \<longrightarrow> p_wchan (procs s r) \<noteq> RUNOUT \<longrightarrow> procs s' r = procs s r)"
proof -
  have w: "p_stat (procs s p) = SIDL \<Longrightarrow> p_wchan (procs s p) = 0" using sched_okD(3)[OF ok, of p] by auto
  define s1 where "s1 = unqueue p s"
  have s1: "(case p_stat (procs s p) of
              SSTOP \<Rightarrow> unsleep p s | SSLEEP \<Rightarrow> unsleep p s | SIDL \<Rightarrow> Ok s | _ \<Rightarrow> Panic ''setrun'') = Ok s1"
    using st w unsleep_ok[OF ok, of p] by (auto simp: s1_def unsleep_def)
  have ok1: "sched_ok s1" and st1: "p_stat (procs s1 p) \<noteq> SRUN" and w1: "p_wchan (procs s1 p) = 0"
    and u1: "u_procp s1 = u_procp s"
    using unqueue_ok[OF ok] st unqueue_facts[where p = p and s = s] by (auto simp: s1_def)
  define s2 where "s2 = (if p_slptime (procs s1 p) > 1 then updatepri p s1 else s1)"
  have f2: "pri_frame p s1 s2" using updatepri_frame by (simp add: s2_def)
  define s4 where "s4 = ready p s2"
  have ok4: "sched_ok s4"
    unfolding s4_def
    by (rule ready_ok[OF sched_ok_pri_frame[OF ok1 f2]]) (use f2 st1 w1 in \<open>auto simp: pri_frame_def\<close>)
  have p4: "p_stat (procs s4 p) = SRUN" "p_wchan (procs s4 p) = 0" "u_procp s4 = u_procp s"
    using f2 w1 u1 by (auto simp: s4_def ready_def setrq_def Let_def pri_frame_def)
  have o4: "procs s4 r = procs s r" if "r \<noteq> p" for r
    using f2 that unqueue_facts(3)[of r p s] by (auto simp: s4_def ready_def setrq_def Let_def pri_frame_def s1_def)
  define s5 where "s5 = (if p_pri (procs s4 p) < curpri s4 then s4\<lparr>runrun := runrun s4 + 1\<rparr> else s4)"
  have ok5: "sched_ok s5" and p5: "procs s5 = procs s4" "u_procp s5 = u_procp s"
    using ok4 p4 sched_ok_cong[OF ok4, of s5] by (auto simp: s5_def)
  have run: "setrun p s = (if \<not> loaded (procs s5 p) \<and> runout s5
      then wakeup RUNOUT (s5\<lparr>runout := False\<rparr>) else Ok s5)"
    unfolding setrun_def s1 by (simp add: Let_def s5_def s4_def ready_def s2_def)
  show ?thesis
  proof (cases "\<not> loaded (procs s5 p) \<and> runout s5")
    case False then show ?thesis using run ok5 p5 p4 o4 by auto
  next
    case True
    have "sched_ok (s5\<lparr>runout := False\<rparr>)" using ok5 by (rule sched_ok_cong) auto
    from wakeup_ok[OF this, of RUNOUT] obtain s' where s': "wakeup RUNOUT (s5\<lparr>runout := False\<rparr>) = Ok s'"
      "wakeup_post RUNOUT (s5\<lparr>runout := False\<rparr>) s'" by (auto simp: RUNOUT_def)
    have "procs s' p = procs s5 p"
      using s'(2) p4 p5 by (auto simp: wakeup_post_def woke_def)
    moreover have "procs s' r = procs s r" if "r \<noteq> p" "p_wchan (procs s r) \<noteq> RUNOUT" for r
      using s'(2)[unfolded wakeup_post_def woke_def, THEN conjunct2, THEN conjunct1, rule_format, of r]
        that(2) o4[OF that(1)] p5(1) by auto
    ultimately show ?thesis using run True s' p4 p5 by (auto simp: wakeup_post_def)
  qed
qed

lemma endtsleep_ok:
  assumes ok: "sched_ok s"
  shows "\<exists>s'. endtsleep p s = Ok s' \<and> sched_ok s' \<and> p_wchan (procs s' p) = 0"
proof (cases "p_wchan (procs s p) = 0")
  case True then show ?thesis using ok by (simp add: endtsleep_def)
next
  case False
  have ld: "loaded (q\<lparr>p_flag := p_flag q OR P_TIMEOUT\<rparr>) = loaded q" for q :: proc
    by (simp add: loaded_def bit.conj_disj_distrib2)
  have fin: "sched_ok (upd_proc p (\<lambda>q. q\<lparr>p_flag := p_flag q OR P_TIMEOUT\<rparr>) t)" if "sched_ok t" for t
    using that by (rule sched_ok_cong) (auto simp: ld)
  show ?thesis
  proof (cases "p_stat (procs s p) = SSLEEP")
    case True
    then show ?thesis using setrun_ok[OF ok, of p] False fin by (auto simp: endtsleep_def)
  next
    case stop: False
    then show ?thesis
      using unsleep_ok[OF ok, of p] unqueue_ok[OF ok, of p] False fin unqueue_facts(5)[of p s]
      by (auto simp: endtsleep_def)
  qed
qed

text \<open>An uninterruptible sleep of the running process, which is ready and on no queue.\<close>

lemma tsleep_ok:
  assumes ok: "sched_ok s" and id: "ident \<noteq> 0"
    and cur: "u_procp s \<notin> set (qs s)" "p_wchan (procs s (u_procp s)) = 0"
  shows "\<exists>s'. tsleep_enter cs ident pri False timo s = Ok (True, 0, False, s') \<and> sched_ok s' \<and>
    p_stat (procs s' (u_procp s)) = SSLEEP \<and> p_wchan (procs s' (u_procp s)) = ident \<and>
    u_procp s' = u_procp s"
proof -
  let ?p = "u_procp s"
  obtain s' where s': "tsleep_enter cs ident pri False timo s = Ok (True, 0, False, s')"
    by (simp add: tsleep_enter_def Let_def)
  have q: "slpque s' = (slpque s)(HASH ident := ?p # slpque s (HASH ident))" "qs s' = qs s" "u_procp s' = ?p"
    and o: "\<And>r. r \<noteq> ?p \<Longrightarrow> procs s' r = procs s r"
    and me: "p_stat (procs s' ?p) = SSLEEP" "p_wchan (procs s' ?p) = ident"
    using s' by (auto simp: tsleep_enter_def Let_def split: if_splits)
  have nb: "?p \<notin> set (slpque s h)" for h using sched_okD(2)[OF ok, of ?p h] cur(2) by simp
  note d = sched_okD[OF ok]
  have "sched_ok s'"
  proof (rule sched_okI)
    fix h r
    show "distinct (slpque s' h)" using d(1) nb by (simp add: q)
    show "r \<in> set (slpque s' h) \<longleftrightarrow> p_wchan (procs s' r) \<noteq> 0 \<and> HASH (p_wchan (procs s' r)) = h"
      using d(2)[of r h] o[of r] me id nb[of h] by (cases "r = ?p") (auto simp: q)
    show "distinct (qs s')" using d(4) by (simp add: q)
  next
    fix r assume "p_wchan (procs s' r) \<noteq> 0"
    then show "p_stat (procs s' r) = SSLEEP \<or> p_stat (procs s' r) = SSTOP"
      using d(3)[of r] o[of r] me by (cases "r = ?p") auto
  next
    fix r assume "r \<in> set (qs s')"
    then show "p_stat (procs s' r) = SRUN \<and> loaded (procs s' r)"
      using d(5)[of r] o[of r] cur by (cases "r = ?p") (auto simp: q)
  next
    fix r assume "p_stat (procs s' r) = SRUN" "loaded (procs s' r)" "r \<noteq> u_procp s'"
    then show "r \<in> set (qs s')" using d(6)[of r] o[of r] by (auto simp: q)
  qed
  then show ?thesis using s' q me by auto
qed

section \<open>swtch\<close>

lemma swtch_search_spec:
  "swtch_search pr ps pp n = (r, m) \<Longrightarrow>
     (r = pp \<and> m = n \<and> (\<forall>p\<in>set ps. loaded (pr p) \<longrightarrow> n \<le> p_pri (pr p))) \<or>
     (\<exists>l p r'. ps = l @ p # r' \<and> r = Some p \<and> m = p_pri (pr p) \<and> loaded (pr p) \<and> m < n \<and>
        (\<forall>x\<in>set l. loaded (pr x) \<longrightarrow> m < p_pri (pr x)) \<and> (\<forall>x\<in>set r'. loaded (pr x) \<longrightarrow> m \<le> p_pri (pr x)))"
proof (induction pr ps pp n rule: swtch_search.induct)
  case (1 pr pp n) then show ?case by simp
next
  case (2 pr p ps pp n)
  show ?case
  proof (cases "loaded (pr p) \<and> p_pri (pr p) < n")
    case True
    with 2 have "swtch_search pr ps (Some p) (p_pri (pr p)) = (r, m)" by simp
    from 2(1)[OF True this] show ?thesis
    proof (elim disjE exE conjE)
      assume a: "r = Some p" "m = p_pri (pr p)" "\<forall>q\<in>set ps. loaded (pr q) \<longrightarrow> p_pri (pr p) \<le> p_pri (pr q)"
      then show ?thesis using True by (intro disjI2 exI[of _ "[]"] exI[of _ p] exI[of _ ps]) auto
    next
      fix l x r'
      assume a: "ps = l @ x # r'" "r = Some x" "m = p_pri (pr x)" "loaded (pr x)" "m < p_pri (pr p)"
        "\<forall>y\<in>set l. loaded (pr y) \<longrightarrow> m < p_pri (pr y)" "\<forall>y\<in>set r'. loaded (pr y) \<longrightarrow> m \<le> p_pri (pr y)"
      then show ?thesis using True by (intro disjI2 exI[of _ "p # l"] exI[of _ x] exI[of _ r']) auto
    qed
  next
    case False
    with 2 have "swtch_search pr ps pp n = (r, m)" by (simp split: if_splits)
    from 2(2)[OF False this] show ?thesis
    proof (elim disjE exE conjE)
      assume "r = pp" "m = n" "\<forall>q\<in>set ps. loaded (pr q) \<longrightarrow> n \<le> p_pri (pr q)"
      then show ?thesis using False by auto
    next
      fix l x r'
      assume a: "ps = l @ x # r'" "r = Some x" "m = p_pri (pr x)" "loaded (pr x)" "m < n"
        "\<forall>y\<in>set l. loaded (pr y) \<longrightarrow> m < p_pri (pr y)" "\<forall>y\<in>set r'. loaded (pr y) \<longrightarrow> m \<le> p_pri (pr y)"
      then show ?thesis using False by (intro disjI2 exI[of _ "p # l"] exI[of _ x] exI[of _ r']) auto
    qed
  qed
qed

lemma loaded_nosswap: "loaded (q\<lparr>p_flag := p_flag q AND NOT SSWAP\<rparr>) = loaded q"
proof -
  have "(x AND NOT SSWAP) AND SLOAD = x AND SLOAD" for x :: u16
    by (rule bit_word_eqI) (auto simp: bit_simps)
  then show ?thesis by (simp add: loaded_def)
qed

lemma swtch_ok:
  assumes ok: "sched_ok s"
    and cur: "u_procp s \<in> set (qs s) \<or> p_stat (procs s (u_procp s)) \<noteq> SRUN \<or> \<not> loaded (procs s (u_procp s))"
  shows "sched_ok (snd (swtch s))"
proof (cases "fst (swtch_search (procs s) (qs s) None 128)")
  case None
  have "sched_ok (s\<lparr>runrun := 0\<rparr>)" using ok by (rule sched_ok_cong) auto
  then show ?thesis using None by (simp add: swtch_def Let_def)
next
  case (Some p)
  let ?s = "snd (swtch s)"
  have s': "slpque ?s = slpque s" "qs ?s = remove1 p (qs s)" "u_procp ?s = p"
    "procs ?s = (procs s)(p := (procs s p)\<lparr>p_flag := p_flag (procs s p) AND NOT SSWAP\<rparr>)"
    using Some by (simp_all add: swtch_def Let_def)
  have same: "p_stat (procs ?s r) = p_stat (procs s r)" "p_wchan (procs ?s r) = p_wchan (procs s r)"
    "loaded (procs ?s r) = loaded (procs s r)" for r
    using loaded_nosswap[of "procs s p"] unfolding s'(4) fun_upd_apply by simp_all
  obtain m where m: "swtch_search (procs s) (qs s) None 128 = (Some p, m)"
    using Some by (cases "swtch_search (procs s) (qs s) None 128") auto
  have inq: "p \<in> set (qs s)" using swtch_search_spec[OF m] by auto
  note d = sched_okD[OF ok]
  show ?thesis
  proof (rule sched_okI)
    fix h r
    show "distinct (slpque ?s h)" using d(1) by (simp add: s')
    show "r \<in> set (slpque ?s h) \<longleftrightarrow> p_wchan (procs ?s r) \<noteq> 0 \<and> HASH (p_wchan (procs ?s r)) = h"
      unfolding same s'(1) by (rule d(2))
    show "distinct (qs ?s)" using d(4) by (simp add: s')
  next
    fix r assume "p_wchan (procs ?s r) \<noteq> 0"
    then show "p_stat (procs ?s r) = SSLEEP \<or> p_stat (procs ?s r) = SSTOP" unfolding same by (rule d(3))
  next
    fix r assume "r \<in> set (qs ?s)"
    then show "p_stat (procs ?s r) = SRUN \<and> loaded (procs ?s r)"
      unfolding same s'(2) using d(5)[of r] notin_set_remove1[of r "qs s" p] by blast
  next
    fix r assume "p_stat (procs ?s r) = SRUN" "loaded (procs ?s r)" "r \<noteq> u_procp ?s"
    then have "r \<in> set (qs s)" "r \<noteq> p" using cur d(6)[of r] unfolding same s'(3) by auto
    then show "r \<in> set (qs ?s)" by (simp add: s')
  qed
qed

section \<open>All runs of the scheduler\<close>

text \<open>
  The events that move processes between the queues: the running process sleeps, a wakeup, a
  signal or the end of a stop makes a process ready, a sleep times out, the processor is given
  to another process after a sleep or after the running process was put back on the queue.
\<close>

inductive sched_step :: "ksched \<Rightarrow> ksched \<Rightarrow> bool" where
  sleeps: "ident \<noteq> 0 \<Longrightarrow> u_procp s \<notin> set (qs s) \<Longrightarrow> p_wchan (procs s (u_procp s)) = 0 \<Longrightarrow>
     tsleep_enter cs ident pri False timo s = Ok (True, 0, False, s') \<Longrightarrow> sched_step s s'"
| wakes: "chan \<noteq> 0 \<Longrightarrow> wakeup chan s = Ok s' \<Longrightarrow> sched_step s s'"
| runs: "p_stat (procs s p) \<in> {SSLEEP, SSTOP, SIDL} \<Longrightarrow> setrun p s = Ok s' \<Longrightarrow> sched_step s s'"
| expires: "endtsleep p s = Ok s' \<Longrightarrow> sched_step s s'"
| switches: "p_stat (procs s (u_procp s)) \<noteq> SRUN \<or> u_procp s \<in> set (qs s) \<Longrightarrow> swtch s = (r, s') \<Longrightarrow> sched_step s s'"
| preempts: "p_stat (procs s (u_procp s)) = SRUN \<Longrightarrow> loaded (procs s (u_procp s)) \<Longrightarrow>
     u_procp s \<notin> set (qs s) \<Longrightarrow> swtch (setrq (u_procp s) s) = (r, s') \<Longrightarrow> sched_step s s'"

lemma setrq_ok:
  assumes ok: "sched_ok s" and p: "p_stat (procs s p) = SRUN" "loaded (procs s p)" "p \<notin> set (qs s)"
  shows "sched_ok (setrq p s)"
  using sched_okD[OF ok] p
  by (intro sched_okI) (auto simp: setrq_def)

lemma sched_step_ok:
  assumes "sched_step s s'" "sched_ok s"
  shows "sched_ok s'"
  using assms
proof (cases rule: sched_step.cases)
  case (sleeps ident cs pri timo)
  then show ?thesis using tsleep_ok[OF assms(2), of ident cs pri timo] by auto
next
  case (wakes chan)
  then show ?thesis using wakeup_ok[OF assms(2), of chan] by (auto simp: wakeup_post_def)
next
  case (runs p)
  then show ?thesis using setrun_ok[OF assms(2), of p] by auto
next
  case (expires p)
  then show ?thesis using endtsleep_ok[OF assms(2), of p] by auto
next
  case (switches r)
  then show ?thesis using swtch_ok[OF assms(2)] by (metis snd_conv)
next
  case (preempts r)
  have "sched_ok (setrq (u_procp s) s)" using setrq_ok[OF assms(2)] preempts by simp
  moreover have "u_procp (setrq (u_procp s) s) \<in> set (qs (setrq (u_procp s) s))" by (simp add: setrq_def)
  ultimately show ?thesis using swtch_ok preempts(4) by (metis snd_conv)
qed

lemma sched_run_ok: "sched_step\<^sup>*\<^sup>* s s' \<Longrightarrow> sched_ok s \<Longrightarrow> sched_ok s'"
  by (induction rule: rtranclp_induct) (auto intro: sched_step_ok)

section \<open>Properties\<close>

text \<open>A system with one process, the running one, for the witnesses.\<close>

definition proc0 :: proc where
  "proc0 = \<lparr>p_flag = SLOAD, p_uid = 0, p_pid = 0, p_ppid = 0, p_pptr = 0, p_sig = 0, p_stat = SRUN,
     p_pri = 0, p_cpu = 0, p_time = 0, p_nice = 0, p_slptime = 0, p_ptracesig = 0, p_sigmask = 0,
     p_sigignore = 0, p_sigcatch = 0, p_pgrp = 0, p_wchan = 0, p_rt_value = 0, p_rt_interval = 0\<rparr>"

definition boot :: ksched where
  "boot = \<lparr>procs = (\<lambda>p. if p = 0 then proc0 else proc0\<lparr>p_stat := SNULL\<rparr>), slpque = (\<lambda>h. []), qs = [],
     allproc = [0], u_procp = 0, curpri = 0, runrun = 0, runin = False, runout = False,
     tsleep_tmo = [], u_nvcsw = 0, u_sigintr = 0\<rparr>"

lemma boot_ok: "sched_ok boot"
  by (rule sched_okI) (auto simp: boot_def proc0_def split: if_splits)

text \<open>
  C2. \<^verbatim>\<open>wakeup\<close> returns and loses no one: afterwards nobody waits on the channel, every process
  that slept on it is ready (and on the run queue if it is in core), a stopped one stays stopped,
  and no other process changed except that the swapper may have been woken.
\<close>

theorem wakeup_wakes_exactly:
  assumes "sched_ok s" and "chan \<noteq> 0"
  shows "\<exists>s'. wakeup chan s = Ok s' \<and> sched_ok s' \<and>
    (\<forall>p. p_wchan (procs s' p) \<noteq> chan) \<and>
    (\<forall>p. p_wchan (procs s p) = chan \<longrightarrow>
       p_stat (procs s' p) = (if p_stat (procs s p) = SSLEEP then SRUN else SSTOP)) \<and>
    (\<forall>p. p_wchan (procs s p) = chan \<and> p_stat (procs s p) = SSLEEP \<and> loaded (procs s' p) \<and>
       p \<noteq> u_procp s \<longrightarrow> p \<in> set (qs s')) \<and>
    (\<forall>p. p_wchan (procs s p) \<notin> {chan, RUNOUT} \<longrightarrow> procs s' p = procs s p)"
proof -
  from wakeup_ok[OF assms] obtain s' where s': "wakeup chan s = Ok s'" "wakeup_post chan s s'" by blast
  then have ok': "sched_ok s'" and wk: "woke {chan, RUNOUT} s s'"
    and gone: "\<And>p. p_wchan (procs s' p) \<noteq> chan" and u: "u_procp s' = u_procp s"
    by (auto simp: wakeup_post_def)
  have st: "p_stat (procs s' p) = (if p_stat (procs s p) = SSLEEP then SRUN else SSTOP)"
    if "p_wchan (procs s p) = chan" for p
    using wk[unfolded woke_def, rule_format, of p] gone[of p] that sched_okD(3)[OF assms(1), of p] assms(2)
    by auto
  have "p \<in> set (qs s')" if "p_wchan (procs s p) = chan" "p_stat (procs s p) = SSLEEP"
      "loaded (procs s' p)" "p \<noteq> u_procp s" for p
    using sched_okD(6)[OF ok', of p] st[OF that(1)] that u by simp
  moreover have "procs s' p = procs s p" if "p_wchan (procs s p) \<notin> {chan, RUNOUT}" for p
    using wk that unfolding woke_def by blast
  ultimately show ?thesis using s'(1) ok' gone st by blast
qed

theorem wakeup_wakes_exactly_witness:
  "\<exists>s s'. p_wchan (procs s 0) = 100 \<and> wakeup 100 s = Ok s' \<and> p_stat (procs s' 0) = SRUN \<and> sched_ok s'"
proof -
  have "u_procp boot \<notin> set (qs boot)" "p_wchan (procs boot (u_procp boot)) = 0" "u_procp boot = 0"
    by (simp_all add: boot_def proc0_def)
  then obtain s where s: "sched_ok s" "p_stat (procs s 0) = SSLEEP" "p_wchan (procs s 0) = 100"
    using tsleep_ok[OF boot_ok, of 100 "\<lambda>p s. (0, s)" 20 0] by auto
  have "(100::nat) \<noteq> 0" by simp
  from wakeup_wakes_exactly[OF s(1) this] s(2,3) show ?thesis by auto
qed



text \<open>
  \<^verbatim>\<open>swtch\<close> gives the processor to a process of the run queue that is in core and has the
  best (lowest) priority of all such processes, the first such in queue order, and takes just
  that process off the queue; it finds none exactly when no process in core on the queue has a
  priority below 128.
\<close>

lemma swtch_picks_best:
  "case swtch s of
     (None, s') \<Rightarrow> (\<forall>p\<in>set (qs s). loaded (procs s p) \<longrightarrow> 128 \<le> p_pri (procs s p)) \<and> qs s' = qs s
   | (Some (p, ssave), s') \<Rightarrow> \<exists>l r. qs s = l @ p # r \<and> loaded (procs s p) \<and> p_pri (procs s p) < 128 \<and>
       (\<forall>x\<in>set (qs s). loaded (procs s x) \<longrightarrow> p_pri (procs s p) \<le> p_pri (procs s x)) \<and>
       (\<forall>x\<in>set l. loaded (procs s x) \<longrightarrow> p_pri (procs s p) < p_pri (procs s x)) \<and>
       qs s' = l @ r \<and> curpri s' = p_pri (procs s p) \<and> u_procp s' = p"
proof -
  obtain r m where rm: "swtch_search (procs s) (qs s) None 128 = (r, m)" by fastforce
  from swtch_search_spec[OF rm] show ?thesis
  proof (elim disjE exE conjE)
    assume "r = None" "\<forall>p\<in>set (qs s). loaded (procs s p) \<longrightarrow> 128 \<le> p_pri (procs s p)"
    then show ?thesis using rm by (simp add: swtch_def Let_def)
  next
    fix l p r'
    assume a: "qs s = l @ p # r'" "r = Some p" "m = p_pri (procs s p)" "loaded (procs s p)" "m < 128"
      "\<forall>x\<in>set l. loaded (procs s x) \<longrightarrow> m < p_pri (procs s x)"
      "\<forall>x\<in>set r'. loaded (procs s x) \<longrightarrow> m \<le> p_pri (procs s x)"
    have "p \<notin> set l" using a(3,4,6) by auto
    then have rem: "remove1 p (qs s) = l @ r'" using a(1) by (simp add: remove1_append)
    have sw: "\<exists>b s'. swtch s = (Some (p, b), s') \<and> qs s' = l @ r' \<and> curpri s' = m \<and> u_procp s' = p"
      using rm a(2) rem by (simp add: swtch_def Let_def)
    have best: "\<forall>x\<in>set (qs s). loaded (procs s x) \<longrightarrow> m \<le> p_pri (procs s x)"
      using a(1,3,6,7) by auto
    from sw obtain b s' where "swtch s = (Some (p, b), s')" "qs s' = l @ r'" "curpri s' = m" "u_procp s' = p"
      by blast
    then show ?thesis using best a(1,3-6) by (simp del: bex_simps ball_simps) blast
  qed
qed

text \<open>
  \<^verbatim>\<open>updatepri\<close> does not decay the cpu usage of a process that slept: since \<^verbatim>\<open>SCHMAG\<close> expands
  to \<^verbatim>\<open>8/10\<close> and stands before the \<^verbatim>\<open>*\<close>, the factor is 0, and after a sleep of three seconds or
  more the usage is simply forgotten, whatever it was.
\<close>

lemma updatepri_forgets_usage:
  assumes "3 \<le> p_slptime (procs s p)"
  shows "p_cpu (procs (updatepri p s) p) = 0"
proof -
  let ?a = "int (unat (p_cpu (procs s p)))" and ?n = "p_slptime (procs s p) - 1"
  have "fst (updatepri_loop ?a ?n) = 0"
    using assms by (subst updatepri_loop.simps) (simp add: updatepri_loop.simps[of 0])
  then show ?thesis by (simp add: updatepri_def setpri_def Let_def)
qed

end
