(* ===== verification/Sig.thy ===== *)
theory Sig
  imports Sched_Props
begin

text \<open>
  Signals: \<^verbatim>\<open>sys/sys/kern_sig.c\<close> and \<^verbatim>\<open>sys/sys/kern_sig2.c\<close>, with the properties table of
  \<^verbatim>\<open>sys/h/signalvar.h\<close>. Posting (\<^verbatim>\<open>psignal\<close>, \<^verbatim>\<open>gsignal\<close>, \<^verbatim>\<open>killpg1\<close>, \<^verbatim>\<open>kill\<close>) works on the
  process table and the queues of \<open>Sched\<close>; taking (\<^verbatim>\<open>issignal\<close>, \<^verbatim>\<open>postsig\<close>) and the
  system calls that change masks and actions also use the signal part of the user area,
  the record \<open>uarea\<close>. Where \<^verbatim>\<open>issignal\<close> stops the process and gives up the processor the
  model returns; the rest of the loop is a function of the state the process resumes in.
\<close>

section \<open>Signal sets and the properties table\<close>

abbreviation "SIGKILL \<equiv> (9::nat)"
abbreviation "SIGALRM \<equiv> (14::nat)"
abbreviation "SIGSTOP \<equiv> (17::nat)"
abbreviation "SIGCONT \<equiv> (19::nat)"
abbreviation "SIGCHLD \<equiv> (20::nat)"
abbreviation "NSIG \<equiv> (32::nat)"

abbreviation "SA_KILL \<equiv> (0x01::u8)"
abbreviation "SA_CORE \<equiv> (0x02::u8)"
abbreviation "SA_STOP \<equiv> (0x04::u8)"
abbreviation "SA_TTYSTOP \<equiv> (0x08::u8)"
abbreviation "SA_IGNORE \<equiv> (0x10::u8)"
abbreviation "SA_CONT \<equiv> (0x20::u8)"

definition sigprop :: "u8 list" where
  "sigprop = [0, 1, 1, 3, 3, 3, 3, 3, 3, 1, 3, 3, 3, 1, 1, 1, 0x10, 0x04, 0x0C, 0x30, 0x10, 0x0C, 0x0C,
     0x10, 1, 1, 1, 1, 0x10, 0x10, 1, 1, 0]"

definition has_prop :: "nat \<Rightarrow> u8 \<Rightarrow> bool" where
  "has_prop sig f \<longleftrightarrow> sigprop ! sig AND f \<noteq> 0"

definition sigmask :: "nat \<Rightarrow> u32" where
  "sigmask m = push_bit (m - 1) 1"

definition contsigmask :: u32 where "contsigmask = sigmask 19"
definition stopsigmask :: u32 where "stopsigmask = sigmask 17 OR sigmask 18 OR sigmask 21 OR sigmask 22"
definition sigcantmask :: u32 where "sigcantmask = sigmask 9 OR sigmask 17"

text \<open>\<^verbatim>\<open>ffs\<close>: the number of the lowest bit set, counting from 1, 0 if there is none.\<close>

definition ffs :: "u32 \<Rightarrow> nat" where
  "ffs w = (case find (bit w) [0..<32] of None \<Rightarrow> 0 | Some i \<Rightarrow> Suc i)"

abbreviation "SSYS \<equiv> (0x0002 :: u16)"
abbreviation "P_TRACED \<equiv> (0x0010 :: u16)"
abbreviation "P_WAITED \<equiv> (0x0020 :: u16)"
abbreviation "SVFORK \<equiv> (0x0100 :: u16)"
abbreviation "P_NOCLDSTOP \<equiv> (0x2000 :: u16)"

definition flagged :: "u16 \<Rightarrow> proc \<Rightarrow> bool" where
  "flagged f q \<longleftrightarrow> p_flag q AND f \<noteq> 0"

text \<open>The address of a process slot, the channel its owner's parent waits on.\<close>

definition procaddr :: "nat \<Rightarrow> nat" where "procaddr p = 1000 + 84 * p"

section \<open>Posting a signal\<close>

text \<open>\<^verbatim>\<open>stop\<close> puts a process into the stopped state and wakes its parent.\<close>

definition stop :: "nat \<Rightarrow> ksched \<Rightarrow> ksched outcome" where
  "stop p s =
     wakeup (procaddr (p_pptr (procs s p)))
       (upd_proc p (\<lambda>q. q\<lparr>p_stat := SSTOP, p_flag := p_flag q AND NOT P_WAITED\<rparr>) s)"

datatype sigact = A_DFL | A_HOLD | A_CATCH

definition sig_action :: "proc \<Rightarrow> u32 \<Rightarrow> sigact" where
  "sig_action q msk =
     (if flagged P_TRACED q then A_DFL
      else if p_sigmask q AND msk \<noteq> 0 then A_HOLD
      else if p_sigcatch q AND msk \<noteq> 0 then A_CATCH else A_DFL)"

definition psig_clear :: "nat \<Rightarrow> u32 \<Rightarrow> ksched \<Rightarrow> ksched" where
  "psig_clear p msk s = upd_proc p (\<lambda>q. q\<lparr>p_sig := p_sig q AND NOT msk\<rparr>) s"

text \<open>The label \<^verbatim>\<open>run\<close> of \<^verbatim>\<open>psignal\<close>.\<close>

definition psig_run :: "nat \<Rightarrow> ksched \<Rightarrow> ksched outcome" where
  "psig_run p s =
     setrun p (if p_pri (procs s p) > PUSER then upd_proc p (\<lambda>q. q\<lparr>p_pri := PUSER\<rparr>) s else s)"

text \<open>
  The switch of \<^verbatim>\<open>psignal\<close> on the state of the process; \<open>notify\<close> is the recursive call
  \<^verbatim>\<open>psignal(p->p_pptr, SIGCHLD)\<close>.
\<close>

definition psig_sleeping :: "(nat \<Rightarrow> ksched \<Rightarrow> ksched outcome) \<Rightarrow> sigact \<Rightarrow> nat \<Rightarrow> nat \<Rightarrow> ksched \<Rightarrow> ksched outcome" where
  "psig_sleeping notify action p sig s =
     (let q = procs s p; msk = sigmask sig in
      if \<not> flagged P_SINTR q then Ok s
      else if flagged P_TRACED q then psig_run p s
      else if has_prop sig SA_CONT \<and> action = A_DFL then Ok (psig_clear p msk s)
      else if has_prop sig SA_STOP
      then if action \<noteq> A_DFL then psig_run p s
           else if flagged SVFORK q then Ok s
           else let s1 = upd_proc p (\<lambda>q. q\<lparr>p_ptracesig := int sig\<rparr>) (psig_clear p msk s)
                in obind (if \<not> flagged P_NOCLDSTOP (procs s1 (p_pptr (procs s1 p)))
                          then notify (p_pptr (procs s1 p)) s1 else Ok s1) (stop p)
      else psig_run p s)"

definition psig_stopped :: "sigact \<Rightarrow> nat \<Rightarrow> nat \<Rightarrow> ksched \<Rightarrow> ksched outcome" where
  "psig_stopped action p sig s =
     (let q = procs s p; msk = sigmask sig in
      if flagged P_TRACED q then Ok s
      else if sig = SIGKILL then psig_run p s
      else if has_prop sig SA_CONT
      then let s1 = (if action = A_DFL then psig_clear p msk s else s)
           in if action = A_CATCH \<or> p_wchan q = 0 then psig_run p s1
              else Ok (upd_proc p (\<lambda>q. q\<lparr>p_stat := SSLEEP\<rparr>) s1)
      else if has_prop sig SA_STOP then Ok (psig_clear p msk s)
      else if p_wchan q \<noteq> 0 \<and> flagged P_SINTR q then unsleep p s
      else Ok s)"

text \<open>
  The first part of \<^verbatim>\<open>psignal\<close>: whether it goes on to the switch, and the state with the signal
  recorded in \<^verbatim>\<open>p_sig\<close> and the opposite job control signals taken away.
\<close>

definition psig_post :: "nat \<Rightarrow> nat \<Rightarrow> ksched \<Rightarrow> bool \<times> ksched" where
  "psig_post p sig s =
     (let q = procs s p; msk = sigmask sig; action = sig_action q msk;
          s1 = (if p_nice q > 0 \<and> action = A_DFL \<and> has_prop sig SA_KILL \<and> \<not> flagged P_TRACED q
                then upd_proc p (\<lambda>q. q\<lparr>p_nice := 0\<rparr>) s else s);
          s2 = (if has_prop sig SA_CONT then psig_clear p stopsigmask s1 else s1)
      in if has_prop sig SA_STOP \<and> has_prop sig SA_TTYSTOP \<and> p_pptr q = 1 \<and> action = A_DFL then (False, s2)
         else let s3 = (if has_prop sig SA_STOP then psig_clear p contsigmask s2 else s2)
              in (\<not> (action = A_HOLD \<and> (\<not> has_prop sig SA_CONT \<or> p_stat q \<noteq> SSTOP)),
                  upd_proc p (\<lambda>q. q\<lparr>p_sig := p_sig q OR msk\<rparr>) s3))"

definition psignal_with :: "(nat \<Rightarrow> ksched \<Rightarrow> ksched outcome) \<Rightarrow> nat \<Rightarrow> nat \<Rightarrow> ksched \<Rightarrow> ksched outcome" where
  "psignal_with notify p sig s =
     (let q = procs s p; msk = sigmask sig; action = sig_action q msk in
      if \<not> flagged P_TRACED q \<and> p_sigignore q AND msk \<noteq> 0 then Ok s
      else case psig_post p sig s of
             (False, s1) \<Rightarrow> Ok s1
           | (True, s1) \<Rightarrow>
               case p_stat q of
                 SSLEEP \<Rightarrow> psig_sleeping notify action p sig s1
               | SSTOP \<Rightarrow> psig_stopped action p sig s1
               | _ \<Rightarrow> Ok s1)"

text \<open>
  \<^verbatim>\<open>psignal\<close>. The inner call only posts \<^verbatim>\<open>SIGCHLD\<close>, which is not a stop signal and so calls no
  further; \<open>psignal_rec\<close> below is the recursive equation of the C function.
\<close>

definition psignal :: "nat \<Rightarrow> nat \<Rightarrow> ksched \<Rightarrow> ksched outcome" where
  "psignal p sig s = psignal_with (\<lambda>pp t. psignal_with (\<lambda>_ _. Fault) pp SIGCHLD t) p sig s"

text \<open>\<^verbatim>\<open>gsignal\<close>: the membership test is made as the loop reaches each process.\<close>

fun gsignal_loop :: "int \<Rightarrow> nat \<Rightarrow> nat list \<Rightarrow> ksched \<Rightarrow> ksched outcome" where
  "gsignal_loop pgrp sig [] s = Ok s"
| "gsignal_loop pgrp sig (p # ps) s =
     obind (if p_pgrp (procs s p) = pgrp then psignal p sig s else Ok s) (gsignal_loop pgrp sig ps)"

definition gsignal :: "int \<Rightarrow> nat \<Rightarrow> ksched \<Rightarrow> ksched outcome" where
  "gsignal pgrp sig s = (if pgrp = 0 then Ok s else gsignal_loop pgrp sig (allproc s) s)"

section \<open>The user area\<close>

text \<open>The handler values 0 and 1 are \<^verbatim>\<open>SIG_DFL\<close> and \<^verbatim>\<open>SIG_IGN\<close>, others are addresses.\<close>

record sigaction =
  sa_handler :: nat
  sa_mask :: u32
  sa_flags :: u16

record sigaltstack =
  ss_base :: nat
  ss_size :: int
  ss_flags :: u16

record ksig =
  ks :: ksched
  pidhash :: "nat \<Rightarrow> nat list"
  u_ruids :: "nat \<Rightarrow> int"
  u_signal :: "nat \<Rightarrow> nat"
  u_sigmask :: "nat \<Rightarrow> u32"
  u_sigonstack :: u32
  u_oldmask :: u32
  u_psflags :: u16
  u_sigstk :: sigaltstack
  pcb_sigc :: nat
  u_fpsaved :: bool
  u_acflag :: u16
  ru_nsignals :: int

abbreviation "SA_ONSTACK \<equiv> (0x0001 :: u16)"
abbreviation "SA_RESTART \<equiv> (0x0002 :: u16)"
abbreviation "SA_DISABLE \<equiv> (0x0004 :: u16)"
abbreviation "SA_NOCLDSTOP \<equiv> (0x0008 :: u16)"
abbreviation "SAS_OLDMASK \<equiv> (0x01 :: u16)"
abbreviation "SAS_ALTSTACK \<equiv> (0x02 :: u16)"

definition curproc :: "ksig \<Rightarrow> proc" where
  "curproc s = procs (ks s) (u_procp (ks s))"

definition upd_cur :: "(proc \<Rightarrow> proc) \<Rightarrow> ksig \<Rightarrow> ksig" where
  "upd_cur f s = s\<lparr>ks := upd_proc (u_procp (ks s)) f (ks s)\<rparr>"

section \<open>Permission and the kill system calls\<close>

text \<open>
  \<^verbatim>\<open>inferior\<close> of \<^verbatim>\<open>kern_proc.c\<close>: is \<open>p\<close> a descendant of the current process? The walk up the
  parents ends at a process whose parent id is 0; \<open>None\<close> is running out of fuel.
\<close>

fun inferior :: "nat \<Rightarrow> nat \<Rightarrow> ksched \<Rightarrow> bool option" where
  "inferior 0 p s = None"
| "inferior (Suc n) p s =
     (if p = u_procp s then Some True
      else if p_ppid (procs s p) = 0 then Some False
      else inferior n (p_pptr (procs s p)) s)"

definition PIDHASH :: "int \<Rightarrow> nat" where "PIDHASH pid = nat (pid mod 16)"

definition pfind :: "int \<Rightarrow> ksig \<Rightarrow> nat option" where
  "pfind pid s = find (\<lambda>p. p_pid (procs (ks s) p) = pid) (pidhash s (PIDHASH pid))"

text \<open>The real user id of a process as \<^verbatim>\<open>fill_from_u\<close> finds it; -2 (as \<^verbatim>\<open>uid_t\<close>) for a zombie.\<close>

definition fill_ruid :: "nat \<Rightarrow> ksig \<Rightarrow> int" where
  "fill_ruid q s = (if p_stat (procs (ks s) q) = SZOMB then 65534 else u_ruids s q)"

definition cansignal :: "nat \<Rightarrow> nat \<Rightarrow> ksig \<Rightarrow> bool outcome" where
  "cansignal q signum s =
     (let cu = p_uid (curproc s); cr = u_ruids s (u_procp (ks s)); ruid = fill_ruid q s;
          qu = p_uid (procs (ks s) q)
      in if cu = 0 \<or> cr = ruid \<or> cu = ruid \<or> cr = qu \<or> cu = qu then Ok True
         else if signum = SIGCONT
         then case inferior (Suc (length (allproc (ks s)))) q (ks s) of Some b \<Rightarrow> Ok b | None \<Rightarrow> Fault
         else Ok False)"

fun killpg1_loop :: "nat \<Rightarrow> int \<Rightarrow> bool \<Rightarrow> nat list \<Rightarrow> errno option \<Rightarrow> nat \<Rightarrow> ksig \<Rightarrow>
    (errno option \<times> nat \<times> ksig) outcome" where
  "killpg1_loop signo pgrp all [] error f s = Ok (error, f, s)"
| "killpg1_loop signo pgrp all (p # ps) error f s =
     (let q = procs (ks s) p in
      if p_pgrp q \<noteq> pgrp \<and> \<not> all \<or> p_ppid q = 0 \<or> flagged SSYS q \<or> all \<and> p = u_procp (ks s)
      then killpg1_loop signo pgrp all ps error f s
      else obind (cansignal p signo s) (\<lambda>can.
        if \<not> can then killpg1_loop signo pgrp all ps (if \<not> all then Some EPERM else error) f s
        else obind (if signo \<noteq> 0 then psignal p signo (ks s) else Ok (ks s)) (\<lambda>k.
               killpg1_loop signo pgrp all ps error (Suc f) (s\<lparr>ks := k\<rparr>))))"

definition killpg1 :: "nat \<Rightarrow> int \<Rightarrow> bool \<Rightarrow> ksig \<Rightarrow> (errno option \<times> ksig) outcome" where
  "killpg1 signo pgrp all s =
     (let pg = (if \<not> all \<and> pgrp = 0 then p_pgrp (curproc s) else pgrp) in
      if \<not> all \<and> pgrp = 0 \<and> pg = 0 then Ok (Some ESRCH, s)
      else omap (\<lambda>(error, f, s'). (if error \<noteq> None then error else if f = 0 then Some ESRCH else None, s'))
             (killpg1_loop signo pg all (allproc (ks s)) None 0 s))"

definition kill :: "int \<Rightarrow> int \<Rightarrow> ksig \<Rightarrow> (errno option \<times> ksig) outcome" where
  "kill pid signo s =
     (if signo < 0 \<or> signo \<ge> int NSIG then Ok (Some EINVAL, s)
      else if pid > 0
      then case pfind pid s of
             None \<Rightarrow> Ok (Some ESRCH, s)
           | Some p \<Rightarrow> obind (cansignal p (nat signo) s) (\<lambda>can.
               if \<not> can then Ok (Some EPERM, s)
               else if signo \<noteq> 0 then omap (\<lambda>k. (None, s\<lparr>ks := k\<rparr>)) (psignal p (nat signo) (ks s))
               else Ok (None, s))
      else if pid = -1 then killpg1 (nat signo) 0 True s
      else if pid = 0 then killpg1 (nat signo) 0 False s
      else killpg1 (nat signo) (wrap16 (- pid)) False s)"

definition killpg :: "int \<Rightarrow> int \<Rightarrow> ksig \<Rightarrow> (errno option \<times> ksig) outcome" where
  "killpg pgrp signo s =
     (if signo < 0 \<or> signo \<ge> int NSIG then Ok (Some EINVAL, s) else killpg1 (nat signo) pgrp False s)"

section \<open>Taking a signal\<close>

text \<open>
  How one pass of the loop of \<^verbatim>\<open>issignal\<close> ends: it returns a number, it goes round again, or the
  process stops (with default action, keeping \<^verbatim>\<open>mask\<close>; or because it is traced).
\<close>

datatype issig = Deliver nat | Again | StopDefault u32 | StopTraced

text \<open>The switch on \<^verbatim>\<open>u.u_signal[sig]\<close> and what follows it.\<close>

definition issig_act :: "(nat \<Rightarrow> nat) \<Rightarrow> nat \<Rightarrow> nat \<Rightarrow> ksched \<Rightarrow> (issig \<times> ksched) outcome" where
  "issig_act usig p sig s =
     (let q = procs s p; msk = sigmask sig; taken = Ok (Again, psig_clear p msk s) in
      if usig sig = 0
      then if p_pid q \<le> 1 then taken
           else if has_prop sig SA_STOP
           then if flagged P_TRACED q \<or> p_pptr q = 1 \<and> has_prop sig SA_TTYSTOP then taken
                else let s1 = upd_proc p (\<lambda>q. q\<lparr>p_ptracesig := int sig\<rparr>) s
                     in obind (if \<not> flagged P_NOCLDSTOP (procs s1 (p_pptr q))
                               then psignal (p_pptr q) SIGCHLD s1 else Ok s1)
                          (\<lambda>s2. omap (\<lambda>s3. (StopDefault msk, s3)) (stop p s2))
           else if has_prop sig SA_IGNORE then taken
           else Ok (Deliver sig, s)
      else if usig sig = 1 then taken
      else Ok (Deliver sig, s))"

definition issig_pending :: "proc \<Rightarrow> u32" where
  "issig_pending q =
     (let m = p_sig q AND NOT (p_sigmask q) in if flagged SVFORK q then m AND NOT stopsigmask else m)"

definition issig_pass :: "(nat \<Rightarrow> nat) \<Rightarrow> nat \<Rightarrow> ksched \<Rightarrow> (issig \<times> ksched) outcome" where
  "issig_pass usig p s =
     (let q = procs s p; m = issig_pending q in
      if m = 0 then Ok (Deliver 0, s)
      else let sig = ffs m; msk = sigmask sig in
        if msk AND p_sigignore q \<noteq> 0 \<and> \<not> flagged P_TRACED q then Ok (Again, psig_clear p msk s)
        else if flagged P_TRACED q \<and> \<not> flagged SVFORK q
        then let s1 = upd_proc p (\<lambda>q. q\<lparr>p_ptracesig := int sig\<rparr>) (psig_clear p msk s)
             in obind (psignal (p_pptr q) SIGCHLD s1) (\<lambda>s2. omap (\<lambda>s3. (StopTraced, s3)) (stop p s2))
        else issig_act usig p sig s)"

fun issignal :: "nat \<Rightarrow> (nat \<Rightarrow> nat) \<Rightarrow> nat \<Rightarrow> ksched \<Rightarrow> (issig \<times> ksched) outcome option" where
  "issignal 0 usig p s = None"
| "issignal (Suc n) usig p s =
     (case issig_pass usig p s of
        Ok (Again, s1) \<Rightarrow> issignal n usig p s1
      | r \<Rightarrow> Some r)"

text \<open>
  After the stop of a traced process: \<open>released\<close> is the result of \<^verbatim>\<open>procxmt\<close>. The process stops
  again, or takes up the signal its parent left in \<^verbatim>\<open>p_ptracesig\<close>.
\<close>

definition issig_traced :: "(nat \<Rightarrow> nat) \<Rightarrow> bool \<Rightarrow> nat \<Rightarrow> ksched \<Rightarrow> (issig \<times> ksched) outcome" where
  "issig_traced usig released p s =
     (if \<not> released \<and> flagged P_TRACED (procs s p) then omap (\<lambda>s1. (StopTraced, s1)) (stop p s)
      else let sig = nat (p_ptracesig (procs s p)) in
        if sig = 0 then Ok (Again, s)
        else let msk = sigmask sig; s1 = upd_proc p (\<lambda>q. q\<lparr>p_sig := p_sig q OR msk\<rparr>) s in
          if p_sigmask (procs s1 p) AND msk \<noteq> 0 then Ok (Again, s1)
          else if \<not> flagged P_TRACED (procs s1 p) then Ok (Again, s1)
          else issig_act usig p sig s1)"

text \<open>The macro \<^verbatim>\<open>CURSIG\<close>; 33 passes are enough, see \<open>issignal_enough\<close>.\<close>

definition CURSIG :: "(nat \<Rightarrow> nat) \<Rightarrow> nat \<Rightarrow> ksched \<Rightarrow> (issig \<times> ksched) outcome" where
  "CURSIG usig p s =
     (let q = procs s p in
      if p_sig q = 0 \<or> \<not> flagged P_TRACED q \<and> p_sig q AND NOT (p_sigmask q) = 0 then Ok (Deliver 0, s)
      else case issignal 33 usig p s of Some r \<Rightarrow> r | None \<Rightarrow> Fault)"

text \<open>
  \<^verbatim>\<open>postsig\<close> ends in a handler call (\<^verbatim>\<open>sendsig\<close> builds the frame for it) or in \<^verbatim>\<open>exit\<close>; \<open>dumped\<close>
  is the result of \<^verbatim>\<open>core()\<close>.
\<close>

datatype post = Sendsig nat nat u32 | Exit nat

definition postsig :: "bool \<Rightarrow> nat \<Rightarrow> ksig \<Rightarrow> post \<times> ksig" where
  "postsig dumped sig s =
     (let msk = sigmask sig;
          s1 = upd_cur (\<lambda>q. q\<lparr>p_sig := p_sig q AND NOT msk\<rparr>) (s\<lparr>u_fpsaved := True\<rparr>);
          action = u_signal s1 sig
      in if action \<noteq> 0
         then let old = u_psflags s1 AND SAS_OLDMASK \<noteq> 0;
                  returnmask = (if old then u_oldmask s1 else p_sigmask (curproc s1));
                  s2 = (if old then s1\<lparr>u_psflags := u_psflags s1 AND NOT SAS_OLDMASK\<rparr> else s1);
                  s3 = upd_cur (\<lambda>q. q\<lparr>p_sigmask := p_sigmask q OR (u_sigmask s2 sig OR msk)\<rparr>) s2
              in (Sendsig action sig returnmask, s3\<lparr>ru_nsignals := ru_nsignals s3 + 1\<rparr>)
         else (Exit (if has_prop sig SA_CORE \<and> dumped then sig + 128 else sig),
               s1\<lparr>u_acflag := u_acflag s1 OR 0x10\<rparr>))"

section \<open>The system calls of kern_sig2.c\<close>

text \<open>
  A pointer argument is \<open>None\<close> for a null pointer; what \<^verbatim>\<open>copyin\<close> reads through it is a sum (\<open>Inl\<close>
  its error), and whether \<^verbatim>\<open>copyout\<close> through it fails an optional error. The calls return the
  error, the value copied out and the state.
\<close>

definition setsigvec :: "nat \<Rightarrow> sigaction \<Rightarrow> ksig \<Rightarrow> ksig" where
  "setsigvec signum sa s =
     (let b = sigmask signum;
          s1 = s\<lparr>u_signal := (u_signal s)(signum := sa_handler sa),
                 u_sigmask := (u_sigmask s)(signum := sa_mask sa AND NOT sigcantmask)\<rparr>;
          i = u_sigintr (ks s1);
          s2 = s1\<lparr>ks := (ks s1)\<lparr>u_sigintr := (if sa_flags sa AND SA_RESTART = 0 then i OR b else i AND NOT b)\<rparr>\<rparr>;
          s3 = s2\<lparr>u_sigonstack := (if sa_flags sa AND SA_ONSTACK \<noteq> 0 then u_sigonstack s2 OR b
                                    else u_sigonstack s2 AND NOT b)\<rparr>;
          s4 = (if signum = SIGCHLD
                then upd_cur (\<lambda>q. q\<lparr>p_flag := (if sa_flags sa AND SA_NOCLDSTOP \<noteq> 0 then p_flag q OR P_NOCLDSTOP
                                              else p_flag q AND NOT P_NOCLDSTOP)\<rparr>) s3
                else s3)
      in if sa_handler sa = 1 \<or> has_prop signum SA_IGNORE \<and> sa_handler sa = 0
         then upd_cur (\<lambda>q. q\<lparr>p_sig := p_sig q AND NOT b,
                             p_sigignore := (if signum \<noteq> SIGCONT then p_sigignore q OR b else p_sigignore q),
                             p_sigcatch := p_sigcatch q AND NOT b\<rparr>) s4
         else upd_cur (\<lambda>q. q\<lparr>p_sigignore := p_sigignore q AND NOT b,
                             p_sigcatch := (if sa_handler sa = 0 then p_sigcatch q AND NOT b
                                            else p_sigcatch q OR b)\<rparr>) s4)"

definition sigaction_old :: "nat \<Rightarrow> ksig \<Rightarrow> sigaction" where
  "sigaction_old signum s =
     (let b = sigmask signum in
      \<lparr>sa_handler = u_signal s signum, sa_mask = u_sigmask s signum,
       sa_flags = (if u_sigonstack s AND b \<noteq> 0 then SA_ONSTACK else 0) OR
                  (if u_sigintr (ks s) AND b = 0 then SA_RESTART else 0) OR
                  (if flagged P_NOCLDSTOP (curproc s) then SA_NOCLDSTOP else 0)\<rparr>)"

definition sigaction_call :: "nat \<Rightarrow> int \<Rightarrow> (errno + sigaction) option \<Rightarrow> errno option option \<Rightarrow> ksig \<Rightarrow>
    errno option \<times> sigaction option \<times> ksig" where
  "sigaction_call tramp signum nsa osa s =
     (let s1 = s\<lparr>pcb_sigc := tramp\<rparr>; n = nat signum in
      if signum \<le> 0 \<or> signum \<ge> int NSIG then (Some EINVAL, None, s1)
      else if nsa \<noteq> None \<and> (n = SIGKILL \<or> n = SIGSTOP) then (Some EINVAL, None, s1)
      else case osa of
             Some (Some e) \<Rightarrow> (Some e, None, s1)
           | _ \<Rightarrow>
             let out = (if osa = None then None else Some (sigaction_old n s1)) in
             case nsa of
               None \<Rightarrow> (None, out, s1)
             | Some (Inl e) \<Rightarrow> (Some e, out, s1)
             | Some (Inr sa) \<Rightarrow> (None, out, setsigvec n sa s1))"

definition fatalsig :: "nat \<Rightarrow> ksig \<Rightarrow> ksig outcome" where
  "fatalsig signum s =
     (let msk = sigmask signum;
          s1 = upd_cur (\<lambda>q. q\<lparr>p_sigignore := p_sigignore q AND NOT msk,
                              p_sigcatch := p_sigcatch q AND NOT msk,
                              p_sigmask := p_sigmask q AND NOT msk\<rparr>)
                 (s\<lparr>u_signal := (u_signal s)(signum := 0)\<rparr>)
      in omap (\<lambda>k. s1\<lparr>ks := k\<rparr>) (psignal (u_procp (ks s1)) signum (ks s1)))"

definition siginit :: "proc \<Rightarrow> proc" where
  "siginit p =
     fold (\<lambda>i p. if has_prop i SA_IGNORE \<and> i \<noteq> SIGCONT then p\<lparr>p_sigignore := p_sigignore p OR sigmask i\<rparr> else p)
       [0..<NSIG] p"

definition sigprocmask :: "int \<Rightarrow> (errno + u32) option \<Rightarrow> errno option option \<Rightarrow> ksig \<Rightarrow>
    errno option \<times> u32 option \<times> ksig" where
  "sigprocmask how nset oset s =
     (let oldmask = p_sigmask (curproc s);
          r = (case nset of
                 None \<Rightarrow> (None, s)
               | Some (Inl e) \<Rightarrow> (Some e, s)
               | Some (Inr newmask) \<Rightarrow>
                   if how = 1 then (None, upd_cur (\<lambda>q. q\<lparr>p_sigmask := p_sigmask q OR (newmask AND NOT sigcantmask)\<rparr>) s)
                   else if how = 2 then (None, upd_cur (\<lambda>q. q\<lparr>p_sigmask := p_sigmask q AND NOT newmask\<rparr>) s)
                   else if how = 3 then (None, upd_cur (\<lambda>q. q\<lparr>p_sigmask := newmask AND NOT sigcantmask\<rparr>) s)
                   else (Some EINVAL, s))
      in if fst r = None \<and> oset \<noteq> None
         then case the oset of
                None \<Rightarrow> (None, Some oldmask, snd r)
              | Some e \<Rightarrow> (Some e, None, snd r)
         else (fst r, None, snd r))"

definition sigpending :: "errno option option \<Rightarrow> ksig \<Rightarrow> errno option \<times> u32 option" where
  "sigpending nset s =
     (case nset of
        None \<Rightarrow> (Some EINVAL, None)
      | Some None \<Rightarrow> (None, Some (p_sig (curproc s)))
      | Some (Some e) \<Rightarrow> (Some e, None))"

text \<open>
  \<^verbatim>\<open>sigsuspend\<close> up to its loop of \<^verbatim>\<open>tsleep\<close> calls, after which it always returns \<^verbatim>\<open>EINTR\<close>. With a
  null pointer the local \<^verbatim>\<open>nmask\<close> is used uninitialised: \<open>garbage\<close> is what it holds.
\<close>

definition sigsuspend :: "(errno + u32) option \<Rightarrow> u32 \<Rightarrow> ksig \<Rightarrow> ksig" where
  "sigsuspend nset garbage s =
     (let nmask = (case nset of Some (Inl e) \<Rightarrow> 0 | Some (Inr m) \<Rightarrow> m | None \<Rightarrow> garbage);
          s1 = s\<lparr>u_oldmask := p_sigmask (curproc s), u_psflags := u_psflags s OR SAS_OLDMASK\<rparr>
      in upd_cur (\<lambda>q. q\<lparr>p_sigmask := nmask AND NOT sigcantmask\<rparr>) s1)"

definition sigaltstack_call :: "(errno + sigaltstack) option \<Rightarrow> errno option option \<Rightarrow> ksig \<Rightarrow>
    errno option \<times> sigaltstack option \<times> ksig" where
  "sigaltstack_call nss oss s =
     (let s1 = (if u_psflags s AND SAS_ALTSTACK = 0
                then s\<lparr>u_sigstk := (u_sigstk s)\<lparr>ss_flags := ss_flags (u_sigstk s) OR SA_DISABLE\<rparr>\<rparr> else s);
          out = (if oss = None then None else Some (u_sigstk s1))
      in case oss of
           Some (Some e) \<Rightarrow> (Some e, None, s1)
         | _ \<Rightarrow>
           case nss of
             None \<Rightarrow> (None, out, s1)
           | Some (Inl e) \<Rightarrow> (Some e, out, s1)
           | Some (Inr ss) \<Rightarrow>
               if ss_flags ss AND SA_DISABLE \<noteq> 0
               then if ss_flags (u_sigstk s1) AND SA_ONSTACK \<noteq> 0 then (Some EINVAL, out, s1)
                    else (None, out, s1\<lparr>u_psflags := u_psflags s1 AND NOT SAS_ALTSTACK,
                                        u_sigstk := (u_sigstk s1)\<lparr>ss_flags := ss_flags ss\<rparr>\<rparr>)
               else if ss_size ss < 128 then (Some ENOMEM, out, s1)
               else (None, out, s1\<lparr>u_psflags := u_psflags s1 OR SAS_ALTSTACK, u_sigstk := ss\<rparr>))"

text \<open>The 4.3BSD call: \<open>nss\<close> and the value copied out are a base and the on-stack flag.\<close>

definition sigstack :: "(errno + nat \<times> u16) option \<Rightarrow> errno option option \<Rightarrow> ksig \<Rightarrow>
    errno option \<times> (nat \<times> u16) option \<times> ksig" where
  "sigstack nss oss s =
     (let out = (if oss = None then None else Some (ss_base (u_sigstk s), ss_flags (u_sigstk s) AND SA_ONSTACK))
      in case oss of
           Some (Some e) \<Rightarrow> (Some e, None, s)
         | _ \<Rightarrow>
           case nss of
             None \<Rightarrow> (None, out, s)
           | Some (Inl e) \<Rightarrow> (Some e, out, s)
           | Some (Inr (sp, onstack)) \<Rightarrow>
               (None, out,
                s\<lparr>u_sigstk := \<lparr>ss_base = sp, ss_size = 0,
                               ss_flags = ss_flags (u_sigstk s) OR (onstack AND SA_ONSTACK)\<rparr>,
                  u_psflags := u_psflags s OR SAS_ALTSTACK\<rparr>))"

text \<open>
  \<^verbatim>\<open>sigwait\<close>: \<open>None\<close> means that none of the wanted signals is pending, so the process sleeps and
  looks again when it is woken.
\<close>

definition sigwait :: "(errno + u32) option \<Rightarrow> errno option option \<Rightarrow> ksig \<Rightarrow>
    (errno option \<times> nat option \<times> ksig) option" where
  "sigwait nset sigp s =
     (case (nset, sigp) of
        (Some m, Some out) \<Rightarrow>
          (case m of
             Inl e \<Rightarrow> Some (Some e, None, s)
           | Inr wanted \<Rightarrow>
               let avail = (wanted OR sigcantmask) AND p_sig (curproc s) in
               if avail = 0 then None
               else if avail AND sigcantmask \<noteq> 0 then Some (Some EINTR, None, s)
               else let signo = ffs avail;
                        s1 = upd_cur (\<lambda>q. q\<lparr>p_sig := p_sig q AND NOT (sigmask signo)\<rparr>) s
                    in Some (case out of None \<Rightarrow> (None, Some signo, s1) | Some e \<Rightarrow> (Some e, None, s1)))
      | _ \<Rightarrow> Some (Some EINVAL, None, s))"

end
