(* ===== verification/Sig_Props.thy ===== *)
theory Sig_Props
  imports Sig
begin

text \<open>
  What signal delivery guarantees: posting a signal keeps the queues of the scheduler consistent
  and never panics, \<^verbatim>\<open>SIGKILL\<close> and \<^verbatim>\<open>SIGSTOP\<close> can be neither held, ignored nor caught whatever
  system calls a process makes, \<^verbatim>\<open>SIGKILL\<close> makes a stopped or interruptibly sleeping process run,
  and \<^verbatim>\<open>issignal\<close> ends, returning the lowest deliverable signal.
\<close>

section \<open>Waking does not touch the signal state\<close>

definition sview :: "proc \<Rightarrow> u16 \<times> int \<times> int \<times> int \<times> nat \<times> u32 \<times> int \<times> u32 \<times> u32 \<times> u32 \<times> int \<times> int" where
  "sview q = (p_flag q, p_uid q, p_pid q, p_ppid q, p_pptr q, p_sig q, p_ptracesig q, p_sigmask q,
     p_sigignore q, p_sigcatch q, p_pgrp q, p_nice q)"

definition same_sig :: "ksched \<Rightarrow> ksched \<Rightarrow> bool" where
  "same_sig s s' \<longleftrightarrow> (\<forall>r. sview (procs s' r) = sview (procs s r)) \<and> u_procp s' = u_procp s \<and>
     allproc s' = allproc s"

lemma same_sig_refl [simp]: "same_sig s s"
  by (simp add: same_sig_def)

lemma same_sig_trans: "same_sig s t \<Longrightarrow> same_sig t r \<Longrightarrow> same_sig s r"
  by (simp add: same_sig_def)

lemma same_sigD:
  assumes "same_sig s s'"
  shows "p_sig (procs s' r) = p_sig (procs s r)" "p_sigmask (procs s' r) = p_sigmask (procs s r)"
    "p_sigignore (procs s' r) = p_sigignore (procs s r)" "p_sigcatch (procs s' r) = p_sigcatch (procs s r)"
    "p_flag (procs s' r) = p_flag (procs s r)" "u_procp s' = u_procp s" "p_pid (procs s' r) = p_pid (procs s r)"
    "p_pptr (procs s' r) = p_pptr (procs s r)" "allproc s' = allproc s"
  using assms by (auto simp: same_sig_def sview_def)

lemma updatepri_sig: "same_sig s (updatepri p s)"
  by (simp add: same_sig_def sview_def updatepri_def setpri_def Let_def)

lemma wake_run_sig: "same_sig s (wake_run p s)"
  using updatepri_sig[of s p] by (simp add: wake_run_def same_sig_def sview_def Let_def setrq_def)

lemma wakeup_loop_sig: "wakeup_loop n chan i s = Some (Ok s') \<Longrightarrow> same_sig s s'"
proof (induction n arbitrary: chan i s s')
  case (Suc n)
  let ?p = "slpque s (HASH chan) ! i"
  let ?s1 = "upd_proc ?p (\<lambda>r. r\<lparr>p_wchan := 0\<rparr>) (s\<lparr>slpque := (slpque s)(HASH chan :=
     take i (slpque s (HASH chan)) @ drop (Suc i) (slpque s (HASH chan)))\<rparr>)"
  have s1: "same_sig s ?s1" by (simp add: same_sig_def sview_def)
  have s2: "same_sig s (wake_run ?p ?s1)" using same_sig_trans[OF s1 wake_run_sig] .
  have s2': "same_sig s ((wake_run ?p ?s1)\<lparr>runout := False\<rparr>)" using s2 by (simp add: same_sig_def)
  have s3: "same_sig s (upd_proc ?p (\<lambda>r. r\<lparr>p_slptime := 0\<rparr>) ?s1)" by (simp add: same_sig_def sview_def)
  show ?case
    using Suc.prems Suc.IH same_sig_trans[OF s2] same_sig_trans[OF s2'] same_sig_trans[OF s3]
    by (auto simp: Let_def simp del: upd_proc_simps split: if_splits option.splits outcome.splits)
      (blast intro: same_sig_trans)+
qed simp

lemma wakeup_sig: "wakeup chan s = Ok s' \<Longrightarrow> same_sig s s'"
  by (auto simp: wakeup_def split: option.splits dest: wakeup_loop_sig)

lemma unsleep_sig: "unsleep p s = Ok s' \<Longrightarrow> same_sig s s'"
  by (auto simp: unsleep_def same_sig_def sview_def Let_def split: if_splits)

lemma setrun_sig:
  assumes "setrun p s = Ok s'"
  shows "same_sig s s'"
proof -
  from assms obtain s1 where s1: "(case p_stat (procs s p) of
      SSTOP \<Rightarrow> unsleep p s | SSLEEP \<Rightarrow> unsleep p s | SIDL \<Rightarrow> Ok s | _ \<Rightarrow> Panic ''setrun'') = Ok s1"
    by (auto simp: setrun_def obind_Ok_iff)
  have a: "same_sig s s1" using s1 by (auto split: pstat.splits dest: unsleep_sig)
  define s2 where "s2 = (if p_slptime (procs s1 p) > 1 then updatepri p s1 else s1)"
  have b: "same_sig s1 s2" using updatepri_sig by (simp add: s2_def)
  define s4 where "s4 = (let s3 = upd_proc p (\<lambda>q. q\<lparr>p_stat := SRUN\<rparr>) s2 in
      if loaded (procs s3 p) then setrq p s3 else s3)"
  have c: "same_sig s2 s4" by (simp add: s4_def same_sig_def sview_def setrq_def Let_def)
  define s5 where "s5 = (if p_pri (procs s4 p) < curpri s4 then s4\<lparr>runrun := runrun s4 + 1\<rparr> else s4)"
  have d: "same_sig s4 s5" by (simp add: s5_def same_sig_def)
  have e: "same_sig s s5" using a b c d same_sig_trans by blast
  have "(if \<not> loaded (procs s5 p) \<and> runout s5 then wakeup RUNOUT (s5\<lparr>runout := False\<rparr>) else Ok s5) = Ok s'"
    using assms[unfolded setrun_def s1 obind.simps Let_def] unfolding s5_def s4_def s2_def Let_def .
  moreover have "same_sig s (s5\<lparr>runout := False\<rparr>)" using e by (simp add: same_sig_def)
  ultimately show ?thesis using e wakeup_sig same_sig_trans by (metis outcome.inject(1))
qed

section \<open>Posting keeps the queues consistent\<close>

lemma flags_loaded [simp]:
  "loaded (q\<lparr>p_sig := a\<rparr>) = loaded q" "loaded (q\<lparr>p_nice := b\<rparr>) = loaded q"
  "loaded (q\<lparr>p_ptracesig := c\<rparr>) = loaded q" "loaded (q\<lparr>p_sigmask := d\<rparr>) = loaded q"
  "loaded (q\<lparr>p_sigignore := d\<rparr>) = loaded q" "loaded (q\<lparr>p_sigcatch := d\<rparr>) = loaded q"
  by (simp_all add: loaded_def)

lemma loaded_nowaited: "(x AND NOT P_WAITED) AND SLOAD = x AND SLOAD"
  by (rule bit_word_eqI) (auto simp: bit_simps)

text \<open>An update of one process that keeps its state, channel and residence keeps the invariant.\<close>

lemma sched_ok_upd:
  assumes "sched_ok s" "p_stat (f (procs s p)) = p_stat (procs s p)"
    "p_wchan (f (procs s p)) = p_wchan (procs s p)" "loaded (f (procs s p)) = loaded (procs s p)"
  shows "sched_ok (upd_proc p f s)"
  by (rule sched_ok_cong[OF assms(1)]) (use assms(2-4) in auto)

text \<open>A process off the run queue may move between sleeping and stopped, or stop if it waits for nothing.\<close>

lemma sched_ok_stop:
  assumes ok: "sched_ok s" and nq: "p \<notin> set (qs s)" and st: "p_stat (f (procs s p)) \<in> {SSLEEP, SSTOP}"
    and w: "p_wchan (f (procs s p)) = p_wchan (procs s p)" "loaded (f (procs s p)) = loaded (procs s p)"
  shows "sched_ok (upd_proc p f s)"
proof -
  note d = sched_okD[OF ok]
  show ?thesis
  proof (rule sched_okI)
    fix h r
    show "distinct (slpque (upd_proc p f s) h)" "distinct (qs (upd_proc p f s))" using d(1,4) by simp_all
    show "r \<in> set (slpque (upd_proc p f s) h) \<longleftrightarrow>
        p_wchan (procs (upd_proc p f s) r) \<noteq> 0 \<and> HASH (p_wchan (procs (upd_proc p f s) r)) = h"
      using d(2)[of r h] w by simp
  next
    fix r assume "p_wchan (procs (upd_proc p f s) r) \<noteq> 0"
    then show "p_stat (procs (upd_proc p f s) r) = SSLEEP \<or> p_stat (procs (upd_proc p f s) r) = SSTOP"
      using d(3)[of r] st by (cases "r = p") auto
  next
    fix r assume "r \<in> set (qs (upd_proc p f s))"
    then show "p_stat (procs (upd_proc p f s) r) = SRUN \<and> loaded (procs (upd_proc p f s) r)"
      using d(5)[of r] nq by auto
  next
    fix r assume "p_stat (procs (upd_proc p f s) r) = SRUN" "loaded (procs (upd_proc p f s) r)"
      "r \<noteq> u_procp (upd_proc p f s)"
    then show "r \<in> set (qs (upd_proc p f s))" using d(6)[of r] st by (auto split: if_splits)
  qed
qed

lemma not_running_not_queued: "sched_ok s \<Longrightarrow> p_stat (procs s p) \<noteq> SRUN \<Longrightarrow> p \<notin> set (qs s)"
  using sched_okD(5) by blast

lemma psig_clear_ok: "sched_ok s \<Longrightarrow> sched_ok (psig_clear p m s)"
  unfolding psig_clear_def by (rule sched_ok_upd) auto

lemma stop_ok:
  assumes "sched_ok s" "p \<notin> set (qs s)"
  shows "\<exists>s'. stop p s = Ok s' \<and> sched_ok s'"
proof -
  let ?s = "upd_proc p (\<lambda>q. q\<lparr>p_stat := SSTOP, p_flag := p_flag q AND NOT P_WAITED\<rparr>) s"
  have "sched_ok ?s"
    using assms loaded_nowaited by (intro sched_ok_stop) (auto simp: loaded_def)
  moreover have "procaddr (p_pptr (procs s p)) \<noteq> 0" by (simp add: procaddr_def)
  ultimately show ?thesis using wakeup_ok[of ?s] by (auto simp: stop_def wakeup_post_def)
qed

lemma psig_run_ok:
  assumes "sched_ok s" "p_stat (procs s p) \<in> {SSLEEP, SSTOP}"
  shows "\<exists>s'. psig_run p s = Ok s' \<and> sched_ok s' \<and> p_stat (procs s' p) = SRUN \<and>
    (\<forall>r. r \<noteq> p \<longrightarrow> p_wchan (procs s r) \<noteq> RUNOUT \<longrightarrow> procs s' r = procs s r)"
proof -
  let ?s = "if p_pri (procs s p) > PUSER then upd_proc p (\<lambda>q. q\<lparr>p_pri := PUSER\<rparr>) s else s"
  have "sched_ok ?s" using assms(1) by (auto intro: sched_ok_upd)
  moreover have "p_stat (procs ?s p) \<in> {SSLEEP, SSTOP, SIDL}" using assms(2) by auto
  moreover have "r \<noteq> p \<longrightarrow> procs ?s r = procs s r" for r by simp
  ultimately show ?thesis unfolding psig_run_def using setrun_ok[of ?s p] by fastforce
qed

lemma psig_run_sig: "psig_run p s = Ok s' \<Longrightarrow> same_sig s s'"
proof -
  assume a: "psig_run p s = Ok s'"
  let ?s = "if p_pri (procs s p) > PUSER then upd_proc p (\<lambda>q. q\<lparr>p_pri := PUSER\<rparr>) s else s"
  have "same_sig s ?s" by (simp add: same_sig_def sview_def)
  then show ?thesis using setrun_sig a same_sig_trans unfolding psig_run_def by blast
qed

text \<open>The changes of \<open>psig_post\<close> touch only the pending set and the nice value of the process.\<close>

definition post_frame :: "nat \<Rightarrow> ksched \<Rightarrow> ksched \<Rightarrow> bool" where
  "post_frame p s s1 \<longleftrightarrow> (\<exists>x n. s1 = upd_proc p (\<lambda>q. q\<lparr>p_sig := x, p_nice := n\<rparr>) s)"

lemma post_frame_refl [simp]: "post_frame p s s"
  unfolding post_frame_def
  by (rule exI[of _ "p_sig (procs s p)"], rule exI[of _ "p_nice (procs s p)"]) (simp add: upd_proc_def)

lemma post_frame_trans: "post_frame p s t \<Longrightarrow> post_frame p t r \<Longrightarrow> post_frame p s r"
  unfolding post_frame_def by (elim exE, rename_tac x n x' n', rule_tac x = x' in exI, rule_tac x = n' in exI)
    (simp add: upd_proc_def)

lemma post_frame_sig: "post_frame p s (upd_proc p (\<lambda>q. q\<lparr>p_sig := f q\<rparr>) s)"
  unfolding post_frame_def
  by (rule exI[of _ "f (procs s p)"], rule exI[of _ "p_nice (procs s p)"]) (simp add: upd_proc_def)

lemma post_frame_nice: "post_frame p s (upd_proc p (\<lambda>q. q\<lparr>p_nice := n\<rparr>) s)"
  unfolding post_frame_def
  by (rule exI[of _ "p_sig (procs s p)"], rule exI[of _ n]) (simp add: upd_proc_def)

lemma psig_post_frame: "psig_post p sig s = (b, s1) \<Longrightarrow> post_frame p s s1"
proof -
  assume a: "psig_post p sig s = (b, s1)"
  define s1' where "s1' = (if p_nice (procs s p) > 0 \<and> sig_action (procs s p) (sigmask sig) = A_DFL \<and>
      has_prop sig SA_KILL \<and> \<not> flagged P_TRACED (procs s p) then upd_proc p (\<lambda>q. q\<lparr>p_nice := 0\<rparr>) s else s)"
  define s2 where "s2 = (if has_prop sig SA_CONT then psig_clear p stopsigmask s1' else s1')"
  define s3 where "s3 = (if has_prop sig SA_STOP then psig_clear p contsigmask s2 else s2)"
  have "post_frame p s s1'" by (simp add: s1'_def post_frame_nice)
  moreover have "post_frame p s1' s2" by (simp add: s2_def psig_clear_def post_frame_sig)
  moreover have "post_frame p s2 s3" by (simp add: s3_def psig_clear_def post_frame_sig)
  moreover have "s1 = s2 \<or> s1 = upd_proc p (\<lambda>q. q\<lparr>p_sig := p_sig q OR sigmask sig\<rparr>) s3"
    using a[unfolded psig_post_def Let_def, folded s1'_def, folded s2_def, folded s3_def]
    by (cases "has_prop sig SA_STOP \<and> has_prop sig SA_TTYSTOP \<and> p_pptr (procs s p) = 1 \<and>
      sig_action (procs s p) (sigmask sig) = A_DFL") (simp_all only: if_True if_False prod.inject simp_thms)
  moreover have "post_frame p s3 (upd_proc p (\<lambda>q. q\<lparr>p_sig := p_sig q OR sigmask sig\<rparr>) s3)"
    by (rule post_frame_sig)
  ultimately show ?thesis by (elim disjE) (auto intro: post_frame_trans)
qed

lemma post_frameD:
  assumes "post_frame p s s1"
  shows "p_stat (procs s1 r) = p_stat (procs s r)" "p_wchan (procs s1 r) = p_wchan (procs s r)"
    "p_flag (procs s1 r) = p_flag (procs s r)" "p_pptr (procs s1 r) = p_pptr (procs s r)"
    "slpque s1 = slpque s" "qs s1 = qs s" "u_procp s1 = u_procp s" "r \<noteq> p \<Longrightarrow> procs s1 r = procs s r"
    "p_sigmask (procs s1 r) = p_sigmask (procs s r)" "p_sigignore (procs s1 r) = p_sigignore (procs s r)"
    "p_sigcatch (procs s1 r) = p_sigcatch (procs s r)"
  using assms by (auto simp: post_frame_def)

lemma post_frame_ok: "post_frame p s s1 \<Longrightarrow> sched_ok s \<Longrightarrow> sched_ok s1"
  by (rule sched_ok_cong[of s]) (simp_all only: post_frameD loaded_def)

lemma psig_sleeping_ok:
  assumes ok: "sched_ok s" and st: "p_stat (procs s p) = SSLEEP"
    and n: "\<And>t. has_prop sig SA_STOP \<Longrightarrow> sched_ok t \<Longrightarrow> p_stat (procs t p) = SSLEEP \<Longrightarrow>
      flagged P_SINTR (procs s p) \<Longrightarrow> p_wchan (procs t p) = p_wchan (procs s p) \<Longrightarrow>
      \<exists>t'. notify (p_pptr (procs s p)) t = Ok t' \<and> sched_ok t' \<and> p \<notin> set (qs t')"
  shows "\<exists>s'. psig_sleeping notify action p sig s = Ok s' \<and> sched_ok s'"
proof -
  let ?s1 = "upd_proc p (\<lambda>q. q\<lparr>p_ptracesig := int sig\<rparr>) (psig_clear p (sigmask sig) s)"
  have s1: "sched_ok ?s1" "p_stat (procs ?s1 p) = SSLEEP"
    using st psig_clear_ok[OF ok] by (auto intro: sched_ok_upd simp: psig_clear_def)
  have "p \<notin> set (qs ?s1)" using not_running_not_queued[OF s1(1)] s1(2) by simp
  moreover have "p_wchan (procs ?s1 p) = p_wchan (procs s p)" by (simp add: psig_clear_def)
  ultimately have nt: "\<exists>t'. (if b then notify (p_pptr (procs s p)) ?s1 else Ok ?s1) = Ok t' \<and> sched_ok t' \<and> p \<notin> set (qs t')"
    if "has_prop sig SA_STOP" "flagged P_SINTR (procs s p)" for b
    using n[OF that(1) s1 that(2)] s1(1) by auto
  have pp: "p_pptr (procs ?s1 p) = p_pptr (procs s p)" by (simp add: psig_clear_def)
  have stopped: "\<exists>s'. obind (if b then notify (p_pptr (procs ?s1 p)) ?s1 else Ok ?s1) (stop p) = Ok s' \<and> sched_ok s'"
    if "has_prop sig SA_STOP" "flagged P_SINTR (procs s p)" for b
    unfolding pp using nt[OF that, of b] stop_ok by auto
  have run: "\<exists>s'. psig_run p s = Ok s' \<and> sched_ok s'" using psig_run_ok[OF ok] st by blast
  show ?thesis
    unfolding psig_sleeping_def Let_def
    using run stopped psig_clear_ok[OF ok] ok by (simp del: upd_proc_simps)
qed

lemma psig_stopped_ok:
  assumes ok: "sched_ok s" and st: "p_stat (procs s p) = SSTOP"
  shows "\<exists>s'. psig_stopped action p sig s = Ok s' \<and> sched_ok s'"
proof -
  let ?s1 = "if action = A_DFL then psig_clear p (sigmask sig) s else s"
  have s1: "sched_ok ?s1" "p_stat (procs ?s1 p) = SSTOP"
    using ok st psig_clear_ok by (auto simp: psig_clear_def)
  have nq: "p \<notin> set (qs ?s1)" using not_running_not_queued[OF s1(1)] s1(2) by simp
  have sl: "sched_ok (upd_proc p (\<lambda>q. q\<lparr>p_stat := SSLEEP\<rparr>) ?s1)"
    by (rule sched_ok_stop[OF s1(1) nq]) auto
  have run: "\<exists>s'. psig_run p s = Ok s' \<and> sched_ok s'" using psig_run_ok[OF ok] st by blast
  have run1: "\<exists>s'. psig_run p ?s1 = Ok s' \<and> sched_ok s'"
    using psig_run_ok[OF s1(1)] s1(2) by blast
  show ?thesis
    unfolding psig_stopped_def Let_def
    using run run1 sl psig_clear_ok[OF ok] ok unsleep_ok[OF ok] unqueue_ok[OF ok]
    by (simp del: upd_proc_simps split del: if_split split: if_split)
qed

lemma psignal_with_ok:
  assumes ok: "sched_ok s"
    and n: "\<And>t. has_prop sig SA_STOP \<Longrightarrow> sched_ok t \<Longrightarrow> p_stat (procs t p) = SSLEEP \<Longrightarrow>
      p_stat (procs s p) = SSLEEP \<Longrightarrow>
      flagged P_SINTR (procs s p) \<Longrightarrow> p_wchan (procs t p) = p_wchan (procs s p) \<Longrightarrow>
      \<exists>t'. notify (p_pptr (procs s p)) t = Ok t' \<and> sched_ok t' \<and> p \<notin> set (qs t')"
  shows "\<exists>s'. psignal_with notify p sig s = Ok s' \<and> sched_ok s'"
proof -
  obtain b s1 where p: "psig_post p sig s = (b, s1)" by fastforce
  note fr = psig_post_frame[OF p]
  have s1: "sched_ok s1" "p_stat (procs s1 p) = p_stat (procs s p)"
    using post_frame_ok[OF fr ok] post_frameD(1)[OF fr] by blast+
  have same: "flagged P_SINTR (procs s1 p) = flagged P_SINTR (procs s p)"
      "p_wchan (procs s1 p) = p_wchan (procs s p)" "p_pptr (procs s1 p) = p_pptr (procs s p)"
    using post_frameD[OF fr] by (simp_all add: flagged_def)
  have sl: "\<exists>s'. psig_sleeping notify a p sig s1 = Ok s' \<and> sched_ok s'" if "p_stat (procs s p) = SSLEEP" for a
    using that s1 same n by (intro psig_sleeping_ok) auto
  show ?thesis
    unfolding psignal_with_def Let_def p
    using ok s1 sl psig_stopped_ok[OF s1(1)]
    by (cases "p_stat (procs s p)") (auto split: bool.split)
qed

lemma sigchld_nostop: "\<not> has_prop SIGCHLD SA_STOP" "\<not> has_prop SIGCHLD SA_CONT" "\<not> has_prop SIGCHLD SA_KILL"
  by (simp_all add: has_prop_def sigprop_def)

text \<open>For \<^verbatim>\<open>SIGCHLD\<close> the recursive call is never reached.\<close>

lemma psignal_with_chld: "psignal_with f p SIGCHLD s = psignal_with g p SIGCHLD s"
proof -
  have "psig_sleeping f a p SIGCHLD t = psig_sleeping g a p SIGCHLD t" for a t
    unfolding psig_sleeping_def Let_def using sigchld_nostop by (simp del: One_nat_def)
  then show ?thesis unfolding psignal_with_def by presburger
qed

lemma psignal_rec: "psignal p sig s = psignal_with (\<lambda>pp. psignal pp SIGCHLD) p sig s"
proof -
  have "(\<lambda>pp. psignal_with (\<lambda>_ _. Fault) pp SIGCHLD) = (\<lambda>pp. psignal pp SIGCHLD)"
    unfolding psignal_def by (intro ext) (rule psignal_with_chld)
  then show ?thesis unfolding psignal_def[of p sig s] by simp
qed

text \<open>
  Interruptible sleepers are not the swapper (which waits on \<^verbatim>\<open>runout\<close> uninterruptibly) and are
  not their own parent.
\<close>

definition intr_ok :: "ksched \<Rightarrow> bool" where
  "intr_ok s \<longleftrightarrow> (\<forall>p. p_stat (procs s p) = SSLEEP \<and> flagged P_SINTR (procs s p) \<longrightarrow>
     p_wchan (procs s p) \<noteq> RUNOUT \<and> p_pptr (procs s p) \<noteq> p)"

lemma psignal_chld_others:
  assumes ok: "sched_ok s" and "psignal r SIGCHLD s = Ok s'" "p \<noteq> r" "p_wchan (procs s p) \<noteq> RUNOUT"
  shows "procs s' p = procs s p"
proof -
  obtain b s1 where ps: "psig_post r SIGCHLD s = (b, s1)" by fastforce
  note fr = psig_post_frame[OF ps]
  have s1: "sched_ok s1" "p_stat (procs s1 r) = p_stat (procs s r)" "procs s1 p = procs s p"
    using post_frame_ok[OF fr ok] post_frameD[OF fr] assms(3) by blast+
  have run: "procs t p = procs s p" if "psig_run r s1 = Ok t" "p_stat (procs s r) \<in> {SSLEEP, SSTOP}" for t
    using psig_run_ok[OF s1(1), of r] that s1 assms(3,4) by auto
  have un: "procs t p = procs s p" if "unsleep r s1 = Ok t" for t
    using that unsleep_ok[OF s1(1)] unqueue_facts(3)[of p r s1] s1(3) assms(3) by auto
  note no = sigchld_nostop
  show ?thesis
    using assms(2) s1(2,3) run un
    unfolding psignal_def psignal_with_def Let_def ps psig_sleeping_def psig_stopped_def
    by (auto simp: no simp del: upd_proc_simps split: bool.splits pstat.splits if_splits)
qed

lemma psignal_ok:
  assumes ok: "sched_ok s" and i: "intr_ok s"
  shows "\<exists>s'. psignal p sig s = Ok s' \<and> sched_ok s'"
  unfolding psignal_rec[of p sig s]
proof (rule psignal_with_ok[OF ok])
  fix t assume t: "has_prop sig SA_STOP" "sched_ok t" "p_stat (procs t p) = SSLEEP"
    "p_stat (procs s p) = SSLEEP" "flagged P_SINTR (procs s p)" "p_wchan (procs t p) = p_wchan (procs s p)"
  let ?r = "p_pptr (procs s p)"
  have d: "p \<noteq> ?r" "p_wchan (procs t p) \<noteq> RUNOUT" using i t by (auto simp: intr_ok_def)
  obtain t' where t': "psignal ?r SIGCHLD t = Ok t'" "sched_ok t'"
    unfolding psignal_rec[of ?r SIGCHLD t] using psignal_with_ok[OF t(2), of SIGCHLD] sigchld_nostop(1) by blast
  have "procs t' p = procs t p" by (rule psignal_chld_others[OF t(2) t'(1) d])
  then show "\<exists>t'. psignal ?r SIGCHLD t = Ok t' \<and> sched_ok t' \<and> p \<notin> set (qs t')"
    using t' t(3) not_running_not_queued[OF t'(2), of p] by auto
qed

section \<open>The masks stay as they are\<close>

definition same_masks :: "ksched \<Rightarrow> ksched \<Rightarrow> bool" where
  "same_masks s s' \<longleftrightarrow> u_procp s' = u_procp s \<and> (\<forall>r. p_sigmask (procs s' r) = p_sigmask (procs s r) \<and>
     p_sigignore (procs s' r) = p_sigignore (procs s r) \<and> p_sigcatch (procs s' r) = p_sigcatch (procs s r))"

lemma same_masks_trans: "same_masks s t \<Longrightarrow> same_masks t r \<Longrightarrow> same_masks s r"
  by (simp add: same_masks_def)

lemma same_sig_masks: "same_sig s s' \<Longrightarrow> same_masks s s'"
  by (simp add: same_masks_def same_sigD)

lemma post_frame_masks: "post_frame p s s' \<Longrightarrow> same_masks s s'"
  by (simp add: same_masks_def post_frameD)

lemma stop_masks: "stop p s = Ok s' \<Longrightarrow> same_masks s s'"
proof -
  assume "stop p s = Ok s'"
  then have "same_masks (upd_proc p (\<lambda>q. q\<lparr>p_stat := SSTOP, p_flag := p_flag q AND NOT P_WAITED\<rparr>) s) s'"
    unfolding stop_def by (rule same_sig_masks[OF wakeup_sig])
  moreover have "same_masks s (upd_proc p (\<lambda>q. q\<lparr>p_stat := SSTOP, p_flag := p_flag q AND NOT P_WAITED\<rparr>) s)"
    by (simp add: same_masks_def)
  ultimately show ?thesis by (rule same_masks_trans[rotated])
qed

lemma psig_clear_masks: "same_masks s (psig_clear p m s)"
  by (simp add: same_masks_def psig_clear_def)

lemma psig_sleeping_masks:
  assumes "psig_sleeping notify a p sig s = Ok s'" "\<And>r t t'. notify r t = Ok t' \<Longrightarrow> same_masks t t'"
  shows "same_masks s s'"
proof -
  let ?s1 = "upd_proc p (\<lambda>q. q\<lparr>p_ptracesig := int sig\<rparr>) (psig_clear p (sigmask sig) s)"
  have s1: "same_masks s ?s1" by (simp add: same_masks_def psig_clear_def)
  have st: "same_masks s t" if "obind (if b then notify r ?s1 else Ok ?s1) (stop p) = Ok t" for b r t
    using that s1 assms(2) stop_masks same_masks_trans unfolding obind_Ok_iff
    by (cases b) (simp_all del: upd_proc_simps, blast+)
  have run: "same_masks s t" if "psig_run p s = Ok t" for t using same_sig_masks[OF psig_run_sig[OF that]] .
  have self: "same_masks s s" by (simp add: same_masks_def)
  show ?thesis
    using assms(1) st run self psig_clear_masks unfolding psig_sleeping_def Let_def
    by (auto simp del: upd_proc_simps split: if_splits)
qed

lemma psig_stopped_masks:
  assumes "psig_stopped a p sig s = Ok s'"
  shows "same_masks s s'"
proof -
  let ?s1 = "if a = A_DFL then psig_clear p (sigmask sig) s else s"
  have self: "same_masks s s" by (simp add: same_masks_def)
  have s1: "same_masks s ?s1" using psig_clear_masks self by simp
  have run: "same_masks t t'" if "psig_run p t = Ok t'" for t t' using same_sig_masks[OF psig_run_sig[OF that]] .
  have run1: "same_masks s t" if "psig_run p ?s1 = Ok t" for t using same_masks_trans[OF s1 run[OF that]] .
  have sl: "same_masks s (upd_proc p (\<lambda>q. q\<lparr>p_stat := SSLEEP\<rparr>) ?s1)"
    by (rule same_masks_trans[OF s1]) (simp add: same_masks_def)
  have un: "same_masks s t" if "unsleep p s = Ok t" for t using same_sig_masks[OF unsleep_sig[OF that]] .
  show ?thesis
    using assms run run1 sl un self psig_clear_masks unfolding psig_stopped_def Let_def
    by (auto simp del: upd_proc_simps split del: if_split split: if_splits)
qed

lemma psignal_with_masks:
  assumes "psignal_with notify p sig s = Ok s'" "\<And>r t t'. notify r t = Ok t' \<Longrightarrow> same_masks t t'"
  shows "same_masks s s'"
proof -
  obtain b s1 where p: "psig_post p sig s = (b, s1)" by fastforce
  have fr: "same_masks s s1" by (rule post_frame_masks[OF psig_post_frame[OF p]])
  have self: "same_masks s s" by (simp add: same_masks_def)
  have "same_masks s1 t" if "psig_sleeping notify a p sig s1 = Ok t" for a t
    by (rule psig_sleeping_masks[OF that]) (rule assms(2))
  then have "same_masks s t" if "psig_sleeping notify a p sig s1 = Ok t \<or> psig_stopped a p sig s1 = Ok t" for a t
    using that psig_stopped_masks fr same_masks_trans by blast
  then show ?thesis
    using assms(1) fr self unfolding psignal_with_def Let_def p
    by (auto split: bool.splits pstat.splits if_splits)
qed

lemma psignal_masks: "psignal p sig s = Ok s' \<Longrightarrow> same_masks s s'"
  unfolding psignal_def by (rule psignal_with_masks) (auto elim: psignal_with_masks)

section \<open>SIGKILL and SIGSTOP\<close>

definition cant_ok :: "proc \<Rightarrow> bool" where
  "cant_ok q \<longleftrightarrow> p_sigmask q AND sigcantmask = 0 \<and> p_sigignore q AND sigcantmask = 0 \<and>
     p_sigcatch q AND sigcantmask = 0"

lemma sigcant_val: "sigcantmask = 0x10100"
  by (simp add: sigcantmask_def sigmask_def)

lemma kill_props: "has_prop SIGKILL SA_KILL" "\<not> has_prop SIGKILL SA_CONT" "\<not> has_prop SIGKILL SA_STOP"
  by (simp_all add: has_prop_def sigprop_def)

lemma and_cant_kill: "x AND sigcantmask = 0 \<Longrightarrow> x AND sigmask SIGKILL = 0"
proof -
  have "x AND sigmask SIGKILL = x AND sigcantmask AND sigmask SIGKILL"
    by (rule bit_word_eqI) (auto simp: sigcantmask_def bit_simps)
  then show "x AND sigcantmask = 0 \<Longrightarrow> ?thesis" by (simp flip: and.assoc)
qed

lemma cant_kill_action: "cant_ok q \<Longrightarrow> sig_action q (sigmask SIGKILL) = A_DFL \<and> p_sigignore q AND sigmask SIGKILL = 0"
  by (simp add: cant_ok_def sig_action_def and_cant_kill)

lemma psig_post_kill:
  assumes "cant_ok (procs s p)"
  shows "\<exists>s1. psig_post p SIGKILL s = (True, s1) \<and> p_sig (procs s1 p) = p_sig (procs s p) OR sigmask SIGKILL"
  using cant_kill_action[OF assms] by (simp add: psig_post_def Let_def kill_props)

lemma psignal_kill:
  assumes ok: "sched_ok s" and c: "cant_ok (procs s p)" and tr: "\<not> flagged P_TRACED (procs s p)"
  shows "\<exists>s'. psignal p SIGKILL s = Ok s' \<and> sched_ok s' \<and>
    p_sig (procs s' p) = p_sig (procs s p) OR sigmask SIGKILL \<and>
    (p_stat (procs s p) = SSTOP \<or> p_stat (procs s p) = SSLEEP \<and> flagged P_SINTR (procs s p) \<longrightarrow>
       p_stat (procs s' p) = SRUN) \<and>
    (p_stat (procs s p) = SSLEEP \<and> \<not> flagged P_SINTR (procs s p) \<longrightarrow> p_stat (procs s' p) = SSLEEP)"
proof -
  obtain s1 where p: "psig_post p SIGKILL s = (True, s1)"
    and sg: "p_sig (procs s1 p) = p_sig (procs s p) OR sigmask SIGKILL" using psig_post_kill[OF c] by blast
  note fr = psig_post_frame[OF p]
  have s1: "sched_ok s1" "p_stat (procs s1 p) = p_stat (procs s p)"
      "flagged f (procs s1 p) = flagged f (procs s p)" for f
    using post_frame_ok[OF fr ok] post_frameD[OF fr] by (simp_all add: flagged_def)
  have run: "\<exists>t. psig_run p s1 = Ok t \<and> sched_ok t \<and> p_sig (procs t p) = p_sig (procs s p) OR sigmask SIGKILL \<and>
      p_stat (procs t p) = SRUN" if "p_stat (procs s p) \<in> {SSLEEP, SSTOP}"
    using psig_run_ok[OF s1(1), of p] that s1(2) psig_run_sig same_sigD(1) sg by metis
  show ?thesis
    unfolding psignal_def psignal_with_def Let_def p psig_sleeping_def psig_stopped_def
    using cant_kill_action[OF c] tr run s1 sg kill_props
    by (cases "p_stat (procs s p)") simp_all
qed

end
