(* ===== verification/Sig_Take.thy ===== *)
theory Sig_Take
  imports Sig_Props
begin

text \<open>
  Taking signals and the signal system calls: \<^verbatim>\<open>issignal\<close> ends within one pass per pending signal
  and returns the lowest signal that may be delivered, and no sequence of system calls lets a
  process hold, ignore or catch \<^verbatim>\<open>SIGKILL\<close> or \<^verbatim>\<open>SIGSTOP\<close>. The properties of the signal
  component are at the end.
\<close>

section \<open>Signal numbers and bits\<close>

lemma ffs_spec:
  assumes "w \<noteq> 0"
  shows "0 < ffs w" "ffs w \<le> 32" "bit w (ffs w - 1)" "\<And>j. j < ffs w - 1 \<Longrightarrow> \<not> bit w j"
proof -
  have "\<exists>i<32. bit w i"
    using assms bit_eq_iff[of w 0] bit_imp_le_length[of w] by (auto simp: bit_simps)
  then obtain i where i: "find (bit w) [0..<32] = Some i"
    by (cases "find (bit w) [0..<32]") (auto simp: find_None_iff)
  then have "i < 32" "bit w i" "\<And>j. j < i \<Longrightarrow> \<not> bit w j"
    unfolding find_Some_iff by auto
  then show "0 < ffs w" "ffs w \<le> 32" "bit w (ffs w - 1)" "\<And>j. j < ffs w - 1 \<Longrightarrow> \<not> bit w j"
    using i by (simp_all add: ffs_def)
qed

lemma bit_sigmask: "0 < sig \<Longrightarrow> sig \<le> 32 \<Longrightarrow> bit (sigmask sig) j \<longleftrightarrow> j = sig - 1"
  by (auto simp: sigmask_def bit_simps)

lemma sigmask_and:
  assumes "0 < sig" "sig \<le> 32"
  shows "x AND sigmask sig = 0 \<longleftrightarrow> \<not> bit x (sig - 1)"
proof
  assume "x AND sigmask sig = 0"
  then have "\<not> bit (x AND sigmask sig) (sig - 1)" by simp
  then show "\<not> bit x (sig - 1)" using assms by (simp add: bit_and_iff bit_sigmask)
next
  assume "\<not> bit x (sig - 1)"
  then show "x AND sigmask sig = 0" using assms by (intro bit_word_eqI) (auto simp: bit_and_iff bit_sigmask)
qed

text \<open>The number of pending signals bounds the passes of \<^verbatim>\<open>issignal\<close>.\<close>

definition nbits :: "u32 \<Rightarrow> nat" where
  "nbits w = card {i. i < 32 \<and> bit w i}"

lemma nbits_le: "nbits w \<le> 32"
  using card_mono[of "{..<32}" "{i. i < 32 \<and> bit w i}"] by (auto simp: nbits_def)

lemma nbits_clear:
  assumes "0 < sig" "sig \<le> 32" "bit w (sig - 1)"
  shows "nbits (w AND NOT (sigmask sig)) < nbits w"
proof -
  have "{i. i < 32 \<and> bit (w AND NOT (sigmask sig)) i} = {i. i < 32 \<and> bit w i} - {sig - 1}"
    using assms by (auto simp: bit_and_iff bit_not_iff bit_sigmask)
  moreover have "card ({i. i < 32 \<and> bit w i} - {sig - 1}) < card {i. i < 32 \<and> bit w i}"
    using assms by (intro card_Diff1_less) auto
  ultimately show ?thesis by (simp add: nbits_def)
qed

section \<open>issignal\<close>

text \<open>
  What a pass may assume: the queues are consistent and the process is the running one, on no
  queue, with another process as its parent.
\<close>

definition taking :: "nat \<Rightarrow> ksched \<Rightarrow> bool" where
  "taking p s \<longleftrightarrow> sched_ok s \<and> intr_ok s \<and> p \<notin> set (qs s) \<and> p_wchan (procs s p) = 0 \<and>
     p_stat (procs s p) = SRUN \<and> p_pptr (procs s p) \<noteq> p"

lemma taking_clear: "taking p s \<Longrightarrow> taking p (psig_clear p m s)"
proof -
  assume t: "taking p s"
  then have "sched_ok (psig_clear p m s)" using psig_clear_ok by (simp add: taking_def)
  moreover have "intr_ok (psig_clear p m s)"
    using t by (auto simp: taking_def intr_ok_def psig_clear_def flagged_def)
  ultimately show ?thesis using t by (simp add: taking_def psig_clear_def)
qed

text \<open>A process that was running before stays off the run queue while others are made ready.\<close>

definition calm :: "ksched \<Rightarrow> ksched \<Rightarrow> bool" where
  "calm s s' \<longleftrightarrow> (\<forall>x. p_stat (procs s x) = SRUN \<longrightarrow>
     p_stat (procs s' x) = SRUN \<and> (x \<in> set (qs s') \<longleftrightarrow> x \<in> set (qs s)))"

lemma calm_trans: "calm s t \<Longrightarrow> calm t r \<Longrightarrow> calm s r"
  by (simp add: calm_def)

lemma calm_cong:
  "qs s' = qs s \<Longrightarrow> (\<And>x. p_stat (procs s' x) = p_stat (procs s x)) \<Longrightarrow> calm s s'"
  by (simp add: calm_def)

lemma calm_refl [simp]: "calm s s"
  by (simp add: calm_def)

lemma updatepri_calm: "calm s (updatepri p s)"
  using updatepri_frame[of p s] by (intro calm_cong) (auto simp: pri_frame_def)

lemma ready_calm:
  assumes "calm s t" "p_stat (procs s p) \<noteq> SRUN"
  shows "calm s (if loaded (procs t p) then setrq p (upd_proc p (\<lambda>q. q\<lparr>p_slptime := a, p_stat := SRUN\<rparr>) t)
     else upd_proc p (\<lambda>q. q\<lparr>p_slptime := a, p_stat := SRUN\<rparr>) t)"
  using assms by (auto simp: calm_def setrq_def)

lemma wake_run_calm:
  assumes "calm s t" "p_stat (procs s p) \<noteq> SRUN"
  shows "calm s (wake_run p t)"
proof -
  let ?t = "if p_slptime (procs t p) > 1 then updatepri p t else t"
  have t: "calm s ?t" using assms(1) calm_trans updatepri_calm by simp
  then show ?thesis
    using assms(2) unfolding wake_run_def calm_def by (auto simp: Let_def setrq_def)
qed

lemma wakeup_loop_calm: "wakeup_loop n chan i s = Some (Ok s') \<Longrightarrow> calm s s'"
proof (induction n arbitrary: chan i s s')
  case (Suc n)
  let ?p = "slpque s (HASH chan) ! i"
  let ?s1 = "upd_proc ?p (\<lambda>r. r\<lparr>p_wchan := 0\<rparr>) (s\<lparr>slpque := (slpque s)(HASH chan :=
     take i (slpque s (HASH chan)) @ drop (Suc i) (slpque s (HASH chan)))\<rparr>)"
  have s1: "calm s ?s1" by (rule calm_cong) auto
  have s2: "calm s (wake_run ?p ?s1)" if "p_stat (procs s ?p) = SSLEEP" using wake_run_calm[OF s1] that by simp
  have s2': "calm s ((wake_run ?p ?s1)\<lparr>runout := False\<rparr>)" if "p_stat (procs s ?p) = SSLEEP"
    using s2[OF that] by (simp add: calm_def)
  have s3: "calm s (upd_proc ?p (\<lambda>r. r\<lparr>p_slptime := 0\<rparr>) ?s1)" by (rule calm_cong) auto
  have st: "p_stat (procs ?s1 ?p) = p_stat (procs s ?p)" by simp
  show ?case
    using Suc.prems Suc.IH calm_trans[OF s2] calm_trans[OF s2'] calm_trans[OF s3]
    by (auto simp: Let_def st simp del: upd_proc_simps split: if_splits option.splits outcome.splits)
      (blast intro: calm_trans)+
qed simp

lemma wakeup_calm: "wakeup chan s = Ok s' \<Longrightarrow> calm s s'"
  by (auto simp: wakeup_def split: option.splits dest: wakeup_loop_calm)

lemma unsleep_calm: "unsleep p s = Ok s' \<Longrightarrow> calm s s'"
  by (rule calm_cong) (auto simp: unsleep_def Let_def split: if_splits)

lemma setrun_calm:
  assumes "setrun p s = Ok s'"
  shows "calm s s'"
proof -
  from assms obtain s1 where s1: "(case p_stat (procs s p) of
      SSTOP \<Rightarrow> unsleep p s | SSLEEP \<Rightarrow> unsleep p s | SIDL \<Rightarrow> Ok s | _ \<Rightarrow> Panic ''setrun'') = Ok s1"
    by (auto simp: setrun_def obind_Ok_iff)
  then have a: "calm s s1" and st: "p_stat (procs s p) \<noteq> SRUN"
    by (auto split: pstat.splits dest: unsleep_calm)
  define s2 where "s2 = (if p_slptime (procs s1 p) > 1 then updatepri p s1 else s1)"
  have b: "calm s s2" using a updatepri_calm calm_trans by (auto simp: s2_def)
  define s4 where "s4 = (let s3 = upd_proc p (\<lambda>q. q\<lparr>p_stat := SRUN\<rparr>) s2 in
      if loaded (procs s3 p) then setrq p s3 else s3)"
  have c: "calm s s4" using b st by (auto simp: s4_def calm_def setrq_def Let_def)
  define s5 where "s5 = (if p_pri (procs s4 p) < curpri s4 then s4\<lparr>runrun := runrun s4 + 1\<rparr> else s4)"
  have e: "calm s s5" using c by (simp add: s5_def calm_def)
  have "(if \<not> loaded (procs s5 p) \<and> runout s5 then wakeup RUNOUT (s5\<lparr>runout := False\<rparr>) else Ok s5) = Ok s'"
    using assms[unfolded setrun_def s1 obind.simps Let_def] unfolding s5_def s4_def s2_def Let_def .
  moreover have "calm s (s5\<lparr>runout := False\<rparr>)" using e by (simp add: calm_def)
  ultimately show ?thesis using e wakeup_calm calm_trans by (metis outcome.inject(1))
qed

lemma psig_run_calm: "psig_run p s = Ok s' \<Longrightarrow> calm s s'"
proof -
  assume a: "psig_run p s = Ok s'"
  let ?s = "if p_pri (procs s p) > PUSER then upd_proc p (\<lambda>q. q\<lparr>p_pri := PUSER\<rparr>) s else s"
  have "calm s ?s" by (rule calm_cong) auto
  then show ?thesis using setrun_calm a calm_trans unfolding psig_run_def by blast
qed

lemma psignal_chld_calm:
  assumes "psignal r SIGCHLD s = Ok s'"
  shows "calm s s'"
proof -
  obtain b s1 where ps: "psig_post r SIGCHLD s = (b, s1)" by fastforce
  note fr = psig_post_frame[OF ps]
  have c: "calm s s1" using post_frameD[OF fr] by (intro calm_cong) auto
  have st: "p_stat (procs s1 r) = p_stat (procs s r)" using post_frameD[OF fr] by blast
  have run: "calm s t" if "psig_run r s1 = Ok t \<or> unsleep r s1 = Ok t" for t
    using that c psig_run_calm unsleep_calm calm_trans by blast
  note no = sigchld_nostop
  show ?thesis
    using assms run c
    unfolding psignal_def psignal_with_def Let_def ps psig_sleeping_def psig_stopped_def
    by (auto simp: no simp del: upd_proc_simps split: bool.splits pstat.splits if_splits)
qed

text \<open>Telling the parent and stopping works for a process that is taking a signal.\<close>

lemma stop_stat:
  assumes "sched_ok s" "p \<notin> set (qs s)" "p_wchan (procs s p) = 0" "stop p s = Ok s'"
  shows "p_stat (procs s' p) = SSTOP"
proof -
  let ?s = "upd_proc p (\<lambda>q. q\<lparr>p_stat := SSTOP, p_flag := p_flag q AND NOT P_WAITED\<rparr>) s"
  have "sched_ok ?s" using assms(1,2) loaded_nowaited by (intro sched_ok_stop) (auto simp: loaded_def)
  moreover have "procaddr (p_pptr (procs s p)) \<noteq> 0" by (simp add: procaddr_def)
  ultimately have "wakeup_post (procaddr (p_pptr (procs s p))) ?s s'"
    using wakeup_ok[of ?s "procaddr (p_pptr (procs s p))"] assms(4) by (auto simp: stop_def)
  then show ?thesis using assms(3) by (auto simp: wakeup_post_def woke_def split: if_splits)
qed

lemma notify_stop:
  assumes t: "taking p s"
  shows "\<exists>s'. obind (if b then psignal (p_pptr (procs s p)) SIGCHLD s else Ok s) (stop p) = Ok s' \<and>
    sched_ok s' \<and> p_stat (procs s' p) = SSTOP"
proof -
  have s: "sched_ok s" "intr_ok s" "p \<notin> set (qs s)" "p_wchan (procs s p) = 0" "p_stat (procs s p) = SRUN"
    "p \<noteq> p_pptr (procs s p)" using t by (auto simp: taking_def)
  have "\<exists>s1. (if b then psignal (p_pptr (procs s p)) SIGCHLD s else Ok s) = Ok s1 \<and> sched_ok s1 \<and>
      p \<notin> set (qs s1) \<and> p_wchan (procs s1 p) = 0"
  proof (cases b)
    case True
    obtain s1 where s1: "psignal (p_pptr (procs s p)) SIGCHLD s = Ok s1" "sched_ok s1"
      using psignal_ok[OF s(1,2)] by blast
    have "procs s1 p = procs s p"
      by (rule psignal_chld_others[OF s(1) s1(1) s(6)]) (simp add: s(4) RUNOUT_def)
    moreover have "p \<notin> set (qs s1)" using psignal_chld_calm[OF s1(1)] s(3,5) by (simp add: calm_def)
    ultimately show ?thesis using True s1 s(4) by auto
  qed (use s in auto)
  then show ?thesis using stop_ok stop_stat by fastforce
qed

text \<open>
  The result of a pass: what is delivered is the lowest pending signal that is neither held nor
  ignored and has an action; going round again has taken a pending signal away.
\<close>

definition pass_ok :: "(nat \<Rightarrow> nat) \<Rightarrow> nat \<Rightarrow> issig \<Rightarrow> ksched \<Rightarrow> bool" where
  "pass_ok usig p r s' \<longleftrightarrow>
     (case r of
        Deliver sig \<Rightarrow>
          (if sig = 0 then issig_pending (procs s' p) = 0
           else sig \<le> 32 \<and> bit (p_sig (procs s' p)) (sig - 1) \<and> \<not> bit (p_sigmask (procs s' p)) (sig - 1) \<and>
             (\<forall>j < sig - 1. \<not> bit (issig_pending (procs s' p)) j) \<and> usig sig \<noteq> 1 \<and>
             (flagged P_TRACED (procs s' p) \<or> \<not> bit (p_sigignore (procs s' p)) (sig - 1)) \<and>
             (usig sig = 0 \<longrightarrow> \<not> has_prop sig SA_STOP \<and> \<not> has_prop sig SA_IGNORE \<and> 1 < p_pid (procs s' p)))
      | Again \<Rightarrow> False
      | _ \<Rightarrow> sched_ok s' \<and> p_stat (procs s' p) = SSTOP)"

lemma issig_pending_bit:
  "bit (issig_pending q) j \<Longrightarrow> bit (p_sig q) j \<and> \<not> bit (p_sigmask q) j"
  by (auto simp: issig_pending_def Let_def bit_and_iff bit_not_iff split: if_splits)

lemma issig_act_ok:
  assumes t: "taking p s" and sig: "0 < sig" "sig \<le> 32" "bit (issig_pending (procs s p)) (sig - 1)"
    and low: "\<forall>j < sig - 1. \<not> bit (issig_pending (procs s p)) j"
    and ign: "flagged P_TRACED (procs s p) \<or> \<not> bit (p_sigignore (procs s p)) (sig - 1)"
  shows "\<exists>r s'. issig_act usig p sig s = Ok (r, s') \<and>
    (r = Again \<and> s' = psig_clear p (sigmask sig) s \<or> pass_ok usig p r s')"
proof -
  let ?s1 = "upd_proc p (\<lambda>q. q\<lparr>p_ptracesig := int sig\<rparr>) s"
  have t1: "taking p ?s1"
    using t by (auto simp: taking_def intr_ok_def flagged_def intro!: sched_ok_upd)
  have pp: "p_pptr (procs ?s1 p) = p_pptr (procs s p)" by simp
  have nst: "\<exists>s'. obind (if b then psignal (p_pptr (procs s p)) SIGCHLD ?s1 else Ok ?s1)
      (\<lambda>s2. omap (\<lambda>s3. (StopDefault m, s3)) (stop p s2)) = Ok (StopDefault m, s') \<and>
      sched_ok s' \<and> p_stat (procs s' p) = SSTOP" for b m
    using notify_stop[OF t1, of b] unfolding pp omap_def by (auto simp: obind_Ok_iff)
  have del: "pass_ok usig p (Deliver sig) s"
    if "usig sig \<noteq> 1" "usig sig = 0 \<longrightarrow> \<not> has_prop sig SA_STOP \<and> \<not> has_prop sig SA_IGNORE \<and> 1 < p_pid (procs s p)"
    using that sig low ign issig_pending_bit[OF sig(3)] by (auto simp: pass_ok_def)
  define P where "P m \<longleftrightarrow> (\<exists>r s'. m = Ok (r, s') \<and>
      (r = Again \<and> s' = psig_clear p (sigmask sig) s \<or> pass_ok usig p r s'))" for m
  have tk: "P (Ok (Again, psig_clear p (sigmask sig) s))" by (simp add: P_def)
  have dl: "P (Ok (Deliver sig, s))" if "usig sig \<noteq> 1" "usig sig = 0 \<longrightarrow> \<not> has_prop sig SA_STOP \<and>
      \<not> has_prop sig SA_IGNORE \<and> \<not> p_pid (procs s p) \<le> 1"
    using del[OF that(1)] that(2) unfolding P_def by (auto simp: not_le)
  have st: "P (obind (if b then psignal (p_pptr (procs s p)) SIGCHLD ?s1 else Ok ?s1)
      (\<lambda>s2. omap (\<lambda>s3. (StopDefault m, s3)) (stop p s2)))" for b m
    unfolding P_def using nst[of b m] by (auto simp: pass_ok_def simp del: upd_proc_simps)
  have "P (issig_act usig p sig s)"
    unfolding issig_act_def Let_def
    by (simp only: tk dl st if_split simp_thms zero_neq_one not_True_eq_False) (use tk dl st in auto)
  then show ?thesis by (simp add: P_def)
qed

lemma issig_pass_ok:
  assumes t: "taking p s"
  shows "\<exists>r s'. issig_pass usig p s = Ok (r, s') \<and>
    (r = Again \<and> taking p s' \<and> nbits (p_sig (procs s' p)) < nbits (p_sig (procs s p)) \<or> pass_ok usig p r s')"
proof (cases "issig_pending (procs s p) = 0")
  case True then show ?thesis by (simp add: issig_pass_def Let_def pass_ok_def)
next
  case False
  let ?m = "issig_pending (procs s p)" let ?sig = "ffs ?m"
  note f = ffs_spec[OF False]
  have b: "bit (p_sig (procs s p)) (?sig - 1)" using issig_pending_bit[OF f(3)] by blast
  have clr: "taking p (psig_clear p (sigmask ?sig) s)"
    "nbits (p_sig (procs (psig_clear p (sigmask ?sig) s) p)) < nbits (p_sig (procs s p))"
    using taking_clear[OF t] nbits_clear[OF f(1,2) b] by (simp_all add: psig_clear_def)
  let ?s1 = "upd_proc p (\<lambda>q. q\<lparr>p_ptracesig := int ?sig\<rparr>) (psig_clear p (sigmask ?sig) s)"
  have t1: "taking p ?s1" "p_pptr (procs ?s1 p) = p_pptr (procs s p)"
    using clr(1) by (auto simp: taking_def intr_ok_def flagged_def psig_clear_def intro!: sched_ok_upd)
  have tr: "\<exists>s'. obind (psignal (p_pptr (procs s p)) SIGCHLD ?s1) (\<lambda>s2. omap (\<lambda>s3. (StopTraced, s3)) (stop p s2)) =
      Ok (StopTraced, s') \<and> sched_ok s' \<and> p_stat (procs s' p) = SSTOP"
    using notify_stop[OF t1(1), of True] unfolding t1(2) omap_def by (auto simp: obind_Ok_iff)
  have ig: "sigmask ?sig AND p_sigignore (procs s p) = 0 \<longleftrightarrow> \<not> bit (p_sigignore (procs s p)) (?sig - 1)"
    using sigmask_and[OF f(1,2)] by (metis and.commute)
  have act: "\<exists>r s'. issig_act usig p ?sig s = Ok (r, s') \<and>
      (r = Again \<and> s' = psig_clear p (sigmask ?sig) s \<or> pass_ok usig p r s')"
    if "flagged P_TRACED (procs s p) \<or> \<not> bit (p_sigignore (procs s p)) (?sig - 1)"
    using issig_act_ok[OF t f(1-3) _ that] f(4) by blast
  consider (ign) "sigmask ?sig AND p_sigignore (procs s p) \<noteq> 0 \<and> \<not> flagged P_TRACED (procs s p)"
    | (tr) "flagged P_TRACED (procs s p) \<and> \<not> flagged SVFORK (procs s p)"
    | (act) "\<not> (sigmask ?sig AND p_sigignore (procs s p) \<noteq> 0 \<and> \<not> flagged P_TRACED (procs s p))"
      "\<not> (flagged P_TRACED (procs s p) \<and> \<not> flagged SVFORK (procs s p))" by blast
  then show ?thesis
  proof cases
    case ign
    then show ?thesis using clr False by (simp add: issig_pass_def Let_def)
  next
    case tr
    then show ?thesis using \<open>\<exists>s'. obind (psignal _ _ _) _ = _ \<and> _\<close> False
      by (auto simp: issig_pass_def Let_def pass_ok_def simp del: upd_proc_simps)
  next
    case act
    have "issig_pass usig p s = issig_act usig p ?sig s"
      using act False unfolding issig_pass_def Let_def by presburger
    then show ?thesis using \<open>_ \<Longrightarrow> \<exists>r s'. issig_act usig p ?sig s = Ok (r, s') \<and> _\<close> act(1) clr ig by auto
  qed
qed

lemma issignal_enough:
  "taking p s \<Longrightarrow> nbits (p_sig (procs s p)) < n \<Longrightarrow> \<exists>r s'. issignal n usig p s = Some (Ok (r, s')) \<and> pass_ok usig p r s'"
proof (induction n arbitrary: s)
  case (Suc n)
  obtain r s1 where r: "issig_pass usig p s = Ok (r, s1)"
    "r = Again \<and> taking p s1 \<and> nbits (p_sig (procs s1 p)) < nbits (p_sig (procs s p)) \<or> pass_ok usig p r s1"
    using issig_pass_ok[OF Suc.prems(1)] by blast
  show ?case
  proof (cases "r = Again")
    case True
    then show ?thesis using r Suc.IH[of s1] Suc.prems(2) by (auto simp: pass_ok_def)
  next
    case False
    then show ?thesis using r by (cases r) auto
  qed
qed simp

section \<open>The signal system calls\<close>

definition cant0 :: "u32 \<Rightarrow> bool" where "cant0 x \<longleftrightarrow> x AND sigcantmask = 0"

lemma cant0_bits: "cant0 x \<longleftrightarrow> \<not> bit x 8 \<and> \<not> bit x 16"
  using sigmask_and[of 9 x] sigmask_and[of 17 x]
  by (simp add: cant0_def sigcantmask_def bit.conj_disj_distrib or_eq_0_iff)

lemma cant0_simps [simp]:
  "cant0 (x OR y) \<longleftrightarrow> cant0 x \<and> cant0 y" "cant0 x \<Longrightarrow> cant0 (x AND NOT y)" "cant0 (x AND NOT sigcantmask)"
  "cant0 0"
  by (auto simp: cant0_bits bit_simps sigcantmask_def sigmask_def)

lemma cant0_sigmask: "n \<noteq> SIGKILL \<Longrightarrow> n \<noteq> SIGSTOP \<Longrightarrow> cant0 (sigmask n)"
  by (auto simp: cant0_bits sigmask_def bit_simps)

lemma cant_ok_cant0: "cant_ok q \<longleftrightarrow> cant0 (p_sigmask q) \<and> cant0 (p_sigignore q) \<and> cant0 (p_sigcatch q)"
  by (simp add: cant_ok_def cant0_def)

text \<open>The invariant of the user area: the two signals are at their default action everywhere.\<close>

definition usig_ok :: "ksig \<Rightarrow> bool" where
  "usig_ok s \<longleftrightarrow> cant_ok (curproc s) \<and> (\<forall>n. cant0 (u_sigmask s n)) \<and> u_signal s SIGKILL = 0 \<and>
     u_signal s SIGSTOP = 0 \<and> cant0 (u_oldmask s)"

lemma upd_cur_sel [simp]:
  "curproc (upd_cur f s) = f (curproc s)" "u_sigmask (upd_cur f s) = u_sigmask s"
  "u_signal (upd_cur f s) = u_signal s" "u_oldmask (upd_cur f s) = u_oldmask s"
  "u_procp (ks (upd_cur f s)) = u_procp (ks s)" "u_psflags (upd_cur f s) = u_psflags s"
  by (simp_all add: curproc_def upd_cur_def)

lemma curproc_upd [simp]:
  "curproc (s\<lparr>u_signal := a\<rparr>) = curproc s" "curproc (s\<lparr>u_sigmask := b\<rparr>) = curproc s"
  "curproc (s\<lparr>u_sigonstack := c\<rparr>) = curproc s" "curproc (s\<lparr>u_oldmask := d\<rparr>) = curproc s"
  "curproc (s\<lparr>u_psflags := e\<rparr>) = curproc s" "curproc (s\<lparr>u_sigstk := f\<rparr>) = curproc s"
  "curproc (s\<lparr>pcb_sigc := g\<rparr>) = curproc s" "curproc (s\<lparr>u_fpsaved := h\<rparr>) = curproc s"
  "curproc (s\<lparr>ru_nsignals := i\<rparr>) = curproc s" "curproc (t\<lparr>ks := (ks s)\<lparr>u_sigintr := j\<rparr>\<rparr>) = curproc s"
  "curproc (s\<lparr>u_acflag := k\<rparr>) = curproc s"
  by (simp_all add: curproc_def)

lemma setsigvec_ok:
  assumes "usig_ok s" "n \<noteq> SIGKILL" "n \<noteq> SIGSTOP"
  shows "usig_ok (setsigvec n sa s)"
  using assms cant0_sigmask[OF assms(2,3)] cant0_sigmask[of SIGCONT]
  by (simp add: usig_ok_def setsigvec_def Let_def cant_ok_cant0)

lemma sigaction_call_ok:
  assumes "usig_ok s" "sigaction_call tr n nsa osa s = (e, out, s')"
  shows "usig_ok s'"
proof -
  let ?s1 = "s\<lparr>pcb_sigc := tr\<rparr>"
  have s1: "usig_ok ?s1" using assms(1) by (simp add: usig_ok_def)
  have "s' = ?s1 \<or> (\<exists>sa. s' = setsigvec (nat n) sa ?s1 \<and> nat n \<noteq> SIGKILL \<and> nat n \<noteq> SIGSTOP)"
    using assms(2) unfolding sigaction_call_def Let_def by (auto split: if_splits option.splits sum.splits)
  then show ?thesis using s1 setsigvec_ok by blast
qed

lemma sigprocmask_ok:
  assumes "usig_ok s" "sigprocmask how nset oset s = (e, out, s')"
  shows "usig_ok s'"
  using assms by (auto simp: sigprocmask_def Let_def usig_ok_def cant_ok_cant0
      split: if_splits option.splits sum.splits)

lemma sigsuspend_ok: "usig_ok s \<Longrightarrow> usig_ok (sigsuspend nset g s)"
  by (simp add: sigsuspend_def Let_def usig_ok_def cant_ok_cant0)

lemma sigaltstack_ok:
  assumes "usig_ok s" "sigaltstack_call nss oss s = (e, out, s')"
  shows "usig_ok s'"
  using assms by (auto simp: sigaltstack_call_def Let_def usig_ok_def cant_ok_cant0
      split: if_splits option.splits sum.splits)

lemma sigstack_ok:
  assumes "usig_ok s" "sigstack nss oss s = (e, out, s')"
  shows "usig_ok s'"
  using assms by (auto simp: sigstack_def Let_def usig_ok_def cant_ok_cant0
      split: if_splits option.splits sum.splits)

lemma sigwait_ok:
  assumes "usig_ok s" "sigwait nset sp s = Some (e, out, s')"
  shows "usig_ok s'"
  using assms by (auto simp: sigwait_def Let_def usig_ok_def cant_ok_cant0
      split: if_splits option.splits sum.splits)

lemma postsig_ok:
  assumes "usig_ok s" "postsig d sig s = (r, s')"
  shows "usig_ok s'"
proof -
  have "u_signal s sig \<noteq> 0 \<Longrightarrow> cant0 (sigmask sig)" using assms(1) cant0_sigmask[of sig]
    by (cases "sig = SIGKILL \<or> sig = SIGSTOP") (auto simp: usig_ok_def)
  then show ?thesis
    using assms by (auto simp: postsig_def Let_def usig_ok_def cant_ok_cant0 split: if_splits)
qed

lemma posted_ok:
  assumes "usig_ok s" "psignal p sig (ks s) = Ok k"
  shows "usig_ok (s\<lparr>ks := k\<rparr>)"
  using assms(1) psignal_masks[OF assms(2)]
  by (simp add: usig_ok_def cant_ok_cant0 curproc_def same_masks_def)

lemma fatalsig_ok:
  assumes "usig_ok s" "fatalsig n s = Ok s'"
  shows "usig_ok s'"
proof -
  let ?m = "sigmask n"
  let ?s1 = "upd_cur (\<lambda>q. q\<lparr>p_sigignore := p_sigignore q AND NOT ?m, p_sigcatch := p_sigcatch q AND NOT ?m,
      p_sigmask := p_sigmask q AND NOT ?m\<rparr>) (s\<lparr>u_signal := (u_signal s)(n := 0)\<rparr>)"
  have "usig_ok ?s1" using assms(1) by (simp add: usig_ok_def cant_ok_cant0)
  moreover obtain k where "psignal (u_procp (ks ?s1)) n (ks ?s1) = Ok k" "s' = ?s1\<lparr>ks := k\<rparr>"
    using assms(2) by (auto simp: fatalsig_def Let_def omap_def obind_Ok_iff)
  ultimately show ?thesis using posted_ok by blast
qed

text \<open>What a process can do about its signals, and what others can do to it.\<close>

inductive sig_step :: "ksig \<Rightarrow> ksig \<Rightarrow> bool" where
  action: "sigaction_call tr n nsa osa s = (e, out, s') \<Longrightarrow> sig_step s s'"
| procmask: "sigprocmask how nset oset s = (e, out', s') \<Longrightarrow> sig_step s s'"
| suspend: "sig_step s (sigsuspend nset g s)"
| altstack: "sigaltstack_call nss oss s = (e, out'', s') \<Longrightarrow> sig_step s s'"
| stack: "sigstack nss' oss s = (e, outs, s') \<Longrightarrow> sig_step s s'"
| wait: "sigwait nset sp s = Some (e, signo, s') \<Longrightarrow> sig_step s s'"
| handle: "postsig d sig s = (r, s') \<Longrightarrow> sig_step s s'"
| fatal: "fatalsig n' s = Ok s' \<Longrightarrow> sig_step s s'"
| posted: "psignal p sig (ks s) = Ok k \<Longrightarrow> sig_step s (s\<lparr>ks := k\<rparr>)"

lemma sig_step_ok: "sig_step s s' \<Longrightarrow> usig_ok s \<Longrightarrow> usig_ok s'"
  by (induction rule: sig_step.induct)
    (auto intro: sigaction_call_ok sigprocmask_ok sigsuspend_ok sigaltstack_ok sigstack_ok sigwait_ok
      postsig_ok fatalsig_ok posted_ok)

lemma sig_run_ok: "sig_step\<^sup>*\<^sup>* s s' \<Longrightarrow> usig_ok s \<Longrightarrow> usig_ok s'"
  by (induction rule: rtranclp_induct) (auto intro: sig_step_ok)

section \<open>Permission\<close>

text \<open>
  The rule of \<^verbatim>\<open>kill(2)\<close>: the sender is the superuser, shares a real or effective user id with
  the receiver, or continues one of its descendants.
\<close>

definition may_signal :: "nat \<Rightarrow> nat \<Rightarrow> ksig \<Rightarrow> bool" where
  "may_signal p sig s \<longleftrightarrow>
     p_uid (curproc s) = 0 \<or>
     {p_uid (curproc s), u_ruids s (u_procp (ks s))} \<inter> {p_uid (procs (ks s) p), fill_ruid p s} \<noteq> {} \<or>
     sig = SIGCONT \<and> (\<exists>n. inferior n p (ks s) = Some True)"

lemma cansignal_may: "cansignal p sig s = Ok True \<Longrightarrow> may_signal p sig s"
  by (auto simp: cansignal_def may_signal_def Let_def simp del: inferior.simps split: if_splits option.splits)

lemma killpg1_loop_may:
  "killpg1_loop sig pg all ps e f s = Ok (e', f', s') \<Longrightarrow>
     s' = s \<or> sig \<noteq> 0 \<and> (\<exists>p\<in>set ps. may_signal p sig s \<and> (all \<or> p_pgrp (procs (ks s) p) = pg))"
proof (induction sig pg all ps e f s rule: killpg1_loop.induct)
  case (2 signo pgrp all p ps error f s)
  show ?case
  proof (cases "p_pgrp (procs (ks s) p) \<noteq> pgrp \<and> \<not> all \<or> p_ppid (procs (ks s) p) = 0 \<or>
      flagged SSYS (procs (ks s) p) \<or> all \<and> p = u_procp (ks s)")
    case True
    then show ?thesis using 2(1)[OF refl True] 2(4) by (auto simp: Let_def)
  next
    case False
    then obtain can where can: "cansignal p signo s = Ok can" using 2(4) by (auto simp: Let_def obind_Ok_iff)
    show ?thesis
    proof (cases can)
      case True
      show ?thesis
      proof (cases "signo = 0")
        case True
        have "s\<lparr>ks := ks s\<rparr> = s" by simp
        then show ?thesis using 2(3)[OF refl False, of True "ks s"] 2(4) can \<open>can\<close> False True by (auto simp: Let_def)
      next
        case False
        moreover have "may_signal p signo s" using cansignal_may can \<open>can\<close> by simp
        ultimately show ?thesis using \<open>\<not> (_ \<or> _)\<close> by auto
      qed
    next
      case False
      then show ?thesis using 2(2)[OF refl \<open>\<not> (_ \<or> _)\<close>, of False] 2(4) can \<open>\<not> (_ \<or> _)\<close> by (auto simp: Let_def)
    qed
  qed
qed simp

lemma killpg1_may:
  assumes "killpg1 sig pg all s = Ok (e, s')" "s' \<noteq> s"
  shows "sig \<noteq> 0 \<and> (\<exists>p\<in>set (allproc (ks s)). may_signal p sig s)"
  using assms by (auto simp: killpg1_def Let_def omap_def obind_Ok_iff split: if_splits dest!: killpg1_loop_may)

section \<open>Properties\<close>

text \<open>For the witnesses: one user process, stopped; and two with different owners.\<close>

definition stopped0 :: ksched where
  "stopped0 = boot\<lparr>procs := (procs boot)(0 := proc0\<lparr>p_stat := SSTOP, p_pptr := 1\<rparr>)\<rparr>"

definition usr :: "ksched \<Rightarrow> ksig" where
  "usr k = \<lparr>ks = k, pidhash = (\<lambda>h. if h = 14 then [3] else []), u_ruids = (\<lambda>p. 50), u_signal = (\<lambda>n. 0),
     u_sigmask = (\<lambda>n. 0), u_sigonstack = 0, u_oldmask = 0, u_psflags = 0,
     u_sigstk = \<lparr>ss_base = 0, ss_size = 0, ss_flags = 0\<rparr>, pcb_sigc = 0, u_fpsaved = False,
     u_acflag = 0, ru_nsignals = 0\<rparr>"

lemma stopped0_ok: "sched_ok stopped0" "intr_ok stopped0"
  by (rule sched_okI; simp add: stopped0_def boot_def proc0_def split: if_splits)
    (simp add: intr_ok_def stopped0_def boot_def proc0_def)

lemma usr_ok: "cant_ok (procs k (u_procp k)) \<Longrightarrow> usig_ok (usr k)"
  by (simp add: usig_ok_def usr_def curproc_def)






text \<open>A running process with \<^verbatim>\<open>SIGHUP\<close> and \<^verbatim>\<open>SIGTERM\<close> pending.\<close>

definition pend0 :: ksched where
  "pend0 = boot\<lparr>procs := (procs boot)(0 := proc0\<lparr>p_sig := 0x4001, p_pid := 30, p_pptr := 1\<rparr>)\<rparr>"



text \<open>Process 3, with process id 30, belongs to user 50; the caller is process 0.\<close>

definition two :: "int \<Rightarrow> ksched" where
  "two uid = boot\<lparr>procs := (procs boot)(0 := proc0\<lparr>p_uid := uid\<rparr>,
     3 := proc0\<lparr>p_uid := 50, p_pid := 30, p_ppid := 1, p_pptr := 1\<rparr>), qs := [3], allproc := [0, 3]\<rparr>"


end
