(* ===== verification/Clock.thy ===== *)
theory Clock
  imports Sig
begin

text \<open>
  The clock of \<^verbatim>\<open>sys/sys/kern_clock.c\<close>: the callout queue (\<^verbatim>\<open>timeout\<close>, \<^verbatim>\<open>untimeout\<close>, the tick in
  \<^verbatim>\<open>hardclock\<close>, the dispatch in \<^verbatim>\<open>softclock\<close>), the charging of time to the running process, the
  time of day, the statistics of \<^verbatim>\<open>gatherstats\<close> and the conversion \<^verbatim>\<open>hzto\<close>; and \<^verbatim>\<open>schedcpu\<close> of
  \<^verbatim>\<open>kern_synch.c\<close>, which runs from the callout queue once a second. The queue is a list of
  callouts with differential times: entries at the front with a time that is not positive are
  due, every later entry counts from the one before it. \<open>sched\<close> gives each entry its
  absolute remaining time; the lemmas state the operations in these terms.

  The linked lists \<^verbatim>\<open>calltodo\<close> and \<^verbatim>\<open>callfree\<close> are HOL lists; \<^verbatim>\<open>int\<close> fields are integers,
  with \<open>wrap16\<close> where the 16-bit arithmetic could leave its range.
\<close>

section \<open>State\<close>

record callout =
  c_time :: int
  c_arg :: nat
  c_func :: nat

record kclock =
  kp :: ksched
  calltodo :: "callout list"
  callfree :: "callout list"
  ru_utime :: int
  ru_stime :: int
  vt_value :: int
  vt_interval :: int
  pt_value :: int
  pt_interval :: int
  pr_base :: u16
  pr_size :: u16
  pr_off :: u16
  pr_scale :: u16
  cpu_cur :: int
  cpu_max :: int
  lbolt :: int
  adjdelta :: int
  tv_sec :: int
  noproc :: bool
  cp_time :: "int list"
  dk_busy :: u16
  dk_time :: "int list"
  addupcs :: "nat list"

definition SIGXCPU :: nat where "SIGXCPU = 24"
definition SIGVTALRM :: nat where "SIGVTALRM = 26"
definition SIGPROF :: nat where "SIGPROF = 27"
definition NZERO :: int where "NZERO = 0"

section \<open>The callout queue\<close>

text \<open>The insertion loop of \<^verbatim>\<open>timeout\<close>; \<open>t\<close> is what is left of the wanted time.\<close>

fun tmo_insert :: "callout list \<Rightarrow> callout \<Rightarrow> int \<Rightarrow> callout list" where
  "tmo_insert [] pnew t = [pnew\<lparr>c_time := t\<rparr>]"
| "tmo_insert (p2 # ps) pnew t =
     (if c_time p2 < t
      then p2 # tmo_insert ps pnew (if c_time p2 > 0 then t - c_time p2 else t)
      else pnew\<lparr>c_time := t\<rparr> # p2\<lparr>c_time := c_time p2 - t\<rparr> # ps)"

definition timeout :: "nat \<Rightarrow> nat \<Rightarrow> int \<Rightarrow> kclock \<Rightarrow> kclock outcome" where
  "timeout fn arg t0 s =
     (let t = (if t0 \<le> 0 then 1 else t0) in
      case callfree s of
        [] \<Rightarrow> Panic ''timeout table overflow''
      | pnew # fr \<Rightarrow>
          let pnew = pnew\<lparr>c_arg := arg, c_func := fn\<rparr>
          in Ok (s\<lparr>callfree := fr, calltodo := tmo_insert (calltodo s) pnew t\<rparr>))"

text \<open>The search and removal loop of \<^verbatim>\<open>untimeout\<close>: the removed entry and the rest.\<close>

fun untmo :: "nat \<Rightarrow> nat \<Rightarrow> callout list \<Rightarrow> callout option \<times> callout list" where
  "untmo fn arg [] = (None, [])"
| "untmo fn arg (p2 # ps) =
     (if c_func p2 = fn \<and> c_arg p2 = arg
      then (Some p2,
            case ps of [] \<Rightarrow> []
            | n # ps' \<Rightarrow> (if c_time p2 > 0 then n\<lparr>c_time := wrap16 (c_time n + c_time p2)\<rparr> else n) # ps')
      else let r = untmo fn arg ps in (fst r, p2 # snd r))"

definition untimeout :: "nat \<Rightarrow> nat \<Rightarrow> kclock \<Rightarrow> kclock" where
  "untimeout fn arg s =
     (case untmo fn arg (calltodo s) of
        (None, _) \<Rightarrow> s
      | (Some p2, q) \<Rightarrow> s\<lparr>calltodo := q, callfree := p2 # callfree s\<rparr>)"

text \<open>The loop of \<^verbatim>\<open>hardclock\<close> over the queue; the boolean is \<^verbatim>\<open>needsoft\<close>.\<close>

fun cq_tick :: "callout list \<Rightarrow> callout list \<times> bool" where
  "cq_tick [] = ([], False)"
| "cq_tick (p1 # ps) =
     (let t = wrap16 (c_time p1 - 1); p1' = p1\<lparr>c_time := t\<rparr>
      in if t > 0 then (p1' # ps, False)
         else if t = 0 then (p1' # ps, True)
         else (p1' # fst (cq_tick ps), True))"

section \<open>hardclock and gatherstats\<close>

definition clk_proc :: "kclock \<Rightarrow> proc" where
  "clk_proc s = procs (kp s) (u_procp (kp s))"

definition clk_psignal :: "nat \<Rightarrow> kclock \<Rightarrow> kclock outcome" where
  "clk_psignal sig s = omap (\<lambda>k. s\<lparr>kp := k\<rparr>) (psignal (u_procp (kp s)) sig (kp s))"

definition gatherstats :: "bool \<Rightarrow> bool \<Rightarrow> kclock \<Rightarrow> kclock" where
  "gatherstats usermode basepri s =
     (let cpstate = (if usermode then (if p_nice (clk_proc s) > NZERO then 1 else 0)
                     else if noproc s \<and> basepri then 3 else 2);
          ct = (cp_time s)[cpstate := cp_time s ! cpstate + 1];
          dt = map (\<lambda>i. if bit (dk_busy s) i then dk_time s ! i + 1 else dk_time s ! i) [0..<length (dk_time s)]
      in s\<lparr>cp_time := ct, dk_time := dt\<rparr>)"

text \<open>Charging the tick to user or system time, with the virtual interval timer.\<close>

definition charge_mode :: "bool \<Rightarrow> kclock \<Rightarrow> kclock outcome" where
  "charge_mode usermode s =
     (if usermode
      then let s1 = s\<lparr>ru_utime := ru_utime s + 1\<rparr>
           in if vt_value s1 \<noteq> 0
              then let s2 = s1\<lparr>vt_value := vt_value s1 - 1\<rparr>
                   in if vt_value s2 = 0
                      then omap (\<lambda>s3. s3\<lparr>vt_value := vt_interval s3\<rparr>) (clk_psignal SIGVTALRM s2)
                      else Ok s2
              else Ok s1
      else if \<not> noproc s then Ok (s\<lparr>ru_stime := ru_stime s + 1\<rparr>) else Ok s)"

text \<open>Charging the running process: its cpu usage, cpu time limit and profiling timer.\<close>

definition bump_cpu :: "u8 \<Rightarrow> u8" where
  "bump_cpu c = (if c + 1 = 0 then c + 1 - 1 else c + 1)"

definition charge_proc :: "int \<Rightarrow> kclock \<Rightarrow> kclock outcome" where
  "charge_proc hz s =
     (if noproc s then Ok s
      else let s1 = s\<lparr>kp := upd_proc (u_procp (kp s)) (\<lambda>q. q\<lparr>p_cpu := bump_cpu (p_cpu q)\<rparr>) (kp s)\<rparr>
           in obind (if ru_utime s1 + ru_stime s1 + 1 > cpu_cur s1
                     then omap (\<lambda>s'. if cpu_cur s' < cpu_max s' then s'\<lparr>cpu_cur := cpu_cur s' + 5 * hz\<rparr> else s')
                            (clk_psignal SIGXCPU s1)
                     else Ok s1)
                (\<lambda>s2. if pt_value s2 \<noteq> 0
                      then let s3 = s2\<lparr>pt_value := pt_value s2 - 1\<rparr>
                           in if pt_value s3 = 0
                              then omap (\<lambda>s4. s4\<lparr>pt_value := pt_interval s4\<rparr>) (clk_psignal SIGPROF s3)
                              else Ok s3
                      else Ok s2))"

text \<open>The time of day, with the skew of \<^verbatim>\<open>adjtime\<close>.\<close>

definition tick_time :: "int \<Rightarrow> kclock \<Rightarrow> kclock" where
  "tick_time hz s =
     (let s1 = (if adjdelta s \<noteq> 0
                then if adjdelta s > 0
                     then s\<lparr>lbolt := lbolt s + 1, adjdelta := adjdelta s - 1\<rparr>
                     else s\<lparr>lbolt := lbolt s - 1, adjdelta := adjdelta s + 1\<rparr>
                else s);
          l = lbolt s1 + 1
      in if l \<ge> hz then s1\<lparr>lbolt := l - hz, tv_sec := tv_sec s1 + 1\<rparr> else s1\<lparr>lbolt := l\<rparr>)"

text \<open>
  \<^verbatim>\<open>softclock\<close>: the loop takes due callouts off the queue one at a time, frees them and calls
  them; \<open>fx\<close> is what the called function does to the state (it may call \<^verbatim>\<open>timeout\<close> again).
  The calls made are returned in order; \<open>None\<close> is running out of fuel.
\<close>

fun softclock_loop :: "(callout \<Rightarrow> kclock \<Rightarrow> kclock outcome) \<Rightarrow> nat \<Rightarrow> kclock \<Rightarrow>
    (callout list \<times> kclock) outcome option" where
  "softclock_loop fx 0 s = None"
| "softclock_loop fx (Suc n) s =
     (case calltodo s of
        [] \<Rightarrow> Some (Ok ([], s))
      | p1 # q \<Rightarrow>
          if c_time p1 > 0 then Some (Ok ([], s))
          else case fx p1 (s\<lparr>calltodo := q, callfree := p1 # callfree s\<rparr>) of
                 Ok s' \<Rightarrow> map_option (omap (\<lambda>r. (p1 # fst r, snd r))) (softclock_loop fx n s')
               | Panic m \<Rightarrow> Some (Panic m)
               | Sleep c \<Rightarrow> Some (Sleep c)
               | Fault \<Rightarrow> Some Fault)"

definition softclock_user :: "int \<Rightarrow> nat \<Rightarrow> kclock \<Rightarrow> kclock" where
  "softclock_user hz pc s =
     (let s1 = (if pr_scale s \<noteq> 0 then s\<lparr>addupcs := pc # addupcs s\<rparr> else s);
          p = u_procp (kp s1)
      in if p_uid (clk_proc s1) \<noteq> 0 \<and> p_nice (clk_proc s1) = NZERO \<and> ru_utime s1 > 10 * 60 * hz
         then s1\<lparr>kp := setpri p (upd_proc p (\<lambda>q. q\<lparr>p_nice := NZERO + 4\<rparr>) (kp s1))\<rparr> else s1)"

definition softclock :: "(callout \<Rightarrow> kclock \<Rightarrow> kclock outcome) \<Rightarrow> int \<Rightarrow> nat \<Rightarrow> nat \<Rightarrow> bool \<Rightarrow> kclock \<Rightarrow>
    (callout list \<times> kclock) outcome option" where
  "softclock fx hz fuel pc usermode s =
     map_option (omap (\<lambda>r. (fst r, if usermode then softclock_user hz pc (snd r) else snd r)))
       (softclock_loop fx fuel s)"

definition hardclock :: "(callout \<Rightarrow> kclock \<Rightarrow> kclock outcome) \<Rightarrow> int \<Rightarrow> nat \<Rightarrow> nat \<Rightarrow> bool \<Rightarrow> bool \<Rightarrow> kclock \<Rightarrow>
    (callout list \<times> kclock) outcome option" where
  "hardclock fx hz fuel pc usermode basepri s =
     (let r = cq_tick (calltodo s);
          s1 = s\<lparr>calltodo := fst r\<rparr>;
          needsoft = (snd r \<or> usermode \<and> pr_scale s1 \<noteq> 0)
      in case obind (charge_mode usermode s1) (charge_proc hz) of
           Ok s3 \<Rightarrow>
             let s5 = tick_time hz (gatherstats usermode basepri s3)
             in if needsoft \<and> basepri then softclock fx hz fuel pc usermode s5 else Some (Ok ([], s5))
         | Panic m \<Rightarrow> Some (Panic m)
         | Sleep c \<Rightarrow> Some (Sleep c)
         | Fault \<Rightarrow> Some Fault)"

definition profil :: "u16 \<Rightarrow> u16 \<Rightarrow> u16 \<Rightarrow> u16 \<Rightarrow> kclock \<Rightarrow> kclock" where
  "profil bufbase bufsize pcoffset pcscale s =
     s\<lparr>pr_base := bufbase, pr_size := bufsize, pr_off := pcoffset, pr_scale := pcscale\<rparr>"

section \<open>schedcpu\<close>

text \<open>The body of the loop of \<^verbatim>\<open>schedcpu\<close> for one process.\<close>

definition schedcpu_cpu :: "nat \<Rightarrow> ksched \<Rightarrow> ksched" where
  "schedcpu_cpu p s =
     (let q = procs s p;
          a = (int (unat (p_cpu q)) * 8) div 10 + p_nice q;
          a = (if a < 0 then 0 else a);
          a = (if a > 255 then 255 else a);
          s1 = upd_proc p (\<lambda>q. q\<lparr>p_cpu := of_int a\<rparr>) s
      in if p_pri (procs s1 p) \<ge> PUSER then setpri p s1 else s1)"

definition schedcpu_proc :: "nat \<Rightarrow> ksched \<Rightarrow> ksched outcome" where
  "schedcpu_proc p s =
     (let s1 = upd_proc p (\<lambda>q. if p_time q \<noteq> 127 then q\<lparr>p_time := p_time q + 1\<rparr> else q) s;
          v = p_rt_value (procs s1 p);
          s2 = (if v \<noteq> 0 then upd_proc p (\<lambda>q. q\<lparr>p_rt_value := v - 1\<rparr>) s1 else s1)
      in obind (if v \<noteq> 0 \<and> v - 1 = 0
                then omap (upd_proc p (\<lambda>q. q\<lparr>p_rt_value := p_rt_interval q\<rparr>)) (psignal p SIGALRM s2)
                else Ok s2)
         (\<lambda>s3. let s4 = upd_proc p (\<lambda>q. if (p_stat q = SSLEEP \<or> p_stat q = SSTOP) \<and> p_slptime q \<noteq> 127
                                        then q\<lparr>p_slptime := p_slptime q + 1\<rparr> else q) s3
               in Ok (if p_slptime (procs s4 p) > 1 then s4 else schedcpu_cpu p s4)))"

fun schedcpu_loop :: "nat list \<Rightarrow> ksched \<Rightarrow> ksched outcome" where
  "schedcpu_loop [] s = Ok s"
| "schedcpu_loop (p # ps) s = obind (schedcpu_proc p s) (schedcpu_loop ps)"

text \<open>
  \<^verbatim>\<open>schedcpu\<close>; \<open>self\<close> is its own address in the callout table. \<^verbatim>\<open>vmmeter\<close> updates statistics outside
  this state.
\<close>

definition schedcpu :: "nat \<Rightarrow> int \<Rightarrow> kclock \<Rightarrow> kclock outcome" where
  "schedcpu self hz s =
     obind (wakeup LBOLT (kp s)) (\<lambda>k1.
     obind (schedcpu_loop (allproc k1) k1) (\<lambda>k2.
     obind (if runin k2 then wakeup RUNIN (k2\<lparr>runin := False\<rparr>) else Ok k2) (\<lambda>k3.
       timeout self 0 hz (s\<lparr>kp := k3\<lparr>runrun := runrun k3 + 1\<rparr>\<rparr>))))"

section \<open>hzto\<close>

text \<open>
  Ticks until a time, from the current time; \<^verbatim>\<open>long\<close> arithmetic wraps at 32 bits.
\<close>

definition hzto :: "int \<Rightarrow> int \<times> int \<Rightarrow> int \<times> int \<Rightarrow> int" where
  "hzto hz now tv =
     (let sec = wrap32 (fst tv - fst now);
          ticks = (if sec \<le> cdiv 2147483647 1000 - 1000
                   then cdiv (wrap32 (wrap32 (wrap32 (fst tv - fst now) * 1000) +
                                cdiv (wrap32 (snd tv - snd now)) 1000)) (cdiv 1000 hz)
                   else if sec \<le> cdiv 2147483647 hz then wrap32 (sec * hz)
                   else 2147483647)
      in wrap16 (if ticks > 32767 then 32767 else ticks))"

end
