(* ===== verification/Clock_Props.thy ===== *)
theory Clock_Props
  imports Clock
begin

text \<open>
  The callout queue keeps its promise: seen through \<open>sched\<close>, which gives every pending call its
  remaining time, \<^verbatim>\<open>timeout\<close> adds one entry, \<^verbatim>\<open>untimeout\<close> removes one, a tick of \<^verbatim>\<open>hardclock\<close> brings
  every pending call one tick nearer and \<^verbatim>\<open>softclock\<close> makes exactly the calls that are due. The
  interface is the locale \<open>timer_queue\<close>, whose lemma says when a call fires.
\<close>

section \<open>The interface of a timer queue\<close>

text \<open>
  An abstract timer queue is the multiset of its pending events with their remaining ticks.
  \<open>tick\<close> is one clock tick, \<open>due\<close> the events that are due; \<open>ok k\<close> holds for a queue that can stand
  \<open>k\<close> ticks without its due events being taken.
\<close>

type_synonym event = "nat \<times> nat \<times> int"

definition later :: "int \<Rightarrow> event \<Rightarrow> event" where
  "later n e = (fst e, fst (snd e), max 0 (snd (snd e) - n))"

locale timer_queue =
  fixes ok :: "nat \<Rightarrow> 'q \<Rightarrow> bool" and pending :: "'q \<Rightarrow> event multiset"
    and add :: "nat \<Rightarrow> nat \<Rightarrow> int \<Rightarrow> 'q \<Rightarrow> 'q" and tick :: "'q \<Rightarrow> 'q" and due :: "'q \<Rightarrow> (nat \<times> nat) list"
  assumes add_ok: "ok k q \<Longrightarrow> 0 < t \<Longrightarrow> t \<le> 32767 \<Longrightarrow> ok k (add f a t q)"
    and add_pending: "0 < t \<Longrightarrow> pending (add f a t q) = add_mset (f, a, t) (pending q)"
    and nonneg: "e \<in># pending q \<Longrightarrow> 0 \<le> snd (snd e)"
    and weaken: "ok (Suc k) q \<Longrightarrow> ok k q"
    and tick_ok: "ok (Suc k) q \<Longrightarrow> ok k (tick q)"
    and tick_pending: "ok (Suc k) q \<Longrightarrow> pending (tick q) = image_mset (later 1) (pending q)"
    and due_pending: "ok k q \<Longrightarrow> mset (due q) =
      image_mset (\<lambda>e. (fst e, fst (snd e))) (filter_mset (\<lambda>e. snd (snd e) \<le> 0) (pending q))"
begin

lemma later_later: "later 1 (later (int n) e) = later (int (Suc n)) e"
  by (cases e) (simp add: later_def)

lemma ticks_ok: "ok (n + k) q \<Longrightarrow> ok k ((tick ^^ n) q)"
  by (induction n arbitrary: k) (auto intro: tick_ok)

lemma ticks_pending: "ok n q \<Longrightarrow> pending ((tick ^^ n) q) = image_mset (later (int n)) (pending q)"
proof (induction n)
  case 0
  have "later 0 e = e" if "0 \<le> snd (snd e)" for e using that by (cases e) (simp add: later_def)
  then have "image_mset (later 0) (pending q) = image_mset id (pending q)"
    using nonneg by (intro image_mset_cong) simp
  then show ?case by simp
next
  case (Suc n)
  have o1: "ok (Suc 0) ((tick ^^ n) q)" using ticks_ok[of n 1 q] Suc.prems by simp
  have "ok n q" using Suc.prems weaken by blast
  then have "pending ((tick ^^ Suc n) q) = image_mset (later 1) (image_mset (later (int n)) (pending q))"
    using tick_pending[OF o1] Suc.IH by simp
  then show ?case by (simp add: multiset.map_comp comp_def later_later)
qed

text \<open>An event is due exactly from its time on.\<close>

theorem fires_on_time:
  assumes "ok n q" "0 < t" "t \<le> 32767"
  shows "mset (due ((tick ^^ n) (add f a t q))) =
    (if t \<le> int n then add_mset (f, a) else id) (mset (due ((tick ^^ n) q)))"
proof -
  have ok': "ok n (add f a t q)" using add_ok assms by blast
  have o: "ok 0 ((tick ^^ n) (add f a t q))" "ok 0 ((tick ^^ n) q)"
    using ticks_ok[of n 0] ok' assms(1) by simp_all
  show ?thesis
    unfolding due_pending[OF o(1)] due_pending[OF o(2)] ticks_pending[OF ok'] ticks_pending[OF assms(1)]
      add_pending[OF assms(2)]
    by (auto simp: later_def)
qed

end

section \<open>Remaining times\<close>

fun sched :: "int \<Rightarrow> callout list \<Rightarrow> event list" where
  "sched acc [] = []"
| "sched acc (c # cs) = (let t = acc + max 0 (c_time c) in (c_func c, c_arg c, t) # sched t cs)"

text \<open>Well-formed queues: after the first call that is not due the differences are not negative.\<close>

fun cq_wf :: "callout list \<Rightarrow> bool" where
  "cq_wf [] = True"
| "cq_wf (c # cs) = (if c_time c \<le> 0 then cq_wf cs else \<forall>x\<in>set cs. 0 \<le> c_time x)"

definition dues :: "callout list \<Rightarrow> callout list" where
  "dues = takeWhile (\<lambda>c. c_time c \<le> 0)"

definition cq_ok :: "callout list \<Rightarrow> bool" where
  "cq_ok q \<longleftrightarrow> cq_wf q \<and> (\<forall>e\<in>set (sched 0 q). snd (snd e) \<le> 32767)"

lemma sched_ge: "e \<in> set (sched acc q) \<Longrightarrow> acc \<le> snd (snd e)"
  by (induction q arbitrary: acc) (fastforce simp: Let_def)+

lemma nonneg_wf: "\<forall>x\<in>set cs. 0 \<le> c_time x \<Longrightarrow> cq_wf cs"
  by (induction cs) auto

lemma tmo_insert_sched:
  "0 < t \<Longrightarrow> mset (sched acc (tmo_insert q c t)) = add_mset (c_func c, c_arg c, acc + t) (mset (sched acc q))"
proof (induction q arbitrary: acc t)
  case (Cons p q)
  show ?case
  proof (cases "c_time p < t")
    case True
    let ?t = "if c_time p > 0 then t - c_time p else t"
    have "0 < ?t" using True Cons.prems by simp
    from Cons.IH[OF this, of "acc + max 0 (c_time p)"] show ?thesis
      using True by (auto simp: Let_def max_def)
  next
    case False
    then show ?thesis using Cons.prems by (simp add: Let_def max_def)
  qed
qed (simp add: max_def)

lemma tmo_insert_nonneg:
  "0 < t \<Longrightarrow> \<forall>x\<in>set q. 0 \<le> c_time x \<Longrightarrow> \<forall>x\<in>set (tmo_insert q c t). 0 \<le> c_time x"
  by (induction q c t rule: tmo_insert.induct) auto

lemma tmo_insert_wf: "0 < t \<Longrightarrow> cq_wf q \<Longrightarrow> cq_wf (tmo_insert q c t)"
proof (induction q c t rule: tmo_insert.induct)
  case (2 p2 ps pnew t)
  have "\<forall>x\<in>set ps. 0 \<le> c_time x \<Longrightarrow> c_time p2 < t \<Longrightarrow> \<forall>x\<in>set (tmo_insert ps pnew (t - c_time p2)). 0 \<le> c_time x"
    by (rule tmo_insert_nonneg) auto
  then show ?case using 2 by auto
qed simp

lemma tmo_insert_ok: "0 < t \<Longrightarrow> t \<le> 32767 \<Longrightarrow> cq_ok q \<Longrightarrow> cq_ok (tmo_insert q c t)"
proof -
  assume a: "0 < t" "t \<le> 32767" "cq_ok q"
  have "set (sched 0 (tmo_insert q c t)) = insert (c_func c, c_arg c, t) (set (sched 0 q))"
    using tmo_insert_sched[OF a(1), of 0 q c] by (metis add_0 set_mset_add_mset_insert set_mset_mset)
  then show ?thesis using a tmo_insert_wf unfolding cq_ok_def by auto
qed

lemma tmo_insert_dues: "0 < t \<Longrightarrow> dues (tmo_insert q c t) = dues q"
  by (induction q c t rule: tmo_insert.induct) (auto simp: dues_def)

section \<open>Ticks\<close>

lemma sched_cong_time:
  "(\<And>x. x \<in> set q \<Longrightarrow> 0 \<le> c_time x) \<Longrightarrow> sched (acc - d) q = map (\<lambda>e. (fst e, fst (snd e), snd (snd e) - d)) (sched acc q)"
proof (induction q arbitrary: acc)
  case (Cons c q)
  have "sched (acc - d + c_time c) q = sched (acc + c_time c - d) q" by (simp add: algebra_simps)
  then show ?case using Cons by (simp add: Let_def max_def algebra_simps)
qed simp

text \<open>No call has been overdue for so long that its count wraps.\<close>

definition cq_fresh :: "nat \<Rightarrow> callout list \<Rightarrow> bool" where
  "cq_fresh k q \<longleftrightarrow> (\<forall>c\<in>set q. int k - 32768 \<le> c_time c \<and> c_time c \<le> 32767)"

lemma cq_tick_sched:
  "cq_wf q \<Longrightarrow> cq_fresh (Suc k) q \<Longrightarrow> sched 0 (fst (cq_tick q)) = map (later 1) (sched 0 q)"
proof (induction q)
  case (Cons c q)
  have w: "wrap16 (c_time c - 1) = c_time c - 1"
    using Cons.prems(2) by (intro wrap16_id) (auto simp: cq_fresh_def)
  show ?case
  proof (cases "c_time c \<le> 0")
    case True
    then show ?thesis using Cons w by (simp add: Let_def max_def later_def cq_fresh_def)
  next
    case False
    then have nn: "\<And>x. x \<in> set q \<Longrightarrow> 0 \<le> c_time x" using Cons.prems by auto
    have "map (later 1) (sched (c_time c) q) = map (\<lambda>e. (fst e, fst (snd e), snd (snd e) - 1)) (sched (c_time c) q)"
      using False sched_ge[of _ "c_time c" q] by (intro map_cong) (auto simp: later_def max_def, fastforce)
    then show ?thesis using False w sched_cong_time[of q "c_time c" 1] nn
      by (auto simp: Let_def max_def later_def)
  qed
qed simp

lemma cq_tick_wf: "cq_wf q \<Longrightarrow> cq_fresh (Suc k) q \<Longrightarrow> cq_wf (fst (cq_tick q))"
proof (induction q)
  case (Cons c q)
  have w: "wrap16 (c_time c - 1) = c_time c - 1"
    using Cons.prems(2) by (intro wrap16_id) (auto simp: cq_fresh_def)
  show ?case using Cons w nonneg_wf[of q] by (auto simp: Let_def cq_fresh_def)
qed simp

lemma dues_sched:
  "cq_wf q \<Longrightarrow> map (\<lambda>c. (c_func c, c_arg c)) (dues q) =
     map (\<lambda>e. (fst e, fst (snd e))) (filter (\<lambda>e. snd (snd e) \<le> 0) (sched 0 q))"
proof (induction q)
  case (Cons c q)
  show ?case
  proof (cases "c_time c \<le> 0")
    case True then show ?thesis using Cons by (simp add: dues_def Let_def max_def)
  next
    case False
    then have "filter (\<lambda>e. snd (snd e) \<le> 0) (sched (c_time c) q) = []"
      using sched_ge[of _ "c_time c" q] by (fastforce simp: filter_empty_conv)
    then show ?thesis using False by (simp add: dues_def Let_def max_def)
  qed
qed (simp add: dues_def)
section \<open>The interface is met\<close>

lemma time_le_sched: "c \<in> set q \<Longrightarrow> 0 \<le> acc \<Longrightarrow> \<exists>e\<in>set (sched acc q). c_time c \<le> snd (snd e)"
  by (induction q arbitrary: acc) (fastforce simp: Let_def)+

definition cq_okb :: "nat \<Rightarrow> callout list \<Rightarrow> bool" where
  "cq_okb k q \<longleftrightarrow> k \<le> 32768 \<and> cq_ok q \<and> cq_fresh k q"

definition cq_add :: "nat \<Rightarrow> nat \<Rightarrow> int \<Rightarrow> callout list \<Rightarrow> callout list" where
  "cq_add f a t q = tmo_insert q \<lparr>c_time = 0, c_arg = a, c_func = f\<rparr> t"

definition cq_due :: "callout list \<Rightarrow> (nat \<times> nat) list" where
  "cq_due q = map (\<lambda>c. (c_func c, c_arg c)) (dues q)"

lemma tmo_insert_fresh:
  "0 < t \<Longrightarrow> t \<le> 32767 \<Longrightarrow> cq_fresh k q \<Longrightarrow> int k \<le> 32768 \<Longrightarrow> cq_fresh k (tmo_insert q c t)"
  by (induction q c t rule: tmo_insert.induct) (auto simp: cq_fresh_def)

lemma cq_tick_fresh: "cq_fresh (Suc k) q \<Longrightarrow> cq_fresh k (fst (cq_tick q))"
proof (induction q)
  case (Cons c q)
  have w: "wrap16 (c_time c - 1) = c_time c - 1"
    using Cons.prems by (intro wrap16_id) (auto simp: cq_fresh_def)
  show ?case using Cons w by (auto simp: Let_def cq_fresh_def)
qed (simp add: cq_fresh_def)

lemma cq_tick_ok:
  assumes "cq_ok q" "cq_fresh (Suc k) q"
  shows "cq_ok (fst (cq_tick q))"
proof -
  have "cq_wf q" using assms(1) by (simp add: cq_ok_def)
  then show ?thesis using assms(1) cq_tick_wf[OF _ assms(2)] cq_tick_sched[OF _ assms(2)]
    by (auto simp: cq_ok_def later_def)
qed

interpretation callouts: timer_queue cq_okb "\<lambda>q. mset (sched 0 q)" cq_add "\<lambda>q. fst (cq_tick q)" cq_due
proof
  show "cq_okb k q \<Longrightarrow> 0 < t \<Longrightarrow> t \<le> 32767 \<Longrightarrow> cq_okb k (cq_add f a t q)" for k q t f a
    using tmo_insert_ok tmo_insert_fresh by (simp add: cq_okb_def cq_add_def)
  show "0 < t \<Longrightarrow> mset (sched 0 (cq_add f a t q)) = add_mset (f, a, t) (mset (sched 0 q))" for t f a q
    using tmo_insert_sched[of t 0 q] by (simp add: cq_add_def)
  show "e \<in># mset (sched 0 q) \<Longrightarrow> 0 \<le> snd (snd e)" for e q using sched_ge[of e 0 q] by simp
  show "cq_okb (Suc k) q \<Longrightarrow> cq_okb k q" for k q by (auto simp: cq_okb_def cq_fresh_def)
  show "cq_okb (Suc k) q \<Longrightarrow> cq_okb k (fst (cq_tick q))" for k q
    using cq_tick_ok cq_tick_fresh by (auto simp: cq_okb_def)
  show "cq_okb (Suc k) q \<Longrightarrow> mset (sched 0 (fst (cq_tick q))) = image_mset (later 1) (mset (sched 0 q))" for k q
    using cq_tick_sched[of q k] by (simp add: cq_okb_def cq_ok_def)
  show "cq_okb k q \<Longrightarrow> mset (cq_due q) = image_mset (\<lambda>e. (fst e, fst (snd e)))
      (filter_mset (\<lambda>e. snd (snd e) \<le> 0) (mset (sched 0 q)))" for k q
    using dues_sched[of q] by (simp add: cq_due_def cq_okb_def cq_ok_def flip: mset_filter mset_map)
qed

lemma tmo_insert_pnew: "c_arg c = c_arg d \<Longrightarrow> c_func c = c_func d \<Longrightarrow> tmo_insert q c t = tmo_insert q d t"
  by (induction q c t rule: tmo_insert.induct) auto

lemma timeout_cq_add:
  assumes "callfree s = c # fr" "0 < t"
  shows "timeout f a t s = Ok (s\<lparr>callfree := fr, calltodo := cq_add f a t (calltodo s)\<rparr>)"
  using assms tmo_insert_pnew[of "c\<lparr>c_arg := a, c_func := f\<rparr>" "\<lparr>c_time = 0, c_arg = a, c_func = f\<rparr>"]
  by (simp add: timeout_def cq_add_def)

section \<open>untimeout\<close>

lemma untmo_None: "fst (untmo f a q) = None \<Longrightarrow> snd (untmo f a q) = q \<and> (\<forall>c\<in>set q. \<not> (c_func c = f \<and> c_arg c = a))"
  by (induction f a q rule: untmo.induct) (auto simp: Let_def split: if_splits)

lemma sched_shift:
  assumes "0 < c_time p" "0 \<le> c_time n" "acc + c_time p + c_time n \<le> 32767" "0 \<le> acc"
  shows "sched acc (n\<lparr>c_time := wrap16 (c_time n + c_time p)\<rparr> # ps) = sched (acc + c_time p) (n # ps)"
proof -
  have "wrap16 (c_time n + c_time p) = c_time n + c_time p" using assms by (intro wrap16_id) auto
  then show ?thesis using assms by (simp add: Let_def max_def algebra_simps)
qed

lemma untmo_sched:
  assumes "fst (untmo f a q) = Some c" "cq_wf q" "0 \<le> acc" "\<forall>e\<in>set (sched acc q). snd (snd e) \<le> 32767"
  shows "\<exists>l t r. sched acc q = l @ (f, a, t) # r \<and> sched acc (snd (untmo f a q)) = l @ r \<and>
    (\<forall>e\<in>set l. (fst e, fst (snd e)) \<noteq> (f, a))"
  using assms
proof (induction q arbitrary: acc)
  case (Cons p q)
  let ?t = "acc + max 0 (c_time p)"
  show ?case
  proof (cases "c_func p = f \<and> c_arg p = a")
    case True
    have "sched acc (snd (untmo f a (p # q))) = sched ?t q"
    proof (cases q)
      case Nil then show ?thesis using True by simp
    next
      case (Cons n ps)
      show ?thesis
      proof (cases "c_time p > 0")
        case True
        then have "0 \<le> c_time n" "acc + c_time p + c_time n \<le> 32767"
          using Cons Cons.prems by (auto simp: Let_def)
        then show ?thesis using sched_shift[OF True] Cons \<open>c_func p = f \<and> c_arg p = a\<close> Cons.prems(3) True
          by (simp add: max_def)
      next
        case False then show ?thesis using Cons \<open>c_func p = f \<and> c_arg p = a\<close> by (simp add: max_def)
      qed
    qed
    then show ?thesis using True by (intro exI[of _ "[]"] exI[of _ ?t] exI[of _ "sched ?t q"]) (simp add: Let_def)
  next
    case False
    have "cq_wf q" using Cons.prems(2) nonneg_wf by (auto split: if_splits)
    then obtain l t r where "sched ?t q = l @ (f, a, t) # r" "sched ?t (snd (untmo f a q)) = l @ r"
      "\<forall>e\<in>set l. (fst e, fst (snd e)) \<noteq> (f, a)"
      using Cons.IH[of ?t] Cons.prems False by (auto simp: Let_def)
    then show ?thesis using False
      by (intro exI[of _ "(c_func p, c_arg p, ?t) # l"] exI[of _ t] exI[of _ r]) (auto simp: Let_def)
  qed
qed simp

section \<open>softclock\<close>

text \<open>What the called functions may do: anything that does not change which calls are due.\<close>

lemma softclock_loop_calls:
  assumes fx: "\<And>c s. \<exists>s'. fx c s = Ok s' \<and> dues (calltodo s') = dues (calltodo s)"
  shows "length (dues (calltodo s)) < n \<Longrightarrow>
    \<exists>s'. softclock_loop fx n s = Some (Ok (dues (calltodo s), s')) \<and> dues (calltodo s') = []"
proof (induction n arbitrary: s)
  case (Suc n)
  show ?case
  proof (cases "calltodo s")
    case Nil then show ?thesis by (simp add: dues_def)
  next
    case (Cons p q)
    show ?thesis
    proof (cases "c_time p > 0")
      case True then show ?thesis using Cons by (simp add: dues_def)
    next
      case False
      obtain s' where s': "fx p (s\<lparr>calltodo := q, callfree := p # callfree s\<rparr>) = Ok s'" "dues (calltodo s') = dues q"
        using fx[of p "s\<lparr>calltodo := q, callfree := p # callfree s\<rparr>"] by auto
      have d: "dues (calltodo s) = p # dues q" using Cons False by (simp add: dues_def)
      then obtain s'' where "softclock_loop fx n s' = Some (Ok (dues q, s''))" "dues (calltodo s'') = []"
        using Suc.IH[of s'] Suc.prems s'(2) by auto
      then show ?thesis using Cons False s'(1) d by simp
    qed
  qed
qed simp

section \<open>Properties\<close>

definition idle_clock :: kclock where
  "idle_clock = \<lparr>kp = boot, calltodo = [\<lparr>c_time = 3, c_arg = 1, c_func = 10\<rparr>], callfree = [\<lparr>c_time = 0, c_arg = 0, c_func = 0\<rparr>],
     ru_utime = 0, ru_stime = 0, vt_value = 0, vt_interval = 0, pt_value = 0, pt_interval = 0, pr_base = 0,
     pr_size = 0, pr_off = 0, pr_scale = 0, cpu_cur = 2147483647, cpu_max = 2147483647, lbolt = 59, adjdelta = 0,
     tv_sec = 0, noproc = False, cp_time = [0, 0, 0, 0], dk_busy = 0, dk_time = [0, 0], addupcs = []\<rparr>"

text \<open>
  C21. A call scheduled with \<^verbatim>\<open>timeout\<close> for \<open>t\<close> ticks is due after \<open>n\<close> clock ticks exactly when
  \<open>t \<le> n\<close>, never earlier, whatever else is in the queue, and scheduling it does not change when any
  other call is due.
\<close>

theorem timeout_fires_on_time:
  assumes "cq_okb n (calltodo s)" and "callfree s \<noteq> []" and "0 < t" and "t \<le> 32767"
  shows "\<exists>s'. timeout f a t s = Ok s' \<and>
    mset (cq_due (((\<lambda>q. fst (cq_tick q)) ^^ n) (calltodo s'))) =
      (if t \<le> int n then add_mset (f, a) else id) (mset (cq_due (((\<lambda>q. fst (cq_tick q)) ^^ n) (calltodo s))))"
proof -
  obtain c fr where "callfree s = c # fr" using assms(2) by (cases "callfree s") auto
  from timeout_cq_add[OF this assms(3), of f a] callouts.fires_on_time[OF assms(1,3,4), of f a]
  show ?thesis by simp
qed

theorem timeout_fires_on_time_witness:
  "\<exists>s'. timeout 7 8 2 idle_clock = Ok s' \<and>
     mset (cq_due (((\<lambda>q. fst (cq_tick q)) ^^ 2) (calltodo s'))) = {#(7, 8)#}"
proof -
  have "cq_okb 2 (calltodo idle_clock)"
    by (simp add: cq_okb_def cq_ok_def cq_fresh_def idle_clock_def)
  moreover have "callfree idle_clock \<noteq> []" by (simp add: idle_clock_def)
  ultimately have "\<exists>s'. timeout 7 8 2 idle_clock = Ok s' \<and>
     mset (cq_due (((\<lambda>q. fst (cq_tick q)) ^^ 2) (calltodo s'))) =
     add_mset (7, 8) (mset (cq_due (((\<lambda>q. fst (cq_tick q)) ^^ 2) (calltodo idle_clock))))"
    using timeout_fires_on_time[of 2 idle_clock 2 7 8] by simp
  moreover have "cq_due (((\<lambda>q. fst (cq_tick q)) ^^ 2) (calltodo idle_clock)) = []"
    by (simp add: numeral_2_eq_2 idle_clock_def wrap16_def cq_due_def dues_def)
  ultimately show ?thesis by simp
qed

text \<open>
  \<^verbatim>\<open>untimeout\<close> takes the first pending call of the given function and argument out of the
  queue and leaves the time of every other call as it was; without such a call nothing changes.
\<close>

lemma untimeout_removes_one:
  assumes "cq_ok (calltodo s)"
  shows "if \<exists>c\<in>set (calltodo s). c_func c = f \<and> c_arg c = a
    then \<exists>l t r. sched 0 (calltodo s) = l @ (f, a, t) # r \<and> sched 0 (calltodo (untimeout f a s)) = l @ r \<and>
      (\<forall>e\<in>set l. (fst e, fst (snd e)) \<noteq> (f, a)) \<and> length (callfree (untimeout f a s)) = Suc (length (callfree s))
    else untimeout f a s = s"
proof (cases "fst (untmo f a (calltodo s))")
  case None
  then show ?thesis using untmo_None[OF None] by (auto simp: untimeout_def split: prod.splits option.splits)
next
  case (Some c)
  have ex: "\<exists>c\<in>set q. c_func c = f \<and> c_arg c = a" if "fst (untmo f a q) = Some c" for q
    using that by (induction f a q rule: untmo.induct) (auto simp: Let_def split: if_splits)
  have "cq_wf (calltodo s)" "\<forall>e\<in>set (sched 0 (calltodo s)). snd (snd e) \<le> 32767"
    using assms by (auto simp: cq_ok_def)
  note sp = untmo_sched[OF Some this(1) order_refl this(2)]
  have "calltodo (untimeout f a s) = snd (untmo f a (calltodo s))"
    "callfree (untimeout f a s) = c # callfree s"
    using Some by (auto simp: untimeout_def split: prod.splits)
  then show ?thesis using sp ex[OF Some] by simp
qed

text \<open>
  \<^verbatim>\<open>softclock\<close> terminates and calls exactly the calls that are due, in queue order, and leaves
  none due, for called functions that do not themselves make a call due at once; \<^verbatim>\<open>timeout\<close> with
  any time is such a function.
\<close>

lemma softclock_calls_due:
  assumes "\<And>c s. \<exists>s'. fx c s = Ok s' \<and> dues (calltodo s') = dues (calltodo s)"
    and "length (dues (calltodo s)) < fuel"
  shows "\<exists>s'. softclock fx hz fuel pc um s = Some (Ok (dues (calltodo s), s')) \<and> dues (calltodo s') = []"
proof -
  have u: "calltodo (softclock_user hz pc t) = calltodo t" for t by (simp add: softclock_user_def Let_def)
  obtain s' where "softclock_loop fx fuel s = Some (Ok (dues (calltodo s), s'))" "dues (calltodo s') = []"
    using softclock_loop_calls[of fx s fuel, OF assms(1) assms(2)] by blast
  then show ?thesis using u by (auto simp: softclock_def)
qed

text \<open>
  The time of day: a tick advances the clock by one tick, by two while \<^verbatim>\<open>adjtime\<close> is catching
  up and by none while it is slowing down, and \<^verbatim>\<open>lbolt\<close> stays a fraction of a second.
\<close>

lemma tick_time_advances:
  assumes "2 \<le> hz" and "0 \<le> lbolt s" and "lbolt s < hz"
  shows "0 \<le> lbolt (tick_time hz s) \<and> lbolt (tick_time hz s) < hz \<and>
    hz * tv_sec (tick_time hz s) + lbolt (tick_time hz s) = hz * tv_sec s + lbolt s + 1 + sgn (adjdelta s) \<and>
    adjdelta (tick_time hz s) = adjdelta s - sgn (adjdelta s)"
  using assms by (auto simp: tick_time_def Let_def sgn_if algebra_simps)

text \<open>
  \<^verbatim>\<open>hzto\<close> does not give the number of ticks to a time: at 60 Hz it divides the milliseconds by
  \<^verbatim>\<open>1000/hz\<close>, which is 16, so a whole number of seconds is always overestimated.
\<close>

lemma hzto_overestimates:
  assumes "0 < sec" and "sec \<le> 500" and "0 \<le> now" and "now \<le> 2147480000" and "0 \<le> us" and "us < 1000000"
  shows "hzto 60 (now, us) (now + sec, us) = sec * 1000 div 16 \<and> 60 * sec < hzto 60 (now, us) (now + sec, us)"
proof -
  have "wrap32 sec = sec" "wrap32 (sec * 1000) = sec * 1000" using assms by (auto intro!: wrap32_id)
  moreover have "wrap32 (0 :: int) = 0" by (simp add: wrap32_id)
  moreover have d: "sec * 1000 div 16 \<le> 32767" using assms by linarith
  moreover have "cdiv (sec * 1000) 16 = sec * 1000 div 16" using assms by (simp add: cdiv_nonneg)
  moreover have "wrap16 (sec * 1000 div 16) = sec * 1000 div 16"
    using assms d by (intro wrap16_id) auto
  ultimately have "hzto 60 (now, us) (now + sec, us) = sec * 1000 div 16"
    using assms by (simp add: hzto_def Let_def cdiv_def)
  moreover have "60 * sec < sec * 1000 div 16" using assms by linarith
  ultimately show ?thesis by simp
qed

end
