(* ===== verification/Fs_Alloc.thy ===== *)
theory Fs_Alloc
  imports Prelude
begin

text \<open>
  Allocation of disk blocks and inodes: \<^verbatim>\<open>sys/sys/ufs_alloc.c\<close>. The super block caches up to
  \<^verbatim>\<open>NICFREE\<close> free blocks; the first cached number names a block that holds the next batch, so the
  free blocks form a chain of batches through the disk. The buffer cache is seen as the current
  contents of the disk: \<open>fblks\<close> is every block read as a batch, \<open>rderr\<close> says which blocks
  cannot be read, \<open>dmode\<close> is the mode field of each disk inode.
\<close>

section \<open>State\<close>

definition NICFREE :: int where "NICFREE = 50"
definition NICINOD :: int where "NICINOD = 100"
definition INOPB :: nat where "INOPB = 16"
definition SUPERB :: int where "SUPERB = 1"
definition ROOTINO :: int where "ROOTINO = 2"

record fs =
  fs_isize :: int
  fs_fsize :: int
  fs_nfree :: int
  fs_free :: "int list"
  fs_ninode :: int
  fs_inode :: "int list"
  fs_flock :: bool
  fs_fmod :: bool
  fs_ilock :: bool
  fs_tfree :: int
  fs_tinode :: int
  fs_lasti :: int
  fs_nbehind :: int

record fblk =
  df_nfree :: int
  df_free :: "int list"

record vol =
  sb :: fs
  fblks :: "int \<Rightarrow> fblk"
  rderr :: "int \<Rightarrow> bool"
  dsb :: fs
  dmode :: "int \<Rightarrow> int"

text \<open>The wait channels, addresses inside the super block.\<close>

definition FLOCK :: nat where "FLOCK = 8"
definition ILOCK :: nat where "ILOCK = 10"

definition badblock :: "fs \<Rightarrow> int \<Rightarrow> bool" where
  "badblock fp bn \<longleftrightarrow> bn < fs_isize fp \<or> bn \<ge> fs_fsize fp"

section \<open>Blocks\<close>

text \<open>The loop of \<^verbatim>\<open>balloc\<close> that takes a block number from the cache; \<open>None\<close> is \<^verbatim>\<open>goto nospace\<close>.\<close>

function balloc_pick :: "fs \<Rightarrow> (int option \<times> fs) outcome" where
  "balloc_pick f =
     (if fs_nfree f \<le> 0 then Ok (None, f)
      else if fs_nfree f > NICFREE then Ok (None, f)
      else let i = fs_nfree f - 1; f' = f\<lparr>fs_nfree := i\<rparr> in
        if nat i < length (fs_free f)
        then let bno = fs_free f ! nat i in
          if bno = 0 then Ok (None, f')
          else if badblock f' bno then balloc_pick f'
          else Ok (Some bno, f')
        else Fault)"
  by pat_completeness auto
termination
  by (relation "measure (\<lambda>f. nat (fs_nfree f))") (auto simp: Let_def)

definition nospace :: "vol \<Rightarrow> (int option \<times> vol) outcome" where
  "nospace s = Ok (None, s\<lparr>sb := (sb s)\<lparr>fs_nfree := 0, fs_tfree := 0\<rparr>\<rparr>)"

text \<open>
  \<^verbatim>\<open>balloc\<close>: the block number of the buffer it returns, \<open>None\<close> with \<^verbatim>\<open>ENOSPC\<close>. When the cache is
  used up the batch is read from the block being allocated and the super block is written.
\<close>

definition balloc_refill :: "int \<Rightarrow> vol \<Rightarrow> vol" where
  "balloc_refill bno s =
     (let f1 = (if \<not> rderr s bno
                then (sb s)\<lparr>fs_nfree := df_nfree (fblks s bno), fs_free := df_free (fblks s bno)\<rparr> else sb s);
          f2 = f1\<lparr>fs_fmod := False\<rparr>
      in s\<lparr>sb := f2, dsb := f2\<lparr>fs_flock := True\<rparr>\<rparr>)"

definition balloc_done :: "int \<Rightarrow> vol \<Rightarrow> (int option \<times> vol) outcome" where
  "balloc_done bno s = Ok (Some bno, s\<lparr>sb := (sb s)\<lparr>fs_fmod := True, fs_tfree := fs_tfree (sb s) - 1\<rparr>\<rparr>)"

definition balloc :: "vol \<Rightarrow> (int option \<times> vol) outcome" where
  "balloc s =
     (if fs_flock (sb s) then Sleep FLOCK
      else obind (balloc_pick (sb s)) (\<lambda>r.
        let s1 = s\<lparr>sb := snd r\<rparr> in
        case fst r of
          None \<Rightarrow> nospace s1
        | Some bno \<Rightarrow>
            if fs_nfree (sb s1) \<le> 0
            then let s2 = balloc_refill bno s1
                 in if fs_nfree (sb s2) \<le> 0 then nospace s2 else balloc_done bno s2
            else balloc_done bno s1))"

text \<open>\<^verbatim>\<open>free\<close>: a full cache is written into the freed block, which becomes the first of the new cache.\<close>

definition bfree :: "int \<Rightarrow> vol \<Rightarrow> vol outcome" where
  "bfree bno s =
     (if badblock (sb s) bno then Ok s
      else if fs_flock (sb s) then Sleep FLOCK
      else let f1 = (if fs_nfree (sb s) \<le> 0
                     then (sb s)\<lparr>fs_nfree := 1, fs_free := (fs_free (sb s))[0 := 0]\<rparr> else sb s);
               s2 = (if fs_nfree f1 \<ge> NICFREE
                     then s\<lparr>fblks := (fblks s)(bno := \<lparr>df_nfree = fs_nfree f1, df_free = fs_free f1\<rparr>),
                            sb := f1\<lparr>fs_nfree := 0\<rparr>\<rparr>
                     else s\<lparr>sb := f1\<rparr>);
               f2 = sb s2
           in if nat (fs_nfree f2) < length (fs_free f2)
              then Ok (s2\<lparr>sb := f2\<lparr>fs_free := (fs_free f2)[nat (fs_nfree f2) := bno], fs_nfree := fs_nfree f2 + 1,
                                   fs_tfree := fs_tfree f2 + 1, fs_fmod := True\<rparr>\<rparr>)
              else Fault)"

section \<open>Inodes\<close>

definition itod :: "int \<Rightarrow> int" where
  "itod x = (x + 2 * int INOPB - 1) div int INOPB"

text \<open>
  Taking an inode number from the cache; \<open>iget\<close> gives the mode of the inode it locks, or
  \<open>None\<close> if it fails. The cached inode may have been allocated since.
\<close>

datatype itake = Got int | Noinode | Empty

function ialloc_take :: "(int \<Rightarrow> int option) \<Rightarrow> fs \<Rightarrow> (itake \<times> fs) outcome" where
  "ialloc_take iget f =
     (if fs_ninode f > 0
      then let i = fs_ninode f - 1; f' = f\<lparr>fs_ninode := i\<rparr> in
        if nat i < length (fs_inode f)
        then let ino = fs_inode f ! nat i in
          if ino \<le> ROOTINO then ialloc_take iget f'
          else case iget ino of
                 None \<Rightarrow> Ok (Noinode, f')
               | Some md \<Rightarrow>
                   if md = 0 then Ok (Got ino, f'\<lparr>fs_fmod := True, fs_tinode := (fs_tinode f' - 1) mod 65536\<rparr>)
                   else ialloc_take iget f'
        else Fault
      else Ok (Empty, f))"
  by pat_completeness auto
termination
  by (relation "measure (\<lambda>(g, f). nat (fs_ninode f))") auto

text \<open>The search of one block of inodes; \<open>incore\<close> is \<^verbatim>\<open>ifind\<close>. The result is where \<^verbatim>\<open>ino\<close> stands.\<close>

fun ialloc_block :: "(int \<Rightarrow> int) \<Rightarrow> (int \<Rightarrow> bool) \<Rightarrow> nat \<Rightarrow> int \<Rightarrow> fs \<Rightarrow> (int \<times> fs) outcome" where
  "ialloc_block dm incore 0 ino f = Ok (ino, f)"
| "ialloc_block dm incore (Suc k) ino f =
     (if dm ino \<noteq> 0 \<or> incore ino then ialloc_block dm incore k (ino + 1) f
      else if nat (fs_ninode f) < length (fs_inode f)
      then let f' = f\<lparr>fs_inode := (fs_inode f)[nat (fs_ninode f) := ino], fs_ninode := fs_ninode f + 1\<rparr>
           in if fs_ninode f' \<ge> NICINOD then Ok (ino, f') else ialloc_block dm incore k (ino + 1) f'
      else Fault)"

lemma ialloc_block_isize: "ialloc_block dm incore k ino f = Ok (i, f') \<Longrightarrow> fs_isize f' = fs_isize f"
  by (induction k arbitrary: ino f) (fastforce simp: Let_def split: if_splits)+

text \<open>The search of the inode list from a block on; the result is \<^verbatim>\<open>inobas\<close>.\<close>

function ialloc_scan :: "(int \<Rightarrow> int) \<Rightarrow> (int \<Rightarrow> bool) \<Rightarrow> (int \<Rightarrow> bool) \<Rightarrow> int \<Rightarrow> int \<Rightarrow> int \<Rightarrow> fs \<Rightarrow>
    (int \<times> fs) outcome" where
  "ialloc_scan dm incore err adr ino inobas f =
     (if adr < fs_isize f
      then if err adr then ialloc_scan dm incore err (adr + 1) (ino + int INOPB) ino f
           else case ialloc_block dm incore INOPB ino f of
                  Ok (ino', f') \<Rightarrow>
                    if fs_ninode f' \<ge> NICINOD then Ok (ino, f')
                    else ialloc_scan dm incore err (adr + 1) ino' ino f'
                | Panic m \<Rightarrow> Panic m | Sleep c \<Rightarrow> Sleep c | Fault \<Rightarrow> Fault
      else Ok (inobas, f))"
  by pat_completeness auto
termination
  by (relation "measure (\<lambda>(dm, incore, err, adr, ino, inobas, f). nat (fs_isize f - adr))")
    (auto dest: ialloc_block_isize)

definition ialloc_top :: "(int \<Rightarrow> int) \<Rightarrow> (int \<Rightarrow> bool) \<Rightarrow> (int \<Rightarrow> bool) \<Rightarrow> int \<Rightarrow> fs \<Rightarrow> (int \<times> fs) outcome" where
  "ialloc_top dm incore err inobas f = ialloc_scan dm incore err (SUPERB + 1) 1 inobas (f\<lparr>fs_nbehind := 0\<rparr>)"

text \<open>Refilling the cache; \<open>junk\<close> is the uninitialised \<^verbatim>\<open>inobas\<close> when there is no block to search.\<close>

definition ialloc_fill :: "(int \<Rightarrow> int) \<Rightarrow> (int \<Rightarrow> bool) \<Rightarrow> (int \<Rightarrow> bool) \<Rightarrow> int \<Rightarrow> fs \<Rightarrow> fs outcome" where
  "ialloc_fill dm incore err junk f =
     omap (\<lambda>r. (snd r)\<lparr>fs_lasti := fst r, fs_ilock := False\<rparr>)
       (if fs_nbehind f < 4 * NICINOD
        then obind (ialloc_scan dm incore err (itod (fs_lasti f)) (fs_lasti f) junk f) (\<lambda>r.
               if fs_ninode (snd r) < NICINOD
               then ialloc_top dm incore err (fst r) ((snd r)\<lparr>fs_ninode := 0\<rparr>) else Ok r)
        else ialloc_top dm incore err junk f)"

text \<open>
  \<^verbatim>\<open>ialloc\<close>: an inode number or \<open>None\<close> (with \<^verbatim>\<open>ENOSPC\<close>, or because \<^verbatim>\<open>iget\<close> or the quota check failed).
  The outer \<open>None\<close> is running out of fuel in \<^verbatim>\<open>goto loop\<close>.
\<close>

fun ialloc_loop :: "(int \<Rightarrow> int option) \<Rightarrow> (int \<Rightarrow> bool) \<Rightarrow> int \<Rightarrow> nat \<Rightarrow> vol \<Rightarrow> (int option \<times> vol) outcome option" where
  "ialloc_loop iget incore junk 0 s = None"
| "ialloc_loop iget incore junk (Suc n) s =
     (case ialloc_take iget (sb s) of
        Ok (Got ino, f) \<Rightarrow> Some (Ok (Some ino, s\<lparr>sb := f\<rparr>))
      | Ok (Noinode, f) \<Rightarrow> Some (Ok (None, s\<lparr>sb := f\<rparr>))
      | Ok (Empty, f) \<Rightarrow>
          (case ialloc_fill (dmode s) incore (rderr s) junk f of
             Ok f' \<Rightarrow> if fs_ninode f' > 0 then ialloc_loop iget incore junk n (s\<lparr>sb := f'\<rparr>)
                      else Some (Ok (None, s\<lparr>sb := f'\<rparr>))
           | Panic m \<Rightarrow> Some (Panic m) | Sleep c \<Rightarrow> Some (Sleep c) | Fault \<Rightarrow> Some Fault)
      | Panic m \<Rightarrow> Some (Panic m) | Sleep c \<Rightarrow> Some (Sleep c) | Fault \<Rightarrow> Some Fault)"

definition ialloc :: "bool \<Rightarrow> (int \<Rightarrow> int option) \<Rightarrow> (int \<Rightarrow> bool) \<Rightarrow> int \<Rightarrow> nat \<Rightarrow> vol \<Rightarrow>
    (int option \<times> vol) outcome option" where
  "ialloc overquota iget incore junk fuel s =
     (if fs_ilock (sb s) then Some (Sleep ILOCK)
      else if overquota then Some (Ok (None, s))
      else ialloc_loop iget incore junk fuel s)"

definition ifree :: "int \<Rightarrow> vol \<Rightarrow> vol outcome" where
  "ifree ino s =
     (let f = (sb s)\<lparr>fs_tinode := (fs_tinode (sb s) + 1) mod 65536\<rparr> in
      if fs_ilock f then Ok (s\<lparr>sb := f\<rparr>)
      else if fs_ninode f \<ge> NICINOD
      then Ok (s\<lparr>sb := (if fs_lasti f > ino then f\<lparr>fs_nbehind := fs_nbehind f + 1\<rparr> else f)\<rparr>)
      else if nat (fs_ninode f) < length (fs_inode f)
      then Ok (s\<lparr>sb := f\<lparr>fs_inode := (fs_inode f)[nat (fs_ninode f) := ino], fs_ninode := fs_ninode f + 1,
                          fs_fmod := True\<rparr>\<rparr>)
      else Fault)"

end
