(* ===== verification/Fs_Props.thy ===== *)
theory Fs_Props
  imports Fs_Alloc
begin

text \<open>
  The allocator of disk blocks hands out every free block once and loses none, through any
  sequence of allocations, releases and writes to allocated blocks; the search for inodes ends,
  returns only unused inodes and reports that there are none only if there are none. The
  interface that file systems see is the locale \<open>block_allocator\<close>.
\<close>

section \<open>The interface of a block allocator\<close>

inductive blk_step :: "('s \<Rightarrow> ('b option \<times> 's) outcome) \<Rightarrow> ('b \<Rightarrow> 's \<Rightarrow> 's outcome) \<Rightarrow> ('b \<Rightarrow> 'd \<Rightarrow> 's \<Rightarrow> 's) \<Rightarrow>
    's \<times> 'b set \<Rightarrow> 's \<times> 'b set \<Rightarrow> bool" for alloc release wr where
  gets: "alloc s = Ok (Some b, s') \<Longrightarrow> blk_step alloc release wr (s, H) (s', insert b H)"
| fails: "alloc s = Ok (None, s') \<Longrightarrow> blk_step alloc release wr (s, H) (s', H)"
| gives: "b \<in> H \<Longrightarrow> release b s = Ok s' \<Longrightarrow> blk_step alloc release wr (s, H) (s', H - {b})"
| writes: "b \<in> H \<Longrightarrow> blk_step alloc release wr (s, H) (wr b d s, H)"

locale block_allocator =
  fixes ok :: "'b set \<Rightarrow> 's \<Rightarrow> 'b list \<Rightarrow> bool"
    and alloc :: "'s \<Rightarrow> ('b option \<times> 's) outcome" and release :: "'b \<Rightarrow> 's \<Rightarrow> 's outcome"
    and wr :: "'b \<Rightarrow> 'd \<Rightarrow> 's \<Rightarrow> 's"
  assumes ok_distinct: "ok U s F \<Longrightarrow> distinct F"
    and ok_sub: "ok U s F \<Longrightarrow> set F \<subseteq> U"
    and alloc_some: "ok U s (b # F) \<Longrightarrow> \<exists>s'. alloc s = Ok (Some b, s') \<and> ok U s' F"
    and alloc_none: "ok U s [] \<Longrightarrow> \<exists>s'. alloc s = Ok (None, s') \<and> ok U s' []"
    and release_law: "ok U s F \<Longrightarrow> b \<in> U \<Longrightarrow> b \<notin> set F \<Longrightarrow> \<exists>s'. release b s = Ok s' \<and> ok U s' (b # F)"
    and write_law: "ok U s F \<Longrightarrow> b \<notin> set F \<Longrightarrow> ok U (wr b d s) F"
begin

text \<open>What the client holds is apart from what is free, and together they are what there was.\<close>

definition shares :: "'b set \<Rightarrow> 'b set \<Rightarrow> 's \<times> 'b set \<Rightarrow> bool" where
  "shares U T x \<longleftrightarrow> (\<exists>F. ok U (fst x) F \<and> snd x \<inter> set F = {} \<and> snd x \<union> set F = T \<and> T \<subseteq> U)"

lemma step_shares:
  assumes "blk_step alloc release wr x y" "shares U T x"
  shows "shares U T y"
  using assms
proof (cases rule: blk_step.cases)
  case (gets s b s' H)
  from assms(2) obtain F where F: "ok U s F" "H \<inter> set F = {}" "H \<union> set F = T" "T \<subseteq> U"
    unfolding shares_def gets(1) by auto
  show ?thesis
  proof (cases F)
    case Nil then show ?thesis using alloc_none F(1) gets by fastforce
  next
    case (Cons c G)
    then have "ok U s' G" "c = b" using alloc_some[of U s c G] F(1) gets(3) by auto
    moreover have "distinct (c # G)" using ok_distinct F(1) Cons by blast
    ultimately show ?thesis using F Cons unfolding shares_def gets(2) by (intro exI[of _ G]) auto
  qed
next
  case (fails s s' H)
  from assms(2) obtain F where F: "ok U s F" "H \<inter> set F = {}" "H \<union> set F = T" "T \<subseteq> U"
    unfolding shares_def fails(1) by auto
  have "F = []"
  proof (cases F)
    case (Cons c G) then show ?thesis using alloc_some[of U s c G] F(1) fails(3) by auto
  qed
  then show ?thesis using alloc_none[of U s] F fails(3) unfolding shares_def fails(2) by auto
next
  case (gives b H s s')
  from assms(2) obtain F where F: "ok U s F" "H \<inter> set F = {}" "H \<union> set F = T" "T \<subseteq> U"
    unfolding shares_def gives(1) by auto
  then have "ok U s' (b # F)" using release_law[of U s F b] gives(3,4) by auto
  then show ?thesis using F gives(3) unfolding shares_def gives(2) by (intro exI[of _ "b # F"]) auto
next
  case (writes b H s d)
  from assms(2) obtain F where F: "ok U s F" "H \<inter> set F = {}" "H \<union> set F = T" "T \<subseteq> U"
    unfolding shares_def writes(1) by auto
  then show ?thesis using write_law[of U s F b d] writes(3) unfolding shares_def writes(2) by (intro exI[of _ F]) auto
qed

lemma run_shares: "(blk_step alloc release wr)\<^sup>*\<^sup>* x y \<Longrightarrow> shares U T x \<Longrightarrow> shares U T y"
  by (induction rule: rtranclp_induct) (auto intro: step_shares)

end

section \<open>The chain of free blocks\<close>

text \<open>
  \<open>flist D E c bl\<close>: with the batch \<open>c\<close> in the super block, the blocks \<open>bl\<close> will be handed out, in
  this order.
\<close>

inductive flist :: "(int \<Rightarrow> fblk) \<Rightarrow> int list \<Rightarrow> int list \<Rightarrow> bool" for D where
  none: "flist D [] []"
| last: "flist D (0 # xs) (rev xs)"
| link: "b \<noteq> 0 \<Longrightarrow> 0 < df_nfree (D b) \<Longrightarrow> df_nfree (D b) \<le> NICFREE \<Longrightarrow> length (df_free (D b)) = 50 \<Longrightarrow>
     flist D (take (nat (df_nfree (D b))) (df_free (D b))) rest \<Longrightarrow> flist D (b # xs) (rev xs @ b # rest)"

inductive_cases flist_ConsE: "flist D (x # xs) bl"

lemma flist_cong:
  "flist D c bl \<Longrightarrow> (\<And>b. b \<in> set bl \<Longrightarrow> D' b = D b) \<Longrightarrow> flist D' c bl"
proof (induction rule: flist.induct)
  case (link b rest xs)
  have "flist D' (take (nat (df_nfree (D b))) (df_free (D b))) rest" using link by auto
  moreover have "D' b = D b" using link(7) by auto
  ultimately show ?case using link(1-4) by (intro flist.link) auto
qed (auto intro: flist.intros)

lemma flist_snoc: "flist D (x # xs) bl \<Longrightarrow> flist D (x # xs @ [b]) (b # bl)"
proof (erule flist_ConsE)
  assume "x = 0" "bl = rev xs"
  then show ?thesis using flist.last[of D "xs @ [b]"] by simp
next
  fix rest assume "bl = rev xs @ x # rest" "x \<noteq> 0" "0 < df_nfree (D x)" "df_nfree (D x) \<le> NICFREE"
    "length (df_free (D x)) = 50" "flist D (take (nat (df_nfree (D x))) (df_free (D x))) rest"
  then show ?thesis using flist.link[of x D rest "xs @ [b]"] by simp
qed

lemma flist_unsnoc:
  assumes "flist D (x # xs @ [y]) bl"
  shows "\<exists>r. bl = y # r \<and> flist D (x # xs) r"
  using assms
proof (rule flist_ConsE)
  assume "x = 0" "bl = rev (xs @ [y])"
  then show ?thesis using flist.last[of D xs] by auto
next
  fix rest assume "bl = rev (xs @ [y]) @ x # rest" "x \<noteq> 0" "0 < df_nfree (D x)" "df_nfree (D x) \<le> NICFREE"
    "length (df_free (D x)) = 50" "flist D (take (nat (df_nfree (D x))) (df_free (D x))) rest"
  then show ?thesis using flist.link[of x D rest xs] by auto
qed

definition data_blocks :: "fs \<Rightarrow> int set" where
  "data_blocks f = {b. \<not> badblock f b}"

definition fs_ok :: "int set \<Rightarrow> vol \<Rightarrow> int list \<Rightarrow> bool" where
  "fs_ok U s bl \<longleftrightarrow> U = data_blocks (sb s) \<and> 0 < fs_isize (sb s) \<and> length (fs_free (sb s)) = 50 \<and> 0 \<le> fs_nfree (sb s) \<and>
     fs_nfree (sb s) \<le> NICFREE \<and> flist (fblks s) (take (nat (fs_nfree (sb s))) (fs_free (sb s))) bl \<and>
     distinct bl \<and> set bl \<subseteq> U \<and> fs_tfree (sb s) = int (length bl) \<and> \<not> fs_flock (sb s) \<and>
     (\<forall>b\<in>U. \<not> rderr s b)"

lemma batch_snoc:
  assumes "0 < n" "n \<le> int (length l)"
  shows "take (nat n) l = take (nat (n - 1)) l @ [l ! nat (n - 1)]"
proof -
  have "nat n = Suc (nat (n - 1))" "nat (n - 1) < length l" using assms by auto
  then show ?thesis by (metis take_Suc_conv_app_nth)
qed

lemma nospace_ok:
  assumes "fs_ok U s []"
  shows "\<exists>s'. nospace (s\<lparr>sb := (sb s)\<lparr>fs_nfree := n\<rparr>\<rparr>) = Ok (None, s') \<and> fs_ok U s' []"
  using assms by (auto simp: nospace_def fs_ok_def data_blocks_def badblock_def intro: flist.none)

text \<open>Picking from a batch whose last number is a data block, or the end mark.\<close>

lemma pick_block:
  assumes "fs_ok U s bl" "0 < fs_nfree (sb s)" "fs_free (sb s) ! nat (fs_nfree (sb s) - 1) = b" "b \<in> U"
  shows "balloc_pick (sb s) = Ok (Some b, (sb s)\<lparr>fs_nfree := fs_nfree (sb s) - 1\<rparr>)"
proof -
  have "nat (fs_nfree (sb s) - 1) < length (fs_free (sb s))" "b \<noteq> 0" "\<not> badblock (sb s) b"
    using assms by (auto simp: fs_ok_def NICFREE_def data_blocks_def badblock_def)
  then show ?thesis using assms by (simp add: Let_def fs_ok_def badblock_def)
qed

lemma pick_end:
  assumes "fs_ok U s bl" "0 < fs_nfree (sb s)" "fs_free (sb s) ! nat (fs_nfree (sb s) - 1) = 0"
  shows "balloc_pick (sb s) = Ok (None, (sb s)\<lparr>fs_nfree := fs_nfree (sb s) - 1\<rparr>)"
proof -
  have "nat (fs_nfree (sb s) - 1) < length (fs_free (sb s))" using assms by (auto simp: fs_ok_def NICFREE_def)
  then show ?thesis using assms by (simp add: Let_def fs_ok_def)
qed

lemma batch_None:
  assumes "fs_ok U s bl" "fs_nfree (sb s) = 0"
  shows "bl = []"
  using assms by (auto simp: fs_ok_def elim: flist.cases)

lemma balloc_some:
  assumes ok: "fs_ok U s (b # bl)"
  shows "\<exists>s'. balloc s = Ok (Some b, s') \<and> fs_ok U s' bl"
proof -
  let ?n = "fs_nfree (sb s)" and ?l = "fs_free (sb s)"
  have n: "0 < ?n" "?n \<le> 50" "length ?l = 50"
    using batch_None[OF ok] ok by (auto simp: fs_ok_def NICFREE_def intro: order_le_neq_trans)
  define c where "c = take (nat (?n - 1)) ?l"
  define y where "y = ?l ! nat (?n - 1)"
  have tk: "take (nat ?n) ?l = c @ [y]" unfolding c_def y_def by (rule batch_snoc) (use n in auto)
  then have fl: "flist (fblks s) (c @ [y]) (b # bl)" using ok by (simp add: fs_ok_def)
  have bU: "b \<in> U" "set bl \<subseteq> U" "distinct bl" "b \<notin> set bl" using ok by (auto simp: fs_ok_def)
  show ?thesis
  proof (cases c)
    case Nil
    then have n1: "?n = 1" using n unfolding c_def by auto
    have "flist (fblks s) [y] (b # bl)" using fl Nil by simp
    then have y: "y = b" and D: "0 < df_nfree (fblks s b)" "df_nfree (fblks s b) \<le> NICFREE"
      "length (df_free (fblks s b)) = 50" "flist (fblks s) (take (nat (df_nfree (fblks s b))) (df_free (fblks s b))) bl"
      by (auto elim: flist_ConsE)
    have pk: "balloc_pick (sb s) = Ok (Some b, (sb s)\<lparr>fs_nfree := ?n - 1\<rparr>)"
      by (rule pick_block[OF ok n(1) _ bU(1)]) (use y y_def in simp)
    have "\<not> rderr s b" using ok bU(1) by (simp add: fs_ok_def)
    then show ?thesis
      using ok pk n1 D bU
      by (simp add: balloc_def balloc_refill_def balloc_done_def Let_def fs_ok_def data_blocks_def badblock_def
          del: balloc_pick.simps)
  next
    case (Cons x xs)
    have "flist (fblks s) (x # xs @ [y]) (b # bl)" using fl Cons by simp
    then have y: "y = b" and fl': "flist (fblks s) c bl" using flist_unsnoc Cons by fastforce+
    have pk: "balloc_pick (sb s) = Ok (Some b, (sb s)\<lparr>fs_nfree := ?n - 1\<rparr>)"
      by (rule pick_block[OF ok n(1) _ bU(1)]) (use y y_def in simp)
    have "?n \<noteq> 1" using Cons unfolding c_def by auto
    then show ?thesis
      using ok pk n fl' bU unfolding c_def
      by (simp add: balloc_def balloc_done_def Let_def fs_ok_def data_blocks_def badblock_def NICFREE_def
          del: balloc_pick.simps)
  qed
qed

lemma balloc_none:
  assumes ok: "fs_ok U s []"
  shows "\<exists>s'. balloc s = Ok (None, s') \<and> fs_ok U s' []"
proof -
  let ?n = "fs_nfree (sb s)" and ?l = "fs_free (sb s)"
  have fl: "flist (fblks s) (take (nat ?n) ?l) []" and lk: "\<not> fs_flock (sb s)" using ok by (simp_all add: fs_ok_def)
  have "balloc_pick (sb s) = Ok (None, (sb s)\<lparr>fs_nfree := 0\<rparr>)"
  proof (cases "?n = 0")
    case True then show ?thesis by simp
  next
    case False
    then have n: "0 < ?n" "?n \<le> int (length ?l)" using ok by (auto simp: fs_ok_def NICFREE_def)
    note tk = batch_snoc[OF n]
    have "take (nat ?n) ?l = [0]" using fl tk by (cases rule: flist.cases) auto
    then have "?n = 1" "?l ! 0 = 0" using tk n by auto
    then show ?thesis using pick_end[OF ok n(1)] by simp
  qed
  then show ?thesis
    using nospace_ok[OF ok, of 0] lk by (simp add: balloc_def del: balloc_pick.simps)
qed

lemma bfree_ok:
  assumes ok: "fs_ok U s bl" and b: "b \<in> U" "b \<notin> set bl"
  shows "\<exists>s'. bfree b s = Ok s' \<and> fs_ok U s' (b # bl)"
proof -
  let ?n = "fs_nfree (sb s)" and ?l = "fs_free (sb s)"
  have o: "U = data_blocks (sb s)" "length ?l = 50" "0 \<le> ?n" "?n \<le> 50" "flist (fblks s) (take (nat ?n) ?l) bl"
    "distinct bl" "set bl \<subseteq> U" "\<not> fs_flock (sb s)" "0 < fs_isize (sb s)" "fs_tfree (sb s) = int (length bl)"
    using ok by (auto simp: fs_ok_def NICFREE_def)
  have nb: "\<not> badblock (sb s) b" "b \<noteq> 0" using b(1) o(1,9) by (auto simp: data_blocks_def badblock_def)
  note dd = bfree_def Let_def fs_ok_def data_blocks_def badblock_def NICFREE_def
  consider "?n = 0" | "0 < ?n" "?n < 50" | "?n = 50" using o(3,4) by linarith
  then show ?thesis
  proof cases
    case 1
    then have "bl = []" using batch_None[OF ok] by blast
    moreover have "take 2 (?l[0 := 0, Suc 0 := b]) = [0, b]"
      using o(2) by (simp add: take_Suc_conv_app_nth numeral_2_eq_2)
    moreover have "flist (fblks s) [0, b] [b]" using flist.last[of _ "[b]"] by simp
    ultimately show ?thesis using ok 1 nb b o by (auto simp: dd)
  next
    case 2
    obtain x xs where c: "take (nat ?n) ?l = x # xs" using 2 o(2) by (cases "take (nat ?n) ?l") auto
    have "take (nat (?n + 1)) (?l[nat ?n := b]) = take (nat ?n) ?l @ [b]"
      using 2 o(2) by (simp add: nat_add_distrib take_Suc_conv_app_nth)
    then have "flist (fblks s) (take (nat (?n + 1)) (?l[nat ?n := b])) (b # bl)"
      using flist_snoc[of "fblks s" x xs bl b] o(5) c by simp
    then show ?thesis using ok 2 nb b o by (auto simp: dd)
  next
    case 3
    let ?D = "(fblks s)(b := \<lparr>df_nfree = ?n, df_free = ?l\<rparr>)"
    have "flist ?D (take (nat ?n) ?l) bl" by (rule flist_cong[OF o(5)]) (use b in auto)
    then have "flist ?D [b] (b # bl)" using flist.link[of b ?D bl "[]"] 3 nb o by (simp add: NICFREE_def)
    moreover have "take (Suc 0) (?l[0 := b]) = [b]" using o(2) by (cases ?l) auto
    ultimately show ?thesis using ok 3 nb b o by (auto simp: dd)
  qed
qed

text \<open>Writing data to a block that is not free.\<close>

definition write_data :: "int \<Rightarrow> fblk \<Rightarrow> vol \<Rightarrow> vol" where
  "write_data b d s = s\<lparr>fblks := (fblks s)(b := d)\<rparr>"

interpretation disk: block_allocator fs_ok balloc bfree write_data
proof
  show "fs_ok U s F \<Longrightarrow> distinct F" "fs_ok U s F \<Longrightarrow> set F \<subseteq> U" for U s F by (auto simp: fs_ok_def)
  show "fs_ok U s (b # F) \<Longrightarrow> \<exists>s'. balloc s = Ok (Some b, s') \<and> fs_ok U s' F" for U s b F by (rule balloc_some)
  show "fs_ok U s [] \<Longrightarrow> \<exists>s'. balloc s = Ok (None, s') \<and> fs_ok U s' []" for U s by (rule balloc_none)
  show "fs_ok U s F \<Longrightarrow> b \<in> U \<Longrightarrow> b \<notin> set F \<Longrightarrow> \<exists>s'. bfree b s = Ok s' \<and> fs_ok U s' (b # F)" for U s F b
    by (rule bfree_ok)
  show "fs_ok U s F \<Longrightarrow> b \<notin> set F \<Longrightarrow> fs_ok U (write_data b d s) F" for U s F b d
    by (auto simp: fs_ok_def write_data_def data_blocks_def intro: flist_cong)
qed

section \<open>Inodes\<close>

definition cached :: "fs \<Rightarrow> int list" where
  "cached f = take (nat (fs_ninode f)) (fs_inode f)"

definition icache_ok :: "fs \<Rightarrow> bool" where
  "icache_ok f \<longleftrightarrow> length (fs_inode f) = 100 \<and> 0 \<le> fs_ninode f \<and> fs_ninode f \<le> NICINOD"

text \<open>The search adds unused inodes of a range to the cache, all of them if it does not fill up.\<close>

definition found :: "(int \<Rightarrow> bool) \<Rightarrow> int set \<Rightarrow> fs \<Rightarrow> fs \<Rightarrow> bool" where
  "found unused A f f' \<longleftrightarrow> icache_ok f' \<and> fs_isize f' = fs_isize f \<and> (\<exists>new. cached f' = cached f @ new \<and>
     (\<forall>x\<in>set new. unused x \<and> x \<in> A) \<and> (fs_ninode f' < NICINOD \<longrightarrow> (\<forall>x\<in>A. unused x \<longrightarrow> x \<in> set new)))"

lemma found_mono: "found un A f f' \<Longrightarrow> A \<subseteq> B \<Longrightarrow> (fs_ninode f' < NICINOD \<Longrightarrow> \<forall>x\<in>B. un x \<longrightarrow> x \<in> A) \<Longrightarrow> found un B f f'"
  unfolding found_def by blast

lemma found_trans:
  assumes "found un A f g" "found un B g h"
  shows "found un (A \<union> B) f h"
proof -
  from assms obtain n1 n2 where n: "cached g = cached f @ n1" "cached h = cached g @ n2"
    "\<forall>x\<in>set n1. un x \<and> x \<in> A" "\<forall>x\<in>set n2. un x \<and> x \<in> B"
    "fs_ninode g < NICINOD \<longrightarrow> (\<forall>x\<in>A. un x \<longrightarrow> x \<in> set n1)" "fs_ninode h < NICINOD \<longrightarrow> (\<forall>x\<in>B. un x \<longrightarrow> x \<in> set n2)"
    unfolding found_def by blast
  have "length (cached g) \<le> length (cached h)" using n(2) by simp
  then have "fs_ninode g \<le> fs_ninode h" using assms by (auto simp: cached_def found_def icache_ok_def NICINOD_def)
  then show ?thesis using n assms unfolding found_def by (intro conjI exI[of _ "n1 @ n2"]) auto
qed

lemma ialloc_block_found:
  assumes "icache_ok f" "fs_ninode f < NICINOD"
  shows "\<exists>i f'. ialloc_block dm ic k ino f = Ok (i, f') \<and> found (\<lambda>x. dm x = 0 \<and> \<not> ic x) {ino..<ino + int k} f f' \<and>
    (fs_ninode f' < NICINOD \<longrightarrow> i = ino + int k)"
  using assms
proof (induction k arbitrary: ino f)
  case 0 then show ?case by (auto simp: found_def)
next
  case (Suc k)
  show ?case
  proof (cases "dm ino \<noteq> 0 \<or> ic ino")
    case True
    obtain i f' where r: "ialloc_block dm ic k (ino + 1) f = Ok (i, f')"
      "found (\<lambda>x. dm x = 0 \<and> \<not> ic x) {ino + 1..<ino + 1 + int k} f f'" "fs_ninode f' < NICINOD \<longrightarrow> i = ino + 1 + int k"
      using Suc.IH[OF Suc.prems] by blast
    have "found (\<lambda>x. dm x = 0 \<and> \<not> ic x) {ino..<ino + int (Suc k)} f f'"
      by (rule found_mono[OF r(2)]) (use True in \<open>auto simp: order_le_less\<close>)
    then show ?thesis using True r by auto
  next
    case False
    let ?g = "f\<lparr>fs_inode := (fs_inode f)[nat (fs_ninode f) := ino], fs_ninode := fs_ninode f + 1\<rparr>"
    have lt: "nat (fs_ninode f) < length (fs_inode f)" using Suc.prems by (auto simp: icache_ok_def NICINOD_def)
    have cg: "cached ?g = cached f @ [ino]"
      using lt Suc.prems by (simp add: cached_def icache_ok_def nat_add_distrib take_Suc_conv_app_nth)
    have okg: "icache_ok ?g" using Suc.prems by (auto simp: icache_ok_def)
    have fg: "found (\<lambda>x. dm x = 0 \<and> \<not> ic x) {ino} f ?g"
      unfolding found_def using okg cg False by auto
    show ?thesis
    proof (cases "fs_ninode ?g \<ge> NICINOD")
      case True
      have "found (\<lambda>x. dm x = 0 \<and> \<not> ic x) {ino..<ino + int (Suc k)} f ?g"
        by (rule found_mono[OF fg]) (use True in auto)
      then show ?thesis using False lt True by (auto simp: Let_def)
    next
      case False
      obtain i f' where r: "ialloc_block dm ic k (ino + 1) ?g = Ok (i, f')"
        "found (\<lambda>x. dm x = 0 \<and> \<not> ic x) {ino + 1..<ino + 1 + int k} ?g f'" "fs_ninode f' < NICINOD \<longrightarrow> i = ino + 1 + int k"
        using Suc.IH[OF okg] False by (meson not_le)
      have "{ino} \<union> {ino + 1..<ino + 1 + int k} = {ino..<ino + int (Suc k)}" by auto
      then have "found (\<lambda>x. dm x = 0 \<and> \<not> ic x) {ino..<ino + int (Suc k)} f f'" using found_trans[OF fg r(2)] by simp
      then show ?thesis using \<open>\<not> (dm ino \<noteq> 0 \<or> ic ino)\<close> lt False r by (auto simp: Let_def)
    qed
  qed
qed

text \<open>The inodes of the readable blocks from a block on; block 2 starts with inode 1.\<close>

definition inodes_from :: "(int \<Rightarrow> bool) \<Rightarrow> int \<Rightarrow> int \<Rightarrow> int set" where
  "inodes_from err isz adr = (\<Union>a\<in>{a \<in> {adr..<isz}. \<not> err a}. {16 * (a - 2) + 1..<16 * (a - 2) + 17})"

lemma inodes_from_step:
  "adr < isz \<Longrightarrow> inodes_from err isz adr =
     (if err adr then {} else {16 * (adr - 2) + 1..<16 * (adr - 2) + 17}) \<union> inodes_from err isz (adr + 1)"
proof -
  assume "adr < isz"
  then have "{a \<in> {adr..<isz}. \<not> err a} = (if err adr then {} else {adr}) \<union> {a \<in> {adr + 1..<isz}. \<not> err a}"
    by (auto simp: order_le_less)
  then show ?thesis by (auto simp: inodes_from_def)
qed

lemma ialloc_scan_found:
  assumes "icache_ok f" "fs_ninode f < NICINOD" "ino = 16 * (adr - 2) + 1"
  shows "\<exists>i f'. ialloc_scan dm ic err adr ino b f = Ok (i, f') \<and>
    found (\<lambda>x. dm x = 0 \<and> \<not> ic x) (inodes_from err (fs_isize f) adr) f f'"
  using assms
proof (induction dm ic err adr ino b f rule: ialloc_scan.induct)
  case (1 dm ic err adr ino b f)
  let ?un = "\<lambda>x. dm x = 0 \<and> \<not> ic x"
  show ?case
  proof (cases "adr < fs_isize f")
    case False
    then have "inodes_from err (fs_isize f) adr = {}" by (auto simp: inodes_from_def)
    then have "found ?un (inodes_from err (fs_isize f) adr) f f" using 1(3) by (auto simp: found_def)
    then show ?thesis using False by (subst ialloc_scan.simps) simp
  next
    case lt: True
    note st = inodes_from_step[OF lt, of err]
    show ?thesis
    proof (cases "err adr")
      case True
      have "ino + int INOPB = 16 * (adr + 1 - 2) + 1" using 1(5) by (simp add: INOPB_def)
      then show ?thesis using 1(1)[OF lt True 1(3,4)] st lt True
        by (subst ialloc_scan.simps) (simp del: ialloc_scan.simps)
    next
      case False
      obtain i g where r: "ialloc_block dm ic INOPB ino f = Ok (i, g)"
        "found ?un {ino..<ino + int INOPB} f g" "fs_ninode g < NICINOD \<longrightarrow> i = ino + int INOPB"
        using ialloc_block_found[OF 1(3,4)] by blast
      have rng: "{ino..<ino + int INOPB} = {16 * (adr - 2) + 1..<16 * (adr - 2) + 17}" using 1(5) by (simp add: INOPB_def)
      have g: "icache_ok g" "fs_isize g = fs_isize f" using r(2) by (auto simp: found_def)
      show ?thesis
      proof (cases "fs_ninode g \<ge> NICINOD")
        case True
        have "found ?un (inodes_from err (fs_isize f) adr) f g"
          by (rule found_mono[OF r(2)]) (use True st rng False in auto)
        then show ?thesis using lt False r(1) True by (subst ialloc_scan.simps) (simp del: ialloc_scan.simps)
      next
        case nf: False
        have i: "i = 16 * (adr + 1 - 2) + 1" using r(3) nf 1(5) by (simp add: INOPB_def)
        obtain j h where h: "ialloc_scan dm ic err (adr + 1) i ino g = Ok (j, h)"
          "found ?un (inodes_from err (fs_isize g) (adr + 1)) g h"
          using 1(2)[OF lt False r(1) refl nf g(1)] nf i by (auto simp del: ialloc_scan.simps)
        have "found ?un (inodes_from err (fs_isize f) adr) f h"
          using found_trans[OF r(2) h(2)] st rng False g(2) by simp
        then show ?thesis using lt False r(1) nf h(1) by (subst ialloc_scan.simps) (simp del: ialloc_scan.simps)
      qed
    qed
  qed
qed

lemma inodes_from_pos: "2 \<le> adr \<Longrightarrow> x \<in> inodes_from err isz adr \<Longrightarrow> 1 \<le> x"
  by (auto simp: inodes_from_def)

lemma cached_Nil: "fs_ninode f = 0 \<Longrightarrow> cached f = []"
  by (simp add: cached_def)

lemma ialloc_take_ok:
  assumes "icache_ok f" "\<And>x. iget x = Some (dm x)"
  shows "\<exists>r f'. ialloc_take iget f = Ok (r, f') \<and> icache_ok f' \<and> fs_isize f' = fs_isize f \<and>
    fs_lasti f' = fs_lasti f \<and>
    (case r of Got ino \<Rightarrow> ino \<in> set (cached f) \<and> 2 < ino \<and> dm ino = 0
     | Empty \<Rightarrow> fs_ninode f' = 0 \<and> (\<forall>x\<in>set (cached f). x \<le> 2 \<or> dm x \<noteq> 0) | Noinode \<Rightarrow> False)"
  using assms(1)
proof (induction "nat (fs_ninode f)" arbitrary: f)
  case 0
  then have "fs_ninode f = 0" by (simp add: icache_ok_def)
  then show ?case using 0 by (subst ialloc_take.simps) (simp add: cached_Nil)
next
  case (Suc n)
  let ?i = "fs_ninode f - 1"
  let ?f = "f\<lparr>fs_ninode := ?i\<rparr>" and ?ino = "fs_inode f ! nat ?i"
  have pos: "0 < fs_ninode f" and lt: "nat ?i < length (fs_inode f)"
    using Suc by (auto simp: icache_ok_def NICINOD_def)
  have ok: "icache_ok ?f" using Suc pos by (auto simp: icache_ok_def)
  have c: "cached f = cached ?f @ [?ino]"
    unfolding cached_def using batch_snoc[OF pos, of "fs_inode f"] lt pos by simp
  have n: "n = nat (fs_ninode ?f)" using Suc(2) by simp
  obtain r f' where r: "ialloc_take iget ?f = Ok (r, f')" "icache_ok f'" "fs_isize f' = fs_isize f"
    "fs_lasti f' = fs_lasti f"
    "case r of Got ino \<Rightarrow> ino \<in> set (cached ?f) \<and> 2 < ino \<and> dm ino = 0
     | Empty \<Rightarrow> fs_ninode f' = 0 \<and> (\<forall>x\<in>set (cached ?f). x \<le> 2 \<or> dm x \<noteq> 0) | Noinode \<Rightarrow> False"
    using Suc(1)[OF n ok] by auto
  show ?case
  proof (cases "?ino \<le> 2 \<or> dm ?ino \<noteq> 0")
    case True
    then have "ialloc_take iget f = Ok (r, f')"
      using pos lt r(1) assms(2) by (subst ialloc_take.simps) (auto simp: Let_def ROOTINO_def simp del: ialloc_take.simps)
    then show ?thesis using r True c by (auto split: itake.splits)
  next
    case False
    then have "ialloc_take iget f = Ok (Got ?ino, ?f\<lparr>fs_fmod := True, fs_tinode := (fs_tinode ?f - 1) mod 65536\<rparr>)"
      using pos lt assms(2) by (subst ialloc_take.simps) (simp add: Let_def ROOTINO_def del: ialloc_take.simps)
    then show ?thesis using ok False c by (auto simp: icache_ok_def)
  qed
qed

lemma ialloc_fill_ok:
  assumes ok: "icache_ok f" "fs_ninode f = 0" and l: "fs_lasti f = 16 * k + 1" "0 \<le> k"
  shows "\<exists>f'. ialloc_fill dm ic err junk f = Ok f' \<and> icache_ok f' \<and>
    (\<forall>x\<in>set (cached f'). dm x = 0 \<and> \<not> ic x \<and> 1 \<le> x) \<and>
    (fs_ninode f' = 0 \<longrightarrow> (\<forall>x\<in>inodes_from err (fs_isize f) 2. dm x \<noteq> 0 \<or> ic x))"
proof -
  let ?un = "\<lambda>x. dm x = 0 \<and> \<not> ic x"
  have top: "\<exists>i f'. ialloc_top dm ic err b g = Ok (i, f') \<and> found ?un (inodes_from err (fs_isize g) 2) g f'"
    if "icache_ok g" "fs_ninode g = 0" for b g
  proof -
    let ?g = "g\<lparr>fs_nbehind := 0\<rparr>"
    have "icache_ok ?g" "fs_ninode ?g < NICINOD" using that by (auto simp: icache_ok_def NICINOD_def)
    from ialloc_scan_found[OF this, of 1 2 dm ic err b] show ?thesis
      by (auto simp: ialloc_top_def SUPERB_def found_def cached_def simp del: ialloc_scan.simps)
  qed
  define P where "P f' \<longleftrightarrow> icache_ok f' \<and> (\<forall>x\<in>set (cached f'). ?un x \<and> 1 \<le> x) \<and>
    (fs_ninode f' = 0 \<longrightarrow> (\<forall>x\<in>inodes_from err (fs_isize f) 2. \<not> ?un x))" for f'
  have fin: "P f'" if "found ?un (inodes_from err (fs_isize f) a) g f'" "fs_ninode g = 0" "2 \<le> a"
      "fs_ninode f' < NICINOD \<Longrightarrow> a = 2" for a g f'
  proof -
    have c: "cached g = []" using that(2) by (rule cached_Nil)
    have e: "fs_ninode f' = 0 \<Longrightarrow> cached f' = []" by (rule cached_Nil)
    show ?thesis using that c e inodes_from_pos[OF that(3)] unfolding P_def found_def by (auto simp: NICINOD_def)
  qed
  have wrap: "P (f'\<lparr>fs_lasti := i, fs_ilock := False\<rparr>) = P f'" for f' i by (simp add: P_def icache_ok_def cached_def)
  have "\<exists>i f'. (if fs_nbehind f < 4 * NICINOD
        then obind (ialloc_scan dm ic err (itod (fs_lasti f)) (fs_lasti f) junk f) (\<lambda>r.
               if fs_ninode (snd r) < NICINOD
               then ialloc_top dm ic err (fst r) ((snd r)\<lparr>fs_ninode := 0\<rparr>) else Ok r)
        else ialloc_top dm ic err junk f) = Ok (i, f') \<and> P f'"
  proof (cases "fs_nbehind f < 4 * NICINOD")
    case False
    obtain i f' where "ialloc_top dm ic err junk f = Ok (i, f')" "found ?un (inodes_from err (fs_isize f) 2) f f'"
      using top[OF ok] by blast
    then show ?thesis using False fin[of 2 f f'] ok(2) by simp
  next
    case True
    have adr: "itod (fs_lasti f) = k + 2" using l by (simp add: itod_def INOPB_def)
    obtain i g where g: "ialloc_scan dm ic err (k + 2) (fs_lasti f) junk f = Ok (i, g)"
      "found ?un (inodes_from err (fs_isize f) (k + 2)) f g"
      using ialloc_scan_found[OF ok(1), of "fs_lasti f" "k + 2" dm ic err junk] ok(2) l
      by (auto simp: NICINOD_def simp del: ialloc_scan.simps)
    show ?thesis
    proof (cases "fs_ninode g < NICINOD")
      case False
      then show ?thesis using True adr g fin[OF g(2) ok(2)] l by (simp del: ialloc_scan.simps)
    next
      case lt: True
      let ?g = "g\<lparr>fs_ninode := 0\<rparr>"
      have "icache_ok ?g" "fs_isize g = fs_isize f" using g(2) by (auto simp: found_def icache_ok_def NICINOD_def)
      then obtain j f' where "ialloc_top dm ic err i ?g = Ok (j, f')" "found ?un (inodes_from err (fs_isize f) 2) ?g f'"
        using top[of ?g i] by auto
      then show ?thesis using True adr g(1) lt fin[of 2 ?g f'] by (simp del: ialloc_scan.simps)
    qed
  qed
  then obtain i f' where "ialloc_fill dm ic err junk f = Ok (f'\<lparr>fs_lasti := i, fs_ilock := False\<rparr>)" "P f'"
    unfolding ialloc_fill_def by (auto simp del: ialloc_scan.simps)
  then show ?thesis using wrap[of i f'] unfolding P_def by auto
qed

text \<open>
  The state an inode allocation may assume: the cache has its size, the search resumes at the
  start of a block, and inodes 1 and 2 are in use.
\<close>

definition ilist_ok :: "vol \<Rightarrow> bool" where
  "ilist_ok s \<longleftrightarrow> icache_ok (sb s) \<and> \<not> fs_ilock (sb s) \<and> (\<exists>k\<ge>0. fs_lasti (sb s) = 16 * k + 1) \<and>
     dmode s 1 \<noteq> 0 \<and> dmode s 2 \<noteq> 0"

lemma ialloc_ok:
  assumes ok: "ilist_ok s" and ig: "\<And>x. iget x = Some (dmode s x)"
  shows "\<exists>r s'. ialloc False iget incore junk 2 s = Some (Ok (r, s')) \<and>
    (case r of Some ino \<Rightarrow> 2 < ino \<and> dmode s ino = 0
     | None \<Rightarrow> \<forall>x\<in>inodes_from (rderr s) (fs_isize (sb s)) 2. dmode s x \<noteq> 0 \<or> incore x)"
proof -
  from ok obtain k where o: "icache_ok (sb s)" "\<not> fs_ilock (sb s)" "0 \<le> k" "fs_lasti (sb s) = 16 * k + 1"
    "dmode s 1 \<noteq> 0" "dmode s 2 \<noteq> 0" by (auto simp: ilist_ok_def)
  obtain r f where r: "ialloc_take iget (sb s) = Ok (r, f)" "icache_ok f" "fs_isize f = fs_isize (sb s)"
    "fs_lasti f = fs_lasti (sb s)"
    "case r of Got ino \<Rightarrow> ino \<in> set (cached (sb s)) \<and> 2 < ino \<and> dmode s ino = 0
     | Empty \<Rightarrow> fs_ninode f = 0 \<and> (\<forall>x\<in>set (cached (sb s)). x \<le> 2 \<or> dmode s x \<noteq> 0) | Noinode \<Rightarrow> False"
    using ialloc_take_ok[of "sb s" iget "dmode s", OF o(1) ig] by (elim exE conjE)
  have two: "ialloc False iget incore junk 2 s = ialloc_loop iget incore junk (Suc (Suc 0)) s"
    using o(2) by (simp add: ialloc_def numeral_2_eq_2)
  show ?thesis
  proof (cases r)
    case (Got ino)
    then show ?thesis unfolding two using r by simp
  next
    case Noinode then show ?thesis using r by simp
  next
    case Empty
    have e: "fs_ninode f = 0" "fs_lasti f = 16 * k + 1" using r(4,5) Empty o(4) by simp_all
    obtain g where g: "ialloc_fill (dmode s) incore (rderr s) junk f = Ok g" "icache_ok g"
      "\<forall>x\<in>set (cached g). dmode s x = 0 \<and> \<not> incore x \<and> 1 \<le> x"
      "fs_ninode g = 0 \<longrightarrow> (\<forall>x\<in>inodes_from (rderr s) (fs_isize f) 2. dmode s x \<noteq> 0 \<or> incore x)"
      using ialloc_fill_ok[OF r(2) e o(3), of "dmode s" incore "rderr s" junk] by (elim exE conjE)
    show ?thesis
    proof (cases "fs_ninode g > 0")
      case False
      then have "fs_ninode g = 0" using g(2) by (auto simp: icache_ok_def)
      then show ?thesis unfolding two using r(1,3) Empty g(1,4) by simp
    next
      case True
      obtain r' f' where r': "ialloc_take iget g = Ok (r', f')"
        "case r' of Got ino \<Rightarrow> ino \<in> set (cached g) \<and> 2 < ino \<and> dmode s ino = 0
         | Empty \<Rightarrow> fs_ninode f' = 0 \<and> (\<forall>x\<in>set (cached g). x \<le> 2 \<or> dmode s x \<noteq> 0) | Noinode \<Rightarrow> False"
        using ialloc_take_ok[of g iget "dmode s", OF g(2) ig] by (elim exE conjE)
      have "cached g \<noteq> []" using True g(2) by (auto simp: cached_def icache_ok_def)
      then obtain x where x: "x \<in> set (cached g)" by (cases "cached g") auto
      have "x \<noteq> 1" "x \<noteq> 2" "dmode s x = 0" "1 \<le> x" using g(3) x o(5,6) by auto
      then have "\<not> (x \<le> 2 \<or> dmode s x \<noteq> 0)" by auto
      then obtain ino where "r' = Got ino" using r'(2) x by (cases r') auto
      then show ?thesis unfolding two using r(1) Empty g(1) True r' by simp
    qed
  qed
qed

section \<open>Properties\<close>

text \<open>A volume of seven data blocks, 3 to 9, of which 5, 6 and 7 are free; inode 3 is unused.\<close>

definition vol0 :: vol where
  "vol0 = \<lparr>sb = \<lparr>fs_isize = 3, fs_fsize = 10, fs_nfree = 4, fs_free = [0, 5, 6, 7] @ replicate 46 0, fs_ninode = 0,
      fs_inode = replicate 100 0, fs_flock = False, fs_fmod = False, fs_ilock = False, fs_tfree = 3,
      fs_tinode = 1, fs_lasti = 1, fs_nbehind = 0\<rparr>,
     fblks = (\<lambda>b. \<lparr>df_nfree = 0, df_free = []\<rparr>), rderr = (\<lambda>b. False),
     dsb = \<lparr>fs_isize = 3, fs_fsize = 10, fs_nfree = 0, fs_free = [], fs_ninode = 0, fs_inode = [], fs_flock = False,
      fs_fmod = False, fs_ilock = False, fs_tfree = 0, fs_tinode = 0, fs_lasti = 1, fs_nbehind = 0\<rparr>,
     dmode = (\<lambda>i. if i = 3 then 0 else 1)\<rparr>"

lemma vol0_ok: "fs_ok {3..9} vol0 [7, 6, 5]"
  using flist.last[of "\<lambda>b. \<lparr>df_nfree = 0, df_free = []\<rparr>" "[5, 6, 7]"]
  by (auto simp: fs_ok_def vol0_def data_blocks_def badblock_def NICFREE_def)

text \<open>
  C25. \<^verbatim>\<open>balloc\<close> hands out the free blocks one by one in the order of the free list, reading the
  next batch from disk when the cache is used up, and keeps the count of free blocks right; it
  reports a full file system exactly when no block is free. \<^verbatim>\<open>free\<close> makes a block the next one to
  be handed out, spilling a full cache into it.
\<close>

theorem balloc_free_list:
  assumes "fs_ok U s bl"
  shows "(case bl of [] \<Rightarrow> \<exists>s'. balloc s = Ok (None, s') \<and> fs_ok U s' []
          | b # r \<Rightarrow> \<exists>s'. balloc s = Ok (Some b, s') \<and> fs_ok U s' r) \<and>
    (\<forall>b\<in>U - set bl. \<exists>s'. bfree b s = Ok s' \<and> fs_ok U s' (b # bl))"
  using assms balloc_none balloc_some bfree_ok by (auto split: list.split)

theorem balloc_free_list_witness:
  "fs_ok {3..9} vol0 [7, 6, 5] \<and> (\<exists>s'. balloc vol0 = Ok (Some 7, s') \<and> fs_ok {3..9} s' [6, 5]) \<and>
   (\<exists>s'. bfree 4 vol0 = Ok s' \<and> fs_ok {3..9} s' [4, 7, 6, 5])"
  using balloc_free_list[OF vol0_ok] vol0_ok by auto

text \<open>
  C7. No disk block is ever allocated twice and none is lost: through any sequence of
  allocations, releases of held blocks and writes to held blocks, the blocks in use and the free
  blocks stay disjoint and together are the blocks there were; a newly allocated block is never
  one in use.
\<close>

theorem no_block_allocated_twice:
  assumes "fs_ok U s0 bl0" and "H0 \<inter> set bl0 = {}" and "H0 \<subseteq> U"
    and "(blk_step balloc bfree write_data)\<^sup>*\<^sup>* (s0, H0) (s, H)"
  shows "\<exists>bl. fs_ok U s bl \<and> H \<inter> set bl = {} \<and> H \<union> set bl = H0 \<union> set bl0 \<and>
    (\<forall>b s'. balloc s = Ok (Some b, s') \<longrightarrow> b \<notin> H)"
proof -
  have "set bl0 \<subseteq> U" by (rule disk.ok_sub[OF assms(1)])
  then have "disk.shares U (H0 \<union> set bl0) (s0, H0)"
    using assms(1-3) unfolding disk.shares_def by (intro exI[of _ bl0]) auto
  from disk.run_shares[OF assms(4) this] obtain bl where bl: "fs_ok U s bl" "H \<inter> set bl = {}"
    "H \<union> set bl = H0 \<union> set bl0" unfolding disk.shares_def by auto
  have "b \<notin> H" if "balloc s = Ok (Some b, s')" for b s'
    using bl(1,2) that balloc_none[of U s] balloc_some[of U s] by (cases bl) auto
  then show ?thesis using bl by blast
qed

theorem no_block_allocated_twice_witness:
  "\<exists>s. (blk_step balloc bfree write_data)\<^sup>*\<^sup>* (vol0, {3}) (s, {3, 7}) \<and>
     (\<forall>b s'. balloc s = Ok (Some b, s') \<longrightarrow> b \<notin> {3, 7})"
proof -
  obtain s where s: "balloc vol0 = Ok (Some 7, s)" using balloc_some[OF vol0_ok] by blast
  have st: "(blk_step balloc bfree write_data)\<^sup>*\<^sup>* (vol0, {3}) (s, insert 7 {3})"
    using blk_step.gets[of balloc vol0 7 s bfree write_data "{3}", OF s] by blast
  have "{3::int} \<inter> set [7, 6, 5] = {}" "{3::int} \<subseteq> {3..9}" by auto
  from no_block_allocated_twice[OF vol0_ok this st] st show ?thesis
    by (intro exI[of _ s]) (auto simp: insert_commute)
qed



end
