(* ===== verification/Desc.thy ===== *)
theory Desc
  imports Prelude
begin

text \<open>
  File descriptors and the table of open files: \<^verbatim>\<open>sys/sys/kern_descrip.c\<close>, with the advisory locks
  \<^verbatim>\<open>ino_lock\<close> and \<^verbatim>\<open>ino_unlock\<close> of \<^verbatim>\<open>sys/sys/sys_inode.c\<close>. Descriptors of the current process are
  the lists \<open>ofile\<close> (an index into the file table, \<open>None\<close> for a null pointer) and \<open>pofile\<close>. The flag
  values of \<^verbatim>\<open>fcntl.h\<close> are symbolic: a flag word is a set of flags. Reference counts are
  8-bit words, as in \<^verbatim>\<open>struct file\<close>. What the operations of the file types do
  (\<^verbatim>\<open>fo_close\<close>, \<^verbatim>\<open>fo_ioctl\<close>, \<^verbatim>\<open>ino_stat\<close>) is an argument.
\<close>

section \<open>State\<close>

datatype fflag = FREAD | FWRITE | FAPPEND | FNONBLOCK | FASYNC | FSHLOCK | FEXLOCK
datatype dtype = DTYPE_INODE | DTYPE_SOCKET | DTYPE_PIPE
datatype lockop = LOCK_SH | LOCK_EX | LOCK_NB | LOCK_UN

record filent =
  f_flag :: "fflag set"
  f_type :: dtype
  f_count :: u8
  f_data :: nat
  f_offset :: int

record ilock =
  i_shlockc :: u8
  i_exlockc :: u8
  ISHLOCK :: bool
  IEXLOCK :: bool
  ILWAIT :: bool

record desc =
  files :: "filent list"
  lastf :: nat
  ofile :: "nat option list"
  pofile :: "u8 list"
  lastfile :: int
  ilocks :: "nat \<Rightarrow> ilock"
  so_pgrp :: "nat \<Rightarrow> int"

definition NOFILE :: nat where "NOFILE = 30"

abbreviation "UF_EXCLOSE \<equiv> (1 :: u8)"

definition upd_file :: "nat \<Rightarrow> (filent \<Rightarrow> filent) \<Rightarrow> desc \<Rightarrow> desc" where
  "upd_file fp g s = s\<lparr>files := (files s)[fp := g (files s ! fp)]\<rparr>"

section \<open>Advisory locks\<close>

definition ino_unlock :: "nat \<Rightarrow> fflag set \<Rightarrow> desc \<Rightarrow> desc" where
  "ino_unlock fp kind0 s =
     (let f = files s ! fp; ip = f_data f; kind = kind0 \<inter> f_flag f; wait = ILWAIT (ilocks s ip) in
      if ip = 0 \<or> kind = {} then s
      else let s1 = (if FSHLOCK \<in> kind
                     then let l = ilocks s ip; c = i_shlockc l - 1;
                              l' = l\<lparr>i_shlockc := c, ISHLOCK := (if c = 0 then False else ISHLOCK l)\<rparr>
                          in upd_file fp (\<lambda>f. f\<lparr>f_flag := f_flag f - {FSHLOCK}\<rparr>) (s\<lparr>ilocks := (ilocks s)(ip := l')\<rparr>)
                     else s)
           in if FEXLOCK \<in> kind
              then let l = ilocks s1 ip; c = i_exlockc l - 1;
                       l' = l\<lparr>i_exlockc := c, IEXLOCK := (if c = 0 then False else IEXLOCK l),
                              ILWAIT := (if c = 0 then False else ILWAIT l)\<rparr>
                   in upd_file fp (\<lambda>f. f\<lparr>f_flag := f_flag f - {FEXLOCK}\<rparr>) (s1\<lparr>ilocks := (ilocks s1)(ip := l')\<rparr>)
              else s1)"

text \<open>
  \<^verbatim>\<open>ino_lock\<close> until it returns or sleeps on the lock; after the sleep it starts again at the label
  \<^verbatim>\<open>again\<close>. Releasing the caller's own lock goes round the loop, hence the fuel.
\<close>

datatype lockres = Locked | Lockerr errno | Locksleep

definition ino_grant :: "nat \<Rightarrow> lockop set \<Rightarrow> desc \<Rightarrow> desc" where
  "ino_grant fp cmd0 s =
     (let ip = f_data (files s ! fp);
          s1 = (if LOCK_EX \<in> cmd0
                then let l = ilocks s ip
                     in upd_file fp (\<lambda>f. f\<lparr>f_flag := insert FEXLOCK (f_flag f)\<rparr>)
                          (s\<lparr>ilocks := (ilocks s)(ip := l\<lparr>i_exlockc := i_exlockc l + 1, IEXLOCK := True\<rparr>)\<rparr>)
                else s);
          cmd = (if LOCK_EX \<in> cmd0 then cmd0 - {LOCK_SH} else cmd0)
      in if LOCK_SH \<in> cmd \<and> FSHLOCK \<notin> f_flag (files s1 ! fp)
         then let l = ilocks s1 ip
              in upd_file fp (\<lambda>f. f\<lparr>f_flag := insert FSHLOCK (f_flag f)\<rparr>)
                   (s1\<lparr>ilocks := (ilocks s1)(ip := l\<lparr>i_shlockc := i_shlockc l + 1, ISHLOCK := True\<rparr>)\<rparr>)
         else s1)"

definition lock_wait :: "nat \<Rightarrow> lockop set \<Rightarrow> desc \<Rightarrow> lockres \<times> desc" where
  "lock_wait ip cmd s =
     (if LOCK_NB \<in> cmd then (Lockerr EWOULDBLOCK, s)
      else (Locksleep, s\<lparr>ilocks := (ilocks s)(ip := (ilocks s ip)\<lparr>ILWAIT := True\<rparr>)\<rparr>))"

fun ino_lock :: "nat \<Rightarrow> nat \<Rightarrow> lockop set \<Rightarrow> desc \<Rightarrow> (lockres \<times> desc) option" where
  "ino_lock 0 fp cmd s = None"
| "ino_lock (Suc n) fp cmd s =
     (let f = files s ! fp; ip = f_data f in
      if IEXLOCK (ilocks s ip)
      then if FEXLOCK \<in> f_flag f then ino_lock n fp cmd (ino_unlock fp {FEXLOCK} s)
           else Some (lock_wait ip cmd s)
      else if LOCK_EX \<in> cmd \<and> ISHLOCK (ilocks s ip)
      then if FSHLOCK \<in> f_flag f then ino_lock n fp cmd (ino_unlock fp {FSHLOCK} s)
           else Some (lock_wait ip cmd s)
      else Some (Locked, ino_grant fp cmd s))"

section \<open>Descriptors\<close>

definition getf :: "int \<Rightarrow> desc \<Rightarrow> nat option" where
  "getf f s = (if f < 0 \<or> f \<ge> int NOFILE then None else ofile s ! nat f)"

fun ufalloc_scan :: "nat \<Rightarrow> nat option list \<Rightarrow> nat option" where
  "ufalloc_scan i [] = None"
| "ufalloc_scan i (x # xs) = (if x = None then Some i else ufalloc_scan (Suc i) xs)"

definition ufalloc :: "nat \<Rightarrow> desc \<Rightarrow> (errno + nat) \<times> desc" where
  "ufalloc i s =
     (case ufalloc_scan i (drop i (ofile s)) of
        None \<Rightarrow> (Inl EMFILE, s)
      | Some j \<Rightarrow> (Inr j, s\<lparr>pofile := (pofile s)[j := 0],
                            lastfile := (if int j > lastfile s then int j else lastfile s)\<rparr>))"

definition dupit :: "nat \<Rightarrow> nat \<Rightarrow> u8 \<Rightarrow> desc \<Rightarrow> desc" where
  "dupit fd fp flags s =
     upd_file fp (\<lambda>f. f\<lparr>f_count := f_count f + 1\<rparr>)
       (s\<lparr>ofile := (ofile s)[fd := Some fp], pofile := (pofile s)[fd := flags],
          lastfile := (if int fd > lastfile s then int fd else lastfile s)\<rparr>)"

text \<open>\<^verbatim>\<open>closef\<close>; \<open>fclose\<close> is the close routine of the file type, with its error.\<close>

definition closef :: "(filent \<Rightarrow> errno option) \<Rightarrow> nat option \<Rightarrow> desc \<Rightarrow> errno option \<times> desc" where
  "closef fclose fpo s =
     (case fpo of
        None \<Rightarrow> (None, s)
      | Some fp \<Rightarrow>
          if f_count (files s ! fp) > 1
          then (None, upd_file fp (\<lambda>f. f\<lparr>f_count := f_count f - 1\<rparr>) s)
          else let s1 = (if f_flag (files s ! fp) \<inter> {FSHLOCK, FEXLOCK} \<noteq> {} \<and> f_type (files s ! fp) = DTYPE_INODE
                         then ino_unlock fp {FSHLOCK, FEXLOCK} s else s)
               in (fclose (files s1 ! fp), upd_file fp (\<lambda>f. f\<lparr>f_count := 0\<rparr>) s1))"

definition dup2 :: "(filent \<Rightarrow> errno option) \<Rightarrow> int \<Rightarrow> int \<Rightarrow> desc \<Rightarrow> (errno + int) \<times> desc" where
  "dup2 fclose i j s =
     (case getf i s of
        None \<Rightarrow> (Inl EBADF, s)
      | Some fp \<Rightarrow>
          if j < 0 \<or> j \<ge> int NOFILE then (Inl EBADF, s)
          else if i = j then (Inr j, s)
          else let s1 = (if ofile s ! nat j \<noteq> None then snd (closef fclose (ofile s ! nat j) s) else s)
               in (Inr j, dupit (nat j) fp (pofile s1 ! nat i AND NOT UF_EXCLOSE) s1))"

text \<open>\<^verbatim>\<open>dup\<close>; with a bit beyond the low six set it is \<^verbatim>\<open>dup2\<close>, whose second argument is \<open>j\<close>.\<close>

definition dup :: "(filent \<Rightarrow> errno option) \<Rightarrow> int \<Rightarrow> int \<Rightarrow> desc \<Rightarrow> (errno + int) \<times> desc" where
  "dup fclose i j s =
     (if i < 0 \<or> i \<ge> 64 then dup2 fclose (i mod 64) j s
      else case getf i s of
             None \<Rightarrow> (Inl EBADF, s)
           | Some fp \<Rightarrow>
               (case ufalloc 0 s of
                  (Inl e, s1) \<Rightarrow> (Inl e, s1)
                | (Inr k, s1) \<Rightarrow> (Inr (int k), dupit k fp (pofile s1 ! nat i AND NOT UF_EXCLOSE) s1)))"

fun trim_last :: "nat option list \<Rightarrow> nat \<Rightarrow> int" where
  "trim_last os 0 = -1"
| "trim_last os (Suc n) = (if os ! n = None then trim_last os n else int n)"

definition close :: "(filent \<Rightarrow> errno option) \<Rightarrow> int \<Rightarrow> desc \<Rightarrow> errno option \<times> desc" where
  "close fclose i s =
     (case getf i s of
        None \<Rightarrow> (Some EBADF, s)
      | Some fp \<Rightarrow>
          let os = (ofile s)[nat i := None];
              s1 = s\<lparr>ofile := os, lastfile := trim_last os (nat (lastfile s + 1))\<rparr>
          in closef fclose (Some fp) s1)"

text \<open>The search of \<^verbatim>\<open>falloc\<close> for a slot with no references, from \<^verbatim>\<open>lastf\<close> round to \<^verbatim>\<open>lastf\<close>.\<close>

definition free_slot :: "desc \<Rightarrow> nat option" where
  "free_slot s =
     find (\<lambda>fp. f_count (files s ! fp) = 0) ([lastf s..<length (files s)] @ [0..<lastf s])"

definition falloc :: "desc \<Rightarrow> (errno + nat \<times> nat) \<times> desc" where
  "falloc s =
     (case ufalloc 0 s of
        (Inl e, s1) \<Rightarrow> (Inl e, s1)
      | (Inr i, s1) \<Rightarrow>
          (case free_slot s1 of
             None \<Rightarrow> (Inl ENFILE, s1)
           | Some fp \<Rightarrow>
               (Inr (i, fp),
                (upd_file fp (\<lambda>f. f\<lparr>f_count := 1, f_data := 0, f_offset := 0\<rparr>) s1)
                  \<lparr>ofile := (ofile s1)[i := Some fp], lastf := fp + 1\<rparr>)))"

section \<open>Control operations\<close>

text \<open>
  The ioctl routine of a file gets the request and an integer; for the two flag requests only whether it is 0
  matters, and the model passes 1 for the flag's bit.
\<close>

datatype ioccmd = FIONBIO | FIOASYNC | TIOCGPGRP | TIOCSPGRP

type_synonym fioctl = "filent \<Rightarrow> ioccmd \<Rightarrow> int \<Rightarrow> errno option \<times> int"

definition fset :: "fioctl \<Rightarrow> nat \<Rightarrow> fflag \<Rightarrow> bool \<Rightarrow> desc \<Rightarrow> errno option \<times> desc" where
  "fset ioc fp b v s =
     (let s1 = upd_file fp (\<lambda>f. f\<lparr>f_flag := (if v then insert b (f_flag f) else f_flag f - {b})\<rparr>) s
      in (fst (ioc (files s1 ! fp) (if b = FNONBLOCK then FIONBIO else FIOASYNC) (if v then 1 else 0)), s1))"

definition fgetown :: "fioctl \<Rightarrow> nat \<Rightarrow> desc \<Rightarrow> errno option \<times> int" where
  "fgetown ioc fp s =
     (let f = files s ! fp in
      if f_type f = DTYPE_SOCKET then (None, so_pgrp s (f_data f))
      else let r = ioc f TIOCGPGRP 0 in (fst r, wrap16 (- snd r)))"

text \<open>\<open>pgrp\<close> finds the process group of a process id (\<^verbatim>\<open>pfind\<close>).\<close>

definition fsetown :: "fioctl \<Rightarrow> (int \<Rightarrow> int option) \<Rightarrow> nat \<Rightarrow> int \<Rightarrow> desc \<Rightarrow> errno option \<times> desc" where
  "fsetown ioc pgrp fp v s =
     (let f = files s ! fp in
      if f_type f = DTYPE_SOCKET then (None, s\<lparr>so_pgrp := (so_pgrp s)(f_data f := v)\<rparr>)
      else if v > 0
      then case pgrp v of None \<Rightarrow> (Some ESRCH, s) | Some g \<Rightarrow> (fst (ioc f TIOCSPGRP g), s)
      else (fst (ioc f TIOCSPGRP (wrap16 (- v))), s))"

datatype fcntl_cmd = F_DUPFD | F_GETFD | F_SETFD | F_GETFL | F_SETFL "fflag set" | F_GETOWN | F_SETOWN | F_OTHER

text \<open>
  \<^verbatim>\<open>fcntl\<close>. \<open>settable\<close> is \<^verbatim>\<open>FCNTLFLAGS\<close>, \<open>oflags\<close> the macro \<^verbatim>\<open>OFLAGS\<close>; the argument of \<open>F_SETFL\<close> is the set
  \<^verbatim>\<open>FFLAGS(uap->arg)\<close>.
\<close>

definition fcntl_setfl :: "fioctl \<Rightarrow> fflag set \<Rightarrow> nat \<Rightarrow> fflag set \<Rightarrow> desc \<Rightarrow> errno option \<times> desc" where
  "fcntl_setfl ioc settable fp fl s =
     (let s1 = upd_file fp (\<lambda>f. f\<lparr>f_flag := (f_flag f - settable) \<union> (fl \<inter> settable)\<rparr>) s;
          r1 = fset ioc fp FNONBLOCK (FNONBLOCK \<in> f_flag (files s1 ! fp)) s1
      in if fst r1 \<noteq> None then r1
         else let r2 = fset ioc fp FASYNC (FASYNC \<in> f_flag (files (snd r1) ! fp)) (snd r1)
              in if fst r2 \<noteq> None then (fst r2, snd (fset ioc fp FNONBLOCK False (snd r2))) else r2)"

definition fcntl :: "fioctl \<Rightarrow> (int \<Rightarrow> int option) \<Rightarrow> fflag set \<Rightarrow> (fflag set \<Rightarrow> int) \<Rightarrow> int \<Rightarrow> fcntl_cmd \<Rightarrow> int \<Rightarrow> desc \<Rightarrow>
    (errno + int) \<times> desc" where
  "fcntl ioc pgrp settable oflags fdes cmd arg s =
     (case getf fdes s of
        None \<Rightarrow> (Inl EBADF, s)
      | Some fp \<Rightarrow>
          let pop = pofile s ! nat fdes; ret = (\<lambda>r. (case fst r of None \<Rightarrow> Inr 0 | Some e \<Rightarrow> Inl e, snd r)) in
          case cmd of
            F_DUPFD \<Rightarrow>
              if arg < 0 \<or> arg \<ge> int NOFILE then (Inl EINVAL, s)
              else (case ufalloc (nat arg) s of
                      (Inl e, s1) \<Rightarrow> (Inl e, s1)
                    | (Inr i, s1) \<Rightarrow> (Inr (int i), dupit i fp (pofile s1 ! nat fdes AND NOT UF_EXCLOSE) s1))
          | F_GETFD \<Rightarrow> (Inr (uint (pop AND 1)), s)
          | F_SETFD \<Rightarrow> (Inr 0, s\<lparr>pofile := (pofile s)[nat fdes := (pop AND NOT 1) OR (of_int arg AND 1)]\<rparr>)
          | F_GETFL \<Rightarrow> (Inr (oflags (f_flag (files s ! fp))), s)
          | F_SETFL fl \<Rightarrow> ret (fcntl_setfl ioc settable fp fl s)
          | F_GETOWN \<Rightarrow> (case fgetown ioc fp s of (None, v) \<Rightarrow> (Inr v, s) | (Some e, v) \<Rightarrow> (Inl e, s))
          | F_SETOWN \<Rightarrow> ret (fsetown ioc pgrp fp arg s)
          | F_OTHER \<Rightarrow> (Inl EINVAL, s))"

text \<open>\<^verbatim>\<open>fstat\<close>: the size reported; for a pipe the part already read is subtracted.\<close>

definition fstat :: "(filent \<Rightarrow> errno + int) \<Rightarrow> errno option \<Rightarrow> int \<Rightarrow> desc \<Rightarrow> errno + int" where
  "fstat ino_stat copyout fdes s =
     (case getf fdes s of
        None \<Rightarrow> Inl EBADF
      | Some fp \<Rightarrow>
          let f = files s ! fp in
          case ino_stat f of
            Inl e \<Rightarrow> Inl e
          | Inr sz \<Rightarrow> (case copyout of Some e \<Rightarrow> Inl e
                       | None \<Rightarrow> Inr (if f_type f = DTYPE_PIPE then sz - f_offset f else sz)))"

definition flock :: "int \<Rightarrow> lockop set \<Rightarrow> desc \<Rightarrow> (lockres \<times> desc) option" where
  "flock fd how0 s =
     (case getf fd s of
        None \<Rightarrow> Some (Lockerr EBADF, s)
      | Some fp \<Rightarrow>
          let f = files s ! fp in
          if f_type f \<noteq> DTYPE_INODE then Some (Lockerr EOPNOTSUPP, s)
          else if LOCK_UN \<in> how0 then Some (Locked, ino_unlock fp {FSHLOCK, FEXLOCK} s)
          else if how0 \<inter> {LOCK_SH, LOCK_EX} = {} then Some (Locked, s)
          else let how = (if LOCK_EX \<in> how0 then how0 - {LOCK_SH} else how0) in
            if FEXLOCK \<in> f_flag f \<and> LOCK_EX \<in> how \<or> FSHLOCK \<in> f_flag f \<and> LOCK_SH \<in> how then Some (Locked, s)
            else ino_lock 3 fp how s)"

text \<open>
  Opening \<^verbatim>\<open>/dev/fd/N\<close> (\<^verbatim>\<open>fdopen\<close>) leaves \<open>N\<close> in \<^verbatim>\<open>u_dupfd\<close> and fails with \<^verbatim>\<open>ENODEV\<close>; then \<^verbatim>\<open>dupfdopen\<close> is called
  with that error. \<open>md\<close> is the wanted access.
\<close>

definition fdopen :: "nat \<Rightarrow> errno \<times> nat" where
  "fdopen dev = (ENODEV, dev mod 256)"

definition dupfdopen :: "nat \<Rightarrow> nat \<Rightarrow> fflag set \<Rightarrow> errno \<Rightarrow> desc \<Rightarrow> errno option \<times> desc" where
  "dupfdopen indx dfd md error s =
     (if dfd \<ge> NOFILE then (Some EBADF, s)
      else case ofile s ! dfd of
             None \<Rightarrow> (Some EBADF, s)
           | Some wp \<Rightarrow>
               if ofile s ! indx = Some wp then (Some EBADF, s)
               else if error = ENODEV
               then if \<not> (md \<inter> {FREAD, FWRITE} \<subseteq> f_flag (files s ! wp)) then (Some EACCES, s)
                    else (None, dupit indx wp (pofile s ! dfd) s)
               else (Some error, s))"

section \<open>Opening a file\<close>

text \<open>
  \<^verbatim>\<open>copen\<close> of \<^verbatim>\<open>sys/sys/ufs_syscalls.c\<close>. \<open>vno\<close> is what \<^verbatim>\<open>vn_open\<close> gives: the inode, or the error with the
  value \<^verbatim>\<open>fdopen\<close> left in \<^verbatim>\<open>u_dupfd\<close> (\<open>None\<close> when it was not called, and \<^verbatim>\<open>u_dupfd\<close> is still negative).
  \<open>ex\<close> and \<open>sh\<close> say whether \<^verbatim>\<open>O_EXLOCK\<close> and \<^verbatim>\<open>O_SHLOCK\<close> are asked for, \<open>fmask\<close> is \<^verbatim>\<open>FMASK\<close>. The
  call that reports success returns \<open>Opened indx\<close>, \<^verbatim>\<open>u_r.r_val1\<close> having been set by \<^verbatim>\<open>ufalloc\<close>. In C the
  condition \<^verbatim>\<open>(error = dupfdopen(...) == 0)\<close> assigns the result of the comparison to \<^verbatim>\<open>error\<close>.
\<close>

datatype openres = Opened nat | Openerr errno | Opensleep

definition copen_fail :: "nat \<Rightarrow> nat \<Rightarrow> fflag set \<Rightarrow> errno \<Rightarrow> nat option \<Rightarrow> desc \<Rightarrow> openres \<times> desc" where
  "copen_fail indx fp flags error dupfd s =
     (let s1 = upd_file fp (\<lambda>f. f\<lparr>f_count := 0\<rparr>) s in
      if (error = ENODEV \<or> error = ENXIO) \<and> dupfd \<noteq> None
      then let r = dupfdopen indx (the dupfd) flags error s1; s2 = snd r; err = (fst r = None)
           in if err then (Opened indx, s2)
              else (Opened indx, s2\<lparr>ofile := (ofile s2)[indx := None]\<rparr>)
      else (Openerr error, s1\<lparr>ofile := (ofile s1)[indx := None]\<rparr>))"

definition copen_lock :: "(filent \<Rightarrow> errno option) \<Rightarrow> nat \<Rightarrow> nat \<Rightarrow> fflag set \<Rightarrow> bool \<Rightarrow> bool \<Rightarrow> desc \<Rightarrow> (openres \<times> desc) option" where
  "copen_lock fclose indx fp flags ex sh s =
     (if \<not> ex \<and> \<not> sh then Some (Opened indx, s)
      else let type0 = {if ex then LOCK_EX else LOCK_SH};
               type = (if FNONBLOCK \<in> flags then insert LOCK_NB type0 else type0)
           in case ino_lock 3 fp type s of
                None \<Rightarrow> None
              | Some (Locked, s1) \<Rightarrow> Some (Opened indx, s1)
              | Some (Locksleep, s1) \<Rightarrow> Some (Opensleep, s1)
              | Some (Lockerr e, s1) \<Rightarrow>
                  let s2 = snd (closef fclose (Some fp) s1)
                  in Some (Openerr e, s2\<lparr>ofile := (ofile s2)[indx := None]\<rparr>))"

definition copen :: "(filent \<Rightarrow> errno option) \<Rightarrow> fflag set \<Rightarrow> fflag set \<Rightarrow> bool \<Rightarrow> bool \<Rightarrow> (errno \<times> nat option) + nat \<Rightarrow>
    desc \<Rightarrow> (openres \<times> desc) option" where
  "copen fclose fmask flags ex sh vno s =
     (case falloc s of
        (Inl e, s1) \<Rightarrow> Some (Openerr e, s1)
      | (Inr (indx, fp), s1) \<Rightarrow>
          let s2 = upd_file fp (\<lambda>f. f\<lparr>f_flag := flags \<inter> fmask, f_type := DTYPE_INODE\<rparr>) s1 in
          (case vno of
             Inl (error, dupfd) \<Rightarrow> Some (copen_fail indx fp flags error dupfd s2)
           | Inr ip \<Rightarrow> copen_lock fclose indx fp flags ex sh (upd_file fp (\<lambda>f. f\<lparr>f_data := ip\<rparr>) s2)))"

end
