(* ===== verification/Desc_Props.thy ===== *)
theory Desc_Props
  imports Desc
begin

text \<open>
  The reference counts of the file table: as long as no count reaches its limit of 255, every
  count is the number of descriptors that name the file, so a slot is handed out only when
  nothing refers to it; at the limit the 8-bit count wraps and an open file loses its slot. Advisory
  locks exclude each other.
\<close>

section \<open>Reference counts\<close>

text \<open>\<open>X fp\<close> counts the references from elsewhere (other processes, messages in flight).\<close>

definition refs :: "desc \<Rightarrow> nat \<Rightarrow> nat" where
  "refs s fp = count (mset (ofile s)) (Some fp)"

definition ref_ok :: "(nat \<Rightarrow> nat) \<Rightarrow> desc \<Rightarrow> bool" where
  "ref_ok X s \<longleftrightarrow> length (ofile s) = NOFILE \<and> length (pofile s) = NOFILE \<and> lastf s \<le> length (files s) \<and>
     (\<forall>fp. Some fp \<in> set (ofile s) \<longrightarrow> fp < length (files s)) \<and>
     (\<forall>fp<length (files s). unat (f_count (files s ! fp)) = refs s fp + X fp)"

lemma refs_update:
  "i < length (ofile s) \<Longrightarrow> ofile s' = (ofile s)[i := x] \<Longrightarrow>
     refs s' fp = (refs s fp - (if ofile s ! i = Some fp then 1 else 0)) + (if x = Some fp then 1 else 0)"
  by (simp add: refs_def mset_update)

lemma refs_pos: "i < length (ofile s) \<Longrightarrow> ofile s ! i = Some fp \<Longrightarrow> 0 < refs s fp"
  unfolding refs_def by (metis count_greater_zero_iff in_multiset_in_set nth_mem)

lemma upd_file_sel [simp]:
  "ofile (upd_file fp g s) = ofile s" "pofile (upd_file fp g s) = pofile s" "lastfile (upd_file fp g s) = lastfile s"
  "lastf (upd_file fp g s) = lastf s" "length (files (upd_file fp g s)) = length (files s)"
  "ilocks (upd_file fp g s) = ilocks s"
  by (simp_all add: upd_file_def)

lemma files_upd_file:
  "fp < length (files s) \<Longrightarrow> files (upd_file fp g s) ! q = (if q = fp then g (files s ! fp) else files s ! q)"
  by (simp add: upd_file_def nth_list_update)

lemma refs_upd_file [simp]: "refs (upd_file fp g s) q = refs s q"
  by (simp add: refs_def)

lemma unat_inc8: "(c :: u8) \<noteq> 255 \<Longrightarrow> unat (c + 1) = unat c + 1"
proof -
  assume "c \<noteq> 255"
  then have "unat c \<noteq> 255" by (simp add: word_unat_eq_iff)
  then show ?thesis using unsigned_less[of c, where ?'a = nat] by (simp add: unat_word_ariths)
qed

lemma unat_dec8: "(c :: u8) > 1 \<Longrightarrow> unat (c - 1) = unat c - 1"
  by (subst unat_sub_le) (auto simp: word_le_nat_alt word_less_nat_alt)

lemma unat_le1: "\<not> (c :: u8) > 1 \<Longrightarrow> unat c \<le> 1"
  by (simp add: word_less_nat_alt)

text \<open>Filling an empty descriptor with one more reference to a file.\<close>

lemma dupit_ok:
  assumes ok: "ref_ok X s" and fd: "fd < NOFILE" "ofile s ! fd = None" and fp: "fp < length (files s)"
    and r: "f_count (files s ! fp) \<noteq> 255"
  shows "ref_ok X (dupit fd fp fl s)"
proof -
  let ?s = "dupit fd fp fl s"
  have len: "fd < length (ofile s)" using ok fd by (simp add: ref_ok_def)
  have of: "ofile ?s = (ofile s)[fd := Some fp]" by (simp add: dupit_def)
  have rf: "refs ?s q = refs s q + (if q = fp then 1 else 0)" for q
    using refs_update[OF len of, of q] fd(2) by auto
  have cnt: "f_count (files ?s ! q) = (if q = fp then f_count (files s ! fp) + 1 else f_count (files s ! q))" for q
    using fp by (simp add: dupit_def files_upd_file)
  have "Some q \<in> set (ofile ?s) \<Longrightarrow> q < length (files s)" for q
    using set_update_subset_insert[of "ofile s" fd "Some fp"] ok fp of by (auto simp: ref_ok_def)
  moreover have "length (files ?s) = length (files s)" "length (pofile ?s) = length (pofile s)" "lastf ?s = lastf s"
    by (simp_all add: dupit_def)
  ultimately show ?thesis
    using ok rf cnt unat_inc8[OF r] fp of by (simp add: ref_ok_def)
qed

text \<open>Dropping a reference that is no longer in the table.\<close>

lemma ino_unlock_sel [simp]:
  "ofile (ino_unlock fp k s) = ofile s" "pofile (ino_unlock fp k s) = pofile s" "lastf (ino_unlock fp k s) = lastf s"
  "length (files (ino_unlock fp k s)) = length (files s)" "lastfile (ino_unlock fp k s) = lastfile s"
  by (simp_all add: ino_unlock_def Let_def)

lemma ino_unlock_count [simp]:
  assumes "fp < length (files s)"
  shows "f_count (files (ino_unlock fp k s) ! q) = f_count (files s ! q)"
    "f_data (files (ino_unlock fp k s) ! q) = f_data (files s ! q)"
  using assms by (auto simp: ino_unlock_def Let_def upd_file_def nth_list_update)

lemma closef_ok:
  assumes ok: "ref_ok (X(fp := X fp + 1)) s" and fp: "fp < length (files s)"
  shows "ref_ok X (snd (closef fc (Some fp) s))"
proof (cases "f_count (files s ! fp) > 1")
  case True
  have "unat (f_count (files s ! fp)) = refs s fp + X fp + 1" using ok fp by (simp add: ref_ok_def)
  then show ?thesis
    using True ok fp unat_dec8[OF True] by (auto simp: ref_ok_def closef_def files_upd_file)
next
  case False
  let ?s1 = "if f_flag (files s ! fp) \<inter> {FSHLOCK, FEXLOCK} \<noteq> {} \<and> f_type (files s ! fp) = DTYPE_INODE
      then ino_unlock fp {FSHLOCK, FEXLOCK} s else s"
  have s1: "ofile ?s1 = ofile s" "pofile ?s1 = pofile s" "length (files ?s1) = length (files s)" "lastf ?s1 = lastf s"
      "f_count (files ?s1 ! q) = f_count (files s ! q)" for q
    using fp by simp_all
  have "unat (f_count (files s ! fp)) = refs s fp + X fp + 1" using ok fp by (simp add: ref_ok_def)
  then have z: "refs s fp = 0" "X fp = 0" using unat_le1[OF False] by auto
  have "snd (closef fc (Some fp) s) = upd_file fp (\<lambda>f. f\<lparr>f_count := 0\<rparr>) ?s1"
    using False by (simp add: closef_def Let_def)
  then show ?thesis
    using ok fp z s1 by (auto simp: ref_ok_def files_upd_file refs_def split: if_splits)
qed

lemma drop_ref_ok:
  assumes ok: "ref_ok X s" and i: "i < NOFILE" "ofile s ! i = Some fp"
    and s': "ofile s' = (ofile s)[i := None]" "pofile s' = pofile s" "files s' = files s" "lastf s' = lastf s"
  shows "ref_ok (X(fp := X fp + 1)) s'"
proof -
  have len: "i < length (ofile s)" using ok i by (simp add: ref_ok_def)
  have rf: "refs s' q = refs s q - (if q = fp then 1 else 0)" for q
    using refs_update[OF len s'(1), of q] i(2) by auto
  have "0 < refs s fp" using refs_pos[OF len i(2)] .
  moreover have "Some q \<in> set (ofile s') \<Longrightarrow> Some q \<in> set (ofile s)" for q
    using set_update_subset_insert[of "ofile s" i None] s'(1) by auto
  ultimately show ?thesis using ok rf s' by (auto simp: ref_ok_def)
qed

section \<open>Finding descriptors\<close>

lemma ufalloc_scan_spec:
  "ufalloc_scan i xs = Some j \<longleftrightarrow> i \<le> j \<and> j < i + length xs \<and> xs ! (j - i) = None \<and> (\<forall>k<j - i. xs ! k \<noteq> None)"
proof (induction xs arbitrary: i)
  case (Cons x xs)
  show ?case
  proof (cases "x = None")
    case True
    then show ?thesis by (auto simp: nth_Cons' split: if_splits)
  next
    case False
    have "(\<forall>k<j - i. (x # xs) ! k \<noteq> None) \<longleftrightarrow> (\<forall>k<j - Suc i. xs ! k \<noteq> None)" if "Suc i \<le> j"
    proof -
      have "j - i = Suc (j - Suc i)" using that by simp
      then show ?thesis using False by (auto simp: All_less_Suc2)
    qed
    moreover have "(x # xs) ! (j - i) = xs ! (j - Suc i)" if "Suc i \<le> j"
    proof -
      have "j - i = Suc (j - Suc i)" using that by simp
      then show ?thesis by simp
    qed
    moreover have "i \<le> j \<and> (x # xs) ! (j - i) = None \<longrightarrow> Suc i \<le> j" using False by (cases "i = j") auto
    ultimately show ?thesis using Cons.IH[of "Suc i"] False by auto
  qed
qed simp

lemma ufalloc_scan_None: "ufalloc_scan i xs = None \<longleftrightarrow> None \<notin> set xs"
  by (induction i xs rule: ufalloc_scan.induct) auto

lemma ufalloc_spec:
  assumes "length (ofile s) = NOFILE" "i \<le> NOFILE"
  shows "case ufalloc i s of
      (Inr j, s') \<Rightarrow> i \<le> j \<and> j < NOFILE \<and> ofile s ! j = None \<and> (\<forall>k. i \<le> k \<and> k < j \<longrightarrow> ofile s ! k \<noteq> None) \<and>
        s' = s\<lparr>pofile := (pofile s)[j := 0], lastfile := max (lastfile s) (int j)\<rparr>
    | (Inl e, s') \<Rightarrow> e = EMFILE \<and> s' = s \<and> (\<forall>k. i \<le> k \<and> k < NOFILE \<longrightarrow> ofile s ! k \<noteq> None)"
proof (cases "ufalloc_scan i (drop i (ofile s))")
  case None
  then have "None \<notin> set (drop i (ofile s))" by (simp add: ufalloc_scan_None)
  then have "ofile s ! k \<noteq> None" if "i \<le> k" "k < NOFILE" for k
  proof -
    have "k - i < length (drop i (ofile s))" using that assms(1) by simp
    from nth_mem[OF this] show ?thesis
      using \<open>None \<notin> _\<close> that assms(1) by (cases "ofile s ! k") auto
  qed
  then show ?thesis using None by (simp add: ufalloc_def)
next
  case (Some j)
  then have j: "i \<le> j" "j < i + length (drop i (ofile s))" "drop i (ofile s) ! (j - i) = None"
    "\<forall>k<j - i. drop i (ofile s) ! k \<noteq> None" by (simp_all add: ufalloc_scan_spec)
  have "ofile s ! k \<noteq> None" if "i \<le> k" "k < j" for k
    using j(4)[rule_format, of "k - i"] that j(2) assms by (auto simp: less_diff_conv)
  moreover have "ofile s ! j = None" "j < NOFILE" using j assms by auto
  ultimately show ?thesis using Some j(1) by (auto simp: ufalloc_def max_def)
qed

section \<open>The operations keep the counts\<close>

lemma getf_Some:
  assumes ok: "ref_ok X s" and g: "getf i s = Some fp"
  shows "0 \<le> i \<and> nat i < NOFILE \<and> ofile s ! nat i = Some fp \<and> fp < length (files s)"
proof -
  have i: "0 \<le> i" "nat i < NOFILE" "ofile s ! nat i = Some fp" using g by (auto simp: getf_def split: if_splits)
  then have "Some fp \<in> set (ofile s)" using ok nth_mem[of "nat i" "ofile s"] by (simp add: ref_ok_def)
  then show ?thesis using ok i by (simp add: ref_ok_def)
qed

lemma ufalloc_ok:
  assumes "ref_ok X s" "ufalloc i s = (r, s')"
  shows "ref_ok X s'"
  using assms by (auto simp: ufalloc_def ref_ok_def refs_def split: option.splits)

definition roomy :: "desc \<Rightarrow> bool" where
  "roomy s \<longleftrightarrow> (\<forall>f\<in>set (files s). f_count f \<noteq> 255)"

lemma roomyD: "roomy s \<Longrightarrow> fp < length (files s) \<Longrightarrow> f_count (files s ! fp) \<noteq> 255"
  by (simp add: roomy_def)

text \<open>Allocating a descriptor from \<open>k\<close> on and making it refer to \<open>fp\<close>, as \<^verbatim>\<open>dup\<close> and \<^verbatim>\<open>fcntl\<close> do.\<close>

lemma ufalloc_dupit_ok:
  assumes ok: "ref_ok X s" and rm: "roomy s" and fp: "fp < length (files s)" and k: "k \<le> NOFILE"
    and u: "ufalloc k s = (Inr j, s1)"
  shows "ref_ok X (dupit j fp fl s1)"
proof -
  have len: "length (ofile s) = NOFILE" using ok by (simp add: ref_ok_def)
  from ufalloc_spec[OF len k] u have j: "j < NOFILE" "ofile s ! j = None"
    "s1 = s\<lparr>pofile := (pofile s)[j := 0], lastfile := max (lastfile s) (int j)\<rparr>" by auto
  show ?thesis
    by (rule dupit_ok[OF ufalloc_ok[OF ok u]]) (use j fp roomyD[OF rm fp] in simp_all)
qed

lemma dup2_ok:
  assumes ok: "ref_ok X s" and rm: "roomy s" and d: "dup2 fc i j s = (r, s')"
  shows "ref_ok X s'"
proof (cases "getf i s")
  case None then show ?thesis using ok d by (simp add: dup2_def)
next
  case (Some fp)
  note g = getf_Some[OF ok Some]
  show ?thesis
  proof (cases "j < 0 \<or> j \<ge> int NOFILE \<or> i = j")
    case True then show ?thesis using ok d Some by (auto simp: dup2_def split: if_splits)
  next
    case False
    then have j: "nat j < NOFILE" "nat i \<noteq> nat j" using g by auto
    let ?s1 = "if ofile s ! nat j \<noteq> None then snd (closef fc (ofile s ! nat j) s) else s"
    have s': "s' = dupit (nat j) fp (pofile ?s1 ! nat i AND NOT UF_EXCLOSE) ?s1"
      using d Some False by (auto simp: dup2_def Let_def split: if_splits)
    let ?s2 = "?s1\<lparr>ofile := (ofile ?s1)[nat j := None]\<rparr>"
    have eq: "dupit (nat j) fp fl ?s1 = dupit (nat j) fp fl ?s2" for fl by (simp add: dupit_def upd_file_def)
    have s2: "ref_ok X ?s2 \<and> length (files ?s2) = length (files s) \<and> f_count (files ?s2 ! fp) \<noteq> 255"
    proof (cases "ofile s ! nat j")
      case None
      have "(ofile s)[nat j := None] = ofile s" using None by (metis list_update_id)
      then show ?thesis using None ok roomyD[OF rm] g by simp
    next
      case (Some q)
      let ?t = "s\<lparr>ofile := (ofile s)[nat j := None]\<rparr>"
      have qf: "q < length (files s)" using ok Some j nth_mem[of "nat j" "ofile s"] by (auto simp: ref_ok_def)
      have t: "ref_ok (X(q := X q + 1)) ?t" by (rule drop_ref_ok[OF ok j(1) Some]) simp_all
      have "(snd (closef fc (Some q) s))\<lparr>ofile := (ofile (snd (closef fc (Some q) s)))[nat j := None]\<rparr> =
          snd (closef fc (Some q) ?t)"
        by (simp add: closef_def Let_def upd_file_def ino_unlock_def)
      moreover have "ref_ok X (snd (closef fc (Some q) ?t))" by (rule closef_ok[OF t]) (use qf in simp)
      moreover have "length (files (snd (closef fc (Some q) ?t))) = length (files s)" by (simp add: closef_def Let_def)
      moreover have "f_count (files (snd (closef fc (Some q) ?t)) ! fp) \<noteq> 255"
      proof -
        have "unat (f_count (files (snd (closef fc (Some q) ?t)) ! fp)) \<le> unat (f_count (files s ! fp))"
          using qf g by (auto simp: closef_def Let_def files_upd_file unat_dec8)
        moreover have "unat (f_count (files s ! fp)) < 255"
          using roomyD[OF rm, of fp] g unsigned_less[of "f_count (files s ! fp)", where ?'a = nat]
          by (simp add: word_unat_eq_iff)
        ultimately show ?thesis by auto
      qed
      ultimately show ?thesis using Some by simp
    qed
    show ?thesis unfolding s' eq by (rule dupit_ok) (use s2 j g ok in \<open>auto simp: ref_ok_def\<close>)
  qed
qed

lemma dup_ok:
  assumes ok: "ref_ok X s" and rm: "roomy s" and d: "dup fc i j s = (r, s')"
  shows "ref_ok X s'"
proof (cases "i < 0 \<or> i \<ge> 64")
  case True
  then show ?thesis using d dup2_ok[OF ok rm, of fc "i mod 64" j r s'] by (auto simp: dup_def)
next
  case False
  show ?thesis
  proof (cases "getf i s")
    case None then show ?thesis using False ok d by (auto simp: dup_def)
  next
    case (Some fp)
    obtain k s1 where u: "ufalloc 0 s = (k, s1)" by fastforce
    show ?thesis
    proof (cases k)
      case (Inl e)
      then show ?thesis using False Some u d ufalloc_ok[OF ok u] by (auto simp: dup_def)
    next
      case (Inr n)
      have "ref_ok X (dupit n fp fl s1)" for fl
        by (rule ufalloc_dupit_ok[OF ok rm]) (use getf_Some[OF ok Some] u Inr in auto)
      then show ?thesis using False Some u d Inr by (auto simp: dup_def)
    qed
  qed
qed

lemma close_ok:
  assumes ok: "ref_ok X s" and d: "close fc i s = (r, s')"
  shows "ref_ok X s'"
proof (cases "getf i s")
  case None then show ?thesis using ok d by (simp add: close_def)
next
  case (Some fp)
  note g = getf_Some[OF ok Some]
  let ?s1 = "s\<lparr>ofile := (ofile s)[nat i := None],
      lastfile := trim_last ((ofile s)[nat i := None]) (nat (lastfile s + 1))\<rparr>"
  have "ref_ok (X(fp := X fp + 1)) ?s1" by (rule drop_ref_ok[OF ok]) (use g in auto)
  from closef_ok[OF this, of fc] g have "ref_ok X (snd (closef fc (Some fp) ?s1))" by simp
  then show ?thesis using d Some by (simp add: close_def Let_def)
qed

lemma find_SomeD: "find P xs = Some x \<Longrightarrow> x \<in> set xs \<and> P x"
  by (induction xs) (auto split: if_splits)

lemma free_slot_Some:
  assumes "free_slot s = Some fp" "lastf s \<le> length (files s)"
  shows "fp < length (files s) \<and> f_count (files s ! fp) = 0"
  using find_SomeD[OF assms(1)[unfolded free_slot_def]] assms(2) by auto

lemma free_slot_None:
  assumes "lastf s \<le> length (files s)"
  shows "free_slot s = None \<longleftrightarrow> (\<forall>f\<in>set (files s). f_count f \<noteq> 0)"
proof -
  have "set ([lastf s..<length (files s)] @ [0..<lastf s]) = {..<length (files s)}" using assms by auto
  then have "free_slot s = None \<longleftrightarrow> (\<forall>i<length (files s). f_count (files s ! i) \<noteq> 0)"
    by (auto simp: free_slot_def find_None_iff)
  then show ?thesis by (simp add: all_set_conv_all_nth)
qed

lemma unreferenced:
  assumes "ref_ok X s" "fp < length (files s)" "f_count (files s ! fp) = 0"
  shows "Some fp \<notin> set (ofile s)" "X fp = 0" "refs s fp = 0"
proof -
  show r: "X fp = 0" "refs s fp = 0" using assms by (force simp: ref_ok_def)+
  then show "Some fp \<notin> set (ofile s)" by (simp add: refs_def count_eq_zero_iff)
qed

lemma falloc_cases:
  assumes ok: "ref_ok X s"
  obtains (full) "falloc s = (Inl EMFILE, s)" "None \<notin> set (ofile s)"
  | (nofile) s1 where "falloc s = (Inl ENFILE, s1)" "\<forall>f\<in>set (files s). f_count f \<noteq> 0" "None \<in> set (ofile s)" "ref_ok X s1"
  | (got) i fp s1 where "i < NOFILE" "ofile s ! i = None" "\<forall>k<i. ofile s ! k \<noteq> None" "fp < length (files s)"
      "f_count (files s ! fp) = 0" "ref_ok X s1"
      "s1 = s\<lparr>pofile := (pofile s)[i := 0], lastfile := max (lastfile s) (int i)\<rparr>"
      "falloc s = (Inr (i, fp), (upd_file fp (\<lambda>f. f\<lparr>f_count := 1, f_data := 0, f_offset := 0\<rparr>) s1)
                  \<lparr>ofile := (ofile s1)[i := Some fp], lastf := fp + 1\<rparr>)"
proof -
  have len: "length (ofile s) = NOFILE" "lastf s \<le> length (files s)" using ok by (simp_all add: ref_ok_def)
  obtain r s1 where u: "ufalloc 0 s = (r, s1)" by fastforce
  note sp = ufalloc_spec[OF len(1), of 0, unfolded u] and ok1 = ufalloc_ok[OF ok u]
  show thesis
  proof (cases r)
    case (Inl e)
    have "None \<notin> set (ofile s)" using sp Inl len by (auto simp: in_set_conv_nth)
    then show thesis using full sp Inl u by (simp add: falloc_def)
  next
    case (Inr i)
    then have s1: "i < NOFILE" "ofile s ! i = None" "\<forall>k<i. ofile s ! k \<noteq> None"
      "s1 = s\<lparr>pofile := (pofile s)[i := 0], lastfile := max (lastfile s) (int i)\<rparr>" using sp by auto
    have fs: "free_slot s1 = free_slot s" by (simp add: s1(4) free_slot_def)
    show thesis
    proof (cases "free_slot s")
      case None
      have "None \<in> set (ofile s)" using s1(1,2) len nth_mem[of i "ofile s"] by simp
      then show thesis using nofile[of s1] None Inr u fs free_slot_None[OF len(2)] ok1 by (simp add: falloc_def)
    next
      case (Some fp)
      from free_slot_Some[OF Some len(2)] show thesis
        using got[OF s1(1-3) _ _ ok1 s1(4), of fp] Some Inr u fs by (simp add: falloc_def)
    qed
  qed
qed

lemma falloc_ok:
  assumes ok: "ref_ok X s" and d: "falloc s = (r, s')"
  shows "ref_ok X s'"
  using ok
proof (cases rule: falloc_cases)
  case (got i fp s1)
  have len: "i < length (ofile s1)" using got(1,6) by (simp add: ref_ok_def)
  have fs: "files s1 = files s" "ofile s1 = ofile s" using got(7) by simp_all
  let ?f = "\<lambda>f :: filent. f\<lparr>f_count := 1, f_data := 0, f_offset := 0\<rparr>"
  have s': "s' = (upd_file fp ?f s1)\<lparr>ofile := (ofile s1)[i := Some fp], lastf := fp + 1\<rparr>"
    using got(8) d by simp
  have of: "ofile s' = (ofile s1)[i := Some fp]" by (simp add: s')
  have rf: "refs s' q = refs s1 q + (if q = fp then 1 else 0)" for q
    using refs_update[OF len of, of q] got(2) fs by auto
  have "refs s1 fp = 0" "X fp = 0" using unreferenced[OF got(6), of fp] got(4,5) fs by simp_all
  moreover have "f_count (files s' ! q) = (if q = fp then 1 else f_count (files s1 ! q))" for q
    using got(4) fs by (simp add: s' upd_file_def nth_list_update)
  moreover have "Some q \<in> set (ofile s') \<Longrightarrow> q < length (files s1)" for q
    using set_update_subset_insert[of "ofile s1" i "Some fp"] got(4,6) of fs by (auto simp: ref_ok_def)
  moreover have "length (files s') = length (files s1)" "pofile s' = pofile s1" "lastf s' = fp + 1"
    by (simp_all add: s')
  ultimately show ?thesis using got(4,6) rf of fs by (simp add: ref_ok_def)
qed (use ok d in auto)

text \<open>Operations that change flags and locks only.\<close>

lemma ref_ok_cong:
  "ref_ok X s \<Longrightarrow> ofile s' = ofile s \<Longrightarrow> length (pofile s') = length (pofile s) \<Longrightarrow> lastf s' = lastf s \<Longrightarrow>
     length (files s') = length (files s) \<Longrightarrow>
     (\<And>q. q < length (files s) \<Longrightarrow> f_count (files s' ! q) = f_count (files s ! q)) \<Longrightarrow> ref_ok X s'"
  by (simp add: ref_ok_def refs_def)

definition same_counts :: "desc \<Rightarrow> desc \<Rightarrow> bool" where
  "same_counts s s' \<longleftrightarrow> ofile s' = ofile s \<and> length (pofile s') = length (pofile s) \<and> lastf s' = lastf s \<and>
     map f_count (files s') = map f_count (files s)"

lemma same_counts_ok:
  assumes "ref_ok X s" "same_counts s s'"
  shows "ref_ok X s'"
proof -
  have m: "map f_count (files s') = map f_count (files s)" using assms(2) by (simp add: same_counts_def)
  then have len: "length (files s') = length (files s)" by (rule map_eq_imp_length_eq)
  have "f_count (files s' ! q) = f_count (files s ! q)" if "q < length (files s)" for q
    using arg_cong[OF m, of "\<lambda>xs. xs ! q"] that len by simp
  then show ?thesis using assms len by (auto intro: ref_ok_cong simp: same_counts_def)
qed

lemma same_counts_refl [simp]: "same_counts s s"
  by (simp add: same_counts_def)

lemma same_counts_trans [trans]: "same_counts s t \<Longrightarrow> same_counts t r \<Longrightarrow> same_counts s r"
  by (simp add: same_counts_def)

lemma same_counts_upd_file:
  assumes "\<And>f. f_count (g f) = f_count f"
  shows "same_counts s (upd_file fp g s)"
proof -
  have "map f_count ((files s)[fp := g (files s ! fp)]) = map f_count (files s)"
  proof (rule nth_equalityI)
    fix i assume "i < length (map f_count ((files s)[fp := g (files s ! fp)]))"
    then show "map f_count ((files s)[fp := g (files s ! fp)]) ! i = map f_count (files s) ! i"
      using assms by (cases "i = fp") auto
  qed simp
  then show ?thesis by (simp add: same_counts_def upd_file_def)
qed

lemma same_counts_ilocks [simp]: "same_counts s (s\<lparr>ilocks := l\<rparr>)"
  by (simp add: same_counts_def)

lemma same_counts_so_pgrp [simp]: "same_counts s (s\<lparr>so_pgrp := l\<rparr>)"
  by (simp add: same_counts_def)

lemma same_counts_upd_file' [intro]:
  assumes "same_counts s t" "\<And>f. f_count (g f) = f_count f"
  shows "same_counts s (upd_file fp g t)"
  using same_counts_trans[OF assms(1) same_counts_upd_file] assms(2) by blast

lemma same_counts_ilocks' [intro]: "same_counts s t \<Longrightarrow> same_counts s (t\<lparr>ilocks := l\<rparr>)"
  using same_counts_trans same_counts_ilocks by blast

lemma ino_unlock_counts: "same_counts s (ino_unlock fp k s)"
  unfolding ino_unlock_def Let_def by (auto intro!: same_counts_upd_file' same_counts_ilocks')

lemma ino_grant_counts: "same_counts s (ino_grant fp k s)"
  unfolding ino_grant_def Let_def by (auto intro!: same_counts_upd_file' same_counts_ilocks')

lemma ino_lock_counts: "ino_lock n fp cmd s = Some (r, s') \<Longrightarrow> same_counts s s'"
proof (induction n fp cmd s rule: ino_lock.induct)
  case (2 n fp cmd s)
  show ?case
  proof (cases "IEXLOCK (ilocks s (f_data (files s ! fp))) \<and> FEXLOCK \<in> f_flag (files s ! fp)")
    case True
    then have "ino_lock n fp cmd (ino_unlock fp {FEXLOCK} s) = Some (r, s')" using "2.prems" by (simp add: Let_def)
    then have "same_counts (ino_unlock fp {FEXLOCK} s) s'" using "2.IH"(1) True by blast
    then show ?thesis by (rule same_counts_trans[OF ino_unlock_counts])
  next
    case no_ex: False
    show ?thesis
    proof (cases "\<not> IEXLOCK (ilocks s (f_data (files s ! fp))) \<and> LOCK_EX \<in> cmd \<and> ISHLOCK (ilocks s (f_data (files s ! fp))) \<and>
        FSHLOCK \<in> f_flag (files s ! fp)")
      case True
      then have "ino_lock n fp cmd (ino_unlock fp {FSHLOCK} s) = Some (r, s')" using "2.prems" by (simp add: Let_def)
      then have "same_counts (ino_unlock fp {FSHLOCK} s) s'" using "2.IH"(2) True by blast
      then show ?thesis by (rule same_counts_trans[OF ino_unlock_counts])
    next
      case False
      then show ?thesis using "2.prems" no_ex
        by (auto simp: Let_def lock_wait_def ino_grant_counts split: if_splits)
    qed
  qed
qed simp

lemma flock_counts: "flock fd how s = Some (r, s') \<Longrightarrow> same_counts s s'"
  by (auto simp: flock_def Let_def ino_unlock_counts split: option.splits if_splits dest!: ino_lock_counts)

lemma fset_counts: "same_counts s (snd (fset ioc fp b v s))"
  by (auto simp: fset_def Let_def intro!: same_counts_upd_file)

lemma fcntl_setfl_counts: "same_counts s (snd (fcntl_setfl ioc st fp fl s))"
proof -
  let ?s1 = "upd_file fp (\<lambda>f. f\<lparr>f_flag := (f_flag f - st) \<union> (fl \<inter> st)\<rparr>) s"
  have s1: "same_counts s ?s1" by (rule same_counts_upd_file) simp
  have fs: "same_counts s t \<Longrightarrow> same_counts s (snd (fset ioc fp b v t))" for t b v
    using fset_counts same_counts_trans by blast
  show ?thesis unfolding fcntl_setfl_def Let_def using s1 by (auto intro!: fs)
qed

lemma fcntl_ok:
  assumes ok: "ref_ok X s" and rm: "roomy s" and d: "fcntl ioc pgrp st ofl fd cmd arg s = (r, s')"
  shows "ref_ok X s'"
proof (cases "getf fd s")
  case None then show ?thesis using ok d by (simp add: fcntl_def)
next
  case (Some fp)
  note g = getf_Some[OF ok Some]
  show ?thesis
  proof (cases "cmd = F_DUPFD")
    case True
    obtain k s1 where u: "ufalloc (nat arg) s = (k, s1)" by fastforce
    show ?thesis
    proof (cases k)
      case (Inl e)
      then show ?thesis using True Some u d ufalloc_ok[OF ok u] ok by (auto simp: fcntl_def Let_def split: if_splits)
    next
      case (Inr n)
      have "ref_ok X (dupit n fp fl s1)" if "\<not> (arg < 0 \<or> arg \<ge> int NOFILE)" for fl
        by (rule ufalloc_dupit_ok[OF ok rm]) (use g u Inr that in auto)
      then show ?thesis using True Some u d Inr ok by (auto simp: fcntl_def Let_def split: if_splits)
    qed
  next
    case False
    then have "same_counts s s'"
      using d Some fcntl_setfl_counts[of s ioc st fp]
      by (auto simp: fcntl_def Let_def fsetown_def same_counts_def split: fcntl_cmd.splits option.splits if_splits prod.splits)
    then show ?thesis by (rule same_counts_ok[OF ok])
  qed
qed

section \<open>Opening\<close>

lemma release_ok:
  assumes ok: "ref_ok X s" and i: "i < NOFILE" "ofile s ! i = Some fp" and c: "f_count (files s ! fp) = 1"
  shows "ref_ok X ((upd_file fp (\<lambda>f. f\<lparr>f_count := 0\<rparr>) s)\<lparr>ofile := (ofile s)[i := None]\<rparr>)"
    (is "ref_ok X ?t")
proof -
  let ?s2 = "s\<lparr>ofile := (ofile s)[i := None]\<rparr>"
  have s2: "ref_ok (X(fp := X fp + 1)) ?s2" by (rule drop_ref_ok[OF ok i]) simp_all
  have fp: "fp < length (files s)" using ok i nth_mem[of i "ofile s"] by (auto simp: ref_ok_def)
  have "unat (f_count (files ?s2 ! fp)) = refs ?s2 fp + (X fp + 1)" using s2 fp unfolding ref_ok_def by simp
  then have "refs ?s2 fp + (X fp + 1) = 1" using c by simp
  moreover have "refs ?t q = refs ?s2 q" for q by (simp add: refs_def)
  moreover have "f_count (files ?t ! q) = (if q = fp then 0 else f_count (files ?s2 ! q))" for q
    using fp by (simp add: upd_file_def nth_list_update)
  ultimately show ?thesis using s2 by (auto simp: ref_ok_def)
qed

lemma closef_clear:
  "(snd (closef fc (Some q) s))\<lparr>ofile := (ofile (snd (closef fc (Some q) s)))[j := None]\<rparr> =
     snd (closef fc (Some q) (s\<lparr>ofile := (ofile s)[j := None]\<rparr>))"
  by (simp add: closef_def Let_def upd_file_def ino_unlock_def)

lemma closef_slot_ok:
  assumes ok: "ref_ok X s" and i: "i < NOFILE" "ofile s ! i = Some fp"
  shows "ref_ok X ((snd (closef fc (Some fp) s))\<lparr>ofile := (ofile (snd (closef fc (Some fp) s)))[i := None]\<rparr>)"
proof -
  have "ref_ok (X(fp := X fp + 1)) (s\<lparr>ofile := (ofile s)[i := None]\<rparr>)" by (rule drop_ref_ok[OF ok i]) simp_all
  moreover have "fp < length (files s)" using ok i nth_mem[of i "ofile s"] by (auto simp: ref_ok_def)
  ultimately show ?thesis unfolding closef_clear by (intro closef_ok) simp_all
qed

lemma copen_fail_ok:
  assumes ok: "ref_ok X s" and rm: "roomy s" and i: "indx < NOFILE" "ofile s ! indx = Some fp"
    and c: "f_count (files s ! fp) = 1"
  shows "ref_ok X (snd (copen_fail indx fp flags e dfd s))"
proof -
  let ?s1 = "upd_file fp (\<lambda>f. f\<lparr>f_count := 0\<rparr>) s"
  let ?t = "?s1\<lparr>ofile := (ofile ?s1)[indx := None]\<rparr>"
  have t: "ref_ok X ?t" using release_ok[OF ok i c] by simp
  have fp: "fp < length (files s)" using ok i nth_mem[of indx "ofile s"] by (auto simp: ref_ok_def)
  have dup: "ref_ok X (dupit indx wp fl ?s1)" if w: "d < NOFILE" "ofile s ! d = Some wp" for wp fl d
  proof -
    have wp: "wp < length (files s)" using ok w nth_mem[of d "ofile s"] by (auto simp: ref_ok_def)
    have "f_count (files ?t ! wp) \<noteq> 255" using roomyD[OF rm wp] fp by (simp add: files_upd_file)
    then have "ref_ok X (dupit indx wp fl ?t)" by (intro dupit_ok[OF t]) (use i wp ok in \<open>auto simp: ref_ok_def\<close>)
    moreover have "dupit indx wp fl ?t = dupit indx wp fl ?s1" by (simp add: dupit_def upd_file_def)
    ultimately show ?thesis by simp
  qed
  show ?thesis
    using t by (auto simp: copen_fail_def dupfdopen_def Let_def not_le split: option.splits intro: dup)
qed

lemma copen_lock_ok:
  assumes ok: "ref_ok X s" and i: "indx < NOFILE" "ofile s ! indx = Some fp"
    and d: "copen_lock fc indx fp flags ex sh s = Some (r, s')"
  shows "ref_ok X s'"
proof -
  have k: "ref_ok X s1" "ofile s1 = ofile s" if "ino_lock 3 fp ty s = Some (x, s1)" for ty x s1
    using same_counts_ok[OF ok ino_lock_counts[OF that]] ino_lock_counts[OF that] by (simp_all add: same_counts_def)
  have c: "ref_ok X ((snd (closef fc (Some fp) s1))\<lparr>ofile := (ofile (snd (closef fc (Some fp) s1)))[indx := None]\<rparr>)"
    if "ino_lock 3 fp ty s = Some (x, s1)" for ty x s1
    by (rule closef_slot_ok[OF k(1)[OF that] i(1)]) (simp add: k(2)[OF that] i(2))
  show ?thesis
    using d ok by (auto simp: copen_lock_def Let_def k c split: if_splits option.splits lockres.splits prod.splits)
qed

lemma falloc_got:
  assumes ok: "ref_ok X s" and f: "falloc s = (Inr (i, fp), s')"
  shows "ref_ok X s'" "i < NOFILE" "ofile s' ! i = Some fp" "f_count (files s' ! fp) = 1" "fp < length (files s')"
    "\<forall>q. q \<noteq> fp \<longrightarrow> files s' ! q = files s ! q" "length (files s') = length (files s)"
    "ofile s' = (ofile s)[i := Some fp]"
proof -
  show "ref_ok X s'" by (rule falloc_ok[OF ok f])
  have len: "length (ofile s) = NOFILE" using ok by (simp add: ref_ok_def)
  from ok show "i < NOFILE" "ofile s' ! i = Some fp" "f_count (files s' ! fp) = 1" "fp < length (files s')"
    "\<forall>q. q \<noteq> fp \<longrightarrow> files s' ! q = files s ! q" "length (files s') = length (files s)"
    "ofile s' = (ofile s)[i := Some fp]"
    by (cases rule: falloc_cases; use f len in \<open>auto simp: upd_file_def nth_list_update\<close>)+
qed

lemma copen_ok:
  assumes ok: "ref_ok X s" and rm: "roomy s" and d: "copen fc fmask flags ex sh vno s = Some (r, s')"
  shows "ref_ok X s'"
proof -
  obtain x s1 where f: "falloc s = (x, s1)" by fastforce
  show ?thesis
  proof (cases x)
    case (Inl e)
    then show ?thesis using d f falloc_ok[OF ok f] by (simp add: copen_def)
  next
    case (Inr p)
    obtain indx fp where p: "p = (indx, fp)" by fastforce
    note g = falloc_got[OF ok f[unfolded Inr p]]
    let ?s2 = "upd_file fp (\<lambda>f. f\<lparr>f_flag := flags \<inter> fmask, f_type := DTYPE_INODE\<rparr>) s1"
    have s2: "ref_ok X ?s2" by (rule same_counts_ok[OF g(1) same_counts_upd_file]) simp
    have rm2: "roomy ?s2"
      using rm g(4-7) by (auto simp: roomy_def all_set_conv_all_nth files_upd_file)
    show ?thesis
    proof (cases vno)
      case (Inl ed)
      obtain e dfd where "ed = (e, dfd)" by fastforce
      then have "s' = snd (copen_fail indx fp flags e dfd ?s2)" using d f Inr p Inl by (simp add: copen_def Let_def)
      then show ?thesis using copen_fail_ok[OF s2 rm2 g(2)] g(3-5) by (simp add: files_upd_file)
    next
      case (Inr ip)
      let ?s3 = "upd_file fp (\<lambda>f. f\<lparr>f_data := ip\<rparr>) ?s2"
      have s3: "ref_ok X ?s3" by (rule same_counts_ok[OF s2 same_counts_upd_file]) simp
      have "copen_lock fc indx fp flags ex sh ?s3 = Some (r, s')"
        using d f \<open>x = Inr p\<close> p Inr by (simp add: copen_def Let_def)
      from copen_lock_ok[OF s3 g(2) _ this] show ?thesis by (simp add: g(3))
    qed
  qed
qed

section \<open>Runs of system calls\<close>

text \<open>
  One call of the process. The calls that add a reference are taken in a state where no
  count has reached 255.
\<close>

inductive desc_step :: "desc \<Rightarrow> desc \<Rightarrow> bool" where
  step_dup: "roomy s \<Longrightarrow> dup fc i j s = (r, s') \<Longrightarrow> desc_step s s'"
| step_dup2: "roomy s \<Longrightarrow> dup2 fc i j s = (r, s') \<Longrightarrow> desc_step s s'"
| step_close: "close fc i s = (e, s') \<Longrightarrow> desc_step s s'"
| step_falloc: "falloc s = (x, s') \<Longrightarrow> desc_step s s'"
| step_fcntl: "roomy s \<Longrightarrow> fcntl ioc pgrp st ofl fd cmd arg s = (r, s') \<Longrightarrow> desc_step s s'"
| step_flock: "flock fd how s = Some (l, s') \<Longrightarrow> desc_step s s'"
| step_copen: "roomy s \<Longrightarrow> copen fc fmask flags ex sh vno s = Some (p, s') \<Longrightarrow> desc_step s s'"

lemma desc_step_ok: "desc_step s s' \<Longrightarrow> ref_ok X s \<Longrightarrow> ref_ok X s'"
  by (induction rule: desc_step.induct)
    (blast intro: dup_ok dup2_ok close_ok falloc_ok fcntl_ok copen_ok same_counts_ok flock_counts)+

end
