(* ===== verification/Desc_Locks.thy ===== *)
theory Desc_Locks
  imports Desc_Props
begin

text \<open>
  Advisory locks: the counts and flags an inode keeps agree with the open files that hold a lock on
  it, an exclusive lock excludes every other, and \<^verbatim>\<open>flock\<close> returns (it never goes round its
  loop more than three times without sleeping).
\<close>

section \<open>The invariant\<close>

definition holds :: "fflag \<Rightarrow> nat \<Rightarrow> filent \<Rightarrow> bool" where
  "holds fl ip f \<longleftrightarrow> f_data f = ip \<and> fl \<in> f_flag f"

definition nlocks :: "fflag \<Rightarrow> nat \<Rightarrow> desc \<Rightarrow> nat" where
  "nlocks fl ip s = length (filter (holds fl ip) (files s))"

definition lock_inv :: "ilock \<Rightarrow> nat \<Rightarrow> nat \<Rightarrow> bool" where
  "lock_inv l nsh nex \<longleftrightarrow> unat (i_shlockc l) = nsh \<and> unat (i_exlockc l) = nex \<and>
     (ISHLOCK l \<longleftrightarrow> nsh \<noteq> 0) \<and> (IEXLOCK l \<longleftrightarrow> nex \<noteq> 0) \<and> (nex = 0 \<or> nex = 1 \<and> nsh = 0)"

definition lock_ok :: "desc \<Rightarrow> bool" where
  "lock_ok s \<longleftrightarrow> length (files s) < 256 \<and>
     (\<forall>ip>0. lock_inv (ilocks s ip) (nlocks FSHLOCK ip s) (nlocks FEXLOCK ip s))"

lemma length_filter_update:
  "i < length xs \<Longrightarrow> length (filter P (xs[i := y])) + (if P (xs ! i) then 1 else 0) =
     length (filter P xs) + (if P y then 1 else 0)"
proof (induction xs arbitrary: i)
  case (Cons x xs)
  show ?case
  proof (cases i)
    case (Suc j) then show ?thesis using Cons.IH[of j] Cons.prems by simp
  qed simp
qed simp

lemma nlocks_upd:
  "fp < length (files s) \<Longrightarrow> nlocks fl ip (upd_file fp g s) + (if holds fl ip (files s ! fp) then 1 else 0) =
     nlocks fl ip s + (if holds fl ip (g (files s ! fp)) then 1 else 0)"
  unfolding nlocks_def upd_file_def by (simp add: length_filter_update)

lemma nlocks_ilocks [simp]: "nlocks fl ip (s\<lparr>ilocks := l\<rparr>) = nlocks fl ip s"
  by (simp add: nlocks_def)

lemma nlocks_pos: "fp < length (files s) \<Longrightarrow> holds fl ip (files s ! fp) \<Longrightarrow> 0 < nlocks fl ip s"
  unfolding nlocks_def by (auto simp: filter_empty_conv)

lemma nlocks_0: "nlocks fl ip s = 0 \<longleftrightarrow> (\<forall>f\<in>set (files s). \<not> holds fl ip f)"
  by (simp add: nlocks_def filter_empty_conv)

lemma nlocks_1_unique:
  assumes "nlocks fl ip s \<le> 1" "fp < length (files s)" "holds fl ip (files s ! fp)" "q < length (files s)" "q \<noteq> fp"
  shows "\<not> holds fl ip (files s ! q)"
proof
  assume h: "holds fl ip (files s ! q)"
  let ?t = "upd_file fp (\<lambda>f. f\<lparr>f_flag := {}\<rparr>) s"
  have "nlocks fl ip ?t = 0"
    using nlocks_upd[OF assms(2), of fl ip "\<lambda>f. f\<lparr>f_flag := {}\<rparr>"] assms(1,3) by (simp add: holds_def)
  moreover have "files ?t ! q = files s ! q" using assms(2,5) by (simp add: files_upd_file)
  ultimately show False using nlocks_pos[of q ?t fl ip] h assms(4) by simp
qed

lemma nlocks_le: "nlocks fl ip s \<le> length (files s)"
  by (simp add: nlocks_def)

text \<open>A change of the lock flags of one file together with its inode's lock.\<close>

lemma lock_ok_change:
  assumes ok: "lock_ok s" and fp: "fp < length (files s)" and ip: "f_data (files s ! fp) = ip"
    and g: "f_data (g (files s ! fp)) = ip"
    and l: "0 < ip \<Longrightarrow> lock_inv l (nlocks FSHLOCK ip (upd_file fp g s)) (nlocks FEXLOCK ip (upd_file fp g s))"
  shows "lock_ok (upd_file fp g (s\<lparr>ilocks := (ilocks s)(ip := l)\<rparr>))"
proof -
  let ?t = "upd_file fp g (s\<lparr>ilocks := (ilocks s)(ip := l)\<rparr>)"
  have n: "nlocks fl i ?t = nlocks fl i (upd_file fp g s)" for fl i by (simp add: nlocks_def upd_file_def)
  have other: "nlocks fl i (upd_file fp g s) = nlocks fl i s" if "i \<noteq> ip" for fl i
    using nlocks_upd[OF fp, of fl i g] ip g that by (simp add: holds_def)
  show ?thesis using ok l by (auto simp: lock_ok_def n other)
qed

lemma unat_dec8': "(c :: u8) \<noteq> 0 \<Longrightarrow> unat (c - 1) = unat c - 1"
  by (metis unat_minus_one)

section \<open>Releasing\<close>

lemma unlock_sh_ok:
  assumes ok: "lock_ok s" and fp: "fp < length (files s)" and h: "FSHLOCK \<in> f_flag (files s ! fp)" "f_data (files s ! fp) = ip" "ip \<noteq> 0"
    and l: "l = ilocks s ip" "c = i_shlockc l - 1"
  shows "lock_ok (upd_file fp (\<lambda>f. f\<lparr>f_flag := f_flag f - {FSHLOCK}\<rparr>)
      (s\<lparr>ilocks := (ilocks s)(ip := l\<lparr>i_shlockc := c, ISHLOCK := (if c = 0 then False else ISHLOCK l)\<rparr>)\<rparr>))"
proof (rule lock_ok_change[OF ok fp h(2)])
  let ?g = "\<lambda>f :: filent. f\<lparr>f_flag := f_flag f - {FSHLOCK}\<rparr>"
  have inv: "lock_inv l (nlocks FSHLOCK ip s) (nlocks FEXLOCK ip s)" using ok h l by (simp add: lock_ok_def)
  have hs: "holds FSHLOCK ip (files s ! fp)" using h by (simp add: holds_def)
  have n: "nlocks FSHLOCK ip (upd_file fp ?g s) = nlocks FSHLOCK ip s - 1"
      "nlocks FEXLOCK ip (upd_file fp ?g s) = nlocks FEXLOCK ip s"
    using nlocks_upd[OF fp, of FSHLOCK ip ?g] nlocks_upd[OF fp, of FEXLOCK ip ?g] hs by (auto simp: holds_def)
  have pos: "0 < nlocks FSHLOCK ip s" by (rule nlocks_pos[OF fp hs])
  then have "i_shlockc l \<noteq> 0" using inv by (auto simp: lock_inv_def)
  then have c: "unat c = nlocks FSHLOCK ip s - 1" using inv l(2) unat_dec8'[of "i_shlockc l"] by (simp add: lock_inv_def)
  then have "c = 0 \<longleftrightarrow> nlocks FSHLOCK ip s - 1 = 0" by (metis unat_eq_zero)
  then show "lock_inv (l\<lparr>i_shlockc := c, ISHLOCK := (if c = 0 then False else ISHLOCK l)\<rparr>)
      (nlocks FSHLOCK ip (upd_file fp ?g s)) (nlocks FEXLOCK ip (upd_file fp ?g s))"
    using inv pos c unfolding n lock_inv_def by auto
qed (use h in simp)

lemma unlock_ex_ok:
  assumes ok: "lock_ok s" and fp: "fp < length (files s)" and h: "FEXLOCK \<in> f_flag (files s ! fp)" "f_data (files s ! fp) = ip" "ip \<noteq> 0"
    and l: "l = ilocks s ip" "c = i_exlockc l - 1"
  shows "lock_ok (upd_file fp (\<lambda>f. f\<lparr>f_flag := f_flag f - {FEXLOCK}\<rparr>)
      (s\<lparr>ilocks := (ilocks s)(ip := l\<lparr>i_exlockc := c, IEXLOCK := (if c = 0 then False else IEXLOCK l),
           ILWAIT := (if c = 0 then False else ILWAIT l)\<rparr>)\<rparr>))"
proof (rule lock_ok_change[OF ok fp h(2)])
  let ?g = "\<lambda>f :: filent. f\<lparr>f_flag := f_flag f - {FEXLOCK}\<rparr>"
  have inv: "lock_inv l (nlocks FSHLOCK ip s) (nlocks FEXLOCK ip s)" using ok h l by (simp add: lock_ok_def)
  have hs: "holds FEXLOCK ip (files s ! fp)" using h by (simp add: holds_def)
  have n: "nlocks FEXLOCK ip (upd_file fp ?g s) = nlocks FEXLOCK ip s - 1"
      "nlocks FSHLOCK ip (upd_file fp ?g s) = nlocks FSHLOCK ip s"
    using nlocks_upd[OF fp, of FSHLOCK ip ?g] nlocks_upd[OF fp, of FEXLOCK ip ?g] hs by (auto simp: holds_def)
  have pos: "0 < nlocks FEXLOCK ip s" by (rule nlocks_pos[OF fp hs])
  then have one: "nlocks FEXLOCK ip s = 1" "nlocks FSHLOCK ip s = 0" using inv by (auto simp: lock_inv_def)
  then have "unat (i_exlockc l) = 1" using inv by (simp add: lock_inv_def)
  then have "i_exlockc l = 1" by (simp add: word_unat_eq_iff)
  then have "c = 0" using l(2) by simp
  then show "lock_inv (l\<lparr>i_exlockc := c, IEXLOCK := (if c = 0 then False else IEXLOCK l),
        ILWAIT := (if c = 0 then False else ILWAIT l)\<rparr>)
      (nlocks FSHLOCK ip (upd_file fp ?g s)) (nlocks FEXLOCK ip (upd_file fp ?g s))"
    using inv one unfolding n lock_inv_def by auto
qed (use h in simp)

text \<open>\<^verbatim>\<open>ino_unlock\<close> of one kind of lock, and of both.\<close>

lemma ino_unlock_sh_ok:
  assumes ok: "lock_ok s" and fp: "fp < length (files s)"
  shows "lock_ok (ino_unlock fp {FSHLOCK} s)"
proof (cases "f_data (files s ! fp) \<noteq> 0 \<and> FSHLOCK \<in> f_flag (files s ! fp)")
  case True
  then show ?thesis using unlock_sh_ok[OF ok fp _ refl _ refl refl] by (simp add: ino_unlock_def Let_def)
next
  case False
  then show ?thesis using ok by (auto simp: ino_unlock_def Let_def)
qed

lemma ino_unlock_ex_ok:
  assumes ok: "lock_ok s" and fp: "fp < length (files s)"
  shows "lock_ok (ino_unlock fp {FEXLOCK} s)"
proof (cases "f_data (files s ! fp) \<noteq> 0 \<and> FEXLOCK \<in> f_flag (files s ! fp)")
  case True
  then show ?thesis using unlock_ex_ok[OF ok fp _ refl _ refl refl] by (simp add: ino_unlock_def Let_def)
next
  case False
  then show ?thesis using ok by (auto simp: ino_unlock_def Let_def)
qed

lemma ino_unlock_both:
  "fp < length (files s) \<Longrightarrow> ino_unlock fp {FSHLOCK, FEXLOCK} s = ino_unlock fp {FEXLOCK} (ino_unlock fp {FSHLOCK} s)"
  by (simp add: ino_unlock_def Let_def files_upd_file insert_Diff_if Int_insert_left)

lemma ino_unlock_both_ok:
  "lock_ok s \<Longrightarrow> fp < length (files s) \<Longrightarrow> lock_ok (ino_unlock fp {FSHLOCK, FEXLOCK} s)"
  by (simp add: ino_unlock_both ino_unlock_ex_ok ino_unlock_sh_ok)

lemma ino_unlock_sh_file:
  "fp < length (files s) \<Longrightarrow> f_data (files s ! fp) \<noteq> 0 \<Longrightarrow> files (ino_unlock fp {FSHLOCK} s) ! q =
     (if q = fp then (files s ! fp)\<lparr>f_flag := f_flag (files s ! fp) - {FSHLOCK}\<rparr> else files s ! q)"
  by (cases "FSHLOCK \<in> f_flag (files s ! fp)") (simp_all add: ino_unlock_def Let_def files_upd_file)

lemma ino_unlock_ex_file:
  "fp < length (files s) \<Longrightarrow> f_data (files s ! fp) \<noteq> 0 \<Longrightarrow> files (ino_unlock fp {FEXLOCK} s) ! q =
     (if q = fp then (files s ! fp)\<lparr>f_flag := f_flag (files s ! fp) - {FEXLOCK}\<rparr> else files s ! q)"
  by (cases "FEXLOCK \<in> f_flag (files s ! fp)") (simp_all add: ino_unlock_def Let_def files_upd_file)

section \<open>Taking a lock\<close>

text \<open>A file that may take its lock: nothing on the inode stands against it.\<close>

lemma grant_ex_ok:
  assumes ok: "lock_ok s" and fp: "fp < length (files s)" and ip: "f_data (files s ! fp) = ip" "ip \<noteq> 0"
    and free: "\<not> IEXLOCK (ilocks s ip)" "\<not> ISHLOCK (ilocks s ip)" and c: "LOCK_EX \<in> cmd"
  shows "lock_ok (ino_grant fp cmd s)" "FEXLOCK \<in> f_flag (files (ino_grant fp cmd s) ! fp)"
proof -
  let ?l = "ilocks s ip" and ?g = "\<lambda>f :: filent. f\<lparr>f_flag := insert FEXLOCK (f_flag f)\<rparr>"
  have eq: "ino_grant fp cmd s = upd_file fp ?g (s\<lparr>ilocks := (ilocks s)(ip := ?l\<lparr>i_exlockc := i_exlockc ?l + 1, IEXLOCK := True\<rparr>)\<rparr>)"
    using c ip by (simp add: ino_grant_def Let_def)
  have inv: "lock_inv ?l (nlocks FSHLOCK ip s) (nlocks FEXLOCK ip s)" using ok ip by (simp add: lock_ok_def)
  then have z: "nlocks FSHLOCK ip s = 0" "nlocks FEXLOCK ip s = 0" using free by (auto simp: lock_inv_def)
  then have nh: "\<not> holds fl ip (files s ! fp)" if "fl = FSHLOCK \<or> fl = FEXLOCK" for fl
    using nlocks_pos[OF fp, of fl ip] that by auto
  have n: "nlocks FSHLOCK ip (upd_file fp ?g s) = 0" "nlocks FEXLOCK ip (upd_file fp ?g s) = 1"
    using nlocks_upd[OF fp, of FSHLOCK ip ?g] nlocks_upd[OF fp, of FEXLOCK ip ?g] z nh ip by (auto simp: holds_def)
  have "i_exlockc ?l = 0" using inv z by (simp add: lock_inv_def unat_eq_zero)
  then show "lock_ok (ino_grant fp cmd s)" unfolding eq
    by (intro lock_ok_change[OF ok fp ip(1)]) (use inv z in \<open>simp_all add: ip n lock_inv_def\<close>)
  show "FEXLOCK \<in> f_flag (files (ino_grant fp cmd s) ! fp)" using fp by (simp add: eq files_upd_file)
qed

lemma grant_sh_ok:
  assumes ok: "lock_ok s" and fp: "fp < length (files s)" and ip: "f_data (files s ! fp) = ip" "ip \<noteq> 0"
    and free: "\<not> IEXLOCK (ilocks s ip)" and c: "LOCK_EX \<notin> cmd" "LOCK_SH \<in> cmd"
  shows "lock_ok (ino_grant fp cmd s)" "FSHLOCK \<in> f_flag (files (ino_grant fp cmd s) ! fp)"
proof -
  let ?l = "ilocks s ip" and ?g = "\<lambda>f :: filent. f\<lparr>f_flag := insert FSHLOCK (f_flag f)\<rparr>"
  have inv: "lock_inv ?l (nlocks FSHLOCK ip s) (nlocks FEXLOCK ip s)" using ok ip by (simp add: lock_ok_def)
  have both: "lock_ok (ino_grant fp cmd s) \<and> FSHLOCK \<in> f_flag (files (ino_grant fp cmd s) ! fp)"
  proof (cases "FSHLOCK \<in> f_flag (files s ! fp)")
    case True then show ?thesis using c ok by (simp add: ino_grant_def Let_def)
  next
    case False
    let ?l' = "?l\<lparr>i_shlockc := i_shlockc ?l + 1, ISHLOCK := True\<rparr>"
    have eq: "ino_grant fp cmd s = upd_file fp ?g (s\<lparr>ilocks := (ilocks s)(ip := ?l')\<rparr>)"
      using c ip False by (simp add: ino_grant_def Let_def)
    have z: "nlocks FEXLOCK ip s = 0" using inv free by (auto simp: lock_inv_def)
    have n: "nlocks FSHLOCK ip (upd_file fp ?g s) = nlocks FSHLOCK ip s + 1" "nlocks FEXLOCK ip (upd_file fp ?g s) = 0"
      using nlocks_upd[OF fp, of FSHLOCK ip ?g] nlocks_upd[OF fp, of FEXLOCK ip ?g] z False ip nlocks_pos[OF fp, of FEXLOCK ip]
      by (auto simp: holds_def)
    have "nlocks FSHLOCK ip s + 1 \<le> length (files s)" using n(1) nlocks_le[of FSHLOCK ip "upd_file fp ?g s"] by simp
    then have "unat (i_shlockc ?l) < 255" using inv ok by (simp add: lock_inv_def lock_ok_def)
    then have "i_shlockc ?l \<noteq> 255" by auto
    then have "unat (i_shlockc ?l + 1) = nlocks FSHLOCK ip s + 1" using inv unat_inc8 by (simp add: lock_inv_def)
    then have "lock_inv ?l' (nlocks FSHLOCK ip (upd_file fp ?g s)) (nlocks FEXLOCK ip (upd_file fp ?g s))"
      using inv z unfolding n by (simp add: lock_inv_def)
    then have "lock_ok (ino_grant fp cmd s)" unfolding eq
      by (intro lock_ok_change[OF ok fp ip(1)]) (simp_all add: ip)
    then show ?thesis using fp by (simp add: eq files_upd_file)
  qed
  show "lock_ok (ino_grant fp cmd s)" "FSHLOCK \<in> f_flag (files (ino_grant fp cmd s) ! fp)" using both by blast+
qed

lemma lock_inv_ILWAIT [simp]: "lock_inv (l\<lparr>ILWAIT := b\<rparr>) m n = lock_inv l m n"
  by (simp add: lock_inv_def)

lemma lock_wait_ok:
  assumes ok: "lock_ok s" and w: "lock_wait ip cmd s = (r, s')"
  shows "lock_ok s' \<and> files s' = files s \<and> r \<noteq> Locked"
proof (cases "LOCK_NB \<in> cmd")
  case True then show ?thesis using assms by (auto simp: lock_wait_def)
next
  case False
  then have s': "s' = s\<lparr>ilocks := (ilocks s)(ip := (ilocks s ip)\<lparr>ILWAIT := True\<rparr>)\<rparr>" "r = Locksleep"
    using w by (simp_all add: lock_wait_def)
  show ?thesis using ok unfolding s' lock_ok_def by simp
qed

text \<open>What the caller of \<^verbatim>\<open>ino_lock\<close> may rely on.\<close>

definition lock_got :: "nat \<Rightarrow> lockop set \<Rightarrow> lockres \<Rightarrow> desc \<Rightarrow> bool" where
  "lock_got fp cmd r s \<longleftrightarrow> lock_ok s \<and>
     (r = Locked \<longrightarrow> (if LOCK_EX \<in> cmd then FEXLOCK else FSHLOCK) \<in> f_flag (files s ! fp))"

lemma ino_lock_last:
  assumes ok: "lock_ok s" and fp: "fp < length (files s)" and ip: "f_data (files s ! fp) \<noteq> 0"
    and c: "cmd \<inter> {LOCK_SH, LOCK_EX} \<noteq> {}"
    and no: "FEXLOCK \<notin> f_flag (files s ! fp)" "LOCK_EX \<in> cmd \<longrightarrow> FSHLOCK \<notin> f_flag (files s ! fp)"
  shows "\<exists>r s'. ino_lock (Suc n) fp cmd s = Some (r, s') \<and> lock_got fp cmd r s'"
proof -
  let ?ip = "f_data (files s ! fp)"
  obtain r s' where w: "lock_wait ?ip cmd s = (r, s')" by fastforce
  note lw = lock_wait_ok[OF ok w]
  consider (wait) "IEXLOCK (ilocks s ?ip) \<or> LOCK_EX \<in> cmd \<and> ISHLOCK (ilocks s ?ip)"
    | (ex) "\<not> IEXLOCK (ilocks s ?ip)" "LOCK_EX \<in> cmd" "\<not> ISHLOCK (ilocks s ?ip)"
    | (sh) "\<not> IEXLOCK (ilocks s ?ip)" "LOCK_EX \<notin> cmd" "LOCK_SH \<in> cmd" using c by blast
  then show ?thesis
  proof cases
    case wait
    then have "ino_lock (Suc n) fp cmd s = Some (lock_wait ?ip cmd s)"
      unfolding ino_lock.simps Let_def using no by (metis (full_types))
    then show ?thesis using w lw by (simp add: lock_got_def del: ino_lock.simps)
  next
    case ex then show ?thesis using grant_ex_ok[OF ok fp refl ip ex(1,3,2)] by (simp add: Let_def lock_got_def)
  next
    case sh then show ?thesis using grant_sh_ok[OF ok fp refl ip sh] by (simp add: Let_def lock_got_def)
  qed
qed

lemma ino_lock_returns:
  assumes ok: "lock_ok s" and fp: "fp < length (files s)" and ip: "f_data (files s ! fp) \<noteq> 0"
    and c: "cmd \<inter> {LOCK_SH, LOCK_EX} \<noteq> {}"
  shows "\<exists>r s'. ino_lock 3 fp cmd s = Some (r, s') \<and> lock_got fp cmd r s'"
proof -
  let ?ip = "f_data (files s ! fp)" and ?fl = "f_flag (files s ! fp)"
  have inv: "lock_inv (ilocks s ?ip) (nlocks FSHLOCK ?ip s) (nlocks FEXLOCK ?ip s)" using ok ip by (simp add: lock_ok_def)
  have ex: "FEXLOCK \<in> ?fl \<Longrightarrow> IEXLOCK (ilocks s ?ip) \<and> FSHLOCK \<notin> ?fl"
    using inv nlocks_pos[OF fp, of FEXLOCK ?ip] nlocks_pos[OF fp, of FSHLOCK ?ip] by (auto simp: lock_inv_def holds_def)
  have sh: "FSHLOCK \<in> ?fl \<Longrightarrow> ISHLOCK (ilocks s ?ip) \<and> \<not> IEXLOCK (ilocks s ?ip)"
    using inv nlocks_pos[OF fp, of FSHLOCK ?ip] by (auto simp: lock_inv_def holds_def)
  have n3: "(3::nat) = Suc (Suc 1)" by simp
  consider (ex) "FEXLOCK \<in> ?fl" | (sh) "FEXLOCK \<notin> ?fl" "FSHLOCK \<in> ?fl" "LOCK_EX \<in> cmd"
    | (no) "FEXLOCK \<notin> ?fl" "LOCK_EX \<in> cmd \<longrightarrow> FSHLOCK \<notin> ?fl" by blast
  then show ?thesis
  proof cases
    case c1: ex
    let ?t = "ino_unlock fp {FEXLOCK} s"
    have t: "lock_ok ?t" "files ?t ! fp = (files s ! fp)\<lparr>f_flag := ?fl - {FEXLOCK}\<rparr>"
      using ino_unlock_ex_ok[OF ok fp] ino_unlock_ex_file[OF fp ip, of fp] by simp_all
    have "\<exists>r s'. ino_lock (Suc 1) fp cmd ?t = Some (r, s') \<and> lock_got fp cmd r s'"
      by (rule ino_lock_last[OF t(1)]) (use t fp ip c ex[OF c1] in auto)
    then show ?thesis unfolding n3 using ex[OF c1] c1 by (subst ino_lock.simps(2)) (simp add: Let_def del: ino_lock.simps)
  next
    case c2: sh
    let ?t = "ino_unlock fp {FSHLOCK} s"
    have t: "lock_ok ?t" "files ?t ! fp = (files s ! fp)\<lparr>f_flag := ?fl - {FSHLOCK}\<rparr>"
      using ino_unlock_sh_ok[OF ok fp] ino_unlock_sh_file[OF fp ip, of fp] by simp_all
    have "\<exists>r s'. ino_lock (Suc 1) fp cmd ?t = Some (r, s') \<and> lock_got fp cmd r s'"
      by (rule ino_lock_last[OF t(1)]) (use t fp ip c c2 in auto)
    then show ?thesis unfolding n3 using sh[OF c2(2)] c2 by (subst ino_lock.simps(2)) (simp add: Let_def del: ino_lock.simps)
  next
    case no
    show ?thesis unfolding n3 by (rule ino_lock_last[OF ok fp ip c no])
  qed
qed

lemma ino_grant_file:
  assumes "fp < length (files s)"
  shows "length (files (ino_grant fp cmd s)) = length (files s)" "f_data (files (ino_grant fp cmd s) ! q) = f_data (files s ! q)"
  using assms by (simp_all add: ino_grant_def Let_def files_upd_file)

lemma lock_wait_files: "files (snd (lock_wait ip cmd s)) = files s"
  by (simp add: lock_wait_def)

lemma ino_lock_data:
  "fp < length (files s) \<Longrightarrow> ino_lock n fp cmd s = Some (r, s') \<Longrightarrow>
     length (files s') = length (files s) \<and> f_data (files s' ! fp) = f_data (files s ! fp)"
proof (induction n arbitrary: s)
  case (Suc n)
  have u: "length (files s') = length (files s) \<and> f_data (files s' ! fp) = f_data (files s ! fp)"
    if "ino_lock n fp cmd (ino_unlock fp k s) = Some (r, s')" for k
    using Suc.IH[OF _ that] Suc.prems(1) by simp
  have w: "files s' = files s" if "lock_wait ip cmd s = (r, s')" for ip
    using lock_wait_files[of ip cmd s] that by simp
  show ?case using Suc.prems(2) ino_grant_file[OF Suc.prems(1)] u w
    by (simp add: Let_def split: if_splits) blast+
qed simp

lemma lock_got_excludes:
  assumes got: "lock_got fp cmd Locked s" and fp: "fp < length (files s)" and ip: "f_data (files s ! fp) \<noteq> 0"
    and q: "q < length (files s)" "q \<noteq> fp" "f_data (files s ! q) = f_data (files s ! fp)"
  shows "FEXLOCK \<notin> f_flag (files s ! q) \<and> (LOCK_EX \<in> cmd \<longrightarrow> FSHLOCK \<notin> f_flag (files s ! q))"
proof -
  let ?ip = "f_data (files s ! fp)"
  have inv: "lock_inv (ilocks s ?ip) (nlocks FSHLOCK ?ip s) (nlocks FEXLOCK ?ip s)"
    using got ip by (simp add: lock_got_def lock_ok_def)
  have held: "holds (if LOCK_EX \<in> cmd then FEXLOCK else FSHLOCK) ?ip (files s ! fp)"
    using got by (simp add: lock_got_def holds_def)
  show ?thesis
  proof (cases "LOCK_EX \<in> cmd")
    case True
    then have h: "holds FEXLOCK ?ip (files s ! fp)" using held by simp
    then have n: "nlocks FEXLOCK ?ip s = 1" "nlocks FSHLOCK ?ip s = 0"
      using nlocks_pos[OF fp h] inv by (auto simp: lock_inv_def)
    show ?thesis using nlocks_1_unique[OF _ fp h q(1,2)] n nlocks_pos[OF q(1), of FSHLOCK ?ip] q(3) by (auto simp: holds_def)
  next
    case False
    then have "holds FSHLOCK ?ip (files s ! fp)" using held by simp
    from nlocks_pos[OF fp this] have "nlocks FEXLOCK ?ip s = 0" using inv by (auto simp: lock_inv_def)
    then show ?thesis using False nlocks_pos[OF q(1), of FEXLOCK ?ip] q(3) by (auto simp: holds_def)
  qed
qed

section \<open>Properties\<close>

text \<open>
  A descriptor table for the witnesses: \<open>n + 1\<close> file slots, descriptor 0 open on slot 0 (inode 7), whose count is \<open>c\<close>.
\<close>

definition table0 :: "nat \<Rightarrow> u8 \<Rightarrow> desc" where
  "table0 n c =
     \<lparr>files = \<lparr>f_flag = {FREAD}, f_type = DTYPE_INODE, f_count = c, f_data = 7, f_offset = 0\<rparr> #
        replicate n \<lparr>f_flag = {}, f_type = DTYPE_INODE, f_count = 0, f_data = 0, f_offset = 0\<rparr>,
      lastf = 0, ofile = Some 0 # None # replicate 28 None, pofile = replicate 30 0, lastfile = 0,
      ilocks = (\<lambda>_. \<lparr>i_shlockc = 0, i_exlockc = 0, ISHLOCK = False, IEXLOCK = False, ILWAIT = False\<rparr>),
      so_pgrp = (\<lambda>_. 0)\<rparr>"

lemma table0_ref_ok: "0 < unat c \<Longrightarrow> ref_ok (\<lambda>fp. if fp = 0 then unat c - 1 else 0) (table0 n c)"
  by (auto simp: ref_ok_def table0_def NOFILE_def refs_def nth_Cons' count_mset)

lemma table0_lock_ok: "n < 255 \<Longrightarrow> lock_ok (table0 n c)"
  by (simp add: lock_ok_def table0_def lock_inv_def nlocks_def holds_def)

text \<open>
  C8. Reference counts are exact: after any sequence of dup, dup2, close, falloc, fcntl, flock and open calls
  (the ones that add a reference taken while no count is at 255), the count of every file table slot is the number of
  descriptors of the process that name the slot plus the references from elsewhere; so no open descriptor ever names a
  slot that \<^verbatim>\<open>falloc\<close> would hand out.
\<close>

theorem reference_counts_exact:
  assumes "ref_ok X s" "desc_step\<^sup>*\<^sup>* s s'" "fp < length (files s')"
  shows "unat (f_count (files s' ! fp)) = refs s' fp + X fp \<and> (free_slot s' = Some fp \<longrightarrow> Some fp \<notin> set (ofile s'))"
proof -
  have ok: "ref_ok X s'" using assms(2,1) by (induction rule: rtranclp_induct) (auto intro: desc_step_ok)
  then have "lastf s' \<le> length (files s')" by (simp add: ref_ok_def)
  then have "free_slot s' = Some fp \<Longrightarrow> Some fp \<notin> set (ofile s')"
    using free_slot_Some[of s' fp] unreferenced(1)[OF ok assms(3)] by blast
  then show ?thesis using ok assms(3) by (simp add: ref_ok_def)
qed

theorem reference_counts_exact_witness:
  "unat (f_count (files (snd (dup (\<lambda>_. None) 0 0 (table0 2 1))) ! 0)) =
     refs (snd (dup (\<lambda>_. None) 0 0 (table0 2 1))) 0 + 0"
proof -
  have "roomy (table0 2 1)" by (simp add: roomy_def table0_def)
  then have "desc_step (table0 2 1) (snd (dup (\<lambda>_. None) 0 0 (table0 2 1)))"
    by (rule step_dup[OF _ surjective_pairing])
  moreover have "0 < length (files (snd (dup (\<lambda>_. None) 0 0 (table0 2 1))))"
    by (simp add: dup_def getf_def NOFILE_def ufalloc_def dupit_def table0_def upd_file_def)
  ultimately show ?thesis
    using reference_counts_exact[OF table0_ref_ok[of 1 2] r_into_rtranclp, of "snd (dup (\<lambda>_. None) 0 0 (table0 2 1))" 0] by simp
qed

text \<open>
  \<^verbatim>\<open>falloc\<close> gives the lowest free descriptor and a file slot nothing refers to, and makes the one point to the other;
  it fails with EMFILE exactly when every descriptor is in use and otherwise with ENFILE exactly when
  every slot of the file table has references.
\<close>

lemma falloc_lowest_and_unreferenced:
  assumes "ref_ok X s"
  shows "case falloc s of
      (Inr (i, fp), s') \<Rightarrow> ofile s ! i = None \<and> (\<forall>k<i. ofile s ! k \<noteq> None) \<and> Some fp \<notin> set (ofile s) \<and> X fp = 0 \<and>
        getf (int i) s' = Some fp \<and> f_count (files s' ! fp) = 1 \<and> f_offset (files s' ! fp) = 0 \<and>
        (\<forall>j. j \<noteq> int i \<longrightarrow> getf j s' = getf j s)
    | (Inl e, s') \<Rightarrow> e = (if None \<notin> set (ofile s) then EMFILE else ENFILE) \<and> ofile s' = ofile s \<and> files s' = files s \<and>
        (e = ENFILE \<longrightarrow> (\<forall>f\<in>set (files s). f_count f \<noteq> 0))"
  using assms
proof (cases rule: falloc_cases)
  case (nofile s1)
  then have "ofile s1 = ofile s \<and> files s1 = files s"
    by (auto simp: falloc_def ufalloc_def split: option.splits prod.splits if_splits)
  then show ?thesis using nofile by simp
next
  case (got i fp s1)
  have len: "length (ofile s) = NOFILE" using assms by (simp add: ref_ok_def)
  have "getf j (snd (falloc s)) = getf j s" if "j \<noteq> int i" for j
    using that len got(7,8) by (auto simp: getf_def nth_list_update)
  then show ?thesis
    using got len unreferenced[OF assms got(4,5)] by (simp add: getf_def files_upd_file)
qed simp

text \<open>
  C40. The reference count has 8 bits and \<^verbatim>\<open>dupit\<close> does not check it: duplicating a descriptor of a file with 255
  references makes its count 0 while both descriptors still refer to it, and the slot, when the search reaches it first,
  is what \<^verbatim>\<open>falloc\<close> hands out for the next file that is opened.
\<close>

theorem reference_count_wraps:
  assumes "ref_ok X s" "0 \<le> i" "getf i s = Some fp" "f_count (files s ! fp) = 255" "None \<in> set (ofile s)" "lastf s = fp"
  shows "\<exists>j s'. dup fc i k s = (Inr j, s') \<and> getf i s' = Some fp \<and> getf j s' = Some fp \<and> f_count (files s' ! fp) = 0 \<and>
    free_slot s' = Some fp"
proof -
  have len: "length (ofile s) = NOFILE" using assms by (simp add: ref_ok_def)
  note g = getf_Some[OF assms(1,3)]
  obtain r s1 where u: "ufalloc 0 s = (r, s1)" by fastforce
  note sp = ufalloc_spec[OF len, of 0, unfolded u, simplified]
  obtain n where r: "r = Inr n"
    using sp assms(5) len by (cases r) (auto simp: in_set_conv_nth)
  then have n: "n < NOFILE" "ofile s ! n = None"
    "s1 = s\<lparr>pofile := (pofile s)[n := 0], lastfile := max (lastfile s) (int n)\<rparr>" using sp by auto
  let ?s' = "dupit n fp (pofile s1 ! nat i AND NOT UF_EXCLOSE) s1"
  have d: "dup fc i k s = (Inr (int n), ?s')"
    using g assms(2,3) u r by (auto simp: dup_def NOFILE_def)
  have of: "ofile ?s' = (ofile s)[n := Some fp]" "lastf ?s' = fp" "length (files ?s') = length (files s)"
    using n(3) assms(6) by (simp_all add: dupit_def)
  have c: "f_count (files ?s' ! fp) = 0" using g assms(4) n(3) by (simp add: dupit_def files_upd_file)
  have "getf i ?s' = Some fp" "getf (int n) ?s' = Some fp"
    using g n of len by (auto simp: getf_def nth_list_update)
  moreover have "free_slot ?s' = Some fp" using of c g by (simp add: free_slot_def upt_conv_Cons)
  ultimately show ?thesis using d c by blast
qed

theorem reference_count_wraps_witness:
  "\<exists>j s'. dup (\<lambda>_. None) 0 0 (table0 2 255) = (Inr j, s') \<and> getf 0 s' = Some 0 \<and> getf j s' = Some 0 \<and>
     f_count (files s' ! 0) = 0 \<and> free_slot s' = Some 0"
  by (rule reference_count_wraps[OF table0_ref_ok]) (simp_all add: getf_def NOFILE_def table0_def)

text \<open>
  C22. Advisory locks exclude each other: \<^verbatim>\<open>flock\<close> on an open inode returns or goes to sleep (three rounds of its loop
  are enough); when it reports an exclusive lock no other open file has any lock on the inode, and when it reports
  a shared lock no other open file has an exclusive one. The inode's counts keep agreeing with the locks held.
\<close>

theorem flock_mutual_exclusion:
  assumes ok: "lock_ok s" and g: "getf fd s = Some fp" and fp: "fp < length (files s)"
    and ip: "f_data (files s ! fp) \<noteq> 0" and t: "f_type (files s ! fp) = DTYPE_INODE"
    and how: "LOCK_UN \<notin> how" "how \<inter> {LOCK_SH, LOCK_EX} \<noteq> {}"
  shows "\<exists>r s'. flock fd how s = Some (r, s') \<and> lock_ok s' \<and>
    (r = Locked \<longrightarrow> (\<forall>q<length (files s'). q \<noteq> fp \<and> f_data (files s' ! q) = f_data (files s' ! fp) \<longrightarrow>
       FEXLOCK \<notin> f_flag (files s' ! q) \<and> (LOCK_EX \<in> how \<longrightarrow> FSHLOCK \<notin> f_flag (files s' ! q))))"
proof -
  let ?how = "if LOCK_EX \<in> how then how - {LOCK_SH} else how"
  have c: "?how \<inter> {LOCK_SH, LOCK_EX} \<noteq> {}" using how(2) by auto
  have fl: "flock fd how s = (if FEXLOCK \<in> f_flag (files s ! fp) \<and> LOCK_EX \<in> ?how \<or> FSHLOCK \<in> f_flag (files s ! fp) \<and> LOCK_SH \<in> ?how
      then Some (Locked, s) else ino_lock 3 fp ?how s)"
    unfolding flock_def by (simp only: Let_def g option.case t how simp_thms if_False)
  have ex: "\<exists>r s'. flock fd how s = Some (r, s') \<and> lock_got fp ?how r s' \<and> fp < length (files s') \<and> f_data (files s' ! fp) \<noteq> 0"
  proof (cases "FEXLOCK \<in> f_flag (files s ! fp) \<and> LOCK_EX \<in> ?how \<or> FSHLOCK \<in> f_flag (files s ! fp) \<and> LOCK_SH \<in> ?how")
    case True
    then have "flock fd how s = Some (Locked, s)" unfolding fl by (rule if_P)
    moreover have "lock_got fp ?how Locked s" using True ok by (auto simp: lock_got_def split: if_splits)
    ultimately show ?thesis using fp ip by blast
  next
    case False
    obtain r s' where l: "ino_lock 3 fp ?how s = Some (r, s')" "lock_got fp ?how r s'"
      using ino_lock_returns[OF ok fp ip c] by blast
    have "flock fd how s = Some (r, s')" unfolding fl if_not_P[OF False] by (rule l(1))
    then show ?thesis using l ino_lock_data[OF fp l(1)] ip fp by auto
  qed
  then obtain r s' where f: "flock fd how s = Some (r, s')" "lock_got fp ?how r s'" "fp < length (files s')"
    "f_data (files s' ! fp) \<noteq> 0" by blast
  have "r = Locked \<Longrightarrow> q < length (files s') \<Longrightarrow> q \<noteq> fp \<Longrightarrow> f_data (files s' ! q) = f_data (files s' ! fp) \<Longrightarrow>
      FEXLOCK \<notin> f_flag (files s' ! q) \<and> (LOCK_EX \<in> how \<longrightarrow> FSHLOCK \<notin> f_flag (files s' ! q))" for q
    using lock_got_excludes[OF _ f(3,4), of ?how q] f(2) by simp
  then show ?thesis using f by (auto simp: lock_got_def)
qed

theorem flock_mutual_exclusion_witness:
  "\<exists>r s'. flock 0 {LOCK_EX} (table0 2 1) = Some (r, s') \<and> lock_ok s'"
  using flock_mutual_exclusion[OF table0_lock_ok[of 2 1], of 0 0 "{LOCK_EX}"]
  by (auto simp: getf_def NOFILE_def table0_def)

text \<open>
  Opening \<^verbatim>\<open>/dev/fd/N\<close> when descriptor \<open>N\<close> is not open reports success, although the descriptor it returns is closed:
  the error of \<^verbatim>\<open>dupfdopen\<close> is overwritten by the comparison with 0.
\<close>

lemma dev_fd_of_closed_descriptor:
  assumes "falloc s = (Inr (indx, fp), s1)" "ref_ok X s" "getf (int (dev mod 256)) s = None" "dev mod 256 \<noteq> indx"
  shows "\<exists>s'. copen fc fmask flags ex sh (Inl (fst (fdopen dev), Some (snd (fdopen dev)))) s = Some (Opened indx, s') \<and>
    getf (int indx) s' = None"
proof -
  note g = falloc_got[OF assms(2,1)]
  have n: "dev mod 256 < NOFILE \<Longrightarrow> ofile s1 ! (dev mod 256) = None"
    using assms(3,4) g(8) by (auto simp: getf_def split: if_splits)
  have len: "length (ofile s1) = NOFILE" using g(1) by (simp add: ref_ok_def)
  show ?thesis using assms(1) n g(2) len
    by (auto simp: copen_def Let_def copen_fail_def fdopen_def dupfdopen_def getf_def split: option.splits)
qed

end
