(* ===== verification/Clist.thy ===== *)
theory Clist
  imports Prelude
begin

text \<open>
  Character lists: \<^verbatim>\<open>sys/sys/tty_subr.c\<close>. A list is a chain of 32-byte blocks, each a link and 30
  characters, taken from a common free list. The store has the links (\<open>c_next\<close>, by block address) and
  the bytes (\<open>cmem\<close>, by byte address); addresses are numbers, 0 is NULL, and the block of a pointer is found by
  clearing its low five bits, as in the C code. The counts fit the machine's integers: clists live in one segment of 8 kbytes.
  Interrupt levels and the mapping of the clist segment (\<^verbatim>\<open>UCB_CLIST\<close>) do not change results
  and are left out; the wakeup of a process that waits for free blocks is the reset of \<open>cwaiting\<close>.
\<close>

section \<open>State\<close>

record cstore =
  c_next :: "nat \<Rightarrow> nat"
  cmem :: "nat \<Rightarrow> u8"
  cfreelist :: nat
  cfreecount :: int
  cwaiting :: bool

record clist =
  c_cc :: int
  c_cf :: nat
  c_cl :: nat

definition CBLOCK :: nat where "CBLOCK = 32"
definition CBSIZE :: nat where "CBSIZE = 30"

text \<open>\<open>p & ~CROUND\<close>, the block that a pointer points into, and the first character of a block.\<close>

definition cblock :: "nat \<Rightarrow> nat" where
  "cblock p = p - p mod CBLOCK"

definition c_info :: "nat \<Rightarrow> nat" where
  "c_info bp = bp + 2"

text \<open>The lines every routine repeats: returning a block to the free list, and taking one from it.\<close>

definition cfree :: "nat \<Rightarrow> cstore \<Rightarrow> cstore" where
  "cfree bp s = s\<lparr>c_next := (c_next s)(bp := cfreelist s), cfreelist := bp,
                  cfreecount := cfreecount s + int CBSIZE, cwaiting := False\<rparr>"

definition calloc :: "nat \<Rightarrow> cstore \<Rightarrow> cstore" where
  "calloc bp s = s\<lparr>cfreelist := c_next s bp, cfreecount := cfreecount s - int CBSIZE, c_next := (c_next s)(bp := 0)\<rparr>"

abbreviation clist_null :: clist where
  "clist_null \<equiv> \<lparr>c_cc = 0, c_cf = 0, c_cl = 0\<rparr>"

section \<open>One character\<close>

definition getc :: "clist \<Rightarrow> cstore \<Rightarrow> int \<times> clist \<times> cstore" where
  "getc p s =
     (if c_cc p \<le> 0 then (-1, clist_null, s)
      else let c = uint (cmem s (c_cf p)); p1 = p\<lparr>c_cf := c_cf p + 1, c_cc := c_cc p - 1\<rparr> in
        if c_cc p1 \<le> 0
        then let bp = cblock (c_cf p1 - 1) in (c, p1\<lparr>c_cf := 0, c_cl := 0\<rparr>, cfree bp s)
        else if c_cf p1 mod CBLOCK = 0
        then let bp = c_cf p1 - CBLOCK in (c, p1\<lparr>c_cf := c_info (c_next s bp)\<rparr>, cfree bp s)
        else (c, p1, s))"

definition putc :: "u8 \<Rightarrow> clist \<Rightarrow> cstore \<Rightarrow> int \<times> clist \<times> cstore" where
  "putc c p s =
     (if c_cl p = 0 \<or> c_cc p < 0
      then let bp = cfreelist s in
        if bp = 0 then (-1, p, s)
        else let s1 = calloc bp s; cp = c_info bp
             in (0, p\<lparr>c_cf := cp, c_cc := c_cc p + 1, c_cl := cp + 1\<rparr>, s1\<lparr>cmem := (cmem s1)(cp := c)\<rparr>)
      else if c_cl p mod CBLOCK = 0
      then let bp = c_cl p - CBLOCK; nb = cfreelist s; s1 = s\<lparr>c_next := (c_next s)(bp := nb)\<rparr> in
        if nb = 0 then (-1, p, s1)
        else let s2 = calloc nb s1; cp = c_info nb
             in (0, p\<lparr>c_cc := c_cc p + 1, c_cl := cp + 1\<rparr>, s2\<lparr>cmem := (cmem s2)(cp := c)\<rparr>)
      else (0, p\<lparr>c_cc := c_cc p + 1, c_cl := c_cl p + 1\<rparr>, s\<lparr>cmem := (cmem s)(c_cl p := c)\<rparr>))"

text \<open>
  \<^verbatim>\<open>unputc\<close>. The character it returns is a \<^verbatim>\<open>char\<close>, which is signed on the PDP-11. The walk to the
  block before the last may not end when the chain is damaged.
\<close>

partial_function (option) prev_block :: "(nat \<Rightarrow> nat) \<Rightarrow> nat \<Rightarrow> nat \<Rightarrow> nat option" where
  "prev_block nx target bp = (if nx bp = target then Some bp else prev_block nx target (nx bp))"

definition unputc :: "clist \<Rightarrow> cstore \<Rightarrow> (int \<times> clist \<times> cstore) option" where
  "unputc p s =
     (if c_cc p \<le> 0 then Some (-1, p, s)
      else let c = sint (cmem s (c_cl p - 1)); p1 = p\<lparr>c_cl := c_cl p - 1, c_cc := c_cc p - 1\<rparr> in
        if c_cc p1 \<le> 0
        then let bp = cblock (c_cl p1)
             in Some (c, p1\<lparr>c_cf := 0, c_cl := 0\<rparr>, (cfree bp s)\<lparr>cwaiting := cwaiting s\<rparr>)
        else if c_cl p1 mod CBLOCK = 2
        then case prev_block (c_next s) (cblock (c_cl p1)) (cblock (c_cf p1)) of
               None \<Rightarrow> None
             | Some obp \<Rightarrow>
                 let s1 = (cfree (c_next s obp) s)\<lparr>cwaiting := cwaiting s\<rparr>
                 in Some (c, p1\<lparr>c_cl := obp + CBLOCK\<rparr>, s1\<lparr>c_next := (c_next s1)(obp := 0)\<rparr>)
        else Some (c, p1, s))"

definition nextc :: "clist \<Rightarrow> nat \<Rightarrow> cstore \<Rightarrow> nat option" where
  "nextc p cp0 s =
     (let cp = cp0 + 1 in
      if c_cc p \<noteq> 0 \<and> cp \<noteq> c_cl p
      then Some (if cp mod CBLOCK = 0 then c_info (c_next s (cp - CBLOCK)) else cp)
      else None)"

definition lookc :: "nat \<Rightarrow> cstore \<Rightarrow> u8" where
  "lookc cp s = cmem s cp"

section \<open>Many characters\<close>

text \<open>\<^verbatim>\<open>bcopy\<close> out of and into the store. The buffers are lists of bytes.\<close>

definition bcopy_out :: "cstore \<Rightarrow> nat \<Rightarrow> nat \<Rightarrow> u8 list" where
  "bcopy_out s a n = map (cmem s) [a..<a + n]"

primrec bcopy_in :: "(nat \<Rightarrow> u8) \<Rightarrow> nat \<Rightarrow> u8 list \<Rightarrow> nat \<Rightarrow> u8" where
  "bcopy_in f a [] = f"
| "bcopy_in f a (x # xs) = bcopy_in (f(a := x)) (a + 1) xs"

text \<open>The loop of \<^verbatim>\<open>q_to_b\<close>; \<open>acc\<close> holds the bytes copied so far, \<open>cc\<close> the room left.\<close>

function q_to_b_loop :: "clist \<Rightarrow> int \<Rightarrow> u8 list \<Rightarrow> cstore \<Rightarrow> u8 list \<times> clist \<times> cstore" where
  "q_to_b_loop q cc acc s =
     (if cc \<le> 0 then (acc, q, s)
      else let nc = min (min (int CBLOCK - int (c_cf q mod CBLOCK)) cc) (c_cc q);
               acc1 = acc @ bcopy_out s (c_cf q) (nat nc);
               q1 = q\<lparr>c_cf := c_cf q + nat nc, c_cc := c_cc q - nc\<rparr>
           in if c_cc q1 \<le> 0
              then let bp = cblock (c_cf q1 - 1) in (acc1, q1\<lparr>c_cf := 0, c_cl := 0\<rparr>, cfree bp s)
              else if c_cf q1 mod CBLOCK = 0
              then let bp = c_cf q1 - CBLOCK
                   in q_to_b_loop (q1\<lparr>c_cf := c_info (c_next s bp)\<rparr>) (cc - nc) acc1 (cfree bp s)
              else q_to_b_loop q1 (cc - nc) acc1 s)"
  by pat_completeness auto

lemma CBLOCK_mod_lt [simp]: "x mod CBLOCK < CBLOCK"
  by (simp add: CBLOCK_def)

lemma chunk_pos:
  assumes "0 < cc" "0 < k - min (min (int CBLOCK - int (x mod CBLOCK)) cc) k"
  shows "0 < min (min (int CBLOCK - int (x mod CBLOCK)) cc) k"
proof -
  have "0 < int CBLOCK - int (x mod CBLOCK)" using CBLOCK_mod_lt[of x] by linarith
  then show ?thesis using assms by linarith
qed

termination q_to_b_loop
proof (relation "measure (\<lambda>(q, cc, acc, s). nat cc)", goal_cases)
  case (2 q cc acc s nc acc1 q1 bp)
  have "c_cc q1 = c_cc q - nc" unfolding 2(4) by simp
  then have "0 < c_cc q - nc" using 2(5) by linarith
  then have "0 < nc" using chunk_pos[of cc "c_cc q" "c_cf q"] 2(1) unfolding 2(2) by linarith
  then show ?case using 2(1) by simp
next
  case (3 q cc acc s nc acc1 q1)
  have "c_cc q1 = c_cc q - nc" unfolding 3(4) by simp
  then have "0 < c_cc q - nc" using 3(5) by linarith
  then have "0 < nc" using chunk_pos[of cc "c_cc q" "c_cf q"] 3(1) unfolding 3(2) by linarith
  then show ?case using 3(1) by simp
qed simp

definition q_to_b :: "clist \<Rightarrow> int \<Rightarrow> cstore \<Rightarrow> u8 list \<times> clist \<times> cstore" where
  "q_to_b q cc s =
     (if cc \<le> 0 then ([], q, s)
      else if c_cc q \<le> 0 then ([], clist_null, s)
      else q_to_b_loop q cc [] s)"

fun ndqb_scan :: "nat \<Rightarrow> u8 \<Rightarrow> u8 list \<Rightarrow> nat" where
  "ndqb_scan n flag [] = n"
| "ndqb_scan n flag (c # cs) = (if c AND flag \<noteq> 0 then n else ndqb_scan (n + 1) flag cs)"

definition ndqb :: "clist \<Rightarrow> u8 \<Rightarrow> cstore \<Rightarrow> int" where
  "ndqb q flag s =
     (if c_cc q \<le> 0 then - c_cc q
      else let cc0 = int (cblock (c_cf q + CBSIZE)) - int (c_cf q);
               cc = (if c_cc q < cc0 then c_cc q else cc0)
           in if flag \<noteq> 0 then int (ndqb_scan 0 flag (bcopy_out s (c_cf q) (nat cc))) else cc)"

partial_function (option) ndflush_loop :: "clist \<Rightarrow> int \<Rightarrow> cstore \<Rightarrow> (clist \<times> cstore) option" where
  "ndflush_loop q cc s =
     (if \<not> (cc > 0 \<and> c_cc q \<noteq> 0) then Some (q, s)
      else let bp = cblock (c_cf q);
               end = (if bp = cblock (c_cl q - 1) then c_cl q else bp + CBLOCK);
               rem = int end - int (c_cf q)
           in if cc \<ge> rem
              then ndflush_loop (q\<lparr>c_cc := c_cc q - rem, c_cf := c_info (c_next s bp)\<rparr>) (cc - rem) (cfree bp s)
              else let q1 = q\<lparr>c_cc := c_cc q - cc, c_cf := c_cf q + nat cc\<rparr>
                   in if c_cc q1 \<le> 0 then Some (q1, cfree bp s) else Some (q1, s))"

definition ndflush :: "clist \<Rightarrow> int \<Rightarrow> cstore \<Rightarrow> (clist \<times> cstore) option" where
  "ndflush q cc s =
     (if c_cc q \<le> 0 then Some (q, s)
      else case ndflush_loop q cc s of
             None \<Rightarrow> None
           | Some (q1, s1) \<Rightarrow> Some (if c_cc q1 \<le> 0 then clist_null else q1, s1))"

text \<open>
  \<^verbatim>\<open>b_to_q\<close>; the \<open>cc\<close> bytes at \<open>cp\<close> are the list. The loop returns the bytes it could not store, the
  pointer after the last one stored, and the store.
\<close>

function b_to_q_loop :: "u8 list \<Rightarrow> nat \<Rightarrow> cstore \<Rightarrow> u8 list \<times> nat \<times> cstore" where
  "b_to_q_loop cp cq s =
     (if cp = [] then (cp, cq, s)
      else if cq mod CBLOCK = 0
      then let bp = cq - CBLOCK; nb = cfreelist s; s1 = s\<lparr>c_next := (c_next s)(bp := nb)\<rparr> in
        if nb = 0 then (cp, cq, s1)
        else let s2 = calloc nb s1; cq2 = c_info nb;
                 nc = min (length cp) (CBLOCK - cq2 mod CBLOCK)
             in b_to_q_loop (drop nc cp) (cq2 + nc) (s2\<lparr>cmem := bcopy_in (cmem s2) cq2 (take nc cp)\<rparr>)
      else let nc = min (length cp) (CBLOCK - cq mod CBLOCK)
           in b_to_q_loop (drop nc cp) (cq + nc) (s\<lparr>cmem := bcopy_in (cmem s) cq (take nc cp)\<rparr>))"
  by pat_completeness auto

termination b_to_q_loop
proof (relation "measure (\<lambda>(cp, cq, s). length cp)", goal_cases)
  case (2 cp cq s bp nb s1 s2 cq2 nc)
  then have "0 < nc" using CBLOCK_mod_lt[of cq2] by simp
  then show ?case using 2(1) by simp
next
  case (3 cp cq s nc)
  then have "0 < nc" using CBLOCK_mod_lt[of cq] by simp
  then show ?case using 3(1) by simp
qed simp

definition b_to_q :: "u8 list \<Rightarrow> clist \<Rightarrow> cstore \<Rightarrow> nat \<times> clist \<times> cstore" where
  "b_to_q cp q s =
     (if cp = [] then (0, q, s)
      else if (c_cl q = 0 \<or> c_cc q < 0) \<and> cfreelist s = 0 then (length cp, q, s)
      else let bp = cfreelist s;
               r = (if c_cl q = 0 \<or> c_cc q < 0 then (q\<lparr>c_cf := c_info bp\<rparr>, c_info bp, calloc bp s) else (q, c_cl q, s));
               l = b_to_q_loop cp (fst (snd r)) (snd (snd r))
           in (length (fst l),
               (fst r)\<lparr>c_cl := fst (snd l), c_cc := c_cc q + (int (length cp) - int (length (fst l)))\<rparr>,
               snd (snd l)))"

text \<open>\<^verbatim>\<open>catq\<close>, with its buffer of \<^verbatim>\<open>CBSIZE*4\<close> bytes; \<open>from\<close> and \<open>to\<close> are different lists.\<close>

partial_function (option) catq_loop :: "clist \<Rightarrow> clist \<Rightarrow> cstore \<Rightarrow> (clist \<times> clist \<times> cstore) option" where
  "catq_loop fr to s =
     (if c_cc fr > 0
      then let (bbuf, fr1, s1) = q_to_b fr (int CBSIZE * 4) s; (r, to1, s2) = b_to_q bbuf to s1
           in catq_loop fr1 to1 s2
      else Some (fr, to, s))"

definition catq :: "clist \<Rightarrow> clist \<Rightarrow> cstore \<Rightarrow> (clist \<times> clist \<times> cstore) option" where
  "catq fr to s = (if c_cc to = 0 then Some (clist_null, fr, s) else catq_loop fr to s)"

end
