(* ===== verification/Clist_Rep.thy ===== *)
theory Clist_Rep
  imports Clist
begin

text \<open>
  What a character list represents: a chain of blocks \<open>bs\<close>, apart from the free list \<open>fs\<close>, and the bytes at the addresses
  from \<^verbatim>\<open>c_cf\<close> to \<^verbatim>\<open>c_cl\<close> along the chain. \<^verbatim>\<open>getc\<close>, \<^verbatim>\<open>putc\<close> and \<^verbatim>\<open>unputc\<close> act on that sequence of
  bytes as on a double-ended queue, and move whole blocks between the chain and the free list.
\<close>

section \<open>Representation\<close>

lemmas cdefs = CBLOCK_def CBSIZE_def c_info_def

fun addrs :: "nat list \<Rightarrow> nat \<Rightarrow> nat \<Rightarrow> nat list" where
  "addrs [] cf cl = []"
| "addrs [b] cf cl = [cf..<cl]"
| "addrs (b # b' # bs) cf cl = [cf..<b + 32] @ addrs (b' # bs) (b' + 2) cl"

fun linked :: "(nat \<Rightarrow> nat) \<Rightarrow> nat list \<Rightarrow> bool" where
  "linked nx [] = True"
| "linked nx [b] = (nx b = 0)"
| "linked nx (b # b' # bs) = (nx b = b' \<and> linked nx (b' # bs))"

definition blocks_ok :: "(nat \<Rightarrow> nat) \<Rightarrow> nat list \<Rightarrow> bool" where
  "blocks_ok nx bs \<longleftrightarrow> linked nx bs \<and> distinct bs \<and> (\<forall>b\<in>set bs. b mod 32 = 0 \<and> b \<noteq> 0)"

definition free_ok :: "cstore \<Rightarrow> nat list \<Rightarrow> bool" where
  "free_ok s fs \<longleftrightarrow> blocks_ok (c_next s) fs \<and> cfreelist s = (if fs = [] then 0 else hd fs) \<and>
     cfreecount s = int CBSIZE * int (length fs)"

definition ends_ok :: "nat list \<Rightarrow> nat \<Rightarrow> nat \<Rightarrow> bool" where
  "ends_ok bs cf cl \<longleftrightarrow> hd bs + 2 \<le> cf \<and> cf < hd bs + 32 \<and> last bs + 2 < cl \<and> cl \<le> last bs + 32 \<and>
     (tl bs = [] \<longrightarrow> cf < cl)"

definition queue_ok :: "cstore \<Rightarrow> clist \<Rightarrow> nat list \<Rightarrow> bool" where
  "queue_ok s q bs \<longleftrightarrow> blocks_ok (c_next s) bs \<and>
     (if bs = [] then q = clist_null
      else ends_ok bs (c_cf q) (c_cl q) \<and> c_cc q = int (length (addrs bs (c_cf q) (c_cl q))))"

definition clq :: "cstore \<Rightarrow> clist \<Rightarrow> nat list \<Rightarrow> nat list \<Rightarrow> bool" where
  "clq s q bs fs \<longleftrightarrow> queue_ok s q bs \<and> free_ok s fs \<and> set bs \<inter> set fs = {}"

definition contents :: "cstore \<Rightarrow> clist \<Rightarrow> nat list \<Rightarrow> u8 list" where
  "contents s q bs = map (cmem s) (addrs bs (c_cf q) (c_cl q))"

text \<open>Blocks outside \<open>D\<close> are as they were.\<close>

definition elsewhere :: "nat set \<Rightarrow> cstore \<Rightarrow> cstore \<Rightarrow> bool" where
  "elsewhere D s s' \<longleftrightarrow> (\<forall>b. b \<notin> D \<longrightarrow> c_next s' b = c_next s b) \<and> (\<forall>a. cblock a \<notin> D \<longrightarrow> cmem s' a = cmem s a)"

lemma elsewhere_refl [simp]: "elsewhere D s s"
  by (simp add: elsewhere_def)

lemma elsewhere_trans: "elsewhere D s t \<Longrightarrow> elsewhere D t r \<Longrightarrow> elsewhere D s r"
  by (simp add: elsewhere_def)

section \<open>Addresses\<close>

lemma cblock_eq: "b mod 32 = 0 \<Longrightarrow> b \<le> a \<Longrightarrow> a < b + 32 \<Longrightarrow> cblock a = b"
proof -
  assume a: "b mod 32 = 0" "b \<le> a" "a < b + 32"
  then obtain k where k: "b = 32 * k" by (auto simp: dvd_def mod_eq_0_iff_dvd)
  have "a = (a - b) + 32 * k" using a k by simp
  then have "a mod 32 = (a - b) mod 32" by (metis mod_mult_self2)
  then show ?thesis using a by (simp add: cblock_def CBLOCK_def)
qed

lemma ends_ok_Cons2:
  "ends_ok (b # b' # bs) cf cl \<Longrightarrow> ends_ok (b' # bs) (b' + 2) cl"
  by (auto simp: ends_ok_def)

lemma addrs_ne: "bs \<noteq> [] \<Longrightarrow> ends_ok bs cf cl \<Longrightarrow> addrs bs cf cl \<noteq> [] \<and> hd (addrs bs cf cl) = cf"
  by (cases "(bs, cf, cl)" rule: addrs.cases) (auto simp: ends_ok_def)

lemma addrs_block:
  "a \<in> set (addrs bs cf cl) \<Longrightarrow> \<forall>b\<in>set bs. b mod 32 = 0 \<Longrightarrow> distinct bs \<Longrightarrow> ends_ok bs cf cl \<Longrightarrow>
     cblock a \<in> set bs \<and> (cblock a = last bs \<longrightarrow> a < cl)"
proof (induction bs cf cl rule: addrs.induct)
  case (2 b cf cl)
  then show ?case using cblock_eq[of b a] by (auto simp: ends_ok_def)
next
  case (3 b b' bs cf cl)
  show ?case
  proof (cases "a \<in> set [cf..<b + 32]")
    case True
    then have "cblock a = b" using 3 by (intro cblock_eq) (auto simp: ends_ok_def)
    then show ?thesis using 3 by auto
  next
    case False
    then have "a \<in> set (addrs (b' # bs) (b' + 2) cl)" using "3.prems"(1) by auto
    then show ?thesis using 3 ends_ok_Cons2[OF "3.prems"(4)] by auto
  qed
qed simp

lemma addrs_snoc_block:
  "bs \<noteq> [] \<Longrightarrow> addrs (bs @ [b]) cf cl = addrs bs cf (last bs + 32) @ [b + 2..<cl]"
  by (induction bs cf cl rule: addrs.induct) auto

lemma addrs_snoc: "bs \<noteq> [] \<Longrightarrow> ends_ok bs cf cl \<Longrightarrow> addrs bs cf (Suc cl) = addrs bs cf cl @ [cl]"
proof (induction bs cf cl rule: addrs.induct)
  case (3 b b' bs cf cl)
  then show ?case using ends_ok_Cons2[OF "3.prems"(2)] by simp
qed (auto simp: ends_ok_def)

section \<open>Chains\<close>

lemma linked_cong: "(\<And>b. b \<in> set bs \<Longrightarrow> nx' b = nx b) \<Longrightarrow> linked nx' bs = linked nx bs"
  by (induction nx bs rule: linked.induct) auto

lemma blocks_ok_cong: "(\<And>b. b \<in> set bs \<Longrightarrow> nx' b = nx b) \<Longrightarrow> blocks_ok nx' bs = blocks_ok nx bs"
  using linked_cong[of bs nx' nx] by (simp add: blocks_ok_def)

lemma linked_upd [simp]: "b \<notin> set bs \<Longrightarrow> linked (nx(b := x)) bs = linked nx bs"
  by (rule linked_cong) auto

lemma blocks_ok_upd [simp]: "b \<notin> set bs \<Longrightarrow> blocks_ok (nx(b := x)) bs = blocks_ok nx bs"
  by (simp add: blocks_ok_def)

lemma blocks_ok_tl: "blocks_ok nx (b # bs) \<Longrightarrow> blocks_ok nx bs"
  by (cases bs) (auto simp: blocks_ok_def)

lemma linked_hd: "linked nx (b # bs) \<Longrightarrow> nx b = (if bs = [] then 0 else hd bs)"
  by (cases bs) auto

lemma blocks_ok_push:
  "blocks_ok nx fs \<Longrightarrow> b \<notin> set fs \<Longrightarrow> b mod 32 = 0 \<Longrightarrow> b \<noteq> 0 \<Longrightarrow>
     blocks_ok (nx(b := if fs = [] then 0 else hd fs)) (b # fs)"
proof -
  assume a: "blocks_ok nx fs" "b \<notin> set fs" "b mod 32 = 0" "b \<noteq> 0"
  let ?nx = "nx(b := if fs = [] then 0 else hd fs)"
  have "linked ?nx fs" using a by (simp add: blocks_ok_def)
  then have "linked ?nx (b # fs)" by (cases fs) auto
  then show ?thesis using a by (auto simp: blocks_ok_def)
qed

lemma linked_snoc:
  "bs \<noteq> [] \<Longrightarrow> distinct bs \<Longrightarrow> b \<notin> set bs \<Longrightarrow> linked nx bs \<Longrightarrow> linked (nx(last bs := b, b := 0)) (bs @ [b])"
  by (induction nx bs rule: linked.induct) auto

lemma blocks_ok_snoc:
  "bs \<noteq> [] \<Longrightarrow> blocks_ok nx bs \<Longrightarrow> b \<notin> set bs \<Longrightarrow> b mod 32 = 0 \<Longrightarrow> b \<noteq> 0 \<Longrightarrow>
     blocks_ok (nx(last bs := b, b := 0)) (bs @ [b])"
  using linked_snoc[of bs b nx] by (auto simp: blocks_ok_def)

text \<open>Giving a block back, and taking one.\<close>

lemma cfree_ok:
  assumes "free_ok s fs" "b \<notin> set fs" "b mod 32 = 0" "b \<noteq> 0"
  shows "free_ok (cfree b s) (b # fs)"
  using assms blocks_ok_push[of "c_next s" fs b] by (auto simp: free_ok_def cfree_def CBSIZE_def)

lemma cfree_sel [simp]:
  "cmem (cfree b s) = cmem s" "c_next (cfree b s) = (c_next s)(b := cfreelist s)" "cfreelist (cfree b s) = b"
  by (simp_all add: cfree_def)

lemma calloc_sel [simp]:
  "cmem (calloc b s) = cmem s" "c_next (calloc b s) = (c_next s)(b := 0)" "cfreelist (calloc b s) = c_next s b"
  "cfreecount (calloc b s) = cfreecount s - int CBSIZE"
  by (simp_all add: calloc_def)

lemma free_okD:
  "free_ok s (b # fs) \<Longrightarrow> cfreelist s = b \<and> c_next s b = (if fs = [] then 0 else hd fs) \<and> b \<noteq> 0 \<and> b mod 32 = 0 \<and> b \<notin> set fs"
  by (auto simp: free_ok_def blocks_ok_def dest: linked_hd)

lemma free_ok_Nil: "free_ok s [] \<longleftrightarrow> cfreelist s = 0 \<and> cfreecount s = 0"
  by (simp add: free_ok_def blocks_ok_def)

lemma free_ok_cfreelist: "free_ok s fs \<Longrightarrow> cfreelist s = 0 \<longleftrightarrow> fs = []"
  by (cases fs) (auto simp: free_ok_def blocks_ok_def)

text \<open>Updates of links and bytes that leave the free list alone.\<close>

lemma free_ok_cong:
  "free_ok s fs \<Longrightarrow> (\<And>b. b \<in> set fs \<Longrightarrow> c_next s' b = c_next s b) \<Longrightarrow> cfreelist s' = cfreelist s \<Longrightarrow>
     cfreecount s' = cfreecount s \<Longrightarrow> free_ok s' fs"
  using blocks_ok_cong[of fs "c_next s'" "c_next s"] by (simp add: free_ok_def)

lemma calloc_ok:
  assumes "free_ok s (b # fs)"
  shows "free_ok (calloc b s) fs"
proof -
  note d = free_okD[OF assms]
  have "blocks_ok (c_next s) fs" using assms blocks_ok_tl by (auto simp: free_ok_def)
  then have "blocks_ok ((c_next s)(b := 0)) fs" using d by simp
  then show ?thesis using assms d by (simp add: free_ok_def CBSIZE_def)
qed

section \<open>Taking a character from the front\<close>

lemma boundary: "b mod 32 = (0::nat) \<Longrightarrow> b < x \<Longrightarrow> x \<le> b + 32 \<Longrightarrow> x mod 32 = 0 \<longleftrightarrow> x = b + 32"
proof -
  assume a: "b mod 32 = 0" "b < x" "x \<le> b + 32"
  then obtain k where k: "b = 32 * k" by (auto simp: dvd_def mod_eq_0_iff_dvd)
  have "x = (x - b) + 32 * k" using a k by simp
  then have "x mod 32 = (x - b) mod 32" by (metis mod_mult_self2)
  then show ?thesis using a by (cases "x = b + 32") auto
qed

lemma addrs_tl:
  "ends_ok bs cf cl \<Longrightarrow> bs \<noteq> [] \<Longrightarrow> addrs bs (Suc cf) cl = tl (addrs bs cf cl)"
  by (cases "(bs, cf, cl)" rule: addrs.cases) (auto simp: ends_ok_def upt_rec[of cf])

lemma addrs_length_1:
  assumes e: "ends_ok bs cf cl" and l: "length (addrs bs cf cl) = Suc 0"
  shows "\<exists>b. bs = [b]"
proof (cases "(bs, cf, cl)" rule: addrs.cases)
  case (3 b b' bs' x y)
  then have "addrs (b' # bs') (b' + 2) cl \<noteq> []" using addrs_ne[of "b' # bs'"] ends_ok_Cons2 e by blast
  then have "0 < length (addrs (b' # bs') (b' + 2) cl)" by (rule length_greater_0_conv[THEN iffD2])
  moreover have "cf < b + 32" using e 3 by (simp add: ends_ok_def)
  moreover have "length (addrs bs cf cl) = (b + 32 - cf) + length (addrs (b' # bs') (b' + 2) cl)" using 3 by simp
  ultimately show ?thesis using l by linarith
qed (use l in auto)

lemma clq_ends:
  assumes "clq s q bs fs" "bs \<noteq> []"
  shows "ends_ok bs (c_cf q) (c_cl q)" "c_cc q = int (length (addrs bs (c_cf q) (c_cl q)))" "0 < c_cc q"
    "hd bs mod 32 = 0" "hd bs \<noteq> 0" "hd bs \<notin> set fs" "last bs mod 32 = 0" "last bs \<noteq> 0" "hd (addrs bs (c_cf q) (c_cl q)) = c_cf q"
    "cblock (c_cf q) = hd bs"
proof -
  show e: "ends_ok bs (c_cf q) (c_cl q)" "c_cc q = int (length (addrs bs (c_cf q) (c_cl q)))"
    using assms by (simp_all add: clq_def queue_ok_def)
  then show "0 < c_cc q" "hd (addrs bs (c_cf q) (c_cl q)) = c_cf q" using addrs_ne[OF assms(2)] by auto
  have h: "hd bs \<in> set bs" "last bs \<in> set bs" using assms(2) by simp_all
  then show "hd bs mod 32 = 0" "hd bs \<noteq> 0" "hd bs \<notin> set fs" "last bs mod 32 = 0" "last bs \<noteq> 0"
    using assms(1) by (auto simp: clq_def queue_ok_def blocks_ok_def)
  then show "cblock (c_cf q) = hd bs" using e(1) by (intro cblock_eq) (auto simp: ends_ok_def)
qed

lemma getc_empty: "c_cc q \<le> 0 \<Longrightarrow> getc q s = (-1, clist_null, s)"
  by (simp add: getc_def)

text \<open>\<open>gets s q bs fs s' q' bs' fs'\<close>: the first character is gone, and with it its block when it was the last one there.\<close>

definition gets :: "cstore \<Rightarrow> clist \<Rightarrow> nat list \<Rightarrow> nat list \<Rightarrow> cstore \<Rightarrow> clist \<Rightarrow> nat list \<Rightarrow> nat list \<Rightarrow> bool" where
  "gets s q bs fs s' q' bs' fs' \<longleftrightarrow> clq s' q' bs' fs' \<and> contents s' q' bs' = tl (contents s q bs) \<and> elsewhere (set bs) s s' \<and>
     (bs' \<noteq> [] \<longrightarrow> c_cl q' = c_cl q) \<and> (bs' = bs \<and> fs' = fs \<or> bs' = tl bs \<and> fs' = hd bs # fs)"

lemma gets_last:
  assumes c: "clq s q bs fs" "bs \<noteq> []" and cc: "c_cc q \<le> 1"
  shows "gets s q bs fs (cfree (hd bs) s) clist_null [] (hd bs # fs)"
proof -
  note e = clq_ends[OF c]
  have l: "length (addrs bs (c_cf q) (c_cl q)) = Suc 0" using e(2,3) cc by linarith
  obtain b where b: "bs = [b]" using addrs_length_1[OF e(1) l] by blast
  have "free_ok (cfree (hd bs) s) (hd bs # fs)" using c e by (intro cfree_ok) (auto simp: clq_def)
  moreover have "tl (contents s q bs) = []" using l by (cases "addrs bs (c_cf q) (c_cl q)") (auto simp: contents_def)
  ultimately show ?thesis
    using b by (auto simp: gets_def clq_def queue_ok_def blocks_ok_def contents_def elsewhere_def)
qed

lemma gets_block:
  assumes c: "clq s q bs fs" "bs \<noteq> []" and cc: "c_cc q > 1" and m: "Suc (c_cf q) mod 32 = 0"
  shows "gets s q bs fs (cfree (hd bs) s) (q\<lparr>c_cf := c_info (c_next s (hd bs)), c_cc := c_cc q - 1\<rparr>) (tl bs) (hd bs # fs)"
proof -
  note e = clq_ends[OF c]
  have cf: "Suc (c_cf q) = hd bs + 32" using boundary[OF e(4), of "Suc (c_cf q)"] m e(1) by (auto simp: ends_ok_def)
  obtain b b' bs' where bs: "bs = b # b' # bs'"
  proof (cases "(bs, c_cf q, c_cl q)" rule: addrs.cases)
    case (2 b cf cl)
    then show thesis using e(1,2) cc cf by (auto simp: ends_ok_def)
  qed (use c that in auto)
  have q: "blocks_ok (c_next s) bs" using c by (simp add: clq_def queue_ok_def)
  have b: "c_next s b = b'" "b \<notin> set (b' # bs')" using q bs by (auto simp: blocks_ok_def)
  have t: "blocks_ok ((c_next s)(b := cfreelist s)) (b' # bs')" using blocks_ok_tl q bs b(2) by simp
  have f: "free_ok (cfree b s) (b # fs)" using c e bs by (intro cfree_ok) (auto simp: clq_def)
  have a: "addrs bs (c_cf q) (c_cl q) = c_cf q # addrs (b' # bs') (b' + 2) (c_cl q)"
  proof -
    have "b + 32 = Suc (c_cf q)" using bs cf by simp
    then have "[c_cf q..<b + 32] = [c_cf q]" by (simp only: upt_conv_Cons lessI) simp
    then show ?thesis unfolding bs addrs.simps by simp
  qed
  then have "c_cc q - 1 = int (length (addrs (b' # bs') (b' + 2) (c_cl q)))" using e(2) by simp
  moreover have "ends_ok (b' # bs') (b' + 2) (c_cl q)" using ends_ok_Cons2 e(1) bs by blast
  moreover have "set (b' # bs') \<inter> set (b # fs) = {}" using c(1) b(2) bs by (auto simp: clq_def)
  ultimately have "clq (cfree b s) (q\<lparr>c_cf := b' + 2, c_cc := c_cc q - 1\<rparr>) (b' # bs') (b # fs)"
    using t f by (simp add: clq_def queue_ok_def)
  moreover have "elsewhere (set bs) s (cfree b s)" using bs by (simp add: elsewhere_def)
  ultimately show ?thesis using bs a b(1) by (simp add: gets_def contents_def c_info_def)
qed

lemma gets_within:
  assumes c: "clq s q bs fs" "bs \<noteq> []" and cc: "c_cc q > 1" and m: "Suc (c_cf q) mod 32 \<noteq> 0"
  shows "gets s q bs fs s (q\<lparr>c_cf := c_cf q + 1, c_cc := c_cc q - 1\<rparr>) bs fs"
proof -
  note e = clq_ends[OF c]
  have cf: "Suc (c_cf q) < hd bs + 32" using boundary[OF e(4), of "Suc (c_cf q)"] m e(1) by (auto simp: ends_ok_def)
  have a: "addrs bs (Suc (c_cf q)) (c_cl q) = tl (addrs bs (c_cf q) (c_cl q))" by (rule addrs_tl[OF e(1) c(2)])
  have len: "c_cc q - 1 = int (length (addrs bs (Suc (c_cf q)) (c_cl q)))" using a e(2) cc by simp
  have "ends_ok bs (Suc (c_cf q)) (c_cl q)"
  proof -
    have "tl bs = [] \<Longrightarrow> Suc (c_cf q) < c_cl q" using c(2) e(2) cc by (cases bs) auto
    then show ?thesis using e(1) cf by (auto simp: ends_ok_def)
  qed
  then have "queue_ok s (q\<lparr>c_cf := c_cf q + 1, c_cc := c_cc q - 1\<rparr>) bs"
    using c len unfolding clq_def queue_ok_def by simp
  then show ?thesis using c a unfolding gets_def clq_def contents_def by (simp add: map_tl)
qed

lemma getc_ok:
  assumes c: "clq s q bs fs" "bs \<noteq> []"
  obtains q' s' bs' fs' where "getc q s = (uint (hd (contents s q bs)), q', s')" "gets s q bs fs s' q' bs' fs'"
proof -
  note e = clq_ends[OF c]
  have h: "hd (contents s q bs) = cmem s (c_cf q)" using addrs_ne[OF c(2) e(1)] by (simp add: contents_def hd_map)
  consider (last) "c_cc q \<le> 1" | (block) "c_cc q > 1" "Suc (c_cf q) mod 32 = 0" | (within) "c_cc q > 1" "Suc (c_cf q) mod 32 \<noteq> 0"
    by linarith
  then show thesis
  proof cases
    case last
    then show thesis using that[OF _ gets_last[OF c last]] e(3,10) h by (simp add: getc_def Let_def)
  next
    case block
    have cf: "Suc (c_cf q) = hd bs + 32" using boundary[OF e(4), of "Suc (c_cf q)"] block(2) e(1) by (auto simp: ends_ok_def)
    show thesis using that[OF _ gets_block[OF c block]] block cf h by (simp add: getc_def Let_def cdefs)
  next
    case within
    then show thesis using that[OF _ gets_within[OF c within]] h by (simp add: getc_def Let_def cdefs)
  qed
qed

section \<open>Putting a character at the end\<close>

text \<open>Characters that still fit: the rest of the last block and the free blocks.\<close>

definition room :: "clist \<Rightarrow> nat list \<Rightarrow> nat list \<Rightarrow> nat" where
  "room q bs fs = (if bs = [] then 0 else last bs + 32 - c_cl q) + 30 * length fs"

definition puts :: "u8 \<Rightarrow> cstore \<Rightarrow> clist \<Rightarrow> nat list \<Rightarrow> nat list \<Rightarrow> cstore \<Rightarrow> clist \<Rightarrow> nat list \<Rightarrow> nat list \<Rightarrow> bool" where
  "puts c s q bs fs s' q' bs' fs' \<longleftrightarrow> clq s' q' bs' fs' \<and> contents s' q' bs' = contents s q bs @ [c] \<and>
     elsewhere (set bs \<union> set fs) s s' \<and> room q bs fs = Suc (room q' bs' fs') \<and> set bs' \<union> set fs' = set bs \<union> set fs"

lemma linked_last: "bs \<noteq> [] \<Longrightarrow> linked nx bs \<Longrightarrow> nx (last bs) = 0"
  by (induction nx bs rule: linked.induct) auto

lemma clq_Nil: "clq s q [] fs \<longleftrightarrow> q = clist_null \<and> free_ok s fs"
  by (auto simp: clq_def queue_ok_def blocks_ok_def)

lemma clq_cl: "clq s q bs fs \<Longrightarrow> c_cl q = 0 \<or> c_cc q < 0 \<longleftrightarrow> bs = []"
  by (auto simp: clq_def queue_ok_def ends_ok_def)

lemma contents_write:
  assumes c: "clq s q bs fs" and x: "cblock x \<notin> set bs \<or> bs \<noteq> [] \<and> cblock x = last bs \<and> c_cl q \<le> x"
    and m: "cmem s' = (cmem s)(x := v)"
  shows "contents s' q bs = contents s q bs"
proof -
  have "x \<notin> set (addrs bs (c_cf q) (c_cl q))"
  proof
    assume a: "x \<in> set (addrs bs (c_cf q) (c_cl q))"
    then have ne: "bs \<noteq> []" by auto
    have "\<forall>b\<in>set bs. b mod 32 = 0" "distinct bs" using c by (auto simp: clq_def queue_ok_def blocks_ok_def)
    from addrs_block[OF a this clq_ends(1)[OF c ne]] show False using x by auto
  qed
  then show ?thesis unfolding contents_def m by auto
qed

lemma puts_new:
  assumes c: "clq s q [] fs" and fs: "fs = b # fs'"
  shows "puts ch s q [] fs ((calloc b s)\<lparr>cmem := (cmem s)(c_info b := ch)\<rparr>)
    (q\<lparr>c_cf := c_info b, c_cc := c_cc q + 1, c_cl := c_info b + 1\<rparr>) [b] fs'"
proof -
  let ?s = "(calloc b s)\<lparr>cmem := (cmem s)(c_info b := ch)\<rparr>"
  have q: "q = clist_null" and f: "free_ok s (b # fs')" using c fs by (auto simp: clq_Nil)
  note d = free_okD[OF f]
  have "free_ok ?s fs'" by (rule free_ok_cong[OF calloc_ok[OF f]]) simp_all
  moreover have "blocks_ok (c_next ?s) [b]" using d by (simp add: blocks_ok_def)
  moreover have "cblock (b + 2) = b" using d by (intro cblock_eq) auto
  ultimately show ?thesis
    using d q fs by (auto simp: puts_def clq_def queue_ok_def ends_ok_def contents_def room_def elsewhere_def c_info_def)
qed

lemma puts_block:
  assumes c: "clq s q bs fs" and bs: "bs \<noteq> []" and m: "c_cl q mod 32 = 0" and fs: "fs = b # fs'"
    and s': "s' = (calloc b (s\<lparr>c_next := (c_next s)(last bs := b)\<rparr>))\<lparr>cmem := (cmem s)(c_info b := ch)\<rparr>"
  shows "puts ch s q bs fs s' (q\<lparr>c_cc := c_cc q + 1, c_cl := c_info b + 1\<rparr>) (bs @ [b]) fs'"
proof -
  note e = clq_ends[OF c bs]
  let ?q = "q\<lparr>c_cc := c_cc q + 1, c_cl := c_info b + 1\<rparr>"
  have cl: "c_cl q = last bs + 32" using boundary[OF e(7), of "c_cl q"] m e(1) by (auto simp: ends_ok_def)
  have f: "free_ok s (b # fs')" and dj: "b \<notin> set bs" "set bs \<inter> set fs' = {}" and lb: "last bs \<in> set bs"
    using c fs bs by (auto simp: clq_def)
  note d = free_okD[OF f]
  have "free_ok (s\<lparr>c_next := (c_next s)(last bs := b)\<rparr>) (b # fs')"
    by (rule free_ok_cong[OF f]) (use dj lb in auto)
  from calloc_ok[OF this] have "free_ok s' fs'" by (rule free_ok_cong) (simp_all add: s')
  moreover have "blocks_ok (c_next s') (bs @ [b])"
    using blocks_ok_snoc[OF bs _ dj(1)] c d by (simp add: s' clq_def queue_ok_def)
  moreover have a: "addrs (bs @ [b]) (c_cf q) (c_info b + 1) = addrs bs (c_cf q) (c_cl q) @ [c_info b]"
    unfolding addrs_snoc_block[OF bs] cl by (simp add: c_info_def)
  moreover have "ends_ok (bs @ [b]) (c_cf q) (c_info b + 1)" using e(1) bs by (cases bs) (auto simp: ends_ok_def c_info_def)
  ultimately have q: "clq s' ?q (bs @ [b]) fs'" using e(2) dj d by (auto simp: clq_def queue_ok_def)
  have blk: "cblock (c_info b) = b" using d by (intro cblock_eq) (auto simp: c_info_def)
  have "contents s' q bs = contents s q bs" by (rule contents_write[OF c]) (use blk dj in \<open>auto simp: s'\<close>)
  then have "contents s' ?q (bs @ [b]) = contents s q bs @ [ch]" using a by (simp add: contents_def s')
  moreover have "elsewhere (set bs \<union> set fs) s s'" using fs lb blk by (auto simp: elsewhere_def s')
  moreover have "room q bs fs = Suc (room ?q (bs @ [b]) fs')" using fs bs cl by (simp add: room_def c_info_def)
  ultimately show ?thesis using q fs by (auto simp: puts_def)
qed

lemma puts_within:
  assumes c: "clq s q bs fs" and bs: "bs \<noteq> []" and m: "c_cl q mod 32 \<noteq> 0"
  shows "puts ch s q bs fs (s\<lparr>cmem := (cmem s)(c_cl q := ch)\<rparr>) (q\<lparr>c_cc := c_cc q + 1, c_cl := c_cl q + 1\<rparr>) bs fs"
proof -
  note e = clq_ends[OF c bs]
  let ?q = "q\<lparr>c_cc := c_cc q + 1, c_cl := c_cl q + 1\<rparr>" and ?s = "s\<lparr>cmem := (cmem s)(c_cl q := ch)\<rparr>"
  have cl: "c_cl q < last bs + 32" using boundary[OF e(7), of "c_cl q"] m e(1) by (auto simp: ends_ok_def)
  have a: "addrs bs (c_cf q) (c_cl q + 1) = addrs bs (c_cf q) (c_cl q) @ [c_cl q]" using addrs_snoc[OF bs e(1)] by simp
  have "ends_ok bs (c_cf q) (c_cl q + 1)" using e(1) cl by (auto simp: ends_ok_def)
  then have q: "queue_ok ?s ?q bs" using a e(2) c bs by (simp add: clq_def queue_ok_def)
  have f: "free_ok ?s fs" by (rule free_ok_cong) (use c in \<open>auto simp: clq_def\<close>)
  have blk: "cblock (c_cl q) = last bs" using e(1,7) cl by (intro cblock_eq) (auto simp: ends_ok_def)
  have "contents ?s q bs = contents s q bs" by (rule contents_write[OF c]) (use blk bs in auto)
  then have "contents ?s ?q bs = contents s q bs @ [ch]" using a by (simp add: contents_def)
  moreover have "elsewhere (set bs \<union> set fs) s ?s" using blk bs by (auto simp: elsewhere_def)
  moreover have "room q bs fs = Suc (room ?q bs fs)" using cl bs by (simp add: room_def)
  ultimately show ?thesis using q f c by (simp add: puts_def clq_def)
qed

lemma room_0: "clq s q bs fs \<Longrightarrow> room q bs fs = 0 \<longleftrightarrow> fs = [] \<and> (bs = [] \<or> c_cl q mod 32 = 0)"
  using boundary[of "last bs" "c_cl q"] clq_ends(1,7)[of s q bs fs] by (auto simp: room_def ends_ok_def)

lemma putc_full:
  assumes c: "clq s q bs fs" and r: "room q bs fs = 0"
  shows "putc ch q s = (-1, q, s)"
proof (cases "bs = []")
  case True
  then show ?thesis using c r room_0[OF c] by (auto simp: putc_def clq_Nil free_ok_Nil)
next
  case False
  note e = clq_ends[OF c False]
  have fs: "fs = []" "c_cl q mod 32 = 0" using r room_0[OF c] False by auto
  have cl: "c_cl q = last bs + 32" using boundary[OF e(7), of "c_cl q"] fs e(1) by (auto simp: ends_ok_def)
  have "c_next s (last bs) = 0" using c linked_last[OF False] by (simp add: clq_def queue_ok_def blocks_ok_def)
  moreover have z: "cfreelist s = 0" using c fs by (simp add: clq_def free_ok_Nil)
  ultimately have "s\<lparr>c_next := (c_next s)(c_cl q - 32 := cfreelist s)\<rparr> = s" using cl by (simp add: fun_upd_idem)
  then show ?thesis using False clq_cl[OF c] fs(2) z by (simp add: putc_def Let_def CBLOCK_def)
qed

lemma putc_ok:
  assumes c: "clq s q bs fs" and r: "room q bs fs \<noteq> 0"
  obtains q' s' bs' fs' where "putc ch q s = (0, q', s')" "puts ch s q bs fs s' q' bs' fs'"
proof (cases "bs = []")
  case True
  then obtain b fs' where fs: "fs = b # fs'" using r by (cases fs) (auto simp: room_def)
  have "cfreelist s = b" "b \<noteq> 0" using free_okD[of s b fs'] c fs by (auto simp: clq_def)
  then show thesis
    using that[OF _ puts_new[OF c[unfolded True] fs, of ch, folded True]] clq_cl[OF c] True by (simp add: putc_def Let_def)
next
  case False
  note e = clq_ends[OF c False]
  show thesis
  proof (cases "c_cl q mod 32 = 0")
    case True
    then obtain b fs' where fs: "fs = b # fs'" using r False room_0[OF c] by (cases fs) auto
    have b: "cfreelist s = b" "b \<noteq> 0" using free_okD[of s b fs'] c fs by (auto simp: clq_def)
    have "c_cl q - 32 = last bs" using boundary[OF e(7), of "c_cl q"] True e(1) by (auto simp: ends_ok_def)
    then show thesis
      using that[OF _ puts_block[OF c False True fs refl, of ch]] clq_cl[OF c] False True b
      by (simp add: putc_def Let_def CBLOCK_def)
  next
    case m: False
    then show thesis
      using that[OF _ puts_within[OF c False m, of ch]] clq_cl[OF c] False by (simp add: putc_def Let_def CBLOCK_def)
  qed
qed

end
