(* ===== verification/Clist_Block.thy ===== *)
theory Clist_Block
  imports Clist_Rep
begin

text \<open>
  The routines that move many characters at once are the same, on every well-formed list, as moving one
  character at a time: \<^verbatim>\<open>q_to_b\<close> and \<^verbatim>\<open>ndflush\<close> repeat \<^verbatim>\<open>getc\<close>, \<^verbatim>\<open>b_to_q\<close> repeats \<^verbatim>\<open>putc\<close>. The results and the
  final store are equal, down to the order of the free list.
\<close>

section \<open>One character at a time\<close>

fun get_n :: "nat \<Rightarrow> clist \<Rightarrow> cstore \<Rightarrow> u8 list \<times> clist \<times> cstore" where
  "get_n 0 q s = ([], q, s)"
| "get_n (Suc n) q s =
     (if c_cc q \<le> 0 then ([], q, s)
      else let r = getc q s; r' = get_n n (fst (snd r)) (snd (snd r))
           in (word_of_int (fst r) # fst r', snd r'))"

fun put_n :: "u8 list \<Rightarrow> clist \<Rightarrow> cstore \<Rightarrow> nat \<times> clist \<times> cstore" where
  "put_n [] q s = (0, q, s)"
| "put_n (c # cs) q s =
     (let r = putc c q s in
      if fst r < 0 then (length (c # cs), snd r) else put_n cs (fst (snd r)) (snd (snd r)))"

lemma get_n_stop [simp]: "c_cc q \<le> 0 \<Longrightarrow> get_n n q s = ([], q, s)"
  by (cases n) auto

lemma get_n_add:
  "get_n (m + n) q s =
     (fst (get_n m q s) @ fst (get_n n (fst (snd (get_n m q s))) (snd (snd (get_n m q s)))),
      snd (get_n n (fst (snd (get_n m q s))) (snd (snd (get_n m q s)))))"
  by (induction m arbitrary: q s) (auto simp: Let_def)

section \<open>Repeated getc\<close>

definition got :: "nat \<Rightarrow> cstore \<Rightarrow> clist \<Rightarrow> nat list \<Rightarrow> nat list \<Rightarrow> cstore \<Rightarrow> clist \<Rightarrow> nat list \<Rightarrow> nat list \<Rightarrow> bool" where
  "got n s q bs fs s' q' bs' fs' \<longleftrightarrow> clq s' q' bs' fs' \<and> contents s' q' bs' = drop n (contents s q bs) \<and>
     elsewhere (set bs) s s' \<and> (bs' \<noteq> [] \<longrightarrow> c_cl q' = c_cl q \<and> last bs' = last bs) \<and>
     (\<exists>k\<le>length bs. bs' = drop k bs \<and> fs' = rev (take k bs) @ fs)"

lemma contents_Nil: "clq s q bs fs \<Longrightarrow> contents s q bs = [] \<longleftrightarrow> bs = []"
  using addrs_ne[of bs "c_cf q" "c_cl q"] by (auto simp: contents_def clq_def queue_ok_def)

lemma c_cc_contents: "clq s q bs fs \<Longrightarrow> c_cc q = int (length (contents s q bs))"
  by (auto simp: contents_def clq_def queue_ok_def split: if_splits)

lemma elsewhere_mono: "elsewhere D s s' \<Longrightarrow> D \<subseteq> D' \<Longrightarrow> elsewhere D' s s'"
  by (auto simp: elsewhere_def)

lemma got_gets:
  assumes g: "gets s q bs fs s1 q1 bs1 fs1" and r: "got n s1 q1 bs1 fs1 s' q' bs' fs'" and ne: "bs \<noteq> []"
  shows "got (Suc n) s q bs fs s' q' bs' fs'"
proof -
  have b1: "bs1 = bs \<and> fs1 = fs \<or> bs1 = tl bs \<and> fs1 = hd bs # fs" and cl: "bs1 \<noteq> [] \<longrightarrow> c_cl q1 = c_cl q"
    and e1: "elsewhere (set bs) s s1" and c1: "contents s1 q1 bs1 = tl (contents s q bs)"
    using g by (auto simp: gets_def)
  obtain k where k: "k \<le> length bs1" "bs' = drop k bs1" "fs' = rev (take k bs1) @ fs1" using r by (auto simp: got_def)
  have sub: "set bs1 \<subseteq> set bs" using b1 list.set_sel(2)[OF ne] by auto
  have "elsewhere (set bs) s s'" using elsewhere_trans[OF e1] elsewhere_mono[OF _ sub] r by (auto simp: got_def)
  moreover have "\<exists>k\<le>length bs. bs' = drop k bs \<and> fs' = rev (take k bs) @ fs"
    using b1
  proof
    assume "bs1 = tl bs \<and> fs1 = hd bs # fs"
    then show ?thesis using k ne by (intro exI[of _ "Suc k"]) (cases bs; auto)
  qed (use k in auto)
  moreover have "bs' \<noteq> [] \<longrightarrow> c_cl q' = c_cl q \<and> last bs' = last bs"
  proof
    assume b: "bs' \<noteq> []"
    then have n1: "bs1 \<noteq> []" using k by auto
    have "last bs1 = last bs" using b1 n1 by (auto simp: last_tl)
    then show "c_cl q' = c_cl q \<and> last bs' = last bs" using r b cl n1 by (simp add: got_def)
  qed
  ultimately show ?thesis using r c1 by (simp add: got_def drop_Suc)
qed

lemma get_n_ok:
  assumes "clq s q bs fs"
  shows "\<exists>q' s' bs' fs'. get_n n q s = (take n (contents s q bs), q', s') \<and> got n s q bs fs s' q' bs' fs'"
  using assms
proof (induction n arbitrary: s q bs fs)
  case 0
  then show ?case by (intro exI conjI) (auto simp: got_def)
next
  case (Suc n)
  show ?case
  proof (cases "bs = []")
    case True
    then have "c_cc q \<le> 0" "contents s q bs = []" using Suc.prems by (simp_all add: clq_Nil contents_def)
    then show ?thesis using Suc.prems True by (intro exI[of _ q] exI[of _ s] exI[of _ bs] exI[of _ fs]) (simp add: got_def)
  next
    case False
    obtain q1 s1 bs1 fs1 where g: "getc q s = (uint (hd (contents s q bs)), q1, s1)" "gets s q bs fs s1 q1 bs1 fs1"
      using getc_ok[OF Suc.prems False] by blast
    have "clq s1 q1 bs1 fs1" and c1: "contents s1 q1 bs1 = tl (contents s q bs)" using g(2) by (auto simp: gets_def)
    from Suc.IH[OF this(1)] obtain q' s' bs' fs' where
      r: "get_n n q1 s1 = (take n (contents s1 q1 bs1), q', s')" "got n s1 q1 bs1 fs1 s' q' bs' fs'" by blast
    have "contents s q bs \<noteq> []" using contents_Nil[OF Suc.prems] False by simp
    then have "get_n (Suc n) q s = (take (Suc n) (contents s q bs), q', s')"
      using clq_ends(3)[OF Suc.prems False] g(1) r(1) c1 by (cases "contents s q bs") (simp_all add: Let_def)
    then show ?thesis using got_gets[OF g(2) r(2) False] by blast
  qed
qed

section \<open>q_to_b\<close>

text \<open>Up to the end of a block, or of the list, \<^verbatim>\<open>getc\<close> only moves the pointer.\<close>

lemma getc_within:
  "1 < c_cc q \<Longrightarrow> Suc (c_cf q) mod 32 \<noteq> 0 \<Longrightarrow> getc q s = (uint (cmem s (c_cf q)), q\<lparr>c_cf := c_cf q + 1, c_cc := c_cc q - 1\<rparr>, s)"
  by (simp add: getc_def Let_def CBLOCK_def)

definition chunk_end :: "clist \<Rightarrow> cstore \<Rightarrow> clist \<times> cstore" where
  "chunk_end q s =
     (if c_cc q \<le> 0 then (q\<lparr>c_cf := 0, c_cl := 0\<rparr>, cfree (cblock (c_cf q - 1)) s)
      else if c_cf q mod CBLOCK = 0
      then (q\<lparr>c_cf := c_info (c_next s (c_cf q - CBLOCK))\<rparr>, cfree (c_cf q - CBLOCK) s)
      else (q, s))"

lemma get_n_chunk:
  "0 < n \<Longrightarrow> c_cf q mod 32 + n \<le> 32 \<Longrightarrow> int n \<le> c_cc q \<Longrightarrow>
     get_n n q s = (bcopy_out s (c_cf q) n, chunk_end (q\<lparr>c_cf := c_cf q + n, c_cc := c_cc q - int n\<rparr>) s)"
proof (induction n arbitrary: q)
  case (Suc n)
  show ?case
  proof (cases "n = 0")
    case True
    then show ?thesis using Suc.prems by (auto simp: getc_def chunk_end_def bcopy_out_def Let_def)
  next
    case False
    have m: "Suc (c_cf q) mod 32 = Suc (c_cf q mod 32)" using Suc.prems(2) False by (simp add: mod_Suc)
    let ?q = "q\<lparr>c_cf := c_cf q + 1, c_cc := c_cc q - 1\<rparr>"
    have "get_n n ?q s = (bcopy_out s (c_cf ?q) n, chunk_end (?q\<lparr>c_cf := c_cf ?q + n, c_cc := c_cc ?q - int n\<rparr>) s)"
      by (rule Suc.IH) (use False m Suc.prems in auto)
    moreover have "getc q s = (uint (cmem s (c_cf q)), ?q, s)" by (rule getc_within) (use Suc.prems False m in auto)
    moreover have "bcopy_out s (c_cf q) (Suc n) = cmem s (c_cf q) # bcopy_out s (Suc (c_cf q)) n"
      by (simp add: bcopy_out_def upt_conv_Cons del: upt_Suc)
    ultimately show ?thesis using Suc.prems by (simp add: Let_def algebra_simps)
  qed
qed simp

declare q_to_b_loop.simps [simp del]

lemma q_to_b_loop_get_n:
  assumes "0 < c_cc q"
  shows "q_to_b_loop q cc acc s = (acc @ fst (get_n (nat cc) q s), snd (get_n (nat cc) q s))"
  using assms
proof (induction q cc acc s rule: q_to_b_loop.induct)
  case (1 q cc acc s)
  show ?case
  proof (cases "cc \<le> 0")
    case True then show ?thesis by (simp add: q_to_b_loop.simps)
  next
    case False
    define nc where "nc = min (min (int CBLOCK - int (c_cf q mod CBLOCK)) cc) (c_cc q)"
    have pos: "0 < nc" using False "1.prems" CBLOCK_mod_lt[of "c_cf q"] by (simp add: nc_def)
    have le: "nc \<le> cc" "nc \<le> c_cc q" "c_cf q mod 32 + nat nc \<le> 32" using pos by (auto simp: nc_def CBLOCK_def)
    define q1 where "q1 = q\<lparr>c_cf := c_cf q + nat nc, c_cc := c_cc q - nc\<rparr>"
    have "get_n (nat nc) q s = (bcopy_out s (c_cf q) (nat nc), chunk_end q1 s)"
      using get_n_chunk[of "nat nc" q s] pos le by (simp add: q1_def)
    moreover have "nat cc = nat nc + nat (cc - nc)" using pos le by simp
    ultimately have rhs: "get_n (nat cc) q s =
        (bcopy_out s (c_cf q) (nat nc) @ fst (get_n (nat (cc - nc)) (fst (chunk_end q1 s)) (snd (chunk_end q1 s))),
         snd (get_n (nat (cc - nc)) (fst (chunk_end q1 s)) (snd (chunk_end q1 s))))"
      using get_n_add[of "nat nc" "nat (cc - nc)" q s] by simp
    have lhs: "q_to_b_loop q cc acc s =
        (let acc1 = acc @ bcopy_out s (c_cf q) (nat nc)
         in if c_cc q1 \<le> 0 then (acc1, q1\<lparr>c_cf := 0, c_cl := 0\<rparr>, cfree (cblock (c_cf q1 - 1)) s)
            else if c_cf q1 mod CBLOCK = 0
            then q_to_b_loop (q1\<lparr>c_cf := c_info (c_next s (c_cf q1 - CBLOCK))\<rparr>) (cc - nc) acc1 (cfree (c_cf q1 - CBLOCK) s)
            else q_to_b_loop q1 (cc - nc) acc1 s)"
      using False by (subst q_to_b_loop.simps) (simp only: nc_def[symmetric] q1_def[symmetric] Let_def if_False)
    consider (last) "c_cc q1 \<le> 0" | (block) "\<not> c_cc q1 \<le> 0" "c_cf q1 mod CBLOCK = 0"
      | (within) "\<not> c_cc q1 \<le> 0" "c_cf q1 mod CBLOCK \<noteq> 0" by blast
    then show ?thesis
    proof cases
      case last then show ?thesis unfolding lhs rhs by (simp add: chunk_end_def)
    next
      case block
      note ih = "1.IH"(1)[OF False nc_def refl q1_def block refl]
      show ?thesis unfolding lhs rhs using block ih by (simp add: chunk_end_def)
    next
      case within
      note ih = "1.IH"(2)[OF False nc_def refl q1_def within]
      show ?thesis unfolding lhs rhs using within ih by (simp add: chunk_end_def)
    qed
  qed
qed

lemma q_to_b_get_n:
  assumes "clq s q bs fs"
  shows "q_to_b q cc s = get_n (nat cc) q s"
proof (cases "cc \<le> 0 \<or> c_cc q \<le> 0")
  case True
  then have "cc \<le> 0 \<or> q = clist_null" using assms clq_ends(3)[OF assms] by (cases "bs = []") (auto simp: clq_Nil)
  then show ?thesis by (auto simp: q_to_b_def)
next
  case False
  then show ?thesis using q_to_b_loop_get_n[of q cc "[]" s] by (simp add: q_to_b_def)
qed

section \<open>Repeated putc\<close>

definition puts_n :: "u8 list \<Rightarrow> cstore \<Rightarrow> clist \<Rightarrow> nat list \<Rightarrow> nat list \<Rightarrow> cstore \<Rightarrow> clist \<Rightarrow> nat list \<Rightarrow> nat list \<Rightarrow> bool" where
  "puts_n xs s q bs fs s' q' bs' fs' \<longleftrightarrow> clq s' q' bs' fs' \<and> contents s' q' bs' = contents s q bs @ xs \<and>
     elsewhere (set bs \<union> set fs) s s' \<and> room q bs fs = length xs + room q' bs' fs' \<and> set bs' \<union> set fs' = set bs \<union> set fs"

lemma puts_n_refl: "clq s q bs fs \<Longrightarrow> puts_n [] s q bs fs s q bs fs"
  by (simp add: puts_n_def)

lemma puts_n_Cons:
  "puts c s q bs fs s1 q1 bs1 fs1 \<Longrightarrow> puts_n xs s1 q1 bs1 fs1 s' q' bs' fs' \<Longrightarrow> puts_n (c # xs) s q bs fs s' q' bs' fs'"
  by (auto simp: puts_n_def puts_def intro: elsewhere_trans)

lemma put_n_ok:
  assumes "clq s q bs fs"
  shows "\<exists>q' s' bs' fs'. put_n xs q s = (length xs - room q bs fs, q', s') \<and>
    puts_n (take (room q bs fs) xs) s q bs fs s' q' bs' fs'"
  using assms
proof (induction xs arbitrary: s q bs fs)
  case Nil
  then show ?case using puts_n_refl by fastforce
next
  case (Cons x xs)
  show ?case
  proof (cases "room q bs fs")
    case 0
    have "put_n (x # xs) q s = (length (x # xs) - room q bs fs, q, s)"
      using putc_full[OF Cons.prems 0] 0 by simp
    moreover have "puts_n (take (room q bs fs) (x # xs)) s q bs fs s q bs fs" using puts_n_refl[OF Cons.prems] 0 by simp
    ultimately show ?thesis by blast
  next
    case (Suc r)
    then have "room q bs fs \<noteq> 0" by simp
    then obtain q1 s1 bs1 fs1 where p: "putc x q s = (0, q1, s1)" "puts x s q bs fs s1 q1 bs1 fs1"
      by (rule putc_ok[OF Cons.prems])
    have c1: "clq s1 q1 bs1 fs1" and r1: "room q1 bs1 fs1 = r" using p(2) Suc by (auto simp: puts_def)
    obtain q' s' bs' fs' where ih: "put_n xs q1 s1 = (length xs - r, q', s')" "puts_n (take r xs) s1 q1 bs1 fs1 s' q' bs' fs'"
      using Cons.IH[OF c1] r1 by auto
    have "put_n (x # xs) q s = (length (x # xs) - room q bs fs, q', s')" using p(1) ih(1) Suc by (simp add: Let_def)
    moreover have "puts_n (take (room q bs fs) (x # xs)) s q bs fs s' q' bs' fs'"
      using puts_n_Cons[OF p(2) ih(2)] Suc by simp
    ultimately show ?thesis by blast
  qed
qed

section \<open>b_to_q\<close>

lemma putc_within:
  "c_cl q \<noteq> 0 \<Longrightarrow> 0 \<le> c_cc q \<Longrightarrow> c_cl q mod 32 \<noteq> 0 \<Longrightarrow>
     putc c q s = (0, q\<lparr>c_cc := c_cc q + 1, c_cl := c_cl q + 1\<rparr>, s\<lparr>cmem := (cmem s)(c_cl q := c)\<rparr>)"
  by (simp add: putc_def CBLOCK_def)

lemma put_n_chunk:
  "c_cl q \<noteq> 0 \<Longrightarrow> 0 \<le> c_cc q \<Longrightarrow> c_cl q mod 32 \<noteq> 0 \<or> xs = [] \<Longrightarrow> c_cl q mod 32 + length xs \<le> 32 \<Longrightarrow>
     put_n xs q s = (0, q\<lparr>c_cc := c_cc q + int (length xs), c_cl := c_cl q + length xs\<rparr>,
                     s\<lparr>cmem := bcopy_in (cmem s) (c_cl q) xs\<rparr>)"
proof (induction xs arbitrary: q s)
  case (Cons x xs)
  have m: "c_cl q mod 32 \<noteq> 0" using Cons.prems by simp
  let ?q = "q\<lparr>c_cc := c_cc q + 1, c_cl := c_cl q + 1\<rparr>" and ?s = "s\<lparr>cmem := (cmem s)(c_cl q := x)\<rparr>"
  have m1: "Suc (c_cl q) mod 32 = (if xs = [] then Suc (c_cl q) mod 32 else Suc (c_cl q mod 32))"
    using Cons.prems(4) by (cases xs) (simp_all add: mod_Suc)
  have "Suc (c_cl q) mod 32 + length xs \<le> 32"
  proof (cases xs)
    case Nil
    have "Suc (c_cl q) mod 32 < 32" by simp
    then show ?thesis using Nil by simp
  next
    case (Cons y ys) then show ?thesis using m1 Cons.prems(4) \<open>c_cl q mod 32 + length (x # xs) \<le> 32\<close> by simp
  qed
  then have "put_n xs ?q ?s = (0, ?q\<lparr>c_cc := c_cc ?q + int (length xs), c_cl := c_cl ?q + length xs\<rparr>,
       ?s\<lparr>cmem := bcopy_in (cmem ?s) (c_cl ?q) xs\<rparr>)"
    by (intro Cons.IH) (use Cons.prems m1 in auto)
  then show ?case using putc_within[OF Cons.prems(1,2) m, of x s] by (simp add: Let_def algebra_simps)
qed simp

lemma put_n_append:
  "fst (put_n xs q s) = 0 \<Longrightarrow> put_n (xs @ ys) q s = put_n ys (fst (snd (put_n xs q s))) (snd (snd (put_n xs q s)))"
  by (induction xs arbitrary: q s) (auto simp: Let_def split: if_splits)

text \<open>
  The first block of an empty list, and the next block of a full one: allocate, then copy up to 30
  characters into it.
\<close>

lemma c_info_mod: "b mod 32 = 0 \<Longrightarrow> c_info b mod CBLOCK = 2"
  by (simp add: cdefs mod_Suc)

lemma put_n_fresh:
  assumes p: "putc x q s = (0, q1, s1)" and q1: "c_cl q1 = b + 3" "0 \<le> c_cc q1" and b: "b mod 32 = 0" and n: "length xs \<le> 29"
  shows "put_n (x # xs) q s = (0, q1\<lparr>c_cc := c_cc q1 + int (length xs), c_cl := c_cl q1 + length xs\<rparr>,
                     s1\<lparr>cmem := bcopy_in (cmem s1) (b + 3) xs\<rparr>)"
proof -
  have "(b + 3) mod 32 = 3" using b by presburger
  then show ?thesis using p put_n_chunk[of q1 xs s1] q1 n by (simp add: Let_def)
qed

lemma put_n_block:
  assumes c: "clq s q bs (b # fs)" and ne: "bs \<noteq> []" and m: "c_cl q mod 32 = 0" and xs: "xs \<noteq> []" "length xs \<le> 30"
  shows "put_n xs q s = (0, q\<lparr>c_cc := c_cc q + int (length xs), c_cl := c_info b + length xs\<rparr>,
     (calloc b (s\<lparr>c_next := (c_next s)(c_cl q - CBLOCK := b)\<rparr>))\<lparr>cmem := bcopy_in (cmem s) (c_info b) xs\<rparr>)"
proof -
  have "free_ok s (b # fs)" using c by (simp add: clq_def)
  note d = free_okD[OF this]
  obtain y ys where x: "xs = y # ys" using xs by (cases xs) auto
  let ?s = "calloc b (s\<lparr>c_next := (c_next s)(c_cl q - CBLOCK := b)\<rparr>)"
  have cl: "c_cl q \<noteq> 0" "0 \<le> c_cc q" using clq_cl[OF c] ne by auto
  have pc: "putc y q s = (0, q\<lparr>c_cc := c_cc q + 1, c_cl := c_info b + 1\<rparr>, ?s\<lparr>cmem := (cmem ?s)(c_info b := y)\<rparr>)"
    using cl m d by (simp add: putc_def Let_def CBLOCK_def)
  show ?thesis unfolding x
    using put_n_fresh[OF pc, of b ys] d cl xs x by (simp add: c_info_def numeral_3_eq_3)
qed

lemma put_n_first:
  assumes c: "clq s q [] (b # fs)" and xs: "xs \<noteq> []" "length xs \<le> 30"
  shows "put_n xs q s = (0, q\<lparr>c_cf := c_info b, c_cc := c_cc q + int (length xs), c_cl := c_info b + length xs\<rparr>,
     (calloc b s)\<lparr>cmem := bcopy_in (cmem s) (c_info b) xs\<rparr>)"
proof -
  have "free_ok s (b # fs)" using c by (simp add: clq_def)
  note d = free_okD[OF this]
  obtain y ys where x: "xs = y # ys" using xs by (cases xs) auto
  have q: "q = clist_null" using c by (simp add: clq_Nil)
  have pc: "putc y q s = (0, q\<lparr>c_cf := c_info b, c_cc := c_cc q + 1, c_cl := c_info b + 1\<rparr>,
      (calloc b s)\<lparr>cmem := (cmem (calloc b s))(c_info b := y)\<rparr>)"
    using d q by (simp add: putc_def Let_def)
  show ?thesis unfolding x using put_n_fresh[OF pc, of b ys] d xs x q by (simp add: c_info_def numeral_3_eq_3)
qed

text \<open>The rest of the loop, after a chunk of \<open>n\<close> characters has been put.\<close>

lemma put_n_rest:
  assumes c: "clq s q bs fs"
    and p: "put_n (take n cp) q s = (0, q\<lparr>c_cf := f, c_cc := c_cc q + int n, c_cl := a\<rparr>, s1)" and n: "0 < n" "n \<le> length cp"
    and ih: "\<And>q bs fs. clq s1 q bs fs \<Longrightarrow> bs \<noteq> [] \<Longrightarrow> a = c_cl q \<Longrightarrow> put_n (drop n cp) q s1 =
        (length r, q\<lparr>c_cl := cq', c_cc := c_cc q + (int (length (drop n cp)) - int (length r))\<rparr>, s')"
  shows "put_n cp q s = (length r, q\<lparr>c_cf := f, c_cl := cq', c_cc := c_cc q + (int (length cp) - int (length r))\<rparr>, s')"
proof -
  let ?q = "q\<lparr>c_cf := f, c_cc := c_cc q + int n, c_cl := a\<rparr>"
  obtain q1 s2 bs1 fs1 where pn: "put_n (take n cp) q s = (length (take n cp) - room q bs fs, q1, s2)"
    "puts_n (take (room q bs fs) (take n cp)) s q bs fs s2 q1 bs1 fs1" using put_n_ok[OF c, of "take n cp"] by blast
  have c1: "clq s1 ?q bs1 fs1" using pn p by (simp add: puts_n_def)
  have "0 \<le> c_cc q" using c_cc_contents[OF c] by simp
  then have "c_cc ?q \<noteq> 0" using n by simp
  then have "bs1 \<noteq> []" using c1 c_cc_contents[OF c1] contents_Nil[OF c1] by auto
  then have "put_n (drop n cp) ?q s1 =
      (length r, ?q\<lparr>c_cl := cq', c_cc := c_cc ?q + (int (length (drop n cp)) - int (length r))\<rparr>, s')"
    by (intro ih[OF c1]) simp_all
  then show ?thesis using put_n_append[of "take n cp" q s "drop n cp"] p n by (simp add: of_nat_diff)
qed

declare b_to_q_loop.simps [simp del]

lemma b_to_q_loop_put_n:
  assumes "clq s q bs fs" "bs \<noteq> []" "cq = c_cl q" "b_to_q_loop cp cq s = (r, cq', s')"
  shows "put_n cp q s = (length r, q\<lparr>c_cl := cq', c_cc := c_cc q + (int (length cp) - int (length r))\<rparr>, s')"
  using assms
proof (induction cp cq s arbitrary: q bs fs rule: b_to_q_loop.induct)
  case (1 cp cq s)
  note c = "1.prems"(1) and ne = "1.prems"(2) and cq = "1.prems"(3)
  note e = clq_ends[OF c ne]
  have cl: "c_cl q \<noteq> 0" "0 \<le> c_cc q" using clq_cl[OF c] ne by auto
  consider (none) "cp = []" | (full) "cp \<noteq> []" "cq mod CBLOCK = 0" "fs = []"
    | (block) b fs' where "cp \<noteq> []" "cq mod CBLOCK = 0" "fs = b # fs'" | (within) "cp \<noteq> []" "cq mod CBLOCK \<noteq> 0"
    by (cases fs) blast+
  then show ?case
  proof cases
    case none
    then show ?thesis using "1.prems"(3,4) by (simp add: b_to_q_loop.simps)
  next
    case full
    have m: "c_cl q mod 32 = 0" using full cq by (simp add: CBLOCK_def)
    have last: "c_cl q = last bs + 32" using boundary[OF e(7), of "c_cl q"] m e(1) by (auto simp: ends_ok_def)
    have r0: "room q bs fs = 0" using room_0[OF c] full m by simp
    have z: "cfreelist s = 0" "c_next s (last bs) = 0"
      using c full linked_last[OF ne] by (simp_all add: clq_def free_ok_Nil queue_ok_def blocks_ok_def)
    then have "s\<lparr>c_next := (c_next s)(cq - CBLOCK := 0)\<rparr> = s" using last cq by (simp add: fun_upd_idem CBLOCK_def)
    then have "b_to_q_loop cp cq s = (cp, cq, s)" using full z(1) by (subst b_to_q_loop.simps) (simp add: Let_def)
    then show ?thesis using "1.prems"(4) full cq putc_full[OF c r0] by (cases cp) auto
  next
    case block
    have "free_ok s (b # fs')" using c block by (simp add: clq_def)
    note d = free_okD[OF this]
    define s1 where "s1 = s\<lparr>c_next := (c_next s)(cq - CBLOCK := cfreelist s)\<rparr>"
    define s2 where "s2 = calloc (cfreelist s) s1"
    define cq2 where "cq2 = c_info (cfreelist s)"
    define n where "n = min (length cp) (CBLOCK - cq2 mod CBLOCK)"
    have nb: "cfreelist s \<noteq> 0" using d by simp
    have m2: "cq2 mod CBLOCK = 2" using d unfolding cq2_def by (intro c_info_mod) simp
    then have n: "0 < n" "n \<le> length cp" "n \<le> 30" using block by (simp_all add: n_def CBLOCK_def)
    have l: "b_to_q_loop (drop n cp) (cq2 + n) (s2\<lparr>cmem := bcopy_in (cmem s2) cq2 (take n cp)\<rparr>) = (r, cq', s')"
      using "1.prems"(4) block nb
      by (subst (asm) b_to_q_loop.simps)
        (simp add: Let_def s1_def[symmetric] s2_def[symmetric] cq2_def[symmetric] n_def[symmetric] del: calloc_sel)
    note ih = "1.IH"(1)[OF block(1,2) refl refl s1_def nb s2_def cq2_def n_def _ _ _ l]
    have "put_n (take n cp) q s = (0, q\<lparr>c_cf := c_cf q, c_cc := c_cc q + int n, c_cl := cq2 + n\<rparr>,
        s2\<lparr>cmem := bcopy_in (cmem s2) cq2 (take n cp)\<rparr>)"
      using put_n_block[OF c[unfolded block(3)] ne, of "take n cp"] block(1,2) n d cq
      by (simp add: CBLOCK_def s1_def s2_def cq2_def)
    note p = this
    have "put_n cp q s = (length r, q\<lparr>c_cf := c_cf q, c_cl := cq', c_cc := c_cc q + (int (length cp) - int (length r))\<rparr>, s')"
      by (rule put_n_rest[OF c p n(1,2)]) (erule (2) ih)
    then show ?thesis by simp
  next
    case within
    define n where "n = min (length cp) (CBLOCK - cq mod CBLOCK)"
    have "cq mod 32 < 32" by simp
    then have n: "0 < n" "n \<le> length cp" "cq mod 32 + n \<le> 32" using within by (auto simp: n_def CBLOCK_def min_def)
    have l: "b_to_q_loop (drop n cp) (cq + n) (s\<lparr>cmem := bcopy_in (cmem s) cq (take n cp)\<rparr>) = (r, cq', s')"
      using "1.prems"(4) within by (subst (asm) b_to_q_loop.simps) (simp add: Let_def n_def[symmetric])
    note ih = "1.IH"(2)[OF within n_def _ _ _ l]
    have "put_n (take n cp) q s = (0, q\<lparr>c_cf := c_cf q, c_cc := c_cc q + int n, c_cl := cq + n\<rparr>, s\<lparr>cmem := bcopy_in (cmem s) cq (take n cp)\<rparr>)"
      using put_n_chunk[of q "take n cp" s] cl within n cq by (simp add: CBLOCK_def)
    note p = this
    have "put_n cp q s = (length r, q\<lparr>c_cf := c_cf q, c_cl := cq', c_cc := c_cc q + (int (length cp) - int (length r))\<rparr>, s')"
      by (rule put_n_rest[OF c p n(1,2)]) (erule (2) ih)
    then show ?thesis by simp
  qed
qed

text \<open>The block taken for an empty list, before the loop.\<close>

lemma b_to_q_loop_first:
  assumes c: "clq s q [] (b # fs)" and cp: "cp \<noteq> []" and l: "b_to_q_loop cp (c_info b) (calloc b s) = (r, cq', s')"
  shows "put_n cp q s = (length r, q\<lparr>c_cf := c_info b, c_cl := cq', c_cc := c_cc q + (int (length cp) - int (length r))\<rparr>, s')"
proof -
  have "free_ok s (b # fs)" using c by (simp add: clq_def)
  note d = free_okD[OF this]
  define n where "n = min (length cp) (CBLOCK - c_info b mod CBLOCK)"
  have m: "c_info b mod CBLOCK = 2" using d by (intro c_info_mod) simp
  then have n: "0 < n" "n \<le> length cp" "n \<le> 30" using cp by (simp_all add: n_def CBLOCK_def)
  let ?s = "(calloc b s)\<lparr>cmem := bcopy_in (cmem s) (c_info b) (take n cp)\<rparr>"
  have "b_to_q_loop (drop n cp) (c_info b + n) ?s = (r, cq', s')"
    using l cp m by (subst (asm) b_to_q_loop.simps) (simp add: Let_def n_def)
  note ih = b_to_q_loop_put_n[OF _ _ _ this]
  have "put_n (take n cp) q s = (0, q\<lparr>c_cf := c_info b, c_cc := c_cc q + int n, c_cl := c_info b + n\<rparr>, ?s)"
    using put_n_first[OF c, of "take n cp"] cp n by simp
  note p = this
  show ?thesis by (rule put_n_rest[OF c p n(1,2)]) (erule (2) ih)
qed

lemma b_to_q_put_n:
  assumes c: "clq s q bs fs"
  shows "b_to_q cp q s = put_n cp q s"
proof -
  consider (none) "cp = []" | (full) "cp \<noteq> []" "bs = []" "fs = []" | (first) b fs' where "cp \<noteq> []" "bs = []" "fs = b # fs'"
    | (more) "cp \<noteq> []" "bs \<noteq> []" by (cases fs) auto
  then show ?thesis
  proof cases
    case full
    then have "room q bs fs = 0" by (simp add: room_def)
    from putc_full[OF c this] show ?thesis
      using full c clq_cl[OF c] by (cases cp) (auto simp: b_to_q_def clq_def free_ok_Nil)
  next
    case first
    have d: "cfreelist s = b" "b \<noteq> 0" using free_okD[of s b fs'] c first by (auto simp: clq_def)
    obtain r cq' s' where l: "b_to_q_loop cp (c_info b) (calloc b s) = (r, cq', s')" by (metis prod.exhaust)
    show ?thesis using b_to_q_loop_first[OF c[unfolded first(2,3)] first(1) l] first d clq_cl[OF c] l by (simp add: b_to_q_def Let_def)
  next
    case more
    obtain r cq' s' where l: "b_to_q_loop cp (c_cl q) s = (r, cq', s')" by (metis prod.exhaust)
    show ?thesis using b_to_q_loop_put_n[OF c more(2) refl l] more clq_cl[OF c] l by (simp add: b_to_q_def Let_def)
  qed (simp add: b_to_q_def)
qed

end
