(* ===== verification/Clist_Props.thy ===== *)
theory Clist_Props
  imports Clist_Block
begin

text \<open>
  The contracts of character lists: a bounded queue of bytes (an interface that \<^verbatim>\<open>getc\<close> and \<^verbatim>\<open>putc\<close> provide), the flushing and joining of lists,
  walking a list, and taking back the last character.
\<close>

section \<open>A bounded byte queue\<close>

datatype qop = Put u8 | Get

fun run_q :: "(u8 \<Rightarrow> 's \<Rightarrow> bool \<times> 's) \<Rightarrow> ('s \<Rightarrow> u8 option \<times> 's) \<Rightarrow> qop list \<Rightarrow> 's \<Rightarrow> u8 list \<times> u8 list \<times> 's" where
  "run_q put get [] s = ([], [], s)"
| "run_q put get (Put c # ops) s =
     (let r = put c s; t = run_q put get ops (snd r)
      in (if fst r then c # fst t else fst t, fst (snd t), snd (snd t)))"
| "run_q put get (Get # ops) s =
     (let r = get s; t = run_q put get ops (snd r)
      in (fst t, (case fst r of None \<Rightarrow> [] | Some c \<Rightarrow> [c]) @ fst (snd t), snd (snd t)))"

text \<open>\<open>rep s xs r\<close>: the state holds the bytes \<open>xs\<close> and has room for \<open>r\<close> more.\<close>

locale byte_queue =
  fixes rep :: "'s \<Rightarrow> u8 list \<Rightarrow> nat \<Rightarrow> bool" and put :: "u8 \<Rightarrow> 's \<Rightarrow> bool \<times> 's" and get :: "'s \<Rightarrow> u8 option \<times> 's"
  assumes put_room: "rep s xs (Suc r) \<Longrightarrow> fst (put c s) \<and> rep (snd (put c s)) (xs @ [c]) r"
    and put_full: "rep s xs 0 \<Longrightarrow> put c s = (False, s)"
    and get_first: "rep s (x # xs) r \<Longrightarrow> fst (get s) = Some x \<and> (\<exists>r'\<ge>r. rep (snd (get s)) xs r')"
    and get_none: "rep s [] r \<Longrightarrow> get s = (None, s)"
begin

lemma run_fifo:
  "rep s xs r \<Longrightarrow> \<exists>ys r'. rep (snd (snd (run_q put get ops s))) ys r' \<and>
     xs @ fst (run_q put get ops s) = fst (snd (run_q put get ops s)) @ ys"
proof (induction ops arbitrary: s xs r)
  case Nil
  then show ?case by auto
next
  case (Cons op ops)
  show ?case
  proof (cases op)
    case (Put c)
    show ?thesis
    proof (cases r)
      case 0
      then show ?thesis using Cons.IH[OF Cons.prems] put_full[of s xs c] Cons.prems Put by (simp add: Let_def)
    next
      case (Suc k)
      then have p: "fst (put c s)" "rep (snd (put c s)) (xs @ [c]) k" using put_room Cons.prems by blast+
      then show ?thesis using Cons.IH[OF p(2)] Put by (simp add: Let_def)
    qed
  next
    case Get
    show ?thesis
    proof (cases xs)
      case Nil
      then show ?thesis using Cons.IH[OF Cons.prems] get_none[of s r] Cons.prems Get by (simp add: Let_def)
    next
      case xs: (Cons x zs)
      from get_first Cons.prems xs have g: "fst (get s) = Some x" "\<exists>r'\<ge>r. rep (snd (get s)) zs r'" by blast+
      then obtain r' where "rep (snd (get s)) zs r'" by blast
      from Cons.IH[OF this] g(1) show ?thesis using Get xs by (simp add: Let_def)
    qed
  qed
qed

end

definition cl_rep :: "clist \<times> cstore \<Rightarrow> u8 list \<Rightarrow> nat \<Rightarrow> bool" where
  "cl_rep qs xs r \<longleftrightarrow> (\<exists>bs fs. clq (snd qs) (fst qs) bs fs \<and> contents (snd qs) (fst qs) bs = xs \<and> room (fst qs) bs fs = r)"

definition cl_put :: "u8 \<Rightarrow> clist \<times> cstore \<Rightarrow> bool \<times> clist \<times> cstore" where
  "cl_put c qs = (let r = putc c (fst qs) (snd qs) in (fst r = 0, snd r))"

definition cl_get :: "clist \<times> cstore \<Rightarrow> u8 option \<times> clist \<times> cstore" where
  "cl_get qs = (let r = getc (fst qs) (snd qs) in (if fst r < 0 then None else Some (word_of_int (fst r)), snd r))"

lemma room_gets:
  assumes g: "gets s q bs fs s' q' bs' fs'" and c: "clq s q bs fs" "bs \<noteq> []"
  shows "room q bs fs \<le> room q' bs' fs'"
proof -
  have e: "last bs + 2 < c_cl q" using clq_ends(1)[OF c] by (simp add: ends_ok_def)
  show ?thesis
  proof (cases "bs' = []")
    case True
    then show ?thesis using g e c(2) by (auto simp: gets_def room_def)
  next
    case False
    then have "last bs' = last bs" using g by (auto simp: gets_def last_tl)
    then show ?thesis using False g c(2) by (auto simp: gets_def room_def)
  qed
qed

interpretation clists: byte_queue cl_rep cl_put cl_get
proof
  fix qs xs r c assume "cl_rep qs xs (Suc r)"
  then obtain bs fs where c: "clq (snd qs) (fst qs) bs fs" "contents (snd qs) (fst qs) bs = xs" "room (fst qs) bs fs = Suc r"
    by (auto simp: cl_rep_def)
  then have "room (fst qs) bs fs \<noteq> 0" by simp
  then obtain q' s' bs' fs' where "putc c (fst qs) (snd qs) = (0, q', s')" "puts c (snd qs) (fst qs) bs fs s' q' bs' fs'"
    by (rule putc_ok[OF c(1)])
  then show "fst (cl_put c qs) \<and> cl_rep (snd (cl_put c qs)) (xs @ [c]) r"
    using c by (auto simp: cl_put_def cl_rep_def puts_def)
next
  fix qs xs c assume "cl_rep qs xs 0"
  then show "cl_put c qs = (False, qs)" using putc_full by (auto simp: cl_put_def cl_rep_def)
next
  fix qs x xs r assume "cl_rep qs (x # xs) r"
  then obtain bs fs where c: "clq (snd qs) (fst qs) bs fs" "contents (snd qs) (fst qs) bs = x # xs" "room (fst qs) bs fs = r"
    by (auto simp: cl_rep_def)
  then have ne: "bs \<noteq> []" by (auto simp: contents_def)
  obtain q' s' bs' fs' where g: "getc (fst qs) (snd qs) = (uint (hd (contents (snd qs) (fst qs) bs)), q', s')"
    "gets (snd qs) (fst qs) bs fs s' q' bs' fs'" by (rule getc_ok[OF c(1) ne])
  have "fst (cl_get qs) = Some x" using g(1) c(2) by (simp add: cl_get_def not_less)
  moreover have "cl_rep (snd (cl_get qs)) xs (room q' bs' fs')" using g c(2) by (auto simp: cl_get_def cl_rep_def gets_def)
  ultimately show "fst (cl_get qs) = Some x \<and> (\<exists>r'\<ge>r. cl_rep (snd (cl_get qs)) xs r')"
    using room_gets[OF g(2) c(1) ne] c(3) by blast
next
  fix qs r assume "cl_rep qs [] r"
  then obtain bs fs where c: "clq (snd qs) (fst qs) bs fs" "contents (snd qs) (fst qs) bs = []" by (auto simp: cl_rep_def)
  then have "fst qs = clist_null" using contents_Nil[OF c(1)] by (simp add: clq_Nil)
  then show "cl_get qs = (None, qs)" by (cases qs) (simp add: cl_get_def getc_def)
qed

section \<open>Flushing\<close>

lemma addrs_length:
  "bs \<noteq> [] \<Longrightarrow> ends_ok bs cf cl \<Longrightarrow>
     length (addrs bs cf cl) + (cf - (hd bs + 2)) + (last bs + 32 - cl) = 30 * length bs"
proof (induction bs cf cl rule: addrs.induct)
  case (3 b b' bs cf cl)
  then show ?case using ends_ok_Cons2[OF "3.prems"(2)] by (simp add: ends_ok_def)
qed (auto simp: ends_ok_def)

lemma cf_mod:
  assumes "clq s q bs fs" "bs \<noteq> []"
  shows "c_cf q = hd bs + c_cf q mod 32"
  using clq_ends(10)[OF assms] clq_ends(1)[OF assms] by (simp add: cblock_def CBLOCK_def ends_ok_def)

lemma single_block:
  assumes c: "clq s q bs fs" "bs \<noteq> []"
  shows "hd bs = cblock (c_cl q - 1) \<longleftrightarrow> tl bs = []"
proof -
  note e = clq_ends[OF c]
  have "cblock (c_cl q - 1) = last bs" using e(1,7) by (intro cblock_eq) (auto simp: ends_ok_def)
  moreover have "distinct bs" using c by (simp add: clq_def queue_ok_def blocks_ok_def)
  ultimately show ?thesis using c(2) by (cases bs) (auto split: if_splits)
qed

text \<open>The characters up to the end of the first block or of the list.\<close>

definition first_part :: "clist \<Rightarrow> nat list \<Rightarrow> nat" where
  "first_part q bs = (if tl bs = [] then c_cl q else hd bs + 32) - c_cf q"

lemma first_part_ok:
  assumes c: "clq s q bs fs" "bs \<noteq> []"
  shows "0 < first_part q bs" "int (first_part q bs) \<le> c_cc q" "c_cf q mod 32 + first_part q bs \<le> 32"
    "tl bs = [] \<Longrightarrow> int (first_part q bs) = c_cc q" "tl bs \<noteq> [] \<Longrightarrow> int (first_part q bs) < c_cc q \<and> c_cf q + first_part q bs = hd bs + 32"
proof -
  note e = clq_ends(1,2)[OF c] and m = cf_mod[OF c]
  show "0 < first_part q bs" using e(1) by (auto simp: first_part_def ends_ok_def)
  show "c_cf q mod 32 + first_part q bs \<le> 32" using e(1) m c(2) by (cases bs) (auto simp: first_part_def ends_ok_def)
  show s: "tl bs = [] \<Longrightarrow> int (first_part q bs) = c_cc q" using e c(2) by (cases bs) (auto simp: first_part_def ends_ok_def)
  show t: "tl bs \<noteq> [] \<Longrightarrow> int (first_part q bs) < c_cc q \<and> c_cf q + first_part q bs = hd bs + 32"
  proof -
    assume "tl bs \<noteq> []"
    then obtain b b' bs' where bs: "bs = b # b' # bs'" by (metis list.collapse list.sel(2))
    have "addrs (b' # bs') (b' + 2) (c_cl q) \<noteq> []" using addrs_ne[of "b' # bs'"] ends_ok_Cons2 e(1) bs by blast
    then have "0 < length (addrs (b' # bs') (b' + 2) (c_cl q))" by (rule length_greater_0_conv[THEN iffD2])
    moreover have "c_cc q = int ((b + 32 - c_cf q) + length (addrs (b' # bs') (b' + 2) (c_cl q)))" using e(2) bs by simp
    ultimately show ?thesis using e(1) bs by (auto simp: first_part_def ends_ok_def)
  qed
  show "int (first_part q bs) \<le> c_cc q" using s t by (cases "tl bs = []") auto
qed

text \<open>One round of \<^verbatim>\<open>ndflush\<close>.\<close>

lemma ndflush_round:
  assumes c: "clq s q bs fs" "bs \<noteq> []" and cc: "0 < cc"
  shows "ndflush_loop q cc s =
    (let n = first_part q bs in
     if int n \<le> cc then ndflush_loop (q\<lparr>c_cc := c_cc q - int n, c_cf := c_info (c_next s (hd bs))\<rparr>) (cc - int n) (cfree (hd bs) s)
     else Some (q\<lparr>c_cc := c_cc q - cc, c_cf := c_cf q + nat cc\<rparr>, s))"
proof -
  note e = clq_ends[OF c] and f = first_part_ok[OF c]
  have "c_cc q \<noteq> 0" using e(3) by simp
  moreover have "int (if hd bs = cblock (c_cl q - 1) then c_cl q else hd bs + CBLOCK) - int (c_cf q) = int (first_part q bs)"
    using single_block[OF c] f(1) unfolding CBLOCK_def first_part_def by auto
  ultimately show ?thesis
    using cc f(2) by (subst ndflush_loop.simps) (simp add: e(10) Let_def)
qed

lemma get_n_part:
  assumes c: "clq s q bs fs" "bs \<noteq> []" and n: "n = first_part q bs"
  shows "snd (get_n n q s) =
    (if tl bs = [] then clist_null else q\<lparr>c_cc := c_cc q - int n, c_cf := c_info (c_next s (hd bs))\<rparr>, cfree (hd bs) s)"
proof -
  note e = clq_ends[OF c] and f = first_part_ok[OF c, folded n]
  have g: "snd (get_n n q s) = chunk_end (q\<lparr>c_cf := c_cf q + n, c_cc := c_cc q - int n\<rparr>) s"
    using get_n_chunk[OF f(1,3,2), of s] by simp
  show ?thesis
  proof (cases "tl bs = []")
    case True
    have "cblock (c_cf q + n - 1) = hd bs"
      using e(1,4) f(1,3) cf_mod[OF c] by (intro cblock_eq) (auto simp: ends_ok_def)
    then show ?thesis using g True f(4)[OF True] by (simp add: chunk_end_def)
  next
    case False
    have "(hd bs + 32) mod 32 = 0" using e(4) by simp
    then show ?thesis using g False f(5)[OF False] by (simp add: chunk_end_def CBLOCK_def)
  qed
qed

lemma get_n_clq:
  assumes "clq s q bs fs" "get_n n q s = (r, q', s')"
  obtains bs' fs' where "got n s q bs fs s' q' bs' fs'" "r = take n (contents s q bs)"
  using get_n_ok[OF assms(1), of n] assms(2) by auto

lemma ndflush_get_n_part:
  assumes "clq s q bs fs" "0 \<le> cc" "0 < c_cc q"
  shows "\<exists>q' s'. ndflush_loop q cc s = Some (q', s') \<and>
    (if c_cc q' \<le> 0 then clist_null else q', s') = snd (get_n (nat cc) q s)"
  using assms
proof (induction "nat (c_cc q)" arbitrary: q s bs fs cc rule: less_induct)
  case less
  have ne: "bs \<noteq> []" using less.prems by (auto simp: clq_Nil)
  note c = less.prems(1) ne
  note f = first_part_ok[OF c]
  define n where "n = first_part q bs"
  let ?q1 = "q\<lparr>c_cc := c_cc q - int n, c_cf := c_info (c_next s (hd bs))\<rparr>" and ?s1 = "cfree (hd bs) s"
  consider (zero) "cc = 0" | (part) "0 < cc" "cc < int n" | (whole) "int n \<le> cc" "0 < cc" using less.prems(2) by linarith
  then show ?case
  proof cases
    case zero
    then show ?thesis using less.prems(3) by (subst ndflush_loop.simps) simp
  next
    case part
    have "get_n (nat cc) q s = (bcopy_out s (c_cf q) (nat cc), chunk_end (q\<lparr>c_cf := c_cf q + nat cc, c_cc := c_cc q - cc\<rparr>) s)"
      using get_n_chunk[of "nat cc" q s] part f by (simp add: n_def)
    moreover have "(c_cf q + nat cc) mod 32 \<noteq> 0"
    proof -
      have "c_cf q mod 32 + nat cc < 32" using part f(3) by (simp add: n_def)
      then show ?thesis using boundary[OF clq_ends(4)[OF c], of "c_cf q + nat cc"] cf_mod[OF c] part(1) clq_ends(1)[OF c]
        by (auto simp: ends_ok_def)
    qed
    ultimately show ?thesis
      using ndflush_round[OF c part(1)] part f(2) by (simp add: n_def Let_def chunk_end_def CBLOCK_def)
  next
    case whole
    have step: "ndflush_loop q cc s = ndflush_loop ?q1 (cc - int n) ?s1"
      using ndflush_round[OF c whole(2)] whole(1) by (simp add: n_def Let_def)
    have "nat cc = n + nat (cc - int n)" using whole by simp
    then have g: "snd (get_n (nat cc) q s) = snd (get_n (nat (cc - int n)) (fst (snd (get_n n q s))) (snd (snd (get_n n q s))))"
      using get_n_add[of n "nat (cc - int n)" q s] by simp
    note p = get_n_part[OF c n_def]
    show ?thesis
    proof (cases "tl bs = []")
      case True
      then have "ndflush_loop ?q1 (cc - int n) ?s1 = Some (?q1, ?s1)"
        using f(4) n_def by (subst ndflush_loop.simps) simp
      then show ?thesis using step g p True f(4) n_def by simp
    next
      case False
      have "snd (get_n n q s) = (?q1, ?s1)" unfolding p using False by (simp only: if_False)
      then have "get_n n q s = (fst (get_n n q s), ?q1, ?s1)" by (cases "get_n n q s") simp
      then obtain bs1 fs1 where c1: "clq ?s1 ?q1 bs1 fs1" by (rule get_n_clq[OF c(1)]) (auto simp: got_def)
      have n: "0 < n" "int n < c_cc q" using f(1) f(5)[OF False] by (simp_all add: n_def)
      then have lt: "nat (c_cc ?q1) < nat (c_cc q)" "0 < c_cc ?q1" by simp_all
      have "0 \<le> cc - int n" using whole by simp
      from less.hyps[OF lt(1) c1 this lt(2)] obtain q' s' where "ndflush_loop ?q1 (cc - int n) ?s1 = Some (q', s')"
        "(if c_cc q' \<le> 0 then clist_null else q', s') = snd (get_n (nat (cc - int n)) ?q1 ?s1)" by blast
      then show ?thesis using step g p False by simp
    qed
  qed
qed

lemma ndflush_get_n:
  assumes c: "clq s q bs fs" and cc: "0 \<le> cc"
  shows "ndflush q cc s = Some (snd (get_n (nat cc) q s))"
proof (cases "c_cc q \<le> 0")
  case True
  then show ?thesis by (simp add: ndflush_def)
next
  case False
  then show ?thesis using ndflush_get_n_part[OF c cc] by (auto simp: ndflush_def)
qed

section \<open>Taking back the last character\<close>

lemma prev_block_ok:
  "linked nx (bs @ [b]) \<Longrightarrow> distinct (bs @ [b]) \<Longrightarrow> bs \<noteq> [] \<Longrightarrow> prev_block nx b (hd bs) = Some (last bs)"
proof (induction bs)
  case (Cons x bs)
  show ?case
  proof (cases bs)
    case Nil
    then show ?thesis using Cons.prems by (subst prev_block.simps) simp
  next
    case (Cons y ys)
    then have "nx x = y" "y \<noteq> b" using Cons.prems \<open>linked nx ((x # bs) @ [b])\<close> \<open>distinct ((x # bs) @ [b])\<close> by auto
    moreover have "prev_block nx b (hd bs) = Some (last bs)" using Cons.IH Cons.prems Cons by simp
    ultimately show ?thesis using Cons by (subst prev_block.simps) simp
  qed
qed simp

lemma linked_butlast: "linked nx (bs @ [b]) \<Longrightarrow> distinct bs \<Longrightarrow> bs \<noteq> [] \<Longrightarrow> linked (nx(last bs := 0)) bs"
proof (induction nx bs rule: linked.induct)
  case (3 nx b1 b2 bs)
  then show ?case by auto
qed auto

definition ungets :: "cstore \<Rightarrow> clist \<Rightarrow> nat list \<Rightarrow> nat list \<Rightarrow> cstore \<Rightarrow> clist \<Rightarrow> bool" where
  "ungets s q bs fs s' q' \<longleftrightarrow> (\<exists>bs' fs'. clq s' q' bs' fs' \<and> contents s' q' bs' = butlast (contents s q bs) \<and>
     set bs' \<union> set fs' = set bs \<union> set fs \<and> elsewhere (set bs) s s')"

lemma cwaiting_clq [simp]: "clq (s\<lparr>cwaiting := w\<rparr>) q bs fs = clq s q bs fs"
  by (simp add: clq_def queue_ok_def free_ok_def)

lemma cwaiting_contents [simp]: "contents (s\<lparr>cwaiting := w\<rparr>) q bs = contents s q bs"
  by (simp add: contents_def)

lemma ungets_last:
  assumes c: "clq s q bs fs" "bs \<noteq> []" and cc: "c_cc q \<le> 1"
  shows "ungets s q bs fs ((cfree (hd bs) s)\<lparr>cwaiting := w\<rparr>) clist_null" "cblock (c_cl q - 1) = hd bs"
proof -
  have g: "gets s q bs fs (cfree (hd bs) s) clist_null [] (hd bs # fs)" by (rule gets_last[OF c cc])
  have l: "length (contents s q bs) = 1" using c_cc_contents[OF c(1)] clq_ends(3)[OF c] cc by linarith
  then obtain b where b: "bs = [b]"
    using addrs_length_1[OF clq_ends(1)[OF c]] by (auto simp: contents_def)
  have "butlast (contents s q bs) = tl (contents s q bs)" using l by (cases "contents s q bs") auto
  then show "ungets s q bs fs ((cfree (hd bs) s)\<lparr>cwaiting := w\<rparr>) clist_null"
    using g b unfolding ungets_def gets_def
    by (intro exI[of _ "[]"] exI[of _ "hd bs # fs"]) (auto simp: elsewhere_def)
  show "cblock (c_cl q - 1) = hd bs" using single_block[OF c] b by simp
qed

lemma ungets_block:
  assumes c: "clq s q bs fs" and bs: "bs = bs0 @ [b]" "bs0 \<noteq> []" and cl: "c_cl q = b + 3"
    and s': "s' = (cfree b s)\<lparr>c_next := (c_next (cfree b s))(last bs0 := 0), cwaiting := w\<rparr>"
  shows "ungets s q bs fs s' (q\<lparr>c_cc := c_cc q - 1, c_cl := last bs0 + 32\<rparr>)"
proof -
  have ne: "bs \<noteq> []" using bs by simp
  note e = clq_ends[OF c ne]
  have q: "linked (c_next s) (bs0 @ [b])" "distinct (bs0 @ [b])" "\<forall>x\<in>set bs. x mod 32 = 0 \<and> x \<noteq> 0"
    using c bs by (simp_all add: clq_def queue_ok_def blocks_ok_def)
  have lb: "last bs0 \<in> set bs0" "last bs0 \<noteq> b" using bs q(2) by auto
  have dj: "b \<notin> set fs" "set bs0 \<inter> set fs = {}" using c bs by (auto simp: clq_def)
  let ?q = "q\<lparr>c_cc := c_cc q - 1, c_cl := last bs0 + 32\<rparr>"
  have fu: "(c_next s)(b := cfreelist s, last bs0 := 0) = (c_next s)(last bs0 := 0, b := cfreelist s)"
    using lb by (simp add: fun_upd_twist)
  have "linked ((c_next s)(last bs0 := 0)) bs0" using linked_butlast[OF q(1)] q(2) bs(2) by simp
  then have "linked ((c_next s)(b := cfreelist s, last bs0 := 0)) bs0" unfolding fu using q(2) by simp
  then have "blocks_ok (c_next s') bs0" using q bs by (auto simp: s' blocks_ok_def)
  moreover have a: "addrs bs (c_cf q) (c_cl q) = addrs bs0 (c_cf q) (last bs0 + 32) @ [b + 2]"
    unfolding bs(1) addrs_snoc_block[OF bs(2)] cl by (simp add: numeral_3_eq_3)
  moreover have "ends_ok bs0 (c_cf q) (last bs0 + 32)"
    using e(1) bs by (cases bs0) (auto simp: ends_ok_def)
  ultimately have "queue_ok s' ?q bs0" using e(2) bs(2) by (simp add: queue_ok_def)
  moreover have "free_ok s' (b # fs)"
  proof (rule free_ok_cong)
    show "free_ok (cfree b s) (b # fs)" using c dj q(3) bs by (intro cfree_ok) (auto simp: clq_def)
  qed (use lb dj in \<open>auto simp: s'\<close>)
  ultimately have "clq s' ?q bs0 (b # fs)" using dj q(2) by (auto simp: clq_def)
  moreover have "contents s' ?q bs0 = butlast (contents s q bs)" using a by (simp add: contents_def s')
  moreover have "elsewhere (set bs) s s'" using bs lb by (auto simp: elsewhere_def s')
  ultimately show ?thesis using bs unfolding ungets_def by (intro exI[of _ bs0] exI[of _ "b # fs"]) auto
qed

lemma ungets_within:
  assumes c: "clq s q bs fs" "bs \<noteq> []" and cc: "1 < c_cc q" and m: "c_cl q \<noteq> last bs + 3"
  shows "ungets s q bs fs s (q\<lparr>c_cl := c_cl q - 1, c_cc := c_cc q - 1\<rparr>)"
proof -
  note e = clq_ends[OF c]
  let ?q = "q\<lparr>c_cl := c_cl q - 1, c_cc := c_cc q - 1\<rparr>"
  have en: "ends_ok bs (c_cf q) (c_cl q - 1)"
  proof -
    have "tl bs = [] \<Longrightarrow> c_cf q < c_cl q - 1" using c(2) e(2) cc by (cases bs) auto
    then show ?thesis using e(1) m by (auto simp: ends_ok_def)
  qed
  have "Suc (c_cl q - 1) = c_cl q" using e(1) by (simp add: ends_ok_def)
  then have a: "addrs bs (c_cf q) (c_cl q) = addrs bs (c_cf q) (c_cl q - 1) @ [c_cl q - 1]"
    using addrs_snoc[OF c(2) en] by simp
  then have "queue_ok s ?q bs" using en e(2) c by (simp add: clq_def queue_ok_def)
  then have "clq s ?q bs fs" using c by (simp add: clq_def)
  moreover have "contents s ?q bs = butlast (contents s q bs)" using a by (simp add: contents_def)
  ultimately show ?thesis unfolding ungets_def by (intro exI[of _ bs] exI[of _ fs]) simp
qed

lemma addrs_last: "bs \<noteq> [] \<Longrightarrow> ends_ok bs cf cl \<Longrightarrow> last (addrs bs cf cl) = cl - 1"
proof (induction bs cf cl rule: addrs.induct)
  case (3 b b' bs cf cl)
  note e = ends_ok_Cons2[OF "3.prems"(2)]
  then have "addrs (b' # bs) (b' + 2) cl \<noteq> []" using addrs_ne by blast
  then show ?case using "3.IH" e by (simp only: addrs.simps last_appendR) simp
qed (auto simp: ends_ok_def)

lemma clist_zero: "q\<lparr>c_cc := 0, c_cf := 0, c_cl := 0\<rparr> = clist_null"
  by (cases q) simp

lemma unputc_ok:
  assumes c: "clq s q bs fs" "bs \<noteq> []"
  shows "\<exists>q' s'. unputc q s = Some (sint (last (contents s q bs)), q', s') \<and> ungets s q bs fs s' q'"
proof -
  note e = clq_ends[OF c]
  have lst: "last (contents s q bs) = cmem s (c_cl q - 1)"
    using addrs_last[OF c(2) e(1)] addrs_ne[OF c(2) e(1)] by (simp add: contents_def last_map)
  have cl: "last bs + 2 < c_cl q" "c_cl q \<le> last bs + 32" using e(1) by (simp_all add: ends_ok_def)
  have blk: "cblock (c_cl q - 1) = last bs" using cl e(7) by (intro cblock_eq) auto
  then have m: "(c_cl q - 1) mod CBLOCK = 2 \<longleftrightarrow> c_cl q = last bs + 3"
    using cl by (simp add: cblock_def CBLOCK_def) linarith
  consider (last) "c_cc q \<le> 1" | (block) "1 < c_cc q" "c_cl q = last bs + 3" | (within) "1 < c_cc q" "c_cl q \<noteq> last bs + 3" by linarith
  then show ?thesis
  proof cases
    case last
    then have "c_cc q = 1" using e(3) by linarith
    then show ?thesis using ungets_last[OF c last] lst by (simp add: unputc_def Let_def clist_zero)
  next
    case block
    have "tl bs \<noteq> []"
    proof
      assume "tl bs = []"
      then show False using e(1,2) block c(2) by (cases bs) (auto simp: ends_ok_def)
    qed
    then obtain bs0 b where bs: "bs = bs0 @ [b]" "bs0 \<noteq> []" using c(2) by (metis append_butlast_last_id butlast.simps(2) list.sel(3) list.exhaust_sel append_Nil)
    have q: "linked (c_next s) (bs0 @ [b])" "distinct (bs0 @ [b])" using c bs by (simp_all add: clq_def queue_ok_def blocks_ok_def)
    have pb: "prev_block (c_next s) b (hd bs0) = Some (last bs0)" by (rule prev_block_ok[OF q bs(2)])
    have nx: "c_next s (last bs0) = b" using q(1) bs(2) by (induction bs0 rule: induct_list012) auto
    have hd: "cblock (c_cf q) = hd bs0" using e(10) bs by simp
    show ?thesis
      using ungets_block[OF c(1) bs, of "(cfree b s)\<lparr>c_next := (c_next (cfree b s))(last bs0 := 0), cwaiting := cwaiting s\<rparr>" "cwaiting s"]
        block m blk pb nx hd lst bs by (simp add: unputc_def Let_def CBLOCK_def cfree_def)
  next
    case within
    then show ?thesis using ungets_within[OF c within] lst m by (simp add: unputc_def Let_def)
  qed
qed

section \<open>Joining two lists\<close>

text \<open>A list whose blocks lie outside the part of the store that changes.\<close>

lemma queue_elsewhere:
  assumes c: "queue_ok s q bs" and e: "elsewhere D s s'" and d: "set bs \<inter> D = {}"
  shows "queue_ok s' q bs" "contents s' q bs = contents s q bs"
proof -
  have nx: "b \<in> set bs \<Longrightarrow> c_next s' b = c_next s b" for b using e d by (auto simp: elsewhere_def)
  then show "queue_ok s' q bs" using c blocks_ok_cong[of bs "c_next s'" "c_next s"] by (simp add: queue_ok_def)
  have "cmem s' a = cmem s a" if "a \<in> set (addrs bs (c_cf q) (c_cl q))" for a
  proof -
    have "bs \<noteq> []" using that by auto
    then have "cblock a \<in> set bs" using addrs_block[OF that] c by (auto simp: queue_ok_def blocks_ok_def)
    then show ?thesis using e d by (auto simp: elsewhere_def)
  qed
  then show "contents s' q bs = contents s q bs" by (simp add: contents_def)
qed

text \<open>Reading \<open>n\<close> characters frees enough blocks to store them again, if \<open>n\<close> is a multiple of 30 or the list ends.\<close>

lemma freed_room:
  assumes c: "clq s q bs fs" and g: "got 120 s q bs fs s' q' bs' fs'"
  shows "length (take 120 (contents s q bs)) \<le> 30 * length fs'"
proof -
  obtain k where k: "k \<le> length bs" "bs' = drop k bs" "fs' = rev (take k bs) @ fs" using g by (auto simp: got_def)
  then have lf: "length fs' = k + length fs" by simp
  have len: "length (contents s q bs) \<le> 30 * length bs"
  proof (cases "bs = []")
    case False
    then show ?thesis using addrs_length[OF False clq_ends(1)[OF c False]] by (simp add: contents_def)
  qed (simp add: contents_def)
  show ?thesis
  proof (cases "bs' = []")
    case True
    then have "k = length bs" using k by simp
    then show ?thesis using len lf by simp
  next
    case False
    then have ne: "bs \<noteq> []" using k by auto
    have c': "clq s' q' bs' fs'" and l: "c_cl q' = c_cl q" "last bs' = last bs" "contents s' q' bs' = drop 120 (contents s q bs)"
      using g False by (auto simp: got_def)
    have "contents s' q' bs' \<noteq> []" using contents_Nil[OF c'] False by simp
    then have "120 < length (contents s q bs)" using l(3) by simp
    moreover have "length (contents s q bs) + (c_cf q - (hd bs + 2)) + (last bs + 32 - c_cl q) = 30 * length bs"
      using addrs_length[OF ne clq_ends(1)[OF c ne]] by (simp add: contents_def)
    moreover have "length (contents s q bs) - 120 + (c_cf q' - (hd bs' + 2)) + (last bs + 32 - c_cl q) = 30 * length bs'"
    proof -
      have "length (addrs bs' (c_cf q') (c_cl q')) = length (contents s' q' bs')" by (simp add: contents_def)
      also have "\<dots> = length (contents s q bs) - 120" unfolding l(3) by simp
      finally show ?thesis using addrs_length[OF False clq_ends(1)[OF c' False]] l(1,2) by simp
    qed
    moreover have "length bs = k + length bs'" using k by simp
    moreover have "c_cf q' - (hd bs' + 2) \<le> 29" using clq_ends(1)[OF c' False] by (auto simp: ends_ok_def)
    ultimately have "91 \<le> 30 * k" by linarith
    then have "4 \<le> k" by presburger
    then show ?thesis using lf by simp
  qed
qed

lemma catq_round:
  assumes f: "clq s fr bs fs" and t: "clq s to ts fs" and d: "set bs \<inter> set ts = {}" and ne: "bs \<noteq> []"
    and r: "q_to_b fr (int CBSIZE * 4) s = (bbuf, fr1, s1)" "b_to_q bbuf to s1 = (n, to1, s2)"
  obtains bs1 ts1 fs1 where "clq s2 fr1 bs1 fs1" "clq s2 to1 ts1 fs1" "set bs1 \<inter> set ts1 = {}" "ts \<noteq> [] \<longrightarrow> ts1 \<noteq> []"
    "contents s2 to1 ts1 @ contents s2 fr1 bs1 = contents s to ts @ contents s fr bs" "nat (c_cc fr1) < nat (c_cc fr)"
proof -
  have "get_n 120 fr s = (bbuf, fr1, s1)" using r(1) q_to_b_get_n[OF f] by (simp add: CBSIZE_def)
  then obtain bs1 fs1 where g: "got 120 s fr bs fs s1 fr1 bs1 fs1" "bbuf = take 120 (contents s fr bs)"
    by (rule get_n_clq[OF f])
  have f1: "clq s1 fr1 bs1 fs1" and e1: "elsewhere (set bs) s s1" and c1: "contents s1 fr1 bs1 = drop 120 (contents s fr bs)"
    using g(1) by (auto simp: got_def)
  obtain k where k: "k \<le> length bs" "bs1 = drop k bs" "fs1 = rev (take k bs) @ fs" using g(1) by (auto simp: got_def)
  have sub: "set fs1 \<subseteq> set bs \<union> set fs" "set bs1 \<subseteq> set bs" using k by (auto dest: in_set_takeD in_set_dropD)
  have to1: "queue_ok s1 to ts" "contents s1 to ts = contents s to ts"
    using queue_elsewhere[OF _ e1, of to ts] t d by (auto simp: clq_def)
  have t1: "clq s1 to ts fs1" using to1(1) f1 t d sub(1) by (auto simp: clq_def)
  have rm: "length bbuf \<le> room to ts fs1" using freed_room[OF f g(1)] g(2) by (simp add: room_def)
  obtain q' s' ts2 fs2 where p: "put_n bbuf to s1 = (length bbuf - room to ts fs1, q', s')"
    "puts_n (take (room to ts fs1) bbuf) s1 to ts fs1 s' q' ts2 fs2" using put_n_ok[OF t1] by blast
  have eq: "to1 = q'" "s2 = s'" using p(1) r(2) b_to_q_put_n[OF t1] by auto
  have t2: "clq s2 to1 ts2 fs2" and c2: "contents s2 to1 ts2 = contents s to ts @ bbuf"
    and e2: "elsewhere (set ts \<union> set fs1) s1 s2" and u: "set ts2 \<union> set fs2 = set ts \<union> set fs1"
    using p(2) rm to1(2) unfolding eq by (auto simp: puts_n_def)
  have dj: "set bs1 \<inter> (set ts \<union> set fs1) = {}" using d sub(2) f1 by (auto simp: clq_def)
  have "queue_ok s2 fr1 bs1" "contents s2 fr1 bs1 = contents s1 fr1 bs1" using queue_elsewhere[OF _ e2 dj] f1 by (auto simp: clq_def)
  moreover from this have f2: "clq s2 fr1 bs1 fs2" using t2 dj u by (auto simp: clq_def)
  moreover have "contents s fr bs \<noteq> []" using contents_Nil[OF f] ne by simp
  then have "nat (c_cc fr1) < nat (c_cc fr)" using c_cc_contents[OF f1] c_cc_contents[OF f] c1 by (simp add: length_greater_0_conv[symmetric] del: length_greater_0_conv)
  moreover have "ts \<noteq> [] \<longrightarrow> ts2 \<noteq> []" using contents_Nil[OF t] contents_Nil[OF t2] c2 by auto
  ultimately show thesis using that[OF f2 t2] dj u c1 c2 g(2) by (auto simp: Int_Un_distrib)
qed

lemma catq_loop_ok:
  assumes "clq s fr bs fs" "clq s to ts fs" "set bs \<inter> set ts = {}"
  shows "\<exists>to' s' ts' fs'. catq_loop fr to s = Some (clist_null, to', s') \<and> clq s' to' ts' fs' \<and>
    contents s' to' ts' = contents s to ts @ contents s fr bs"
  using assms
proof (induction "nat (c_cc fr)" arbitrary: fr to s bs ts fs rule: less_induct)
  case less
  show ?case
  proof (cases "bs = []")
    case True
    then have "fr = clist_null" "contents s fr bs = []" using less.prems by (simp_all add: clq_Nil contents_def)
    then show ?thesis using less.prems by (subst catq_loop.simps) auto
  next
    case False
    obtain bbuf fr1 s1 where r1: "q_to_b fr (int CBSIZE * 4) s = (bbuf, fr1, s1)" by (metis prod.exhaust)
    obtain n to1 s2 where r2: "b_to_q bbuf to s1 = (n, to1, s2)" by (metis prod.exhaust)
    obtain bs1 ts1 fs1 where c: "clq s2 fr1 bs1 fs1" "clq s2 to1 ts1 fs1" "set bs1 \<inter> set ts1 = {}"
      "contents s2 to1 ts1 @ contents s2 fr1 bs1 = contents s to ts @ contents s fr bs" "nat (c_cc fr1) < nat (c_cc fr)"
      by (rule catq_round[OF less.prems False r1 r2])
    have "catq_loop fr to s = catq_loop fr1 to1 s2"
      using clq_ends(3)[OF less.prems(1) False] r1 r2 by (subst catq_loop.simps) simp
    then show ?thesis using less.hyps[OF c(5,1,2,3)] c(4) by simp
  qed
qed

lemma catq_ok:
  assumes f: "clq s fr bs fs" and t: "clq s to ts fs" and d: "set bs \<inter> set ts = {}"
  shows "\<exists>to' s' ts' fs'. catq fr to s = Some (clist_null, to', s') \<and> clq s' to' ts' fs' \<and>
    contents s' to' ts' = contents s to ts @ contents s fr bs"
proof (cases "c_cc to = 0")
  case True
  then have "contents s to ts = []" using c_cc_contents[OF t] by simp
  then show ?thesis using True f by (auto simp: catq_def)
next
  case False
  then show ?thesis using catq_loop_ok[OF f t d] by (simp add: catq_def)
qed

section \<open>Walking a list\<close>

lemma nextc_last:
  assumes "clq s q bs fs" "bs \<noteq> []"
  shows "nextc q (c_cl q - 1) s = None"
proof -
  have "Suc (c_cl q - 1) = c_cl q" using clq_ends(1)[OF assms] by (simp add: ends_ok_def)
  then show ?thesis by (simp add: nextc_def Let_def)
qed

lemma addrs_nextc:
  assumes "linked (c_next s) bs" "distinct bs" "\<forall>b\<in>set bs. b mod 32 = 0" "ends_ok bs cf (c_cl q)" "c_cc q \<noteq> 0"
    "Suc i < length (addrs bs cf (c_cl q))"
  shows "nextc q (addrs bs cf (c_cl q) ! i) s = Some (addrs bs cf (c_cl q) ! Suc i)"
  using assms
proof (induction bs cf "c_cl q" arbitrary: i rule: addrs.induct)
  case (2 b cf)
  have i: "Suc (cf + i) < c_cl q" "b < Suc (cf + i)" "c_cl q \<le> b + 32" using "2.prems"(4,6) by (auto simp: ends_ok_def)
  then have "Suc (cf + i) mod 32 \<noteq> 0" using boundary[of b "Suc (cf + i)"] "2.prems"(3) by auto
  then show ?case using i "2.prems"(5,6) by (simp add: nextc_def Let_def CBLOCK_def)
next
  case (3 b b' bs cf)
  let ?m = "b + 32 - cf" and ?t = "addrs (b' # bs) (b' + 2) (c_cl q)"
  note e = ends_ok_Cons2[OF "3.prems"(4)]
  have a: "addrs (b # b' # bs) cf (c_cl q) = [cf..<b + 32] @ ?t" by simp
  have cf: "b + 2 \<le> cf" "cf < b + 32" using "3.prems"(4) by (auto simp: ends_ok_def)
  consider (in_first) "Suc i < ?m" | (edge) "Suc i = ?m" | (later) "?m \<le> i" by linarith
  then show ?case
  proof cases
    case in_first
    have x: "Suc (cf + i) < b + 32" using in_first by linarith
    then have m: "Suc (cf + i) mod 32 \<noteq> 0" using boundary[of b "Suc (cf + i)"] "3.prems"(3) cf by auto
    have "Suc (cf + i) \<noteq> c_cl q"
    proof
      assume h: "Suc (cf + i) = c_cl q"
      have l: "last (b' # bs) \<in> set (b' # bs)" by simp
      have "cblock (cf + i) = b" using cf x "3.prems"(3) by (intro cblock_eq) auto
      moreover have "cblock (cf + i) = last (b' # bs)"
        using h "3.prems"(3,4) l by (intro cblock_eq) (auto simp: ends_ok_def)
      ultimately show False using "3.prems"(2) l by auto
    qed
    then show ?thesis unfolding a using in_first m "3.prems"(5)
      by (simp add: nth_append nextc_def Let_def CBLOCK_def)
  next
    case edge
    have x: "cf + i = b + 31" using edge cf by linarith
    have "b + 32 \<noteq> c_cl q"
    proof
      assume h: "b + 32 = c_cl q"
      have l: "last (b' # bs) \<in> set (b' # bs)" by simp
      have "cblock (b + 31) = b" using "3.prems"(3) by (intro cblock_eq) auto
      moreover have "cblock (b + 31) = last (b' # bs)" using h "3.prems"(3,4) l by (intro cblock_eq) (auto simp: ends_ok_def)
      ultimately show False using "3.prems"(2) l by auto
    qed
    moreover have "(b + 32) mod 32 = 0" "c_next s b = b'" using "3.prems"(1,3) by simp_all
    moreover have "([cf..<b + 32] @ ?t) ! i = b + 31" using edge x by (simp add: nth_append)
    moreover have "([cf..<b + 32] @ ?t) ! Suc i = b' + 2"
    proof -
      have "?t \<noteq> [] \<and> hd ?t = b' + 2" using addrs_ne[of "b' # bs"] e by blast
      then have "?t ! 0 = b' + 2" by (metis hd_conv_nth)
      then show ?thesis using edge by (simp add: nth_append)
    qed
    ultimately show ?thesis unfolding a using "3.prems"(5) by (simp add: nextc_def Let_def CBLOCK_def c_info_def)
  next
    case later
    have "nextc q (?t ! (i - ?m)) s = Some (?t ! Suc (i - ?m))"
      by (rule "3.hyps") (use "3.prems" e later in \<open>auto simp: less_diff_conv\<close>)
    then show ?thesis unfolding a using later by (simp add: nth_append Suc_diff_le)
  qed
qed simp

end
