(* ===== verification/Clist_Thms.thy ===== *)
theory Clist_Thms
  imports Clist_Props
begin

text \<open>The properties of character lists.\<close>

lemma bcopy_part:
  assumes c: "clq s q bs fs" "bs \<noteq> []" and n: "n \<le> first_part q bs"
  shows "bcopy_out s (c_cf q) n = take n (contents s q bs)"
proof (cases n)
  case 0 then show ?thesis by (simp add: bcopy_out_def)
next
  case (Suc k)
  then show ?thesis
    using get_n_chunk[of n q s] get_n_ok[OF c(1), of n] first_part_ok[OF c] n by (auto simp del: get_n.simps)
qed

lemma ndqb_scan_takeWhile: "ndqb_scan n flag cs = n + length (takeWhile (\<lambda>c. c AND flag = 0) cs)"
  by (induction cs arbitrary: n) auto

lemma takeWhile_True: "takeWhile (\<lambda>c. True) xs = xs"
  by (simp add: takeWhile_eq_all_conv)

lemma ndqb_ok:
  assumes c: "clq s q bs fs"
  shows "ndqb q flag s = int (length (takeWhile (\<lambda>c. c AND flag = 0) (take (first_part q bs) (contents s q bs))))"
proof (cases "bs = []")
  case True
  then show ?thesis using c by (simp add: clq_Nil ndqb_def contents_def)
next
  case False
  note e = clq_ends[OF c False] and f = first_part_ok[OF c False] and m = cf_mod[OF c False]
  have "hd bs mod 32 = 0" by (rule e(4))
  then have "cblock (c_cf q + 30) = hd bs + 32" using e(1) by (intro cblock_eq) (auto simp: ends_ok_def)
  then have cc: "(if c_cc q < int (cblock (c_cf q + CBSIZE)) - int (c_cf q) then c_cc q
      else int (cblock (c_cf q + CBSIZE)) - int (c_cf q)) = int (first_part q bs)"
    using f m e(1) by (cases "tl bs = []") (auto simp: CBSIZE_def ends_ok_def)
  have "length (take (first_part q bs) (contents s q bs)) = first_part q bs"
    using f(2) c_cc_contents[OF c] by simp
  then show ?thesis
    using e(3) bcopy_part[OF c False order_refl] by (simp add: ndqb_def cc Let_def ndqb_scan_takeWhile takeWhile_True)
qed

text \<open>A store of three free blocks, for the witnesses.\<close>

definition store0 :: cstore where
  "store0 = \<lparr>c_next = (\<lambda>b. if b = 32 then 64 else if b = 64 then 96 else 0), cmem = (\<lambda>_. 0), cfreelist = 32,
             cfreecount = 90, cwaiting = False\<rparr>"

lemma store0_ok: "clq store0 clist_null [] [32, 64, 96]"
  by (simp add: clq_Nil free_ok_def blocks_ok_def store0_def CBSIZE_def)

lemma store0_empty: "contents store0 clist_null [] = []" "room clist_null [] [32, 64, 96] = 90"
  by (simp_all add: contents_def room_def)

definition store1 :: "clist \<times> cstore" where
  "store1 = snd (putc 5 clist_null store0)"

lemma store1_eq: "store1 = (\<lparr>c_cc = 1, c_cf = 34, c_cl = 35\<rparr>, (calloc 32 store0)\<lparr>cmem := (cmem store0)(34 := 5)\<rparr>)"
proof -
  have "cfreelist store0 = 32" by (simp add: store0_def)
  then show ?thesis by (simp add: store1_def putc_def c_info_def Let_def)
qed

lemma store1_ok: "clq (snd store1) (fst store1) [32] [64, 96]" "contents (snd store1) (fst store1) [32] = [5]"
  using puts_new[OF store0_ok refl, of 5] by (simp_all add: puts_def store1_eq store0_empty c_info_def)

text \<open>
  C18. A character list is a queue: through any sequence of \<^verbatim>\<open>putc\<close> and \<^verbatim>\<open>getc\<close> calls, the bytes taken out followed by the bytes
  left are the bytes that were in the list followed by the bytes accepted: none is lost, repeated or
  reordered, whatever block boundaries are crossed.
\<close>

theorem clist_is_fifo:
  assumes "clq s q bs fs"
  shows "\<exists>ys r. cl_rep (snd (snd (run_q cl_put cl_get ops (q, s)))) ys r \<and>
    contents s q bs @ fst (run_q cl_put cl_get ops (q, s)) = fst (snd (run_q cl_put cl_get ops (q, s))) @ ys"
proof -
  have "cl_rep (q, s) (contents s q bs) (room q bs fs)" using assms by (auto simp: cl_rep_def)
  then show ?thesis by (rule clists.run_fifo)
qed

theorem clist_is_fifo_witness:
  "\<exists>ys r. cl_rep (snd (snd (run_q cl_put cl_get [Put 7, Put 8, Get] (clist_null, store0)))) ys r \<and>
    contents store0 clist_null [] @ fst (run_q cl_put cl_get [Put 7, Put 8, Get] (clist_null, store0)) =
    fst (snd (run_q cl_put cl_get [Put 7, Put 8, Get] (clist_null, store0))) @ ys"
  by (rule clist_is_fifo[OF store0_ok])

text \<open>
  \<^verbatim>\<open>q_to_b\<close> is repeated \<^verbatim>\<open>getc\<close>: on a well-formed list it returns the same bytes and leaves the same list and
  the same store, links and free list included, as taking \<open>cc\<close> characters one by one; \<^verbatim>\<open>ndflush\<close> ends and
  leaves that same state.
\<close>

lemma q_to_b_is_getc:
  assumes "clq s q bs fs"
  shows "q_to_b q cc s = get_n (nat cc) q s \<and> (0 \<le> cc \<longrightarrow> ndflush q cc s = Some (snd (get_n (nat cc) q s)))"
  using q_to_b_get_n[OF assms] ndflush_get_n[OF assms] by simp

text \<open>
  C27. \<^verbatim>\<open>b_to_q\<close> is repeated \<^verbatim>\<open>putc\<close>, until one fails: same count of bytes left over, same list, same store.
\<close>

theorem b_to_q_is_putc:
  assumes "clq s q bs fs"
  shows "b_to_q cp q s = put_n cp q s"
  by (rule b_to_q_put_n[OF assms])

theorem b_to_q_is_putc_witness:
  "b_to_q [1, 2, 3] clist_null store0 = put_n [1, 2, 3] clist_null store0"
  by (rule b_to_q_is_putc[OF store0_ok])

text \<open>
  What is copied in comes out: if the bytes fit, \<^verbatim>\<open>b_to_q\<close> leaves none over, and reading as many as there are then
  yields the old contents followed by the new bytes and an empty list. \<^verbatim>\<open>b_to_q\<close> leaves over
  exactly what does not fit in the last block and the free blocks.
\<close>

lemma b_to_q_q_to_b:
  assumes c: "clq s q bs fs"
  shows "\<exists>q1 s1. b_to_q cp q s = (length cp - room q bs fs, q1, s1) \<and>
    (length cp \<le> room q bs fs \<longrightarrow> fst (q_to_b q1 (int (length (contents s q bs) + length cp)) s1) = contents s q bs @ cp \<and>
       c_cc (fst (snd (q_to_b q1 (int (length (contents s q bs) + length cp)) s1))) = 0)"
proof -
  obtain q1 s1 bs1 fs1 where p: "put_n cp q s = (length cp - room q bs fs, q1, s1)"
    "puts_n (take (room q bs fs) cp) s q bs fs s1 q1 bs1 fs1" using put_n_ok[OF c] by blast
  have c1: "clq s1 q1 bs1 fs1" and x1: "contents s1 q1 bs1 = contents s q bs @ take (room q bs fs) cp"
    using p(2) by (auto simp: puts_n_def)
  define n where "n = length (contents s q bs) + length cp"
  obtain q2 s2 bs2 fs2 where g: "get_n n q1 s1 = (take n (contents s1 q1 bs1), q2, s2)" "got n s1 q1 bs1 fs1 s2 q2 bs2 fs2"
    using get_n_ok[OF c1] by blast
  have "clq s2 q2 bs2 fs2" "contents s2 q2 bs2 = drop n (contents s1 q1 bs1)" using g(2) by (auto simp: got_def)
  then have "length cp \<le> room q bs fs \<Longrightarrow> c_cc q2 = 0" using c_cc_contents[of s2 q2 bs2 fs2] x1 by (simp add: n_def)
  moreover have "q_to_b q1 (int n) s1 = (take n (contents s1 q1 bs1), q2, s2)" using q_to_b_get_n[OF c1] g(1) by simp
  ultimately show ?thesis using p(1) b_to_q_put_n[OF c] x1 unfolding n_def[symmetric]
    by (intro exI[of _ q1] exI[of _ s1]) (simp add: n_def)
qed

text \<open>
  \<^verbatim>\<open>unputc\<close> takes back what \<^verbatim>\<open>putc\<close> put, crossing back over a block boundary too: it ends (its walk along the chain finds
  the block before the last), returns the character sign-extended, and the list is as
  before. \<^verbatim>\<open>getc\<close> in contrast returns characters as 0 to 255.
\<close>

lemma unputc_undoes_putc:
  assumes c: "clq s q bs fs" and r: "room q bs fs \<noteq> 0"
  shows "\<exists>q1 s1 q2 s2 bs' fs'. putc ch q s = (0, q1, s1) \<and> unputc q1 s1 = Some (sint ch, q2, s2) \<and> clq s2 q2 bs' fs' \<and>
    contents s2 q2 bs' = contents s q bs \<and> set bs' \<union> set fs' = set bs \<union> set fs"
proof -
  obtain q1 s1 bs1 fs1 where p: "putc ch q s = (0, q1, s1)" "puts ch s q bs fs s1 q1 bs1 fs1" by (rule putc_ok[OF c r])
  have c1: "clq s1 q1 bs1 fs1" and x1: "contents s1 q1 bs1 = contents s q bs @ [ch]" using p(2) by (auto simp: puts_def)
  have "bs1 \<noteq> []" using contents_Nil[OF c1] x1 by simp
  from unputc_ok[OF c1 this] obtain q2 s2 where u: "unputc q1 s1 = Some (sint ch, q2, s2)" "ungets s1 q1 bs1 fs1 s2 q2"
    using x1 by auto
  then show ?thesis using p x1 by (fastforce simp: ungets_def puts_def)
qed

text \<open>
  C31. \<^verbatim>\<open>catq\<close> ends and moves every character: the target has its own contents followed by those of the source, which is
  left empty. It needs no free block to start with: each round frees at least the blocks it needs.
\<close>

theorem catq_loses_nothing:
  assumes "clq s fr bs fs" "clq s to ts fs" "set bs \<inter> set ts = {}"
  shows "\<exists>to' s' ts' fs'. catq fr to s = Some (clist_null, to', s') \<and> clq s' to' ts' fs' \<and>
    contents s' to' ts' = contents s to ts @ contents s fr bs"
  by (rule catq_ok[OF assms])

theorem catq_loses_nothing_witness:
  "\<exists>to' s' ts' fs'. catq (fst store1) clist_null (snd store1) = Some (clist_null, to', s') \<and> clq s' to' ts' fs' \<and>
    contents s' to' ts' = [5]"
proof -
  have "clq (snd store1) clist_null [] [64, 96]" using store1_ok(1) by (simp add: clq_def queue_ok_def blocks_ok_def)
  from catq_loses_nothing[OF store1_ok(1) this] show ?thesis using store1_ok(2) by (simp add: contents_def)
qed

text \<open>
  \<^verbatim>\<open>nextc\<close>, started at \<^verbatim>\<open>c_cf\<close>, visits the addresses of the characters in order and answers NULL after the last one.
\<close>

lemma nextc_visits_all:
  assumes c: "clq s q bs fs" and i: "i < length (contents s q bs)"
  shows "addrs bs (c_cf q) (c_cl q) ! 0 = c_cf q \<and>
    lookc (addrs bs (c_cf q) (c_cl q) ! i) s = contents s q bs ! i \<and>
    nextc q (addrs bs (c_cf q) (c_cl q) ! i) s =
      (if Suc i < length (contents s q bs) then Some (addrs bs (c_cf q) (c_cl q) ! Suc i) else None)"
proof -
  let ?a = "addrs bs (c_cf q) (c_cl q)"
  have ne: "bs \<noteq> []" using i by (auto simp: contents_def)
  note e = clq_ends[OF c ne]
  have len: "length ?a = length (contents s q bs)" by (simp add: contents_def)
  have a: "?a \<noteq> []" "hd ?a = c_cf q" using addrs_ne[OF ne e(1)] by auto
  have q: "linked (c_next s) bs" "distinct bs" "\<forall>b\<in>set bs. b mod 32 = 0"
    using c by (auto simp: clq_def queue_ok_def blocks_ok_def)
  have "nextc q (?a ! i) s = (if Suc i < length ?a then Some (?a ! Suc i) else None)"
  proof (cases "Suc i < length ?a")
    case True
    then show ?thesis using addrs_nextc[OF q e(1), of i] e(3) by simp
  next
    case False
    then have "i = length ?a - 1" using i len by simp
    then have "?a ! i = c_cl q - 1" using addrs_last[OF ne e(1)] a(1) by (simp add: last_conv_nth)
    then show ?thesis using False nextc_last[OF c ne] by simp
  qed
  moreover have "?a ! 0 = c_cf q" using a by (metis hd_conv_nth)
  moreover have "lookc (?a ! i) s = contents s q bs ! i" using i by (simp add: contents_def lookc_def)
  ultimately show ?thesis unfolding len by blast
qed

text \<open>
  \<^verbatim>\<open>ndqb\<close> counts the characters at the front that lie in one block and have no bit of the flag set.
\<close>

lemma ndqb_counts_contiguous:
  assumes "clq s q bs fs"
  shows "ndqb q flag s = int (length (takeWhile (\<lambda>c. c AND flag = 0) (take (first_part q bs) (contents s q bs)))) \<and>
    (0 < ndqb q flag s \<longrightarrow> bcopy_out s (c_cf q) (nat (ndqb q flag s)) = take (nat (ndqb q flag s)) (contents s q bs))"
proof -
  let ?t = "takeWhile (\<lambda>c. c AND flag = 0) (take (first_part q bs) (contents s q bs))"
  have n: "ndqb q flag s = int (length ?t)" by (rule ndqb_ok[OF assms])
  have "length ?t \<le> first_part q bs" using length_takeWhile_le[of _ "take (first_part q bs) (contents s q bs)"] by (simp add: le_trans)
  moreover have "0 < length ?t \<Longrightarrow> bs \<noteq> []" by (auto simp: contents_def)
  ultimately show ?thesis using n bcopy_part[OF assms, of "length ?t"] by auto
qed

end
