(* ===== verification/Vm_Text.thy ===== *)
theory Vm_Text
  imports Rmap3
begin

text \<open>
  Shared text segments: \<^verbatim>\<open>sys/sys/vm_text.c\<close>, and on top of the resource maps of \<open>Rmap\<close> the whole of \<^verbatim>\<open>malloc\<close> and \<^verbatim>\<open>mfree\<close>
  of \<^verbatim>\<open>sys/sys/subr_rmap.c\<close> for core and swap space: the metering and the retry after unused text has been
  reclaimed. The free list, linked through \<^verbatim>\<open>x_forw\<close> and \<^verbatim>\<open>x_back\<close>, is a list of table indices, \<^verbatim>\<open>xhead\<close> first;
  a text is on it exactly when \<^verbatim>\<open>x_back\<close> is not NULL. Waiting for a locked text is the outcome \<open>Sleep\<close>. Transfers to and from the swap
  device are recorded in \<open>swaplog\<close>. The statistics \<^verbatim>\<open>xstats\<close>, wakeups and what \<^verbatim>\<open>irele\<close> does beyond
  dropping the count are left out.
\<close>

section \<open>State\<close>

record textent =
  x_daddr :: u16
  x_caddr :: u16
  x_size :: u16
  x_iptr :: "nat option"
  x_count :: u8
  x_ccount :: u8
  XTRC :: bool
  XWRIT :: bool
  XLOAD :: bool
  XLOCK :: bool
  XWANT :: bool
  XUNUSED :: bool

record vmem =
  texts :: "textent list"
  xfl :: "nat list"
  coremap :: rmap
  swapmap :: rmap
  freemem :: u16
  runin :: bool
  i_text :: "nat \<Rightarrow> nat option"
  i_nlink :: "nat \<Rightarrow> int"
  i_count :: "nat \<Rightarrow> int"
  i_dev :: "nat \<Rightarrow> int"
  ptextp :: "nat option"
  swaplog :: "(u16 \<times> u16 \<times> u16 \<times> bool) list"

text \<open>Clicks of 64 bytes, disk blocks of 512 bytes; the additions are those of the 16-bit \<^verbatim>\<open>unsigned\<close>.\<close>

definition ctod :: "u16 \<Rightarrow> u16" where
  "ctod x = drop_bit 3 (x + 7)"

definition btoc :: "u16 \<Rightarrow> u16" where
  "btoc x = drop_bit 6 (x + 63)"

definition upd_text :: "nat \<Rightarrow> (textent \<Rightarrow> textent) \<Rightarrow> vmem \<Rightarrow> vmem" where
  "upd_text i f s = s\<lparr>texts := (texts s)[i := f (texts s ! i)]\<rparr>"

definition X_LOCK :: "nat \<Rightarrow> vmem \<Rightarrow> vmem outcome" where
  "X_LOCK i s = (if XLOCK (texts s ! i) then Sleep i else Ok (upd_text i (\<lambda>t. t\<lparr>XLOCK := True\<rparr>) s))"

definition XUNLOCK :: "nat \<Rightarrow> vmem \<Rightarrow> vmem" where
  "XUNLOCK i s = upd_text i (\<lambda>t. t\<lparr>XLOCK := False, XWANT := False\<rparr>) s"

definition FREE_AT_HEAD :: "nat \<Rightarrow> vmem \<Rightarrow> vmem" where
  "FREE_AT_HEAD i s = s\<lparr>xfl := i # xfl s\<rparr>"

definition FREE_AT_TAIL :: "nat \<Rightarrow> vmem \<Rightarrow> vmem" where
  "FREE_AT_TAIL i s = s\<lparr>xfl := xfl s @ [i]\<rparr>"

definition ALLOC :: "nat \<Rightarrow> vmem \<Rightarrow> vmem" where
  "ALLOC i s = s\<lparr>xfl := remove1 i (xfl s)\<rparr>"

definition xinit :: "vmem \<Rightarrow> vmem" where
  "xinit s = fold FREE_AT_TAIL [0..<length (texts s)] (s\<lparr>xfl := []\<rparr>)"

section \<open>Giving space back\<close>

definition mfree_core :: "u16 \<Rightarrow> u16 \<Rightarrow> vmem \<Rightarrow> vmem outcome" where
  "mfree_core sz a s =
     (if sz = 0 then Ok s
      else if a = 0 then Panic ''mfree: addr = 0''
      else omap (\<lambda>r. s\<lparr>coremap := snd r, runin := False, freemem := freemem s + sz\<rparr>) (rmfree (coremap s) sz a))"

definition mfree_swap :: "u16 \<Rightarrow> u16 \<Rightarrow> vmem \<Rightarrow> vmem outcome" where
  "mfree_swap sz a s = omap (\<lambda>r. s\<lparr>swapmap := snd r\<rparr>) (rmfree (swapmap s) sz a)"

text \<open>\<^verbatim>\<open>xuntext\<close> between taking and giving up the lock, for a text nobody uses.\<close>

definition xdetach :: "nat \<Rightarrow> vmem \<Rightarrow> vmem outcome" where
  "xdetach i s =
     (let t = texts s ! i in
      obind (mfree_swap (ctod (x_size t)) (x_daddr t) (upd_text i (\<lambda>t. t\<lparr>x_iptr := None\<rparr>) s)) (\<lambda>s2.
      obind (if x_caddr t \<noteq> 0 then mfree_core (x_size t) (x_caddr t) s2 else Ok s2) (\<lambda>s3.
      case x_iptr t of
        None \<Rightarrow> Fault
      | Some ip \<Rightarrow> Ok (s3\<lparr>i_text := (i_text s3)(ip := None), i_count := (i_count s3)(ip := i_count s3 ip - 1)\<rparr>))))"

definition xuntext :: "nat \<Rightarrow> vmem \<Rightarrow> vmem outcome" where
  "xuntext i s =
     obind (X_LOCK i s) (\<lambda>s1.
     obind (if x_count (texts s1 ! i) = 0 then xdetach i s1 else Ok s1) (\<lambda>s2.
     Ok (XUNLOCK i s2)))"

text \<open>\<open>dev\<close> is \<open>None\<close> for \<^verbatim>\<open>NODEV\<close>.\<close>

fun xumount_loop :: "int option \<Rightarrow> nat list \<Rightarrow> vmem \<Rightarrow> vmem outcome" where
  "xumount_loop dev [] s = Ok s"
| "xumount_loop dev (i # is) s =
     obind (case x_iptr (texts s ! i) of
              None \<Rightarrow> Ok s
            | Some ip \<Rightarrow> if dev = Some (i_dev s ip) \<or> dev = None then xuntext i s else Ok s)
       (xumount_loop dev is)"

definition xumount :: "int option \<Rightarrow> vmem \<Rightarrow> vmem outcome" where
  "xumount dev s = xumount_loop dev [0..<length (texts s)] s"

text \<open>Writing a text to swap if that has not been done, and giving its core back (in \<^verbatim>\<open>xccdec\<close> and \<^verbatim>\<open>xuncore\<close>).\<close>

definition xfreecore :: "nat \<Rightarrow> vmem \<Rightarrow> vmem outcome" where
  "xfreecore i s =
     (let t = texts s ! i;
          s1 = (if XWRIT t
                then (upd_text i (\<lambda>t. t\<lparr>XWRIT := False\<rparr>) s)\<lparr>swaplog := swaplog s @ [(x_daddr t, x_caddr t, x_size t, True)]\<rparr>
                else s)
      in omap (upd_text i (\<lambda>t. t\<lparr>x_caddr := 0\<rparr>)) (mfree_core (x_size t) (x_caddr t) s1))"

definition xccdec :: "nat \<Rightarrow> vmem \<Rightarrow> vmem outcome" where
  "xccdec i s =
     (if x_ccount (texts s ! i) = 0 then Ok s
      else obind (X_LOCK i s) (\<lambda>s1.
        let s2 = upd_text i (\<lambda>t. t\<lparr>x_ccount := x_ccount t - 1\<rparr>) s1
        in obind (if x_ccount (texts s2 ! i) = 0 then xfreecore i s2 else Ok s2) (\<lambda>s3. Ok (XUNLOCK i s3))))"

fun xuncore_loop :: "u16 \<Rightarrow> nat list \<Rightarrow> vmem \<Rightarrow> vmem outcome" where
  "xuncore_loop sz [] s = Ok s"
| "xuncore_loop sz (i # is) s =
     (if x_iptr (texts s ! i) = None then xuncore_loop sz is s
      else obind (X_LOCK i s) (\<lambda>s1.
        if x_ccount (texts s1 ! i) = 0 \<and> x_caddr (texts s1 ! i) \<noteq> 0
        then obind (xfreecore i s1) (\<lambda>s2.
               if x_size (texts s2 ! i) \<ge> sz then Ok (XUNLOCK i s2) else xuncore_loop sz is (XUNLOCK i s2))
        else xuncore_loop sz is (XUNLOCK i s1)))"

definition xuncore :: "u16 \<Rightarrow> vmem \<Rightarrow> vmem outcome" where
  "xuncore sz s = xuncore_loop sz (xfl s) s"

section \<open>malloc\<close>

definition malloc_core1 :: "u16 \<Rightarrow> vmem \<Rightarrow> (u16 \<times> vmem) outcome" where
  "malloc_core1 sz s =
     omap (\<lambda>r. (fst r, if fst r = 0 then s else s\<lparr>coremap := snd r, freemem := freemem s - sz\<rparr>)) (rmalloc (coremap s) sz)"

definition malloc_core :: "u16 \<Rightarrow> vmem \<Rightarrow> (u16 \<times> vmem) outcome" where
  "malloc_core sz s =
     obind (malloc_core1 sz s) (\<lambda>r.
       if fst r \<noteq> 0 then Ok r else obind (xuncore sz s) (malloc_core1 sz))"

definition malloc_swap1 :: "u16 \<Rightarrow> vmem \<Rightarrow> (u16 \<times> vmem) outcome" where
  "malloc_swap1 sz s = omap (\<lambda>r. (fst r, s\<lparr>swapmap := snd r\<rparr>)) (rmalloc (swapmap s) sz)"

definition malloc_swap :: "u16 \<Rightarrow> vmem \<Rightarrow> (u16 \<times> vmem) outcome" where
  "malloc_swap sz s =
     obind (malloc_swap1 sz s) (\<lambda>r.
       if fst r \<noteq> 0 then Ok r else obind (xumount None s) (malloc_swap1 sz))"

section \<open>Attaching and detaching\<close>

text \<open>
  \<^verbatim>\<open>xexpand\<close>: \<open>True\<close> when the text has core; otherwise the process swaps itself out (the part of
  \<^verbatim>\<open>swapout\<close> is not modelled) and goes on when it is back.
\<close>

definition xexpand :: "nat \<Rightarrow> vmem \<Rightarrow> (bool \<times> vmem) outcome" where
  "xexpand i s =
     obind (malloc_core (x_size (texts s ! i)) s) (\<lambda>r.
       let s1 = upd_text i (\<lambda>t. t\<lparr>x_caddr := fst r\<rparr>) (snd r); t = texts s1 ! i in
       if fst r \<noteq> 0
       then let s2 = (if \<not> XLOAD t then s1\<lparr>swaplog := swaplog s1 @ [(x_daddr t, x_caddr t, x_size t, False)]\<rparr> else s1)
            in Ok (True, XUNLOCK i (upd_text i (\<lambda>t. t\<lparr>x_ccount := x_ccount t + 1\<rparr>) s2))
       else Ok (False, XUNLOCK i s1))"

datatype xres = Xnone | Xattached | Xswapped | Xkilled

definition xalloc_old :: "nat \<Rightarrow> vmem \<Rightarrow> (xres \<times> vmem) outcome" where
  "xalloc_old i s =
     obind (X_LOCK i s) (\<lambda>s1.
       let s2 = (if i \<in> set (xfl s1) then upd_text i (\<lambda>t. t\<lparr>XUNUSED := False\<rparr>) (ALLOC i s1) else s1);
           s3 = (upd_text i (\<lambda>t. t\<lparr>x_count := x_count t + 1\<rparr>) s2)\<lparr>ptextp := Some i\<rparr>
       in if x_caddr (texts s3 ! i) = 0 \<and> x_ccount (texts s3 ! i) = 0
          then obind (xexpand i s3) (\<lambda>r. Ok (if fst r then (Xattached, XUNLOCK i (snd r)) else (Xswapped, snd r)))
          else Ok (Xattached, XUNLOCK i (upd_text i (\<lambda>t. t\<lparr>x_ccount := x_ccount t + 1\<rparr>) s3)))"

definition xalloc_new :: "nat \<Rightarrow> u16 \<Rightarrow> vmem \<Rightarrow> (xres \<times> vmem) outcome" where
  "xalloc_new ip sz s =
     (case xfl s of
        [] \<Rightarrow> Ok (Xkilled, s)
      | i # _ \<Rightarrow>
          let s1 = ALLOC i s in
          obind (if x_iptr (texts s1 ! i) \<noteq> None then xuntext i s1 else Ok s1) (\<lambda>s2.
          let s3 = upd_text i (\<lambda>t. t\<lparr>XTRC := False, XWRIT := False, XLOAD := True, XLOCK := True, XWANT := False, XUNUSED := False,
                                     x_size := sz\<rparr>) s2 in
          obind (malloc_swap (ctod sz) s3) (\<lambda>r.
          let s4 = upd_text i (\<lambda>t. t\<lparr>x_daddr := fst r\<rparr>) (snd r) in
          if fst r = 0 then Ok (Xkilled, s4)
          else let s5 = (upd_text i (\<lambda>t. t\<lparr>x_count := 1, x_ccount := 0, x_iptr := Some ip\<rparr>) s4)
                          \<lparr>i_text := (i_text s4)(ip := Some i), i_count := (i_count s4)(ip := i_count s4 ip + 1), ptextp := Some i\<rparr>
               in obind (xexpand i s5) (\<lambda>q.
                    Ok (if fst q then (Xattached, upd_text i (\<lambda>t. t\<lparr>XWRIT := True, XLOAD := False\<rparr>) (snd q))
                        else (Xswapped, snd q))))))"

text \<open>\<open>ov\<close> is the size of an overlaid text, \<open>None\<close> without overlays.\<close>

definition xalloc :: "nat \<Rightarrow> u16 \<Rightarrow> u16 option \<Rightarrow> vmem \<Rightarrow> (xres \<times> vmem) outcome" where
  "xalloc ip a_text ov s =
     (if a_text = 0 then Ok (Xnone, s)
      else case i_text s ip of
             Some i \<Rightarrow> xalloc_old i s
           | None \<Rightarrow> xalloc_new ip (case ov of None \<Rightarrow> btoc a_text | Some n \<Rightarrow> n) s)"

definition xfree :: "vmem \<Rightarrow> vmem outcome" where
  "xfree s =
     (case ptextp s of
        None \<Rightarrow> Ok s
      | Some i \<Rightarrow>
          obind (X_LOCK i s) (\<lambda>s1.
          let s2 = upd_text i (\<lambda>t. t\<lparr>x_count := x_count t - 1\<rparr>) s1; t = texts s2 ! i in
          obind (if x_count t = 0
                 then (case x_iptr t of
                         None \<Rightarrow> Fault
                       | Some ip \<Rightarrow>
                           if XTRC t \<or> i_nlink s2 ip = 0
                           then omap (FREE_AT_HEAD i) (xuntext i (upd_text i (\<lambda>t. t\<lparr>XLOCK := False\<rparr>) s2))
                           else Ok (FREE_AT_TAIL i (upd_text i (\<lambda>t. t\<lparr>XUNUSED := (XUNUSED t \<or> XWRIT t), x_ccount := x_ccount t - 1\<rparr>) s2)))
                 else Ok (upd_text i (\<lambda>t. t\<lparr>x_ccount := x_ccount t - 1\<rparr>) s2)) (\<lambda>s3.
          Ok ((XUNLOCK i s3)\<lparr>ptextp := None\<rparr>))))"

end
