(* ===== verification/Vm_Props.thy ===== *)
theory Vm_Props
  imports Vm_Text
begin

text \<open>
  The text table and the space it holds. \<open>vm_ok\<close> ties the table to the inodes, to the free list and to the
  resource maps: the core and swap extents of the attached texts, together with those others hold (\<open>Hc\<close>, \<open>Hs\<close>), are
  disjoint from each other and from what is free. The operations keep it.
\<close>

section \<open>Held extents as a multiset\<close>

lemma held_ok_front:
  assumes "e \<in> set held"
  shows "held_ok free held \<longleftrightarrow> held_ok free (e # remove1 e held)"
proof -
  from split_list_first[OF assms] obtain l r where held: "held = l @ e # r" "e \<notin> set l" by blast
  then have rm: "remove1 e held = l @ r" by (simp add: remove1_append)
  have "held_ok free (l @ e # r) \<longleftrightarrow> held_ok free (e # l @ r)" 
    by (simp add: held_ok_def sorted_wrt_append ball_Un ball_conj_distrib Int_commute[of _ "extent e"]) blast
  then show ?thesis using held(1) rm by simp
qed

lemma held_ok_perm: "mset xs = mset ys \<Longrightarrow> held_ok free xs \<longleftrightarrow> held_ok free ys"
proof (induction xs arbitrary: ys)
  case (Cons x xs)
  have x: "x \<in> set ys" using Cons.prems by (metis list.set_intros(1) mset_eq_setD)
  have "mset xs = mset (remove1 x ys)" using Cons.prems by (metis add_mset_remove_trivial mset.simps(2) mset_remove1)
  then have "held_ok free xs \<longleftrightarrow> held_ok free (remove1 x ys)" "set xs = set (remove1 x ys)"
    using Cons.IH by (blast, metis mset_eq_setD)
  then have "held_ok free (x # xs) \<longleftrightarrow> held_ok free (x # remove1 x ys)" by (auto simp: held_ok_def)
  then show ?case using held_ok_front[OF x] by simp
qed simp

lemma held_ok_Cons: "held_ok free (e # held) \<Longrightarrow> held_ok free held"
  by (simp add: held_ok_def)

lemma mset_concat_update:
  "i < length xs \<Longrightarrow> mset (concat (map f (xs[i := y]))) + mset (f (xs ! i)) = mset (concat (map f xs)) + mset (f y)"
proof (induction xs arbitrary: i)
  case (Cons x xs)
  show ?case
  proof (cases i)
    case (Suc j) then show ?thesis using Cons.IH[of j] Cons.prems by simp
  qed simp
qed simp

section \<open>The maps with what is held\<close>

definition map_ok :: "rmap \<Rightarrow> (u16 \<times> u16) list \<Rightarrow> bool" where
  "map_ok m H \<longleftrightarrow> rmap_ok m \<and> held_ok (free_units m) H"

lemma map_ok_perm: "map_ok m xs \<Longrightarrow> mset xs = mset ys \<Longrightarrow> map_ok m ys"
  unfolding map_ok_def using held_ok_perm by blast

lemma map_ok_size: "map_ok m ((a, sz) # H) \<Longrightarrow> sz \<noteq> 0 \<and> a \<noteq> 0"
  by (simp add: map_ok_def held_ok_def)

lemma map_release:
  assumes "map_ok m ((a, sz) # H)"
  obtains b m' where "rmfree m sz a = Ok (b, m')" "map_ok m' H"
proof -
  have ok: "rmap_ok m" "held_ok (free_units m) ((a, sz) # H)" using assms by (auto simp: map_ok_def)
  have e: "a \<noteq> 0" "sz \<noteq> 0" "unat a + unat sz \<le> 65536" "extent (a, sz) \<inter> free_units m = {}"
    using held_facts[OF ok(2)] by auto
  from rm.release_ok[OF ok(1) e(2,1,3,4)] obtain b m' where
    r: "rmfree m sz a = Ok (b, m')" "rmap_ok m'" "free_units m' = (if b then free_units m \<union> extent (a, sz) else free_units m)" by blast
  have "held_ok (free_units m') H" using held_ok_remove1[OF ok(2), of "(a, sz)"] r(3) by auto
  then show thesis using that r by (simp add: map_ok_def)
qed

lemma map_alloc:
  assumes "map_ok m H" "sz \<noteq> 0"
  obtains a m' where "rmalloc m sz = Ok (a, m')" "a = 0 \<Longrightarrow> m' = m" "a \<noteq> 0 \<Longrightarrow> map_ok m' ((a, sz) # H)"
proof -
  have ok: "rmap_ok m" "held_ok (free_units m) H" using assms by (auto simp: map_ok_def)
  from rm.alloc_ok[OF ok(1) assms(2)] obtain a m' where r: "rmalloc m sz = Ok (a, m')" "rmap_ok m'"
    "if a = 0 then m' = m else extent (a, sz) \<subseteq> free_units m \<and> free_units m' = free_units m - extent (a, sz)" by blast
  have "map_ok m' ((a, sz) # H)" if "a \<noteq> 0"
  proof -
    have "unat a + unat sz \<le> 65536" using rm.extent_bound[OF ok(1)] r(3) that assms(2) by auto
    then show ?thesis using ok r that assms(2) by (auto simp: map_ok_def held_ok_def)
  qed
  then show thesis using that[OF r(1)] r(3) by (auto split: if_splits)
qed

section \<open>The invariant\<close>

definition cext :: "textent \<Rightarrow> (u16 \<times> u16) list" where
  "cext t = (if x_iptr t \<noteq> None \<and> x_caddr t \<noteq> 0 then [(x_caddr t, x_size t)] else [])"

definition sext :: "textent \<Rightarrow> (u16 \<times> u16) list" where
  "sext t = (if x_iptr t \<noteq> None then [(x_daddr t, ctod (x_size t))] else [])"

definition space_ok :: "(u16 \<times> u16) list \<Rightarrow> (u16 \<times> u16) list \<Rightarrow> vmem \<Rightarrow> bool" where
  "space_ok Hc Hs s \<longleftrightarrow> map_ok (coremap s) (concat (map cext (texts s)) @ Hc) \<and>
     map_ok (swapmap s) (concat (map sext (texts s)) @ Hs)"

text \<open>
  \<open>N i\<close> is the number of processes attached to text \<open>i\<close>; the texts in \<open>X\<close> may be missing from the free list (they are being
  worked on).
\<close>

definition elem_ok :: "nat list \<Rightarrow> (nat \<Rightarrow> nat option) \<Rightarrow> (nat \<Rightarrow> nat) \<Rightarrow> nat set \<Rightarrow> nat \<Rightarrow> textent \<Rightarrow> bool" where
  "elem_ok fl it N X i t \<longleftrightarrow> unat (x_count t) = N i \<and> (\<forall>ip. x_iptr t = Some ip \<longleftrightarrow> it ip = Some i) \<and>
     (x_count t \<noteq> 0 \<longrightarrow> x_iptr t \<noteq> None) \<and> (x_iptr t \<noteq> None \<and> x_count t = 0 \<and> i \<notin> X \<longrightarrow> i \<in> set fl) \<and>
     (i \<in> set fl \<longrightarrow> x_count t = 0) \<and> (x_iptr t \<noteq> None \<and> x_ccount t \<noteq> 0 \<longrightarrow> x_caddr t \<noteq> 0)"

definition table_ok :: "(nat \<Rightarrow> nat) \<Rightarrow> nat set \<Rightarrow> vmem \<Rightarrow> bool" where
  "table_ok N X s \<longleftrightarrow> distinct (xfl s) \<and> (\<forall>i\<in>set (xfl s). i < length (texts s)) \<and>
     (\<forall>ip i. i_text s ip = Some i \<longrightarrow> i < length (texts s)) \<and> (\<forall>i. N i \<noteq> 0 \<longrightarrow> i < length (texts s)) \<and>
     (\<forall>i<length (texts s). elem_ok (xfl s) (i_text s) N X i (texts s ! i))"

definition vm_ok :: "(nat \<Rightarrow> nat) \<Rightarrow> nat set \<Rightarrow> (u16 \<times> u16) list \<Rightarrow> (u16 \<times> u16) list \<Rightarrow> vmem \<Rightarrow> bool" where
  "vm_ok N X Hc Hs s \<longleftrightarrow> space_ok Hc Hs s \<and> table_ok N X s"

lemma upd_text_sel [simp]:
  "xfl (upd_text i f s) = xfl s" "coremap (upd_text i f s) = coremap s" "swapmap (upd_text i f s) = swapmap s"
  "i_text (upd_text i f s) = i_text s" "i_nlink (upd_text i f s) = i_nlink s" "ptextp (upd_text i f s) = ptextp s"
  "length (texts (upd_text i f s)) = length (texts s)" "freemem (upd_text i f s) = freemem s" "i_dev (upd_text i f s) = i_dev s"
  by (simp_all add: upd_text_def)

lemma texts_upd: "i < length (texts s) \<Longrightarrow> texts (upd_text i f s) ! j = (if j = i then f (texts s ! i) else texts s ! j)"
  by (simp add: upd_text_def nth_list_update)

text \<open>Changing a text's extents: the new ones replace the old in what is held.\<close>

lemma space_split:
  assumes i: "i < length (texts s)"
  obtains C S where "\<And>s' t. texts s' = (texts s)[i := t] \<Longrightarrow>
      space_ok Hc Hs s' \<longleftrightarrow> map_ok (coremap s') (cext t @ C) \<and> map_ok (swapmap s') (sext t @ S)"
    "mset (concat (map cext (texts s)) @ Hc) = mset (cext (texts s ! i) @ C)"
    "mset (concat (map sext (texts s)) @ Hs) = mset (sext (texts s ! i) @ S)"
proof -
  obtain l t0 r where xs: "texts s = l @ t0 # r" "length l = i" using i by (metis id_take_nth_drop length_take min.absorb4)
  let ?C = "concat (map cext (l @ r)) @ Hc" and ?S = "concat (map sext (l @ r)) @ Hs"
  have perm: "mset (concat (map cext xs) @ Hc) = mset (cext t @ ?C)" "mset (concat (map sext xs) @ Hs) = mset (sext t @ ?S)"
    if "xs = l @ t # r" for xs t using that by (simp_all add: ac_simps)
  have "space_ok Hc Hs s' \<longleftrightarrow> map_ok (coremap s') (cext t @ ?C) \<and> map_ok (swapmap s') (sext t @ ?S)"
    if "texts s' = (texts s)[i := t]" for s' t
  proof -
    have "texts s' = l @ t # r" using that xs(1) unfolding xs(2)[symmetric] by simp
    from perm[OF this] show ?thesis unfolding space_ok_def by (metis map_ok_perm)
  qed
  moreover have "texts s ! i = t0" using xs by (metis nth_append_length)
  ultimately show thesis using that[of ?C ?S] perm[OF xs(1)] by blast
qed

section \<open>Locks and flags\<close>

text \<open>What the invariant looks at.\<close>

definition shape :: "textent \<Rightarrow> u16 \<times> u16 \<times> u16 \<times> nat option \<times> u8 \<times> u8" where
  "shape t = (x_daddr t, x_caddr t, x_size t, x_iptr t, x_count t, x_ccount t)"

definition vshape where
  "vshape s = (map shape (texts s), xfl s, coremap s, swapmap s, i_text s)"

lemma cext_shape: "cext = (\<lambda>(d, c, z, ip, n, k). if ip \<noteq> None \<and> c \<noteq> 0 then [(c, z)] else []) \<circ> shape"
  by (rule ext) (simp add: cext_def shape_def)

lemma sext_shape: "sext = (\<lambda>(d, c, z, ip, n, k). if ip \<noteq> None then [(d, ctod z)] else []) \<circ> shape"
  by (rule ext) (simp add: sext_def shape_def)

lemma vm_ok_cong:
  assumes "vshape s' = vshape s"
  shows "vm_ok N X Hc Hs s' \<longleftrightarrow> vm_ok N X Hc Hs s"
proof -
  have m: "map shape (texts s') = map shape (texts s)" using assms by (simp add: vshape_def)
  have len: "length (texts s') = length (texts s)" using map_eq_imp_length_eq[OF m] .
  have e: "shape t = shape u \<Longrightarrow> cext t = cext u \<and> sext t = sext u \<and> elem_ok fl it N X i t = elem_ok fl it N X i u" for t u fl it i
    by (simp add: shape_def cext_def sext_def elem_ok_def)
  have nth: "j < length (texts s) \<Longrightarrow> shape (texts s' ! j) = shape (texts s ! j)" for j
    using arg_cong[OF m, of "\<lambda>xs. xs ! j"] len by simp
  have c: "map cext (texts s') = map cext (texts s)" "map sext (texts s') = map sext (texts s)"
    unfolding cext_shape sext_shape map_map[symmetric] m by (rule refl)+
  have "\<forall>i<length (texts s). elem_ok (xfl s) (i_text s) N X i (texts s' ! i) = elem_ok (xfl s) (i_text s) N X i (texts s ! i)"
    using e nth by blast
  then show ?thesis using assms len c by (simp add: vm_ok_def space_ok_def table_ok_def vshape_def)
qed

lemma vshape_upd: "(\<And>t. shape (f t) = shape t) \<Longrightarrow> vshape (upd_text i f s) = vshape s"
  by (simp add: vshape_def upd_text_def map_update list_update_same_conv) (metis list_update_beyond list_update_id length_map linorder_not_le nth_map)

lemma vshape_XUNLOCK [simp]: "vshape (XUNLOCK i s) = vshape s"
  unfolding XUNLOCK_def by (rule vshape_upd) (simp add: shape_def)

section \<open>Safe outcomes\<close>

text \<open>A routine is safe for \<open>P\<close> when it returns with \<open>P\<close> or sleeps; it does not panic or fault.\<close>

definition safe :: "'a outcome \<Rightarrow> ('a \<Rightarrow> bool) \<Rightarrow> bool" where
  "safe m P \<longleftrightarrow> (case m of Ok x \<Rightarrow> P x | Sleep c \<Rightarrow> True | _ \<Rightarrow> False)"

lemma safe_simps [simp]: "safe (Ok x) P = P x" "safe (Sleep c) P" "\<not> safe (Panic msg) P" "\<not> safe Fault P"
  by (simp_all add: safe_def)

lemma safe_obind: "safe m (\<lambda>x. safe (f x) P) \<Longrightarrow> safe (obind m f) P"
  by (cases m) auto

lemma safe_omap: "safe m (\<lambda>x. P (f x)) \<Longrightarrow> safe (omap f m) P"
  by (cases m) auto

lemma safe_mono: "safe m P \<Longrightarrow> (\<And>x. P x \<Longrightarrow> Q x) \<Longrightarrow> safe m Q"
  by (cases m) auto

lemma safe_OkD: "safe m P \<Longrightarrow> m = Ok x \<Longrightarrow> P x"
  by simp

lemma mfree_core_safe:
  assumes "map_ok (coremap s) ((a, sz) # H)"
  shows "safe (mfree_core sz a s) (\<lambda>s'. \<exists>m fm. s' = s\<lparr>coremap := m, runin := False, freemem := fm\<rparr> \<and> map_ok m H)"
proof -
  obtain b m' where r: "rmfree (coremap s) sz a = Ok (b, m')" "map_ok m' H" using map_release[OF assms] by blast
  have "sz \<noteq> 0" "a \<noteq> 0" using map_ok_size[OF assms] by auto
  then show ?thesis using r by (auto simp: mfree_core_def)
qed

lemma mfree_swap_safe:
  assumes "map_ok (swapmap s) ((a, sz) # H)"
  shows "safe (mfree_swap sz a s) (\<lambda>s'. \<exists>m. s' = s\<lparr>swapmap := m\<rparr> \<and> map_ok m H)"
proof -
  obtain b m' where r: "rmfree (swapmap s) sz a = Ok (b, m')" "map_ok m' H" using map_release[OF assms] by blast
  then show ?thesis by (auto simp: mfree_swap_def)
qed

section \<open>Removing a text\<close>

text \<open>\<open>vframe i s s'\<close>: only text \<open>i\<close> and the space differ.\<close>

definition vframe :: "nat \<Rightarrow> vmem \<Rightarrow> vmem \<Rightarrow> bool" where
  "vframe i s s' \<longleftrightarrow> length (texts s') = length (texts s) \<and> xfl s' = xfl s \<and> ptextp s' = ptextp s \<and>
     i_nlink s' = i_nlink s \<and> i_dev s' = i_dev s \<and> (\<forall>j. j \<noteq> i \<longrightarrow> texts s' ! j = texts s ! j)"

lemma X_LOCK_Ok: "X_LOCK i s = Ok s1 \<Longrightarrow> s1 = upd_text i (\<lambda>t. t\<lparr>XLOCK := True\<rparr>) s"
  by (simp add: X_LOCK_def split: if_splits)

lemma safe_X_LOCK: "P (upd_text i (\<lambda>t. t\<lparr>XLOCK := True\<rparr>) s) \<Longrightarrow> safe (X_LOCK i s) P"
  by (simp add: X_LOCK_def)

lemma elem_ok_cong:
  "(\<And>ip. it' ip = Some i \<longleftrightarrow> it ip = Some i) \<Longrightarrow> (i \<in> set fl' \<longleftrightarrow> i \<in> set fl) \<Longrightarrow> elem_ok fl' it' N X i t = elem_ok fl it N X i t"
  by (simp add: elem_ok_def)

lemma table_detach:
  assumes ok: "table_ok N X s" and i: "i < length (texts s)" and c: "x_count (texts s ! i) = 0" and ip: "x_iptr (texts s ! i) = Some ip"
    and s': "texts s' = (texts s)[i := t]" "x_iptr t = None" "x_count t = 0" "xfl s' = xfl s" "i_text s' = (i_text s)(ip := None)"
  shows "table_ok N X s'"
proof -
  have el: "\<forall>j<length (texts s). elem_ok (xfl s) (i_text s) N X j (texts s ! j)" using ok by (simp add: table_ok_def)
  have iti: "i_text s ip = Some i" "\<And>ip'. i_text s ip' = Some i \<Longrightarrow> ip' = ip" using el[rule_format, OF i] ip by (auto simp: elem_ok_def)
  have "elem_ok (xfl s') (i_text s') N X j (texts s' ! j)" if j: "j < length (texts s)" for j
  proof (cases "j = i")
    case True
    have no: "i_text s' ip' \<noteq> Some i" for ip' using s'(5) iti(2) by auto
    have "texts s' ! j = t" using s'(1) i True by simp
    then show ?thesis using el[rule_format, OF i] s'(2-4) c True unfolding elem_ok_def by (simp add: no)
  next
    case False
    then have "texts s' ! j = texts s ! j" using s'(1) by simp
    moreover have "i_text s' ip' = Some j \<longleftrightarrow> i_text s ip' = Some j" for ip' using s'(5) iti(1) False by auto
    ultimately show ?thesis
      using el[rule_format, OF j] s'(4) elem_ok_cong[of "i_text s'" j "i_text s" "xfl s'" "xfl s"] by simp
  qed
  then show ?thesis using ok s' by (auto simp: table_ok_def)
qed

lemma xdetach_safe:
  assumes ok: "vm_ok N X Hc Hs s" and i: "i < length (texts s)" and ip: "x_iptr (texts s ! i) = Some ip" and c: "x_count (texts s ! i) = 0"
  shows "safe (xdetach i s) (\<lambda>s'. vm_ok N X Hc Hs s' \<and> texts s' = (texts s)[i := (texts s ! i)\<lparr>x_iptr := None\<rparr>] \<and>
    i_text s' = (i_text s)(ip := None) \<and> xfl s' = xfl s \<and> ptextp s' = ptextp s \<and> i_nlink s' = i_nlink s \<and> i_dev s' = i_dev s)"
proof -
  let ?t = "texts s ! i" and ?s2 = "upd_text i (\<lambda>t. t\<lparr>x_iptr := None\<rparr>) s"
  obtain C S where sp: "\<And>s' t. texts s' = (texts s)[i := t] \<Longrightarrow>
    space_ok Hc Hs s' \<longleftrightarrow> map_ok (coremap s') (cext t @ C) \<and> map_ok (swapmap s') (sext t @ S)" using space_split[OF i, of Hc Hs] by metis
  have "texts s = (texts s)[i := ?t]" by (metis list_update_id)
  from sp[OF this] ok have m: "map_ok (coremap s) (cext ?t @ C)" "map_ok (swapmap s) ((x_daddr ?t, ctod (x_size ?t)) # S)"
    using ip by (auto simp: vm_ok_def sext_def)
  have tx: "texts ?s2 = (texts s)[i := ?t\<lparr>x_iptr := None\<rparr>]" by (simp add: upd_text_def)
  have fin: "vm_ok N X Hc Hs s'" if s': "texts s' = texts ?s2" "xfl s' = xfl s" "i_text s' = (i_text s)(ip := None)"
    "map_ok (coremap s') C" "map_ok (swapmap s') S" for s'
  proof -
    have "space_ok Hc Hs s'" using sp[OF s'(1)[unfolded tx]] s'(4,5) by (simp add: cext_def sext_def)
    moreover have "table_ok N X s'"
      by (rule table_detach[OF _ i c ip s'(1)[unfolded tx] _ _ s'(2,3)]) (use ok c in \<open>simp_all add: vm_ok_def\<close>)
    ultimately show ?thesis by (simp add: vm_ok_def)
  qed
  have core: "safe (if x_caddr ?t \<noteq> 0 then mfree_core (x_size ?t) (x_caddr ?t) s3 else Ok s3)
      (\<lambda>s4. \<exists>m r fm. s4 = s3\<lparr>coremap := m, runin := r, freemem := fm\<rparr> \<and> map_ok m C)" if s3: "coremap s3 = coremap s" for s3
  proof (cases "x_caddr ?t = 0")
    case True
    have "s3 = s3\<lparr>coremap := coremap s3, runin := runin s3, freemem := freemem s3\<rparr>" by simp
    moreover have "map_ok (coremap s3) C" using m(1) True s3 by (simp add: cext_def)
    ultimately have "\<exists>m r fm. s3 = s3\<lparr>coremap := m, runin := r, freemem := fm\<rparr> \<and> map_ok m C" by blast
    then show ?thesis using True by simp
  next
    case False
    then have "map_ok (coremap s3) ((x_caddr ?t, x_size ?t) # C)" using m(1) ip s3 by (simp add: cext_def)
    from mfree_core_safe[OF this] show ?thesis using False by (auto elim!: safe_mono)
  qed
  have "map_ok (swapmap ?s2) ((x_daddr ?t, ctod (x_size ?t)) # S)" using m(2) by simp
  note sw = mfree_swap_safe[OF this]
  show ?thesis unfolding xdetach_def Let_def ip option.case
  proof (intro safe_obind safe_mono[OF sw], elim exE conjE, intro safe_mono[OF core])
    fix s3 ms assume a: "s3 = ?s2\<lparr>swapmap := ms\<rparr>" "map_ok ms S"
    show "coremap s3 = coremap s" using a by simp
    fix s4 assume "\<exists>m r fm. s4 = s3\<lparr>coremap := m, runin := r, freemem := fm\<rparr> \<and> map_ok m C"
    then obtain mc r fm where b: "s4 = s3\<lparr>coremap := mc, runin := r, freemem := fm\<rparr>" "map_ok mc C" by blast
    let ?s' = "s4\<lparr>i_text := (i_text s4)(ip := None), i_count := (i_count s4)(ip := i_count s4 ip - 1)\<rparr>"
    have "vm_ok N X Hc Hs ?s'" by (rule fin) (use a b in simp_all)
    moreover have "texts ?s' = texts ?s2" "xfl ?s' = xfl s" "i_text ?s' = (i_text s)(ip := None)" "ptextp ?s' = ptextp s"
      "i_nlink ?s' = i_nlink s" "i_dev ?s' = i_dev s" using a b by simp_all
    ultimately show "safe (Ok ?s') (\<lambda>s'. vm_ok N X Hc Hs s' \<and> texts s' = (texts s)[i := ?t\<lparr>x_iptr := None\<rparr>] \<and>
      i_text s' = (i_text s)(ip := None) \<and> xfl s' = xfl s \<and> ptextp s' = ptextp s \<and> i_nlink s' = i_nlink s \<and> i_dev s' = i_dev s)"
      unfolding tx by simp
  qed
qed

lemma vm_ok_XUNLOCK [simp]: "vm_ok N X Hc Hs (XUNLOCK i s) = vm_ok N X Hc Hs s"
  by (rule vm_ok_cong) simp

lemma vm_ok_XLOCK [simp]: "vm_ok N X Hc Hs (upd_text i (\<lambda>t. t\<lparr>XLOCK := b\<rparr>) s) = vm_ok N X Hc Hs s"
  by (rule vm_ok_cong[OF vshape_upd]) (simp add: shape_def)

lemma XUNLOCK_sel [simp]:
  "xfl (XUNLOCK i s) = xfl s" "i_text (XUNLOCK i s) = i_text s" "ptextp (XUNLOCK i s) = ptextp s" "i_nlink (XUNLOCK i s) = i_nlink s"
  "i_dev (XUNLOCK i s) = i_dev s" "length (texts (XUNLOCK i s)) = length (texts s)" "coremap (XUNLOCK i s) = coremap s"
  by (simp_all add: XUNLOCK_def)

lemma texts_XUNLOCK: "i < length (texts s) \<Longrightarrow>
    texts (XUNLOCK i s) ! j = (if j = i then (texts s ! i)\<lparr>XLOCK := False, XWANT := False\<rparr> else texts s ! j)"
  by (simp add: XUNLOCK_def texts_upd)

lemma xuntext_safe:
  assumes ok: "vm_ok N X Hc Hs s" and i: "i < length (texts s)" and ip: "x_iptr (texts s ! i) = Some ip"
  shows "safe (xuntext i s) (\<lambda>s'. vm_ok N X Hc Hs s' \<and> vframe i s s' \<and> x_count (texts s' ! i) = x_count (texts s ! i) \<and>
    (x_count (texts s ! i) = 0 \<longrightarrow> x_iptr (texts s' ! i) = None \<and> i_text s' = (i_text s)(ip := None)) \<and>
    (x_count (texts s ! i) \<noteq> 0 \<longrightarrow> i_text s' = i_text s \<and> x_iptr (texts s' ! i) = Some ip))" (is "safe _ ?P")
proof -
  let ?s1 = "upd_text i (\<lambda>t. t\<lparr>XLOCK := True\<rparr>) s"
  have t1: "texts ?s1 ! i = (texts s ! i)\<lparr>XLOCK := True\<rparr>" and len: "i < length (texts ?s1)" using i by (simp_all add: texts_upd)
  have ok1: "vm_ok N X Hc Hs ?s1" using ok by simp
  have "safe (if x_count (texts ?s1 ! i) = 0 then xdetach i ?s1 else Ok ?s1) (\<lambda>s2. ?P (XUNLOCK i s2))"
  proof (cases "x_count (texts s ! i) = 0")
    case False
    then show ?thesis using ok i ip t1 by (simp add: vframe_def texts_XUNLOCK texts_upd)
  next
    case True
    have "safe (xdetach i ?s1) (\<lambda>s'. vm_ok N X Hc Hs s' \<and> texts s' = (texts ?s1)[i := (texts ?s1 ! i)\<lparr>x_iptr := None\<rparr>] \<and>
      i_text s' = (i_text ?s1)(ip := None) \<and> xfl s' = xfl ?s1 \<and> ptextp s' = ptextp ?s1 \<and> i_nlink s' = i_nlink ?s1 \<and> i_dev s' = i_dev ?s1)"
      by (rule xdetach_safe[OF ok1 len]) (use t1 ip True in simp_all)
    then have "safe (xdetach i ?s1) (\<lambda>s2. ?P (XUNLOCK i s2))"
    proof (rule safe_mono)
      fix s2 assume a: "vm_ok N X Hc Hs s2 \<and> texts s2 = (texts ?s1)[i := (texts ?s1 ! i)\<lparr>x_iptr := None\<rparr>] \<and>
        i_text s2 = (i_text ?s1)(ip := None) \<and> xfl s2 = xfl ?s1 \<and> ptextp s2 = ptextp ?s1 \<and> i_nlink s2 = i_nlink ?s1 \<and> i_dev s2 = i_dev ?s1"
      then have "length (texts s2) = length (texts s)" "texts s2 ! i = (texts s ! i)\<lparr>XLOCK := True, x_iptr := None\<rparr>"
        "j \<noteq> i \<Longrightarrow> texts s2 ! j = texts s ! j" for j using i t1 by (simp_all add: texts_upd)
      then show "?P (XUNLOCK i s2)" using a i True by (simp add: vframe_def texts_XUNLOCK)
    qed
    then show ?thesis using True t1 by simp
  qed
  then show ?thesis unfolding xuntext_def by (intro safe_obind safe_X_LOCK) simp
qed

section \<open>Giving core back\<close>

lemma table_upd:
  assumes "table_ok N X s" "i < length (texts s)" "texts s' = (texts s)[i := t]" "xfl s' = xfl s" "i_text s' = i_text s"
    "elem_ok (xfl s) (i_text s) N X i t"
  shows "table_ok N X s'"
proof -
  have "elem_ok (xfl s') (i_text s') N X j (texts s' ! j)" if "j < length (texts s)" for j
    using assms that by (cases "j = i") (simp_all add: table_ok_def)
  then show ?thesis using assms by (simp add: table_ok_def)
qed

lemma vm_elem: "vm_ok N X Hc Hs s \<Longrightarrow> i < length (texts s) \<Longrightarrow> elem_ok (xfl s) (i_text s) N X i (texts s ! i)"
  by (simp add: vm_ok_def table_ok_def)

lemma xfreecore_safe:
  assumes ok: "vm_ok N X Hc Hs s" and i: "i < length (texts s)"
    and t: "x_iptr (texts s ! i) \<noteq> None" "x_caddr (texts s ! i) \<noteq> 0" "x_ccount (texts s ! i) = 0"
  shows "safe (xfreecore i s) (\<lambda>s'. vm_ok N X Hc Hs s' \<and> vframe i s s' \<and> i_text s' = i_text s \<and>
    texts s' ! i = (texts s ! i)\<lparr>XWRIT := False, x_caddr := 0\<rparr>)" (is "safe _ ?P")
proof -
  let ?t = "texts s ! i" and ?u = "(texts s ! i)\<lparr>XWRIT := False, x_caddr := 0\<rparr>"
  define s1 where "s1 = (if XWRIT ?t
    then (upd_text i (\<lambda>t. t\<lparr>XWRIT := False\<rparr>) s)\<lparr>swaplog := swaplog s @ [(x_daddr ?t, x_caddr ?t, x_size ?t, True)]\<rparr> else s)"
  obtain C S where sp: "\<And>s' t. texts s' = (texts s)[i := t] \<Longrightarrow>
    space_ok Hc Hs s' \<longleftrightarrow> map_ok (coremap s') (cext t @ C) \<and> map_ok (swapmap s') (sext t @ S)" using space_split[OF i, of Hc Hs] by metis
  have "texts s = (texts s)[i := ?t]" by (metis list_update_id)
  from sp[OF this] ok t have m: "map_ok (coremap s) ((x_caddr ?t, x_size ?t) # C)" "map_ok (swapmap s) (sext ?t @ S)"
    by (simp_all add: vm_ok_def cext_def)
  have s1: "coremap s1 = coremap s" "swapmap s1 = swapmap s" "xfl s1 = xfl s" "i_text s1 = i_text s" "ptextp s1 = ptextp s"
    "i_nlink s1 = i_nlink s" "i_dev s1 = i_dev s" by (simp_all add: s1_def)
  have tx1: "texts s1 = (texts s)[i := ?t\<lparr>XWRIT := False\<rparr>]"
  proof (cases "XWRIT ?t")
    case False
    then have e: "?t\<lparr>XWRIT := False\<rparr> = ?t" by (cases "texts s ! i") simp
    show ?thesis unfolding e using False by (simp add: s1_def)
  qed (simp add: s1_def upd_text_def)
  have up: "texts (upd_text i (\<lambda>t. t\<lparr>x_caddr := 0\<rparr>) s2) = (texts s)[i := ?u]" if "texts s2 = texts s1" for s2
    using that tx1 i by (simp add: upd_text_def)
  have m1: "map_ok (coremap s1) ((x_caddr ?t, x_size ?t) # C)" using m(1) s1(1) by simp
  have "safe (mfree_core (x_size ?t) (x_caddr ?t) s1) (\<lambda>s2. ?P (upd_text i (\<lambda>t. t\<lparr>x_caddr := 0\<rparr>) s2))"
  proof (rule safe_mono[OF mfree_core_safe[OF m1]], elim exE conjE)
    fix s2 mc fm assume a: "s2 = s1\<lparr>coremap := mc, runin := False, freemem := fm\<rparr>" "map_ok mc C"
    let ?s' = "upd_text i (\<lambda>t. t\<lparr>x_caddr := 0\<rparr>) s2"
    have tx: "texts ?s' = (texts s)[i := ?u]" by (rule up) (simp add: a)
    have "space_ok Hc Hs ?s'" using sp[OF tx] a m(2) s1(2) t(1) by (auto simp: cext_def sext_def)
    moreover have "table_ok N X ?s'"
      by (rule table_upd[OF _ i tx]) (use ok vm_elem[OF ok i] t a s1 in \<open>auto simp: vm_ok_def elem_ok_def\<close>)
    ultimately show "?P ?s'" using tx a s1 i by (simp add: vm_ok_def vframe_def)
  qed
  then show ?thesis unfolding xfreecore_def Let_def s1_def[symmetric] by (rule safe_omap)
qed

text \<open>\<open>tframe K s s'\<close>: the texts in \<open>K\<close> are as they were, no count changed, no inode gained a text.\<close>

definition tframe :: "nat set \<Rightarrow> vmem \<Rightarrow> vmem \<Rightarrow> bool" where
  "tframe K s s' \<longleftrightarrow> length (texts s') = length (texts s) \<and> xfl s' = xfl s \<and> ptextp s' = ptextp s \<and>
     (\<forall>j<length (texts s). x_count (texts s' ! j) = x_count (texts s ! j)) \<and> (\<forall>j\<in>K. texts s' ! j = texts s ! j) \<and>
     (\<forall>ip. i_text s ip = None \<longrightarrow> i_text s' ip = None)"

lemma tframe_refl [simp]: "tframe K s s"
  by (simp add: tframe_def)

lemma tframe_trans: "tframe K s t \<Longrightarrow> tframe K t r \<Longrightarrow> tframe K s r"
  by (simp add: tframe_def)

lemma tframe_XUNLOCK: "tframe K s s' \<Longrightarrow> i \<notin> K \<Longrightarrow> i < length (texts s) \<Longrightarrow> tframe K s (XUNLOCK i s')"
  by (auto simp: tframe_def texts_XUNLOCK)

lemma tframe_XLOCK: "i \<notin> K \<Longrightarrow> i < length (texts s) \<Longrightarrow> tframe K s (upd_text i (\<lambda>t. t\<lparr>XLOCK := True\<rparr>) s)"
  by (auto simp: tframe_def texts_upd)

lemma vframe_tframe:
  "vframe i s s' \<Longrightarrow> i \<notin> K \<Longrightarrow> x_count (texts s' ! i) = x_count (texts s ! i) \<Longrightarrow>
     (\<forall>ip. i_text s ip = None \<longrightarrow> i_text s' ip = None) \<Longrightarrow> tframe K s s'"
  unfolding vframe_def tframe_def by metis

lemma xuncore_loop_safe:
  assumes "vm_ok N X Hc Hs s" "\<forall>i\<in>set is. i < length (texts s) \<and> i \<notin> K"
  shows "safe (xuncore_loop sz is s) (\<lambda>s'. vm_ok N X Hc Hs s' \<and> tframe K s s')"
  using assms
proof (induction "is" arbitrary: s)
  case (Cons i rs)
  have i: "i < length (texts s)" "i \<notin> K" using Cons.prems(2) by auto
  have rest: "safe (xuncore_loop sz rs s') (\<lambda>s''. vm_ok N X Hc Hs s'' \<and> tframe K s s'')"
    if "vm_ok N X Hc Hs s'" "tframe K s s'" for s'
  proof -
    have "\<forall>i\<in>set rs. i < length (texts s') \<and> i \<notin> K" using Cons.prems(2) that(2) by (simp add: tframe_def)
    from Cons.IH[OF that(1) this] show ?thesis using tframe_trans[OF that(2)] by (auto elim: safe_mono)
  qed
  let ?s1 = "upd_text i (\<lambda>t. t\<lparr>XLOCK := True\<rparr>) s"
  have ok1: "vm_ok N X Hc Hs ?s1" using Cons.prems(1) by simp
  have f1: "tframe K s ?s1" by (rule tframe_XLOCK[OF i(2,1)])
  have l1: "i < length (texts ?s1)" using i by simp
  show ?case
  proof (cases "x_iptr (texts s ! i) = None")
    case True
    then show ?thesis using rest[OF Cons.prems(1) tframe_refl] by simp
  next
    case False
    have "safe (if x_ccount (texts ?s1 ! i) = 0 \<and> x_caddr (texts ?s1 ! i) \<noteq> 0
        then obind (xfreecore i ?s1) (\<lambda>s2. if x_size (texts s2 ! i) \<ge> sz then Ok (XUNLOCK i s2) else xuncore_loop sz rs (XUNLOCK i s2))
        else xuncore_loop sz rs (XUNLOCK i ?s1)) (\<lambda>s'. vm_ok N X Hc Hs s' \<and> tframe K s s')"
    proof (cases "x_ccount (texts ?s1 ! i) = 0 \<and> x_caddr (texts ?s1 ! i) \<noteq> 0")
      case True
      have "safe (xfreecore i ?s1) (\<lambda>s2. vm_ok N X Hc Hs s2 \<and> vframe i ?s1 s2 \<and> i_text s2 = i_text ?s1 \<and>
          texts s2 ! i = (texts ?s1 ! i)\<lparr>XWRIT := False, x_caddr := 0\<rparr>)"
        by (rule xfreecore_safe[OF ok1 l1]) (use True False i in \<open>simp_all add: texts_upd\<close>)
      then have "safe (xfreecore i ?s1) (\<lambda>s2. vm_ok N X Hc Hs (XUNLOCK i s2) \<and> tframe K s (XUNLOCK i s2))"
        by (rule safe_mono) (use vframe_tframe[of i ?s1 _ K] i tframe_trans[OF f1] tframe_XUNLOCK in auto)
      then show ?thesis using True rest by (auto intro!: safe_obind elim!: safe_mono)
    next
      case no: False
      have "tframe K s (XUNLOCK i ?s1)" by (rule tframe_XUNLOCK[OF f1 i(2,1)])
      then show ?thesis using no rest[of "XUNLOCK i ?s1"] ok1 by auto
    qed
    then show ?thesis using False by (auto intro!: safe_obind safe_X_LOCK)
  qed
qed simp

lemma xumount_loop_safe:
  assumes "vm_ok N X Hc Hs s" "\<forall>i\<in>set is. i < length (texts s)" "\<forall>i\<in>K. x_iptr (texts s ! i) = None"
  shows "safe (xumount_loop dev is s) (\<lambda>s'. vm_ok N X Hc Hs s' \<and> tframe K s s')"
  using assms
proof (induction "is" arbitrary: s)
  case (Cons i rs)
  have i: "i < length (texts s)" using Cons.prems(2) by auto
  have rest: "safe (xumount_loop dev rs s') (\<lambda>s''. vm_ok N X Hc Hs s'' \<and> tframe K s s'')"
    if "vm_ok N X Hc Hs s'" "tframe K s s'" for s'
  proof -
    have "\<forall>i\<in>set rs. i < length (texts s')" "\<forall>i\<in>K. x_iptr (texts s' ! i) = None"
      using Cons.prems(2,3) that(2) by (simp_all add: tframe_def)
    from Cons.IH[OF that(1) this] show ?thesis using tframe_trans[OF that(2)] by (auto elim: safe_mono)
  qed
  show ?case
  proof (cases "x_iptr (texts s ! i)")
    case None
    then show ?thesis using rest[OF Cons.prems(1) tframe_refl] by simp
  next
    case (Some ip)
    have "i \<notin> K" using Cons.prems(3) Some by auto
    have "safe (xuntext i s) (\<lambda>s'. vm_ok N X Hc Hs s' \<and> tframe K s s')"
    proof (rule safe_mono[OF xuntext_safe[OF Cons.prems(1) i Some]])
      fix s' assume a: "vm_ok N X Hc Hs s' \<and> vframe i s s' \<and> x_count (texts s' ! i) = x_count (texts s ! i) \<and>
        (x_count (texts s ! i) = 0 \<longrightarrow> x_iptr (texts s' ! i) = None \<and> i_text s' = (i_text s)(ip := None)) \<and>
        (x_count (texts s ! i) \<noteq> 0 \<longrightarrow> i_text s' = i_text s \<and> x_iptr (texts s' ! i) = Some ip)"
      then have "\<forall>ip. i_text s ip = None \<longrightarrow> i_text s' ip = None" by (cases "x_count (texts s ! i) = 0") auto
      then show "vm_ok N X Hc Hs s' \<and> tframe K s s'" using a vframe_tframe[of i s s' K] \<open>i \<notin> K\<close> by blast
    qed
    then show ?thesis using Some rest rest[OF Cons.prems(1) tframe_refl] by (auto intro!: safe_obind elim!: safe_mono)
  qed
qed simp

end
