(* ===== verification/Vm_Thms.thy ===== *)
theory Vm_Thms
  imports Vm_Props
begin

text \<open>
  Allocation with reclaiming, attaching and detaching texts: each routine, called in a good state, returns or waits and
  leaves a good state.
\<close>

section \<open>malloc\<close>

lemma tframe_mono: "tframe K s s' \<Longrightarrow> K' \<subseteq> K \<Longrightarrow> tframe K' s s'"
  by (auto simp: tframe_def)

lemma vm_maps: "vm_ok N X Hc Hs s \<Longrightarrow> map_ok (coremap s) (concat (map cext (texts s)) @ Hc) \<and>
    map_ok (swapmap s) (concat (map sext (texts s)) @ Hs)"
  by (simp add: vm_ok_def space_ok_def)

lemma vm_ok_more:
  assumes "map_ok (coremap s') ((a, sz) # concat (map cext (texts s')) @ Hc)" "map_ok (swapmap s') (concat (map sext (texts s')) @ Hs)" "table_ok N X s'"
  shows "vm_ok N X ((a, sz) # Hc) Hs s'"
proof -
  have "mset ((a, sz) # concat (map cext (texts s')) @ Hc) = mset (concat (map cext (texts s')) @ (a, sz) # Hc)" by simp
  from map_ok_perm[OF assms(1) this] assms(2,3) show ?thesis by (simp add: vm_ok_def space_ok_def)
qed

lemma vm_ok_more_swap:
  assumes "map_ok (coremap s') (concat (map cext (texts s')) @ Hc)" "map_ok (swapmap s') ((a, sz) # concat (map sext (texts s')) @ Hs)" "table_ok N X s'"
  shows "vm_ok N X Hc ((a, sz) # Hs) s'"
proof -
  have "mset ((a, sz) # concat (map sext (texts s')) @ Hs) = mset (concat (map sext (texts s')) @ (a, sz) # Hs)" by simp
  from map_ok_perm[OF assms(2) this] assms(1,3) show ?thesis by (simp add: vm_ok_def space_ok_def)
qed

text \<open>What is held after an allocation.\<close>

definition plus_ext :: "u16 \<Rightarrow> u16 \<Rightarrow> (u16 \<times> u16) list \<Rightarrow> (u16 \<times> u16) list" where
  "plus_ext a sz H = (if a = 0 then H else (a, sz) # H)"

lemma malloc_core1_safe:
  assumes ok: "vm_ok N X Hc Hs s" and sz: "sz \<noteq> 0"
  shows "safe (malloc_core1 sz s) (\<lambda>r. vm_ok N X (plus_ext (fst r) sz Hc) Hs (snd r) \<and> tframe UNIV s (snd r) \<and> (fst r = 0 \<longrightarrow> snd r = s))"
proof -
  note m = vm_maps[OF ok]
  obtain a m' where r: "rmalloc (coremap s) sz = Ok (a, m')" "a = 0 \<Longrightarrow> m' = coremap s"
    "a \<noteq> 0 \<Longrightarrow> map_ok m' ((a, sz) # concat (map cext (texts s)) @ Hc)" using map_alloc[of "coremap s" _ sz] m sz by metis
  let ?s = "s\<lparr>coremap := m', freemem := freemem s - sz\<rparr>"
  have "vm_ok N X ((a, sz) # Hc) Hs ?s" if "a \<noteq> 0"
    by (rule vm_ok_more) (use r(3)[OF that] m ok in \<open>simp_all add: vm_ok_def table_ok_def\<close>)
  then show ?thesis using r ok by (auto simp: malloc_core1_def plus_ext_def tframe_def)
qed

lemma malloc_core_safe:
  assumes ok: "vm_ok N X Hc Hs s" and sz: "sz \<noteq> 0"
  shows "safe (malloc_core sz s) (\<lambda>r. vm_ok N X (plus_ext (fst r) sz Hc) Hs (snd r) \<and> tframe (- set (xfl s)) s (snd r))"
proof -
  have l: "\<forall>i\<in>set (xfl s). i < length (texts s) \<and> i \<notin> - set (xfl s)" using ok by (auto simp: vm_ok_def table_ok_def)
  have "safe (xuncore sz s) (\<lambda>s1. safe (malloc_core1 sz s1)
      (\<lambda>r. vm_ok N X (plus_ext (fst r) sz Hc) Hs (snd r) \<and> tframe (- set (xfl s)) s (snd r)))"
    unfolding xuncore_def
  proof (rule safe_mono[OF xuncore_loop_safe[OF ok l]])
    fix s1 assume a: "vm_ok N X Hc Hs s1 \<and> tframe (- set (xfl s)) s s1"
    then show "safe (malloc_core1 sz s1) (\<lambda>r. vm_ok N X (plus_ext (fst r) sz Hc) Hs (snd r) \<and> tframe (- set (xfl s)) s (snd r))"
      by (intro safe_mono[OF malloc_core1_safe[OF conjunct1[OF a] sz]]) (use a in \<open>auto intro: tframe_trans tframe_mono\<close>)
  qed
  then have x: "safe (obind (xuncore sz s) (malloc_core1 sz)) (\<lambda>r. vm_ok N X (plus_ext (fst r) sz Hc) Hs (snd r) \<and> tframe (- set (xfl s)) s (snd r))"
    by (rule safe_obind)
  show ?thesis unfolding malloc_core_def
  proof (rule safe_obind, rule safe_mono[OF malloc_core1_safe[OF ok sz]])
    fix r assume a: "vm_ok N X (plus_ext (fst r) sz Hc) Hs (snd r) \<and> tframe UNIV s (snd r) \<and> (fst r = 0 \<longrightarrow> snd r = s)"
    have "tframe (- set (xfl s)) s (snd r)" by (rule tframe_mono[of UNIV]) (use a in simp_all)
    then show "safe (if fst r \<noteq> 0 then Ok r else obind (xuncore sz s) (malloc_core1 sz))
        (\<lambda>r. vm_ok N X (plus_ext (fst r) sz Hc) Hs (snd r) \<and> tframe (- set (xfl s)) s (snd r))" using a x by simp
  qed
qed

lemma malloc_swap1_safe:
  assumes ok: "vm_ok N X Hc Hs s" and sz: "sz \<noteq> 0"
  shows "safe (malloc_swap1 sz s) (\<lambda>r. vm_ok N X Hc (plus_ext (fst r) sz Hs) (snd r) \<and> tframe UNIV s (snd r) \<and> (fst r = 0 \<longrightarrow> snd r = s))"
proof -
  note m = vm_maps[OF ok]
  obtain a m' where r: "rmalloc (swapmap s) sz = Ok (a, m')" "a = 0 \<Longrightarrow> m' = swapmap s"
    "a \<noteq> 0 \<Longrightarrow> map_ok m' ((a, sz) # concat (map sext (texts s)) @ Hs)" using map_alloc[of "swapmap s" _ sz] m sz by metis
  let ?s = "s\<lparr>swapmap := m'\<rparr>"
  have "vm_ok N X Hc ((a, sz) # Hs) ?s" if "a \<noteq> 0"
    by (rule vm_ok_more_swap) (use r(3)[OF that] m ok in \<open>simp_all add: vm_ok_def table_ok_def\<close>)
  then show ?thesis using r ok by (auto simp: malloc_swap1_def plus_ext_def tframe_def)
qed

lemma malloc_swap_safe:
  assumes ok: "vm_ok N X Hc Hs s" and sz: "sz \<noteq> 0" and K: "\<forall>i\<in>K. x_iptr (texts s ! i) = None"
  shows "safe (malloc_swap sz s) (\<lambda>r. vm_ok N X Hc (plus_ext (fst r) sz Hs) (snd r) \<and> tframe K s (snd r))"
proof -
  have l: "\<forall>i\<in>set [0..<length (texts s)]. i < length (texts s)" by simp
  have "safe (xumount None s) (\<lambda>s1. safe (malloc_swap1 sz s1) (\<lambda>r. vm_ok N X Hc (plus_ext (fst r) sz Hs) (snd r) \<and> tframe K s (snd r)))"
    unfolding xumount_def
  proof (rule safe_mono[OF xumount_loop_safe[OF ok l K]])
    fix s1 assume a: "vm_ok N X Hc Hs s1 \<and> tframe K s s1"
    then show "safe (malloc_swap1 sz s1) (\<lambda>r. vm_ok N X Hc (plus_ext (fst r) sz Hs) (snd r) \<and> tframe K s (snd r))"
      by (intro safe_mono[OF malloc_swap1_safe[OF conjunct1[OF a] sz]]) (use a in \<open>auto intro: tframe_trans tframe_mono\<close>)
  qed
  then have x: "safe (obind (xumount None s) (malloc_swap1 sz)) (\<lambda>r. vm_ok N X Hc (plus_ext (fst r) sz Hs) (snd r) \<and> tframe K s (snd r))"
    by (rule safe_obind)
  show ?thesis unfolding malloc_swap_def
  proof (rule safe_obind, rule safe_mono[OF malloc_swap1_safe[OF ok sz]])
    fix r assume a: "vm_ok N X Hc (plus_ext (fst r) sz Hs) (snd r) \<and> tframe UNIV s (snd r) \<and> (fst r = 0 \<longrightarrow> snd r = s)"
    have "tframe K s (snd r)" by (rule tframe_mono[of UNIV]) (use a in simp_all)
    then show "safe (if fst r \<noteq> 0 then Ok r else obind (xumount None s) (malloc_swap1 sz))
        (\<lambda>r. vm_ok N X Hc (plus_ext (fst r) sz Hs) (snd r) \<and> tframe K s (snd r))" using a x by simp
  qed
qed

section \<open>Core for a text\<close>

text \<open>\<open>xuncore\<close> and \<open>malloc\<close> do not look at a text that is off the free list.\<close>

lemma upd_text_commute: "i \<noteq> j \<Longrightarrow> upd_text i f (upd_text j g s) = upd_text j g (upd_text i f s)"
  by (simp add: upd_text_def list_update_swap)

lemma nth_upd_text: "i \<noteq> j \<Longrightarrow> texts (upd_text i f s) ! j = texts s ! j"
  by (simp add: upd_text_def)

lemma mfree_core_upd: "mfree_core sz a (upd_text i f s) = omap (upd_text i f) (mfree_core sz a s)"
  by (cases "rmfree (coremap s) sz a") (simp_all add: mfree_core_def upd_text_def)

lemma xfreecore_upd:
  assumes "i \<noteq> j"
  shows "xfreecore j (upd_text i f s) = omap (upd_text i f) (xfreecore j s)"
proof -
  let ?w = "\<lambda>s. (upd_text j (\<lambda>t. t\<lparr>XWRIT := False\<rparr>) s)\<lparr>swaplog := swaplog s @ [(x_daddr (texts s ! j), x_caddr (texts s ! j), x_size (texts s ! j), True)]\<rparr>"
  have w: "?w (upd_text i f s) = upd_text i f (?w s)" using assms by (simp add: upd_text_def list_update_swap)
  have c: "omap (upd_text j g) (omap (upd_text i f) m) = omap (upd_text i f) (omap (upd_text j g) m)" for g m
    using assms by (cases m) (simp_all add: upd_text_commute)
  show ?thesis
  proof (cases "XWRIT (texts s ! j)")
    case True
    then show ?thesis using w c by (simp add: xfreecore_def Let_def nth_upd_text[OF assms] mfree_core_upd)
  next
    case False
    then show ?thesis using c by (simp add: xfreecore_def Let_def nth_upd_text[OF assms] mfree_core_upd)
  qed
qed

lemma XUNLOCK_upd: "i \<noteq> j \<Longrightarrow> XUNLOCK j (upd_text i f s) = upd_text i f (XUNLOCK j s)"
  unfolding XUNLOCK_def by (rule upd_text_commute) simp

lemma X_LOCK_upd: "i \<noteq> j \<Longrightarrow> X_LOCK j (upd_text i f s) = omap (upd_text i f) (X_LOCK j s)"
  by (simp add: X_LOCK_def nth_upd_text upd_text_commute)

lemma obind_omap: "obind (omap f m) g = obind m (\<lambda>x. g (f x))"
  by (cases m) auto

lemma omap_obind: "omap f (obind m g) = obind m (\<lambda>x. omap f (g x))"
  by (cases m) auto

lemma xuncore_loop_upd:
  "i \<notin> set rs \<Longrightarrow> xuncore_loop sz rs (upd_text i f s) = omap (upd_text i f) (xuncore_loop sz rs s)"
proof (induction rs arbitrary: s)
  case (Cons j rs)
  have ij: "i \<noteq> j" "i \<notin> set rs" using Cons.prems by auto
  have b: "(if x_ccount (texts (upd_text i f s1) ! j) = 0 \<and> x_caddr (texts (upd_text i f s1) ! j) \<noteq> 0
        then obind (xfreecore j (upd_text i f s1)) (\<lambda>s2. if x_size (texts s2 ! j) \<ge> sz then Ok (XUNLOCK j s2) else xuncore_loop sz rs (XUNLOCK j s2))
        else xuncore_loop sz rs (XUNLOCK j (upd_text i f s1))) =
      omap (upd_text i f) (if x_ccount (texts s1 ! j) = 0 \<and> x_caddr (texts s1 ! j) \<noteq> 0
        then obind (xfreecore j s1) (\<lambda>s2. if x_size (texts s2 ! j) \<ge> sz then Ok (XUNLOCK j s2) else xuncore_loop sz rs (XUNLOCK j s2))
        else xuncore_loop sz rs (XUNLOCK j s1))" for s1
    by (simp add: nth_upd_text[OF ij(1)] xfreecore_upd[OF ij(1)] obind_omap omap_obind XUNLOCK_upd[OF ij(1)] Cons.IH[OF ij(2)]
        if_distrib[of "omap (upd_text i f)"] cong: if_cong)
  show ?case
    by (simp only: xuncore_loop.simps nth_upd_text[OF ij(1)] X_LOCK_upd[OF ij(1)] Cons.IH[OF ij(2)]
        if_distrib[of "omap (upd_text i f)"] obind_omap) (simp only: omap_obind b[unfolded nth_upd_text[OF ij(1)]])
qed simp

lemma malloc_core1_upd: "malloc_core1 sz (upd_text i f s) = omap (\<lambda>r. (fst r, upd_text i f (snd r))) (malloc_core1 sz s)"
  by (cases "rmalloc (coremap s) sz") (simp_all add: malloc_core1_def upd_text_def)

lemma malloc_core_upd:
  assumes "i \<notin> set (xfl s)"
  shows "malloc_core sz (upd_text i f s) = omap (\<lambda>r. (fst r, upd_text i f (snd r))) (malloc_core sz s)"
proof -
  have x: "xuncore sz (upd_text i f s) = omap (upd_text i f) (xuncore sz s)"
    using xuncore_loop_upd[OF assms] by (simp add: xuncore_def)
  show ?thesis
    by (simp add: malloc_core_def malloc_core1_upd obind_omap omap_obind x if_distrib[of "omap _"] cong: if_cong)
qed

lemma vm_give_core:
  assumes ok: "vm_ok N X ((a, sz) # Hc) Hs s" and i: "i < length (texts s)"
    and t: "x_iptr (texts s ! i) \<noteq> None" "x_caddr (texts s ! i) = 0" "x_size (texts s ! i) = sz"
    and s': "texts s' = (texts s)[i := t]" "coremap s' = coremap s" "swapmap s' = swapmap s" "xfl s' = xfl s" "i_text s' = i_text s"
    and sh: "shape t = (x_daddr (texts s ! i), a, sz, x_iptr (texts s ! i), x_count (texts s ! i), k)"
  shows "vm_ok N X Hc Hs s'"
proof -
  obtain C S where sp: "\<And>s' t. texts s' = (texts s)[i := t] \<Longrightarrow>
      space_ok ((a, sz) # Hc) Hs s' \<longleftrightarrow> map_ok (coremap s') (cext t @ C) \<and> map_ok (swapmap s') (sext t @ S)"
    "mset (concat (map cext (texts s)) @ (a, sz) # Hc) = mset (cext (texts s ! i) @ C)" using space_split[OF i, of "(a, sz) # Hc" Hs] by metis
  obtain C' S' where sp': "\<And>s' t. texts s' = (texts s)[i := t] \<Longrightarrow>
      space_ok Hc Hs s' \<longleftrightarrow> map_ok (coremap s') (cext t @ C') \<and> map_ok (swapmap s') (sext t @ S')"
    "mset (concat (map cext (texts s)) @ Hc) = mset (cext (texts s ! i) @ C')"
    "mset (concat (map sext (texts s)) @ Hs) = mset (sext (texts s ! i) @ S')" using space_split[OF i, of Hc Hs] by metis
  have "cext (texts s ! i) = []" using t(2) by (simp add: cext_def)
  then have perm: "mset C = mset ((a, sz) # C')" using sp(2) sp'(2) by simp
  note v = vm_maps[OF ok]
  have C: "map_ok (coremap s) ((a, sz) # C')"
    by (rule map_ok_perm[OF conjunct1[OF v]]) (use sp(2) perm \<open>cext (texts s ! i) = []\<close> in simp)
  have S: "map_ok (swapmap s) (sext (texts s ! i) @ S')" by (rule map_ok_perm[OF conjunct2[OF v] sp'(3)])
  have a0: "a \<noteq> 0" using map_ok_size[OF C] by simp
  have "cext t = [(a, sz)]" "sext t = sext (texts s ! i)" using sh t a0 by (auto simp: shape_def cext_def sext_def)
  then have "space_ok Hc Hs s'" using sp'(1)[OF s'(1)] C S s'(2,3) by simp
  moreover have "table_ok N X s'"
    by (rule table_upd[OF _ i s'(1,4,5)]) (use ok vm_elem[OF ok i] sh a0 in \<open>auto simp: vm_ok_def elem_ok_def shape_def\<close>)
  ultimately show ?thesis by (simp add: vm_ok_def)
qed

definition xzero :: "nat \<Rightarrow> vmem \<Rightarrow> vmem" where
  "xzero i s = upd_text i (\<lambda>t. t\<lparr>x_caddr := 0\<rparr>) s"

lemma vm_ok_swaplog [simp]: "vm_ok N X Hc Hs (s\<lparr>swaplog := l\<rparr>) = vm_ok N X Hc Hs s"
  by (rule vm_ok_cong) (simp add: vshape_def)

lemma vm_ok_ptextp [simp]: "vm_ok N X Hc Hs (s\<lparr>ptextp := l\<rparr>) = vm_ok N X Hc Hs s"
  by (rule vm_ok_cong) (simp add: vshape_def)

lemma upd_upd: "upd_text i f (upd_text i g s) = upd_text i (\<lambda>t. f (g t)) s"
  by (cases "i < length (texts s)") (simp_all add: upd_text_def list_update_beyond)

lemma malloc_core_xzero:
  assumes "i \<notin> set (xfl s)"
  shows "omap (\<lambda>r. (fst r, upd_text i (\<lambda>t. t\<lparr>x_caddr := fst r\<rparr>) (snd r))) (malloc_core sz s) =
    omap (\<lambda>r. (fst r, upd_text i (\<lambda>t. t\<lparr>x_caddr := fst r\<rparr>) (snd r))) (malloc_core sz (xzero i s))"
  unfolding xzero_def malloc_core_upd[OF assms] by (cases "malloc_core sz s") (simp_all add: upd_upd)

lemma xexpand_alt:
  "xexpand i s = obind (omap (\<lambda>r. (fst r, upd_text i (\<lambda>t. t\<lparr>x_caddr := fst r\<rparr>) (snd r))) (malloc_core (x_size (texts s ! i)) s)) (\<lambda>r.
       let s1 = snd r; t = texts s1 ! i in
       if fst r \<noteq> 0
       then let s2 = (if \<not> XLOAD t then s1\<lparr>swaplog := swaplog s1 @ [(x_daddr t, x_caddr t, x_size t, False)]\<rparr> else s1)
            in Ok (True, XUNLOCK i (upd_text i (\<lambda>t. t\<lparr>x_ccount := x_ccount t + 1\<rparr>) s2))
       else Ok (False, XUNLOCK i s1))"
  unfolding xexpand_def by (cases "malloc_core (x_size (texts s ! i)) s") (simp_all add: Let_def)

lemma xexpand_safe:
  assumes ok: "vm_ok N X Hc Hs (xzero i s)" and i: "i < length (texts s)" "i \<notin> set (xfl s)"
    and t: "x_iptr (texts s ! i) \<noteq> None" "x_size (texts s ! i) \<noteq> 0" "x_ccount (texts s ! i) = 0"
  shows "safe (xexpand i s) (\<lambda>r. vm_ok N X Hc Hs (snd r) \<and> length (texts (snd r)) = length (texts s) \<and> xfl (snd r) = xfl s \<and>
    ptextp (snd r) = ptextp s \<and> x_iptr (texts (snd r) ! i) \<noteq> None \<and> x_size (texts (snd r) ! i) = x_size (texts s ! i))"
proof -
  let ?sz = "x_size (texts s ! i)"
  have z: "texts (xzero i s) ! i = (texts s ! i)\<lparr>x_caddr := 0\<rparr>" "xfl (xzero i s) = xfl s" "ptextp (xzero i s) = ptextp s"
    "length (texts (xzero i s)) = length (texts s)" using i by (simp_all add: xzero_def texts_upd)
  show ?thesis unfolding xexpand_alt malloc_core_xzero[OF i(2)]
  proof (intro safe_obind safe_omap safe_mono[OF malloc_core_safe[OF ok t(2)]], elim conjE)
    fix r assume a: "vm_ok N X (plus_ext (fst r) ?sz Hc) Hs (snd r)" "tframe (- set (xfl (xzero i s))) (xzero i s) (snd r)"
    let ?s0 = "snd r" and ?s1 = "upd_text i (\<lambda>t. t\<lparr>x_caddr := fst r\<rparr>) (snd r)"
    have f: "length (texts ?s0) = length (texts s)" "xfl ?s0 = xfl s" "ptextp ?s0 = ptextp s" "texts ?s0 ! i = (texts s ! i)\<lparr>x_caddr := 0\<rparr>"
      using a(2) i(2) z by (simp_all add: tframe_def)
    have i0: "i < length (texts ?s0)" using f i by simp
    show "safe (let s1 = snd (fst r, ?s1); t = texts s1 ! i in
       if fst (fst r, ?s1) \<noteq> 0
       then let s2 = (if \<not> XLOAD t then s1\<lparr>swaplog := swaplog s1 @ [(x_daddr t, x_caddr t, x_size t, False)]\<rparr> else s1)
            in Ok (True, XUNLOCK i (upd_text i (\<lambda>t. t\<lparr>x_ccount := x_ccount t + 1\<rparr>) s2))
       else Ok (False, XUNLOCK i s1))
     (\<lambda>r. vm_ok N X Hc Hs (snd r) \<and> length (texts (snd r)) = length (texts s) \<and> xfl (snd r) = xfl s \<and> ptextp (snd r) = ptextp s \<and>
       x_iptr (texts (snd r) ! i) \<noteq> None \<and> x_size (texts (snd r) ! i) = ?sz)"
    proof (cases "fst r = 0")
      case True
      have "vshape ?s1 = vshape ?s0" unfolding vshape_def upd_text_def using f(4) True i0 by (simp add: map_update list_update_same_conv shape_def)
      from vm_ok_cong[OF this, of N X Hc Hs] a(1) have "vm_ok N X Hc Hs ?s1" using True by (simp add: plus_ext_def)
      then show ?thesis using True f t i0 by (simp add: Let_def texts_XUNLOCK texts_upd)
    next
      case False
      let ?s2 = "upd_text i (\<lambda>t. t\<lparr>x_ccount := x_ccount t + 1\<rparr>) ?s1"
      have ok2: "vm_ok N X Hc Hs (XUNLOCK i (upd_text i (\<lambda>t. t\<lparr>x_ccount := x_ccount t + 1\<rparr>) s2))" if "s2 = ?s1 \<or> s2 = ?s1\<lparr>swaplog := l\<rparr>" for s2 l
        unfolding vm_ok_XUNLOCK
        by (rule vm_give_core[of N X "fst r" ?sz Hc Hs ?s0 i _ "(texts ?s0 ! i)\<lparr>x_caddr := fst r, x_ccount := 1\<rparr>" 1])
          (use a(1) False f i0 t that in \<open>auto simp: plus_ext_def upd_text_def shape_def\<close>)
      show ?thesis using ok2[OF disjI1, OF refl] ok2[OF disjI2, OF refl] False f t i0 by (simp add: Let_def texts_XUNLOCK texts_upd)
    qed
  qed
qed

section \<open>Moving texts on and off the free list\<close>

text \<open>The table when one text, the free list and the texts of inodes change.\<close>

lemma table_one:
  assumes ok: "table_ok N X s" and i: "i < length (texts s)" and tx: "texts s' = (texts s)[i := t]"
    and fl: "distinct (xfl s')" "set (xfl s') - {i} = set (xfl s) - {i}"
    and it: "\<And>ip j. j \<noteq> i \<Longrightarrow> i_text s' ip = Some j \<longleftrightarrow> i_text s ip = Some j"
    and e: "elem_ok (xfl s') (i_text s') N' X' i t" and NX: "\<And>j. j \<noteq> i \<Longrightarrow> N' j = N j \<and> (j \<in> X \<longrightarrow> j \<in> X')"
  shows "table_ok N' X' s'"
proof -
  have len: "length (texts s') = length (texts s)" using tx by simp
  have fl': "j \<noteq> i \<Longrightarrow> j \<in> set (xfl s') \<longleftrightarrow> j \<in> set (xfl s)" for j using fl(2) by blast
  have "elem_ok (xfl s') (i_text s') N' X' j (texts s' ! j)" if j: "j < length (texts s)" for j
  proof (cases "j = i")
    case False
    then have "elem_ok (xfl s) (i_text s) N X j (texts s' ! j)" using ok j tx by (simp add: table_ok_def)
    then show ?thesis using it[OF False] fl'[OF False] NX[OF False] by (auto simp: elem_ok_def)
  qed (use e tx i in simp)
  moreover have "\<forall>j\<in>set (xfl s'). j < length (texts s)" using ok i fl' unfolding table_ok_def by metis
  moreover have "\<forall>ip j. i_text s' ip = Some j \<longrightarrow> j < length (texts s)" using ok i it unfolding table_ok_def by metis
  moreover have "\<forall>j. N' j \<noteq> 0 \<longrightarrow> j < length (texts s)" using ok i NX unfolding table_ok_def by metis
  ultimately show ?thesis using fl(1) len by (simp add: table_ok_def)
qed

lemma space_upd:
  assumes "space_ok Hc Hs s" "i < length (texts s)" "texts s' = (texts s)[i := t]" "coremap s' = coremap s" "swapmap s' = swapmap s"
    "cext t = cext (texts s ! i)" "sext t = sext (texts s ! i)"
  shows "space_ok Hc Hs s'"
proof -
  have "map cext (texts s') = map cext (texts s)" "map sext (texts s') = map sext (texts s)"
    using assms(2,3,6,7) by (simp_all add: map_update list_update_same_conv)
  then show ?thesis using assms by (simp add: space_ok_def)
qed

lemma vm_one:
  assumes ok: "vm_ok N X Hc Hs s" and i: "i < length (texts s)" and tx: "texts s' = (texts s)[i := t]"
    and m: "coremap s' = coremap s" "swapmap s' = swapmap s" "i_text s' = i_text s"
    and fl: "distinct (xfl s')" "set (xfl s') - {i} = set (xfl s) - {i}"
    and ext: "cext t = cext (texts s ! i)" "sext t = sext (texts s ! i)"
    and e: "elem_ok (xfl s') (i_text s) N' X' i t" and NX: "\<And>j. j \<noteq> i \<Longrightarrow> N' j = N j \<and> (j \<in> X \<longrightarrow> j \<in> X')"
  shows "vm_ok N' X' Hc Hs s'"
proof -
  have "space_ok Hc Hs s'" by (rule space_upd[OF _ i tx m(1,2) ext]) (use ok in \<open>simp add: vm_ok_def\<close>)
  moreover have "table_ok N' X' s'"
    by (rule table_one[OF _ i tx fl]) (use ok e NX m in \<open>auto simp: vm_ok_def\<close>)
  ultimately show ?thesis by (simp add: vm_ok_def)
qed

lemma vm_distinct: "vm_ok N X Hc Hs s \<Longrightarrow> distinct (xfl s)"
  by (simp add: vm_ok_def table_ok_def)

lemma vm_idx: "vm_ok N X Hc Hs s \<Longrightarrow> i \<in> set (xfl s) \<Longrightarrow> i < length (texts s)"
  by (simp add: vm_ok_def table_ok_def)

lemma vm_i_text: "vm_ok N X Hc Hs s \<Longrightarrow> i_text s ip = Some i \<Longrightarrow> i < length (texts s) \<and> x_iptr (texts s ! i) = Some ip"
  unfolding vm_ok_def table_ok_def elem_ok_def by blast

lemma sext_size:
  assumes ok: "vm_ok N X Hc Hs s" and i: "i < length (texts s)" "x_iptr (texts s ! i) \<noteq> None"
  shows "x_size (texts s ! i) \<noteq> 0"
proof
  assume z: "x_size (texts s ! i) = 0"
  have "(x_daddr (texts s ! i), ctod (x_size (texts s ! i))) \<in> set (concat (map sext (texts s)) @ Hs)"
    using i by (force simp: sext_def)
  moreover have "held_ok (free_units (swapmap s)) (concat (map sext (texts s)) @ Hs)" using vm_maps[OF ok] by (simp add: map_ok_def)
  ultimately have "ctod (x_size (texts s ! i)) \<noteq> 0" unfolding held_ok_def by fastforce
  then show False using z by (simp add: ctod_def)
qed

lemma xccdec_safe:
  assumes ok: "vm_ok N X Hc Hs s" and i: "i < length (texts s)" "x_iptr (texts s ! i) \<noteq> None"
  shows "safe (xccdec i s) (\<lambda>s'. vm_ok N X Hc Hs s' \<and> ptextp s' = ptextp s)"
proof -
  let ?t = "texts s ! i" and ?s1 = "upd_text i (\<lambda>t. t\<lparr>XLOCK := True\<rparr>) s"
  let ?s2 = "upd_text i (\<lambda>t. t\<lparr>x_ccount := x_ccount t - 1\<rparr>) ?s1"
  have tx: "texts ?s2 = (texts s)[i := ?t\<lparr>XLOCK := True, x_ccount := x_ccount ?t - 1\<rparr>]" using i by (simp add: upd_text_def)
  have t2: "texts ?s2 ! i = ?t\<lparr>XLOCK := True, x_ccount := x_ccount ?t - 1\<rparr>" and l2: "i < length (texts ?s2)" using tx i by simp_all
  have ok2: "vm_ok N X Hc Hs ?s2" if "x_ccount ?t \<noteq> 0"
    by (rule vm_one[OF ok i(1) tx]) (use vm_distinct[OF ok] vm_elem[OF ok i(1)] that i(2) in \<open>auto simp: cext_def sext_def elem_ok_def\<close>)
  have "safe (if x_ccount (texts ?s2 ! i) = 0 then xfreecore i ?s2 else Ok ?s2) (\<lambda>s'. vm_ok N X Hc Hs s' \<and> ptextp s' = ptextp s)"
    if c: "x_ccount ?t \<noteq> 0"
  proof (cases "x_ccount (texts ?s2 ! i) = 0")
    case True
    have "x_caddr ?t \<noteq> 0" using vm_elem[OF ok i(1)] c i(2) by (simp add: elem_ok_def)
    then have "safe (xfreecore i ?s2) (\<lambda>s'. vm_ok N X Hc Hs s' \<and> vframe i ?s2 s' \<and> i_text s' = i_text ?s2 \<and>
        texts s' ! i = (texts ?s2 ! i)\<lparr>XWRIT := False, x_caddr := 0\<rparr>)"
      by (intro xfreecore_safe[OF ok2[OF c] l2]) (use True t2 i in simp_all)
    then show ?thesis using True by (auto simp: vframe_def elim!: safe_mono)
  qed (use ok2[OF c] in simp)
  then show ?thesis using ok by (auto simp: xccdec_def Let_def intro!: safe_obind safe_X_LOCK elim!: safe_mono)
qed

section \<open>Attaching and detaching\<close>

lemma count_inc: "(c::u8) \<noteq> 255 \<Longrightarrow> unat (c + 1) = Suc (unat c)"
proof -
  assume c: "c \<noteq> 255"
  have "(- 1 :: u8) = 255" by simp
  then have "1 + c \<noteq> 0" using c by (metis add_eq_0_iff)
  then show ?thesis by (metis add.commute unatSuc)
qed

lemma count_dec: "(c::u8) \<noteq> 0 \<Longrightarrow> unat (c - 1) = unat c - 1"
  by (rule unat_minus_one)

abbreviation inc_at :: "nat \<Rightarrow> (nat \<Rightarrow> nat) \<Rightarrow> nat \<Rightarrow> nat" where
  "inc_at i N \<equiv> N(i := Suc (N i))"

lemma xalloc_old_safe:
  assumes ok: "vm_ok N {} Hc Hs s" and ip: "i_text s ip = Some i" and c: "x_count (texts s ! i) \<noteq> 255"
  shows "safe (xalloc_old i s) (\<lambda>r. vm_ok (inc_at i N) {} Hc Hs (snd r) \<and> ptextp (snd r) = Some i)"
proof -
  have i: "i < length (texts s)" "x_iptr (texts s ! i) = Some ip" using vm_i_text[OF ok ip] by auto
  note el = vm_elem[OF ok i(1)]
  define s1 where "s1 = upd_text i (\<lambda>t. t\<lparr>XLOCK := True\<rparr>) s"
  define s2 where "s2 = (if i \<in> set (xfl s1) then upd_text i (\<lambda>t. t\<lparr>XUNUSED := False\<rparr>) (ALLOC i s1) else s1)"
  define s3 where "s3 = (upd_text i (\<lambda>t. t\<lparr>x_count := x_count t + 1\<rparr>) s2)\<lparr>ptextp := Some i\<rparr>"
  define t where "t = (texts s ! i)\<lparr>XLOCK := True, XUNUSED := (if i \<in> set (xfl s) then False else XUNUSED (texts s ! i)), x_count := x_count (texts s ! i) + 1\<rparr>"
  have tx: "texts s3 = (texts s)[i := t]"
    using i(1) by (simp add: s3_def s2_def s1_def upd_text_def ALLOC_def t_def)
  have sel: "coremap s3 = coremap s" "swapmap s3 = swapmap s" "i_text s3 = i_text s" "xfl s3 = remove1 i (xfl s)" "ptextp s3 = Some i"
    by (simp_all add: s3_def s2_def s1_def ALLOC_def remove1_idem)
  have t3: "texts s3 ! i = t" "i < length (texts s3)" using tx i by simp_all
  have ts: "shape t = (x_daddr (texts s ! i), x_caddr (texts s ! i), x_size (texts s ! i), Some ip, x_count (texts s ! i) + 1, x_ccount (texts s ! i))"
    using i(2) by (simp add: t_def shape_def)
  have nf: "i \<notin> set (xfl s3)" using vm_distinct[OF ok] sel by simp
  have ok3: "vm_ok (inc_at i N) {} Hc Hs s3"
    by (rule vm_one[OF ok i(1) tx sel(1-3)])
      (use vm_distinct[OF ok] nf el sel ts i(2) count_inc[OF c] in \<open>auto simp: cext_def sext_def elem_ok_def shape_def unat_eq_zero[symmetric]\<close>)
  have "safe (if x_caddr (texts s3 ! i) = 0 \<and> x_ccount (texts s3 ! i) = 0
          then obind (xexpand i s3) (\<lambda>r. Ok (if fst r then (Xattached, XUNLOCK i (snd r)) else (Xswapped, snd r)))
          else Ok (Xattached, XUNLOCK i (upd_text i (\<lambda>t. t\<lparr>x_ccount := x_ccount t + 1\<rparr>) s3)))
       (\<lambda>r. vm_ok (inc_at i N) {} Hc Hs (snd r) \<and> ptextp (snd r) = Some i)"
  proof (cases "x_caddr (texts s3 ! i) = 0 \<and> x_ccount (texts s3 ! i) = 0")
    case True
    have "vshape (xzero i s3) = vshape s3"
      unfolding vshape_def xzero_def upd_text_def using True t3 by (simp add: map_update list_update_same_conv shape_def)
    then have okz: "vm_ok (inc_at i N) {} Hc Hs (xzero i s3)" using ok3 vm_ok_cong by blast
    have "safe (xexpand i s3) (\<lambda>r. vm_ok (inc_at i N) {} Hc Hs (snd r) \<and> length (texts (snd r)) = length (texts s3) \<and> xfl (snd r) = xfl s3 \<and>
        ptextp (snd r) = ptextp s3 \<and> x_iptr (texts (snd r) ! i) \<noteq> None \<and> x_size (texts (snd r) ! i) = x_size (texts s3 ! i))"
      by (rule xexpand_safe[OF okz t3(2) nf]) (use True ts t3 sext_size[OF ok i(1)] i(2) in \<open>simp_all add: shape_def\<close>)
    then show ?thesis using True sel(5) by (auto intro!: safe_obind elim!: safe_mono)
  next
    case False
    have "x_caddr t \<noteq> 0" using False t3 el i(2) ts by (auto simp: elem_ok_def shape_def)
    then have "vm_ok (inc_at i N) {} Hc Hs (upd_text i (\<lambda>t. t\<lparr>x_ccount := x_ccount t + 1\<rparr>) s3)"
      by (intro vm_one[OF ok3 t3(2), of _ "t\<lparr>x_ccount := x_ccount t + 1\<rparr>"])
        (use vm_distinct[OF ok3] vm_elem[OF ok3 t3(2)] t3 in \<open>auto simp: upd_text_def cext_def sext_def elem_ok_def\<close>)
    then show ?thesis using False sel(5) by (subst if_not_P) simp_all
  qed
  then show ?thesis unfolding xalloc_old_def Let_def s1_def s2_def s3_def by (intro safe_obind safe_X_LOCK) simp
qed

text \<open>A text without an inode holds nothing, whatever its other fields.\<close>

lemma vm_unused:
  assumes ok: "vm_ok N X Hc Hs s" and i: "i < length (texts s)" "x_iptr (texts s ! i) = None" and f: "\<And>t. x_iptr (f t) = x_iptr t" "\<And>t. x_count (f t) = x_count t"
  shows "vm_ok N X Hc Hs (upd_text i f s)"
  by (rule vm_one[OF ok i(1), of _ "f (texts s ! i)"])
    (use vm_distinct[OF ok] vm_elem[OF ok i(1)] i f in \<open>auto simp: upd_text_def cext_def sext_def elem_ok_def\<close>)

lemma vm_dropX:
  assumes ok: "vm_ok N (insert i X) Hc Hs s" and i: "i < length (texts s) \<Longrightarrow> x_iptr (texts s ! i) = None"
  shows "vm_ok N X Hc Hs s"
proof -
  have "elem_ok (xfl s) (i_text s) N X j (texts s ! j)" if "j < length (texts s)" for j
    using vm_elem[OF ok that] i that by (cases "j = i") (auto simp: elem_ok_def)
  then show ?thesis using ok by (simp add: vm_ok_def table_ok_def)
qed

lemma vm_give_swap:
  assumes ok: "vm_ok N X Hc ((a, ctod sz) # Hs) s" and i: "i < length (texts s)" "i \<notin> set (xfl s)"
    and t: "x_iptr (texts s ! i) = None" "x_count (texts s ! i) = 0" and ip: "i_text s ip = None"
    and s': "texts s' = (texts s)[i := t]" "coremap s' = coremap s" "swapmap s' = swapmap s" "xfl s' = xfl s" "i_text s' = (i_text s)(ip := Some i)"
    and sh: "shape t = (a, 0, sz, Some ip, 1, 0)"
  shows "vm_ok (inc_at i N) X Hc Hs s'"
proof -
  obtain C S where sp: "\<And>s' t. texts s' = (texts s)[i := t] \<Longrightarrow>
      space_ok Hc ((a, ctod sz) # Hs) s' \<longleftrightarrow> map_ok (coremap s') (cext t @ C) \<and> map_ok (swapmap s') (sext t @ S)"
    "mset (concat (map sext (texts s)) @ (a, ctod sz) # Hs) = mset (sext (texts s ! i) @ S)" using space_split[OF i(1), of Hc "(a, ctod sz) # Hs"] by metis
  obtain C' S' where sp': "\<And>s' t. texts s' = (texts s)[i := t] \<Longrightarrow>
      space_ok Hc Hs s' \<longleftrightarrow> map_ok (coremap s') (cext t @ C') \<and> map_ok (swapmap s') (sext t @ S')"
    "mset (concat (map cext (texts s)) @ Hc) = mset (cext (texts s ! i) @ C')"
    "mset (concat (map sext (texts s)) @ Hs) = mset (sext (texts s ! i) @ S')" using space_split[OF i(1), of Hc Hs] by metis
  have n: "cext (texts s ! i) = []" "sext (texts s ! i) = []" using t(1) by (simp_all add: cext_def sext_def)
  then have perm: "mset S = mset ((a, ctod sz) # S')" using sp(2) sp'(3) by simp
  note v = vm_maps[OF ok]
  have S: "map_ok (swapmap s) ((a, ctod sz) # S')" by (rule map_ok_perm[OF conjunct2[OF v]]) (use sp(2) perm n in simp)
  have C: "map_ok (coremap s) C'" by (rule map_ok_perm[OF conjunct1[OF v]]) (use sp'(2) n in simp)
  have "cext t = []" "sext t = [(a, ctod sz)]" using sh by (auto simp: shape_def cext_def sext_def)
  then have "space_ok Hc Hs s'" using sp'(1)[OF s'(1)] C S s'(2,3) by simp
  moreover have "table_ok (inc_at i N) X s'"
  proof (rule table_one[OF _ i(1) s'(1)])
    show "table_ok N X s" using ok by (simp add: vm_ok_def)
    show "distinct (xfl s')" using vm_distinct[OF ok] s'(4) by simp
    have no: "\<And>ip'. i_text s ip' \<noteq> Some i" using vm_elem[OF ok i(1)] t(1) by (simp add: elem_ok_def)
    show "elem_ok (xfl s') (i_text s') (inc_at i N) X i t"
      using vm_elem[OF ok i(1)] t i(2) sh s'(4,5) no by (auto simp: elem_ok_def shape_def)
    show "i_text s' ip' = Some j \<longleftrightarrow> i_text s ip' = Some j" if "j \<noteq> i" for ip' j using that ip s'(5) by auto
  qed (use s'(4) in auto)
  ultimately show ?thesis by (simp add: vm_ok_def)
qed

lemma ALLOC_ok:
  assumes ok: "vm_ok N {} Hc Hs s" and i: "i \<in> set (xfl s)"
  shows "vm_ok N {i} Hc Hs (ALLOC i s)"
  by (rule vm_one[OF ok vm_idx[OF ok i], of _ "texts s ! i"])
    (use vm_distinct[OF ok] vm_elem[OF ok vm_idx[OF ok i]] i in \<open>auto simp: ALLOC_def elem_ok_def\<close>)

text \<open>The entry is taken off the free list and cleared of the text it last held.\<close>

lemma xalloc_entry:
  assumes ok: "vm_ok N {} Hc Hs s" and i: "i \<in> set (xfl s)"
  shows "safe (if x_iptr (texts (ALLOC i s) ! i) \<noteq> None then xuntext i (ALLOC i s) else Ok (ALLOC i s))
    (\<lambda>s'. vm_ok N {} Hc Hs s' \<and> x_iptr (texts s' ! i) = None \<and> x_count (texts s' ! i) = 0 \<and> xfl s' = remove1 i (xfl s) \<and>
      length (texts s') = length (texts s) \<and> ptextp s' = ptextp s \<and> (\<forall>ip. i_text s ip = None \<longrightarrow> i_text s' ip = None))" (is "safe _ ?P")
proof -
  have l: "i < length (texts s)" by (rule vm_idx[OF ok i])
  have c: "x_count (texts s ! i) = 0" using vm_elem[OF ok l] i by (simp add: elem_ok_def)
  have a: "texts (ALLOC i s) = texts s" "xfl (ALLOC i s) = remove1 i (xfl s)" "i_text (ALLOC i s) = i_text s" "ptextp (ALLOC i s) = ptextp s" by (simp_all add: ALLOC_def)
  note ok1 = ALLOC_ok[OF ok i]
  show ?thesis
  proof (cases "x_iptr (texts s ! i)")
    case None
    then have "vm_ok N {} Hc Hs (ALLOC i s)" by (intro vm_dropX[OF ok1]) (simp add: a)
    then show ?thesis using None a c l by simp
  next
    case (Some ip)
    have l1: "i < length (texts (ALLOC i s))" and ip1: "x_iptr (texts (ALLOC i s) ! i) = Some ip" using l Some a by simp_all
    have "safe (xuntext i (ALLOC i s)) ?P"
    proof (rule safe_mono[OF xuntext_safe[OF ok1 l1 ip1]], elim conjE)
      fix s' assume q: "vm_ok N {i} Hc Hs s'" "vframe i (ALLOC i s) s'" "x_count (texts s' ! i) = x_count (texts (ALLOC i s) ! i)"
        "x_count (texts (ALLOC i s) ! i) = 0 \<longrightarrow> x_iptr (texts s' ! i) = None \<and> i_text s' = (i_text (ALLOC i s))(ip := None)"
      then have n: "x_iptr (texts s' ! i) = None" "i_text s' = (i_text s)(ip := None)" using c a by simp_all
      have "vm_ok N {} Hc Hs s'" by (rule vm_dropX[OF q(1) n(1)])
      then show "?P s'" using q n c a by (simp add: vframe_def)
    qed
    then show ?thesis using Some a by simp
  qed
qed

text \<open>From the cleared entry on: swap space, the inode, core.\<close>

lemma xalloc_fill:
  assumes ok: "vm_ok N {} Hc Hs s" and i: "i < length (texts s)" "i \<notin> set (xfl s)"
    and t: "x_iptr (texts s ! i) = None" "x_count (texts s ! i) = 0" "x_size (texts s ! i) = sz"
    and ip: "i_text s ip = None" and sz: "ctod sz \<noteq> 0" and p: "ptextp s = None"
  shows "safe (obind (malloc_swap (ctod sz) s) (\<lambda>r.
          let s4 = upd_text i (\<lambda>t. t\<lparr>x_daddr := fst r\<rparr>) (snd r) in
          if fst r = 0 then Ok (Xkilled, s4)
          else let s5 = (upd_text i (\<lambda>t. t\<lparr>x_count := 1, x_ccount := 0, x_iptr := Some ip\<rparr>) s4)
                          \<lparr>i_text := (i_text s4)(ip := Some i), i_count := (i_count s4)(ip := i_count s4 ip + 1), ptextp := Some i\<rparr>
               in obind (xexpand i s5) (\<lambda>q.
                    Ok (if fst q then (Xattached, upd_text i (\<lambda>t. t\<lparr>XWRIT := True, XLOAD := False\<rparr>) (snd q))
                        else (Xswapped, snd q)))))
    (\<lambda>r. (vm_ok N {} Hc Hs (snd r) \<and> ptextp (snd r) = None) \<or> (vm_ok (inc_at i N) {} Hc Hs (snd r) \<and> ptextp (snd r) = Some i))" (is "safe _ ?P")
proof (intro safe_obind, rule safe_mono[OF malloc_swap_safe[OF ok sz, of "{i}"]], simp add: t, elim conjE)
  fix r assume r: "vm_ok N {} Hc (plus_ext (fst r) (ctod sz) Hs) (snd r)" "tframe {i} s (snd r)"
  let ?s3 = "snd r"
  let ?s4 = "upd_text i (\<lambda>t. t\<lparr>x_daddr := fst r\<rparr>) ?s3"
  let ?s5 = "(upd_text i (\<lambda>t. t\<lparr>x_count := 1, x_ccount := 0, x_iptr := Some ip\<rparr>) ?s4)
               \<lparr>i_text := (i_text ?s4)(ip := Some i), i_count := (i_count ?s4)(ip := i_count ?s4 ip + 1), ptextp := Some i\<rparr>"
  have f: "length (texts ?s3) = length (texts s)" "xfl ?s3 = xfl s" "ptextp ?s3 = None" "texts ?s3 ! i = texts s ! i" "i_text ?s3 ip = None"
    using r(2) ip p by (simp_all add: tframe_def)
  have l: "i < length (texts ?s3)" using f i by simp
  show "safe (let s4 = ?s4 in
          if fst r = 0 then Ok (Xkilled, s4)
          else let s5 = (upd_text i (\<lambda>t. t\<lparr>x_count := 1, x_ccount := 0, x_iptr := Some ip\<rparr>) s4)
                          \<lparr>i_text := (i_text s4)(ip := Some i), i_count := (i_count s4)(ip := i_count s4 ip + 1), ptextp := Some i\<rparr>
               in obind (xexpand i s5) (\<lambda>q.
                    Ok (if fst q then (Xattached, upd_text i (\<lambda>t. t\<lparr>XWRIT := True, XLOAD := False\<rparr>) (snd q))
                        else (Xswapped, snd q)))) ?P"
  proof (cases "fst r = 0")
    case True
    have "vm_ok N {} Hc Hs ?s4" by (rule vm_unused) (use r True l f t in \<open>simp_all add: plus_ext_def\<close>)
    then show ?thesis using True f by (simp add: Let_def)
  next
    case False
    let ?t5 = "(texts s ! i)\<lparr>x_daddr := fst r, x_count := 1, x_ccount := 0, x_iptr := Some ip\<rparr>"
    have t5: "texts ?s5 ! i = ?t5" "i < length (texts ?s5)" "i \<notin> set (xfl ?s5)" using l f i by (simp_all add: texts_upd)
    have okz: "vm_ok (inc_at i N) {} Hc Hs (xzero i ?s5)"
      by (rule vm_give_swap[of N "{}" Hc "fst r" sz Hs ?s3 i ip _ "?t5\<lparr>x_caddr := 0\<rparr>"])
        (use r(1) False l f i t in \<open>simp_all add: plus_ext_def xzero_def upd_text_def shape_def\<close>)
    have "safe (xexpand i ?s5) (\<lambda>q. vm_ok (inc_at i N) {} Hc Hs (snd q) \<and> length (texts (snd q)) = length (texts ?s5) \<and> xfl (snd q) = xfl ?s5 \<and>
        ptextp (snd q) = ptextp ?s5 \<and> x_iptr (texts (snd q) ! i) \<noteq> None \<and> x_size (texts (snd q) ! i) = x_size (texts ?s5 ! i))"
    proof (rule xexpand_safe[OF okz t5(2,3)])
      show "x_size (texts ?s5 ! i) \<noteq> 0" using sz t5 t(3) by (auto simp: ctod_def)
    qed (use t5 in simp_all)
    moreover have "vm_ok (inc_at i N) {} Hc Hs (upd_text i (\<lambda>t. t\<lparr>XWRIT := True, XLOAD := False\<rparr>) s6) = vm_ok (inc_at i N) {} Hc Hs s6" for s6
      by (rule vm_ok_cong[OF vshape_upd]) (simp add: shape_def)
    ultimately show ?thesis using False by (auto simp: Let_def intro!: safe_obind elim!: safe_mono)
  qed
qed

lemma xalloc_new_safe:
  assumes ok: "vm_ok N {} Hc Hs s" and ip: "i_text s ip = None" and sz: "ctod sz \<noteq> 0" and p: "ptextp s = None"
  shows "safe (xalloc_new ip sz s) (\<lambda>r. (vm_ok N {} Hc Hs (snd r) \<and> ptextp (snd r) = None) \<or>
    (\<exists>i. vm_ok (inc_at i N) {} Hc Hs (snd r) \<and> ptextp (snd r) = Some i))" (is "safe _ ?P")
proof (cases "xfl s")
  case Nil
  then show ?thesis using ok p by (simp add: xalloc_new_def)
next
  case (Cons i fl)
  then have i: "i \<in> set (xfl s)" by simp
  show ?thesis unfolding xalloc_new_def Cons list.case Let_def
  proof (intro safe_obind, rule safe_mono[OF xalloc_entry[OF ok i]], elim conjE, rule safe_mono, rule xalloc_fill[unfolded Let_def, of N Hc Hs])
    fix s' assume a: "vm_ok N {} Hc Hs s'" "x_iptr (texts s' ! i) = None" "x_count (texts s' ! i) = 0" "xfl s' = remove1 i (xfl s)"
      "length (texts s') = length (texts s)" "ptextp s' = ptextp s" "\<forall>ip. i_text s ip = None \<longrightarrow> i_text s' ip = None"
    let ?s3 = "upd_text i (\<lambda>t. t\<lparr>XTRC := False, XWRIT := False, XLOAD := True, XLOCK := True, XWANT := False, XUNUSED := False, x_size := sz\<rparr>) s'"
    show l: "i < length (texts ?s3)" using vm_idx[OF ok i] a by simp
    show "vm_ok N {} Hc Hs ?s3" by (rule vm_unused) (use a l in simp_all)
    show "i \<notin> set (xfl ?s3)" using a vm_distinct[OF ok] by simp
    show "x_iptr (texts ?s3 ! i) = None" "x_count (texts ?s3 ! i) = 0" "x_size (texts ?s3 ! i) = sz" using a l by (simp_all add: texts_upd)
    show "i_text ?s3 ip = None" "ptextp ?s3 = None" using a ip p by simp_all
  qed (use sz in auto)
qed

lemma xalloc_safe:
  assumes ok: "vm_ok N {} Hc Hs s" and p: "ptextp s = None"
    and c: "\<And>i. i_text s ip = Some i \<Longrightarrow> x_count (texts s ! i) \<noteq> 255" and sz: "ctod (case ov of None \<Rightarrow> btoc a | Some n \<Rightarrow> n) \<noteq> 0"
  shows "safe (xalloc ip a ov s) (\<lambda>r. (vm_ok N {} Hc Hs (snd r) \<and> ptextp (snd r) = None) \<or>
    (\<exists>i. vm_ok (inc_at i N) {} Hc Hs (snd r) \<and> ptextp (snd r) = Some i))"
proof (cases "i_text s ip")
  case None
  then show ?thesis using xalloc_new_safe[OF ok None sz p] ok p by (simp add: xalloc_def)
next
  case (Some i)
  then show ?thesis using xalloc_old_safe[OF ok Some c[OF Some]] ok p by (auto simp: xalloc_def elim!: safe_mono)
qed

lemma vm_release:
  assumes ok: "vm_ok N {i} Hc Hs s" and i: "i < length (texts s)" "x_count (texts s ! i) = 0" and nf: "i \<notin> set (xfl s)"
    and fl: "distinct fl" "set fl = insert i (set (xfl s))"
  shows "vm_ok N {} Hc Hs (s\<lparr>xfl := fl\<rparr>)"
  by (rule vm_one[OF ok i(1), of _ "texts s ! i"]) (use vm_elem[OF ok i(1)] fl i nf in \<open>auto simp: elem_ok_def\<close>)

lemma xfree_safe:
  assumes ok: "vm_ok N {} Hc Hs s" and p: "ptextp s = Some i" and i: "i < length (texts s)" "N i \<noteq> 0" and c: "x_ccount (texts s ! i) \<noteq> 0"
  shows "safe (xfree s) (\<lambda>s'. vm_ok (N(i := N i - 1)) {} Hc Hs s' \<and> ptextp s' = None)"
proof -
  let ?t = "texts s ! i" and ?N = "N(i := N i - 1)"
  let ?s1 = "upd_text i (\<lambda>t. t\<lparr>XLOCK := True\<rparr>) s"
  let ?s2 = "upd_text i (\<lambda>t. t\<lparr>x_count := x_count t - 1\<rparr>) ?s1"
  let ?t2 = "?t\<lparr>XLOCK := True, x_count := x_count ?t - 1\<rparr>"
  note el = vm_elem[OF ok i(1)]
  have c0: "x_count ?t \<noteq> 0" using el i(2) by (auto simp: elem_ok_def)
  then obtain ip where ip: "x_iptr ?t = Some ip" and nf: "i \<notin> set (xfl s)" using el by (auto simp: elem_ok_def)
  have ca: "x_caddr ?t \<noteq> 0" using el ip c by (simp add: elem_ok_def)
  have tx: "texts ?s2 = (texts s)[i := ?t2]" using i by (simp add: upd_text_def)
  have t2: "texts ?s2 ! i = ?t2" "i < length (texts ?s2)" using tx i by simp_all
  have e2: "elem_ok (xfl s) (i_text s) ?N {i} i (?t2\<lparr>x_ccount := k\<rparr>)" for k
    using el ip c ca nf count_dec[OF c0] by (auto simp: elem_ok_def)
  have ok2: "vm_ok ?N {i} Hc Hs ?s2"
    by (rule vm_one[OF ok i(1) tx]) (use vm_distinct[OF ok] e2[of "x_ccount ?t2"] in \<open>auto simp: cext_def sext_def\<close>)
  have "safe (if x_count (texts ?s2 ! i) = 0
                 then (case x_iptr (texts ?s2 ! i) of
                         None \<Rightarrow> Fault
                       | Some ip \<Rightarrow>
                           if XTRC (texts ?s2 ! i) \<or> i_nlink ?s2 ip = 0
                           then omap (FREE_AT_HEAD i) (xuntext i (upd_text i (\<lambda>t. t\<lparr>XLOCK := False\<rparr>) ?s2))
                           else Ok (FREE_AT_TAIL i (upd_text i (\<lambda>t. t\<lparr>XUNUSED := (XUNUSED t \<or> XWRIT t), x_ccount := x_ccount t - 1\<rparr>) ?s2)))
                 else Ok (upd_text i (\<lambda>t. t\<lparr>x_ccount := x_ccount t - 1\<rparr>) ?s2)) (vm_ok ?N {} Hc Hs)"
  proof (cases "x_count ?t2 = 0")
    case False
    have "vm_ok ?N {} Hc Hs (upd_text i (\<lambda>t. t\<lparr>x_ccount := x_ccount t - 1\<rparr>) ?s2)"
      by (rule vm_one[OF ok2 t2(2), of _ "?t2\<lparr>x_ccount := x_ccount ?t2 - 1\<rparr>"])
        (use vm_distinct[OF ok] e2[of "x_ccount ?t2 - 1"] False t2 nf in \<open>auto simp: upd_text_def cext_def sext_def elem_ok_def\<close>)
    then show ?thesis using False t2 by simp
  next
    case True
    let ?s3 = "upd_text i (\<lambda>t. t\<lparr>XLOCK := False\<rparr>) ?s2"
    have ok3: "vm_ok ?N {i} Hc Hs ?s3" using ok2 by simp
    have t3: "i < length (texts ?s3)" "x_iptr (texts ?s3 ! i) = Some ip" "x_count (texts ?s3 ! i) = 0" using t2 ip True by (simp_all add: texts_upd)
    have "safe (xuntext i ?s3) (\<lambda>s'. vm_ok ?N {} Hc Hs (FREE_AT_HEAD i s'))"
      by (rule safe_mono[OF xuntext_safe[OF ok3 t3(1,2)]], unfold FREE_AT_HEAD_def, rule vm_release)
        (use t3 nf vm_distinct[OF ok] in \<open>auto simp: vframe_def\<close>)
    moreover let ?s4 = "upd_text i (\<lambda>t. t\<lparr>XUNUSED := (XUNUSED t \<or> XWRIT t), x_ccount := x_ccount t - 1\<rparr>) ?s2"
    have "vm_ok ?N {i} Hc Hs ?s4"
      by (rule vm_one[OF ok2 t2(2), of _ "?t2\<lparr>XUNUSED := (XUNUSED ?t2 \<or> XWRIT ?t2), x_ccount := x_ccount ?t2 - 1\<rparr>"])
        (use vm_distinct[OF ok] e2[of "x_ccount ?t2 - 1"] True t2 nf in \<open>auto simp: upd_text_def cext_def sext_def elem_ok_def\<close>)
    then have "vm_ok ?N {} Hc Hs (FREE_AT_TAIL i ?s4)"
      unfolding FREE_AT_TAIL_def by (rule vm_release) (use t2 True nf vm_distinct[OF ok] in \<open>auto simp: texts_upd\<close>)
    ultimately show ?thesis using True t2 ip by (auto intro: safe_omap)
  qed
  then show ?thesis unfolding xfree_def p option.case Let_def by (intro safe_obind safe_X_LOCK) (auto elim!: safe_mono)
qed

end
