(* ===== verification/Vm_Run.thy ===== *)
theory Vm_Run
  imports Vm_Thms
begin

text \<open>
  Runs of the text component: \<open>vm_step\<close> is one completed call, by the current process or by the rest of the kernel, with
  the space that others hold beside the state. A call that has to wait for a locked text takes no step.
\<close>

section \<open>Steps\<close>

text \<open>The processes attached to a text: \<open>R\<close> counts the others, \<^verbatim>\<open>u.u_procp->p_textp\<close> is the current one's.\<close>

definition users :: "(nat \<Rightarrow> nat) \<Rightarrow> vmem \<Rightarrow> nat \<Rightarrow> nat" where
  "users R s i = R i + (if ptextp s = Some i then 1 else 0)"

type_synonym extents = "(u16 \<times> u16) list"

inductive vm_step :: "vmem \<times> (nat \<Rightarrow> nat) \<times> extents \<times> extents \<Rightarrow> vmem \<times> (nat \<Rightarrow> nat) \<times> extents \<times> extents \<Rightarrow> bool" where
  St_xalloc: "ptextp s = None \<Longrightarrow> (\<And>i. i_text s ip = Some i \<Longrightarrow> x_count (texts s ! i) \<noteq> 255) \<Longrightarrow>
    ctod (case ov of None \<Rightarrow> btoc a | Some n \<Rightarrow> n) \<noteq> 0 \<Longrightarrow> xalloc ip a ov s = Ok (r, s') \<Longrightarrow> vm_step (s, R, Hc, Hs) (s', R, Hc, Hs)"
| St_xfree: "(\<And>i. ptextp s = Some i \<Longrightarrow> x_ccount (texts s ! i) \<noteq> 0) \<Longrightarrow> xfree s = Ok s' \<Longrightarrow> vm_step (s, R, Hc, Hs) (s', R, Hc, Hs)"
| St_xccdec: "users R s i \<noteq> 0 \<Longrightarrow> xccdec i s = Ok s' \<Longrightarrow> vm_step (s, R, Hc, Hs) (s', R, Hc, Hs)"
| St_xumount: "xumount dev s = Ok s' \<Longrightarrow> vm_step (s, R, Hc, Hs) (s', R, Hc, Hs)"
| St_malloc_core: "sz \<noteq> 0 \<Longrightarrow> malloc_core sz s = Ok (a, s') \<Longrightarrow> vm_step (s, R, Hc, Hs) (s', R, plus_ext a sz Hc, Hs)"
| St_malloc_swap: "sz \<noteq> 0 \<Longrightarrow> malloc_swap sz s = Ok (a, s') \<Longrightarrow> vm_step (s, R, Hc, Hs) (s', R, Hc, plus_ext a sz Hs)"
| St_mfree_core: "(a, sz) \<in> set Hc \<Longrightarrow> mfree_core sz a s = Ok s' \<Longrightarrow> vm_step (s, R, Hc, Hs) (s', R, remove1 (a, sz) Hc, Hs)"
| St_mfree_swap: "(a, sz) \<in> set Hs \<Longrightarrow> mfree_swap sz a s = Ok s' \<Longrightarrow> vm_step (s, R, Hc, Hs) (s', R, Hc, remove1 (a, sz) Hs)"
| St_swtch: "users R' (s\<lparr>ptextp := p\<rparr>) = users R s \<Longrightarrow> vm_step (s, R, Hc, Hs) (s\<lparr>ptextp := p\<rparr>, R', Hc, Hs)"

text \<open>The state before \<^verbatim>\<open>xinit\<close>: an empty table, the maps with what the rest of the kernel holds.\<close>

definition vm_boot :: "extents \<Rightarrow> extents \<Rightarrow> vmem \<Rightarrow> bool" where
  "vm_boot Hc Hs s \<longleftrightarrow> list_all (\<lambda>t. x_iptr t = None \<and> x_count t = 0) (texts s) \<and> i_text s = (\<lambda>ip. None) \<and> ptextp s = None \<and>
     map_ok (coremap s) Hc \<and> map_ok (swapmap s) Hs"

text \<open>A call is calm when it neither panics nor runs off the table.\<close>

definition calm :: "'a outcome \<Rightarrow> bool" where
  "calm m \<longleftrightarrow> (\<forall>msg. m \<noteq> Panic msg) \<and> m \<noteq> Fault"

lemma safe_calm: "safe m P \<Longrightarrow> calm m"
  by (cases m) (auto simp: calm_def)

definition run_ok :: "vmem \<times> (nat \<Rightarrow> nat) \<times> extents \<times> extents \<Rightarrow> bool" where
  "run_ok c = (case c of (s, R, Hc, Hs) \<Rightarrow> vm_ok (users R s) {} Hc Hs s)"

lemma users_simps:
  "ptextp s = None \<Longrightarrow> users R s = R"
  "ptextp s = Some i \<Longrightarrow> users R s = inc_at i R"
  by (auto simp: users_def)

lemma fold_FREE_AT_TAIL: "fold FREE_AT_TAIL l s = s\<lparr>xfl := xfl s @ l\<rparr>"
  by (induction l arbitrary: s) (simp_all add: FREE_AT_TAIL_def)

lemma xinit_eq: "xinit s = s\<lparr>xfl := [0..<length (texts s)]\<rparr>"
  by (simp add: xinit_def fold_FREE_AT_TAIL)

lemma boot_run:
  assumes "vm_boot Hc Hs s"
  shows "run_ok (xinit s, \<lambda>i. 0, Hc, Hs)"
proof -
  have t: "x_iptr (texts s ! i) = None" "x_count (texts s ! i) = 0" if "i < length (texts s)" for i
    using assms that by (auto simp: vm_boot_def list_all_length)
  have e: "concat (map cext (texts s)) = []" "concat (map sext (texts s)) = []"
    using assms by (auto simp: vm_boot_def list_all_iff cext_def sext_def)
  have "users (\<lambda>i. 0) (xinit s) = (\<lambda>i. 0)" using assms by (intro ext) (simp add: users_def vm_boot_def xinit_eq)
  moreover have "space_ok Hc Hs (xinit s)" unfolding space_ok_def xinit_eq using assms e by (simp del: concat_eq_Nil_conv add: vm_boot_def)
  ultimately show ?thesis using assms t
    by (simp add: run_ok_def vm_ok_def table_ok_def elem_ok_def xinit_eq vm_boot_def)
qed

section \<open>Every step keeps the invariant\<close>

lemma held_perm_remove: "(a, sz) \<in> set H \<Longrightarrow> mset (xs @ H) = mset ((a, sz) # xs @ remove1 (a, sz) H)"
  by simp

lemma mfree_core_step:
  assumes ok: "vm_ok N X Hc Hs s" and h: "(a, sz) \<in> set Hc"
  shows "safe (mfree_core sz a s) (\<lambda>s'. vm_ok N X (remove1 (a, sz) Hc) Hs s' \<and> ptextp s' = ptextp s)"
proof -
  have m: "map_ok (coremap s) ((a, sz) # concat (map cext (texts s)) @ remove1 (a, sz) Hc)"
    by (rule map_ok_perm[OF conjunct1[OF vm_maps[OF ok]] held_perm_remove[OF h]])
  show ?thesis
    by (rule safe_mono[OF mfree_core_safe[OF m]]) (use ok in \<open>auto simp: vm_ok_def space_ok_def table_ok_def\<close>)
qed

lemma mfree_swap_step:
  assumes ok: "vm_ok N X Hc Hs s" and h: "(a, sz) \<in> set Hs"
  shows "safe (mfree_swap sz a s) (\<lambda>s'. vm_ok N X Hc (remove1 (a, sz) Hs) s' \<and> ptextp s' = ptextp s)"
proof -
  have m: "map_ok (swapmap s) ((a, sz) # concat (map sext (texts s)) @ remove1 (a, sz) Hs)"
    by (rule map_ok_perm[OF conjunct2[OF vm_maps[OF ok]] held_perm_remove[OF h]])
  show ?thesis
    by (rule safe_mono[OF mfree_swap_safe[OF m]]) (use ok in \<open>auto simp: vm_ok_def space_ok_def table_ok_def\<close>)
qed

lemma xumount_safe:
  assumes ok: "vm_ok N X Hc Hs s"
  shows "safe (xumount dev s) (\<lambda>s'. vm_ok N X Hc Hs s' \<and> ptextp s' = ptextp s)"
  unfolding xumount_def
  by (rule safe_mono[OF xumount_loop_safe[OF ok, of _ "{}"]]) (auto simp: tframe_def)

lemma vm_user:
  assumes "vm_ok N X Hc Hs s" "N i \<noteq> 0"
  shows "i < length (texts s) \<and> x_iptr (texts s ! i) \<noteq> None"
proof -
  have i: "i < length (texts s)" using assms by (simp add: vm_ok_def table_ok_def)
  from vm_elem[OF assms(1) this] assms(2) show ?thesis using i by (auto simp: elem_ok_def)
qed

text \<open>What each call does to a good state.\<close>

lemma run_xfree:
  assumes ok: "vm_ok (users R s) {} Hc Hs s" and c: "\<And>i. ptextp s = Some i \<Longrightarrow> x_ccount (texts s ! i) \<noteq> 0"
  shows "safe (xfree s) (\<lambda>s'. run_ok (s', R, Hc, Hs))"
proof (cases "ptextp s")
  case None
  then show ?thesis using ok by (simp add: xfree_def run_ok_def)
next
  case (Some i)
  have i: "i < length (texts s)" using vm_user[OF ok, of i] Some by (simp add: users_def)
  have "safe (xfree s) (\<lambda>s'. vm_ok ((users R s)(i := users R s i - 1)) {} Hc Hs s' \<and> ptextp s' = None)"
    by (rule xfree_safe[OF ok Some i]) (use c Some in \<open>simp_all add: users_def\<close>)
  moreover have "(users R s)(i := users R s i - 1) = R" using users_simps(2)[OF Some] by simp
  ultimately show ?thesis by (auto simp: run_ok_def users_simps elim!: safe_mono)
qed

lemma run_xalloc:
  assumes ok: "vm_ok (users R s) {} Hc Hs s" and p: "ptextp s = None"
    and c: "\<And>i. i_text s ip = Some i \<Longrightarrow> x_count (texts s ! i) \<noteq> 255" and sz: "ctod (case ov of None \<Rightarrow> btoc a | Some n \<Rightarrow> n) \<noteq> 0"
  shows "safe (xalloc ip a ov s) (\<lambda>r. run_ok (snd r, R, Hc, Hs))"
  using xalloc_safe[OF ok p c sz, unfolded users_simps(1)[OF p]]
  by (rule safe_mono) (auto simp: run_ok_def users_simps)

lemma run_keep: "safe m (\<lambda>s'. vm_ok (users R s) {} Hc Hs s' \<and> ptextp s' = ptextp s) \<Longrightarrow> safe m (\<lambda>s'. run_ok (s', R, Hc, Hs))"
  by (erule safe_mono) (simp add: run_ok_def users_def[abs_def])

lemma run_xccdec:
  assumes ok: "vm_ok (users R s) {} Hc Hs s" and u: "users R s i \<noteq> 0"
  shows "safe (xccdec i s) (\<lambda>s'. run_ok (s', R, Hc, Hs))"
  using run_keep[OF xccdec_safe[OF ok]] vm_user[OF ok u] by blast

lemma run_malloc_core:
  assumes ok: "vm_ok (users R s) {} Hc Hs s" and sz: "sz \<noteq> 0"
  shows "safe (malloc_core sz s) (\<lambda>r. run_ok (snd r, R, plus_ext (fst r) sz Hc, Hs))"
  using malloc_core_safe[OF ok sz] by (rule safe_mono) (simp add: run_ok_def tframe_def users_def[abs_def])

lemma run_malloc_swap:
  assumes ok: "vm_ok (users R s) {} Hc Hs s" and sz: "sz \<noteq> 0"
  shows "safe (malloc_swap sz s) (\<lambda>r. run_ok (snd r, R, Hc, plus_ext (fst r) sz Hs))"
  by (rule safe_mono[OF malloc_swap_safe[OF ok sz, of "{}"]]) (simp_all add: run_ok_def tframe_def users_def[abs_def])

lemma step_run:
  assumes "vm_step c c'" "run_ok c"
  shows "run_ok c'"
  using assms
proof (induction rule: vm_step.induct)
  case (St_xalloc s ip ov a r s' R Hc Hs)
  show ?case using safe_OkD[OF run_xalloc[of R s Hc Hs ip a ov] St_xalloc(4)] St_xalloc by (simp add: run_ok_def)
next
  case (St_xfree s s' R Hc Hs)
  show ?case using safe_OkD[OF run_xfree[of R s Hc Hs] St_xfree(2)] St_xfree by (simp add: run_ok_def)
next
  case (St_xccdec R s i s' Hc Hs)
  show ?case using safe_OkD[OF run_xccdec[of R s Hc Hs i] St_xccdec(2)] St_xccdec by (simp add: run_ok_def)
next
  case (St_xumount dev s s' R Hc Hs)
  show ?case using safe_OkD[OF run_keep[OF xumount_safe] St_xumount(1)] St_xumount by (simp add: run_ok_def)
next
  case (St_malloc_core sz s a s' R Hc Hs)
  show ?case using safe_OkD[OF run_malloc_core[of R s Hc Hs sz] St_malloc_core(2)] St_malloc_core by (simp add: run_ok_def)
next
  case (St_malloc_swap sz s a s' R Hc Hs)
  show ?case using safe_OkD[OF run_malloc_swap[of R s Hc Hs sz] St_malloc_swap(2)] St_malloc_swap by (simp add: run_ok_def)
next
  case (St_mfree_core a sz Hc s s' R Hs)
  show ?case using safe_OkD[OF run_keep[OF mfree_core_step] St_mfree_core(2)] St_mfree_core by (simp add: run_ok_def)
next
  case (St_mfree_swap a sz Hs s s' R Hc)
  show ?case using safe_OkD[OF run_keep[OF mfree_swap_step] St_mfree_swap(2)] St_mfree_swap by (simp add: run_ok_def)
next
  case (St_swtch R' s p R Hc Hs)
  then show ?case by (simp add: run_ok_def)
qed

lemma runs_ok: "vm_step\<^sup>*\<^sup>* c c' \<Longrightarrow> run_ok c \<Longrightarrow> run_ok c'"
  by (induction rule: rtranclp_induct) (auto intro: step_run)

section \<open>Properties\<close>

text \<open>A small system: two table entries, \<open>0x30\<close> clicks of core and \<open>0x10\<close> blocks of swap.\<close>

definition textent0 :: textent where
  "textent0 = \<lparr>x_daddr = 0, x_caddr = 0, x_size = 0, x_iptr = None, x_count = 0, x_ccount = 0, XTRC = False, XWRIT = False,
     XLOAD = False, XLOCK = False, XWANT = False, XUNUSED = False\<rparr>"

definition vm0 :: vmem where
  "vm0 = \<lparr>texts = [textent0, textent0], xfl = [], coremap = \<lparr>m_map = [ment 48 16, ment 0 0, ment 0 0], m_limit = 2, m_name = ''coremap''\<rparr>,
     swapmap = \<lparr>m_map = [ment 16 1, ment 0 0, ment 0 0], m_limit = 2, m_name = ''swapmap''\<rparr>, freemem = 48, runin = False,
     i_text = (\<lambda>ip. None), i_nlink = (\<lambda>ip. 1), i_count = (\<lambda>ip. 1), i_dev = (\<lambda>ip. 0), ptextp = None, swaplog = []\<rparr>"

definition the_ok :: "'a outcome \<Rightarrow> 'a \<Rightarrow> 'a" where
  "the_ok m d = (case m of Ok x \<Rightarrow> x | _ \<Rightarrow> d)"

definition is_Ok :: "'a outcome \<Rightarrow> bool" where
  "is_Ok m = (case m of Ok x \<Rightarrow> True | _ \<Rightarrow> False)"

lemma the_ok_eq: "is_Ok m \<Longrightarrow> m = Ok (the_ok m d)"
  by (cases m) (simp_all add: is_Ok_def the_ok_def)

definition vm1 :: "xres \<times> vmem" where
  "vm1 = the_ok (xalloc 7 1000 None (xinit vm0)) (Xnone, vm0)"

definition vm2 :: vmem where
  "vm2 = the_ok (xfree (snd vm1)) vm0"

lemma small_map_ok: "sz \<noteq> 0 \<Longrightarrow> a \<noteq> 0 \<Longrightarrow> unat a + unat sz \<le> 65536 \<Longrightarrow> map_ok \<lparr>m_map = [ment sz a, ment 0 0, ment 0 0], m_limit = 2, m_name = n\<rparr> []"
  by (simp add: map_ok_def rmap_ok_def held_ok_def wf_map_def Let_def entries_def seg_end_def)

lemma vm0_boot: "vm_boot [] [] vm0"
  by (simp add: vm_boot_def vm0_def textent0_def small_map_ok)

lemma vm1_step: "vm_step (xinit vm0, \<lambda>i. 0, [], []) (snd vm1, \<lambda>i. 0, [], [])"
proof (rule St_xalloc)
  have "is_Ok (xalloc 7 1000 None (xinit vm0))" by code_simp
  from the_ok_eq[OF this] show "xalloc 7 1000 None (xinit vm0) = Ok (fst vm1, snd vm1)" unfolding vm1_def by simp
  show "ctod (case None of None \<Rightarrow> btoc 1000 | Some n \<Rightarrow> n) \<noteq> 0" by code_simp
qed (simp_all add: xinit_eq vm0_def)

lemma vm2_step: "vm_step (snd vm1, \<lambda>i. 0, [], []) (vm2, \<lambda>i. 0, [], [])"
proof (rule St_xfree)
  have "is_Ok (xfree (snd vm1))" by code_simp
  from the_ok_eq[OF this] show "xfree (snd vm1) = Ok vm2" unfolding vm2_def by simp
  have p: "ptextp (snd vm1) = Some 0" by code_simp
  have "x_ccount (texts (snd vm1) ! 0) \<noteq> 0" by code_simp
  then show "x_ccount (texts (snd vm1) ! i) \<noteq> 0" if "ptextp (snd vm1) = Some i" for i using that p by simp
qed

lemma vm2_run: "vm_step\<^sup>*\<^sup>* (xinit vm0, \<lambda>i. 0, [], []) (vm2, \<lambda>i. 0, [], [])"
  using vm1_step vm2_step by (meson converse_rtranclp_into_rtranclp r_into_rtranclp)



text \<open>
  C23. The text table after any such sequence: \<^verbatim>\<open>x_count\<close> is exactly the number of attached processes, \<^verbatim>\<open>x_iptr\<close> and \<^verbatim>\<open>i_text\<close> are
  inverse to each other, the free list has no entry twice, an attached text is on it exactly when nobody uses it, and a text with
  processes in core has core.
\<close>

theorem text_table_exact:
  assumes "vm_boot Hc Hs s" and "vm_step\<^sup>*\<^sup>* (xinit s, \<lambda>i. 0, Hc, Hs) (s', R, Hc', Hs')"
  shows "distinct (xfl s') \<and> (\<forall>ip i. i_text s' ip = Some i \<longleftrightarrow> i < length (texts s') \<and> x_iptr (texts s' ! i) = Some ip) \<and>
    (\<forall>i < length (texts s'). unat (x_count (texts s' ! i)) = users R s' i \<and>
      (x_iptr (texts s' ! i) \<noteq> None \<longrightarrow> (i \<in> set (xfl s') \<longleftrightarrow> users R s' i = 0) \<and> (x_ccount (texts s' ! i) \<noteq> 0 \<longrightarrow> x_caddr (texts s' ! i) \<noteq> 0)))"
proof -
  have ok: "vm_ok (users R s') {} Hc' Hs' s'" using runs_ok[OF assms(2) boot_run[OF assms(1)]] by (simp add: run_ok_def)
  have "unat (x_count (texts s' ! i)) = users R s' i \<and>
      (x_iptr (texts s' ! i) \<noteq> None \<longrightarrow> (i \<in> set (xfl s') \<longleftrightarrow> users R s' i = 0) \<and> (x_ccount (texts s' ! i) \<noteq> 0 \<longrightarrow> x_caddr (texts s' ! i) \<noteq> 0))"
    if "i < length (texts s')" for i
    using vm_elem[OF ok that] unfolding elem_ok_def by (metis empty_iff unat_eq_zero)
  moreover have "i_text s' ip = Some i" if "i < length (texts s')" "x_iptr (texts s' ! i) = Some ip" for ip i
    using vm_elem[OF ok that(1)] that(2) unfolding elem_ok_def by blast
  ultimately show ?thesis using vm_distinct[OF ok] vm_i_text[OF ok] by blast
qed

theorem text_table_exact_witness:
  "i_text vm2 7 = Some 0 \<and> x_iptr (texts vm2 ! 0) = Some 7 \<and> x_count (texts vm2 ! 0) = 0 \<and> 0 \<in> set (xfl vm2)"
proof -
  have l: "0 < length (texts vm2)" and t: "i_text vm2 7 = Some 0" by code_simp+
  have p: "ptextp vm2 = None" by code_simp
  note e = text_table_exact[OF vm0_boot vm2_run]
  have "x_iptr (texts vm2 ! 0) = Some 7" using e t by blast
  moreover have "unat (x_count (texts vm2 ! 0)) = users (\<lambda>i. 0) vm2 0" "0 \<in> set (xfl vm2) \<longleftrightarrow> users (\<lambda>i. 0) vm2 0 = 0"
    using e l calculation by auto
  ultimately show ?thesis using t p by (simp add: users_def unat_eq_zero)
qed

text \<open>
  C38. When there is no swap space for a new text, \<^verbatim>\<open>xalloc\<close> kills the process and returns with the table entry already taken off the
  free list and locked, but with no inode: no later call can find the entry again, it is lost.
\<close>

theorem xalloc_loses_entry:
  assumes ok: "vm_ok N {} Hc Hs s" and p: "ptextp s = None" and ip: "i_text s ip = None" and a: "a \<noteq> 0" "ctod (btoc a) \<noteq> 0"
    and fl: "xfl s = i # fl" and r: "xalloc ip a None s = Ok (Xkilled, s')"
  shows "xfl s' = fl \<and> i \<notin> set (xfl s') \<and> x_iptr (texts s' ! i) = None \<and> XLOCK (texts s' ! i)"
proof -
  have i: "i \<in> set (xfl s)" using fl by simp
  let ?e = "if x_iptr (texts (ALLOC i s) ! i) \<noteq> None then xuntext i (ALLOC i s) else Ok (ALLOC i s)"
  from r obtain s2 where s2: "?e = Ok s2" using ip a fl by (cases ?e) (auto simp: xalloc_def xalloc_new_def Let_def)
  define s3 where "s3 = upd_text i (\<lambda>t. t\<lparr>XTRC := False, XWRIT := False, XLOAD := True, XLOCK := True, XWANT := False, XUNUSED := False,
    x_size := btoc a\<rparr>) s2"
  note e = safe_OkD[OF xalloc_entry[OF ok i] s2]
  have l: "i < length (texts s2)" using e vm_idx[OF ok i] by simp
  have t3: "x_iptr (texts s3 ! i) = None" "XLOCK (texts s3 ! i)" "xfl s3 = fl" using e l fl by (simp_all add: s3_def texts_upd)
  have ok3: "vm_ok N {} Hc Hs s3" unfolding s3_def by (rule vm_unused) (use e l in simp_all)
  from r s2 obtain q where q: "malloc_swap (ctod (btoc a)) s3 = Ok (0, q)" "s' = upd_text i (\<lambda>t. t\<lparr>x_daddr := 0\<rparr>) q"
    using ip a fl by (cases "malloc_swap (ctod (btoc a)) s3") (auto simp: xalloc_def xalloc_new_def Let_def s3_def[symmetric] obind_Ok_iff split: if_splits)
  have "tframe {i} s3 q" using safe_OkD[OF malloc_swap_safe[OF ok3 a(2), of "{i}"] q(1)] t3 by simp
  then have "xfl q = fl" "texts q ! i = texts s3 ! i" "length (texts q) = length (texts s3)" using t3 by (simp_all add: tframe_def)
  then show ?thesis using q(2) t3 l vm_distinct[OF ok] fl by (simp add: texts_upd s3_def)
qed

theorem xalloc_loses_entry_witness:
  "\<exists>s'. xalloc 7 10000 None (xinit vm0) = Ok (Xkilled, s') \<and> xfl s' = [1] \<and> x_iptr (texts s' ! 0) = None \<and> XLOCK (texts s' ! 0)"
proof -
  have "case xalloc 7 10000 None (xinit vm0) of Ok (Xkilled, _) \<Rightarrow> True | _ \<Rightarrow> False" by code_simp
  then obtain s' where r: "xalloc 7 10000 None (xinit vm0) = Ok (Xkilled, s')" by (auto split: outcome.splits xres.splits)
  have ok: "vm_ok (users (\<lambda>i. 0) (xinit vm0)) {} [] [] (xinit vm0)" using boot_run[OF vm0_boot] by (simp add: run_ok_def)
  have "ptextp (xinit vm0) = None" "i_text (xinit vm0) 7 = None" "xfl (xinit vm0) = 0 # [1]" by (simp_all add: xinit_eq vm0_def upt_rec)
  moreover have "(10000::u16) \<noteq> 0" "ctod (btoc 10000) \<noteq> 0" by code_simp+
  ultimately show ?thesis using xalloc_loses_entry[OF ok _ _ _ _ _ r] r by blast
qed

text \<open>
  An executable whose text size is within 63 bytes of 64K makes the kernel panic: rounding the size up to clicks wraps around to
  zero, the checks on the way to \<^verbatim>\<open>xalloc\<close> see an empty text, and \<^verbatim>\<open>malloc\<close> is asked for no space at all.
\<close>

lemma xalloc_panics_on_wrapped_size:
  assumes "65473 \<le> a" and "i_text s ip = None" and "xfl s = i # fl" and "x_iptr (texts s ! i) = None"
  shows "xalloc ip a None s = Panic ''malloc: size = 0''"
proof -
  have a: "65473 \<le> unat a" using assms(1) by (simp add: word_le_nat_alt)
  have "unat (a + 63) = (unat a + 63) mod 65536" by (simp add: unat_word_ariths)
  also have "\<dots> = (unat a + 63 - 65536) mod 65536" using a by (simp add: le_mod_geq)
  also have "\<dots> = unat a - 65473" using a unat_lt_16[of a] by (subst mod_less) linarith+
  finally have "unat (a + 63) < 64" using unat_lt_16[of a] by linarith
  then have "unat (btoc a) = 0" by (simp add: btoc_def drop_bit_eq_div unat_div)
  then have b: "btoc a = 0" by (simp add: unat_eq_zero)
  have "a \<noteq> 0" using assms(1) by auto
  moreover have "ctod (0::u16) = 0" by (simp add: ctod_def)
  ultimately show ?thesis using assms b
    by (simp add: xalloc_def xalloc_new_def Let_def ALLOC_def malloc_swap_def malloc_swap1_def rmalloc_def)
qed

end
