(* ===== verification/Bio.thy ===== *)
theory Bio
  imports Prelude
begin

text \<open>
  The buffer cache: \<^verbatim>\<open>sys/sys/ufs_bio.c\<close> with \<^verbatim>\<open>sys/h/buf.h\<close> and \<^verbatim>\<open>binit\<close> of \<^verbatim>\<open>sys/sys/init_main.c\<close>. A buffer is an
  index; the hash chains and the free lists, doubly linked through the buffers in C, are lists of indices, and taking a buffer
  off its list takes it off whichever list it is on. The chain of empty buffers, which C hangs on \<^verbatim>\<open>bfreelist[BQ_AGE]\<close>, has number 16. A
  flag word is a set of flags, the contents of a buffer a list of bytes.

  A device takes a buffer into \<open>ioq\<close> and is done with it at some later time (\<open>io_done\<close>, which ends in \<^verbatim>\<open>biodone\<close>). A routine that
  sleeps is cut there: a \<open>task\<close> says where a process stands in the routine and what it will do next, and \<open>run\<close> takes it from there to the next place
  where it sleeps or returns. Wakeups are not modelled: a process that waits may look again at any time, as it must be prepared
  to. The memory address of a buffer, the statistics and \<^verbatim>\<open>mapfree\<close> are left out.
\<close>

section \<open>State\<close>

datatype bflag = B_READ | B_DONE | B_ERROR | B_BUSY | B_PHYS | B_MAP | B_WANTED | B_AGE | B_ASYNC | B_DELWRI | B_INVAL |
  B_LOCKED | B_UBAREMAP | B_RAMREMAP

record bufhdr =
  b_flags :: "bflag set"
  b_bcount :: nat
  b_error :: nat
  b_dev :: int
  b_blkno :: int
  b_data :: "u8 list"

record bcache =
  buf :: "nat \<Rightarrow> bufhdr"
  nbuf :: nat
  bufhash :: "nat \<Rightarrow> nat list"
  bfreelist :: "nat \<Rightarrow> nat list"
  bq_wanted :: bool
  ioq :: "nat list"
  blocks :: "int \<times> int \<Rightarrow> u8 list"
  tapes :: "int \<Rightarrow> bool"

definition NODEV :: int where "NODEV = - 1"
definition EIO :: nat where "EIO = 5"
definition BQ_LOCKED :: nat where "BQ_LOCKED = 0"
definition BQ_LRU :: nat where "BQ_LRU = 1"
definition BQ_AGE :: nat where "BQ_AGE = 2"
definition EMPTIES :: nat where "EMPTIES = 16"

definition BUFHASH :: "int \<Rightarrow> int \<Rightarrow> nat" where
  "BUFHASH dev blkno = nat ((dev + blkno) mod 16)"

definition fsbtodb :: "int \<Rightarrow> int" where
  "fsbtodb b = 2 * b"

definition upd_buf :: "nat \<Rightarrow> (bufhdr \<Rightarrow> bufhdr) \<Rightarrow> bcache \<Rightarrow> bcache" where
  "upd_buf i f s = s\<lparr>buf := (buf s)(i := f (buf s i))\<rparr>"

definition set_flags :: "nat \<Rightarrow> (bflag set \<Rightarrow> bflag set) \<Rightarrow> bcache \<Rightarrow> bcache" where
  "set_flags i f = upd_buf i (\<lambda>b. b\<lparr>b_flags := f (b_flags b)\<rparr>)"

abbreviation flags :: "bcache \<Rightarrow> nat \<Rightarrow> bflag set" where
  "flags s i \<equiv> b_flags (buf s i)"

section \<open>Lists\<close>

definition bremhash :: "nat \<Rightarrow> bcache \<Rightarrow> bcache" where
  "bremhash i s = s\<lparr>bufhash := (\<lambda>h. remove1 i (bufhash s h))\<rparr>"

definition binshash :: "nat \<Rightarrow> nat \<Rightarrow> bcache \<Rightarrow> bcache" where
  "binshash i h s = s\<lparr>bufhash := (bufhash s)(h := i # bufhash s h)\<rparr>"

definition bremfree :: "nat \<Rightarrow> bcache \<Rightarrow> bcache" where
  "bremfree i s = s\<lparr>bfreelist := (\<lambda>q. remove1 i (bfreelist s q))\<rparr>"

definition binsheadfree :: "nat \<Rightarrow> nat \<Rightarrow> bcache \<Rightarrow> bcache" where
  "binsheadfree i q s = s\<lparr>bfreelist := (bfreelist s)(q := i # bfreelist s q)\<rparr>"

definition binstailfree :: "nat \<Rightarrow> nat \<Rightarrow> bcache \<Rightarrow> bcache" where
  "binstailfree i q s = s\<lparr>bfreelist := (bfreelist s)(q := bfreelist s q @ [i])\<rparr>"

definition notavail :: "nat \<Rightarrow> bcache \<Rightarrow> bcache" where
  "notavail i s = set_flags i (insert B_BUSY) (bremfree i s)"

definition brelse :: "nat \<Rightarrow> bcache \<Rightarrow> bcache" where
  "brelse i s =
     (let s1 = s\<lparr>bq_wanted := False\<rparr>;
          s2 = (if B_ERROR \<in> flags s1 i
                then if B_LOCKED \<in> flags s1 i then set_flags i (\<lambda>F. F - {B_ERROR}) s1
                     else upd_buf i (\<lambda>b. b\<lparr>b_dev := NODEV\<rparr>) s1
                else s1);
          s3 = (if flags s2 i \<inter> {B_ERROR, B_INVAL} \<noteq> {} then binsheadfree i BQ_AGE s2
                else if B_LOCKED \<in> flags s2 i then binstailfree i BQ_LOCKED s2
                else if B_AGE \<in> flags s2 i then binstailfree i BQ_AGE s2
                else binstailfree i BQ_LRU s2)
      in set_flags i (\<lambda>F. F - {B_WANTED, B_BUSY, B_ASYNC, B_AGE}) s3)"

definition binit :: "bcache \<Rightarrow> bcache" where
  "binit s =
     fold (\<lambda>i s. brelse i (set_flags i (\<lambda>F. {B_BUSY, B_INVAL}) (binshash i EMPTIES (upd_buf i (\<lambda>b. b\<lparr>b_dev := NODEV, b_bcount := 0\<rparr>) s))))
       [0..<nbuf s] (s\<lparr>bufhash := (\<lambda>h. []), bfreelist := (\<lambda>q. [])\<rparr>)"

section \<open>Input and output\<close>

text \<open>The device's \<^verbatim>\<open>d_strategy\<close> takes the buffer.\<close>

definition strategy :: "nat \<Rightarrow> bcache \<Rightarrow> bcache" where
  "strategy i s = s\<lparr>ioq := ioq s @ [i]\<rparr>"

definition geterror :: "bufhdr \<Rightarrow> nat" where
  "geterror b = (if B_ERROR \<in> b_flags b then if b_error b = 0 then EIO else b_error b else 0)"

definition biodone :: "nat \<Rightarrow> bcache \<Rightarrow> bcache outcome" where
  "biodone i s =
     (if B_DONE \<in> flags s i then Panic ''dup biodone''
      else let s1 = set_flags i (insert B_DONE) s
           in if B_ASYNC \<in> flags s1 i then Ok (brelse i s1) else Ok (set_flags i (\<lambda>F. F - {B_WANTED}) s1))"

text \<open>The device is done: it has moved the data, or reports the error \<open>e\<close>.\<close>

definition transfer :: "nat \<Rightarrow> bcache \<Rightarrow> bcache" where
  "transfer i s =
     (let b = buf s i in
      if B_READ \<in> b_flags b then upd_buf i (\<lambda>b. b\<lparr>b_data := blocks s (b_dev b, b_blkno b)\<rparr>) s
      else s\<lparr>blocks := (blocks s)((b_dev b, b_blkno b) := b_data b)\<rparr>)"

definition io_done :: "nat \<Rightarrow> nat option \<Rightarrow> bcache \<Rightarrow> bcache outcome" where
  "io_done i err s =
     (let s1 = s\<lparr>ioq := remove1 i (ioq s)\<rparr> in
      biodone i (case err of
                   None \<Rightarrow> transfer i s1
                 | Some e \<Rightarrow> upd_buf i (\<lambda>b. b\<lparr>b_error := e, b_flags := insert B_ERROR (b_flags b)\<rparr>) s1))"

text \<open>\<^verbatim>\<open>bwrite\<close> up to the wait; the result says whether it waits for the device and then releases the buffer.\<close>

definition bwrite :: "nat \<Rightarrow> bcache \<Rightarrow> bool \<times> bcache" where
  "bwrite i s =
     (let flag = flags s i;
          s1 = upd_buf i (\<lambda>b. b\<lparr>b_flags := b_flags b - {B_READ, B_DONE, B_ERROR, B_DELWRI}, b_bcount := 1024\<rparr>) s;
          s2 = strategy i s1
      in if B_ASYNC \<notin> flag then (True, s2)
         else (False, if B_DELWRI \<in> flag then set_flags i (insert B_AGE) s2 else s2))"

definition bawrite :: "nat \<Rightarrow> bcache \<Rightarrow> bcache" where
  "bawrite i s = snd (bwrite i (set_flags i (insert B_ASYNC) s))"

definition bdwrite :: "nat \<Rightarrow> bcache \<Rightarrow> bcache" where
  "bdwrite i s =
     (if tapes s (b_dev (buf s i)) then bawrite i s
      else brelse i (set_flags i (\<lambda>F. F \<union> {B_DELWRI, B_DONE}) s))"

section \<open>Finding a buffer\<close>

definition holds_block :: "bcache \<Rightarrow> int \<Rightarrow> int \<Rightarrow> nat \<Rightarrow> bool" where
  "holds_block s dev blkno i \<longleftrightarrow> b_blkno (buf s i) = fsbtodb blkno \<and> b_dev (buf s i) = dev \<and> B_INVAL \<notin> flags s i"

definition incore :: "int \<Rightarrow> int \<Rightarrow> bcache \<Rightarrow> bool" where
  "incore dev blkno s = list_ex (holds_block s dev blkno) (bufhash s (BUFHASH dev blkno))"

definition getnew_queue :: "bcache \<Rightarrow> nat list" where
  "getnew_queue s = (if bfreelist s BQ_AGE \<noteq> [] then bfreelist s BQ_AGE else bfreelist s BQ_LRU)"

definition bq_length :: "bcache \<Rightarrow> nat" where
  "bq_length s = length (bfreelist s BQ_AGE) + length (bfreelist s BQ_LRU)"

lemma upd_buf_sel [simp]:
  "nbuf (upd_buf i f s) = nbuf s" "bufhash (upd_buf i f s) = bufhash s" "bfreelist (upd_buf i f s) = bfreelist s" "ioq (upd_buf i f s) = ioq s"
  "blocks (upd_buf i f s) = blocks s" "tapes (upd_buf i f s) = tapes s" "buf (upd_buf i f s) = (buf s)(i := f (buf s i))" "bq_wanted (upd_buf i f s) = bq_wanted s"
  by (simp_all add: upd_buf_def)

lemma set_flags_sel [simp]:
  "nbuf (set_flags i f s) = nbuf s" "bufhash (set_flags i f s) = bufhash s" "bfreelist (set_flags i f s) = bfreelist s" "ioq (set_flags i f s) = ioq s"
  "blocks (set_flags i f s) = blocks s" "tapes (set_flags i f s) = tapes s" "bq_wanted (set_flags i f s) = bq_wanted s"
  "buf (set_flags i f s) = (buf s)(i := (buf s i)\<lparr>b_flags := f (flags s i)\<rparr>)"
  by (simp_all add: set_flags_def)

lemma bawrite_freelist [simp]: "bfreelist (bawrite i s) = bfreelist s"
  by (simp add: bawrite_def bwrite_def Let_def strategy_def)

lemma notavail_freelist [simp]: "bfreelist (notavail i s) = (\<lambda>q. remove1 i (bfreelist s q))"
  by (simp add: notavail_def bremfree_def)

lemma getnew_smaller:
  assumes "getnew_queue s = i # q"
  shows "bq_length (notavail i s) < bq_length s"
proof -
  have i: "i \<in> set (bfreelist s BQ_AGE) \<union> set (bfreelist s BQ_LRU)" using assms by (auto simp: getnew_queue_def split: if_splits)
  have le: "length (remove1 i l) \<le> length l" for l :: "nat list" by (simp add: length_remove1)
  have less: "i \<in> set l \<Longrightarrow> length (remove1 i l) < length l" for l :: "nat list" by (simp add: length_remove1) (metis diff_Suc_less length_pos_if_in_set One_nat_def)
  show ?thesis using i le[of "bfreelist s BQ_AGE"] le[of "bfreelist s BQ_LRU"] less[of "bfreelist s BQ_AGE"] less[of "bfreelist s BQ_LRU"]
    by (auto simp: bq_length_def)
qed

text \<open>\<open>None\<close>: no buffer is free and the process sleeps.\<close>

function getnewbuf :: "bcache \<Rightarrow> nat option \<times> bcache" where
  "getnewbuf s =
     (case getnew_queue s of
        [] \<Rightarrow> (None, s\<lparr>bq_wanted := True\<rparr>)
      | i # _ \<Rightarrow>
          let s1 = notavail i s in
          if B_DELWRI \<in> flags s1 i then getnewbuf (bawrite i s1)
          else (Some i, set_flags i (\<lambda>F. {B_BUSY}) s1))"
  by pat_completeness auto
termination
proof (relation "measure bq_length")
  fix s i q s1 assume "getnew_queue s = i # q" "s1 = notavail i s"
  then show "(bawrite i s1, s) \<in> measure bq_length"
    using getnew_smaller[of s i q] by (simp add: bq_length_def)
qed simp

declare getnewbuf.simps [simp del]

definition assign_buf :: "nat \<Rightarrow> int \<Rightarrow> int \<Rightarrow> bcache \<Rightarrow> bcache" where
  "assign_buf i dev blkno s =
     upd_buf i (\<lambda>b. b\<lparr>b_dev := dev, b_blkno := fsbtodb blkno, b_error := 0\<rparr>)
       (binshash i (BUFHASH dev blkno) (bremhash i (upd_buf i (\<lambda>b. b\<lparr>b_bcount := 0\<rparr>) s)))"

definition empty_buf :: "nat \<Rightarrow> bcache \<Rightarrow> bcache" where
  "empty_buf i s =
     upd_buf i (\<lambda>b. b\<lparr>b_dev := NODEV, b_error := 0\<rparr>)
       (binshash i EMPTIES (bremhash i (upd_buf i (\<lambda>b. b\<lparr>b_flags := insert B_INVAL (b_flags b), b_bcount := 0\<rparr>) s)))"

section \<open>Where a process stands\<close>

text \<open>
  Who called \<^verbatim>\<open>getblk\<close>: a file system routine itself, \<^verbatim>\<open>bread\<close>, or \<^verbatim>\<open>breada\<close> for its first block (with the
  block to read ahead) or for the block to read ahead (with the buffer of the first one, if it was read, and its number).
\<close>

datatype caller = Plain | ForRead | First int | Ahead "nat option" int

text \<open>
  \<open>Hold\<close> has the buffer, the block it asked \<^verbatim>\<open>bread\<close> or \<^verbatim>\<open>breada\<close> for, and the error; \<open>Biowait\<close> waits for a read; \<open>Release\<close> waits in
  \<^verbatim>\<open>bwrite\<close>, called by a file system routine or by \<^verbatim>\<open>blkflush\<close>; \<open>Get\<close> is at the label \<^verbatim>\<open>loop\<close> of \<^verbatim>\<open>getblk\<close>, \<open>New\<close> and
  \<open>Newempty\<close> are at that of \<^verbatim>\<open>getnewbuf\<close>, called by \<^verbatim>\<open>getblk\<close> and by \<^verbatim>\<open>geteblk\<close>; \<open>Flush\<close> is at that of \<^verbatim>\<open>blkflush\<close>.
\<close>

datatype task = Idle | Hold "(int \<times> int) option" nat nat | Biowait int int nat | Release nat "(int \<times> int) option" |
  Get int int caller | New int int caller | Newempty | Flush int int

definition start_read :: "bflag set \<Rightarrow> nat \<Rightarrow> bcache \<Rightarrow> bcache" where
  "start_read F i s = strategy i (upd_buf i (\<lambda>b. b\<lparr>b_flags := b_flags b \<union> F, b_bcount := 1024\<rparr>) s)"

definition has_data :: "bcache \<Rightarrow> nat \<Rightarrow> bool" where
  "has_data s i \<longleftrightarrow> flags s i \<inter> {B_DONE, B_DELWRI} \<noteq> {}"

fun breada_end :: "nat option \<Rightarrow> int \<Rightarrow> int \<Rightarrow> bcache \<Rightarrow> task \<times> bcache" where
  "breada_end None dev blkno s = (Get dev blkno ForRead, s)"
| "breada_end (Some i) dev blkno s = (Biowait dev blkno i, s)"

definition breada_ahead :: "nat option \<Rightarrow> int \<Rightarrow> int \<Rightarrow> int \<Rightarrow> bcache \<Rightarrow> task \<times> bcache" where
  "breada_ahead bp dev blkno rablkno s =
     (if rablkno \<noteq> 0 \<and> \<not> incore dev rablkno s then (Get dev rablkno (Ahead bp blkno), s) else breada_end bp dev blkno s)"

definition breada :: "int \<Rightarrow> int \<Rightarrow> int \<Rightarrow> bcache \<Rightarrow> task \<times> bcache" where
  "breada dev blkno rablkno s =
     (if \<not> incore dev blkno s then (Get dev blkno (First rablkno), s) else breada_ahead None dev blkno rablkno s)"

text \<open>\<^verbatim>\<open>getblk\<close> returns: what its caller does with the buffer.\<close>

fun got_block :: "caller \<Rightarrow> int \<Rightarrow> int \<Rightarrow> nat \<Rightarrow> bcache \<Rightarrow> task \<times> bcache" where
  "got_block Plain dev blkno i s = (Hold None i 0, s)"
| "got_block ForRead dev blkno i s =
     (if has_data s i then (Hold (Some (dev, blkno)) i 0, s) else (Biowait dev blkno i, start_read {B_READ} i s))"
| "got_block (First rablkno) dev blkno i s =
     breada_ahead (Some i) dev blkno rablkno (if has_data s i then s else start_read {B_READ} i s)"
| "got_block (Ahead bp blkno0) dev rablkno i s =
     breada_end bp dev blkno0 (if has_data s i then brelse i s else start_read {B_READ, B_ASYNC} i s)"

definition getblk_new :: "int \<Rightarrow> int \<Rightarrow> caller \<Rightarrow> bcache \<Rightarrow> task \<times> bcache" where
  "getblk_new dev blkno c s =
     (case getnewbuf s of
        (None, s1) \<Rightarrow> (New dev blkno c, s1)
      | (Some i, s1) \<Rightarrow> got_block c dev blkno i (assign_buf i dev blkno s1))"

definition getblk :: "int \<Rightarrow> int \<Rightarrow> caller \<Rightarrow> bcache \<Rightarrow> task \<times> bcache" where
  "getblk dev blkno c s =
     (case find (holds_block s dev blkno) (bufhash s (BUFHASH dev blkno)) of
        Some i \<Rightarrow>
          if B_BUSY \<in> flags s i then (Get dev blkno c, set_flags i (insert B_WANTED) s)
          else got_block c dev blkno i (notavail i s)
      | None \<Rightarrow> getblk_new dev blkno c s)"

definition bread :: "int \<Rightarrow> int \<Rightarrow> bcache \<Rightarrow> task \<times> bcache" where
  "bread dev blkno s = getblk dev blkno ForRead s"

definition geteblk :: "bcache \<Rightarrow> task \<times> bcache" where
  "geteblk s =
     (case getnewbuf s of
        (None, s1) \<Rightarrow> (Newempty, s1)
      | (Some i, s1) \<Rightarrow> (Hold None i 0, empty_buf i s1))"

section \<open>Flushing\<close>

definition blkflush :: "int \<Rightarrow> int \<Rightarrow> bcache \<Rightarrow> task \<times> bcache" where
  "blkflush dev blkno s =
     (case find (\<lambda>i. holds_block s dev blkno i \<and> flags s i \<inter> {B_BUSY, B_DELWRI} \<noteq> {}) (bufhash s (BUFHASH dev blkno)) of
        None \<Rightarrow> (Idle, s)
      | Some i \<Rightarrow>
          if B_BUSY \<in> flags s i then (Flush dev blkno, set_flags i (insert B_WANTED) s)
          else case bwrite i (notavail i s) of
                 (True, s1) \<Rightarrow> (Release i (Some (dev, blkno)), s1)
               | (False, s1) \<Rightarrow> (Flush dev blkno, s1))"

definition bflush_next :: "int \<Rightarrow> bcache \<Rightarrow> nat option" where
  "bflush_next dev s = find (\<lambda>i. B_DELWRI \<in> flags s i \<and> b_dev (buf s i) = dev) (bfreelist s BQ_LOCKED @ bfreelist s BQ_LRU @ bfreelist s BQ_AGE)"

definition all_length :: "bcache \<Rightarrow> nat" where
  "all_length s = length (bfreelist s BQ_LOCKED @ bfreelist s BQ_LRU @ bfreelist s BQ_AGE)"

lemma bwrite_freelist [simp]: "bfreelist (snd (bwrite i s)) = bfreelist s"
  by (simp add: bwrite_def Let_def strategy_def)

lemma find_Some_in: "find P xs = Some x \<Longrightarrow> x \<in> set xs \<and> P x"
  by (induction xs) (auto split: if_splits)

lemma bflush_smaller:
  assumes "bflush_next dev s = Some i"
  shows "all_length (notavail i s) < all_length s"
proof -
  have i: "i \<in> set (bfreelist s BQ_LOCKED) \<union> set (bfreelist s BQ_LRU) \<union> set (bfreelist s BQ_AGE)"
    using find_Some_in[OF assms[unfolded bflush_next_def]] by auto
  have le: "length (remove1 i l) \<le> length l" for l :: "nat list" by (simp add: length_remove1)
  have less: "i \<in> set l \<Longrightarrow> length (remove1 i l) < length l" for l :: "nat list" by (simp add: length_remove1) (metis diff_Suc_less length_pos_if_in_set One_nat_def)
  show ?thesis using i le[of "bfreelist s BQ_AGE"] le[of "bfreelist s BQ_LRU"] le[of "bfreelist s BQ_LOCKED"]
      less[of "bfreelist s BQ_AGE"] less[of "bfreelist s BQ_LRU"] less[of "bfreelist s BQ_LOCKED"]
    by (auto simp: all_length_def)
qed

function bflush :: "int \<Rightarrow> bcache \<Rightarrow> bcache" where
  "bflush dev s =
     (case bflush_next dev s of
        None \<Rightarrow> s
      | Some i \<Rightarrow> bflush dev (snd (bwrite i (notavail i (set_flags i (insert B_ASYNC) s)))))"
  by pat_completeness auto
termination
proof (relation "measure (\<lambda>(dev, s). all_length s)")
  fix dev s i assume "bflush_next dev s = Some i"
  then show "((dev, snd (bwrite i (notavail i (set_flags i (insert B_ASYNC) s)))), dev, s) \<in> measure (\<lambda>(dev, s). all_length s)"
    using bflush_smaller[of dev s i] by (simp add: all_length_def)
qed simp

declare bflush.simps [simp del]

definition binval :: "int \<Rightarrow> bcache \<Rightarrow> bcache" where
  "binval dev s =
     s\<lparr>buf := (\<lambda>i. if b_dev (buf s i) = dev \<and> list_ex (\<lambda>h. i \<in> set (bufhash s h)) [0..<16]
                  then (buf s i)\<lparr>b_flags := insert B_INVAL (flags s i)\<rparr> else buf s i)\<rparr>"

section \<open>Running\<close>

fun run :: "task \<Rightarrow> bcache \<Rightarrow> (task \<times> bcache) option" where
  "run Idle s = None"
| "run (Hold r i e) s = None"
| "run (Biowait dev blkno i) s = (if B_DONE \<in> flags s i then Some (Hold (Some (dev, blkno)) i (geterror (buf s i)), s) else None)"
| "run (Release i k) s =
     (if B_DONE \<in> flags s i then Some (case k of None \<Rightarrow> Idle | Some (dev, blkno) \<Rightarrow> Flush dev blkno, brelse i s) else None)"
| "run (Get dev blkno c) s = Some (getblk dev blkno c s)"
| "run Newempty s = Some (geteblk s)"
| "run (New dev blkno c) s = Some (getblk_new dev blkno c s)"
| "run (Flush dev blkno) s = Some (blkflush dev blkno s)"

text \<open>
  One step of the whole: a process calls a routine, runs on, changes the contents of a buffer it has, or gives it up; a device is done; or
  somebody flushes or invalidates the buffers of a device. The event says which.
\<close>

datatype bio_event = Calls "int option" | Runs nat | Modifies nat "u8 list" | Releases nat | Writes nat | Finishes nat "nat option" | Flushes | Invalidates

inductive bio_step :: "(nat \<Rightarrow> task) \<times> bcache \<Rightarrow> bio_event \<Rightarrow> (nat \<Rightarrow> task) \<times> bcache \<Rightarrow> bool" where
  Call_getblk: "T p = Idle \<Longrightarrow> c = Plain \<or> c = ForRead \<Longrightarrow> bio_step (T, s) (Calls (Some dev)) (T(p := Get dev blkno c), s)"
| Call_breada: "T p = Idle \<Longrightarrow> breada dev blkno rablkno s = (t, s') \<Longrightarrow> bio_step (T, s) (Calls (Some dev)) (T(p := t), s')"
| Call_geteblk: "T p = Idle \<Longrightarrow> bio_step (T, s) (Calls None) (T(p := Newempty), s)"
| Call_blkflush: "T p = Idle \<Longrightarrow> bio_step (T, s) (Calls (Some dev)) (T(p := Flush dev blkno), s)"
| Run: "run (T p) s = Some (t, s') \<Longrightarrow> bio_step (T, s) (Runs p) (T(p := t), s')"
| Modify: "T p = Hold r i e \<Longrightarrow> bio_step (T, s) (Modifies i d) (T, upd_buf i (\<lambda>b. b\<lparr>b_data := d\<rparr>) s)"
| Brelse: "T p = Hold r i e \<Longrightarrow> bio_step (T, s) (Releases i) (T(p := Idle), brelse i s)"
| Bwrite: "T p = Hold r i e \<Longrightarrow> bwrite i s = (True, s') \<Longrightarrow> bio_step (T, s) (Writes i) (T(p := Release i None), s')"
| Bawrite: "T p = Hold r i e \<Longrightarrow> bio_step (T, s) (Writes i) (T(p := Idle), bawrite i s)"
| Bdwrite: "T p = Hold r i e \<Longrightarrow> bio_step (T, s) (Writes i) (T(p := Idle), bdwrite i s)"
| Io_done: "i \<in> set (ioq s) \<Longrightarrow> io_done i err s = Ok s' \<Longrightarrow> bio_step (T, s) (Finishes i err) (T, s')"
| Bflush: "bio_step (T, s) Flushes (T, bflush dev s)"
| Binval: "bio_step (T, s) Invalidates (T, binval dev s)"

inductive bio_run :: "(nat \<Rightarrow> task) \<times> bcache \<Rightarrow> bio_event list \<Rightarrow> (nat \<Rightarrow> task) \<times> bcache \<Rightarrow> bool" where
  Run_Nil: "bio_run c [] c"
| Run_snoc: "bio_run c es c' \<Longrightarrow> bio_step c' e c'' \<Longrightarrow> bio_run c (es @ [e]) c''"

end
