(* ===== verification/Bio_Props.thy ===== *)
theory Bio_Props
  imports Bio
begin

text \<open>
  The queues of the buffer cache: whatever processes, devices and flushes do, and in whatever order, every buffer is on one
  hash chain, a buffer that is not busy is on one free list, and a busy one belongs to one process or to a device. \<open>M\<close> says
  which (\<open>mode\<close>); \<open>cache_ok\<close> is the invariant, \<open>tasks_ok\<close> ties it to where the processes stand.
\<close>

section \<open>Lists that share out the buffers\<close>

definition in_lists :: "(nat \<Rightarrow> nat list) \<Rightarrow> (nat \<Rightarrow> nat option) \<Rightarrow> nat \<Rightarrow> bool" where
  "in_lists f c n \<longleftrightarrow> (\<forall>k. distinct (f k) \<and> set (f k) = {i. i < n \<and> c i = Some k})"

lemma in_lists_remove: "in_lists f c n \<Longrightarrow> in_lists (\<lambda>k. remove1 i (f k)) (c(i := None)) n"
  by (auto simp: in_lists_def)

lemma in_lists_head: "in_lists f c n \<Longrightarrow> i < n \<Longrightarrow> c i = None \<Longrightarrow> in_lists (f(k := i # f k)) (c(i := Some k)) n"
  by (auto simp: in_lists_def)

lemma in_lists_tail: "in_lists f c n \<Longrightarrow> i < n \<Longrightarrow> c i = None \<Longrightarrow> in_lists (f(k := f k @ [i])) (c(i := Some k)) n"
  by (auto simp: in_lists_def)

lemma in_listsD: "in_lists f c n \<Longrightarrow> i \<in> set (f k) \<Longrightarrow> i < n \<and> c i = Some k"
  by (auto simp: in_lists_def)

section \<open>The invariant\<close>

datatype mode = MFree | MAsync | MTask nat

fun mode_ok :: "mode \<Rightarrow> bflag set \<Rightarrow> bool \<Rightarrow> bool" where
  "mode_ok MFree F q \<longleftrightarrow> B_BUSY \<notin> F \<and> B_ASYNC \<notin> F \<and> \<not> q \<and> (B_DELWRI \<in> F \<longrightarrow> B_DONE \<in> F)"
| "mode_ok MAsync F q \<longleftrightarrow> B_BUSY \<in> F \<and> B_ASYNC \<in> F \<and> q \<and> B_DONE \<notin> F \<and> B_DELWRI \<notin> F"
| "mode_ok (MTask p) F q \<longleftrightarrow> B_BUSY \<in> F \<and> B_ASYNC \<notin> F \<and> (q \<longrightarrow> B_DONE \<notin> F) \<and> (B_DELWRI \<in> F \<longrightarrow> B_DONE \<in> F)"

definition hash_ok :: "bcache \<Rightarrow> bool" where
  "hash_ok s \<longleftrightarrow> (\<exists>c. in_lists (bufhash s) c (nbuf s) \<and> (\<forall>i<nbuf s. c i \<noteq> None))"

definition avail_ok :: "(nat \<Rightarrow> mode) \<Rightarrow> bcache \<Rightarrow> bool" where
  "avail_ok M s \<longleftrightarrow> (\<exists>q. in_lists (bfreelist s) q (nbuf s) \<and> (\<forall>i<nbuf s. q i = None \<longleftrightarrow> M i \<noteq> MFree))"

definition queues_ok :: "(nat \<Rightarrow> mode) \<Rightarrow> bcache \<Rightarrow> bool" where
  "queues_ok M s \<longleftrightarrow> hash_ok s \<and> avail_ok M s \<and> distinct (ioq s) \<and> (\<forall>i\<in>set (ioq s). i < nbuf s)"

lemma hash_ok_cong: "bufhash s' = bufhash s \<Longrightarrow> nbuf s' = nbuf s \<Longrightarrow> hash_ok s' = hash_ok s"
  by (simp add: hash_ok_def)

lemma avail_ok_cong:
  "bfreelist s' = bfreelist s \<Longrightarrow> nbuf s' = nbuf s \<Longrightarrow> (\<And>i. i < nbuf s \<Longrightarrow> M' i = MFree \<longleftrightarrow> M i = MFree) \<Longrightarrow> avail_ok M' s' = avail_ok M s"
  by (simp add: avail_ok_def)

lemma queues_ok_cong:
  "bufhash s' = bufhash s \<Longrightarrow> bfreelist s' = bfreelist s \<Longrightarrow> nbuf s' = nbuf s \<Longrightarrow> ioq s' = ioq s \<Longrightarrow>
    (\<And>i. i < nbuf s \<Longrightarrow> M' i = MFree \<longleftrightarrow> M i = MFree) \<Longrightarrow> queues_ok M' s' = queues_ok M s"
  unfolding queues_ok_def using hash_ok_cong[of s' s] avail_ok_cong[of s' s M' M] by simp

text \<open>The buffers in \<open>X\<close> are being worked on.\<close>

definition cache_ok :: "nat set \<Rightarrow> (nat \<Rightarrow> mode) \<Rightarrow> bcache \<Rightarrow> bool" where
  "cache_ok X M s \<longleftrightarrow> queues_ok M s \<and> (\<forall>i<nbuf s. i \<notin> X \<longrightarrow> mode_ok (M i) (flags s i) (i \<in> set (ioq s)))"

fun owns :: "task \<Rightarrow> nat option" where
  "owns (Hold r i e) = Some i"
| "owns (Biowait dev blkno i) = Some i"
| "owns (Release i k) = Some i"
| "owns (Get dev blkno (Ahead bp b)) = bp"
| "owns (New dev blkno (Ahead bp b)) = bp"
| "owns _ = None"

definition settled :: "bcache \<Rightarrow> nat \<Rightarrow> bool" where
  "settled s i \<longleftrightarrow> i \<in> set (ioq s) \<or> B_DONE \<in> flags s i"

fun is_Hold :: "task \<Rightarrow> bool" where
  "is_Hold (Hold r i e) = True"
| "is_Hold _ = False"

definition task_ok :: "task \<Rightarrow> bcache \<Rightarrow> bool" where
  "task_ok t s \<longleftrightarrow> (\<forall>i. owns t = Some i \<longrightarrow> (if is_Hold t then i \<notin> set (ioq s) else settled s i))"

definition tasks_ok :: "(nat \<Rightarrow> mode) \<Rightarrow> (nat \<Rightarrow> task) \<Rightarrow> bcache \<Rightarrow> bool" where
  "tasks_ok M T s \<longleftrightarrow> (\<forall>p i. owns (T p) = Some i \<longleftrightarrow> i < nbuf s \<and> M i = MTask p) \<and> (\<forall>p. task_ok (T p) s)"

text \<open>What a routine of process \<open>p\<close> may do to the others: their buffers stay theirs and, the flag \<^verbatim>\<open>B_WANTED\<close> apart, stay as they are.\<close>

definition same_buf :: "bcache \<Rightarrow> bcache \<Rightarrow> nat \<Rightarrow> bool" where
  "same_buf s s' j \<longleftrightarrow> (buf s' j)\<lparr>b_flags := {}\<rparr> = (buf s j)\<lparr>b_flags := {}\<rparr> \<and> flags s' j - {B_WANTED} = flags s j - {B_WANTED} \<and>
     (j \<in> set (ioq s') \<longleftrightarrow> j \<in> set (ioq s))"

definition leaves :: "nat \<Rightarrow> (nat \<Rightarrow> mode) \<Rightarrow> bcache \<Rightarrow> (nat \<Rightarrow> mode) \<Rightarrow> bcache \<Rightarrow> bool" where
  "leaves p M s M' s' \<longleftrightarrow> nbuf s' = nbuf s \<and> (\<forall>j r. r \<noteq> p \<longrightarrow> (M' j = MTask r \<longleftrightarrow> M j = MTask r)) \<and>
     (\<forall>j r. r \<noteq> p \<and> M j = MTask r \<longrightarrow> same_buf s s' j)"

lemma same_buf_refl [simp]: "same_buf s s j"
  by (simp add: same_buf_def)

lemma same_buf_trans: "same_buf s t j \<Longrightarrow> same_buf t u j \<Longrightarrow> same_buf s u j"
  unfolding same_buf_def by metis

lemma leaves_refl [simp]: "leaves p M s M s"
  by (simp add: leaves_def)

lemma leaves_trans: "leaves p M s M' s' \<Longrightarrow> leaves p M' s' M'' s'' \<Longrightarrow> leaves p M s M'' s''"
  unfolding leaves_def by (metis same_buf_trans)

lemma same_buf_done: "same_buf s s' j \<Longrightarrow> settled s' j = settled s j"
  unfolding same_buf_def settled_def by blast

lemma task_ok_same: "task_ok t s \<Longrightarrow> (\<And>i. owns t = Some i \<Longrightarrow> same_buf s s' i) \<Longrightarrow> task_ok t s'"
  unfolding task_ok_def using same_buf_done[of s s'] by (metis same_buf_def)

lemma tasks_step:
  assumes ok: "tasks_ok M T s" and l: "leaves p M s M' s'"
    and t: "\<And>i. owns t = Some i \<longleftrightarrow> i < nbuf s \<and> M' i = MTask p" "task_ok t s'"
  shows "tasks_ok M' (T(p := t)) s'"
proof -
  have o: "owns (T r) = Some i \<longleftrightarrow> i < nbuf s \<and> M i = MTask r" "task_ok (T r) s" for r i using ok by (auto simp: tasks_ok_def)
  have "owns ((T(p := t)) r) = Some i \<longleftrightarrow> i < nbuf s' \<and> M' i = MTask r" for r i
    using o t(1) l by (cases "r = p") (auto simp: leaves_def)
  moreover have "task_ok ((T(p := t)) r) s'" for r
  proof (cases "r = p")
    case False
    have "same_buf s s' i" if "owns (T r) = Some i" for i using o(1) that l False by (auto simp: leaves_def)
    then show ?thesis using False task_ok_same[OF o(2)] by simp
  qed (use t(2) in simp)
  ultimately show ?thesis by (simp add: tasks_ok_def)
qed

text \<open>Steps outside the processes.\<close>

lemma tasks_env:
  assumes ok: "tasks_ok M T s" and l: "\<And>p. leaves p M s M' s'"
  shows "tasks_ok M' T s'"
proof -
  have o: "owns (T r) = Some i \<longleftrightarrow> i < nbuf s \<and> M i = MTask r" "task_ok (T r) s" for r i using ok by (auto simp: tasks_ok_def)
  have n: "nbuf s' = nbuf s" using l by (simp add: leaves_def)
  have m: "M' i = MTask r \<longleftrightarrow> M i = MTask r" and b: "M i = MTask r \<Longrightarrow> same_buf s s' i" for r i
    using l[of "Suc r"] by (auto simp: leaves_def)
  have "task_ok (T r) s'" for r using task_ok_same[OF o(2)] o(1) b by blast
  then show ?thesis using o m n by (simp add: tasks_ok_def)
qed

section \<open>Working on a buffer\<close>

lemma cache_open: "cache_ok X M s \<Longrightarrow> cache_ok (insert i X) M s"
  by (auto simp: cache_ok_def)

lemma cache_close: "cache_ok {i} M s \<Longrightarrow> (i < nbuf s \<Longrightarrow> mode_ok (M i) (flags s i) (i \<in> set (ioq s))) \<Longrightarrow> cache_ok {} M s"
  unfolding cache_ok_def by blast

lemma cache_mode: "cache_ok {i} M s \<Longrightarrow> (m = MFree \<longleftrightarrow> M i = MFree) \<Longrightarrow> cache_ok {i} (M(i := m)) s"
  using queues_ok_cong[of s s "M(i := m)" M] by (simp add: cache_ok_def)

lemma cache_upd_buf: "cache_ok {i} M s \<Longrightarrow> cache_ok {i} M (upd_buf i f s)"
  using queues_ok_cong[of "upd_buf i f s" s M M] by (simp add: cache_ok_def)

lemma cache_set_flags: "cache_ok {i} M s \<Longrightarrow> cache_ok {i} M (set_flags i f s)"
  unfolding set_flags_def by (rule cache_upd_buf)

lemma cache_ioq:
  assumes ok: "cache_ok {i} M s" and q: "distinct q" "\<And>j. j \<noteq> i \<Longrightarrow> j \<in> set q \<longleftrightarrow> j \<in> set (ioq s)" "i \<in> set q \<Longrightarrow> i < nbuf s"
  shows "cache_ok {i} M (s\<lparr>ioq := q\<rparr>)"
proof -
  have "hash_ok (s\<lparr>ioq := q\<rparr>) = hash_ok s" "avail_ok M (s\<lparr>ioq := q\<rparr>) = avail_ok M s" by (simp_all add: hash_ok_def avail_ok_def)
  moreover have "\<forall>j\<in>set q. j < nbuf s" using ok q unfolding cache_ok_def queues_ok_def by metis
  ultimately show ?thesis using ok q by (simp add: cache_ok_def queues_ok_def)
qed

lemma cache_distinct: "cache_ok X M s \<Longrightarrow> distinct (ioq s)"
  by (simp add: cache_ok_def queues_ok_def)

lemma cache_strategy: "cache_ok {i} M s \<Longrightarrow> i < nbuf s \<Longrightarrow> i \<notin> set (ioq s) \<Longrightarrow> cache_ok {i} M (strategy i s)"
  unfolding strategy_def by (rule cache_ioq) (auto dest: cache_distinct)

lemma cache_unqueue: "cache_ok {i} M s \<Longrightarrow> cache_ok {i} M (s\<lparr>ioq := remove1 i (ioq s)\<rparr>)"
  by (rule cache_ioq) (auto dest: cache_distinct)

lemma cache_misc [simp]:
  "cache_ok X M (s\<lparr>bq_wanted := w\<rparr>) = cache_ok X M s" "cache_ok X M (s\<lparr>blocks := d\<rparr>) = cache_ok X M s"
  by (simp_all add: cache_ok_def queues_ok_def hash_ok_def avail_ok_def)

lemma cache_bremfree:
  assumes ok: "cache_ok {i} M s" and i: "i < nbuf s" and m: "m \<noteq> MFree"
  shows "cache_ok {i} (M(i := m)) (bremfree i s)"
proof -
  obtain q where q: "in_lists (bfreelist s) q (nbuf s)" "\<forall>j<nbuf s. q j = None \<longleftrightarrow> M j \<noteq> MFree" using ok by (auto simp: cache_ok_def queues_ok_def avail_ok_def)
  have "\<forall>j<nbuf s. (q(i := None)) j = None \<longleftrightarrow> (M(i := m)) j \<noteq> MFree" using q(2) m by simp
  then have "avail_ok (M(i := m)) (bremfree i s)"
    using in_lists_remove[OF q(1), of i] unfolding bremfree_def avail_ok_def by (intro exI[of _ "q(i := None)"]) simp
  then show ?thesis using ok hash_ok_cong[of "bremfree i s" s] by (simp add: cache_ok_def queues_ok_def bremfree_def)
qed

lemma cache_insfree:
  assumes ok: "cache_ok {i} M s" and i: "i < nbuf s" and m: "M i \<noteq> MFree" and s': "s' = binsheadfree i k s \<or> s' = binstailfree i k s"
  shows "cache_ok {i} (M(i := MFree)) s'"
proof -
  obtain q where q: "in_lists (bfreelist s) q (nbuf s)" "\<forall>j<nbuf s. q j = None \<longleftrightarrow> M j \<noteq> MFree" using ok by (auto simp: cache_ok_def queues_ok_def avail_ok_def)
  have sel: "nbuf s' = nbuf s" "bufhash s' = bufhash s" "ioq s' = ioq s" "buf s' = buf s" using s' by (auto simp: binsheadfree_def binstailfree_def)
  have "q i = None" using q(2) i m by simp
  then have "in_lists (bfreelist s') (q(i := Some k)) (nbuf s)"
    using in_lists_head[OF q(1) i, of k] in_lists_tail[OF q(1) i, of k] s' by (auto simp: binsheadfree_def binstailfree_def)
  moreover have "\<forall>j<nbuf s. (q(i := Some k)) j = None \<longleftrightarrow> (M(i := MFree)) j \<noteq> MFree" using q(2) by simp
  ultimately have "avail_ok (M(i := MFree)) s'" unfolding avail_ok_def sel by blast
  then show ?thesis using ok sel hash_ok_cong[of s' s] by (simp add: cache_ok_def queues_ok_def)
qed

lemma cache_rehash:
  assumes ok: "cache_ok X M s" and i: "i < nbuf s"
  shows "cache_ok X M (binshash i h (bremhash i s))"
proof -
  let ?s = "binshash i h (bremhash i s)"
  obtain c where c: "in_lists (bufhash s) c (nbuf s)" "\<forall>j<nbuf s. c j \<noteq> None" using ok by (auto simp: cache_ok_def queues_ok_def hash_ok_def)
  have sel: "nbuf ?s = nbuf s" "bfreelist ?s = bfreelist s" "ioq ?s = ioq s" "buf ?s = buf s" by (simp_all add: binshash_def bremhash_def)
  have "in_lists (bufhash ?s) (c(i := Some h)) (nbuf s)"
    using in_lists_head[OF in_lists_remove[OF c(1), of i] i, of h] by (simp add: binshash_def bremhash_def)
  moreover have "\<forall>j<nbuf s. (c(i := Some h)) j \<noteq> None" using c(2) by simp
  ultimately have "hash_ok ?s" unfolding hash_ok_def sel by blast
  then show ?thesis using ok sel avail_ok_cong[of ?s s M M] by (simp add: cache_ok_def queues_ok_def)
qed

section \<open>The operations\<close>

lemma brelse_sel [simp]:
  "nbuf (brelse i s) = nbuf s" "bufhash (brelse i s) = bufhash s" "ioq (brelse i s) = ioq s" "blocks (brelse i s) = blocks s" "tapes (brelse i s) = tapes s"
  "j \<noteq> i \<Longrightarrow> buf (brelse i s) j = buf s j" "b_blkno (buf (brelse i s) i) = b_blkno (buf s i)" "b_data (buf (brelse i s) i) = b_data (buf s i)"
  by (simp_all add: brelse_def Let_def binsheadfree_def binstailfree_def)

lemma brelse_flags:
  "flags (brelse i s) i = flags s i - (if B_ERROR \<in> flags s i \<and> B_LOCKED \<in> flags s i then {B_ERROR} else {}) - {B_WANTED, B_BUSY, B_ASYNC, B_AGE}"
  "b_dev (buf (brelse i s) i) = (if B_ERROR \<in> flags s i \<and> B_LOCKED \<notin> flags s i then NODEV else b_dev (buf s i))"
  by (auto simp: brelse_def Let_def binsheadfree_def binstailfree_def)

lemma cache_brelse:
  assumes ok: "cache_ok {i} M s" and i: "i < nbuf s" "M i \<noteq> MFree" "i \<notin> set (ioq s)" "B_DELWRI \<in> flags s i \<longrightarrow> B_DONE \<in> flags s i"
  shows "cache_ok {} (M(i := MFree)) (brelse i s)"
proof (rule cache_close)
  define s2 where "s2 = (if B_ERROR \<in> flags (s\<lparr>bq_wanted := False\<rparr>) i
      then if B_LOCKED \<in> flags (s\<lparr>bq_wanted := False\<rparr>) i then set_flags i (\<lambda>F. F - {B_ERROR}) (s\<lparr>bq_wanted := False\<rparr>)
           else upd_buf i (\<lambda>b. b\<lparr>b_dev := NODEV\<rparr>) (s\<lparr>bq_wanted := False\<rparr>)
      else s\<lparr>bq_wanted := False\<rparr>)"
  have s2: "cache_ok {i} M s2" "i < nbuf s2" using ok i by (simp_all add: s2_def cache_set_flags cache_upd_buf)
  have q: "cache_ok {i} (M(i := MFree)) (binsheadfree i k s2)" "cache_ok {i} (M(i := MFree)) (binstailfree i k s2)" for k
    using cache_insfree[OF s2 i(2)] by blast+
  show "cache_ok {i} (M(i := MFree)) (brelse i s)" unfolding brelse_def Let_def s2_def[symmetric]
    by (rule cache_set_flags) (simp add: q)
  show "mode_ok ((M(i := MFree)) i) (flags (brelse i s) i) (i \<in> set (ioq (brelse i s)))"
    using i by (auto simp: brelse_flags)
qed

lemma bwrite_sel [simp]:
  "nbuf (snd (bwrite i s)) = nbuf s" "bufhash (snd (bwrite i s)) = bufhash s" "ioq (snd (bwrite i s)) = ioq s @ [i]" "blocks (snd (bwrite i s)) = blocks s"
  "tapes (snd (bwrite i s)) = tapes s" "j \<noteq> i \<Longrightarrow> buf (snd (bwrite i s)) j = buf s j" "fst (bwrite i s) = (B_ASYNC \<notin> flags s i)"
  "b_blkno (buf (snd (bwrite i s)) i) = b_blkno (buf s i)" "b_data (buf (snd (bwrite i s)) i) = b_data (buf s i)"
  "b_dev (buf (snd (bwrite i s)) i) = b_dev (buf s i)"
  by (simp_all add: bwrite_def Let_def strategy_def)

lemma bwrite_flags:
  "flags (snd (bwrite i s)) i = flags s i - {B_READ, B_DONE, B_ERROR, B_DELWRI} \<union> (if B_ASYNC \<in> flags s i \<and> B_DELWRI \<in> flags s i then {B_AGE} else {})"
  by (auto simp: bwrite_def Let_def strategy_def)

lemma cache_bwrite_open:
  assumes ok: "cache_ok {i} M s" and i: "i < nbuf s" "i \<notin> set (ioq s)"
  shows "cache_ok {i} M (snd (bwrite i s))"
proof -
  let ?s = "strategy i (upd_buf i (\<lambda>b. b\<lparr>b_flags := b_flags b - {B_READ, B_DONE, B_ERROR, B_DELWRI}, b_bcount := 1024\<rparr>) s)"
  have "cache_ok {i} M ?s" by (rule cache_strategy[OF cache_upd_buf[OF ok]]) (use i in simp_all)
  then show ?thesis by (simp add: bwrite_def Let_def cache_set_flags)
qed

lemma cache_bwrite_async:
  assumes ok: "cache_ok {i} M s" and i: "i < nbuf s" "i \<notin> set (ioq s)" "M i \<noteq> MFree" "B_BUSY \<in> flags s i" "B_ASYNC \<in> flags s i"
  shows "cache_ok {} (M(i := MAsync)) (snd (bwrite i s))"
proof (rule cache_close)
  show "cache_ok {i} (M(i := MAsync)) (snd (bwrite i s))"
    by (rule cache_mode[OF cache_bwrite_open[OF ok i(1,2)]]) (use i(3) in simp)
qed (use i in \<open>auto simp: bwrite_flags\<close>)

lemma cache_bwrite_sync:
  assumes ok: "cache_ok {i} M s" and i: "i < nbuf s" "i \<notin> set (ioq s)" "M i = MTask p" "B_BUSY \<in> flags s i" "B_ASYNC \<notin> flags s i"
  shows "cache_ok {} M (snd (bwrite i s))"
  by (rule cache_close[OF cache_bwrite_open[OF ok i(1,2)]]) (use i in \<open>auto simp: bwrite_flags\<close>)

lemma cache_bawrite:
  assumes ok: "cache_ok {i} M s" and i: "i < nbuf s" "i \<notin> set (ioq s)" "M i \<noteq> MFree" "B_BUSY \<in> flags s i"
  shows "cache_ok {} (M(i := MAsync)) (bawrite i s)"
  unfolding bawrite_def by (rule cache_bwrite_async[OF cache_set_flags[OF ok]]) (use i in simp_all)

lemma cache_notavail:
  assumes ok: "cache_ok {} M s" and i: "i < nbuf s" "M i = MFree"
  shows "cache_ok {} (M(i := MTask p)) (notavail i s)"
proof (rule cache_close)
  show "cache_ok {i} (M(i := MTask p)) (notavail i s)" unfolding notavail_def
    by (rule cache_set_flags, rule cache_bremfree[OF cache_open[OF ok] i(1)]) simp
qed (use ok i in \<open>force simp: notavail_def bremfree_def cache_ok_def\<close>)

lemma notavail_sel [simp]:
  "nbuf (notavail i s) = nbuf s" "bufhash (notavail i s) = bufhash s" "ioq (notavail i s) = ioq s" "blocks (notavail i s) = blocks s" "tapes (notavail i s) = tapes s"
  "buf (notavail i s) = (buf s)(i := (buf s i)\<lparr>b_flags := insert B_BUSY (flags s i)\<rparr>)"
  by (simp_all add: notavail_def bremfree_def)

text \<open>A change of one buffer that nobody else has.\<close>

lemma leaves_one:
  assumes "nbuf s' = nbuf s" "\<And>r. r \<noteq> p \<Longrightarrow> M i \<noteq> MTask r" "\<And>r. r \<noteq> p \<Longrightarrow> m \<noteq> MTask r"
    "\<And>j. j \<noteq> i \<Longrightarrow> buf s' j = buf s j \<and> (j \<in> set (ioq s') \<longleftrightarrow> j \<in> set (ioq s))"
  shows "leaves p M s (M(i := m)) s'"
  unfolding leaves_def
proof (intro conjI allI impI)
  fix j r assume r: "r \<noteq> p"
  then show "(M(i := m)) j = MTask r \<longleftrightarrow> M j = MTask r" using assms(2,3)[OF r] by simp
next
  fix j r assume a: "r \<noteq> p \<and> M j = MTask r"
  then have "j \<noteq> i" using assms(2) by blast
  then show "same_buf s s' j" using assms(4) by (simp add: same_buf_def)
qed (use assms(1) in simp)

lemma leaves_same:
  assumes "nbuf s' = nbuf s" "\<And>r. r \<noteq> p \<Longrightarrow> M i \<noteq> MTask r" "\<And>j. j \<noteq> i \<Longrightarrow> buf s' j = buf s j \<and> (j \<in> set (ioq s') \<longleftrightarrow> j \<in> set (ioq s))"
  shows "leaves p M s M s'"
  using leaves_one[of s' s p M i "M i"] assms by simp

definition owned :: "nat \<Rightarrow> (nat \<Rightarrow> mode) \<Rightarrow> bcache \<Rightarrow> nat set" where
  "owned p M s = {j. j < nbuf s \<and> M j = MTask p}"

lemma getnew_free: "cache_ok {} M s \<Longrightarrow> getnew_queue s = i # q \<Longrightarrow> i < nbuf s \<and> M i = MFree"
proof -
  assume ok: "cache_ok {} M s" and q: "getnew_queue s = i # q"
  from q obtain k where "i \<in> set (bfreelist s k)" by (auto simp: getnew_queue_def split: if_splits) (metis list.set_intros(1))+
  then show ?thesis using ok in_listsD unfolding cache_ok_def queues_ok_def avail_ok_def by (metis option.discI)
qed

lemma bawrite_sel [simp]:
  "nbuf (bawrite i s) = nbuf s" "bufhash (bawrite i s) = bufhash s" "ioq (bawrite i s) = ioq s @ [i]" "blocks (bawrite i s) = blocks s" "tapes (bawrite i s) = tapes s"
  "j \<noteq> i \<Longrightarrow> buf (bawrite i s) j = buf s j"
  by (simp_all add: bawrite_def)

lemma mode_okD: "cache_ok {} M s \<Longrightarrow> i < nbuf s \<Longrightarrow> mode_ok (M i) (flags s i) (i \<in> set (ioq s))"
  by (simp add: cache_ok_def)

lemma getnewbuf_ok:
  "cache_ok {} M s \<Longrightarrow> getnewbuf s = (r, s') \<Longrightarrow>
   \<exists>M'. cache_ok {} M' s' \<and> leaves p M s M' s' \<and> owned p M' s' = owned p M s \<union> set_option r \<and>
     (\<forall>i. r = Some i \<longrightarrow> i < nbuf s \<and> M i = MFree \<and> M' i = MTask p \<and> i \<notin> set (ioq s') \<and> flags s' i = {B_BUSY})"
proof (induction s arbitrary: M rule: getnewbuf.induct)
  case (1 s)
  show ?case
  proof (cases "getnew_queue s")
    case Nil
    then have "r = None" "s' = s\<lparr>bq_wanted := True\<rparr>" using 1(3) by (simp_all add: getnewbuf.simps)
    then show ?thesis using 1(2) by (intro exI[of _ M]) (simp add: owned_def leaves_def same_buf_def)
  next
    case (Cons i q)
    have i: "i < nbuf s" "M i = MFree" using getnew_free[OF 1(2) Cons] by auto
    have mo: "i \<notin> set (ioq s)" "B_DELWRI \<in> flags s i \<longrightarrow> B_DONE \<in> flags s i" using mode_okD[OF 1(2) i(1)] i(2) by auto
    let ?s1 = "notavail i s" and ?M1 = "M(i := MTask p)"
    note ok1 = cache_notavail[OF 1(2) i, of p]
    have l1: "leaves p M s ?M1 ?s1" by (rule leaves_one) (use i in simp_all)
    show ?thesis
    proof (cases "B_DELWRI \<in> flags ?s1 i")
      case True
      let ?s2 = "bawrite i ?s1" and ?M2 = "?M1(i := MAsync)"
      have ok2: "cache_ok {} ?M2 ?s2" by (rule cache_bawrite[OF cache_open[OF ok1]]) (use i mo in simp_all)
      have l2: "leaves p ?M1 ?s1 ?M2 ?s2" by (rule leaves_one) simp_all
      have eq: "getnewbuf ?s2 = (r, s')" using 1(3) Cons True by (subst (asm) getnewbuf.simps) simp
      obtain M' where M': "cache_ok {} M' s'" "leaves p ?M2 ?s2 M' s'" "owned p M' s' = owned p ?M2 ?s2 \<union> set_option r"
        "\<forall>k. r = Some k \<longrightarrow> k < nbuf ?s2 \<and> ?M2 k = MFree \<and> M' k = MTask p \<and> k \<notin> set (ioq s') \<and> flags s' k = {B_BUSY}"
        using 1(1)[OF Cons refl True ok2 eq] by blast
      have "owned p ?M2 ?s2 = owned p M s" using i by (auto simp: owned_def)
      moreover have "leaves p M s M' s'" using leaves_trans[OF l1 leaves_trans[OF l2 M'(2)]] .
      ultimately show ?thesis using M' i by (intro exI[of _ M']) (auto split: if_splits)
    next
      case False
      then have e: "r = Some i" "s' = set_flags i (\<lambda>F. {B_BUSY}) ?s1" using 1(3) Cons by (simp_all add: getnewbuf.simps)
      have "cache_ok {} ?M1 s'" unfolding e(2) by (rule cache_close[OF cache_set_flags[OF cache_open[OF ok1]]]) (use mo in simp)
      moreover have "leaves p M s ?M1 s'" by (rule leaves_one) (use e i in simp_all)
      moreover have "owned p ?M1 s' = owned p M s \<union> set_option r" using e i by (auto simp: owned_def)
      moreover have "?M1 i = MTask p \<and> i \<notin> set (ioq s') \<and> flags s' i = {B_BUSY}" using e(2) mo by simp
      ultimately show ?thesis using e(1) i by blast
    qed
  qed
qed

section \<open>Running a process\<close>

text \<open>The state after process \<open>p\<close> has run to \<open>t\<close>.\<close>

definition stands :: "nat \<Rightarrow> task \<Rightarrow> (nat \<Rightarrow> mode) \<Rightarrow> bcache \<Rightarrow> bool" where
  "stands p t M s \<longleftrightarrow> cache_ok {} M s \<and> owned p M s = set_option (owns t) \<and> task_ok t s"

definition ran :: "nat \<Rightarrow> (nat \<Rightarrow> mode) \<Rightarrow> bcache \<Rightarrow> task \<times> bcache \<Rightarrow> bool" where
  "ran p M s r \<longleftrightarrow> (\<exists>M'. stands p (fst r) M' (snd r) \<and> leaves p M s M' (snd r))"

lemma ranI: "stands p t M' s' \<Longrightarrow> leaves p M s M' s' \<Longrightarrow> ran p M s (t, s')"
  unfolding ran_def by auto

lemma ran_after: "ran p M' s' r \<Longrightarrow> leaves p M s M' s' \<Longrightarrow> ran p M s r"
  unfolding ran_def using leaves_trans by blast

text \<open>\<open>bp\<close> is the buffer the process has already, when it reads ahead.\<close>

definition aside :: "nat option \<Rightarrow> bcache \<Rightarrow> bool" where
  "aside bp s \<longleftrightarrow> (\<forall>b. bp = Some b \<longrightarrow> settled s b)"

fun caller_buf :: "caller \<Rightarrow> nat option" where
  "caller_buf (Ahead bp b) = bp"
| "caller_buf _ = None"

lemma owns_caller [simp]: "owns (Get dev blkno c) = caller_buf c" "owns (New dev blkno c) = caller_buf c"
  by (cases c; simp)+

lemma task_ok_aside: "owns t = bp \<Longrightarrow> \<not> is_Hold t \<Longrightarrow> task_ok t s \<longleftrightarrow> aside bp s"
  by (auto simp: task_ok_def aside_def)

lemma breada_end_ran:
  assumes "cache_ok {} M s" "owned p M s = set_option bp" "aside bp s"
  shows "ran p M s (breada_end bp dev blkno s)"
  using assms by (cases bp) (auto simp: stands_def task_ok_def aside_def intro!: ranI[of _ _ M])

lemma breada_ahead_ran:
  assumes "cache_ok {} M s" "owned p M s = set_option bp" "aside bp s"
  shows "ran p M s (breada_ahead bp dev blkno rablkno s)"
  using assms breada_end_ran[OF assms] by (auto simp: breada_ahead_def stands_def task_ok_def aside_def intro!: ranI[of _ _ M])

lemma start_read_sel [simp]:
  "nbuf (start_read F i s) = nbuf s" "bufhash (start_read F i s) = bufhash s" "ioq (start_read F i s) = ioq s @ [i]" "blocks (start_read F i s) = blocks s"
  "tapes (start_read F i s) = tapes s" "j \<noteq> i \<Longrightarrow> buf (start_read F i s) j = buf s j" "flags (start_read F i s) i = flags s i \<union> F"
  "b_blkno (buf (start_read F i s) i) = b_blkno (buf s i)" "b_data (buf (start_read F i s) i) = b_data (buf s i)"
  "b_dev (buf (start_read F i s) i) = b_dev (buf s i)" "bfreelist (start_read F i s) = bfreelist s"
  by (simp_all add: start_read_def strategy_def)

lemma start_read_ok:
  assumes ok: "cache_ok {} M s" and i: "i < nbuf s" "M i = MTask p" "i \<notin> set (ioq s)" "\<not> has_data s i"
  shows "cache_ok {} M (start_read {B_READ} i s)" "leaves p M s M (start_read {B_READ} i s)" "settled (start_read {B_READ} i s) i"
proof -
  have mo: "B_BUSY \<in> flags s i" "B_ASYNC \<notin> flags s i" using mode_okD[OF ok i(1)] i(2) by auto
  have "cache_ok {i} M (start_read {B_READ} i s)" unfolding start_read_def
    by (rule cache_strategy[OF cache_upd_buf[OF cache_open[OF ok]]]) (use i in simp_all)
  then show "cache_ok {} M (start_read {B_READ} i s)" by (rule cache_close) (use i mo in \<open>simp add: has_data_def\<close>)
  show "leaves p M s M (start_read {B_READ} i s)" by (rule leaves_same[of _ _ _ _ i]) (use i in simp_all)
qed (simp add: settled_def)

lemma start_ahead_ok:
  assumes ok: "cache_ok {} M s" and i: "i < nbuf s" "M i = MTask p" "i \<notin> set (ioq s)" "\<not> has_data s i"
  shows "cache_ok {} (M(i := MAsync)) (start_read {B_READ, B_ASYNC} i s)" "leaves p M s (M(i := MAsync)) (start_read {B_READ, B_ASYNC} i s)"
proof -
  have mo: "B_BUSY \<in> flags s i" using mode_okD[OF ok i(1)] i(2) by auto
  have "cache_ok {i} (M(i := MAsync)) (start_read {B_READ, B_ASYNC} i s)" unfolding start_read_def
    by (rule cache_mode[OF cache_strategy[OF cache_upd_buf[OF cache_open[OF ok]]]]) (use i in simp_all)
  then show "cache_ok {} (M(i := MAsync)) (start_read {B_READ, B_ASYNC} i s)" by (rule cache_close) (use i mo in \<open>simp add: has_data_def\<close>)
  show "leaves p M s (M(i := MAsync)) (start_read {B_READ, B_ASYNC} i s)" by (rule leaves_one) (use i in simp_all)
qed

lemma brelse_mine:
  assumes ok: "cache_ok {} M s" and i: "i < nbuf s" "M i = MTask p" "i \<notin> set (ioq s)"
  shows "cache_ok {} (M(i := MFree)) (brelse i s)" "leaves p M s (M(i := MFree)) (brelse i s)"
proof -
  have "B_DELWRI \<in> flags s i \<longrightarrow> B_DONE \<in> flags s i" using mode_okD[OF ok i(1)] i(2) by simp
  then show "cache_ok {} (M(i := MFree)) (brelse i s)" by (intro cache_brelse[OF cache_open[OF ok]]) (use i in simp_all)
  show "leaves p M s (M(i := MFree)) (brelse i s)" by (rule leaves_one) (use i in simp_all)
qed

lemma aside_other:
  assumes "aside bp s" "i \<notin> set_option bp" "\<And>j. j \<noteq> i \<Longrightarrow> buf s' j = buf s j" "\<And>j. j \<noteq> i \<Longrightarrow> j \<in> set (ioq s') \<longleftrightarrow> j \<in> set (ioq s)"
  shows "aside bp s'"
proof (cases bp)
  case (Some b)
  then have "b \<noteq> i" using assms(2) by auto
  then show ?thesis using Some assms(1) assms(3,4)[of b] by (simp add: aside_def settled_def)
qed (simp add: aside_def)

lemma got_block_ran:
  assumes ok: "cache_ok {} M s" and i: "i < nbuf s" "M i = MTask p" "i \<notin> set (ioq s)"
    and o: "owned p M s = insert i (set_option (caller_buf c))" "i \<notin> set_option (caller_buf c)" "aside (caller_buf c) s"
  shows "ran p M s (got_block c dev blkno i s)"
proof (cases c)
  case Plain
  then show ?thesis using assms by (auto simp: stands_def task_ok_def intro!: ranI[of _ _ M])
next
  case ForRead
  show ?thesis
  proof (cases "has_data s i")
    case True
    then show ?thesis using assms ForRead by (auto simp: stands_def task_ok_def intro!: ranI[of _ _ M])
  next
    case False
    note r = start_read_ok[OF ok i False]
    have "owned p M (start_read {B_READ} i s) = {i}" using o(1) ForRead unfolding owned_def by simp
    then have "stands p (Biowait dev blkno i) M (start_read {B_READ} i s)" using r by (simp add: stands_def task_ok_def)
    then show ?thesis using False ForRead ranI[OF _ r(2)] by simp
  qed
next
  case (First ra)
  show ?thesis
  proof (cases "has_data s i")
    case True
    then have "aside (Some i) s" using mode_okD[OF ok i(1)] i(2) by (auto simp: aside_def settled_def has_data_def)
    then have "ran p M s (breada_ahead (Some i) dev blkno ra s)" by (intro breada_ahead_ran[OF ok]) (use o First in simp_all)
    then show ?thesis using First True by simp
  next
    case False
    note r = start_read_ok[OF ok i False]
    have "ran p M (start_read {B_READ} i s) (breada_ahead (Some i) dev blkno ra (start_read {B_READ} i s))"
      by (rule breada_ahead_ran[OF r(1)]) (use o First r(3) in \<open>simp_all add: owned_def aside_def\<close>)
    then show ?thesis using First False ran_after[OF _ r(2)] by simp
  qed
next
  case (Ahead bp blk)
  define s' M' where "s' = (if has_data s i then brelse i s else start_read {B_READ, B_ASYNC} i s)" and "M' = M(i := if has_data s i then MFree else MAsync)"
  have s': "cache_ok {} M' s'" "leaves p M s M' s'"
    using brelse_mine[OF ok i] start_ahead_ok[OF ok i] by (auto simp: s'_def M'_def)
  have "aside bp s'" by (rule aside_other[of bp s i]) (use o Ahead in \<open>auto simp: s'_def\<close>)
  moreover have "owned p M' s' = set_option bp"
  proof -
    have "owned p M' s' = owned p M s - {i}" by (auto simp: owned_def M'_def s'_def split: if_splits)
    then show ?thesis using o Ahead by auto
  qed
  ultimately have "ran p M' s' (breada_end bp dev blk s')" by (intro breada_end_ran s')
  then show ?thesis using ran_after[OF _ s'(2)] Ahead by (simp add: s'_def)
qed

lemma chain_lt: "cache_ok {} M s \<Longrightarrow> i \<in> set (bufhash s h) \<Longrightarrow> i < nbuf s"
  unfolding cache_ok_def queues_ok_def hash_ok_def using in_listsD by blast

lemma not_busy_free: "cache_ok {} M s \<Longrightarrow> i < nbuf s \<Longrightarrow> B_BUSY \<notin> flags s i \<Longrightarrow> M i = MFree \<and> i \<notin> set (ioq s)"
  using mode_okD[of M s i] by (cases "M i") auto

lemma set_wanted_ok:
  assumes ok: "cache_ok {} M s"
  shows "cache_ok {} M (set_flags i (insert B_WANTED) s)" "leaves p M s M (set_flags i (insert B_WANTED) s)"
proof -
  have "i < nbuf s \<Longrightarrow> mode_ok (M i) (insert B_WANTED (flags s i)) (i \<in> set (ioq s))" using mode_okD[OF ok, of i] by (cases "M i") auto
  then show "cache_ok {} M (set_flags i (insert B_WANTED) s)" by (intro cache_close[OF cache_set_flags[OF cache_open[OF ok]]]) simp
  show "leaves p M s M (set_flags i (insert B_WANTED) s)" by (auto simp: leaves_def same_buf_def)
qed

lemma assign_sel [simp]:
  "nbuf (assign_buf i dev blkno s) = nbuf s" "ioq (assign_buf i dev blkno s) = ioq s" "blocks (assign_buf i dev blkno s) = blocks s"
  "j \<noteq> i \<Longrightarrow> buf (assign_buf i dev blkno s) j = buf s j" "flags (assign_buf i dev blkno s) i = flags s i"
  "b_dev (buf (assign_buf i dev blkno s) i) = dev" "b_blkno (buf (assign_buf i dev blkno s) i) = fsbtodb blkno"
  "b_data (buf (assign_buf i dev blkno s) i) = b_data (buf s i)" "tapes (assign_buf i dev blkno s) = tapes s"
  by (simp_all add: assign_buf_def binshash_def bremhash_def)

lemma empty_sel [simp]:
  "nbuf (empty_buf i s) = nbuf s" "ioq (empty_buf i s) = ioq s" "blocks (empty_buf i s) = blocks s" "j \<noteq> i \<Longrightarrow> buf (empty_buf i s) j = buf s j"
  "flags (empty_buf i s) i = insert B_INVAL (flags s i)" "b_dev (buf (empty_buf i s) i) = NODEV" "tapes (empty_buf i s) = tapes s"
  by (simp_all add: empty_buf_def binshash_def bremhash_def)

lemma cache_assign: "cache_ok {i} M s \<Longrightarrow> i < nbuf s \<Longrightarrow> cache_ok {i} M (assign_buf i dev blkno s)"
  unfolding assign_buf_def by (intro cache_upd_buf cache_rehash) simp_all

lemma cache_empty: "cache_ok {i} M s \<Longrightarrow> i < nbuf s \<Longrightarrow> cache_ok {i} M (empty_buf i s)"
  unfolding empty_buf_def by (intro cache_upd_buf cache_rehash) simp_all

lemma aside_leaves:
  assumes ok: "cache_ok {} M s" and a: "aside bp s" and o: "set_option bp \<subseteq> owned p M s"
    and k: "\<And>j. j < nbuf s \<Longrightarrow> M j \<noteq> MFree \<Longrightarrow> same_buf s s' j"
  shows "aside bp s'"
proof (cases bp)
  case (Some b)
  then have "b < nbuf s" "M b = MTask p" using o by (auto simp: owned_def)
  then show ?thesis using a k[of b] Some by (simp add: aside_def same_buf_done)
qed (simp add: aside_def)

text \<open>\<^verbatim>\<open>getnewbuf\<close> leaves alone the buffers in use, those of the process itself too.\<close>

lemma getnewbuf_keeps: "cache_ok {} M s \<Longrightarrow> getnewbuf s = (r, s') \<Longrightarrow> j < nbuf s \<Longrightarrow> M j \<noteq> MFree \<Longrightarrow> same_buf s s' j"
proof (induction s arbitrary: M rule: getnewbuf.induct)
  case (1 s)
  show ?case
  proof (cases "getnew_queue s")
    case Nil
    then show ?thesis using 1(3) by (auto simp: getnewbuf.simps same_buf_def)
  next
    case (Cons i q)
    have i: "i < nbuf s" "M i = MFree" using getnew_free[OF 1(2) Cons] by auto
    have mo: "i \<notin> set (ioq s)" using mode_okD[OF 1(2) i(1)] i(2) by auto
    have ij: "j \<noteq> i" using i 1(5) by auto
    let ?s1 = "notavail i s"
    note ok1 = cache_notavail[OF 1(2) i, of 0]
    show ?thesis
    proof (cases "B_DELWRI \<in> flags ?s1 i")
      case True
      have ok2: "cache_ok {} (M(i := MTask 0, i := MAsync)) (bawrite i ?s1)" by (rule cache_bawrite[OF cache_open[OF ok1]]) (use i mo in simp_all)
      have eq: "getnewbuf (bawrite i ?s1) = (r, s')" using 1(3) Cons True by (subst (asm) getnewbuf.simps) simp
      have "same_buf (bawrite i ?s1) s' j" by (rule 1(1)[OF Cons refl True ok2 eq]) (use 1(4,5) ij in simp_all)
      then show ?thesis using ij by (simp add: same_buf_def)
    next
      case False
      then have "s' = set_flags i (\<lambda>F. {B_BUSY}) ?s1" using 1(3) Cons by (simp add: getnewbuf.simps)
      then show ?thesis using ij by (simp add: same_buf_def)
    qed
  qed
qed

lemma getblk_new_ran:
  assumes ok: "cache_ok {} M s" and o: "owned p M s = set_option (caller_buf c)" "aside (caller_buf c) s"
  shows "ran p M s (getblk_new dev blkno c s)"
proof (cases "getnewbuf s")
  case (Pair r s1)
  from getnewbuf_ok[OF ok Pair, of p] obtain M' where m: "cache_ok {} M' s1" "leaves p M s M' s1" "owned p M' s1 = owned p M s \<union> set_option r"
    "\<forall>i. r = Some i \<longrightarrow> i < nbuf s \<and> M i = MFree \<and> M' i = MTask p \<and> i \<notin> set (ioq s1) \<and> flags s1 i = {B_BUSY}" by blast
  have a: "aside (caller_buf c) s1"
    by (rule aside_leaves[OF ok o(2), of p]) (use o getnewbuf_keeps[OF ok Pair] in auto)
  have n: "nbuf s1 = nbuf s" using m(2) by (simp add: leaves_def)
  show ?thesis
  proof (cases r)
    case None
    then show ?thesis using Pair m o a by (auto simp: getblk_new_def stands_def task_ok_def aside_def intro!: ranI[of _ _ M'])
  next
    case (Some i)
    then have i: "i < nbuf s" "M i = MFree" "M' i = MTask p" "i \<notin> set (ioq s1)" "flags s1 i = {B_BUSY}" using m(4) by auto
    let ?s2 = "assign_buf i dev blkno s1"
    have ok2: "cache_ok {} M' ?s2" by (rule cache_close[OF cache_assign[OF cache_open[OF m(1)]]]) (use i n in simp_all)
    have l2: "leaves p M' s1 M' ?s2" by (rule leaves_same[of _ _ _ _ i]) (use i in simp_all)
    have "i \<notin> owned p M s" using i(2) by (simp add: owned_def)
    then have no: "i \<notin> set_option (caller_buf c)" unfolding o(1) .
    have "ran p M' ?s2 (got_block c dev blkno i ?s2)"
    proof (rule got_block_ran[OF ok2])
      show "owned p M' ?s2 = insert i (set_option (caller_buf c))" using m(3) o(1) Some by (auto simp: owned_def)
      show "aside (caller_buf c) ?s2" by (rule aside_other[OF a no]) simp_all
    qed (use i n no in simp_all)
    then show ?thesis using Pair Some ran_after[OF _ leaves_trans[OF m(2) l2]] by (simp add: getblk_new_def)
  qed
qed

lemma getblk_ran:
  assumes ok: "cache_ok {} M s" and o: "owned p M s = set_option (caller_buf c)" "aside (caller_buf c) s"
  shows "ran p M s (getblk dev blkno c s)"
proof (cases "find (holds_block s dev blkno) (bufhash s (BUFHASH dev blkno))")
  case None
  then show ?thesis using getblk_new_ran[OF assms] by (simp add: getblk_def)
next
  case (Some i)
  then have i: "i < nbuf s" using find_Some_in chain_lt[OF ok] by metis
  show ?thesis
  proof (cases "B_BUSY \<in> flags s i")
    case True
    have "stands p (Get dev blkno c) M (set_flags i (insert B_WANTED) s)"
      using set_wanted_ok(1)[OF ok, of i] o by (auto simp: stands_def owned_def task_ok_def aside_def settled_def)
    then show ?thesis using Some True ranI[OF _ set_wanted_ok(2)[OF ok]] by (simp add: getblk_def)
  next
    case False
    note f = not_busy_free[OF ok i False]
    let ?s1 = "notavail i s"
    have l: "leaves p M s (M(i := MTask p)) ?s1" by (rule leaves_one) (use f in simp_all)
    have "i \<notin> owned p M s" using f by (simp add: owned_def)
    then have no: "i \<notin> set_option (caller_buf c)" unfolding o(1) .
    have "ran p (M(i := MTask p)) ?s1 (got_block c dev blkno i ?s1)"
    proof (rule got_block_ran[OF cache_notavail[OF ok i]])
      show "owned p (M(i := MTask p)) ?s1 = insert i (set_option (caller_buf c))" using o(1) i by (auto simp: owned_def)
      show "aside (caller_buf c) ?s1" by (rule aside_other[OF o(2) no]) simp_all
    qed (use f i no in simp_all)
    then show ?thesis using Some False ran_after[OF _ l] by (simp add: getblk_def)
  qed
qed

lemma geteblk_ran:
  assumes ok: "cache_ok {} M s" and o: "owned p M s = {}"
  shows "ran p M s (geteblk s)"
proof (cases "getnewbuf s")
  case (Pair r s1)
  from getnewbuf_ok[OF ok Pair, of p] obtain M' where m: "cache_ok {} M' s1" "leaves p M s M' s1" "owned p M' s1 = owned p M s \<union> set_option r"
    "\<forall>i. r = Some i \<longrightarrow> i < nbuf s \<and> M i = MFree \<and> M' i = MTask p \<and> i \<notin> set (ioq s1) \<and> flags s1 i = {B_BUSY}" by blast
  show ?thesis
  proof (cases r)
    case None
    then show ?thesis using Pair m o by (auto simp: geteblk_def stands_def task_ok_def intro!: ranI[of _ _ M'])
  next
    case (Some i)
    then have i: "i < nbuf s1" "M' i = MTask p" "i \<notin> set (ioq s1)" "flags s1 i = {B_BUSY}" using m(2,4) by (auto simp: leaves_def)
    let ?s2 = "empty_buf i s1"
    have ok2: "cache_ok {} M' ?s2" by (rule cache_close[OF cache_empty[OF cache_open[OF m(1)]]]) (use i in simp_all)
    have l2: "leaves p M' s1 M' ?s2" by (rule leaves_same[of _ _ _ _ i]) (use i in simp_all)
    have "stands p (Hold None i 0) M' ?s2" using ok2 m(3) o Some i by (auto simp: stands_def owned_def task_ok_def)
    then show ?thesis using Pair Some ranI[OF _ leaves_trans[OF m(2) l2]] by (simp add: geteblk_def)
  qed
qed

text \<open>What a process does with a buffer it has.\<close>

lemma bwrite_mine:
  assumes ok: "cache_ok {} M s" and i: "i < nbuf s" "M i = MTask p" "i \<notin> set (ioq s)"
  shows "cache_ok {} M (snd (bwrite i s))" "leaves p M s M (snd (bwrite i s))" "fst (bwrite i s)" "settled (snd (bwrite i s)) i"
proof -
  have mo: "B_BUSY \<in> flags s i" "B_ASYNC \<notin> flags s i" using mode_okD[OF ok i(1)] i(2) by auto
  show "cache_ok {} M (snd (bwrite i s))" by (rule cache_bwrite_sync[OF cache_open[OF ok]]) (use i mo in simp_all)
  show "leaves p M s M (snd (bwrite i s))" by (rule leaves_same[of _ _ _ _ i]) (use i in simp_all)
qed (use mode_okD[OF ok i(1)] i in \<open>simp_all add: settled_def\<close>)

lemma bawrite_mine:
  assumes ok: "cache_ok {} M s" and i: "i < nbuf s" "M i = MTask p" "i \<notin> set (ioq s)"
  shows "cache_ok {} (M(i := MAsync)) (bawrite i s)" "leaves p M s (M(i := MAsync)) (bawrite i s)"
proof -
  have mo: "B_BUSY \<in> flags s i" using mode_okD[OF ok i(1)] i(2) by auto
  show "cache_ok {} (M(i := MAsync)) (bawrite i s)" by (rule cache_bawrite[OF cache_open[OF ok]]) (use i mo in simp_all)
  show "leaves p M s (M(i := MAsync)) (bawrite i s)" by (rule leaves_one) (use i in simp_all)
qed

lemma bdwrite_mine:
  assumes ok: "cache_ok {} M s" and i: "i < nbuf s" "M i = MTask p" "i \<notin> set (ioq s)"
  shows "\<exists>m. m \<noteq> MTask p \<and> cache_ok {} (M(i := m)) (bdwrite i s) \<and> leaves p M s (M(i := m)) (bdwrite i s)"
proof (cases "tapes s (b_dev (buf s i))")
  case True
  then show ?thesis using bawrite_mine[OF assms] by (intro exI[of _ MAsync]) (simp add: bdwrite_def)
next
  case False
  let ?s1 = "set_flags i (\<lambda>F. F \<union> {B_DELWRI, B_DONE}) s"
  have "cache_ok {} (M(i := MFree)) (brelse i ?s1)"
    by (rule cache_brelse[OF cache_set_flags[OF cache_open[OF ok]]]) (use i in simp_all)
  moreover have "leaves p M s (M(i := MFree)) (brelse i ?s1)" by (rule leaves_one) (use i in simp_all)
  ultimately show ?thesis using False by (intro exI[of _ MFree]) (simp add: bdwrite_def)
qed

lemma blkflush_ran:
  assumes ok: "cache_ok {} M s" and o: "owned p M s = {}"
  shows "ran p M s (blkflush dev blkno s)"
proof (cases "find (\<lambda>i. holds_block s dev blkno i \<and> flags s i \<inter> {B_BUSY, B_DELWRI} \<noteq> {}) (bufhash s (BUFHASH dev blkno))")
  case None
  have "stands p Idle M s" using ok o by (simp add: stands_def task_ok_def)
  then show ?thesis using None ranI[of p Idle M s M s] by (simp add: blkflush_def)
next
  case (Some i)
  then have i: "i < nbuf s" using find_Some_in chain_lt[OF ok] by metis
  show ?thesis
  proof (cases "B_BUSY \<in> flags s i")
    case True
    have "owned p M (set_flags i (insert B_WANTED) s) = {}" using o unfolding owned_def by simp
    then have "stands p (Flush dev blkno) M (set_flags i (insert B_WANTED) s)"
      using set_wanted_ok(1)[OF ok, of i] by (simp add: stands_def task_ok_def)
    then show ?thesis using Some True ranI[OF _ set_wanted_ok(2)[OF ok]] by (simp add: blkflush_def)
  next
    case False
    note f = not_busy_free[OF ok i False]
    let ?s1 = "notavail i s" and ?M1 = "M(i := MTask p)"
    have l: "leaves p M s ?M1 ?s1" by (rule leaves_one) (use f in simp_all)
    have w: "cache_ok {} ?M1 (snd (bwrite i ?s1))" "leaves p ?M1 ?s1 ?M1 (snd (bwrite i ?s1))" "fst (bwrite i ?s1)" "settled (snd (bwrite i ?s1)) i"
      using bwrite_mine[OF cache_notavail[OF ok i conjunct1[OF f], of p], of i p] f i by simp_all
    have "owned p ?M1 (snd (bwrite i ?s1)) = insert i (owned p M s)" using i by (auto simp: owned_def)
    then have "stands p (Release i (Some (dev, blkno))) ?M1 (snd (bwrite i ?s1))" using w o by (simp add: stands_def task_ok_def)
    then have "ran p M s (Release i (Some (dev, blkno)), snd (bwrite i ?s1))" using ranI leaves_trans[OF l w(2)] by blast
    moreover obtain s2 where e: "bwrite i ?s1 = (True, s2)" using w(3) by (metis prod.collapse)
    ultimately show ?thesis using Some False by (simp add: blkflush_def e)
  qed
qed

lemma held_run:
  assumes "owned p M s = set_option (owns t)" "owns t = Some i"
  shows "i < nbuf s" "M i = MTask p"
proof -
  have "i \<in> owned p M s" using assms by simp
  then show "i < nbuf s" "M i = MTask p" by (auto simp: owned_def)
qed

lemma owned_drop: "nbuf s' = nbuf s \<Longrightarrow> m \<noteq> MTask p \<Longrightarrow> owned p (M(i := m)) s' = owned p M s - {i}"
  by (auto simp: owned_def)

lemma run_ran:
  assumes st: "stands p t M s" and r: "run t s = Some r"
  shows "ran p M s r"
proof -
  have ok: "cache_ok {} M s" and o: "owned p M s = set_option (owns t)" and tk: "task_ok t s" using st by (auto simp: stands_def)
  show ?thesis
  proof (cases t)
    case (Biowait dev blkno i)
    then have d: "B_DONE \<in> flags s i" "r = (Hold (Some (dev, blkno)) i (geterror (buf s i)), s)" using r by (auto split: if_splits)
    have i: "i < nbuf s" "M i = MTask p" using held_run[OF o] Biowait by auto
    have "i \<notin> set (ioq s)" using mode_okD[OF ok i(1)] i(2) d(1) by auto
    then have "stands p (fst r) M (snd r)" using d ok o Biowait by (simp add: stands_def task_ok_def)
    then show ?thesis using ranI[of p "fst r" M "snd r" M s] d by simp
  next
    case (Release i k)
    then have d: "B_DONE \<in> flags s i" "r = (case k of None \<Rightarrow> Idle | Some (dev, blkno) \<Rightarrow> Flush dev blkno, brelse i s)" using r by (auto split: if_splits)
    have i: "i < nbuf s" "M i = MTask p" using held_run[OF o] Release by auto
    have "i \<notin> set (ioq s)" using mode_okD[OF ok i(1)] i(2) d(1) by auto
    note b = brelse_mine[OF ok i this]
    have "owned p (M(i := MFree)) (brelse i s) = {}" using owned_drop[of "brelse i s" s MFree p M i] o Release by simp
    then have "stands p (fst r) (M(i := MFree)) (snd r)" using b d by (auto simp: stands_def task_ok_def split: option.splits)
    then show ?thesis using ranI[OF _ b(2), of "fst r"] d by simp
  next
    case (Get dev blkno c)
    then show ?thesis using r o tk getblk_ran[OF ok] task_ok_aside[of t "caller_buf c"] by auto
  next
    case (New dev blkno c)
    then show ?thesis using r o tk getblk_new_ran[OF ok] task_ok_aside[of t "caller_buf c"] by auto
  next
    case Newempty
    then show ?thesis using r o geteblk_ran[OF ok] by auto
  next
    case (Flush dev blkno)
    then show ?thesis using r o blkflush_ran[OF ok] by auto
  qed (use r in auto)
qed

section \<open>Steps\<close>

text \<open>Outside the processes: the devices, \<^verbatim>\<open>bflush\<close> and \<^verbatim>\<open>binval\<close>.\<close>

lemma leaves_all:
  assumes "nbuf s' = nbuf s" "\<And>r. M i \<noteq> MTask r" "\<And>r. m \<noteq> MTask r" "\<And>j. j \<noteq> i \<Longrightarrow> buf s' j = buf s j \<and> (j \<in> set (ioq s') \<longleftrightarrow> j \<in> set (ioq s))"
  shows "leaves p M s (M(i := m)) s'"
  by (rule leaves_one) (use assms in simp_all)

lemma bflush_ok: "cache_ok {} M s \<Longrightarrow> \<exists>M'. cache_ok {} M' (bflush dev s) \<and> (\<forall>p. leaves p M s M' (bflush dev s))"
proof (induction dev s arbitrary: M rule: bflush.induct)
  case (1 dev s)
  show ?case
  proof (cases "bflush_next dev s")
    case None
    have "\<forall>p. leaves p M s M s" by simp
    then show ?thesis using 1(2) None by (subst bflush.simps, subst bflush.simps) auto
  next
    case (Some i)
    obtain k where k: "i \<in> set (bfreelist s k)" using find_Some_in[OF Some[unfolded bflush_next_def]] by auto
    then have i: "i < nbuf s" "M i = MFree" using 1(2) in_listsD unfolding cache_ok_def queues_ok_def avail_ok_def by (metis, metis option.discI)
    have mo: "i \<notin> set (ioq s)" using mode_okD[OF 1(2) i(1)] i(2) by auto
    let ?s1 = "notavail i (set_flags i (insert B_ASYNC) s)" and ?M1 = "M(i := MAsync)"
    have c1: "cache_ok {i} ?M1 ?s1" unfolding notavail_def
      by (rule cache_set_flags, rule cache_bremfree[OF cache_set_flags[OF cache_open[OF 1(2)]]]) (use i in simp_all)
    have c2: "cache_ok {} (?M1(i := MAsync)) (snd (bwrite i ?s1))" by (rule cache_bwrite_async[OF c1]) (use i mo in simp_all)
    then have c2: "cache_ok {} ?M1 (snd (bwrite i ?s1))" by simp
    have l2: "leaves p M s ?M1 (snd (bwrite i ?s1))" for p by (rule leaves_all) (use i in simp_all)
    obtain M' where M': "cache_ok {} M' (bflush dev (snd (bwrite i ?s1)))" "\<forall>p. leaves p ?M1 (snd (bwrite i ?s1)) M' (bflush dev (snd (bwrite i ?s1)))"
      using 1(1)[OF Some c2] by blast
    have e: "bflush dev s = bflush dev (snd (bwrite i ?s1))" using Some by (subst bflush.simps) simp
    show ?thesis unfolding e using M' leaves_trans[OF l2] by blast
  qed
qed

lemma mode_ok_INVAL [simp]: "mode_ok m (insert B_INVAL F) q = mode_ok m F q"
  by (cases m) auto

lemma binval_ok: "cache_ok {} M s \<Longrightarrow> tasks_ok M T s \<Longrightarrow> cache_ok {} M (binval dev s) \<and> tasks_ok M T (binval dev s)"
proof -
  assume ok: "cache_ok {} M s" and tk: "tasks_ok M T s"
  have "hash_ok (binval dev s) = hash_ok s" "avail_ok M (binval dev s) = avail_ok M s" by (simp_all add: hash_ok_def avail_ok_def binval_def)
  then have "cache_ok {} M (binval dev s)" using ok by (simp add: cache_ok_def queues_ok_def) (simp add: binval_def)
  moreover have "settled (binval dev s) i = settled s i" for i by (auto simp: settled_def binval_def)
  then have "tasks_ok M T (binval dev s)" using tk unfolding tasks_ok_def task_ok_def by (simp add: binval_def)
  ultimately show ?thesis by blast
qed

lemma transfer_sel [simp]:
  "nbuf (transfer i s) = nbuf s" "bufhash (transfer i s) = bufhash s" "bfreelist (transfer i s) = bfreelist s" "ioq (transfer i s) = ioq s"
  "j \<noteq> i \<Longrightarrow> buf (transfer i s) j = buf s j" "flags (transfer i s) i = flags s i" "b_dev (buf (transfer i s) i) = b_dev (buf s i)"
  "b_blkno (buf (transfer i s) i) = b_blkno (buf s i)" "tapes (transfer i s) = tapes s"
  by (simp_all add: transfer_def Let_def)

lemma cache_transfer: "cache_ok {i} M s \<Longrightarrow> cache_ok {i} M (transfer i s)"
  by (simp add: transfer_def Let_def cache_upd_buf)

lemma io_done_ok:
  assumes ok: "cache_ok {} M s" and tk: "tasks_ok M T s" and i: "i \<in> set (ioq s)"
  shows "\<exists>s' M'. io_done i err s = Ok s' \<and> cache_ok {} M' s' \<and> tasks_ok M' T s'"
proof -
  let ?q = "s\<lparr>ioq := remove1 i (ioq s)\<rparr>"
  define s1 where "s1 = (case err of None \<Rightarrow> transfer i ?q | Some e \<Rightarrow> upd_buf i (\<lambda>b. b\<lparr>b_error := e, b_flags := insert B_ERROR (b_flags b)\<rparr>) ?q)"
  have n: "i < nbuf s" using ok i by (simp add: cache_ok_def queues_ok_def)
  note mo = mode_okD[OF ok n]
  have d: "distinct (ioq s)" by (rule cache_distinct[OF ok])
  have c1: "cache_ok {i} M s1" unfolding s1_def
    using cache_transfer[OF cache_unqueue[OF cache_open[OF ok]]] cache_upd_buf[OF cache_unqueue[OF cache_open[OF ok]]] by (cases err) simp_all
  have sel: "nbuf s1 = nbuf s" "ioq s1 = remove1 i (ioq s)" "j \<noteq> i \<Longrightarrow> buf s1 j = buf s j" for j by (cases err; simp add: s1_def)+
  have fl: "flags s1 i = flags s i \<or> flags s1 i = insert B_ERROR (flags s i)" by (cases err) (simp_all add: s1_def)
  have nd: "B_DONE \<notin> flags s1 i" using mo i fl by (cases "M i") auto
  have r: "io_done i err s = biodone i s1" by (simp add: io_done_def s1_def Let_def)
  show ?thesis
  proof (cases "M i")
    case MFree
    then show ?thesis using mo i by simp
  next
    case MAsync
    then have a: "B_ASYNC \<in> flags s1 i" using mo fl by auto
    let ?s2 = "brelse i (set_flags i (insert B_DONE) s1)"
    have "cache_ok {} (M(i := MFree)) ?s2" by (rule cache_brelse[OF cache_set_flags[OF c1]]) (use n sel d MAsync in simp_all)
    moreover have "tasks_ok (M(i := MFree)) T ?s2" by (rule tasks_env[OF tk], rule leaves_all) (use sel MAsync in simp_all)
    moreover have "io_done i err s = Ok ?s2" using r nd a by (simp add: biodone_def)
    ultimately show ?thesis by blast
  next
    case (MTask p)
    then have a: "B_ASYNC \<notin> flags s1 i" using mo fl by auto
    let ?s2 = "set_flags i (\<lambda>F. F - {B_WANTED}) (set_flags i (insert B_DONE) s1)"
    have o: "owns (T p) = Some i" "task_ok (T p) s" using tk n MTask by (auto simp: tasks_ok_def)
    have "cache_ok {} M ?s2"
      by (rule cache_close[OF cache_set_flags[OF cache_set_flags[OF c1]]]) (use mo fl MTask sel d in auto)
    moreover have "tasks_ok M (T(p := T p)) ?s2"
    proof (rule tasks_step[OF tk])
      show "leaves p M s M ?s2" by (rule leaves_same[of _ _ _ _ i]) (use sel MTask in simp_all)
      show "owns (T p) = Some k \<longleftrightarrow> k < nbuf s \<and> M k = MTask p" for k using tk by (simp add: tasks_ok_def)
      show "task_ok (T p) ?s2" using o i by (auto simp: task_ok_def settled_def split: if_splits)
    qed
    moreover have "io_done i err s = Ok ?s2" using r nd a by (simp add: biodone_def)
    ultimately show ?thesis unfolding fun_upd_triv by blast
  qed
qed

section \<open>The invariant of all runs\<close>

definition bio_ok :: "(nat \<Rightarrow> task) \<times> bcache \<Rightarrow> bool" where
  "bio_ok c \<longleftrightarrow> (\<exists>M. cache_ok {} M (snd c) \<and> tasks_ok M (fst c) (snd c))"

lemma bio_okI: "cache_ok {} M s \<Longrightarrow> tasks_ok M T s \<Longrightarrow> bio_ok (T, s)"
  unfolding bio_ok_def by auto

lemma tasks_stands: "cache_ok {} M s \<Longrightarrow> tasks_ok M T s \<Longrightarrow> stands p (T p) M s"
  by (auto simp: stands_def tasks_ok_def owned_def)

lemma tasks_ran: "tasks_ok M T s \<Longrightarrow> ran p M s r \<Longrightarrow> bio_ok (T(p := fst r), snd r)"
proof -
  assume tk: "tasks_ok M T s" and "ran p M s r"
  then obtain M' where m: "stands p (fst r) M' (snd r)" "leaves p M s M' (snd r)" by (auto simp: ran_def)
  have "owns (fst r) = Some i \<longleftrightarrow> i \<in> owned p M' (snd r)" for i using m(1) by (simp add: stands_def)
  then have "owns (fst r) = Some i \<longleftrightarrow> i < nbuf s \<and> M' i = MTask p" for i using m(2) by (simp add: owned_def leaves_def)
  then have "tasks_ok M' (T(p := fst r)) (snd r)" using tasks_step[OF tk m(2)] m(1) by (simp add: stands_def)
  moreover have "cache_ok {} M' (snd r)" using m(1) by (simp add: stands_def)
  ultimately show ?thesis by (intro bio_okI)
qed

lemma held_step:
  assumes ok: "cache_ok {} M s" and tk: "tasks_ok M T s" and t: "T p = Hold r i e"
  shows "i < nbuf s" "M i = MTask p" "i \<notin> set (ioq s)" "owned p M s = {i}"
proof -
  have o: "\<forall>k. owns (T p) = Some k \<longleftrightarrow> k < nbuf s \<and> M k = MTask p" "task_ok (T p) s" using tk by (auto simp: tasks_ok_def)
  then show "i < nbuf s" "M i = MTask p" "i \<notin> set (ioq s)" "owned p M s = {i}" using t by (auto simp: task_ok_def owned_def)
qed

lemma gave_up: "tasks_ok M T s \<Longrightarrow> owned p M s = {i} \<Longrightarrow> cache_ok {} (M(i := m)) s' \<Longrightarrow> leaves p M s (M(i := m)) s' \<Longrightarrow> m \<noteq> MTask p \<Longrightarrow>
    bio_ok (T(p := Idle), s')"
proof -
  assume a: "tasks_ok M T s" "owned p M s = {i}" "cache_ok {} (M(i := m)) s'" "leaves p M s (M(i := m)) s'" "m \<noteq> MTask p"
  have "owned p (M(i := m)) s' = {}" using owned_drop[of s' s m p M i] a by (simp add: leaves_def)
  then have "ran p M s (Idle, s')" using a by (intro ranI) (simp_all add: stands_def task_ok_def)
  then show ?thesis using tasks_ran[OF a(1)] by fastforce
qed

lemma bio_step_ok:
  assumes "bio_step c ev c'" "bio_ok c"
  shows "bio_ok c'"
proof -
  from assms(2) obtain M where "cache_ok {} M (snd c)" "tasks_ok M (fst c) (snd c)" by (auto simp: bio_ok_def)
  from assms(1) this show ?thesis
  proof (induction rule: bio_step.induct)
    case (Call_getblk T p c s dev blkno)
    then have o: "owned p M s = {}" using tasks_stands[of M s T p] by (simp add: stands_def)
    then have "ran p M s (Get dev blkno c, s)" using Call_getblk by (intro ranI[of _ _ M]) (auto simp: stands_def task_ok_def)
    then show ?case using tasks_ran Call_getblk by fastforce
  next
    case (Call_breada T p dev blkno rablkno s t s')
    then have o: "owned p M s = {}" using tasks_stands[of M s T p] by (simp add: stands_def)
    have "ran p M s (breada dev blkno rablkno s)"
    proof (cases "incore dev blkno s")
      case True
      then show ?thesis using breada_ahead_ran[of M s p None dev blkno rablkno] o Call_breada(3) by (simp add: breada_def aside_def)
    next
      case False
      have "ran p M s (Get dev blkno (First rablkno), s)" using o Call_breada(3) by (intro ranI[of _ _ M]) (auto simp: stands_def task_ok_def)
      then show ?thesis using False by (simp add: breada_def)
    qed
    then show ?case using tasks_ran Call_breada by fastforce
  next
    case (Call_geteblk T p s)
    then have o: "owned p M s = {}" using tasks_stands[of M s T p] by (simp add: stands_def)
    then have "ran p M s (Newempty, s)" using Call_geteblk by (intro ranI[of _ _ M]) (auto simp: stands_def task_ok_def)
    then show ?case using tasks_ran Call_geteblk by fastforce
  next
    case (Call_blkflush T p s dev blkno)
    then have o: "owned p M s = {}" using tasks_stands[of M s T p] by (simp add: stands_def)
    then have "ran p M s (Flush dev blkno, s)" using Call_blkflush by (intro ranI[of _ _ M]) (auto simp: stands_def task_ok_def)
    then show ?case using tasks_ran Call_blkflush by fastforce
  next
    case (Run T p s t s')
    then have "ran p M s (t, s')" using run_ran[OF tasks_stands] by auto
    then show ?case using tasks_ran Run by fastforce
  next
    case (Modify T p r i e s d)
    then have c: "cache_ok {} M s" "tasks_ok M T s" by simp_all
    note h = held_step[OF c Modify(1)]
    let ?s = "upd_buf i (\<lambda>b. b\<lparr>b_data := d\<rparr>) s"
    have "cache_ok {} M ?s" by (rule cache_close[OF cache_upd_buf[OF cache_open[OF c(1)]]]) (use mode_okD[OF c(1) h(1)] in simp)
    moreover have "leaves p M s M ?s" by (rule leaves_same[of _ _ _ _ i]) (use h in simp_all)
    moreover have "owned p M ?s = {i}" using h(4) unfolding owned_def by simp
    ultimately have "ran p M s (T p, ?s)" using Modify h(3) by (intro ranI) (simp_all add: stands_def task_ok_def)
    then show ?case using tasks_ran[OF c(2)] by fastforce
  next
    case (Brelse T p r i e s)
    then have c: "cache_ok {} M s" "tasks_ok M T s" by simp_all
    note h = held_step[OF c Brelse(1)]
    show ?case using gave_up[OF c(2) h(4) brelse_mine[OF c(1) h(1-3)]] by simp
  next
    case (Bwrite T p r i e s s')
    then have c: "cache_ok {} M s" "tasks_ok M T s" by simp_all
    note h = held_step[OF c Bwrite(1)]
    have e: "snd (bwrite i s) = s'" using Bwrite by simp
    note w = bwrite_mine[OF c(1) h(1-3), unfolded e]
    have "owned p M s' = {i}" using h(4) w(2) unfolding owned_def leaves_def by simp
    then have "ran p M s (Release i None, s')" using w by (intro ranI) (simp_all add: stands_def task_ok_def)
    then show ?case using tasks_ran[OF c(2)] by fastforce
  next
    case (Bawrite T p r i e s)
    then have c: "cache_ok {} M s" "tasks_ok M T s" by simp_all
    note h = held_step[OF c Bawrite(1)]
    show ?case using gave_up[OF c(2) h(4) bawrite_mine[OF c(1) h(1-3)]] by simp
  next
    case (Bdwrite T p r i e s)
    then have c: "cache_ok {} M s" "tasks_ok M T s" by simp_all
    note h = held_step[OF c Bdwrite(1)]
    show ?case using gave_up[OF c(2) h(4)] bdwrite_mine[OF c(1) h(1-3)] by blast
  next
    case (Io_done i s err s' T)
    then show ?case using io_done_ok[of M s T i err] bio_okI by auto
  next
    case (Bflush T s dev)
    then obtain M' where "cache_ok {} M' (bflush dev s)" "\<forall>p. leaves p M s M' (bflush dev s)" using bflush_ok[of M s dev] by auto
    then show ?case using tasks_env[of M T s M'] Bflush bio_okI by auto
  next
    case (Binval T s dev)
    then show ?case using binval_ok[of M s T dev] bio_okI by auto
  qed
qed

lemma bio_run_ok: "bio_run c es c' \<Longrightarrow> bio_ok c \<Longrightarrow> bio_ok c'"
  by (induction rule: bio_run.induct) (auto intro: bio_step_ok)

section \<open>Start\<close>

lemma binit_eq:
  "k \<le> nbuf s \<Longrightarrow>
   fold (\<lambda>i s. brelse i (set_flags i (\<lambda>F. {B_BUSY, B_INVAL}) (binshash i EMPTIES (upd_buf i (\<lambda>b. b\<lparr>b_dev := NODEV, b_bcount := 0\<rparr>) s))))
     [0..<k] (s\<lparr>bufhash := (\<lambda>h. []), bfreelist := (\<lambda>q. [])\<rparr>) =
   s\<lparr>bufhash := (\<lambda>h. [])(EMPTIES := rev [0..<k]), bfreelist := (\<lambda>q. [])(BQ_AGE := rev [0..<k]),
     bq_wanted := (k = 0 \<and> bq_wanted s), buf := (\<lambda>i. if i < k then (buf s i)\<lparr>b_dev := NODEV, b_bcount := 0, b_flags := {B_INVAL}\<rparr> else buf s i)\<rparr>"
proof (induction k)
  case 0
  show ?case by (simp add: fun_upd_idem)
next
  case (Suc k)
  let ?r = "s\<lparr>bufhash := (\<lambda>h. [])(EMPTIES := rev [0..<k]), bfreelist := (\<lambda>q. [])(BQ_AGE := rev [0..<k]),
     bq_wanted := (k = 0 \<and> bq_wanted s), buf := (\<lambda>i. if i < k then (buf s i)\<lparr>b_dev := NODEV, b_bcount := 0, b_flags := {B_INVAL}\<rparr> else buf s i)\<rparr>"
  have e: "{B_BUSY, B_INVAL} - {B_WANTED, B_BUSY, B_ASYNC, B_AGE} = {B_INVAL}" by auto
  have b: "(buf ?r)(k := (buf s k)\<lparr>b_dev := NODEV, b_bcount := 0, b_flags := {B_INVAL}\<rparr>) =
      (\<lambda>i. if i < Suc k then (buf s i)\<lparr>b_dev := NODEV, b_bcount := 0, b_flags := {B_INVAL}\<rparr> else buf s i)"
    by (auto simp: fun_eq_iff less_Suc_eq)
  have "brelse k (set_flags k (\<lambda>F. {B_BUSY, B_INVAL}) (binshash k EMPTIES (upd_buf k (\<lambda>b. b\<lparr>b_dev := NODEV, b_bcount := 0\<rparr>) ?r))) =
      s\<lparr>bufhash := (\<lambda>h. [])(EMPTIES := rev [0..<Suc k]), bfreelist := (\<lambda>q. [])(BQ_AGE := rev [0..<Suc k]),
        bq_wanted := False, buf := (buf ?r)(k := (buf s k)\<lparr>b_dev := NODEV, b_bcount := 0, b_flags := {B_INVAL}\<rparr>)\<rparr>"
    by (simp add: brelse_def Let_def binsheadfree_def set_flags_def upd_buf_def binshash_def e)
  moreover have "fold (\<lambda>i s. brelse i (set_flags i (\<lambda>F. {B_BUSY, B_INVAL}) (binshash i EMPTIES (upd_buf i (\<lambda>b. b\<lparr>b_dev := NODEV, b_bcount := 0\<rparr>) s))))
     [0..<k] (s\<lparr>bufhash := (\<lambda>h. []), bfreelist := (\<lambda>q. [])\<rparr>) = ?r" by (rule Suc.IH) (use Suc.prems in simp)
  ultimately show ?case unfolding upt_Suc_append[OF le0] fold_append comp_apply fold_simps b by (simp only:) (simp del: fun_upd_apply)
qed

lemma binit_ok:
  assumes "ioq s = []"
  shows "bio_ok (\<lambda>p. Idle, binit s)"
proof -
  let ?s = "binit s"
  have b: "nbuf ?s = nbuf s" "ioq ?s = []" "bufhash ?s = (\<lambda>h. [])(EMPTIES := rev [0..<nbuf s])" "bfreelist ?s = (\<lambda>q. [])(BQ_AGE := rev [0..<nbuf s])"
    "i < nbuf s \<Longrightarrow> flags ?s i = {B_INVAL}" for i
    using binit_eq[of "nbuf s" s] assms by (simp_all add: binit_def)
  have "hash_ok ?s" unfolding hash_ok_def in_lists_def by (intro exI[of _ "\<lambda>i. Some EMPTIES"]) (auto simp: b)
  moreover have "avail_ok (\<lambda>i. MFree) ?s" unfolding avail_ok_def in_lists_def by (intro exI[of _ "\<lambda>i. Some BQ_AGE"]) (auto simp: b)
  ultimately have "cache_ok {} (\<lambda>i. MFree) ?s" using b by (simp add: cache_ok_def queues_ok_def)
  moreover have "tasks_ok (\<lambda>i. MFree) (\<lambda>p. Idle) ?s" by (simp add: tasks_ok_def task_ok_def)
  ultimately show ?thesis by (rule bio_okI)
qed

lemma bio_ok_facts:
  assumes "bio_ok (T, s)" and i: "i < nbuf s"
  shows "\<exists>!h. i \<in> set (bufhash s h)" "B_BUSY \<notin> flags s i \<longleftrightarrow> (\<exists>!q. i \<in> set (bfreelist s q))" "B_BUSY \<in> flags s i \<longleftrightarrow> (\<forall>q. i \<notin> set (bfreelist s q))"
    "B_BUSY \<in> flags s i \<and> B_ASYNC \<notin> flags s i \<longleftrightarrow> (\<exists>!p. owns (T p) = Some i)" "B_ASYNC \<in> flags s i \<longrightarrow> i \<in> set (ioq s)"
    "B_BUSY \<notin> flags s i \<longrightarrow> i \<notin> set (ioq s)" "(\<exists>p. owns (T p) = Some i) \<longrightarrow> B_BUSY \<in> flags s i \<and> B_ASYNC \<notin> flags s i"
    "i \<in> set (ioq s) \<longrightarrow> (\<exists>s'. io_done i err s = Ok s')"
proof -
  from assms(1) obtain M where ok: "cache_ok {} M s" and tk: "tasks_ok M T s" by (auto simp: bio_ok_def)
  note mo = mode_okD[OF ok i]
  obtain c where c: "\<And>h. set (bufhash s h) = {i. i < nbuf s \<and> c i = Some h}" "\<forall>i<nbuf s. c i \<noteq> None"
    using ok by (auto simp: cache_ok_def queues_ok_def hash_ok_def in_lists_def)
  then show "\<exists>!h. i \<in> set (bufhash s h)" using i by auto
  obtain q where q: "\<And>h. set (bfreelist s h) = {i. i < nbuf s \<and> q i = Some h}" "\<forall>i<nbuf s. q i = None \<longleftrightarrow> M i \<noteq> MFree"
    using ok by (auto simp: cache_ok_def queues_ok_def avail_ok_def in_lists_def)
  have f: "M i = MFree \<longleftrightarrow> B_BUSY \<notin> flags s i" using mo by (cases "M i") auto
  then have "B_BUSY \<notin> flags s i \<longleftrightarrow> (\<exists>h. q i = Some h)" using q(2) i by auto
  then show "B_BUSY \<notin> flags s i \<longleftrightarrow> (\<exists>!q. i \<in> set (bfreelist s q))" "B_BUSY \<in> flags s i \<longleftrightarrow> (\<forall>q. i \<notin> set (bfreelist s q))"
    unfolding q(1) using i by auto
  have t: "owns (T p) = Some i \<longleftrightarrow> M i = MTask p" for p using tk i by (simp add: tasks_ok_def)
  show "B_BUSY \<in> flags s i \<and> B_ASYNC \<notin> flags s i \<longleftrightarrow> (\<exists>!p. owns (T p) = Some i)" "(\<exists>p. owns (T p) = Some i) \<longrightarrow> B_BUSY \<in> flags s i \<and> B_ASYNC \<notin> flags s i"
    unfolding t using mo by (cases "M i"; auto)+
  show "B_ASYNC \<in> flags s i \<longrightarrow> i \<in> set (ioq s)" "B_BUSY \<notin> flags s i \<longrightarrow> i \<notin> set (ioq s)" using mo by (cases "M i"; auto)+
  show "i \<in> set (ioq s) \<longrightarrow> (\<exists>s'. io_done i err s = Ok s')" using io_done_ok[OF ok tk] by blast
qed

end
