(* ===== verification/Bio_Coh.thy ===== *)
theory Bio_Coh
  imports Bio_Props
begin

text \<open>
  What the buffer cache is for: reading a block gives what was last written to it, through whichever buffers, delayed or asynchronous
  writes it went. \<open>A\<close> is the abstract disk, which a process changes when it changes the contents of a buffer; \<open>D\<close> are the
  buffers changed but not yet handed over for writing. \<open>coh\<close> says where the contents of a block are: in the buffer that has something
  to be written, or on the disk. Of two buffers never both have the same block.
\<close>

section \<open>The invariant\<close>

definition live :: "bcache \<Rightarrow> nat \<Rightarrow> bool" where
  "live s i \<longleftrightarrow> i < nbuf s \<and> B_INVAL \<notin> flags s i \<and> b_dev (buf s i) \<noteq> NODEV"

definition key :: "bcache \<Rightarrow> nat \<Rightarrow> int \<times> int" where
  "key s i = (b_dev (buf s i), b_blkno (buf s i))"

definition pend :: "nat set \<Rightarrow> bcache \<Rightarrow> nat \<Rightarrow> bool" where
  "pend D s i \<longleftrightarrow> B_DELWRI \<in> flags s i \<or> i \<in> set (ioq s) \<and> B_READ \<notin> flags s i \<or> i \<in> D"

definition block_ok :: "(int \<times> int \<Rightarrow> u8 list) \<Rightarrow> nat set \<Rightarrow> bcache \<Rightarrow> nat \<Rightarrow> bool" where
  "block_ok A D s i \<longleftrightarrow> B_ERROR \<notin> flags s i \<and> (i \<in> D \<longrightarrow> B_BUSY \<in> flags s i \<and> i \<notin> set (ioq s)) \<and>
     (if live s i
      then if pend D s i then A (key s i) = b_data (buf s i)
           else A (key s i) = blocks s (key s i) \<and> (B_DONE \<in> flags s i \<longrightarrow> b_data (buf s i) = blocks s (key s i))
      else \<not> pend D s i)"

definition coh :: "nat set \<Rightarrow> (int \<times> int \<Rightarrow> u8 list) \<Rightarrow> nat set \<Rightarrow> bcache \<Rightarrow> bool" where
  "coh X A D s \<longleftrightarrow> (\<forall>i<nbuf s. i \<notin> X \<longrightarrow> block_ok A D s i) \<and>
     (\<forall>i j. live s i \<and> live s j \<and> i \<notin> X \<and> j \<notin> X \<and> key s i = key s j \<longrightarrow> i = j) \<and>
     (\<forall>i. live s i \<and> i \<notin> X \<longrightarrow> (\<exists>b. b_blkno (buf s i) = fsbtodb b \<and> i \<in> set (bufhash s (BUFHASH (b_dev (buf s i)) b)))) \<and>
     (\<forall>k. (\<forall>i. live s i \<and> i \<notin> X \<longrightarrow> key s i \<noteq> k) \<longrightarrow> A k = blocks s k)"

lemma cohD: "coh {} A D s \<Longrightarrow> i < nbuf s \<Longrightarrow> block_ok A D s i"
  by (simp add: coh_def)

lemma coh_unique: "coh {} A D s \<Longrightarrow> live s i \<Longrightarrow> live s j \<Longrightarrow> key s i = key s j \<Longrightarrow> i = j"
  by (simp add: coh_def)

lemma coh_rest: "coh X A D s \<Longrightarrow> \<forall>i. live s i \<and> i \<notin> X \<longrightarrow> key s i \<noteq> k \<Longrightarrow> A k = blocks s k"
  unfolding coh_def by blast

lemma cohI:
  assumes "\<And>i. i < nbuf s \<Longrightarrow> i \<notin> X \<Longrightarrow> block_ok A D s i"
    "\<And>i j. live s i \<Longrightarrow> live s j \<Longrightarrow> i \<notin> X \<Longrightarrow> j \<notin> X \<Longrightarrow> key s i = key s j \<Longrightarrow> i = j"
    "\<And>i. live s i \<Longrightarrow> i \<notin> X \<Longrightarrow> \<exists>b. b_blkno (buf s i) = fsbtodb b \<and> i \<in> set (bufhash s (BUFHASH (b_dev (buf s i)) b))"
    "\<And>k. \<forall>i. live s i \<and> i \<notin> X \<longrightarrow> key s i \<noteq> k \<Longrightarrow> A k = blocks s k"
  shows "coh X A D s"
  unfolding coh_def using assms by blast

lemma coh_hashed:
  "coh X A D s \<Longrightarrow> live s i \<Longrightarrow> i \<notin> X \<Longrightarrow> \<exists>b. b_blkno (buf s i) = fsbtodb b \<and> i \<in> set (bufhash s (BUFHASH (b_dev (buf s i)) b))"
  unfolding coh_def by blast

text \<open>A change of one buffer, and of its block.\<close>

lemma coh_local:
  assumes c: "coh {} A D s" and i: "i < nbuf s" and sel: "nbuf s' = nbuf s" "bufhash s' = bufhash s"
    and o: "\<And>j. j \<noteq> i \<Longrightarrow> buf s' j = buf s j \<and> (j \<in> set (ioq s') \<longleftrightarrow> j \<in> set (ioq s)) \<and> (j \<in> D' \<longleftrightarrow> j \<in> D)"
    and k: "live s' i \<longleftrightarrow> live s i" "key s' i = key s i"
    and b: "\<And>b. \<not> live s i \<or> b \<noteq> key s i \<Longrightarrow> blocks s' b = blocks s b \<and> A' b = A b"
    and l: "block_ok A' D' s' i"
  shows "coh {} A' D' s'"
proof -
  have lv: "live s' j \<longleftrightarrow> live s j" "key s' j = key s j" for j using o[of j] k sel by (cases "j = i"; simp add: live_def key_def)+
  have "block_ok A' D' s' j" if j: "j < nbuf s" "j \<noteq> i" for j
  proof -
    have old: "block_ok A D s j" by (rule cohD[OF c j(1)])
    have p: "pend D' s' j = pend D s j" using o[OF j(2)] by (simp add: pend_def)
    have "live s j \<Longrightarrow> blocks s' (key s j) = blocks s (key s j) \<and> A' (key s j) = A (key s j)"
      using b[of "key s j"] coh_unique[OF c, of i j] j(2) by metis
    then show ?thesis using old o[OF j(2)] p lv[of j] by (auto simp: block_ok_def)
  qed
  then have b1: "block_ok A' D' s' j" if "j < nbuf s'" for j using l sel that by metis
  have b3: "\<forall>j. live s' j \<longrightarrow> (\<exists>b. b_blkno (buf s' j) = fsbtodb b \<and> j \<in> set (bufhash s' (BUFHASH (b_dev (buf s' j)) b)))"
  proof (intro allI impI)
    fix j assume "live s' j"
    then have "live s j" by (simp add: lv)
    then have "\<exists>b. b_blkno (buf s j) = fsbtodb b \<and> j \<in> set (bufhash s (BUFHASH (b_dev (buf s j)) b))" using c by (simp add: coh_def)
    then show "\<exists>b. b_blkno (buf s' j) = fsbtodb b \<and> j \<in> set (bufhash s' (BUFHASH (b_dev (buf s' j)) b))"
      using lv(2)[of j] sel by (simp add: key_def)
  qed
  have b4: "A' k = blocks s' k" if "\<forall>j. live s j \<longrightarrow> key s j \<noteq> k" for k
  proof -
    have "A k = blocks s k" using coh_rest[OF c] that by simp
    then show ?thesis using that b[of k] by metis
  qed
  show ?thesis using b1 b3 b4 coh_unique[OF c] by (intro cohI) (simp_all add: lv)
qed

text \<open>Only the flags that count, and only of one buffer.\<close>

lemma coh_cong:
  assumes sel: "nbuf s' = nbuf s" "bufhash s' = bufhash s" "blocks s' = blocks s" "\<And>j. j \<in> set (ioq s') \<longleftrightarrow> j \<in> set (ioq s)"
    and b: "\<And>j. (buf s' j)\<lparr>b_flags := {}\<rparr> = (buf s j)\<lparr>b_flags := {}\<rparr>"
    and f: "\<And>j x. x \<in> {B_READ, B_DONE, B_ERROR, B_DELWRI, B_INVAL} \<Longrightarrow> x \<in> flags s' j \<longleftrightarrow> x \<in> flags s j"
    and D: "\<And>j. j \<in> D \<Longrightarrow> B_BUSY \<in> flags s' j \<longleftrightarrow> B_BUSY \<in> flags s j"
  shows "coh X A D s' = coh X A D s"
proof -
  have sb: "b_dev (buf s' j) = b_dev (buf s j)" "b_blkno (buf s' j) = b_blkno (buf s j)" "b_data (buf s' j) = b_data (buf s j)" for j
    using b[of j] by (metis bufhdr.select_convs bufhdr.surjective bufhdr.update_convs(1))+
  have lv: "live s' j \<longleftrightarrow> live s j" "key s' j = key s j" "pend D s' j = pend D s j" for j
    using f[of _ j] sel sb by (simp_all add: live_def key_def pend_def)
  have "block_ok A D s' j = block_ok A D s j" for j
    using f[of _ j] D[of j] sel lv sb by (auto simp: block_ok_def)
  then show ?thesis unfolding coh_def sel lv sb by simp
qed

section \<open>The operations\<close>

lemma coh_notavail: "coh {} A D s \<Longrightarrow> B_BUSY \<notin> flags s i \<Longrightarrow> i < nbuf s \<Longrightarrow> coh {} A D (notavail i s) \<and> i \<notin> D"
proof -
  assume c: "coh {} A D s" and b: "B_BUSY \<notin> flags s i" and i: "i < nbuf s"
  have "i \<notin> D" using cohD[OF c i] b by (auto simp: block_ok_def)
  moreover have "coh {} A D (notavail i s) = coh {} A D s" by (rule coh_cong) (use \<open>i \<notin> D\<close> in auto)
  ultimately show ?thesis using c by simp
qed

lemma coh_set_flags:
  assumes "\<And>x. x \<in> {B_READ, B_DONE, B_ERROR, B_DELWRI, B_INVAL} \<Longrightarrow> x \<in> f (flags s i) \<longleftrightarrow> x \<in> flags s i" "i \<in> D \<Longrightarrow> B_BUSY \<in> f (flags s i) \<longleftrightarrow> B_BUSY \<in> flags s i"
  shows "coh X A D (set_flags i f s) = coh X A D s"
  by (rule coh_cong) (use assms in auto)

lemma coh_brelse: "coh {} A D s \<Longrightarrow> i < nbuf s \<Longrightarrow> i \<notin> D \<Longrightarrow> coh {} A D (brelse i s)"
proof -
  assume c: "coh {} A D s" and i: "i < nbuf s" "i \<notin> D"
  have e: "B_ERROR \<notin> flags s i" using cohD[OF c i(1)] by (simp add: block_ok_def)
  have b: "(buf (brelse i s) j)\<lparr>b_flags := {}\<rparr> = (buf s j)\<lparr>b_flags := {}\<rparr>" for j
    using e by (cases "j = i") (auto simp: brelse_def Let_def binsheadfree_def binstailfree_def)
  have f: "x \<in> flags (brelse i s) j \<longleftrightarrow> x \<in> flags s j" if "x \<in> {B_READ, B_DONE, B_ERROR, B_DELWRI, B_INVAL}" for x j
    using e that by (cases "j = i") (auto simp: brelse_flags)
  have "coh {} A D (brelse i s) = coh {} A D s"
  proof (rule coh_cong)
    show "B_BUSY \<in> flags (brelse i s) j \<longleftrightarrow> B_BUSY \<in> flags s j" if "j \<in> D" for j using that i(2) by (cases "j = i") simp_all
  qed (use b f in auto)
  then show ?thesis using c by simp
qed

text \<open>Handing a buffer to the device for writing: it has something to be written, or agrees with the disk.\<close>

lemma coh_bwrite:
  assumes c: "coh {} A D s" and i: "i < nbuf s" "live s i" "i \<in> D \<or> B_DELWRI \<in> flags s i \<or> B_DONE \<in> flags s i"
  shows "coh {} A (D - {i}) (snd (bwrite i s))"
proof (rule coh_local[OF c i(1)])
  have l: "live (snd (bwrite i s)) i = live s i" "key (snd (bwrite i s)) i = key s i" by (simp_all add: live_def key_def bwrite_flags)
  then show "live (snd (bwrite i s)) i = live s i" "key (snd (bwrite i s)) i = key s i" by simp_all
  show "block_ok A (D - {i}) (snd (bwrite i s)) i"
    using cohD[OF c i(1)] i l by (auto simp: block_ok_def pend_def bwrite_flags split: if_splits)
qed auto

lemma coh_bawrite:
  assumes c: "coh {} A D s" and i: "i < nbuf s" "live s i" "i \<in> D \<or> B_DELWRI \<in> flags s i \<or> B_DONE \<in> flags s i"
  shows "coh {} A (D - {i}) (bawrite i s)"
proof -
  have "coh {} A D (set_flags i (insert B_ASYNC) s)" by (subst coh_set_flags) (use c in auto)
  then show ?thesis unfolding bawrite_def by (rule coh_bwrite) (use i in \<open>auto simp: live_def\<close>)
qed

lemma coh_bdwrite:
  assumes c: "coh {} A D s" and i: "i < nbuf s" "live s i" "i \<in> D \<or> B_DONE \<in> flags s i" and q: "i \<notin> set (ioq s)"
  shows "coh {} A (D - {i}) (bdwrite i s)"
proof (cases "tapes s (b_dev (buf s i))")
  case True
  then show ?thesis using coh_bawrite[OF c i(1,2)] i(3) by (auto simp: bdwrite_def)
next
  case False
  let ?s1 = "set_flags i (\<lambda>F. F \<union> {B_DELWRI, B_DONE}) s"
  have "coh {} A (D - {i}) ?s1"
  proof (rule coh_local[OF c i(1)])
    show "block_ok A (D - {i}) ?s1 i" using cohD[OF c i(1)] i q by (auto simp: block_ok_def pend_def live_def key_def split: if_splits)
  qed (auto simp: live_def key_def)
  then have "coh {} A (D - {i}) (brelse i ?s1)" by (rule coh_brelse) (use i in simp_all)
  then show ?thesis using False by (simp add: bdwrite_def)
qed

lemma coh_start_read:
  assumes c: "coh {} A D s" and i: "i < nbuf s" "i \<notin> D" "\<not> has_data s i" "i \<notin> set (ioq s)" and F: "F = {B_READ} \<or> F = {B_READ, B_ASYNC}"
  shows "coh {} A D (start_read F i s)"
proof (rule coh_local[OF c i(1)])
  have l: "live (start_read F i s) i = live s i" "key (start_read F i s) i = key s i" using F by (auto simp: live_def key_def)
  then show "live (start_read F i s) i = live s i" "key (start_read F i s) i = key s i" by simp_all
  show "block_ok A D (start_read F i s) i"
    using cohD[OF c i(1)] i F l by (auto simp: block_ok_def pend_def has_data_def split: if_splits)
qed auto

text \<open>A buffer with nothing to be written can be taken for another block.\<close>

lemma coh_open:
  assumes c: "coh {} A D s" and i: "i < nbuf s" "\<not> pend D s i"
  shows "coh {i} A D s"
proof -
  have b: "block_ok A D s i" by (rule cohD[OF c i(1)])
  have "A k = blocks s k" if k: "\<forall>j. live s j \<and> j \<noteq> i \<longrightarrow> key s j \<noteq> k" for k
  proof (cases "live s i \<and> key s i = k")
    case True
    then show ?thesis using b i(2) by (auto simp: block_ok_def)
  next
    case False
    then have "\<forall>j. live s j \<and> j \<notin> {} \<longrightarrow> key s j \<noteq> k" using k by metis
    then show ?thesis by (rule coh_rest[OF c])
  qed
  then show ?thesis using cohD[OF c] coh_unique[OF c] coh_hashed[OF c] by (intro cohI) auto
qed

lemma coh_upd_open:
  assumes "nbuf s' = nbuf s" "blocks s' = blocks s" "\<And>j. j \<noteq> i \<Longrightarrow> buf s' j = buf s j \<and> (j \<in> set (ioq s') \<longleftrightarrow> j \<in> set (ioq s)) \<and> (\<forall>h. j \<in> set (bufhash s h) \<longrightarrow> j \<in> set (bufhash s' h))"
    and c: "coh {i} A D s"
  shows "coh {i} A D s'"
proof -
  have lv: "j \<noteq> i \<Longrightarrow> live s' j \<longleftrightarrow> live s j" "j \<noteq> i \<Longrightarrow> key s' j = key s j" "j \<noteq> i \<Longrightarrow> pend D s' j = pend D s j" for j
    using assms(1) assms(3)[of j] by (simp_all add: live_def key_def pend_def)
  have "\<forall>j<nbuf s'. j \<noteq> i \<longrightarrow> block_ok A D s' j"
  proof (intro allI impI)
    fix j assume j: "j < nbuf s'" "j \<noteq> i"
    then have "block_ok A D s j" using c assms(1) by (simp add: coh_def)
    then show "block_ok A D s' j" using assms(3)[OF j(2)] lv[OF j(2)] assms(2) by (simp add: block_ok_def)
  qed
  moreover have "\<forall>j. live s' j \<and> j \<noteq> i \<longrightarrow> (\<exists>b. b_blkno (buf s' j) = fsbtodb b \<and> j \<in> set (bufhash s' (BUFHASH (b_dev (buf s' j)) b)))"
  proof (intro allI impI, elim conjE)
    fix j assume j: "live s' j" "j \<noteq> i"
    then have "\<exists>b. b_blkno (buf s j) = fsbtodb b \<and> j \<in> set (bufhash s (BUFHASH (b_dev (buf s j)) b))" using c lv by (simp add: coh_def)
    then show "\<exists>b. b_blkno (buf s' j) = fsbtodb b \<and> j \<in> set (bufhash s' (BUFHASH (b_dev (buf s' j)) b))" using assms(3)[OF j(2)] by auto
  qed
  ultimately show ?thesis using c lv assms(2) by (auto simp: coh_def)
qed

lemma coh_close:
  assumes c: "coh {i} A D s" and b: "i < nbuf s \<Longrightarrow> block_ok A D s i" and u: "\<And>j. live s i \<Longrightarrow> live s j \<Longrightarrow> key s i = key s j \<Longrightarrow> i = j"
    and h: "live s i \<Longrightarrow> \<exists>b. b_blkno (buf s i) = fsbtodb b \<and> i \<in> set (bufhash s (BUFHASH (b_dev (buf s i)) b))"
  shows "coh {} A D s"
proof -
  show ?thesis
  proof (rule cohI)
    show "block_ok A D s j" if "j < nbuf s" for j using c b that by (cases "j = i") (simp_all add: coh_def)
    show "j = k" if "live s j" "live s k" "key s j = key s k" for j k
    proof (cases "j = i \<or> k = i")
      case True
      then show ?thesis using u that by metis
    next
      case False
      then show ?thesis using c that unfolding coh_def by blast
    qed
    show "\<exists>b. b_blkno (buf s j) = fsbtodb b \<and> j \<in> set (bufhash s (BUFHASH (b_dev (buf s j)) b))" if "live s j" for j
      using coh_hashed[OF c that] h that by (cases "j = i") simp_all
    show "A k = blocks s k" if "\<forall>j. live s j \<and> j \<notin> {} \<longrightarrow> key s j \<noteq> k" for k using coh_rest[OF c, of k] that by blast
  qed
qed

section \<open>Routines\<close>

definition has_block :: "bcache \<Rightarrow> int \<Rightarrow> int \<Rightarrow> nat \<Rightarrow> bool" where
  "has_block s dev blkno i \<longleftrightarrow> live s i \<and> key s i = (dev, fsbtodb blkno)"

fun ctie :: "bcache \<Rightarrow> int \<Rightarrow> caller \<Rightarrow> bool" where
  "ctie s dev (Ahead (Some i) blkno) \<longleftrightarrow> has_block s dev blkno i"
| "ctie s dev _ \<longleftrightarrow> True"

text \<open>The buffer a process waits for or has read is that of the block it asked for.\<close>

fun tie :: "nat set \<Rightarrow> bcache \<Rightarrow> task \<Rightarrow> bool" where
  "tie D s (Hold (Some (dev, blkno)) i e) \<longleftrightarrow> has_block s dev blkno i \<and> (B_DONE \<in> flags s i \<or> i \<in> D)"
| "tie D s (Biowait dev blkno i) \<longleftrightarrow> dev \<noteq> NODEV \<and> has_block s dev blkno i"
| "tie D s (Get dev blkno c) \<longleftrightarrow> dev \<noteq> NODEV \<and> ctie s dev c"
| "tie D s (New dev blkno c) \<longleftrightarrow> dev \<noteq> NODEV \<and> ctie s dev c"
| "tie D s (Release i (Some (dev, blkno))) \<longleftrightarrow> dev \<noteq> NODEV"
| "tie D s (Flush dev blkno) \<longleftrightarrow> dev \<noteq> NODEV"
| "tie D s _ \<longleftrightarrow> True"

lemma has_block_other: "has_block s dev blkno j \<Longrightarrow> nbuf s' = nbuf s \<Longrightarrow> buf s' j = buf s j \<Longrightarrow> has_block s' dev blkno j"
  by (simp add: has_block_def live_def key_def)

lemma ctie_other:
  "ctie s dev c \<Longrightarrow> nbuf s' = nbuf s \<Longrightarrow> i \<notin> set_option (caller_buf c) \<Longrightarrow> (\<And>j. j \<noteq> i \<Longrightarrow> buf s' j = buf s j) \<Longrightarrow> ctie s' dev c"
  by (cases "(s, dev, c)" rule: ctie.cases) (auto intro: has_block_other)

lemma same_buf_block:
  assumes "same_buf s s' j" "nbuf s' = nbuf s"
  shows "has_block s' dev blkno j \<longleftrightarrow> has_block s dev blkno j" "B_DONE \<in> flags s' j \<longleftrightarrow> B_DONE \<in> flags s j"
proof -
  have "(buf s' j)\<lparr>b_flags := {}\<rparr> = (buf s j)\<lparr>b_flags := {}\<rparr>" using assms(1) by (simp add: same_buf_def)
  then have "b_dev (buf s' j) = b_dev (buf s j)" "b_blkno (buf s' j) = b_blkno (buf s j)"
    by (metis bufhdr.select_convs bufhdr.surjective bufhdr.update_convs(1))+
  moreover have "x \<noteq> B_WANTED \<Longrightarrow> x \<in> flags s' j \<longleftrightarrow> x \<in> flags s j" for x using assms(1) unfolding same_buf_def by blast
  ultimately show "has_block s' dev blkno j \<longleftrightarrow> has_block s dev blkno j" "B_DONE \<in> flags s' j \<longleftrightarrow> B_DONE \<in> flags s j"
    using assms(2) by (simp_all add: has_block_def live_def key_def)
qed

lemma tie_same:
  assumes "tie D s t" "nbuf s' = nbuf s" "\<And>i. owns t = Some i \<Longrightarrow> same_buf s s' i \<and> (i \<in> D' \<longleftrightarrow> i \<in> D)"
  shows "tie D' s' t"
proof -
  have c: "ctie s dev c \<Longrightarrow> (\<And>i. caller_buf c = Some i \<Longrightarrow> same_buf s s' i) \<Longrightarrow> ctie s' dev c" for dev c
    using same_buf_block(1)[OF _ assms(2)] by (cases "(s, dev, c)" rule: ctie.cases) auto
  show ?thesis using assms(1,3) same_buf_block[OF _ assms(2)] c by (cases "(D, s, t)" rule: tie.cases) auto
qed

definition coh_ran :: "(int \<times> int \<Rightarrow> u8 list) \<Rightarrow> nat set \<Rightarrow> task \<times> bcache \<Rightarrow> bool" where
  "coh_ran A D r \<longleftrightarrow> coh {} A D (snd r) \<and> tie D (snd r) (fst r)"

lemma breada_end_coh: "coh {} A D s \<Longrightarrow> dev \<noteq> NODEV \<Longrightarrow> ctie s dev (Ahead bp blkno) \<Longrightarrow> coh_ran A D (breada_end bp dev blkno s)"
  by (cases bp) (simp_all add: coh_ran_def)

lemma breada_ahead_coh:
  "coh {} A D s \<Longrightarrow> dev \<noteq> NODEV \<Longrightarrow> ctie s dev (Ahead bp blkno) \<Longrightarrow> coh_ran A D (breada_ahead bp dev blkno rablkno s)"
  using breada_end_coh by (simp add: breada_ahead_def) (simp add: coh_ran_def)

lemma has_data_done: "cache_ok {} M s \<Longrightarrow> i < nbuf s \<Longrightarrow> M i = MTask p \<Longrightarrow> has_data s i \<Longrightarrow> B_DONE \<in> flags s i"
  using mode_okD[of M s i] by (auto simp: has_data_def)

lemma got_block_coh:
  assumes c: "coh {} A D s" and ok: "cache_ok {} M s" and i: "i < nbuf s" "M i = MTask p" "i \<notin> set (ioq s)" "i \<notin> D"
    and b: "has_block s dev blkno i" "dev \<noteq> NODEV" and ct: "ctie s dev c" "i \<notin> set_option (caller_buf c)"
  shows "coh_ran A D (got_block c dev blkno i s)"
proof -
  have rd: "coh {} A D (start_read F i s)" if "\<not> has_data s i" "F = {B_READ} \<or> F = {B_READ, B_ASYNC}" for F
    by (rule coh_start_read[OF c i(1,4) that(1) i(3) that(2)])
  have rb: "has_block (start_read {B_READ} i s) dev blkno i" using b(1) by (simp add: has_block_def live_def key_def)
  show ?thesis
  proof (cases c)
    case Plain
    then show ?thesis using c by (simp add: coh_ran_def)
  next
    case ForRead
    then show ?thesis using c b rd rb has_data_done[OF ok i(1,2)] by (simp add: coh_ran_def)
  next
    case (First ra)
    then show ?thesis using breada_ahead_coh[OF _ b(2), of A D _ "Some i" blkno ra] c b(1) rd rb by simp
  next
    case (Ahead bp blk)
    let ?s = "if has_data s i then brelse i s else start_read {B_READ, B_ASYNC} i s"
    have "coh {} A D ?s" using coh_brelse[OF c i(1,4)] rd by simp
    moreover have "ctie ?s dev (Ahead bp blk)" by (rule ctie_other[of s dev _ _ i]) (use ct Ahead in simp_all)
    ultimately show ?thesis using breada_end_coh[OF _ b(2)] Ahead by simp
  qed
qed

definition absent :: "bcache \<Rightarrow> int \<Rightarrow> int \<Rightarrow> bool" where
  "absent s dev blkno \<longleftrightarrow> \<not> list_ex (has_block s dev blkno) [0..<nbuf s]"

lemma absent_iff: "absent s dev blkno \<longleftrightarrow> (\<forall>i. \<not> has_block s dev blkno i)"
  by (auto simp: absent_def list_ex_iff has_block_def live_def)

lemma getnewbuf_live:
  "getnewbuf s = (r, s') \<Longrightarrow> nbuf s' = nbuf s \<and> bufhash s' = bufhash s \<and> key s' j = key s j \<and> (r \<noteq> Some j \<longrightarrow> live s' j = live s j)"
proof (induction s rule: getnewbuf.induct)
  case (1 s)
  show ?case
  proof (cases "getnew_queue s")
    case Nil
    then show ?thesis using 1(2) by (auto simp: getnewbuf.simps live_def key_def)
  next
    case (Cons i q)
    let ?s1 = "notavail i s"
    have s1: "key ?s1 j = key s j" "live ?s1 j = live s j" by (simp_all add: key_def live_def)
    show ?thesis
    proof (cases "B_DELWRI \<in> flags ?s1 i")
      case True
      have eq: "getnewbuf (bawrite i ?s1) = (r, s')" using 1(2) Cons True by (subst (asm) getnewbuf.simps) simp
      have "key (bawrite i ?s1) j = key ?s1 j" "live (bawrite i ?s1) j = live ?s1 j"
        by (cases "j = i"; simp add: key_def live_def bawrite_def bwrite_flags)+
      then show ?thesis using 1(1)[OF Cons refl True eq] s1 by simp
    next
      case False
      then have "r = Some i" "s' = set_flags i (\<lambda>F. {B_BUSY}) ?s1" using 1(2) Cons by (simp_all add: getnewbuf.simps)
      then show ?thesis by (auto simp: key_def live_def)
    qed
  qed
qed

lemma getnewbuf_coh:
  "cache_ok {} M s \<Longrightarrow> coh {} A D s \<Longrightarrow> getnewbuf s = (r, s') \<Longrightarrow>
   (case r of None \<Rightarrow> coh {} A D s' | Some i \<Rightarrow> i < nbuf s \<and> i \<notin> D \<and> coh {i} A D s')"
proof (induction s arbitrary: M rule: getnewbuf.induct)
  case (1 s)
  show ?case
  proof (cases "getnew_queue s")
    case Nil
    then have "r = None" "s' = s\<lparr>bq_wanted := True\<rparr>" using 1(4) by (simp_all add: getnewbuf.simps)
    moreover have "coh {} A D (s\<lparr>bq_wanted := True\<rparr>) = coh {} A D s" by (rule coh_cong) simp_all
    ultimately show ?thesis using 1(3) by simp
  next
    case (Cons i q)
    have i: "i < nbuf s" "M i = MFree" using getnew_free[OF 1(2) Cons] by auto
    have mo: "i \<notin> set (ioq s)" "B_BUSY \<notin> flags s i" using mode_okD[OF 1(2) i(1)] i(2) by auto
    let ?s1 = "notavail i s"
    note ok1 = cache_notavail[OF 1(2) i, of 0]
    have c1: "coh {} A D ?s1" "i \<notin> D" using coh_notavail[OF 1(3) mo(2) i(1)] by auto
    have b1: "block_ok A D ?s1 i" by (rule cohD[OF c1(1)]) (use i in simp)
    show ?thesis
    proof (cases "B_DELWRI \<in> flags ?s1 i")
      case True
      have ok2: "cache_ok {} (M(i := MTask 0, i := MAsync)) (bawrite i ?s1)" by (rule cache_bawrite[OF cache_open[OF ok1]]) (use i mo in simp_all)
      have "live ?s1 i" using b1 True by (auto simp: block_ok_def pend_def split: if_splits)
      then have "coh {} A (D - {i}) (bawrite i ?s1)" by (intro coh_bawrite[OF c1(1)]) (use i True in simp_all)
      then have c2: "coh {} A D (bawrite i ?s1)" using c1(2) by simp
      have eq: "getnewbuf (bawrite i ?s1) = (r, s')" using 1(4) Cons True by (subst (asm) getnewbuf.simps) simp
      show ?thesis using 1(1)[OF Cons refl True ok2 c2 eq] by (cases r) simp_all
    next
      case False
      then have e: "r = Some i" "s' = set_flags i (\<lambda>F. {B_BUSY}) ?s1" using 1(4) Cons by (simp_all add: getnewbuf.simps)
      have "\<not> pend D ?s1 i" using False mo c1(2) by (simp add: pend_def)
      then have "coh {i} A D ?s1" by (intro coh_open[OF c1(1)]) (use i in simp_all)
      then have "coh {i} A D s'" by (rule coh_upd_open[rotated 3]) (use e in simp_all)
      then show ?thesis using e i c1(2) by simp
    qed
  qed
qed

lemma assign_hash: "i \<in> set (bufhash (assign_buf i dev blkno s) (BUFHASH dev blkno))"
  by (simp add: assign_buf_def binshash_def)

lemma assign_hash_other: "j \<noteq> i \<Longrightarrow> j \<in> set (bufhash s h) \<Longrightarrow> j \<in> set (bufhash (assign_buf i dev blkno s) h)"
  by (auto simp: assign_buf_def binshash_def bremhash_def)

lemma empty_hash_other: "j \<noteq> i \<Longrightarrow> j \<in> set (bufhash s h) \<Longrightarrow> j \<in> set (bufhash (empty_buf i s) h)"
  by (auto simp: empty_buf_def binshash_def bremhash_def)

lemma coh_assign:
  assumes c: "coh {i} A D s" and i: "i < nbuf s" "i \<notin> D" "i \<notin> set (ioq s)" "flags s i = {B_BUSY}"
    and no: "\<And>j. j \<noteq> i \<Longrightarrow> \<not> has_block s dev blkno j" and dev: "dev \<noteq> NODEV"
  shows "coh {} A D (assign_buf i dev blkno s)" "has_block (assign_buf i dev blkno s) dev blkno i"
proof -
  let ?s = "assign_buf i dev blkno s"
  have k: "key ?s i = (dev, fsbtodb blkno)" "live ?s i" using i dev by (simp_all add: key_def live_def)
  then show "has_block ?s dev blkno i" by (simp add: has_block_def)
  have c': "coh {i} A D ?s" by (rule coh_upd_open[OF _ _ _ c]) (simp_all add: assign_hash_other)
  have o: "j \<noteq> i \<Longrightarrow> live ?s j = live s j" "j \<noteq> i \<Longrightarrow> key ?s j = key s j" for j by (simp_all add: live_def key_def)
  have n: "j = i" if "live ?s j" "key ?s j = (dev, fsbtodb blkno)" for j using no[of j] that o[of j] by (auto simp: has_block_def)
  have "A (dev, fsbtodb blkno) = blocks ?s (dev, fsbtodb blkno)" by (rule coh_rest[OF c']) (use n in auto)
  then have b: "block_ok A D ?s i" using i k by (auto simp: block_ok_def pend_def)
  show "coh {} A D ?s"
  proof (rule coh_close[OF c' b])
    show "i = j" if "live ?s i" "live ?s j" "key ?s i = key ?s j" for j
      by (rule sym, rule n[OF that(2) trans[OF sym[OF that(3)] k(1)]])
    show "\<exists>b. b_blkno (buf ?s i) = fsbtodb b \<and> i \<in> set (bufhash ?s (BUFHASH (b_dev (buf ?s i)) b))"
      using assign_hash[of i dev blkno s] by (intro exI[of _ blkno]) simp
  qed
qed

lemma ctie_getnewbuf:
  assumes ok: "cache_ok {} M s" and g: "getnewbuf s = (r, s')" and o: "set_option (caller_buf c) \<subseteq> owned p M s" and ct: "ctie s dev c"
  shows "ctie s' dev c"
proof -
  have n: "nbuf s' = nbuf s" using getnewbuf_live[OF g] by simp
  have "same_buf s s' i" if "caller_buf c = Some i" for i
    using getnewbuf_keeps[OF ok g, of i] o that by (auto simp: owned_def)
  then show ?thesis using ct same_buf_block(1)[OF _ n] by (cases "(s, dev, c)" rule: ctie.cases) auto
qed

lemma getblk_new_coh:
  assumes ok: "cache_ok {} M s" and c: "coh {} A D s" and o: "owned p M s = set_option (caller_buf c)" and ct: "ctie s dev c" and dev: "dev \<noteq> NODEV"
    and no: "absent s dev blkno"
  shows "coh_ran A D (getblk_new dev blkno c s)"
proof (cases "getnewbuf s")
  case (Pair r s1)
  note gl = getnewbuf_live[OF Pair]
  have ct1: "ctie s1 dev c" by (rule ctie_getnewbuf[OF ok Pair _ ct, of p]) (use o in simp)
  obtain M' where m: "cache_ok {} M' s1" "owned p M' s1 = owned p M s \<union> set_option r"
    "\<forall>i. r = Some i \<longrightarrow> i < nbuf s \<and> M i = MFree \<and> M' i = MTask p \<and> i \<notin> set (ioq s1) \<and> flags s1 i = {B_BUSY}"
    using getnewbuf_ok[OF ok Pair, of p] by blast
  show ?thesis
  proof (cases r)
    case None
    then show ?thesis using Pair getnewbuf_coh[OF ok c Pair] ct1 dev by (simp add: getblk_new_def coh_ran_def)
  next
    case (Some i)
    have i: "i < nbuf s" "M i = MFree" "M' i = MTask p" "i \<notin> set (ioq s1)" "flags s1 i = {B_BUSY}" using m(3) Some by auto
    have g: "i \<notin> D" "coh {i} A D s1" using getnewbuf_coh[OF ok c Pair] Some by auto
    have n: "i < nbuf s1" using gl i by simp
    have "\<not> has_block s1 dev blkno j" if "j \<noteq> i" for j
      using no gl[of j] getnewbuf_live[OF Pair, of j] that Some by (auto simp: absent_iff has_block_def)
    note as = coh_assign[OF g(2) n g(1) i(4,5) this dev]
    let ?s2 = "assign_buf i dev blkno s1"
    have ok2: "cache_ok {} M' ?s2" by (rule cache_close[OF cache_assign[OF cache_open[OF m(1)]]]) (use i n in simp_all)
    have "i \<notin> owned p M s" using i(2) by (simp add: owned_def)
    then have nc: "i \<notin> set_option (caller_buf c)" unfolding o .
    have "ctie ?s2 dev c" by (rule ctie_other[OF ct1 _ nc]) simp_all
    then have "coh_ran A D (got_block c dev blkno i ?s2)" by (intro got_block_coh[OF as(1) ok2]) (use i n g nc as(2) dev in simp_all)
    then show ?thesis using Pair Some by (simp add: getblk_new_def)
  qed
qed

lemma BUFHASH_inj: "fsbtodb b = fsbtodb b' \<Longrightarrow> b = b'"
  by (simp add: fsbtodb_def)

lemma find_absent:
  assumes c: "coh {} A D s" and f: "find (holds_block s dev blkno) (bufhash s (BUFHASH dev blkno)) = None"
  shows "absent s dev blkno"
  unfolding absent_iff
proof (intro allI notI)
  fix i assume h: "has_block s dev blkno i"
  then obtain b where b: "b_blkno (buf s i) = fsbtodb b" "i \<in> set (bufhash s (BUFHASH (b_dev (buf s i)) b))"
    using coh_hashed[OF c, of i] by (auto simp: has_block_def)
  then have "b = blkno" "b_dev (buf s i) = dev" using h BUFHASH_inj[of b blkno] by (auto simp: has_block_def key_def)
  then have "i \<in> set (bufhash s (BUFHASH dev blkno))" "holds_block s dev blkno i"
    using b h by (auto simp: has_block_def key_def live_def holds_block_def)
  then show False using f by (simp add: find_None_iff)
qed

lemma coh_wanted: "coh {} A D s \<Longrightarrow> coh {} A D (set_flags i (insert B_WANTED) s)"
  by (subst coh_set_flags) auto

lemma holds_has_block:
  "cache_ok {} M s \<Longrightarrow> i \<in> set (bufhash s h) \<Longrightarrow> holds_block s dev blkno i \<Longrightarrow> dev \<noteq> NODEV \<Longrightarrow> has_block s dev blkno i"
  using chain_lt[of M s i h] by (auto simp: holds_block_def has_block_def live_def key_def)

lemma getblk_coh:
  assumes ok: "cache_ok {} M s" and c: "coh {} A D s" and o: "owned p M s = set_option (caller_buf c)" and ct: "ctie s dev c" and dev: "dev \<noteq> NODEV"
  shows "coh_ran A D (getblk dev blkno c s)"
proof (cases "find (holds_block s dev blkno) (bufhash s (BUFHASH dev blkno))")
  case None
  then show ?thesis using getblk_new_coh[OF assms find_absent[OF c None]] by (simp add: getblk_def)
next
  case (Some i)
  note f = find_Some_in[OF Some]
  have i: "i < nbuf s" "has_block s dev blkno i" using f chain_lt[OF ok] holds_has_block[OF ok _ _ dev] by blast+
  show ?thesis
  proof (cases "B_BUSY \<in> flags s i")
    case True
    have "ctie (set_flags i (insert B_WANTED) s) dev c"
      using ct by (cases "(s, dev, c)" rule: ctie.cases) (auto simp: has_block_def live_def key_def)
    then show ?thesis using Some True coh_wanted[OF c] dev by (simp add: getblk_def coh_ran_def)
  next
    case False
    note fr = not_busy_free[OF ok i(1) False]
    note cn = coh_notavail[OF c False i(1)]
    have "i \<notin> owned p M s" using fr by (simp add: owned_def)
    then have nc: "i \<notin> set_option (caller_buf c)" unfolding o .
    have "ctie (notavail i s) dev c" by (rule ctie_other[OF ct _ nc]) simp_all
    moreover have "has_block (notavail i s) dev blkno i" using i(2) by (simp add: has_block_def live_def key_def)
    ultimately have "coh_ran A D (got_block c dev blkno i (notavail i s))"
      by (intro got_block_coh[OF _ cache_notavail[OF ok i(1) conjunct1[OF fr], of p]]) (use cn fr i nc dev in simp_all)
    then show ?thesis using Some False by (simp add: getblk_def)
  qed
qed

lemma geteblk_coh:
  assumes ok: "cache_ok {} M s" and c: "coh {} A D s"
  shows "coh_ran A D (geteblk s)"
proof (cases "getnewbuf s")
  case (Pair r s1)
  note g = getnewbuf_coh[OF ok c Pair]
  show ?thesis
  proof (cases r)
    case None
    then show ?thesis using Pair g by (simp add: geteblk_def coh_ran_def)
  next
    case (Some i)
    obtain M' where m: "i < nbuf s" "i \<notin> set (ioq s1)" "flags s1 i = {B_BUSY}" using getnewbuf_ok[OF ok Pair, of 0] Some by blast
    have c1: "i \<notin> D" "coh {i} A D s1" using g Some by auto
    have c2: "coh {i} A D (empty_buf i s1)" by (rule coh_upd_open[OF _ _ _ c1(2)]) (simp_all add: empty_hash_other)
    have l: "\<not> live (empty_buf i s1) i" by (simp add: live_def)
    have "coh {} A D (empty_buf i s1)"
      by (rule coh_close[OF c2]) (use l m c1 in \<open>auto simp: block_ok_def pend_def\<close>)
    then show ?thesis using Pair Some by (simp add: geteblk_def coh_ran_def)
  qed
qed

lemma blkflush_coh:
  assumes ok: "cache_ok {} M s" and c: "coh {} A D s" and dev: "dev \<noteq> NODEV"
  shows "coh_ran A D (blkflush dev blkno s)"
proof (cases "find (\<lambda>i. holds_block s dev blkno i \<and> flags s i \<inter> {B_BUSY, B_DELWRI} \<noteq> {}) (bufhash s (BUFHASH dev blkno))")
  case None
  then show ?thesis using c by (simp add: blkflush_def coh_ran_def)
next
  case (Some i)
  note f = find_Some_in[OF Some]
  have i: "i < nbuf s" "has_block s dev blkno i" using f chain_lt[OF ok] holds_has_block[OF ok _ _ dev] by blast+
  show ?thesis
  proof (cases "B_BUSY \<in> flags s i")
    case True
    then show ?thesis using Some coh_wanted[OF c] dev by (simp add: blkflush_def coh_ran_def)
  next
    case False
    note cn = coh_notavail[OF c False i(1)]
    have "live (notavail i s) i" "B_DELWRI \<in> flags (notavail i s) i" using i f False by (auto simp: has_block_def live_def)
    then have "coh {} A (D - {i}) (snd (bwrite i (notavail i s)))" using cn i by (intro coh_bwrite) simp_all
    then have "coh {} A D (snd (bwrite i (notavail i s)))" using cn by simp
    then show ?thesis using Some False dev by (cases "bwrite i (notavail i s)") (auto simp: blkflush_def coh_ran_def split: bool.splits)
  qed
qed

lemma run_coh:
  assumes st: "stands p t M s" and c: "coh {} A D s" and ti: "tie D s t" and r: "run t s = Some r"
    and nd: "\<And>i k. t = Release i k \<Longrightarrow> i \<notin> D" and no: "\<And>dev blkno c. t = New dev blkno c \<Longrightarrow> absent s dev blkno"
  shows "coh_ran A D r"
proof -
  have ok: "cache_ok {} M s" and o: "owned p M s = set_option (owns t)" using st by (auto simp: stands_def)
  show ?thesis
  proof (cases t)
    case (Biowait dev blkno i)
    then show ?thesis using r c ti by (auto simp: coh_ran_def split: if_splits)
  next
    case (Release i k)
    then have d: "B_DONE \<in> flags s i" "r = (case k of None \<Rightarrow> Idle | Some (dev, blkno) \<Rightarrow> Flush dev blkno, brelse i s)" using r by (auto split: if_splits)
    have i: "i < nbuf s" using held_run[OF o] Release by auto
    have "coh {} A D (brelse i s)" by (rule coh_brelse[OF c i nd[OF Release]])
    then show ?thesis using d ti Release by (auto simp: coh_ran_def split: option.splits)
  next
    case (Get dev blkno c')
    then show ?thesis using r o ti getblk_coh[OF ok c, of p c' dev blkno] by auto
  next
    case (New dev blkno c')
    then show ?thesis using r o ti getblk_new_coh[OF ok c, of p c' dev blkno] no[OF New] by auto
  next
    case Newempty
    then show ?thesis using r geteblk_coh[OF ok c] by auto
  next
    case (Flush dev blkno)
    then show ?thesis using r ti blkflush_coh[OF ok c] by auto
  qed (use r in auto)
qed

section \<open>Devices and flushing\<close>

lemma bflush_coh: "cache_ok {} M s \<Longrightarrow> coh {} A D s \<Longrightarrow> coh {} A D (bflush dev s)"
proof (induction dev s arbitrary: M rule: bflush.induct)
  case (1 dev s)
  show ?case
  proof (cases "bflush_next dev s")
    case None
    then show ?thesis using 1(3) by (subst bflush.simps) simp
  next
    case (Some i)
    note f = find_Some_in[OF Some[unfolded bflush_next_def]]
    obtain k where k: "i \<in> set (bfreelist s k)" using f by auto
    then have i: "i < nbuf s" "M i = MFree" using 1(2) in_listsD unfolding cache_ok_def queues_ok_def avail_ok_def by (metis, metis option.discI)
    have mo: "i \<notin> set (ioq s)" "B_BUSY \<notin> flags s i" using mode_okD[OF 1(2) i(1)] i(2) by auto
    let ?s0 = "set_flags i (insert B_ASYNC) s"
    let ?s1 = "notavail i ?s0" and ?M1 = "M(i := MAsync)"
    have c1: "cache_ok {i} ?M1 ?s1" unfolding notavail_def
      by (rule cache_set_flags, rule cache_bremfree[OF cache_set_flags[OF cache_open[OF 1(2)]]]) (use i in simp_all)
    have "cache_ok {} (?M1(i := MAsync)) (snd (bwrite i ?s1))" by (rule cache_bwrite_async[OF c1]) (use i mo in simp_all)
    then have c2: "cache_ok {} ?M1 (snd (bwrite i ?s1))" by simp
    have "coh {} A D ?s0" by (subst coh_set_flags) (use 1(3) in auto)
    from coh_notavail[OF this] have h1: "coh {} A D ?s1" "i \<notin> D" using mo i by auto
    have "block_ok A D ?s1 i" by (rule cohD[OF h1(1)]) (use i in simp)
    then have "live ?s1 i" using f by (auto simp: block_ok_def pend_def split: if_splits)
    then have "coh {} A (D - {i}) (snd (bwrite i ?s1))" using f i by (intro coh_bwrite[OF h1(1)]) simp_all
    then have h2: "coh {} A D (snd (bwrite i ?s1))" using h1(2) by simp
    have e: "bflush dev s = bflush dev (snd (bwrite i ?s1))" using Some by (subst bflush.simps) simp
    show ?thesis unfolding e by (rule 1(1)[OF Some c2 h2])
  qed
qed

lemma io_done_coh:
  assumes ok: "cache_ok {} M s" and c: "coh {} A D s" and i: "i \<in> set (ioq s)" and r: "io_done i None s = Ok s'"
  shows "coh {} A D s'"
proof -
  have n: "i < nbuf s" using ok i by (simp add: cache_ok_def queues_ok_def)
  note mo = mode_okD[OF ok n]
  have b: "block_ok A D s i" by (rule cohD[OF c n])
  have nd: "B_DONE \<notin> flags s i" "B_DELWRI \<notin> flags s i" "i \<notin> D" using mo i b by (cases "M i"; auto simp: block_ok_def)+
  let ?s1 = "transfer i (s\<lparr>ioq := remove1 i (ioq s)\<rparr>)"
  let ?s2 = "set_flags i (insert B_DONE) ?s1"
  have q: "i \<notin> set (remove1 i (ioq s))" using cache_distinct[OF ok] by simp
  have l: "live ?s2 i = live s i" "key ?s2 i = key s i" by (simp_all add: live_def key_def)
  have c2: "coh {} A D ?s2"
  proof (rule coh_local[OF c n])
    show "live ?s2 i = live s i" "key ?s2 i = key s i" by (rule l)+
    show "blocks ?s2 k = blocks s k \<and> A k = A k" if "\<not> live s i \<or> k \<noteq> key s i" for k
    proof (cases "B_READ \<in> flags s i")
      case True
      then show ?thesis by (simp add: transfer_def)
    next
      case False
      then have "live s i" using b i by (auto simp: block_ok_def pend_def split: if_splits)
      then show ?thesis using that False by (auto simp: transfer_def Let_def key_def)
    qed
    show "block_ok A D ?s2 i"
    proof (cases "B_READ \<in> flags s i")
      case True
      then have "b_data (buf ?s2 i) = blocks s (key s i)" "blocks ?s2 = blocks s" by (simp_all add: transfer_def Let_def key_def)
      then show ?thesis using b l nd q True by (auto simp: block_ok_def pend_def split: if_splits)
    next
      case False
      then have lv: "live s i" "A (key s i) = b_data (buf s i)" using b i by (auto simp: block_ok_def pend_def split: if_splits)
      have "b_data (buf ?s2 i) = b_data (buf s i)" "blocks ?s2 (key s i) = b_data (buf s i)" using False by (simp_all add: transfer_def Let_def key_def)
      then show ?thesis using b l nd q lv by (auto simp: block_ok_def pend_def split: if_splits)
    qed
  qed auto
  have "s' = brelse i ?s2 \<or> s' = set_flags i (\<lambda>F. F - {B_WANTED}) ?s2"
    using r nd by (auto simp: io_done_def biodone_def Let_def split: if_splits)
  then show ?thesis
  proof
    assume "s' = brelse i ?s2"
    then show ?thesis using coh_brelse[OF c2] n nd by simp
  next
    assume e: "s' = set_flags i (\<lambda>F. F - {B_WANTED}) ?s2"
    show ?thesis unfolding e by (subst coh_set_flags) (use c2 in auto)
  qed
qed

lemma coh_modify:
  assumes c: "coh {} A D s" and i: "i < nbuf s" "i \<notin> set (ioq s)" "B_BUSY \<in> flags s i"
  shows "coh {} (if live s i then A(key s i := d) else A) (if live s i then insert i D else D) (upd_buf i (\<lambda>b. b\<lparr>b_data := d\<rparr>) s)"
proof (rule coh_local[OF c i(1)])
  let ?s = "upd_buf i (\<lambda>b. b\<lparr>b_data := d\<rparr>) s"
  have l: "live ?s i = live s i" "key ?s i = key s i" by (simp_all add: live_def key_def)
  then show "live ?s i = live s i" "key ?s i = key s i" by simp_all
  show "block_ok (if live s i then A(key s i := d) else A) (if live s i then insert i D else D) ?s i"
    using cohD[OF c i(1)] i l by (auto simp: block_ok_def pend_def)
qed auto

section \<open>Clean runs\<close>

text \<open>
  The conditions under which the cache is one: no device error, no \<^verbatim>\<open>binval\<close>; a process writes back what it changed and writes only what
  it read or changed; and a process that has slept for want of a buffer does not find its block brought in by another meanwhile.
\<close>

fun allowed :: "nat set \<Rightarrow> (nat \<Rightarrow> task) \<times> bcache \<Rightarrow> bio_event \<Rightarrow> bool" where
  "allowed D c (Calls d) \<longleftrightarrow> d \<noteq> Some NODEV"
| "allowed D c (Runs p) \<longleftrightarrow> (case fst c p of New dev blkno k \<Rightarrow> absent (snd c) dev blkno | _ \<Rightarrow> True)"
| "allowed D c (Modifies i d) \<longleftrightarrow> True"
| "allowed D c (Releases i) \<longleftrightarrow> i \<notin> D"
| "allowed D c (Writes i) \<longleftrightarrow> live (snd c) i \<and> (i \<in> D \<or> B_DONE \<in> flags (snd c) i)"
| "allowed D c (Finishes i err) \<longleftrightarrow> err = None"
| "allowed D c Flushes \<longleftrightarrow> True"
| "allowed D c Invalidates \<longleftrightarrow> False"

fun changed :: "bcache \<Rightarrow> bio_event \<Rightarrow> nat set \<Rightarrow> nat set" where
  "changed s (Modifies i d) D = (if live s i then insert i D else D)"
| "changed s (Writes i) D = D - {i}"
| "changed s _ D = D"

fun abstract_disk :: "bcache \<Rightarrow> bio_event \<Rightarrow> (int \<times> int \<Rightarrow> u8 list) \<Rightarrow> int \<times> int \<Rightarrow> u8 list" where
  "abstract_disk s (Modifies i d) A = (if live s i then A(key s i := d) else A)"
| "abstract_disk s _ A = A"

inductive clean_run :: "(nat \<Rightarrow> task) \<times> bcache \<Rightarrow> (nat \<Rightarrow> task) \<times> bcache \<Rightarrow> (int \<times> int \<Rightarrow> u8 list) \<Rightarrow> nat set \<Rightarrow> bool" where
  Clean_start: "clean_run c c (blocks (snd c)) {}"
| Clean_step: "clean_run c c' A D \<Longrightarrow> bio_step c' e c'' \<Longrightarrow> allowed D c' e \<Longrightarrow> clean_run c c'' (abstract_disk (snd c') e A) (changed (snd c') e D)"

definition coherent :: "(nat \<Rightarrow> task) \<times> bcache \<Rightarrow> (int \<times> int \<Rightarrow> u8 list) \<Rightarrow> nat set \<Rightarrow> bool" where
  "coherent c A D \<longleftrightarrow> bio_ok c \<and> coh {} A D (snd c) \<and> (\<forall>p. tie D (snd c) (fst c p)) \<and> (\<forall>i\<in>D. \<exists>p r e. fst c p = Hold r i e)"

lemma tie_leaves:
  assumes tk: "tasks_ok M T s" and l: "leaves p M s M' s'" and q: "q \<noteq> p" and ti: "tie D s (T q)"
    and D: "\<And>i. owns (T q) = Some i \<Longrightarrow> i \<in> D' \<longleftrightarrow> i \<in> D"
  shows "tie D' s' (T q)"
proof (rule tie_same[OF ti])
  show "nbuf s' = nbuf s" using l by (simp add: leaves_def)
  show "same_buf s s' i \<and> (i \<in> D' \<longleftrightarrow> i \<in> D)" if "owns (T q) = Some i" for i
  proof -
    have "M i = MTask q" using tk that by (simp add: tasks_ok_def)
    then show ?thesis using l q D[OF that] by (auto simp: leaves_def)
  qed
qed

lemma tie_mono:
  assumes "tie D s t" "\<And>dev blkno j. has_block s dev blkno j \<Longrightarrow> has_block s' dev blkno j" "\<And>j. B_DONE \<in> flags s j \<Longrightarrow> B_DONE \<in> flags s' j"
  shows "tie D s' t"
proof -
  have c: "ctie s dev c \<Longrightarrow> ctie s' dev c" for dev c using assms(2) by (cases "(s, dev, c)" rule: ctie.cases) auto
  show ?thesis using assms c by (cases "(D, s, t)" rule: tie.cases) auto
qed

lemma io_done_facts:
  assumes r: "io_done i None s = Ok s'" and e: "B_ERROR \<notin> flags s i"
  shows "has_block s dev blkno j \<Longrightarrow> has_block s' dev blkno j" "B_DONE \<in> flags s j \<Longrightarrow> B_DONE \<in> flags s' j"
proof -
  let ?s2 = "set_flags i (insert B_DONE) (transfer i (s\<lparr>ioq := remove1 i (ioq s)\<rparr>))"
  have "s' = brelse i ?s2 \<or> s' = set_flags i (\<lambda>F. F - {B_WANTED}) ?s2"
    using r by (auto simp: io_done_def biodone_def Let_def split: if_splits)
  then have "nbuf s' = nbuf s \<and> key s' j = key s j \<and> (B_INVAL \<in> flags s' j \<longleftrightarrow> B_INVAL \<in> flags s j) \<and> (B_DONE \<in> flags s j \<longrightarrow> B_DONE \<in> flags s' j)"
    using e by (cases "j = i") (auto simp: key_def brelse_flags)
  then show "has_block s dev blkno j \<Longrightarrow> has_block s' dev blkno j" "B_DONE \<in> flags s j \<Longrightarrow> B_DONE \<in> flags s' j"
    by (auto simp: has_block_def live_def key_def)
qed

lemma coherentI:
  "bio_ok (T, s) \<Longrightarrow> coh {} A D s \<Longrightarrow> (\<And>p. tie D s (T p)) \<Longrightarrow> (\<And>i. i \<in> D \<Longrightarrow> \<exists>p r e. T p = Hold r i e) \<Longrightarrow> coherent (T, s) A D"
  by (simp add: coherent_def)

text \<open>A step of process \<open>p\<close> that leaves the others alone.\<close>

lemma coherent_step_of:
  assumes co: "coherent (T, s) A D" and ok': "bio_ok (T(p := t), s')" and tk: "tasks_ok M T s" and l: "leaves p M s M' s'"
    and c: "coh {} A' D' s'" "tie D' s' t" and D: "\<And>i. owns (T p) \<noteq> Some i \<Longrightarrow> i \<in> D' \<longleftrightarrow> i \<in> D"
    and mine: "\<And>i. owns (T p) = Some i \<Longrightarrow> i \<in> D' \<Longrightarrow> \<exists>r e. t = Hold r i e"
  shows "coherent (T(p := t), s') A' D'"
proof (rule coherentI[OF ok' c(1)])
  have o: "owns (T q) = Some i \<Longrightarrow> owns (T p) = Some i \<Longrightarrow> q = p" for q i using tk by (simp add: tasks_ok_def)
  show "tie D' s' ((T(p := t)) q)" for q
  proof (cases "q = p")
    case False
    then show ?thesis using tie_leaves[OF tk l False, of D D'] co o D by (auto simp: coherent_def)
  qed (use c(2) in simp)
  fix i assume i: "i \<in> D'"
  show "\<exists>q r e. (T(p := t)) q = Hold r i e"
  proof (cases "owns (T p) = Some i")
    case True
    then show ?thesis using mine i by (metis fun_upd_same)
  next
    case False
    then obtain q r e where q: "T q = Hold r i e" using i D co by (auto simp: coherent_def)
    then have "q \<noteq> p" using False by auto
    then show ?thesis using q by (metis fun_upd_other)
  qed
qed

lemma coherent_step:
  assumes "bio_step c ev c'" "allowed D c ev" "coherent c A D"
  shows "coherent c' (abstract_disk (snd c) ev A) (changed (snd c) ev D)"
proof -
  have ok': "bio_ok c'" using bio_step_ok assms by (auto simp: coherent_def)
  obtain M where M: "cache_ok {} M (snd c)" "tasks_ok M (fst c) (snd c)" using assms(3) by (auto simp: coherent_def bio_ok_def)
  have co: "coh {} A D (snd c)" "\<And>p. tie D (snd c) (fst c p)" "\<And>i. i \<in> D \<Longrightarrow> \<exists>p r e. fst c p = Hold r i e" using assms(3) by (auto simp: coherent_def)
  from assms(1,2,3) ok' M co show ?thesis
  proof (induction rule: bio_step.induct)
    case (Call_getblk T p k s dev blkno)
    show ?case by (rule coherent_step_of[OF _ _ _ leaves_refl]) (use Call_getblk in auto)
  next
    case (Call_breada T p dev blkno ra s t s')
    have co: "coh {} A D s" "dev \<noteq> NODEV" using Call_breada by auto
    have "coh_ran A D (breada dev blkno ra s)"
    proof (cases "incore dev blkno s")
      case True
      then show ?thesis using breada_ahead_coh[OF co, of None blkno ra] by (simp add: breada_def)
    next
      case False
      then show ?thesis using co by (simp add: breada_def) (simp add: coh_ran_def)
    qed
    moreover have "s' = s" using Call_breada(2) by (auto simp: breada_def breada_ahead_def split: if_splits)
    ultimately have b: "coh {} A D s" "tie D s t" "s' = s" using Call_breada(2) by (auto simp: coh_ran_def)
    show ?case unfolding b(3) by (rule coherent_step_of[OF _ _ _ leaves_refl]) (use Call_breada b in auto)
  next
    case (Call_geteblk T p s)
    show ?case by (rule coherent_step_of[OF _ _ _ leaves_refl]) (use Call_geteblk in auto)
  next
    case (Call_blkflush T p s dev blkno)
    show ?case by (rule coherent_step_of[OF _ _ _ leaves_refl]) (use Call_blkflush in auto)
  next
    case (Run T p s t s')
    then have c: "cache_ok {} M s" "tasks_ok M T s" by simp_all
    have nd: "i \<notin> D" if "\<not> is_Hold (T p)" "owns (T p) = Some i" for i
    proof
      assume "i \<in> D"
      then obtain q r e where q: "T q = Hold r i e" using Run(9)[of i, unfolded fst_conv] by blast
      then have "owns (T q) = Some i" by simp
      then have "q = p" using c(2) that(2) by (auto simp: tasks_ok_def)
      then show False using q that(1) by simp
    qed
    have nh: "\<not> is_Hold (T p)" using Run(1) by (cases "T p") auto
    have "coh_ran A D (t, s')"
      by (rule run_coh[OF tasks_stands[OF c] _ _ Run(1)]) (use Run nd nh in auto)
    moreover obtain M' where "leaves p M s M' s'" using run_ran[OF tasks_stands[OF c] Run(1)] by (auto simp: ran_def)
    ultimately show ?case
      by (intro coherent_step_of[OF Run(3)[unfolded fst_conv] _ c(2)]) (use Run nd nh in \<open>auto simp: coh_ran_def\<close>)
  next
    case (Modify T p r i e s d)
    then have c: "cache_ok {} M s" "tasks_ok M T s" by simp_all
    note h = held_step[OF c Modify(1)]
    have b: "B_BUSY \<in> flags s i" using mode_okD[OF c(1) h(1)] h(2) by simp
    let ?s = "upd_buf i (\<lambda>b. b\<lparr>b_data := d\<rparr>) s" and ?A = "if live s i then A(key s i := d) else A" and ?D = "if live s i then insert i D else D"
    have "coh {} A D s" using Modify by simp
    note cm = coh_modify[OF this h(1,3) b, of d]
    have l: "leaves p M s M ?s" by (rule leaves_same[of _ _ _ _ i]) (use h in simp_all)
    have "tie D s (T p)" by (rule Modify(8)[of p, unfolded fst_conv snd_conv])
    then have "tie ?D ?s (T p)" using Modify(1) by (cases r) (auto simp: has_block_def live_def key_def)
    moreover have "bio_ok (T(p := T p), ?s)" using Modify(4) by (simp only: fun_upd_triv)
    moreover have co: "coherent (T, s) A D" using Modify by simp
    ultimately have "coherent (T(p := T p), ?s) ?A ?D"
      by (intro coherent_step_of[OF co _ c(2) l cm]) (use Modify(1) in auto)
    then show ?case by simp
  next
    case (Brelse T p r i e s)
    then have c: "cache_ok {} M s" "tasks_ok M T s" by simp_all
    note h = held_step[OF c Brelse(1)]
    note b = brelse_mine[OF c(1) h(1-3)]
    have "coh {} A D (brelse i s)" by (rule coh_brelse) (use Brelse h in simp_all)
    then show ?case by (intro coherent_step_of[OF _ _ c(2) b(2)]) (use Brelse in auto)
  next
    case (Bwrite T p r i e s s')
    then have c: "cache_ok {} M s" "tasks_ok M T s" by simp_all
    note h = held_step[OF c Bwrite(1)]
    have eq: "snd (bwrite i s) = s'" using Bwrite by simp
    note b = bwrite_mine[OF c(1) h(1-3), unfolded eq]
    have "coh {} A (D - {i}) (snd (bwrite i s))" by (rule coh_bwrite) (use Bwrite h in auto)
    then have "coh {} A (D - {i}) s'" unfolding eq .
    then show ?case unfolding changed.simps abstract_disk.simps by (intro coherent_step_of[OF _ _ c(2) b(2)]) (use Bwrite in auto)
  next
    case (Bawrite T p r i e s)
    then have c: "cache_ok {} M s" "tasks_ok M T s" by simp_all
    note h = held_step[OF c Bawrite(1)]
    note b = bawrite_mine[OF c(1) h(1-3)]
    have "coh {} A (D - {i}) (bawrite i s)" by (rule coh_bawrite) (use Bawrite h in auto)
    then show ?case unfolding changed.simps abstract_disk.simps by (intro coherent_step_of[OF _ _ c(2) b(2)]) (use Bawrite in auto)
  next
    case (Bdwrite T p r i e s)
    then have c: "cache_ok {} M s" "tasks_ok M T s" by simp_all
    note h = held_step[OF c Bdwrite(1)]
    obtain m where b: "leaves p M s (M(i := m)) (bdwrite i s)" using bdwrite_mine[OF c(1) h(1-3)] by blast
    have "coh {} A (D - {i}) (bdwrite i s)" by (rule coh_bdwrite) (use Bdwrite h in auto)
    then show ?case unfolding changed.simps abstract_disk.simps by (intro coherent_step_of[OF _ _ c(2) b]) (use Bdwrite in auto)
  next
    case (Io_done i s err s' T)
    then have c: "cache_ok {} M s" "tasks_ok M T s" and er: "err = None" by simp_all
    have n: "i < nbuf s" using c(1) Io_done(1) by (simp add: cache_ok_def queues_ok_def)
    have r: "io_done i None s = Ok s'" using Io_done er by simp
    have cs: "coh {} A D s" using Io_done by simp
    have ne: "B_ERROR \<notin> flags s i" using cohD[OF cs n] by (simp add: block_ok_def)
    have co: "\<And>p. tie D (snd (T, s)) (fst (T, s) p)" by (rule Io_done)
    have c': "coh {} A D s'" by (rule io_done_coh[OF c(1) cs Io_done(1) r])
    show ?case unfolding changed.simps abstract_disk.simps
    proof (rule coherentI)
      fix p
      have "tie D s (T p)" using co by simp
      then show "tie D s' (T p)" by (rule tie_mono) (fact io_done_facts[OF r ne])+
    qed (use Io_done c' in auto)
  next
    case (Bflush T s dev)
    then have c: "cache_ok {} M s" "tasks_ok M T s" by simp_all
    obtain M' where l: "leaves p M s M' (bflush dev s)" for p using bflush_ok[OF c(1)] by blast
    have "coh {} A D (bflush dev s)" using bflush_coh[OF c(1)] Bflush by simp
    then show ?case unfolding changed.simps abstract_disk.simps
    proof (rule coherentI[rotated])
      show "tie D (bflush dev s) (T p)" for p by (rule tie_leaves[OF c(2) l[of "Suc p"]]) (use Bflush in auto)
    qed (use Bflush in auto)
  next
    case (Binval T s dev)
    then show ?case by simp
  qed
qed

end
