(* ===== verification/Bio_Thms.thy ===== *)
theory Bio_Thms
  imports Bio_Coh
begin

text \<open>
  The properties of the buffer cache: what holds in every state that the kernel can reach from \<^verbatim>\<open>binit\<close>, that a block read is the block
  last written as long as \<^verbatim>\<open>getblk\<close> is not overtaken in its sleep, and a run in which it is.
\<close>

section \<open>From the start\<close>

lemma binit_sel:
  "nbuf (binit s) = nbuf s" "ioq (binit s) = ioq s" "blocks (binit s) = blocks s" "i < nbuf s \<Longrightarrow> flags (binit s) i = {B_INVAL}"
  using binit_eq[OF le_refl, of s] by (simp_all add: binit_def)

lemma binit_coherent:
  assumes "ioq s = []"
  shows "coherent (\<lambda>p. Idle, binit s) (blocks s) {}"
proof (rule coherentI)
  have nl: "\<not> live (binit s) i" for i by (auto simp: live_def binit_sel)
  show "coh {} (blocks s) {} (binit s)"
    by (rule cohI) (use nl assms in \<open>auto simp: block_ok_def pend_def binit_sel\<close>)
qed (use binit_ok assms in simp_all)

lemma clean_run_coherent:
  assumes "clean_run c c' A D" "coherent c (blocks (snd c)) {}"
  shows "coherent c' A D"
  using assms by (induction rule: clean_run.induct) (auto intro: coherent_step)

lemma clean_run_from:
  assumes "ioq s = []" "clean_run (\<lambda>p. Idle, binit s) c' A D"
  shows "coherent c' A D"
  using clean_run_coherent[OF assms(2)] binit_coherent[OF assms(1)] binit_sel(3)[of s] by simp

lemma coherent_disk:
  assumes c: "coherent (T, s) A {}" and q: "ioq s = []" and d: "\<forall>i<nbuf s. B_DELWRI \<notin> flags s i"
  shows "blocks s = A"
proof
  fix k
  have co: "coh {} A {} s" using c by (simp add: coherent_def)
  show "blocks s k = A k"
  proof (cases "\<exists>i. live s i \<and> key s i = k")
    case True
    then obtain i where i: "live s i" "key s i = k" by blast
    then have "\<not> pend {} s i" using q d by (auto simp: pend_def live_def)
    then show ?thesis using cohD[OF co, of i] i by (auto simp: block_ok_def live_def)
  next
    case False
    then show ?thesis using coh_rest[OF co, of k] by simp
  qed
qed

lemma coherent_read:
  assumes c: "coherent (T, s) A D" and h: "T p = Hold (Some (dev, blkno)) i e"
  shows "live s i \<and> key s i = (dev, fsbtodb blkno) \<and> b_data (buf s i) = A (dev, fsbtodb blkno)"
proof -
  have ti: "tie D s (Hold (Some (dev, blkno)) i e)" using c h unfolding coherent_def by (metis fst_conv snd_conv)
  have co: "coh {} A D s" using c by (simp add: coherent_def)
  show ?thesis using ti cohD[OF co, of i] by (auto simp: has_block_def block_ok_def live_def pend_def split: if_splits)
qed

text \<open>Runs given by what the processes do, for the concrete runs below.\<close>

datatype act = Ask nat int int caller | AskAhead nat int int int | AskEmpty nat | AskFlush nat int int | Go nat | Put nat "u8 list" | Drop nat |
  Write nat | WriteLater nat | WriteDelayed nat | Done nat "nat option" | FlushAll int | InvalAll int

fun act_step :: "act \<Rightarrow> (nat \<Rightarrow> task) \<times> bcache \<Rightarrow> (bio_event \<times> (nat \<Rightarrow> task) \<times> bcache) option" where
  "act_step (Ask p dev b c) (T, s) = (if T p = Idle \<and> (c = Plain \<or> c = ForRead) then Some (Calls (Some dev), T(p := Get dev b c), s) else None)"
| "act_step (AskAhead p dev b ra) (T, s) = (if T p = Idle then case breada dev b ra s of (t, s') \<Rightarrow> Some (Calls (Some dev), T(p := t), s') else None)"
| "act_step (AskEmpty p) (T, s) = (if T p = Idle then Some (Calls None, T(p := Newempty), s) else None)"
| "act_step (AskFlush p dev b) (T, s) = (if T p = Idle then Some (Calls (Some dev), T(p := Flush dev b), s) else None)"
| "act_step (Go p) (T, s) = (case run (T p) s of None \<Rightarrow> None | Some (t, s') \<Rightarrow> Some (Runs p, T(p := t), s'))"
| "act_step (Put p d) (T, s) = (case T p of Hold r i e \<Rightarrow> Some (Modifies i d, T, upd_buf i (\<lambda>b. b\<lparr>b_data := d\<rparr>) s) | _ \<Rightarrow> None)"
| "act_step (Drop p) (T, s) = (case T p of Hold r i e \<Rightarrow> Some (Releases i, T(p := Idle), brelse i s) | _ \<Rightarrow> None)"
| "act_step (Write p) (T, s) =
     (case T p of Hold r i e \<Rightarrow> (case bwrite i s of (True, s') \<Rightarrow> Some (Writes i, T(p := Release i None), s') | (False, _) \<Rightarrow> None) | _ \<Rightarrow> None)"
| "act_step (WriteLater p) (T, s) = (case T p of Hold r i e \<Rightarrow> Some (Writes i, T(p := Idle), bawrite i s) | _ \<Rightarrow> None)"
| "act_step (WriteDelayed p) (T, s) = (case T p of Hold r i e \<Rightarrow> Some (Writes i, T(p := Idle), bdwrite i s) | _ \<Rightarrow> None)"
| "act_step (Done i err) (T, s) =
     (if i \<in> set (ioq s) then case io_done i err s of Ok s' \<Rightarrow> Some (Finishes i err, T, s') | _ \<Rightarrow> None else None)"
| "act_step (FlushAll dev) (T, s) = Some (Flushes, T, bflush dev s)"
| "act_step (InvalAll dev) (T, s) = Some (Invalidates, T, binval dev s)"

lemma act_bio_step: "act_step a c = Some (e, c') \<Longrightarrow> bio_step c e c'"
  by (cases "(a, c)" rule: act_step.cases)
    (auto intro: bio_step.intros split: if_splits option.splits task.splits prod.splits bool.splits outcome.splits)

fun acts :: "act list \<Rightarrow> bio_event list \<times> (nat \<Rightarrow> task) \<times> bcache \<Rightarrow> (bio_event list \<times> (nat \<Rightarrow> task) \<times> bcache) option" where
  "acts [] r = Some r"
| "acts (a # as) (es, c) = (case act_step a c of None \<Rightarrow> None | Some (e, c') \<Rightarrow> acts as (es @ [e], c'))"

lemma acts_run: "acts as (es, c') = Some (es', c'') \<Longrightarrow> bio_run c es c' \<Longrightarrow> bio_run c es' c''"
proof (induction as arbitrary: es c')
  case (Cons a as)
  from Cons.prems(1) obtain e c1 where s: "act_step a c' = Some (e, c1)" "acts as (es @ [e], c1) = Some (es', c'')"
    by (auto split: option.splits)
  show ?case by (rule Cons.IH[OF s(2) Run_snoc[OF Cons.prems(2) act_bio_step[OF s(1)]]])
qed simp

fun clean_acts :: "act list \<Rightarrow> ((nat \<Rightarrow> task) \<times> bcache) \<times> (int \<times> int \<Rightarrow> u8 list) \<times> nat list \<Rightarrow>
    (((nat \<Rightarrow> task) \<times> bcache) \<times> (int \<times> int \<Rightarrow> u8 list) \<times> nat list) option" where
  "clean_acts [] r = Some r"
| "clean_acts (a # as) (c, A, D) = (case act_step a c of None \<Rightarrow> None | Some (e, c') \<Rightarrow>
     if allowed (set D) c e
     then clean_acts as (c', abstract_disk (snd c) e A,
       case e of Modifies i d \<Rightarrow> if live (snd c) i then i # D else D | Writes i \<Rightarrow> filter (\<lambda>j. j \<noteq> i) D | _ \<Rightarrow> D)
     else None)"

lemma changed_list:
  "changed s e (set D) = set (case e of Modifies i d \<Rightarrow> if live s i then i # D else D | Writes i \<Rightarrow> filter (\<lambda>j. j \<noteq> i) D | _ \<Rightarrow> D)"
  by (cases e) auto

lemma clean_acts_run:
  "clean_acts as (c', A, D) = Some (c'', A', D') \<Longrightarrow> clean_run c c' A (set D) \<Longrightarrow> clean_run c c'' A' (set D')"
proof (induction as "(c', A, D)" arbitrary: c' A D rule: clean_acts.induct)
  case (2 a as c' A D)
  from "2.prems"(1) obtain e c1 where s: "act_step a c' = Some (e, c1)" "allowed (set D) c' e"
    by (auto split: option.splits if_splits)
  then show ?case using "2.hyps"[OF s(1) refl s(2)] "2.prems" Clean_step[OF "2.prems"(2) act_bio_step[OF s(1)] s(2)]
    by (simp add: changed_list)
qed simp

text \<open>Two buffers, an empty disk.\<close>

definition bio_zero :: bcache where
  "bio_zero = \<lparr>buf = (\<lambda>i. \<lparr>b_flags = {}, b_bcount = 0, b_error = 0, b_dev = 0, b_blkno = 0, b_data = []\<rparr>), nbuf = 2, bufhash = (\<lambda>h. []),
     bfreelist = (\<lambda>q. []), bq_wanted = False, ioq = [], blocks = (\<lambda>k. []), tapes = (\<lambda>d. False)\<rparr>"

text \<open>Evaluation of runs.\<close>

lemmas bio_eval =
  run.simps getblk_def getblk_new_def geteblk_def getnewbuf.simps getnew_queue_def BQ_AGE_def BQ_LRU_def BQ_LOCKED_def EMPTIES_def EIO_def
  Let_def notavail_def bremfree_def set_flags_def upd_buf_def assign_buf_def empty_buf_def bremhash_def binshash_def BUFHASH_def fsbtodb_def
  got_block.simps has_data_def start_read_def strategy_def holds_block_def brelse_def binsheadfree_def binstailfree_def bwrite_def bawrite_def bdwrite_def
  io_done_def biodone_def transfer_def geterror_def NODEV_def bflush.simps bflush_next_def blkflush_def
  breada_def breada_ahead_def breada_end.simps incore_def

lemma binit_zero:
  "binit bio_zero = \<lparr>buf = (\<lambda>i. if i < 2 then \<lparr>b_flags = {B_INVAL}, b_bcount = 0, b_error = 0, b_dev = - 1, b_blkno = 0, b_data = []\<rparr>
            else \<lparr>b_flags = {}, b_bcount = 0, b_error = 0, b_dev = 0, b_blkno = 0, b_data = []\<rparr>), nbuf = 2,
     bufhash = (\<lambda>h. [])(16 := [1, 0]), bfreelist = (\<lambda>h. [])(2 := [1, 0]), bq_wanted = False, ioq = [], blocks = (\<lambda>k. []), tapes = (\<lambda>d. False)\<rparr>"
  unfolding binit_def by (subst binit_eq) (simp_all add: bio_zero_def NODEV_def EMPTIES_def BQ_AGE_def numeral_2_eq_2 cong: if_cong)



section \<open>Flushing a device\<close>

lemma bflush_rest:
  "q \<in> {BQ_LOCKED, BQ_LRU, BQ_AGE} \<Longrightarrow> i \<in> set (bfreelist (bflush dev s) q) \<Longrightarrow> b_dev (buf (bflush dev s) i) = dev \<Longrightarrow> B_DELWRI \<notin> flags (bflush dev s) i"
proof (induction dev s rule: bflush.induct)
  case (1 dev s)
  show ?case
  proof (cases "bflush_next dev s")
    case None
    then have "bflush dev s = s" by (subst bflush.simps) simp
    then show ?thesis using None 1(2-4) by (auto simp: bflush_next_def find_None_iff)
  next
    case (Some j)
    then have "bflush dev s = bflush dev (snd (bwrite j (notavail j (set_flags j (insert B_ASYNC) s))))" by (subst bflush.simps) simp
    then show ?thesis using 1(1)[OF Some] 1(2-4) by simp
  qed
qed

text \<open>One round.\<close>

lemma bflush_round:
  assumes "bflush_next dev s = Some j"
  defines "s1 \<equiv> snd (bwrite j (notavail j (set_flags j (insert B_ASYNC) s)))"
  shows "bflush dev s = bflush dev s1" "buf s1 = (buf s)(j := buf s1 j)" "ioq s1 = ioq s @ [j]" "i \<noteq> j \<Longrightarrow> i \<in> set (bfreelist s1 q) \<longleftrightarrow> i \<in> set (bfreelist s q)"
    "B_DELWRI \<notin> flags s1 j" "{B_BUSY, B_ASYNC} \<subseteq> flags s1 j" "b_data (buf s1 j) = b_data (buf s j)" "b_dev (buf s j) = dev" "B_DELWRI \<in> flags s j"
proof -
  show "bflush dev s = bflush dev s1" using assms by (subst bflush.simps) simp
  show "b_dev (buf s j) = dev" "B_DELWRI \<in> flags s j" using find_Some_in[OF assms(1)[unfolded bflush_next_def]] by auto
qed (auto simp: s1_def bwrite_def notavail_def bremfree_def strategy_def Let_def)

lemma bflush_others: "b_dev (buf s i) \<noteq> dev \<or> B_DELWRI \<notin> flags s i \<Longrightarrow> buf (bflush dev s) i = buf s i \<and> (i \<in> set (ioq s) \<longrightarrow> i \<in> set (ioq (bflush dev s)))"
proof (induction dev s rule: bflush.induct)
  case (1 dev s)
  show ?case
  proof (cases "bflush_next dev s")
    case None
    then show ?thesis by (subst (1 2) bflush.simps) simp
  next
    case (Some j)
    note r = bflush_round[OF Some]
    have "i \<noteq> j" using r(8,9) 1(2) by auto
    then have b: "buf (snd (bwrite j (notavail j (set_flags j (insert B_ASYNC) s)))) i = buf s i" using r(2) by (metis fun_upd_other)
    show ?thesis using 1(1)[OF Some] 1(2) r(3) unfolding r(1) b by auto
  qed
qed

lemma bflush_moves:
  "i \<in> set (bfreelist s q) \<Longrightarrow> q \<in> {BQ_LOCKED, BQ_LRU, BQ_AGE} \<Longrightarrow> b_dev (buf s i) = dev \<Longrightarrow> B_DELWRI \<in> flags s i \<Longrightarrow>
    i \<in> set (ioq (bflush dev s)) \<and> {B_BUSY, B_ASYNC} \<subseteq> flags (bflush dev s) i \<and> b_data (buf (bflush dev s) i) = b_data (buf s i)"
proof (induction dev s rule: bflush.induct)
  case (1 dev s)
  show ?case
  proof (cases "bflush_next dev s")
    case None
    then show ?thesis using 1(2-5) by (auto simp: bflush_next_def find_None_iff)
  next
    case (Some j)
    note r = bflush_round[OF Some]
    let ?s = "snd (bwrite j (notavail j (set_flags j (insert B_ASYNC) s)))"
    show ?thesis
    proof (cases "i = j")
      case True
      then show ?thesis using bflush_others[of ?s i dev] r(1,3,5-7) by simp
    next
      case False
      then have b: "buf ?s i = buf s i" using r(2) by (metis fun_upd_other)
      show ?thesis using 1(1)[OF Some] 1(2-5) r(4)[OF False, of q] unfolding r(1) b by simp
    qed
  qed
qed

section \<open>Properties\<close>

text \<open>
  C10. In every state the kernel can reach from \<^verbatim>\<open>binit\<close>, with processes that call, sleep and go on in any order, devices that finish
  when they like, with errors too, flushes and invalidations: every buffer is on exactly one hash chain; it is on a free list, on exactly one, just
  when it is not busy; it is busy and not \<^verbatim>\<open>B_ASYNC\<close> just when exactly one process has it; an asynchronous one is with its
  device; and a device that is done never makes \<^verbatim>\<open>biodone\<close> panic.
\<close>

theorem buffers_accounted_for:
  assumes "ioq s = []" "bio_run (\<lambda>p. Idle, binit s) es (T, s')" "i < nbuf s'"
  shows "(\<exists>!h. i \<in> set (bufhash s' h)) \<and> (B_BUSY \<notin> flags s' i \<longleftrightarrow> (\<exists>!q. i \<in> set (bfreelist s' q))) \<and>
    (B_BUSY \<in> flags s' i \<longleftrightarrow> (\<forall>q. i \<notin> set (bfreelist s' q))) \<and> (B_BUSY \<in> flags s' i \<and> B_ASYNC \<notin> flags s' i \<longleftrightarrow> (\<exists>!p. owns (T p) = Some i)) \<and>
    (B_ASYNC \<in> flags s' i \<longrightarrow> i \<in> set (ioq s')) \<and> (i \<in> set (ioq s') \<longrightarrow> (\<exists>s''. io_done i err s' = Ok s''))"
  using bio_ok_facts[OF bio_run_ok[OF assms(2) binit_ok[OF assms(1)]] assms(3)] by simp

definition run1 :: "act list" where
  "run1 = [Ask 0 0 5 ForRead, Go 0, Done 1 None, Go 0, Put 0 [7], WriteDelayed 0, Ask 1 0 5 ForRead, Go 1]"

lemma run1_acts: "\<exists>es T s. acts run1 ([], (\<lambda>p. Idle), binit bio_zero) = Some (es, T, s) \<and> nbuf s = 2"
  by (simp add: run1_def binit_zero bio_eval)

theorem buffers_accounted_for_witness: "\<exists>es T s. bio_run (\<lambda>p. Idle, binit bio_zero) es (T, s) \<and> (\<exists>!h. 1 \<in> set (bufhash s h))"
proof -
  obtain es T s where a: "acts run1 ([], (\<lambda>p. Idle), binit bio_zero) = Some (es, T, s)" "nbuf s = 2" using run1_acts by blast
  have r: "bio_run (\<lambda>p. Idle, binit bio_zero) es (T, s)" by (rule acts_run[OF a(1) Run_Nil])
  have q: "ioq bio_zero = []" by (simp add: bio_zero_def)
  have "1 < nbuf s" using a(2) by simp
  from buffers_accounted_for[OF q r this, THEN conjunct1] r show ?thesis by blast
qed

text \<open>
  C4. The cache is coherent. \<open>A\<close> is what has last been stored in each block through any buffer. In every run without device errors
  and invalidations in which nobody gives up a changed buffer without writing it, and in which no process that slept for want of a free buffer
  wakes up to find its block in the cache: what \<^verbatim>\<open>bread\<close> or \<^verbatim>\<open>breada\<close> returns has the contents last stored in that block, and no
  other process has that block; and once all writes, delayed ones too, are done, the disk is \<open>A\<close>.
\<close>

theorem bread_returns_last_stored:
  assumes "ioq s = []" "clean_run (\<lambda>p. Idle, binit s) (T, s') A D" "T p = Hold (Some (dev, blkno)) i e"
  shows "b_data (buf s' i) = A (dev, fsbtodb blkno) \<and> (\<forall>q j e'. T q = Hold (Some (dev, blkno)) j e' \<longrightarrow> q = p) \<and>
    (D = {} \<and> ioq s' = [] \<and> (\<forall>j<nbuf s'. B_DELWRI \<notin> flags s' j) \<longrightarrow> blocks s' = A)"
proof -
  have c: "coherent (T, s') A D" by (rule clean_run_from[OF assms(1,2)])
  have "q = p" if "T q = Hold (Some (dev, blkno)) j e'" for q j e'
  proof -
    have "j = i" using coherent_read[OF c assms(3)] coherent_read[OF c that] coh_unique[of A D s' j i] c by (simp add: coherent_def)
    then show ?thesis using that assms(3) c by (auto simp: coherent_def bio_ok_def tasks_ok_def) (metis owns.simps(1) mode.inject)
  qed
  then show ?thesis using coherent_read[OF c assms(3)] coherent_disk[of T s' A] c by blast
qed

lemma clean1:
  "\<exists>T s A D. clean_acts run1 ((\<lambda>p. Idle, binit bio_zero), \<lambda>k. [], []) = Some ((T, s), A, D) \<and> T 1 = Hold (Some (0, 5)) 1 0 \<and> A (0, 10) = [7] \<and> blocks s (0, 10) = []"
  by (simp add: run1_def binit_zero bio_eval live_def key_def)

theorem bread_returns_last_stored_witness:
  "\<exists>T s A D. clean_run (\<lambda>p. Idle, binit bio_zero) (T, s) A D \<and> T 1 = Hold (Some (0, 5)) 1 0 \<and> blocks s (0, 10) = [] \<and> b_data (buf s 1) = [7]"
proof -
  obtain T s A D where a: "clean_acts run1 ((\<lambda>p. Idle, binit bio_zero), \<lambda>k. [], []) = Some ((T, s), A, D)"
    "T 1 = Hold (Some (0, 5)) 1 0" "A (0, 10) = [7]" "blocks s (0, 10) = []" using clean1 by blast
  have "clean_run (\<lambda>p. Idle, binit bio_zero) (\<lambda>p. Idle, binit bio_zero) (\<lambda>k. []) (set [])"
    using Clean_start[of "(\<lambda>p. Idle, binit bio_zero)"] by (simp add: binit_zero)
  note r = clean_acts_run[OF a(1) this]
  have "ioq bio_zero = []" by (simp add: bio_zero_def)
  from bread_returns_last_stored[OF this r a(2)] have "b_data (buf s 1) = A (0, fsbtodb 5)" by (rule conjunct1)
  then show ?thesis using r a by (auto simp: fsbtodb_def)
qed

text \<open>
  C32. \<^verbatim>\<open>bflush\<close> ends, in any state: then no buffer of the device on the free lists is a delayed write, and all that were are with the
  device, asynchronous, their contents unchanged; buffers of other devices and those that hold no delayed write are left as they were.
\<close>

theorem bflush_hands_over_delayed:
  "(\<forall>q\<in>{BQ_LOCKED, BQ_LRU, BQ_AGE}. \<forall>i\<in>set (bfreelist (bflush dev s) q). b_dev (buf (bflush dev s) i) = dev \<longrightarrow> B_DELWRI \<notin> flags (bflush dev s) i) \<and>
   (\<forall>q\<in>{BQ_LOCKED, BQ_LRU, BQ_AGE}. \<forall>i\<in>set (bfreelist s q). b_dev (buf s i) = dev \<and> B_DELWRI \<in> flags s i \<longrightarrow>
      i \<in> set (ioq (bflush dev s)) \<and> {B_BUSY, B_ASYNC} \<subseteq> flags (bflush dev s) i \<and> b_data (buf (bflush dev s) i) = b_data (buf s i)) \<and>
   (\<forall>i. b_dev (buf s i) \<noteq> dev \<or> B_DELWRI \<notin> flags s i \<longrightarrow> buf (bflush dev s) i = buf s i)"
  using bflush_rest[where dev = dev and s = s] bflush_moves[where dev = dev and s = s] bflush_others[where dev = dev and s = s] by blast

theorem bflush_hands_over_delayed_witness:
  "let s = bio_zero\<lparr>bfreelist := (\<lambda>q. [])(BQ_LRU := [1]), buf := (buf bio_zero)(1 := (buf bio_zero 1)\<lparr>b_flags := {B_DELWRI, B_DONE}\<rparr>)\<rparr>
   in 1 \<in> set (ioq (bflush 0 s))"
proof -
  let ?s = "bio_zero\<lparr>bfreelist := (\<lambda>q. [])(BQ_LRU := [1]), buf := (buf bio_zero)(1 := (buf bio_zero 1)\<lparr>b_flags := {B_DELWRI, B_DONE}\<rparr>)\<rparr>"
  have "1 \<in> set (bfreelist ?s BQ_LRU)" "b_dev (buf ?s 1) = 0 \<and> B_DELWRI \<in> flags ?s 1" by (simp_all add: bio_zero_def)
  then have "1 \<in> set (ioq (bflush 0 ?s))" using bflush_hands_over_delayed[of 0 ?s] by blast
  then show ?thesis by (simp add: Let_def)
qed

text \<open>
  C37. Without the last proviso it is not. Two processes that ask for the same block while no buffer is free both sleep in \<^verbatim>\<open>getnewbuf\<close>, which
  on waking looks for a free buffer only: each takes one and both buffers are entered for that block. In this run the write of one is done and
  on the disk, and a third process that reads the block afterwards gets the old contents out of the other.
\<close>

theorem one_block_in_two_buffers:
  "\<exists>es T s. bio_run (\<lambda>p. Idle, binit bio_zero) es (T, s) \<and> blocks s (0, fsbtodb 5) = [7] \<and> ioq s = [] \<and>
     T 4 = Hold (Some (0, 5)) 1 0 \<and> holds_block s 0 5 1 \<and> b_data (buf s 1) = [] \<and> holds_block s 0 5 0 \<and> b_data (buf s 0) = [7]"
proof -
  have "\<exists>es T s. acts [AskEmpty 0, Go 0, AskEmpty 1, Go 1, Ask 2 0 5 ForRead, Go 2, Ask 3 0 5 ForRead, Go 3, Drop 0, Drop 1,
       Go 2, Go 3, Done 1 None, Done 0 None, Go 2, Go 3, Put 2 [7], Write 2, Done 0 None, Go 2, Drop 3, Ask 4 0 5 ForRead, Go 4]
       ([], (\<lambda>p. Idle), binit bio_zero) = Some (es, T, s) \<and> blocks s (0, fsbtodb 5) = [7] \<and> ioq s = [] \<and>
     T 4 = Hold (Some (0, 5)) 1 0 \<and> holds_block s 0 5 1 \<and> b_data (buf s 1) = [] \<and> holds_block s 0 5 0 \<and> b_data (buf s 0) = [7]"
    by (simp add: binit_zero bio_eval)
  then show ?thesis using acts_run[OF _ Run_Nil] by blast
qed

end
