(* ===== verification/Proc.thy ===== *)
theory Proc
  imports Sig_Props Sched_Props Desc
begin

text \<open>
  Processes come and go: \<^verbatim>\<open>sys/sys/kern_fork.c\<close>, \<^verbatim>\<open>sys/sys/kern_exit.c\<close> and \<^verbatim>\<open>sys/sys/kern_proc.c\<close>, on the process table and
  queues of \<open>Sched\<close>, the signals of \<open>Sig\<close> and the file table of \<open>Desc\<close>. The lists \<^verbatim>\<open>allproc\<close>, \<^verbatim>\<open>zombproc\<close> and \<^verbatim>\<open>freeproc\<close> are lists
  of slots; slot 0 is the swapper, which is nobody's parent but that of \<^verbatim>\<open>init\<close> and also stands for the null pointer in \<^verbatim>\<open>p_pptr\<close>. What is
  kept in the user area is a map from slots, so that it needs no saving when the processor changes hands.

  A call that sleeps is cut there: \<open>cont\<close> says where each process will go on. Core and swap space are not accounted for here: the addresses
  that the allocators find are arguments (\<open>place\<close>).
\<close>

section \<open>State\<close>

text \<open>A \<^verbatim>\<open>struct k_rusage\<close> is the list of its eleven counters.\<close>

type_synonym rusage = "u32 list"

record pmem =
  p_dsize :: u16
  p_ssize :: u16
  p_daddr :: u16
  p_saddr :: u16
  p_addr :: u16
  p_textp :: u16

record uarea =
  u_uid :: int
  u_ru :: rusage
  u_cru :: rusage
  u_ofile :: "nat option list"
  u_pofile :: "u8 list"
  u_lastfile :: int

text \<open>Where a process goes on: in user mode, or in \<^verbatim>\<open>newproc\<close> waiting for the child, in \<^verbatim>\<open>endvfork\<close> called from \<^verbatim>\<open>exit\<close> or from \<^verbatim>\<open>exec\<close>, in
  \<^verbatim>\<open>wait1\<close>; or it has called \<^verbatim>\<open>exit\<close> and never goes on.\<close>

datatype pcont = User | Vforked nat | Ending int | Execing | Waiting int nat | Gone

record kproc =
  sg :: ksig
  zombproc :: "nat list"
  freeproc :: "nat list"
  mpid :: int
  pidchecked :: int
  p_xstat :: "nat \<Rightarrow> int"
  p_ru :: "nat \<Rightarrow> rusage"
  pm :: "nat \<Rightarrow> pmem"
  ua :: "nat \<Rightarrow> uarea"
  dsc :: desc
  cont :: "nat \<Rightarrow> pcont"

abbreviation "SLOCK \<equiv> (0x0004 :: u16)"
abbreviation "SULOCK \<equiv> (0x0040 :: u16)"
abbreviation "SVFPRNT \<equiv> (0x0200 :: u16)"
abbreviation "SVFDONE \<equiv> (0x0400 :: u16)"

definition MAXUPRC :: int where "MAXUPRC = 20"

abbreviation K :: "kproc \<Rightarrow> ksched" where
  "K s \<equiv> ks (sg s)"

abbreviation prc :: "kproc \<Rightarrow> nat \<Rightarrow> proc" where
  "prc s p \<equiv> procs (K s) p"

abbreviation curp :: "kproc \<Rightarrow> nat" where
  "curp s \<equiv> u_procp (K s)"

definition setK :: "kproc \<Rightarrow> ksched \<Rightarrow> kproc" where
  "setK s k = s\<lparr>sg := (sg s)\<lparr>ks := k\<rparr>\<rparr>"

definition updp :: "nat \<Rightarrow> (proc \<Rightarrow> proc) \<Rightarrow> kproc \<Rightarrow> kproc" where
  "updp p f s = setK s (upd_proc p f (K s))"

definition updm :: "nat \<Rightarrow> (pmem \<Rightarrow> pmem) \<Rightarrow> kproc \<Rightarrow> kproc" where
  "updm p f s = s\<lparr>pm := (pm s)(p := f (pm s p))\<rparr>"

definition updu :: "nat \<Rightarrow> (uarea \<Rightarrow> uarea) \<Rightarrow> kproc \<Rightarrow> kproc" where
  "updu p f s = s\<lparr>ua := (ua s)(p := f (ua s p))\<rparr>"

definition goes :: "nat \<Rightarrow> pcont \<Rightarrow> kproc \<Rightarrow> kproc" where
  "goes p c s = s\<lparr>cont := (cont s)(p := c)\<rparr>"

definition onK :: "(ksched \<Rightarrow> ksched outcome) \<Rightarrow> kproc \<Rightarrow> kproc outcome" where
  "onK f s = omap (setK s) (f (K s))"

definition ruadd :: "rusage \<Rightarrow> rusage \<Rightarrow> rusage" where
  "ruadd a b = map2 (+) a b"

definition ruzero :: rusage where
  "ruzero = replicate 11 0"

section \<open>Choosing a process number\<close>

text \<open>The scan of the table: whether it ends with \<^verbatim>\<open>goto retry\<close>, \<^verbatim>\<open>mpid\<close> and \<^verbatim>\<open>pidchecked\<close>.\<close>

fun newpid_scan :: "(int \<times> int) list \<Rightarrow> int \<Rightarrow> int \<Rightarrow> bool \<times> int \<times> int" where
  "newpid_scan [] m c = (False, m, c)"
| "newpid_scan ((pid, pgrp) # xs) m c =
     (if (pid = m \<or> pgrp = m) \<and> m + 1 \<ge> c then (True, m + 1, c)
      else let m1 = (if pid = m \<or> pgrp = m then m + 1 else m);
               c1 = (if pid > m1 \<and> c > pid then pid else c);
               c2 = (if pgrp > m1 \<and> c1 > pgrp then pgrp else c1)
           in newpid_scan xs m1 c2)"

partial_function (option) newpid :: "(int \<times> int) list \<Rightarrow> int \<Rightarrow> int \<Rightarrow> (int \<times> int) option" where
  "newpid ids m0 c0 =
     (let m = (if m0 \<ge> 30000 then 100 else m0); c = (if m0 \<ge> 30000 then 0 else c0) in
      if m \<ge> c
      then case newpid_scan ids m 30000 of (again, m1, c1) \<Rightarrow> if again then newpid ids m1 c1 else Some (m1, c1)
      else Some (m, c))"

definition pids :: "kproc \<Rightarrow> (int \<times> int) list" where
  "pids s = map (\<lambda>p. (p_pid (prc s p), p_pgrp (prc s p))) (allproc (K s) @ zombproc s)"

section \<open>fork\<close>

text \<open>Where the child is put: in core, on the swap device because there is no core, or nowhere.\<close>

datatype place = InCore u16 u16 u16 | OnSwap u16 u16 u16 | NoSwap

text \<open>The process table entry of the child.\<close>

definition child_proc :: "proc \<Rightarrow> nat \<Rightarrow> int \<Rightarrow> proc \<Rightarrow> proc" where
  "child_proc rip ripslot pid q =
     q\<lparr>p_stat := SIDL, p_rt_value := 0, p_flag := SLOAD, p_uid := p_uid rip, p_pgrp := p_pgrp rip, p_nice := p_nice rip,
       p_pid := pid, p_ppid := p_pid rip, p_pptr := ripslot, p_time := 0, p_cpu := 0, p_sigmask := p_sigmask rip, p_sigcatch := p_sigcatch rip,
       p_sigignore := p_sigignore rip, p_wchan := 0, p_slptime := 0\<rparr>"

fun fork_files :: "nat option list \<Rightarrow> desc \<Rightarrow> desc" where
  "fork_files [] d = d"
| "fork_files (None # fs) d = fork_files fs d"
| "fork_files (Some fp # fs) d = fork_files fs (upd_file fp (\<lambda>f. f\<lparr>f_count := f_count f + 1\<rparr>) d)"

text \<open>\<^verbatim>\<open>swapout\<close> of the child's image, as far as the process table sees it.\<close>

definition swapout_image :: "nat \<Rightarrow> kproc \<Rightarrow> kproc outcome" where
  "swapout_image p s =
     (let s1 = updp p (\<lambda>q. q\<lparr>p_flag := p_flag q AND NOT (SLOAD OR SLOCK), p_time := 0\<rparr>) s
      in if runout (K s1) then onK (wakeup RUNOUT) (setK s1 ((K s1)\<lparr>runout := False\<rparr>)) else Ok s1)"

text \<open>\<^verbatim>\<open>newproc\<close> up to the copying of the image, in the parent \<open>rip\<close>; \<open>rpp\<close> is the child.\<close>

definition newproc_entry :: "nat \<Rightarrow> nat \<Rightarrow> int \<Rightarrow> int \<Rightarrow> bool \<Rightarrow> kproc \<Rightarrow> kproc" where
  "newproc_entry rip rpp pid checked isvfork s =
     (let s1 = (updp rpp (child_proc (prc s rip) rip pid) s)\<lparr>freeproc := tl (freeproc s), mpid := pid, pidchecked := checked\<rparr>;
          s2 = updm rpp (\<lambda>m. m\<lparr>p_textp := p_textp (pm s rip)\<rparr>) s1;
          s3 = s2\<lparr>sg := (sg s2)\<lparr>pidhash := (pidhash (sg s2))(PIDHASH pid := rpp # pidhash (sg s2) (PIDHASH pid)),
                               ks := (K s2)\<lparr>allproc := rpp # allproc (K s2)\<rparr>\<rparr>\<rparr>
      in s3\<lparr>dsc := fork_files (take (nat (u_lastfile (ua s rip) + 1)) (u_ofile (ua s rip))) (dsc s)\<rparr>)"

definition newproc_image :: "nat \<Rightarrow> nat \<Rightarrow> place \<Rightarrow> bool \<Rightarrow> kproc \<Rightarrow> kproc outcome" where
  "newproc_image rip rpp pl isvfork s =
     (let s1 = updm rpp (\<lambda>m. (pm s rip)\<lparr>p_addr := p_addr m, p_textp := p_textp m\<rparr>) (updu rpp (\<lambda>u. ua s rip) s)
      in case pl of
           NoSwap \<Rightarrow> Panic ''out of swap space''
         | OnSwap a0 a1 a2 \<Rightarrow>
             obind (swapout_image rpp (updp rpp (\<lambda>q. q\<lparr>p_stat := SRUN\<rparr>) s1)) (\<lambda>s2.
             Ok (updm rpp (\<lambda>m. m\<lparr>p_daddr := a0, p_saddr := a1, p_addr := a2\<rparr>) s2))
         | InCore a0 a1 a2 \<Rightarrow>
             let s2 = updm rpp (\<lambda>m. if isvfork then m\<lparr>p_addr := a2\<rparr> else m\<lparr>p_daddr := a0, p_saddr := a1, p_addr := a2\<rparr>) s1;
                 s3 = updp rpp (\<lambda>q. q\<lparr>p_stat := SRUN\<rparr>) s2
             in Ok (setK s3 (setrq rpp (K s3))))"

text \<open>The wait of a \<^verbatim>\<open>vfork\<close>: \<open>None\<close> when the process sleeps.\<close>

definition vfork_done :: "nat \<Rightarrow> nat \<Rightarrow> kproc \<Rightarrow> kproc outcome" where
  "vfork_done rip rpp s =
     (if \<not> loaded (prc s rpp) then Panic ''newproc vfork''
      else let m = pm s rpp;
               s1 = updm rip (\<lambda>q. q\<lparr>p_dsize := p_dsize m, p_daddr := p_daddr m, p_ssize := p_ssize m, p_saddr := p_saddr m, p_textp := p_textp m\<rparr>) s;
               s2 = updm rpp (\<lambda>q. q\<lparr>p_dsize := 0, p_ssize := 0, p_textp := 0\<rparr>) s1;
               s3 = updp rpp (\<lambda>q. q\<lparr>p_flag := p_flag q OR SVFDONE\<rparr>) s2
           in obind (onK (wakeup (procaddr rip)) s3) (\<lambda>s4.
              Ok (goes rip User (updp rip (\<lambda>q. q\<lparr>p_flag := p_flag q AND NOT SVFPRNT\<rparr>) s4))))"

definition newproc :: "bool \<Rightarrow> place \<Rightarrow> kproc \<Rightarrow> (nat \<times> kproc) outcome" where
  "newproc isvfork pl s =
     (let rip = curp s in
      case newpid (pids s) (mpid s + 1) (pidchecked s) of
        None \<Rightarrow> Fault
      | Some (pid, checked) \<Rightarrow>
          case freeproc s of
            [] \<Rightarrow> Panic ''no procs''
          | rpp # _ \<Rightarrow>
              obind (newproc_image rip rpp pl isvfork (newproc_entry rip rpp pid checked isvfork s)) (\<lambda>s1.
              let s2 = updp rpp (\<lambda>q. q\<lparr>p_flag := p_flag q OR SSWAP\<rparr>) s1
              in Ok (rpp, if isvfork
                     then goes rip (Vforked rpp)
                            (updp rip (\<lambda>q. q\<lparr>p_flag := p_flag q OR SVFPRNT\<rparr>) (updp rpp (\<lambda>q. q\<lparr>p_flag := p_flag q OR SVFORK\<rparr>)
                            (updm rip (\<lambda>m. m\<lparr>p_dsize := 0, p_ssize := 0, p_textp := 0\<rparr>) s2)))
                     else s2)))"

text \<open>\<^verbatim>\<open>fork1\<close>; the result is the error, or the number of the child. The child starts in user mode with no resources used.\<close>

definition user_procs :: "int \<Rightarrow> kproc \<Rightarrow> int" where
  "user_procs uid s = int (length (filter (\<lambda>p. p_uid (prc s p) = uid) (allproc (K s) @ zombproc s)))"

definition fork1 :: "bool \<Rightarrow> place \<Rightarrow> kproc \<Rightarrow> ((errno + int) \<times> kproc) outcome" where
  "fork1 isvfork pl s =
     (let uid = u_uid (ua s (curp s)); a = (if uid \<noteq> 0 then user_procs uid s else 0) in
      case freeproc s of
        [] \<Rightarrow> Ok (Inl EAGAIN, s)
      | p2 # rest \<Rightarrow>
          if uid \<noteq> 0 \<and> (rest = [] \<or> a > MAXUPRC) then Ok (Inl EAGAIN, s)
          else omap (\<lambda>(c, s1). (Inr (p_pid (prc s1 c)), goes c User (updu c (\<lambda>u. u\<lparr>u_ru := ruzero, u_cru := ruzero\<rparr>) s1))) (newproc isvfork pl s))"

section \<open>exit\<close>

fun exit_files :: "(filent \<Rightarrow> errno option) \<Rightarrow> nat option list \<Rightarrow> desc \<Rightarrow> desc" where
  "exit_files fclose [] d = d"
| "exit_files fclose (f # fs) d = exit_files fclose fs (snd (closef fclose f d))"

definition endvfork_start :: "nat \<Rightarrow> kproc \<Rightarrow> kproc outcome" where
  "endvfork_start p s = onK (wakeup (procaddr p)) (updp p (\<lambda>q. q\<lparr>p_flag := (p_flag q AND NOT SVFORK) OR SLOCK\<rparr>) s)"

definition endvfork_finish :: "nat \<Rightarrow> kproc \<Rightarrow> kproc" where
  "endvfork_finish p s =
     updp p (\<lambda>q. q\<lparr>p_flag := p_flag q AND NOT (SVFDONE OR SLOCK)\<rparr>) (updm p (\<lambda>m. m\<lparr>p_dsize := 0, p_ssize := 0\<rparr>) s)"

text \<open>
  The union \<^verbatim>\<open>p_un\<close>: storing the exit status and the eleven counters over what the entry of a live process has. A \<^verbatim>\<open>long\<close>
  has its high word first, a word its low byte.
\<close>

abbreviation whi :: "u32 \<Rightarrow> u16" where "whi w \<equiv> ucast (drop_bit 16 w)"
abbreviation wlo :: "u32 \<Rightarrow> u16" where "wlo w \<equiv> ucast w"
abbreviation blo :: "u16 \<Rightarrow> u8" where "blo w \<equiv> ucast w"
abbreviation bhi :: "u16 \<Rightarrow> u8" where "bhi w \<equiv> ucast (drop_bit 8 w)"

definition long2 :: "u16 \<Rightarrow> u16 \<Rightarrow> u32" where
  "long2 h l = push_bit 16 (ucast h) OR ucast l"

definition bury_proc :: "u16 \<Rightarrow> rusage \<Rightarrow> proc \<Rightarrow> proc" where
  "bury_proc x ru q =
     q\<lparr>p_pri := sint (blo x), p_cpu := bhi x,
       p_time := sint (blo (whi (ru ! 0))), p_nice := sint (bhi (whi (ru ! 0))),
       p_slptime := sint (blo (wlo (ru ! 0))), p_ptracesig := sint (bhi (wlo (ru ! 0))),
       p_sigmask := long2 (wlo (ru ! 1)) (whi (ru ! 2)),
       p_sigignore := long2 (wlo (ru ! 2)) (whi (ru ! 3)),
       p_sigcatch := long2 (wlo (ru ! 3)) (whi (ru ! 4)),
       p_pgrp := sint (wlo (ru ! 4)),
       p_wchan := unat (whi (ru ! 8)),
       p_rt_interval := sint (ru ! 9), p_rt_value := sint (ru ! 10)\<rparr>"

definition bury_mem :: "rusage \<Rightarrow> pmem \<Rightarrow> pmem" where
  "bury_mem ru m =
     m\<lparr>p_addr := wlo (ru ! 5), p_daddr := whi (ru ! 6), p_saddr := wlo (ru ! 6), p_dsize := whi (ru ! 7), p_ssize := wlo (ru ! 7),
       p_textp := wlo (ru ! 8)\<rparr>"

text \<open>The children go to \<^verbatim>\<open>init\<close>; those traced or stopped get signals.\<close>

definition orphan :: "nat \<Rightarrow> kproc \<Rightarrow> kproc outcome" where
  "orphan q s =
     (let s1 = updp q (\<lambda>r. r\<lparr>p_pptr := 1, p_ppid := 1\<rparr>) s in
      obind (onK (wakeup (procaddr 1)) s1) (\<lambda>s2.
      if flagged P_TRACED (prc s2 q)
      then onK (psignal q SIGKILL) (updp q (\<lambda>r. r\<lparr>p_flag := p_flag r AND NOT P_TRACED\<rparr>) s2)
      else if p_stat (prc s2 q) = SSTOP
      then obind (onK (psignal q 1) s2) (onK (psignal q SIGCONT))
      else Ok s2))"

fun orphans :: "nat \<Rightarrow> nat list \<Rightarrow> kproc \<Rightarrow> kproc outcome" where
  "orphans p [] s = Ok s"
| "orphans p (q # rest) s = obind (if p_pptr (prc s q) = p then orphan q s else Ok s) (orphans p rest)"

definition exit_lists :: "nat \<Rightarrow> kproc \<Rightarrow> kproc" where
  "exit_lists p s =
     updp p (\<lambda>q. q\<lparr>p_stat := SZOMB\<rparr>) ((setK s ((K s)\<lparr>allproc := remove1 p (allproc (K s))\<rparr>))\<lparr>zombproc := p # zombproc s\<rparr>)"

definition exit_final :: "int \<Rightarrow> nat \<Rightarrow> kproc \<Rightarrow> kproc outcome" where
  "exit_final rv p s =
     (if p_pid (prc s p) = 1 then Panic ''init died''
      else let s1 = exit_lists p s; h = PIDHASH (p_pid (prc s1 p)) in
        if p \<notin> set (pidhash (sg s1) h) then Panic ''exit''
        else let s2 = s1\<lparr>sg := (sg s1)\<lparr>pidhash := (pidhash (sg s1))(h := remove1 p (pidhash (sg s1) h))\<rparr>\<rparr>;
                 ru = ruadd (u_ru (ua s p)) (u_cru (ua s p));
                 s3 = updm p (bury_mem ru) (updp p (bury_proc (word_of_int rv) ru)
                        (s2\<lparr>p_xstat := (p_xstat s2)(p := rv), p_ru := (p_ru s2)(p := ru)\<rparr>))
             in obind (orphans p (allproc (K s3) @ zombproc s3) s3) (\<lambda>s4.
                obind (onK (psignal (p_pptr (prc s4 p)) SIGCHLD) s4) (\<lambda>s5.
                omap (goes p Gone) (onK (wakeup (procaddr (p_pptr (prc s5 p)))) s5))))"

definition exit_begin :: "(filent \<Rightarrow> errno option) \<Rightarrow> nat \<Rightarrow> kproc \<Rightarrow> kproc" where
  "exit_begin fclose p s =
     (let s1 = updp p (\<lambda>q. q\<lparr>p_flag := p_flag q AND NOT (P_TRACED OR SULOCK), p_sigignore := NOT 0, p_sig := 0\<rparr>) s;
          n = nat (u_lastfile (ua s p) + 1);
          s2 = s1\<lparr>dsc := exit_files fclose (take n (u_ofile (ua s p))) (dsc s1)\<rparr>
      in updu p (\<lambda>u. u\<lparr>u_ofile := replicate n None @ drop n (u_ofile u), u_pofile := replicate n 0 @ drop n (u_pofile u)\<rparr>) s2)"

definition exit_call :: "(filent \<Rightarrow> errno option) \<Rightarrow> int \<Rightarrow> nat \<Rightarrow> kproc \<Rightarrow> kproc outcome" where
  "exit_call fclose rv p s =
     (let s1 = exit_begin fclose p s in
      if flagged SVFORK (prc s1 p) then omap (goes p (Ending rv)) (endvfork_start p s1)
      else exit_final rv p s1)"

section \<open>wait\<close>

text \<open>
  How \<^verbatim>\<open>wait1\<close> comes out: it returns an error, or a process and its status (process 0 when there is nothing to
  report); or it sleeps. \<open>status\<close> and \<open>rusage\<close> are \<open>None\<close> for null pointers, otherwise the error that \<^verbatim>\<open>copyout\<close> will have.
\<close>

datatype wres = Werror errno | Wret int int | Wsleep

definition wanted :: "kproc \<Rightarrow> nat \<Rightarrow> int \<Rightarrow> nat \<Rightarrow> bool" where
  "wanted s q pid p \<longleftrightarrow> p_pptr (prc s p) = q \<and> (pid = -1 \<or> p_pid (prc s p) = pid \<or> p_pgrp (prc s p) = wrap16 (- pid))"

definition give_slot :: "nat \<Rightarrow> kproc \<Rightarrow> kproc" where
  "give_slot p s =
     (let s1 = updp p (\<lambda>q. q\<lparr>p_stat := SNULL, p_pid := 0, p_ppid := 0, p_pptr := 0, p_sig := 0, p_sigcatch := 0, p_sigignore := 0, p_sigmask := 0,
                 p_pgrp := 0, p_flag := 0, p_wchan := 0, p_pri := 0, p_cpu := 0\<rparr>) s
      in s1\<lparr>p_xstat := (p_xstat s1)(p := 0), zombproc := remove1 p (zombproc s1), freeproc := p # freeproc s1\<rparr>)"

definition reap :: "nat \<Rightarrow> nat \<Rightarrow> errno option option \<Rightarrow> errno option option \<Rightarrow> kproc \<Rightarrow> wres \<times> kproc" where
  "reap q p status rusage s =
     (case (status, rusage) of
        (Some (Some e), _) \<Rightarrow> (Werror e, s)
      | (_, Some (Some e)) \<Rightarrow> (Werror e, s)
      | _ \<Rightarrow> (Wret (p_pid (prc s p)) (p_xstat s p),
               give_slot p (updu q (\<lambda>u. u\<lparr>u_cru := ruadd (u_cru u) (p_ru s p)\<rparr>) s)))"

definition stopped_news :: "kproc \<Rightarrow> nat \<Rightarrow> int \<Rightarrow> bool \<Rightarrow> nat \<Rightarrow> bool" where
  "stopped_news s q pid untraced p \<longleftrightarrow> wanted s q pid p \<and> p_stat (prc s p) = SSTOP \<and> \<not> flagged P_WAITED (prc s p) \<and>
     (flagged P_TRACED (prc s p) \<or> untraced)"

definition wait1 :: "nat \<Rightarrow> int \<Rightarrow> nat \<Rightarrow> errno option option \<Rightarrow> errno option option \<Rightarrow> kproc \<Rightarrow> wres \<times> kproc" where
  "wait1 q pid options status rusage s =
     (case find (wanted s q pid) (zombproc s) of
        Some p \<Rightarrow> reap q p status rusage s
      | None \<Rightarrow>
          case find (stopped_news s q pid (bit options 1)) (allproc (K s)) of
            Some p \<Rightarrow>
              (let s1 = updp p (\<lambda>r. r\<lparr>p_flag := p_flag r OR P_WAITED\<rparr>) s in
               case status of
                 Some (Some e) \<Rightarrow> (Werror e, s1)
               | _ \<Rightarrow> (Wret (p_pid (prc s p)) (p_ptracesig (prc s p) * 256 + 127), s1))
          | None \<Rightarrow>
              if \<not> list_ex (wanted s q pid) (allproc (K s)) then (Werror ECHILD, s)
              else if bit options 0 then (Wret 0 0, s)
              else (Wsleep, s))"

definition wait_pid :: "int \<Rightarrow> nat \<Rightarrow> kproc \<Rightarrow> int" where
  "wait_pid pid q s = (if pid = 0 then wrap16 (- p_pgrp (prc s q)) else pid)"

section \<open>The table at the start\<close>

definition pqinit :: "nat \<Rightarrow> kproc \<Rightarrow> kproc" where
  "pqinit nproc s = (setK s ((K s)\<lparr>allproc := [0]\<rparr>))\<lparr>freeproc := [1..<nproc], zombproc := []\<rparr>"

section \<open>Steps\<close>

text \<open>
  One step of the system: the running process (not the swapper) makes a call or goes on with one it slept in, a signal is
  posted or something else happens to the queues, the processor changing hands included (\<open>sched_step\<close>, in which a process that has exited
  takes no part). A process that finds nothing in \<^verbatim>\<open>wait1\<close> goes to sleep on its own table entry, or a signal makes the call fail.
\<close>

definition runs_in :: "pcont \<Rightarrow> kproc \<Rightarrow> bool" where
  "runs_in c s \<longleftrightarrow> curp s \<noteq> 0 \<and> cont s (curp s) = c \<and> p_stat (prc s (curp s)) = SRUN"

definition psleep :: "bool \<Rightarrow> int \<Rightarrow> nat \<Rightarrow> kproc \<Rightarrow> kproc outcome" where
  "psleep catch pri chan s = onK (\<lambda>k. omap (\<lambda>(b, sig, c, k'). k') (tsleep_enter (\<lambda>p k. (0, k)) chan pri catch 0 k)) s"

definition wait_resume :: "kproc \<Rightarrow> kproc" where
  "wait_resume s = setK s (snd (tsleep_resume (\<lambda>p k. (0, k)) 0 True 0 (K s)))"

inductive kproc_step :: "kproc \<Rightarrow> kproc \<Rightarrow> bool" where
  Fork: "runs_in User s \<Longrightarrow> fork1 v pl s = Ok (r, s') \<Longrightarrow> kproc_step s s'"
| Vfork_sleeps: "runs_in (Vforked c) s \<Longrightarrow> flagged SVFORK (prc s c) \<Longrightarrow> psleep False 1 (procaddr c) s = Ok s' \<Longrightarrow> kproc_step s s'"
| Vfork_done: "runs_in (Vforked c) s \<Longrightarrow> \<not> flagged SVFORK (prc s c) \<Longrightarrow> vfork_done (curp s) c s = Ok s' \<Longrightarrow> kproc_step s s'"
| Exit: "runs_in User s \<Longrightarrow> exit_call fclose rv (curp s) s = Ok s' \<Longrightarrow> kproc_step s s'"
| Exec: "runs_in User s \<Longrightarrow> flagged SVFORK (prc s (curp s)) \<Longrightarrow> endvfork_start (curp s) s = Ok s1 \<Longrightarrow> kproc_step s (goes (curp s) Execing s1)"
| End_sleeps: "runs_in c s \<Longrightarrow> c = Ending rv \<or> c = Execing \<Longrightarrow> \<not> flagged SVFDONE (prc s (curp s)) \<Longrightarrow>
     psleep False (PZERO - 1) (procaddr (p_pptr (prc s (curp s)))) s = Ok s' \<Longrightarrow> kproc_step s s'"
| Exit_on: "runs_in (Ending rv) s \<Longrightarrow> flagged SVFDONE (prc s (curp s)) \<Longrightarrow> exit_final rv (curp s) (endvfork_finish (curp s) s) = Ok s' \<Longrightarrow> kproc_step s s'"
| Exec_on: "runs_in Execing s \<Longrightarrow> flagged SVFDONE (prc s (curp s)) \<Longrightarrow>
     kproc_step s (goes (curp s) User (updm (curp s) (\<lambda>m. m') (endvfork_finish (curp s) s)))"
| Wait: "runs_in User s \<Longrightarrow> wait1 (curp s) (wait_pid pid (curp s) s) options status rusage s = (r, s') \<Longrightarrow> r \<noteq> Wsleep \<Longrightarrow> kproc_step s s'"
| Wait_sleeps: "runs_in User s \<Longrightarrow> wait1 (curp s) (wait_pid pid (curp s) s) options status rusage s = (Wsleep, s1) \<Longrightarrow>
     psleep True 30 (procaddr (curp s)) s1 = Ok s' \<Longrightarrow> kproc_step s (goes (curp s) (Waiting (wait_pid pid (curp s) s) options) s')"
| Wait_on: "runs_in (Waiting pid options) s \<Longrightarrow> wait1 (curp s) pid options status rusage (wait_resume s) = (r, s') \<Longrightarrow> r \<noteq> Wsleep \<Longrightarrow>
     kproc_step s (goes (curp s) User s')"
| Wait_again: "runs_in (Waiting pid options) s \<Longrightarrow> wait1 (curp s) pid options status rusage (wait_resume s) = (Wsleep, s1) \<Longrightarrow>
     psleep True 30 (procaddr (curp s)) s1 = Ok s' \<Longrightarrow> kproc_step s s'"
| Wait_interrupted: "runs_in (Waiting pid options) s \<Longrightarrow> kproc_step s (goes (curp s) User (wait_resume s))"
| Setpgrp: "p \<in> set (allproc (K s)) \<Longrightarrow> kproc_step s (updp p (\<lambda>q. q\<lparr>p_pgrp := g\<rparr>) s)"
| Posts: "p \<in> set (allproc (K s)) \<Longrightarrow> onK (psignal p sig) s = Ok s' \<Longrightarrow> kproc_step s s'"
| Kernel: "p_stat (prc s (curp s)) = SRUN \<Longrightarrow> sched_step (K s) k \<Longrightarrow> kproc_step s (setK s k)"
| Wakes: "chan \<noteq> 0 \<Longrightarrow> onK (wakeup chan) s = Ok s' \<Longrightarrow> kproc_step s s'"
| Switches: "p_stat (prc s (curp s)) \<noteq> SRUN \<Longrightarrow> swtch (K s) = (r, k) \<Longrightarrow> kproc_step s (setK s k)"

end
