(* ===== verification/Proc_Pid.thy ===== *)
theory Proc_Pid
  imports Proc
begin

text \<open>The choice of a process number: it ends, and what it chooses is in use by nobody.\<close>

definition ids_of :: "(int \<times> int) list \<Rightarrow> int set" where
  "ids_of xs = fst ` set xs \<union> snd ` set xs"

lemma ids_of_simps [simp]: "ids_of [] = {}" "ids_of ((a, b) # xs) = {a, b} \<union> ids_of xs"
  by (auto simp: ids_of_def)

text \<open>What the scan knows about a process it has passed: of its number, and of that of its group.\<close>

definition passed :: "int \<Rightarrow> int \<Rightarrow> int \<times> int \<Rightarrow> bool" where
  "passed m c = (\<lambda>(a, b). (a < m \<or> c \<le> a \<or> a = m \<and> a = b + 1) \<and> (b < m \<or> c \<le> b \<or> b = m \<and> b = a + 1))"

lemma scan_spec:
  "newpid_scan xs m c = (again, m1, c1) \<Longrightarrow> m < c \<Longrightarrow> (\<forall>x\<in>X. passed m c x) \<Longrightarrow>
    m \<le> m1 \<and> c1 \<le> c \<and> m1 \<le> c \<and> (again \<longrightarrow> m < m1 \<and> m1 = c1) \<and> (\<not> again \<longrightarrow> m1 < c1 \<and> (\<forall>x\<in>X \<union> set xs. passed m1 c1 x))"
proof (induction xs m c arbitrary: X rule: newpid_scan.induct)
  case (2 pid pgrp xs m c)
  show ?case
  proof (cases "(pid = m \<or> pgrp = m) \<and> m + 1 \<ge> c")
    case True
    then show ?thesis using 2 by auto
  next
    case False
    let ?m = "if pid = m \<or> pgrp = m then m + 1 else m"
    let ?c1 = "if pid > ?m \<and> c > pid then pid else c"
    let ?c = "if pgrp > ?m \<and> ?c1 > pgrp then pgrp else ?c1"
    have r: "newpid_scan xs ?m ?c = (again, m1, c1)" using "2.prems"(1) False by (simp add: Let_def)
    have m: "?m < ?c" using "2.prems"(2) False by auto
    have new: "passed ?m ?c (pid, pgrp)" using "2.prems"(2) False unfolding passed_def by (cases "pid = m"; cases "pgrp = m") auto
    have "passed ?m ?c x" if "passed m c x" for x using that m by (auto simp: passed_def split: if_splits)
    then have "\<forall>x\<in>insert (pid, pgrp) X. passed ?m ?c x" using "2.prems"(3) new by blast
    from "2.IH"[OF False refl refl refl r m this] show ?thesis using "2.prems"(2) by (auto split: if_splits)
  qed
qed auto

lemma scan_used: "newpid_scan xs m c = (again, m1, c1) \<Longrightarrow> m \<le> y \<Longrightarrow> y < m1 \<Longrightarrow> y \<in> ids_of xs"
proof (induction xs m c rule: newpid_scan.induct)
  case (2 pid pgrp xs m c)
  show ?case
  proof (cases "(pid = m \<or> pgrp = m) \<and> m + 1 \<ge> c")
    case True
    then show ?thesis using 2 by auto
  next
    case False
    let ?m = "if pid = m \<or> pgrp = m then m + 1 else m"
    let ?c1 = "if pid > ?m \<and> c > pid then pid else c"
    let ?c = "if pgrp > ?m \<and> ?c1 > pgrp then pgrp else ?c1"
    have r: "newpid_scan xs ?m ?c = (again, m1, c1)" using "2.prems"(1) False by (simp add: Let_def)
    show ?thesis using "2.IH"[OF False refl refl refl r _ "2.prems"(3)] "2.prems"(2) by (cases "pid = m \<or> pgrp = m"; cases "y = m") auto
  qed
qed simp

text \<open>One round.\<close>

abbreviation wrap_pid :: "int \<Rightarrow> int \<Rightarrow> int \<times> int" where
  "wrap_pid m c \<equiv> (if m \<ge> 30000 then (100, 0) else (m, c))"

lemma newpid_eq:
  "newpid xs m0 c0 =
     (case wrap_pid m0 c0 of (m, c) \<Rightarrow>
        if m < c then Some (m, c)
        else case newpid_scan xs m 30000 of (again, m1, c1) \<Rightarrow> if again then newpid xs m1 c1 else Some (m1, c1))"
  by (subst newpid.simps) (simp add: Let_def)

lemma newpid_unused:
  assumes "newpid xs m0 c0 = Some r"
  shows "(\<forall>x\<in>set xs. fst x < m0 \<or> c0 \<le> fst x) \<Longrightarrow> 1 < m0 \<Longrightarrow> c0 \<le> 30000 \<Longrightarrow>
    (\<forall>x\<in>set xs. fst x < fst r \<or> snd r \<le> fst x \<or> fst x = fst r \<and> fst x = snd x + 1) \<and> 1 < fst r \<and> fst r < snd r \<and> snd r \<le> 30000"
proof (induction rule: newpid.raw_induct[OF _ assms])
  case (1 newpid' xs m0 c0 r)
  let ?m = "if m0 \<ge> 30000 then 100 else m0" and ?c = "if m0 \<ge> 30000 then 0 else c0"
  show ?case
  proof (cases "?m < ?c")
    case True
    then show ?thesis using 1 by (auto simp: Let_def split: if_splits)
  next
    case False
    obtain again m1 c1 where s: "newpid_scan xs ?m 30000 = (again, m1, c1)" by (metis prod_cases3)
    have "?m < 30000" by simp
    note sp = scan_spec[OF s this, of "{}"]
    show ?thesis
    proof (cases again)
      case True
      then have r: "newpid' xs m1 c1 = Some r" using 1(2) False s by (simp add: Let_def)
      have "m1 = c1" "1 < m1" "c1 \<le> 30000" using sp True 1(4) by (auto split: if_splits)
      then show ?thesis using 1(1)[OF r] by force
    next
      case again: False
      then have "r = (m1, c1)" using 1(2) False s by (simp add: Let_def)
      then show ?thesis using sp again 1(4) by (auto simp: passed_def split: if_splits)
    qed
  qed
qed

text \<open>It ends.\<close>

lemma newpid_ends_below:
  "y \<notin> ids_of xs \<Longrightarrow> m \<le> y \<Longrightarrow> y < 30000 \<Longrightarrow> \<exists>r. newpid xs m c = Some r"
proof (induction "nat (30000 - m)" arbitrary: m c rule: less_induct)
  case less
  obtain again m1 c1 where s: "newpid_scan xs m 30000 = (again, m1, c1)" by (metis prod_cases3)
  have "m < 30000" using less by simp
  note sp = scan_spec[OF s this, of "{}"]
  have "m1 \<le> y" using scan_used[OF s less.prems(2)] less.prems(1) by force
  then show ?case using less.hyps[of m1 c1] less.prems sp s by (subst newpid_eq) auto
qed

lemma newpid_ends:
  assumes y: "y \<notin> ids_of xs" "100 \<le> y" "y < 30000"
  shows "\<exists>r. newpid xs m c = Some r"
proof (induction "nat (30000 - m)" arbitrary: m c rule: less_induct)
  case less
  show ?case
  proof (cases "m \<ge> 30000")
    case True
    obtain again m1 c1 where s: "newpid_scan xs 100 30000 = (again, m1, c1)" by (metis prod_cases3)
    have "m1 \<le> y" using scan_used[OF s y(2)] y(1) by force
    then show ?thesis using newpid_ends_below[OF y(1) _ y(3), of m1 c1] s True by (subst newpid_eq) auto
  next
    case False
    obtain again m1 c1 where s: "newpid_scan xs m 30000 = (again, m1, c1)" by (metis prod_cases3)
    have "m < 30000" using False by simp
    note sp = scan_spec[OF s this, of "{}"]
    show ?thesis using less.hyps[of m1 c1] sp s False by (subst newpid_eq) auto
  qed
qed

lemma free_number:
  assumes "2 * length xs < 29900"
  shows "\<exists>y. y \<notin> ids_of xs \<and> 100 \<le> y \<and> y < (30000 :: int)"
proof (rule ccontr)
  assume "\<not> ?thesis"
  then have "{100..<30000} \<subseteq> ids_of xs" by auto
  moreover have "finite (ids_of xs)" by (simp add: ids_of_def)
  ultimately have "card {100..<30000 :: int} \<le> card (ids_of xs)" by (rule card_mono[rotated])
  moreover have "card (ids_of xs) \<le> card (fst ` set xs) + card (snd ` set xs)" unfolding ids_of_def by (rule card_Un_le)
  moreover have "card (fst ` set xs) \<le> length xs" "card (snd ` set xs) \<le> length xs" by (metis card_length length_map set_map)+
  ultimately show False using assms by simp
qed

end
