(* ===== verification/Proc_Props.thy ===== *)
theory Proc_Props
  imports Proc_Pid
begin

text \<open>
  The process table: what the kernel routines called by \<^verbatim>\<open>fork\<close>, \<^verbatim>\<open>exit\<close> and \<^verbatim>\<open>wait\<close> leave of it (\<open>same_tab\<close>), the invariant
  \<open>ptab_ok\<close>, and that every step keeps it.
\<close>

section \<open>What the scheduler and signals leave alone\<close>

definition live_stat :: "pstat \<Rightarrow> bool" where
  "live_stat st \<longleftrightarrow> st \<noteq> SNULL \<and> st \<noteq> SZOMB"

definition tview :: "proc \<Rightarrow> int \<times> int \<times> int \<times> nat \<times> bool \<times> bool" where
  "tview q = (p_pid q, p_ppid q, p_pgrp q, p_pptr q, p_stat q = SNULL, p_stat q = SZOMB)"

definition same_tab :: "ksched \<Rightarrow> ksched \<Rightarrow> bool" where
  "same_tab s s' \<longleftrightarrow> allproc s' = allproc s \<and> (\<forall>r. tview (procs s' r) = tview (procs s r))"

lemma same_tab_refl [simp]: "same_tab s s"
  by (simp add: same_tab_def)

lemma same_tab_trans: "same_tab s t \<Longrightarrow> same_tab t r \<Longrightarrow> same_tab s r"
  by (simp add: same_tab_def)

lemma same_tabD:
  assumes "same_tab s s'"
  shows "allproc s' = allproc s" "p_pid (procs s' r) = p_pid (procs s r)" "p_ppid (procs s' r) = p_ppid (procs s r)"
    "p_pptr (procs s' r) = p_pptr (procs s r)" "p_stat (procs s' r) = SZOMB \<longleftrightarrow> p_stat (procs s r) = SZOMB"
    "p_stat (procs s' r) = SNULL \<longleftrightarrow> p_stat (procs s r) = SNULL" "live_stat (p_stat (procs s' r)) = live_stat (p_stat (procs s r))"
    "p_pgrp (procs s' r) = p_pgrp (procs s r)"
  using assms by (auto simp: same_tab_def tview_def live_stat_def)

lemma same_tab_upd: "tview (f (procs s p)) = tview (procs s p) \<Longrightarrow> same_tab s (upd_proc p f s)"
  by (simp add: same_tab_def)

lemma same_tab_fields [simp]:
  "same_tab s (s\<lparr>runout := b\<rparr>) = True" "same_tab s (s\<lparr>runrun := n\<rparr>) = True" "same_tab s (setrq p s) = True"
  "same_tab s (s\<lparr>u_procp := p\<rparr>) = True"
  by (simp_all add: same_tab_def setrq_def)

lemma updatepri_tab: "same_tab s (updatepri p s)"
  by (simp add: same_tab_def tview_def updatepri_def setpri_def Let_def)

lemma wake_run_tab: "p_stat (procs s p) = SSLEEP \<Longrightarrow> same_tab s (wake_run p s)"
  using updatepri_tab[of s p] updatepri_frame[of p s] by (simp add: wake_run_def same_tab_def tview_def Let_def setrq_def pri_frame_def)

lemma wakeup_loop_tab: "wakeup_loop n chan i s = Some (Ok s') \<Longrightarrow> same_tab s s'"
proof (induction n arbitrary: chan i s s')
  case (Suc n)
  let ?p = "slpque s (HASH chan) ! i"
  let ?s1 = "upd_proc ?p (\<lambda>r. r\<lparr>p_wchan := 0\<rparr>) (s\<lparr>slpque := (slpque s)(HASH chan :=
     take i (slpque s (HASH chan)) @ drop (Suc i) (slpque s (HASH chan)))\<rparr>)"
  have s1: "same_tab s ?s1" by (simp add: same_tab_def tview_def)
  have s2: "same_tab s (wake_run ?p ?s1)" if "p_stat (procs s ?p) = SSLEEP"
    by (rule same_tab_trans[OF s1 wake_run_tab]) (simp add: that)
  then have s2': "same_tab s ((wake_run ?p ?s1)\<lparr>runout := False\<rparr>)" if "p_stat (procs s ?p) = SSLEEP"
    using that same_tab_trans by fastforce
  have s3: "same_tab s (upd_proc ?p (\<lambda>r. r\<lparr>p_slptime := 0\<rparr>) ?s1)" by (simp add: same_tab_def tview_def)
  have st: "p_stat (procs ?s1 ?p) = p_stat (procs s ?p)" by simp
  show ?case
    using Suc.prems Suc.IH same_tab_trans[OF s2] same_tab_trans[OF s2'] same_tab_trans[OF s3]
    by (auto simp: Let_def st simp del: upd_proc_simps split: if_splits option.splits outcome.splits)
      (blast intro: same_tab_trans)+
qed simp

lemma wakeup_tab: "wakeup chan s = Ok s' \<Longrightarrow> same_tab s s'"
  by (auto simp: wakeup_def split: option.splits dest: wakeup_loop_tab)

lemma unsleep_tab: "unsleep p s = Ok s' \<Longrightarrow> same_tab s s'"
  by (auto simp: unsleep_def same_tab_def tview_def Let_def split: if_splits)

lemma live_tview: "live_stat (p_stat q) \<Longrightarrow> live_stat (p_stat q') \<Longrightarrow> p_pid q' = p_pid q \<Longrightarrow> p_ppid q' = p_ppid q \<Longrightarrow>
    p_pgrp q' = p_pgrp q \<Longrightarrow> p_pptr q' = p_pptr q \<Longrightarrow> tview q' = tview q"
  by (auto simp: tview_def live_stat_def)

lemma live_stat_simps [simp]:
  "live_stat SRUN" "live_stat SSLEEP" "live_stat SSTOP" "live_stat SIDL" "\<not> live_stat SNULL" "\<not> live_stat SZOMB"
  by (simp_all add: live_stat_def)

lemma setrun_tab:
  assumes "setrun p s = Ok s'"
  shows "same_tab s s'"
proof -
  from assms obtain s1 where s1: "(case p_stat (procs s p) of
      SSTOP \<Rightarrow> unsleep p s | SSLEEP \<Rightarrow> unsleep p s | SIDL \<Rightarrow> Ok s | _ \<Rightarrow> Panic ''setrun'') = Ok s1"
    by (auto simp: setrun_def obind_Ok_iff)
  have a: "same_tab s s1" using s1 by (auto split: pstat.splits dest: unsleep_tab)
  have "live_stat (p_stat (procs s p))" using s1 by (auto split: pstat.splits)
  then have lv: "live_stat (p_stat (procs s1 p))" using same_tabD(7)[OF a] by simp
  define s2 where "s2 = (if p_slptime (procs s1 p) > 1 then updatepri p s1 else s1)"
  have b: "same_tab s1 s2" using updatepri_tab by (simp add: s2_def)
  define s4 where "s4 = (let s3 = upd_proc p (\<lambda>q. q\<lparr>p_stat := SRUN\<rparr>) s2 in
      if loaded (procs s3 p) then setrq p s3 else s3)"
  have "live_stat (p_stat (procs s2 p))" using same_tabD(7)[OF b] lv by simp
  then have "same_tab s2 (upd_proc p (\<lambda>q. q\<lparr>p_stat := SRUN\<rparr>) s2)" by (intro same_tab_upd live_tview) simp_all
  then have c: "same_tab s2 s4" by (auto simp: s4_def Let_def simp del: upd_proc_simps intro: same_tab_trans)
  define s5 where "s5 = (if p_pri (procs s4 p) < curpri s4 then s4\<lparr>runrun := runrun s4 + 1\<rparr> else s4)"
  have d: "same_tab s4 s5" by (simp add: s5_def)
  have e: "same_tab s s5" using a b c d same_tab_trans by blast
  have "(if \<not> loaded (procs s5 p) \<and> runout s5 then wakeup RUNOUT (s5\<lparr>runout := False\<rparr>) else Ok s5) = Ok s'"
    using assms[unfolded setrun_def s1 obind.simps Let_def] unfolding s5_def s4_def s2_def Let_def .
  then show ?thesis using e wakeup_tab same_tab_trans same_tab_fields(1) by (metis outcome.inject(1))
qed

lemma stop_tab: "stop p s = Ok s' \<Longrightarrow> live_stat (p_stat (procs s p)) \<Longrightarrow> same_tab s s'"
proof -
  assume a: "stop p s = Ok s'" "live_stat (p_stat (procs s p))"
  let ?s = "upd_proc p (\<lambda>q. q\<lparr>p_stat := SSTOP, p_flag := p_flag q AND NOT P_WAITED\<rparr>) s"
  have "same_tab s ?s" by (rule same_tab_upd, rule live_tview) (use a in simp_all)
  then show "same_tab s s'" using a(1) wakeup_tab same_tab_trans unfolding stop_def by blast
qed

lemma post_frame_tab: "post_frame p s s' \<Longrightarrow> same_tab s s'"
  unfolding post_frame_def by (elim exE, simp only:, rule same_tab_upd, simp add: tview_def)

lemma psig_clear_tab: "same_tab s (psig_clear p m s)"
  unfolding psig_clear_def by (rule same_tab_upd) (simp add: tview_def)

lemma psig_run_tab: "psig_run p s = Ok s' \<Longrightarrow> same_tab s s'"
proof -
  assume a: "psig_run p s = Ok s'"
  let ?s = "if p_pri (procs s p) > PUSER then upd_proc p (\<lambda>q. q\<lparr>p_pri := PUSER\<rparr>) s else s"
  have "same_tab s ?s" by (simp add: same_tab_def tview_def)
  then show "same_tab s s'" using setrun_tab a same_tab_trans unfolding psig_run_def by blast
qed

lemma psig_sleeping_tab:
  assumes "psig_sleeping notify a p sig s = Ok s'" "\<And>r t t'. notify r t = Ok t' \<Longrightarrow> same_tab t t'" and lv: "live_stat (p_stat (procs s p))"
  shows "same_tab s s'"
proof -
  let ?s1 = "upd_proc p (\<lambda>q. q\<lparr>p_ptracesig := int sig\<rparr>) (psig_clear p (sigmask sig) s)"
  have s1: "same_tab s ?s1" by (rule same_tab_trans[OF psig_clear_tab same_tab_upd]) (simp add: tview_def)
  have st: "same_tab s t" if "obind (if b then notify r ?s1 else Ok ?s1) (stop p) = Ok t" for b r t
  proof -
    from that obtain u where u: "(if b then notify r ?s1 else Ok ?s1) = Ok u" "stop p u = Ok t" by (auto simp: obind_Ok_iff simp del: upd_proc_simps)
    have su: "same_tab s u"
    proof (cases b)
      case True
      then show ?thesis using u(1) assms(2) same_tab_trans[OF s1] by simp
    next
      case False
      then show ?thesis using u(1) s1 by simp
    qed
    then have "live_stat (p_stat (procs u p))" using same_tabD(7) lv by simp
    then show ?thesis using su stop_tab[OF u(2)] same_tab_trans by blast
  qed
  show ?thesis
    using assms(1) st psig_run_tab psig_clear_tab unfolding psig_sleeping_def Let_def
    by (auto simp del: upd_proc_simps split: if_splits)
qed

lemma psig_stopped_tab:
  assumes "psig_stopped a p sig s = Ok s'" and lv: "live_stat (p_stat (procs s p))"
  shows "same_tab s s'"
proof -
  let ?s1 = "if a = A_DFL then psig_clear p (sigmask sig) s else s"
  have s1: "same_tab s ?s1" using psig_clear_tab by simp
  have run1: "same_tab s t" if "psig_run p ?s1 = Ok t" for t using same_tab_trans[OF s1 psig_run_tab[OF that]] .
  have "live_stat (p_stat (procs ?s1 p))" using same_tabD(7)[OF s1] lv by simp
  then have sl: "same_tab s (upd_proc p (\<lambda>q. q\<lparr>p_stat := SSLEEP\<rparr>) ?s1)"
    by (intro same_tab_trans[OF s1 same_tab_upd] live_tview) simp_all
  show ?thesis
    using assms(1) psig_run_tab run1 sl unsleep_tab psig_clear_tab unfolding psig_stopped_def Let_def
    by (auto simp del: upd_proc_simps split del: if_split split: if_splits)
qed

lemma psignal_with_tab:
  assumes "psignal_with notify p sig s = Ok s'" "\<And>r t t'. notify r t = Ok t' \<Longrightarrow> same_tab t t'"
  shows "same_tab s s'"
proof -
  obtain b s1 where p: "psig_post p sig s = (b, s1)" by fastforce
  have fr: "same_tab s s1" by (rule post_frame_tab[OF psig_post_frame[OF p]])
  have st: "p_stat (procs s1 p) = p_stat (procs s p)" using post_frameD(1)[OF psig_post_frame[OF p]] .
  have "same_tab s t" if "psig_sleeping notify a p sig s1 = Ok t \<or> psig_stopped a p sig s1 = Ok t" "p_stat (procs s p) \<in> {SSLEEP, SSTOP}" for a t
    using that psig_stopped_tab[of a p sig s1 t] psig_sleeping_tab[of notify a p sig s1 t] assms(2) fr same_tab_trans[OF fr] st by auto
  then show ?thesis
    using assms(1) fr unfolding psignal_with_def Let_def p
    by (auto split: bool.splits pstat.splits if_splits)
qed

lemma psignal_tab: "psignal p sig s = Ok s' \<Longrightarrow> same_tab s s'"
  unfolding psignal_def by (rule psignal_with_tab) (auto elim: psignal_with_tab)

lemma tsleep_enter_tab:
  assumes "tsleep_enter (\<lambda>p k. (0, k)) ident pri catch timo s = Ok (b, sig, c, s')" "live_stat (p_stat (procs s (u_procp s)))"
  shows "same_tab s s'"
  using assms by (auto simp: tsleep_enter_def Let_def same_tab_def tview_def live_stat_def split: if_splits)

lemma sleeps_tab:
  assumes "tsleep_enter cs ident pri False timo s = Ok (b, sig, c, s')" "live_stat (p_stat (procs s (u_procp s)))"
  shows "same_tab s s'"
  using assms by (auto simp: tsleep_enter_def Let_def same_tab_def tview_def live_stat_def split: if_splits)

lemma tsleep_resume_tab: "same_tab s (snd (tsleep_resume (\<lambda>p k. (0, k)) 0 True 0 s))"
  by (auto simp: tsleep_resume_def Let_def same_tab_def tview_def)

lemma endtsleep_tab: "endtsleep p s = Ok s' \<Longrightarrow> same_tab s s'"
proof -
  assume a: "endtsleep p s = Ok s'"
  show "same_tab s s'"
  proof (cases "p_wchan (procs s p) = 0")
    case False
    then obtain s1 where s1: "(if p_stat (procs s p) = SSLEEP then setrun p s else unsleep p s) = Ok s1" "s' = upd_proc p (\<lambda>q. q\<lparr>p_flag := p_flag q OR P_TIMEOUT\<rparr>) s1"
      using a by (auto simp: endtsleep_def obind_Ok_iff)
    have "same_tab s s1" using s1(1) setrun_tab unsleep_tab by (auto split: if_splits)
    moreover have "same_tab s1 s'" unfolding s1(2) by (rule same_tab_upd) (simp add: tview_def)
    ultimately show ?thesis by (rule same_tab_trans)
  qed (use a in \<open>simp add: endtsleep_def\<close>)
qed

lemma swtch_tab: "swtch s = (r, s') \<Longrightarrow> same_tab s s'"
  by (auto simp: swtch_def Let_def same_tab_def tview_def split: option.splits if_splits)

lemma sched_step_tab:
  assumes "sched_step s s'" "live_stat (p_stat (procs s (u_procp s)))"
  shows "same_tab s s'"
  using assms
proof (cases rule: sched_step.cases)
  case (sleeps ident cs pri timo)
  then show ?thesis using sleeps_tab assms(2) by blast
next
  case (preempts r)
  then have "same_tab s (setrq (u_procp s) s)" "same_tab (setrq (u_procp s) s) s'" using swtch_tab by auto
  then show ?thesis by (rule same_tab_trans)
qed (auto intro: wakeup_tab setrun_tab endtsleep_tab swtch_tab)

section \<open>The process table\<close>

abbreviation slots :: "kproc \<Rightarrow> nat set" where
  "slots s \<equiv> set (allproc (K s)) \<union> set (zombproc s)"

definition lists_ok :: "nat \<Rightarrow> kproc \<Rightarrow> bool" where
  "lists_ok n s \<longleftrightarrow> distinct (allproc (K s) @ zombproc s @ freeproc s) \<and> set (allproc (K s) @ zombproc s @ freeproc s) = {0..<n} \<and>
     (\<forall>p\<in>set (allproc (K s)). live_stat (p_stat (prc s p))) \<and> (\<forall>p\<in>set (zombproc s). p_stat (prc s p) = SZOMB) \<and>
     (\<forall>p. p \<notin> slots s \<longrightarrow> p_stat (prc s p) = SNULL)"

definition pids_ok :: "kproc \<Rightarrow> bool" where
  "pids_ok s \<longleftrightarrow> (\<forall>p\<in>slots s. 0 \<le> p_pid (prc s p) \<and> p_pid (prc s p) < 30000 \<and> (p_pid (prc s p) \<le> mpid s \<or> pidchecked s \<le> p_pid (prc s p)) \<and>
       (1 < p \<longrightarrow> 1 < p_pid (prc s p))) \<and>
     {0, 1} \<subseteq> set (allproc (K s)) \<and> p_pid (prc s 0) = 0 \<and> p_pid (prc s 1) = 1 \<and> 0 < mpid s \<and> mpid s < 30000 \<and> pidchecked s \<le> 30000"

definition hash_exact :: "kproc \<Rightarrow> bool" where
  "hash_exact s \<longleftrightarrow> (\<forall>h. distinct (pidhash (sg s) h) \<and>
     set (pidhash (sg s) h) = {p \<in> set (allproc (K s)). p \<noteq> 0 \<and> PIDHASH (p_pid (prc s p)) = h})"

definition tree_ok :: "kproc \<Rightarrow> bool" where
  "tree_ok s \<longleftrightarrow> (\<forall>p\<in>slots s. p \<noteq> 0 \<longrightarrow> p_pptr (prc s p) \<in> set (allproc (K s)) \<and> p_ppid (prc s p) = p_pid (prc s (p_pptr (prc s p)))) \<and>
     p_pptr (prc s 1) = 0 \<and> p_pptr (prc s 0) = 0 \<and> p_ppid (prc s 0) = 0 \<and> (\<exists>d :: nat \<Rightarrow> nat. \<forall>p\<in>slots s. p \<noteq> 0 \<longrightarrow> d (p_pptr (prc s p)) < d p)"

definition ptab_ok :: "nat \<Rightarrow> kproc \<Rightarrow> bool" where
  "ptab_ok n s \<longleftrightarrow> lists_ok n s \<and> pids_ok s \<and> hash_exact s \<and> tree_ok s"

text \<open>What it depends on.\<close>

definition same_ptab :: "kproc \<Rightarrow> kproc \<Rightarrow> bool" where
  "same_ptab s s' \<longleftrightarrow> same_tab (K s) (K s') \<and> zombproc s' = zombproc s \<and> freeproc s' = freeproc s \<and> pidhash (sg s') = pidhash (sg s) \<and>
     mpid s' = mpid s \<and> pidchecked s' = pidchecked s"

lemma same_ptab_refl [simp]: "same_ptab s s"
  by (simp add: same_ptab_def)

lemma same_ptab_trans: "same_ptab s t \<Longrightarrow> same_ptab t r \<Longrightarrow> same_ptab s r"
  using same_tab_trans by (simp add: same_ptab_def) blast

lemma table_ok_cong:
  assumes "ptab_ok n s" "allproc (K s') = allproc (K s)" "zombproc s' = zombproc s" "freeproc s' = freeproc s" "pidhash (sg s') = pidhash (sg s)"
    "mpid s' = mpid s" "pidchecked s' = pidchecked s"
    and p: "\<And>p. p_pid (prc s' p) = p_pid (prc s p)" "\<And>p. p_ppid (prc s' p) = p_ppid (prc s p)" "\<And>p. p_pptr (prc s' p) = p_pptr (prc s p)"
      "\<And>p. p_stat (prc s' p) = SNULL \<longleftrightarrow> p_stat (prc s p) = SNULL" "\<And>p. p_stat (prc s' p) = SZOMB \<longleftrightarrow> p_stat (prc s p) = SZOMB"
  shows "ptab_ok n s'"
  using assms(1) unfolding ptab_ok_def lists_ok_def pids_ok_def hash_exact_def tree_ok_def live_stat_def assms(2-7) p .

lemma table_ok_same: "ptab_ok n s \<Longrightarrow> same_ptab s s' \<Longrightarrow> ptab_ok n s'"
  by (erule table_ok_cong) (simp_all add: same_ptab_def same_tabD)

lemma setK_sel [simp]:
  "K (setK s k) = k" "zombproc (setK s k) = zombproc s" "freeproc (setK s k) = freeproc s" "pidhash (sg (setK s k)) = pidhash (sg s)"
  "mpid (setK s k) = mpid s" "pidchecked (setK s k) = pidchecked s" "p_xstat (setK s k) = p_xstat s" "p_ru (setK s k) = p_ru s" "pm (setK s k) = pm s"
  "ua (setK s k) = ua s" "dsc (setK s k) = dsc s" "cont (setK s k) = cont s"
  by (simp_all add: setK_def)

lemma updp_sel [simp]:
  "K (updp p f s) = upd_proc p f (K s)" "zombproc (updp p f s) = zombproc s" "freeproc (updp p f s) = freeproc s" "pidhash (sg (updp p f s)) = pidhash (sg s)"
  "mpid (updp p f s) = mpid s" "pidchecked (updp p f s) = pidchecked s" "p_xstat (updp p f s) = p_xstat s" "p_ru (updp p f s) = p_ru s" "pm (updp p f s) = pm s"
  "ua (updp p f s) = ua s" "dsc (updp p f s) = dsc s" "cont (updp p f s) = cont s"
  by (simp_all add: updp_def)

lemma upd_sel [simp]:
  "sg (updm p g s) = sg s" "zombproc (updm p g s) = zombproc s" "freeproc (updm p g s) = freeproc s" "mpid (updm p g s) = mpid s" "pidchecked (updm p g s) = pidchecked s"
  "cont (updm p g s) = cont s" "ua (updm p g s) = ua s" "dsc (updm p g s) = dsc s" "pm (updm p g s) = (pm s)(p := g (pm s p))"
  "sg (updu p h s) = sg s" "zombproc (updu p h s) = zombproc s" "freeproc (updu p h s) = freeproc s" "mpid (updu p h s) = mpid s" "pidchecked (updu p h s) = pidchecked s"
  "cont (updu p h s) = cont s" "pm (updu p h s) = pm s" "dsc (updu p h s) = dsc s" "ua (updu p h s) = (ua s)(p := h (ua s p))"
  "sg (goes p c s) = sg s" "zombproc (goes p c s) = zombproc s" "freeproc (goes p c s) = freeproc s" "mpid (goes p c s) = mpid s" "pidchecked (goes p c s) = pidchecked s"
  "pm (goes p c s) = pm s" "dsc (goes p c s) = dsc s" "ua (goes p c s) = ua s" "cont (goes p c s) = (cont s)(p := c)"
  by (simp_all add: updm_def updu_def goes_def)

lemma same_ptab_simple [simp]:
  "same_ptab s (updm p g s)" "same_ptab s (updu p h s)" "same_ptab s (goes p c s)" "same_ptab s (s\<lparr>dsc := d\<rparr>)"
  by (simp_all add: same_ptab_def)

lemma same_ptab_updp: "tview (f (prc s p)) = tview (prc s p) \<Longrightarrow> same_ptab s (updp p f s)"
  by (simp add: same_ptab_def same_tab_upd)

lemma same_ptab_setK: "same_tab (K s) k \<Longrightarrow> same_ptab s (setK s k)"
  by (simp add: same_ptab_def)

lemma same_ptab_onK:
  assumes "onK f s = Ok s'" "\<And>k k'. f k = Ok k' \<Longrightarrow> same_tab k k'"
  shows "same_ptab s s'"
  using assms(1,2) same_ptab_setK by (cases "f (K s)") (auto simp: onK_def)

lemma tview_flag [simp]:
  "tview (q\<lparr>p_flag := f\<rparr>) = tview q" "tview (q\<lparr>p_flag := f, p_time := t\<rparr>) = tview q"
  "tview (q\<lparr>p_flag := f, p_sigignore := i, p_sig := j\<rparr>) = tview q"
  by (simp_all add: tview_def)

lemma psleep_tab:
  assumes "psleep catch pri chan s = Ok s'" "live_stat (p_stat (prc s (curp s)))"
  shows "same_ptab s s'"
proof -
  obtain b sig c k where "tsleep_enter (\<lambda>p k. (0, k)) chan pri catch 0 (K s) = Ok (b, sig, c, k)" "s' = setK s k"
    using assms(1) by (cases "tsleep_enter (\<lambda>p k. (0, k)) chan pri catch 0 (K s)") (auto simp: psleep_def onK_def)
  then show ?thesis using tsleep_enter_tab assms(2) same_ptab_setK by blast
qed

lemma wait_resume_tab: "same_ptab s (wait_resume s)"
  unfolding wait_resume_def by (rule same_ptab_setK[OF tsleep_resume_tab])

lemma endvfork_start_tab: "endvfork_start p s = Ok s' \<Longrightarrow> same_ptab s s'"
  unfolding endvfork_start_def by (rule same_ptab_trans[OF same_ptab_updp same_ptab_onK[OF _ wakeup_tab]]) simp_all

lemma endvfork_finish_tab: "same_ptab s (endvfork_finish p s)"
  unfolding endvfork_finish_def by (rule same_ptab_trans[OF same_ptab_simple(1) same_ptab_updp]) simp

lemma same_ptab_wakeup: "same_ptab s t \<Longrightarrow> onK (wakeup chan) t = Ok u \<Longrightarrow> same_ptab s u"
  by (rule same_ptab_trans) (auto intro: same_ptab_onK wakeup_tab)

lemma same_ptab_psignal: "same_ptab s t \<Longrightarrow> onK (psignal p sig) t = Ok u \<Longrightarrow> same_ptab s u"
  by (rule same_ptab_trans) (auto intro: same_ptab_onK psignal_tab)

lemma same_ptab_intros:
  "same_ptab s t \<Longrightarrow> same_ptab s (updm p g t)" "same_ptab s t \<Longrightarrow> same_ptab s (updu p h t)" "same_ptab s t \<Longrightarrow> same_ptab s (goes p c t)"
  "same_ptab s t \<Longrightarrow> same_ptab s (t\<lparr>dsc := d\<rparr>)" "same_ptab s t \<Longrightarrow> same_ptab s (t\<lparr>p_xstat := x, p_ru := r\<rparr>)"
  "same_ptab s t \<Longrightarrow> tview (f (prc t p)) = tview (prc t p) \<Longrightarrow> same_ptab s (updp p f t)"
  by (simp_all add: same_ptab_def updm_def updu_def goes_def) (elim conjE, erule same_tab_trans, erule same_tab_upd)

lemma vfork_done_tab:
  assumes "vfork_done rip rpp s = Ok s'"
  shows "same_ptab s s'"
proof -
  obtain f u where u: "onK (wakeup (procaddr rip)) (updp rpp (\<lambda>q. q\<lparr>p_flag := p_flag q OR SVFDONE\<rparr>)
      (updm rpp (\<lambda>q. q\<lparr>p_dsize := 0, p_ssize := 0, p_textp := 0\<rparr>) (updm rip f s))) = Ok u"
    "s' = goes rip User (updp rip (\<lambda>q. q\<lparr>p_flag := p_flag q AND NOT SVFPRNT\<rparr>) u)"
  proof -
    have "loaded (prc s rpp)" using assms by (auto simp: vfork_done_def split: if_splits)
    then show ?thesis using that assms by (auto simp: vfork_done_def Let_def obind_Ok_iff simp del: upd_sel updp_sel)
  qed
  have "same_ptab s u" by (rule same_ptab_wakeup[OF _ u(1)]) (intro same_ptab_intros same_ptab_refl tview_flag)
  then show ?thesis unfolding u(2) by (intro same_ptab_intros tview_flag)
qed

end
