(* ===== verification/Proc_Inv.thy ===== *)
theory Proc_Inv
  imports Proc_Props
begin

text \<open>Every step of the system keeps the process table well formed.\<close>

section \<open>fork\<close>

lemma newproc_entry_sel:
  "allproc (K (newproc_entry rip rpp pid c v s)) = rpp # allproc (K s)" "zombproc (newproc_entry rip rpp pid c v s) = zombproc s"
  "freeproc (newproc_entry rip rpp pid c v s) = tl (freeproc s)" "mpid (newproc_entry rip rpp pid c v s) = pid" "pidchecked (newproc_entry rip rpp pid c v s) = c"
  "pidhash (sg (newproc_entry rip rpp pid c v s)) = (pidhash (sg s))(PIDHASH pid := rpp # pidhash (sg s) (PIDHASH pid))"
  "prc (newproc_entry rip rpp pid c v s) p = (if p = rpp then child_proc (prc s rip) rip pid (prc s rpp) else prc s p)"
  "curp (newproc_entry rip rpp pid c v s) = curp s"
  by (simp_all add: newproc_entry_def Let_def)

lemma pids_cache:
  assumes "pids_ok s"
  shows "\<forall>x\<in>set (pids s). fst x < mpid s + 1 \<or> pidchecked s \<le> fst x"
  using assms by (auto simp: pids_ok_def pids_def)

lemma entry_ok:
  assumes ok: "ptab_ok n s" and rip: "rip \<in> set (allproc (K s))" and f: "freeproc s = rpp # rest"
    and np: "newpid (pids s) (mpid s + 1) (pidchecked s) = Some (pid, c)"
  shows "ptab_ok n (newproc_entry rip rpp pid c v s)"
proof -
  let ?s = "newproc_entry rip rpp pid c v s"
  have l: "lists_ok n s" and p: "pids_ok s" and h: "hash_exact s" and t: "tree_ok s" using ok by (simp_all add: ptab_ok_def)
  have new: "rpp \<notin> slots s" "rpp \<notin> set rest" "rip \<noteq> rpp" using l rip f by (auto simp: lists_ok_def)
  have pr: "prc ?s q = prc s q" if "q \<in> slots s" for q using that new by (auto simp: newproc_entry_sel)
  have b: "1 < mpid s + 1" "pidchecked s \<le> 30000" using p by (simp_all add: pids_ok_def)
  note u = newpid_unused[OF np pids_cache[OF p] b]
  have pid: "1 < pid" "pid < c" "c \<le> 30000" "q \<in> slots s \<Longrightarrow> p_pid (prc s q) \<le> pid \<or> c \<le> p_pid (prc s q)" for q
  proof -
    have "\<forall>x\<in>set (pids s). fst x \<le> pid \<or> c \<le> fst x" using u by force
    then show "q \<in> slots s \<Longrightarrow> p_pid (prc s q) \<le> pid \<or> c \<le> p_pid (prc s q)" by (auto simp: pids_def ball_Un)
  qed (use u in simp_all)
  have r: "prc ?s rpp = child_proc (prc s rip) rip pid (prc s rpp)" by (simp add: newproc_entry_sel)
  have "lists_ok n ?s" using l f by (auto simp: lists_ok_def newproc_entry_sel child_proc_def)
  moreover have "pids_ok ?s"
    using p pid new(1) by (auto simp: pids_ok_def newproc_entry_sel child_proc_def)
  moreover have "hash_exact ?s"
  proof -
    have "rpp \<noteq> 0" using p new(1) by (auto simp: pids_ok_def)
    then show ?thesis using h new(1) by (auto simp: hash_exact_def newproc_entry_sel child_proc_def)
  qed
  moreover have "tree_ok ?s"
  proof -
    obtain d :: "nat \<Rightarrow> nat" where d: "\<forall>p\<in>slots s. p \<noteq> 0 \<longrightarrow> d (p_pptr (prc s p)) < d p" using t by (auto simp: tree_ok_def)
    have up: "q \<in> slots s \<Longrightarrow> q \<noteq> 0 \<Longrightarrow> p_pptr (prc s q) \<in> set (allproc (K s)) \<and> p_ppid (prc s q) = p_pid (prc s (p_pptr (prc s q)))" for q
      using t by (auto simp: tree_ok_def)
    have i: "{0, 1} \<subseteq> set (allproc (K s))" using p by (simp add: pids_ok_def)
    have sl: "slots ?s = insert rpp (slots s)" by (simp add: newproc_entry_sel)
    have c: "p_pptr (prc ?s rpp) = rip" "p_ppid (prc ?s rpp) = p_pid (prc s rip)" by (simp_all add: r child_proc_def)
    let ?d = "d(rpp := Suc (d rip))"
    have "?d (p_pptr (prc ?s q)) < ?d q" if "q \<in> slots ?s" "q \<noteq> 0" for q
    proof (cases "q = rpp")
      case True
      then show ?thesis using c new(3) by simp
    next
      case False
      then have q: "q \<in> slots s" using that(1) sl by simp
      then have "p_pptr (prc s q) \<noteq> rpp" using up[OF q that(2)] new(1) by auto
      then show ?thesis using d q that(2) False pr[OF q] by simp
    qed
    moreover have "p_pptr (prc ?s q) \<in> set (allproc (K ?s)) \<and> p_ppid (prc ?s q) = p_pid (prc ?s (p_pptr (prc ?s q)))" if "q \<in> slots ?s" "q \<noteq> 0" for q
    proof (cases "q = rpp")
      case True
      then show ?thesis using c rip pr[of rip] by (simp add: newproc_entry_sel(1))
    next
      case False
      then have q: "q \<in> slots s" using that(1) sl by simp
      then show ?thesis using up[OF q that(2)] pr[OF q] pr[of "p_pptr (prc s q)"] by (auto simp: newproc_entry_sel(1))
    qed
    moreover have "p_pptr (prc ?s 1) = 0" "p_pptr (prc ?s 0) = 0" "p_ppid (prc ?s 0) = 0" using t i pr[of 0] pr[of 1] by (auto simp: tree_ok_def)
    ultimately show ?thesis unfolding tree_ok_def by blast
  qed
  ultimately show ?thesis by (simp add: ptab_ok_def)
qed

lemma same_ptab_live: "same_ptab s s' \<Longrightarrow> live_stat (p_stat (prc s' p)) = live_stat (p_stat (prc s p))"
  by (simp add: same_ptab_def same_tabD(7))

lemma same_ptab_lists: "same_ptab s s' \<Longrightarrow> allproc (K s') = allproc (K s) \<and> zombproc s' = zombproc s"
  by (simp add: same_ptab_def same_tabD(1))

lemma swapout_image_tab: "swapout_image p s = Ok s' \<Longrightarrow> same_ptab s s'"
proof -
  assume a: "swapout_image p s = Ok s'"
  let ?s1 = "updp p (\<lambda>q. q\<lparr>p_flag := p_flag q AND NOT (SLOAD OR SLOCK), p_time := 0\<rparr>) s"
  have s1: "same_ptab s ?s1" by (rule same_ptab_updp) (rule tview_flag)
  then have "same_ptab s (setK ?s1 ((K ?s1)\<lparr>runout := False\<rparr>))" by (rule same_ptab_trans) (simp add: same_ptab_def)
  then show "same_ptab s s'" using a s1 same_ptab_wakeup unfolding swapout_image_def Let_def
    by (auto simp del: updp_sel split: if_splits)
qed

lemma newproc_image_tab:
  assumes "newproc_image rip rpp pl v s = Ok s'" "live_stat (p_stat (prc s rpp))"
  shows "same_ptab s s'"
proof -
  have sr: "same_ptab s (updp rpp (\<lambda>q. q\<lparr>p_stat := SRUN\<rparr>) t)" if a: "same_ptab s t" for t
  proof -
    have "live_stat (p_stat (prc t rpp))" using assms(2) same_ptab_live[OF a] by blast
    then have "tview ((prc t rpp)\<lparr>p_stat := SRUN\<rparr>) = tview (prc t rpp)" by (intro live_tview) simp_all
    then show ?thesis by (rule same_ptab_intros(6)[OF a])
  qed
  have base: "same_ptab s (updm rpp f (updu rpp g s))" for f g by (intro same_ptab_intros same_ptab_refl)
  show ?thesis
  proof (cases pl)
    case (InCore a0 a1 a2)
    let ?t = "updp rpp (\<lambda>q. q\<lparr>p_stat := SRUN\<rparr>) (updm rpp (\<lambda>m. if v then m\<lparr>p_addr := a2\<rparr> else m\<lparr>p_daddr := a0, p_saddr := a1, p_addr := a2\<rparr>)
        (updm rpp (\<lambda>m. (pm s rip)\<lparr>p_addr := p_addr m, p_textp := p_textp m\<rparr>) (updu rpp (\<lambda>u. ua s rip) s)))"
    have t: "s' = setK ?t (setrq rpp (K ?t))" using assms(1) InCore by (simp add: newproc_image_def Let_def del: updp_sel upd_sel)
    have "same_ptab s ?t" by (rule sr[OF same_ptab_intros(1)[OF base]])
    then show ?thesis unfolding t by (rule same_ptab_trans[OF _ same_ptab_setK]) (rule same_tab_fields(3)[THEN iffD2, OF TrueI])
  next
    case (OnSwap a0 a1 a2)
    let ?t = "updp rpp (\<lambda>q. q\<lparr>p_stat := SRUN\<rparr>) (updm rpp (\<lambda>m. (pm s rip)\<lparr>p_addr := p_addr m, p_textp := p_textp m\<rparr>) (updu rpp (\<lambda>u. ua s rip) s))"
    obtain u where u: "swapout_image rpp ?t = Ok u" "s' = updm rpp (\<lambda>m. m\<lparr>p_daddr := a0, p_saddr := a1, p_addr := a2\<rparr>) u"
      using assms(1) OnSwap unfolding newproc_image_def Let_def by (auto simp del: updp_sel upd_sel simp: obind_Ok_iff)
    have "same_ptab s u" by (rule same_ptab_trans[OF sr[OF base] swapout_image_tab[OF u(1)]])
    then show ?thesis unfolding u(2) by (rule same_ptab_intros(1))
  qed (use assms(1) in \<open>simp add: newproc_image_def Let_def\<close>)
qed

lemma newprocE:
  assumes "newproc v pl s = Ok (c, s')"
  obtains pid checked rest s1 where "newpid (pids s) (mpid s + 1) (pidchecked s) = Some (pid, checked)" "freeproc s = c # rest"
    "newproc_image (curp s) c pl v (newproc_entry (curp s) c pid checked v s) = Ok s1" "same_ptab s1 s'"
    "p_pid (prc s' c) = p_pid (prc s1 c)"
proof -
  obtain pid checked where n: "newpid (pids s) (mpid s + 1) (pidchecked s) = Some (pid, checked)"
    using assms unfolding newproc_def Let_def by (auto split: option.splits)
  obtain d rest where f: "freeproc s = d # rest" using assms n unfolding newproc_def Let_def by (auto split: list.splits)
  obtain s1 where s1: "newproc_image (curp s) d pl v (newproc_entry (curp s) d pid checked v s) = Ok s1"
    using assms n f unfolding newproc_def Let_def by (auto simp: obind_Ok_iff)
  let ?s2 = "updp d (\<lambda>q. q\<lparr>p_flag := p_flag q OR SSWAP\<rparr>) s1"
  have s': "d = c" "s' = (if v then goes (curp s) (Vforked d)
      (updp (curp s) (\<lambda>q. q\<lparr>p_flag := p_flag q OR SVFPRNT\<rparr>) (updp d (\<lambda>q. q\<lparr>p_flag := p_flag q OR SVFORK\<rparr>)
      (updm (curp s) (\<lambda>m. m\<lparr>p_dsize := 0, p_ssize := 0, p_textp := 0\<rparr>) ?s2))) else ?s2)"
    using assms n f s1 unfolding newproc_def Let_def by (simp_all del: updp_sel upd_sel)
  have s2: "same_ptab s1 ?s2" by (rule same_ptab_updp) simp
  have tb: "same_ptab s1 s'" unfolding s'(2) by (auto simp del: updp_sel upd_sel intro!: same_ptab_intros s2)
  show ?thesis using that[OF n _ _ tb] tb f s1 s'(1) same_tabD(2)[of "K s1" "K s'"] by (auto simp: same_ptab_def)
qed

lemma newproc_ok:
  assumes "newproc v pl s = Ok (c, s')" "ptab_ok n s" "curp s \<in> set (allproc (K s))"
  shows "ptab_ok n s'"
proof -
  from newprocE[OF assms(1)] obtain pid checked rest s1 where n: "newpid (pids s) (mpid s + 1) (pidchecked s) = Some (pid, checked)" "freeproc s = c # rest"
    "newproc_image (curp s) c pl v (newproc_entry (curp s) c pid checked v s) = Ok s1" "same_ptab s1 s'" by metis
  have "live_stat (p_stat (prc (newproc_entry (curp s) c pid checked v s) c))" by (simp add: newproc_entry_sel child_proc_def)
  note im = newproc_image_tab[OF n(3) this]
  show ?thesis by (rule table_ok_same[OF table_ok_same[OF entry_ok[OF assms(2,3) n(2,1)] im] n(4)])
qed

lemma fork1_ok:
  assumes "fork1 v pl s = Ok (r, s')" "ptab_ok n s" "curp s \<in> set (allproc (K s))"
  shows "ptab_ok n s'"
proof -
  consider "s' = s" | c s1 where "newproc v pl s = Ok (c, s1)" "s' = goes c User (updu c (\<lambda>u. u\<lparr>u_ru := ruzero, u_cru := ruzero\<rparr>) s1)"
    using assms(1) unfolding fork1_def Let_def omap_def
    by (auto simp: obind_Ok_iff simp del: updp_sel upd_sel split: list.splits if_splits)
  then show ?thesis
  proof cases
    case 2
    have "same_ptab s1 s'" unfolding 2(2) by (intro same_ptab_intros same_ptab_refl)
    then show ?thesis using table_ok_same[OF newproc_ok[OF 2(1) assms(2,3)]] by blast
  qed (use assms in simp)
qed

section \<open>exit\<close>

definition reparent :: "nat \<Rightarrow> nat set \<Rightarrow> ksched \<Rightarrow> ksched" where
  "reparent p Q k = k\<lparr>procs := (\<lambda>q. if q \<in> Q \<and> p_pptr (procs k q) = p then (procs k q)\<lparr>p_pptr := 1, p_ppid := 1\<rparr> else procs k q)\<rparr>"

lemma orphan_tab:
  assumes "orphan q s = Ok s'"
  shows "same_ptab (updp q (\<lambda>r. r\<lparr>p_pptr := 1, p_ppid := 1\<rparr>) s) s'"
proof -
  let ?s1 = "updp q (\<lambda>r. r\<lparr>p_pptr := 1, p_ppid := 1\<rparr>) s"
  obtain s2 where s2: "onK (wakeup (procaddr 1)) ?s1 = Ok s2" using assms by (auto simp: orphan_def Let_def obind_Ok_iff simp del: updp_sel)
  have t2: "same_ptab ?s1 s2" by (rule same_ptab_wakeup[OF same_ptab_refl s2])
  have t3: "same_ptab ?s1 (updp q (\<lambda>r. r\<lparr>p_flag := p_flag r AND NOT P_TRACED\<rparr>) s2)" by (rule same_ptab_intros(6)[OF t2]) simp
  consider "onK (psignal q SIGKILL) (updp q (\<lambda>r. r\<lparr>p_flag := p_flag r AND NOT P_TRACED\<rparr>) s2) = Ok s'"
    | u where "onK (psignal q 1) s2 = Ok u" "onK (psignal q SIGCONT) u = Ok s'" | "s2 = s'"
    using assms s2 by (auto simp: orphan_def Let_def obind_Ok_iff simp del: updp_sel split: if_splits)
  then show ?thesis
  proof cases
    case 1
    then show ?thesis by (rule same_ptab_psignal[OF t3])
  next
    case 2
    show ?thesis by (rule same_ptab_psignal[OF same_ptab_psignal[OF t2 2(1)] 2(2)])
  qed (use t2 in simp)
qed

lemma same_ptabI:
  "same_tab (K s) (K s') \<Longrightarrow> zombproc s' = zombproc s \<Longrightarrow> freeproc s' = freeproc s \<Longrightarrow> pidhash (sg s') = pidhash (sg s) \<Longrightarrow>
    mpid s' = mpid s \<Longrightarrow> pidchecked s' = pidchecked s \<Longrightarrow> same_ptab s s'"
  by (simp add: same_ptab_def)

lemma tview_reparent: "tview q = tview q' \<Longrightarrow> tview (q\<lparr>p_pptr := a, p_ppid := b\<rparr>) = tview (q'\<lparr>p_pptr := a, p_ppid := b\<rparr>)"
  by (simp add: tview_def)

lemma reparent_same:
  assumes "same_ptab s t"
  shows "same_ptab (setK s (reparent p Q (K s))) (setK t (reparent p Q (K t)))"
proof -
  have tb: "same_tab (K s) (K t)" using assms by (simp add: same_ptab_def)
  have "tview (procs (reparent p Q (K t)) r) = tview (procs (reparent p Q (K s)) r)" for r
  proof -
    have e: "tview (prc t r) = tview (prc s r)" "p_pptr (prc t r) = p_pptr (prc s r)" using tb same_tabD(4)[OF tb] by (simp_all add: same_tab_def)
    show ?thesis by (cases "r \<in> Q"; cases "p_pptr (prc s r) = p") (simp_all add: reparent_def e tview_reparent[OF e(1)])
  qed
  then have "same_tab (reparent p Q (K s)) (reparent p Q (K t))" using tb by (simp add: same_tab_def reparent_def)
  then show ?thesis using assms by (simp add: same_ptab_def)
qed

lemma orphans_tab:
  "orphans p ps s = Ok s' \<Longrightarrow> p \<noteq> 1 \<Longrightarrow> same_ptab (setK s (reparent p (set ps) (K s))) s'"
proof (induction ps arbitrary: s)
  case Nil
  have "same_tab (reparent p {} (K s)) (K s)" by (simp add: same_tab_def reparent_def)
  then show ?case using Nil by (simp add: same_ptab_def)
next
  case (Cons q rest)
  obtain s1 where s1: "(if p_pptr (prc s q) = p then orphan q s else Ok s) = Ok s1" "orphans p rest s1 = Ok s'" using Cons.prems(1) by (auto simp: obind_Ok_iff)
  note ih = Cons.IH[OF s1(2) Cons.prems(2)]
  let ?t = "if p_pptr (prc s q) = p then updp q (\<lambda>r. r\<lparr>p_pptr := 1, p_ppid := 1\<rparr>) s else s"
  have "same_ptab ?t s1" using s1(1) orphan_tab by (auto simp del: updp_sel split: if_splits)
  then have "same_ptab (setK ?t (reparent p (set rest) (K ?t))) s'" using ih reparent_same same_ptab_trans by blast
  moreover have "reparent p (set rest) (K ?t) = reparent p (insert q (set rest)) (K s)"
  proof -
    have "procs (reparent p (set rest) (K ?t)) = procs (reparent p (insert q (set rest)) (K s))"
      using Cons.prems(2) by (intro ext) (auto simp: reparent_def)
    then show ?thesis by (simp add: reparent_def upd_proc_def split: if_splits)
  qed
  then have "setK ?t (reparent p (set rest) (K ?t)) = setK s (reparent p (insert q (set rest)) (K s))"
    by (simp add: setK_def updp_def)
  ultimately show ?case by (simp del: updp_sel)
qed

text \<open>The table while \<open>p\<close> has left it and its children have been given to \<^verbatim>\<open>init\<close>.\<close>

definition exit_mid :: "int \<Rightarrow> nat \<Rightarrow> kproc \<Rightarrow> kproc" where
  "exit_mid rv p s =
     (let s1 = exit_lists p s; h = PIDHASH (p_pid (prc s p));
          ru = ruadd (u_ru (ua s p)) (u_cru (ua s p))
      in updm p (bury_mem ru) (updp p (bury_proc (word_of_int rv) ru)
           (s1\<lparr>sg := (sg s1)\<lparr>pidhash := (pidhash (sg s1))(h := remove1 p (pidhash (sg s1) h))\<rparr>,
               p_xstat := (p_xstat s1)(p := rv), p_ru := (p_ru s1)(p := ru)\<rparr>)))"

lemma exit_mid_sel:
  "allproc (K (exit_mid rv p s)) = remove1 p (allproc (K s))" "zombproc (exit_mid rv p s) = p # zombproc s" "freeproc (exit_mid rv p s) = freeproc s"
  "mpid (exit_mid rv p s) = mpid s" "pidchecked (exit_mid rv p s) = pidchecked s"
  "pidhash (sg (exit_mid rv p s)) = (pidhash (sg s))(PIDHASH (p_pid (prc s p)) := remove1 p (pidhash (sg s) (PIDHASH (p_pid (prc s p)))))"
  "q \<noteq> p \<Longrightarrow> prc (exit_mid rv p s) q = prc s q" "p_pid (prc (exit_mid rv p s) q) = p_pid (prc s q)" "p_ppid (prc (exit_mid rv p s) q) = p_ppid (prc s q)"
  "p_pptr (prc (exit_mid rv p s) q) = p_pptr (prc s q)" "p_stat (prc (exit_mid rv p s) q) = (if q = p then SZOMB else p_stat (prc s q))"
  by (simp_all add: exit_mid_def exit_lists_def Let_def bury_proc_def)

lemma exit_mid_ok:
  assumes ok: "ptab_ok n s" and p: "p \<in> set (allproc (K s))" "p \<noteq> 0" "p \<noteq> 1"
  shows "ptab_ok n (setK (exit_mid rv p s) (reparent p (slots (exit_mid rv p s)) (K (exit_mid rv p s))))" (is "ptab_ok n ?s")
proof -
  let ?m = "exit_mid rv p s"
  have l: "lists_ok n s" and pi: "pids_ok s" and h: "hash_exact s" and t: "tree_ok s" using ok by (simp_all add: ptab_ok_def)
  have d: "distinct (allproc (K s))" "p \<notin> set (zombproc s)" using l p by (auto simp: lists_ok_def)
  have sl: "slots ?s = slots s" "slots ?m = slots s" using d p by (auto simp: reparent_def exit_mid_sel)
  have all: "set (allproc (K ?s)) = set (allproc (K s)) - {p}" using d by (simp add: reparent_def exit_mid_sel)
  have st: "p_stat (prc ?s q) = (if q = p then SZOMB else p_stat (prc s q))" "p_pid (prc ?s q) = p_pid (prc s q)" for q
    by (simp_all add: reparent_def exit_mid_sel)
  have up: "p_pptr (prc ?s q) = (if q \<in> slots s \<and> p_pptr (prc s q) = p then 1 else p_pptr (prc s q))"
    "p_ppid (prc ?s q) = (if q \<in> slots s \<and> p_pptr (prc s q) = p then 1 else p_ppid (prc s q))" for q
    unfolding sl(2) by (simp_all add: reparent_def exit_mid_sel)
  have "lists_ok n ?s"
    unfolding lists_ok_def sl(1) st using l d p by (auto simp: lists_ok_def reparent_def exit_mid_sel)
  moreover have "pids_ok ?s" unfolding pids_ok_def sl(1) st all using pi p by (auto simp: pids_ok_def exit_mid_sel)
  moreover have "hash_exact ?s" unfolding hash_exact_def all st using h by (auto simp: hash_exact_def exit_mid_sel)
  moreover have "tree_ok ?s"
  proof -
    obtain e :: "nat \<Rightarrow> nat" where e: "\<forall>p\<in>slots s. p \<noteq> 0 \<longrightarrow> e (p_pptr (prc s p)) < e p" using t by (auto simp: tree_ok_def)
    let ?e = "\<lambda>q. if q = 0 then 0 else if q = 1 then 1 else e q + 2"
    have d: "?e (p_pptr (prc ?s q)) < ?e q" if "q \<in> slots s" "q \<noteq> 0" for q
    proof -
      have "e (p_pptr (prc s q)) < e q" "p_pptr (prc s 1) = 0" using e that t by (auto simp: tree_ok_def)
      then show ?thesis using that(2) p(2) unfolding up by (cases "q = 1") simp_all
    qed
    have u: "p_pptr (prc ?s q) \<in> set (allproc (K ?s)) \<and> p_ppid (prc ?s q) = p_pid (prc ?s (p_pptr (prc ?s q)))" if "q \<in> slots s" "q \<noteq> 0" for q
    proof -
      have "p_pptr (prc s q) \<in> set (allproc (K s))" "p_ppid (prc s q) = p_pid (prc s (p_pptr (prc s q)))" using that t by (auto simp: tree_ok_def)
      moreover have "1 \<in> set (allproc (K s))" "p_pid (prc s 1) = 1" using pi by (simp_all add: pids_ok_def)
      moreover have "p_pptr (prc ?s q) = (if p_pptr (prc s q) = p then 1 else p_pptr (prc s q))"
        "p_ppid (prc ?s q) = (if p_pptr (prc s q) = p then 1 else p_ppid (prc s q))" using that(1) unfolding up by auto
      ultimately show ?thesis using p(3) unfolding all st by (cases "p_pptr (prc s q) = p") (simp_all only: if_True if_False, auto)
    qed
    have z: "p_pptr (prc ?s 1) = 0" "p_pptr (prc ?s 0) = 0" "p_ppid (prc ?s 0) = 0" unfolding up using t p(2) by (simp_all add: tree_ok_def)
    show ?thesis unfolding tree_ok_def sl(1) by (intro conjI exI[of _ ?e] ballI impI z d) (use u in metis)+
  qed
  ultimately show ?thesis by (simp add: ptab_ok_def)
qed

lemma setK_setK [simp]: "setK (setK s a) b = setK s b"
  by (simp add: setK_def)

lemma onK_setK: "onK f s = Ok s' \<Longrightarrow> \<exists>k. s' = setK s k"
  by (cases "f (K s)") (auto simp: onK_def)

lemma orphan_setK: "orphan q s = Ok s' \<Longrightarrow> \<exists>k. s' = setK s k"
  unfolding orphan_def Let_def updp_def by (auto simp: obind_Ok_iff split: if_splits dest!: onK_setK)

lemma orphans_setK: "orphans p ps s = Ok s' \<Longrightarrow> \<exists>k. s' = setK s k"
proof (induction ps arbitrary: s)
  case Nil
  then show ?case by (auto simp: setK_def intro: exI[of _ "K s"])
next
  case (Cons q rest)
  obtain t where t: "(if p_pptr (prc s q) = p then orphan q s else Ok s) = Ok t" "orphans p rest t = Ok s'" using Cons.prems by (auto simp: obind_Ok_iff)
  have "\<exists>k. t = setK s k" using t(1) orphan_setK by (auto simp: setK_def split: if_splits intro: exI[of _ "K s"])
  then show ?case using Cons.IH[OF t(2)] by auto
qed

lemma exit_final_shape:
  assumes r: "exit_final rv p s = Ok s'" and ok: "ptab_ok n s"
  shows "p_pid (prc s p) \<noteq> 1" "p \<noteq> 1"
    "same_ptab (setK (exit_mid rv p s) (reparent p (slots (exit_mid rv p s)) (K (exit_mid rv p s)))) s'" "\<exists>k. s' = goes p Gone (setK (exit_mid rv p s) k)"
proof -
  show p1: "p_pid (prc s p) \<noteq> 1" using r by (auto simp: exit_final_def split: if_splits)
  then show "p \<noteq> 1" using ok by (auto simp: ptab_ok_def pids_ok_def)
  let ?m = "exit_mid rv p s"
  have e: "p_pid (prc (exit_lists p s) p) = p_pid (prc s p)" by (simp add: exit_lists_def)
  have h: "p \<in> set (pidhash (sg (exit_lists p s)) (PIDHASH (p_pid (prc s p))))" using r p1 by (auto simp: exit_final_def Let_def e split: if_splits)
  obtain s4 s5 s6 where s: "orphans p (allproc (K ?m) @ zombproc ?m) ?m = Ok s4" "onK (psignal (p_pptr (prc s4 p)) SIGCHLD) s4 = Ok s5"
    "onK (wakeup (procaddr (p_pptr (prc s5 p)))) s5 = Ok s6" "s' = goes p Gone s6"
    using r p1 h unfolding exit_final_def Let_def e
    by (auto simp: obind_Ok_iff omap_def exit_mid_def Let_def simp del: updp_sel upd_sel)
  have "same_ptab (setK ?m (reparent p (slots ?m) (K ?m))) s4" using orphans_tab[OF s(1) \<open>p \<noteq> 1\<close>] by simp
  then show "same_ptab (setK ?m (reparent p (slots ?m) (K ?m))) s'"
    unfolding s(4) using same_ptab_wakeup[OF same_ptab_psignal[OF _ s(2)] s(3)] same_ptab_intros(3) by blast
  show "\<exists>k. s' = goes p Gone (setK ?m k)" using orphans_setK[OF s(1)] onK_setK[OF s(2)] onK_setK[OF s(3)] s(4) by auto
qed

lemma exit_final_ok:
  assumes r: "exit_final rv p s = Ok s'" and ok: "ptab_ok n s" and p: "p \<in> set (allproc (K s))" "p \<noteq> 0"
  shows "ptab_ok n s'"
  by (rule table_ok_same[OF exit_mid_ok[OF ok p exit_final_shape(2)[OF r ok]] exit_final_shape(3)[OF r ok]])

lemma exit_begin_tab: "same_ptab s (exit_begin fclose p s)"
proof -
  have "same_ptab s (updp p (\<lambda>q. q\<lparr>p_flag := p_flag q AND NOT (P_TRACED OR SULOCK), p_sigignore := NOT 0, p_sig := 0\<rparr>) s)"
    by (rule same_ptab_updp) (rule tview_flag)
  then show ?thesis unfolding exit_begin_def Let_def by (intro same_ptab_intros(2,4))
qed

lemma exit_call_ok:
  assumes r: "exit_call fclose rv p s = Ok s'" and ok: "ptab_ok n s" and p: "p \<in> set (allproc (K s))" "p \<noteq> 0"
  shows "ptab_ok n s'"
proof -
  let ?b = "exit_begin fclose p s"
  have b: "ptab_ok n ?b" "p \<in> set (allproc (K ?b))" using table_ok_same[OF ok exit_begin_tab] p same_ptab_lists[OF exit_begin_tab] by auto
  consider t where "endvfork_start p ?b = Ok t" "s' = goes p (Ending rv) t" | "exit_final rv p ?b = Ok s'"
    using r by (auto simp: exit_call_def Let_def omap_def obind_Ok_iff split: if_splits)
  then show ?thesis
  proof cases
    case 1
    have "same_ptab ?b s'" unfolding 1(2) by (rule same_ptab_intros(3)[OF endvfork_start_tab[OF 1(1)]])
    then show ?thesis by (rule table_ok_same[OF b(1)])
  qed (rule exit_final_ok[OF _ b p(2)])
qed

section \<open>wait\<close>

lemma give_slot_sel:
  "allproc (K (give_slot p s)) = allproc (K s)" "zombproc (give_slot p s) = remove1 p (zombproc s)" "freeproc (give_slot p s) = p # freeproc s"
  "mpid (give_slot p s) = mpid s" "pidchecked (give_slot p s) = pidchecked s" "pidhash (sg (give_slot p s)) = pidhash (sg s)"
  "q \<noteq> p \<Longrightarrow> prc (give_slot p s) q = prc s q" "p_stat (prc (give_slot p s) p) = SNULL"
  by (simp_all add: give_slot_def Let_def)

lemma give_slot_ok:
  assumes ok: "ptab_ok n s" and p: "p \<in> set (zombproc s)"
  shows "ptab_ok n (give_slot p s)" (is "ptab_ok n ?s")
proof -
  have l: "lists_ok n s" and pi: "pids_ok s" and h: "hash_exact s" and t: "tree_ok s" using ok by (simp_all add: ptab_ok_def)
  have d: "distinct (zombproc s)" "p \<notin> set (allproc (K s))" "p \<notin> set (freeproc s)" using l p by (auto simp: lists_ok_def)
  have sl: "slots ?s = slots s - {p}" using d by (auto simp: give_slot_sel)
  have pr: "q \<in> slots s - {p} \<Longrightarrow> prc ?s q = prc s q" for q by (simp add: give_slot_sel)
  have i: "{0, 1} \<subseteq> slots s - {p}" using pi d(2) by (auto simp: pids_ok_def)
  have "lists_ok n ?s"
  proof -
    have "p_stat (prc ?s q) = (if q = p then SNULL else p_stat (prc s q))" for q using give_slot_sel(7)[of q p s] give_slot_sel(8)[of p s] by simp
    then show ?thesis using l d p unfolding lists_ok_def sl give_slot_sel(1-3) by auto
  qed
  moreover have "pids_ok ?s"
  proof -
    have "0 \<le> p_pid (prc ?s q) \<and> p_pid (prc ?s q) < 30000 \<and> (p_pid (prc ?s q) \<le> mpid ?s \<or> pidchecked ?s \<le> p_pid (prc ?s q)) \<and> (1 < q \<longrightarrow> 1 < p_pid (prc ?s q))"
      if "q \<in> slots ?s" for q
    proof -
      have q: "q \<in> slots s" "prc ?s q = prc s q" using that pr unfolding sl by blast+
      show ?thesis unfolding q(2) give_slot_sel(4,5) using pi q(1) unfolding pids_ok_def by blast
    qed
    moreover have "prc ?s 0 = prc s 0" "prc ?s 1 = prc s 1" using pr i by blast+
    ultimately show ?thesis using pi unfolding pids_ok_def give_slot_sel(1,4,5) by simp
  qed
  moreover have "hash_exact ?s"
  proof -
    have "q \<in> set (allproc (K s)) \<Longrightarrow> prc ?s q = prc s q" for q using pr d(2) by blast
    then show ?thesis using h unfolding hash_exact_def give_slot_sel(1,6) by auto
  qed
  moreover have "tree_ok ?s"
  proof -
    have u: "p_pptr (prc s q) \<in> set (allproc (K s)) - {p}" "p_ppid (prc s q) = p_pid (prc s (p_pptr (prc s q)))" if "q \<in> slots s" "q \<noteq> 0" for q
      using t d(2) that by (auto simp: tree_ok_def)
    obtain e :: "nat \<Rightarrow> nat" where e: "\<And>p. p\<in>slots s \<Longrightarrow> p \<noteq> 0 \<Longrightarrow> e (p_pptr (prc s p)) < e p" using t by (auto simp: tree_ok_def)
    have pp: "prc ?s (p_pptr (prc s q)) = prc s (p_pptr (prc s q))" if "q \<in> slots s" "q \<noteq> 0" for q using u(1)[OF that] by (simp add: give_slot_sel)
    have z: "p_pptr (prc ?s 1) = 0" "p_pptr (prc ?s 0) = 0" "p_ppid (prc ?s 0) = 0" using t i pr[of 0] pr[of 1] by (auto simp: tree_ok_def)
    have "p_pptr (prc ?s q) \<in> set (allproc (K ?s)) \<and> p_ppid (prc ?s q) = p_pid (prc ?s (p_pptr (prc ?s q))) \<and> e (p_pptr (prc ?s q)) < e q"
      if "q \<in> slots ?s" "q \<noteq> 0" for q
    proof -
      have q: "q \<in> slots s" "prc ?s q = prc s q" using that(1) pr unfolding sl by blast+
      show ?thesis unfolding q(2) pp[OF q(1) that(2)] give_slot_sel(1) using u[OF q(1) that(2)] e[OF q(1) that(2)] by simp
    qed
    then show ?thesis unfolding tree_ok_def using z by blast
  qed
  ultimately show ?thesis by (simp add: ptab_ok_def)
qed

lemma reap_ok:
  assumes "reap q p status rusage s = (r, s')" "ptab_ok n s" "p \<in> set (zombproc s)"
  shows "ptab_ok n s'"
proof -
  let ?u = "updu q (\<lambda>u. u\<lparr>u_cru := ruadd (u_cru u) (p_ru s p)\<rparr>) s"
  have "ptab_ok n (give_slot p ?u)" by (rule give_slot_ok[OF table_ok_same[OF assms(2) same_ptab_simple(2)]]) (use assms(3) in simp)
  moreover have "s' = s \<or> s' = give_slot p ?u" using assms(1) by (auto simp: reap_def split: option.splits)
  ultimately show ?thesis using assms(2) by auto
qed

lemma wait1_ok:
  assumes "wait1 q pid options status rusage s = (r, s')" "ptab_ok n s"
  shows "ptab_ok n s'" "r = Wsleep \<Longrightarrow> s' = s"
proof -
  have find_in: "find P xs = Some x \<Longrightarrow> x \<in> set xs" for P and xs :: "nat list" and x by (auto simp: find_Some_iff)
  have "(\<exists>p. p \<in> set (zombproc s) \<and> reap q p status rusage s = (r, s')) \<or> r \<noteq> Wsleep \<and> (\<exists>p. s' = updp p (\<lambda>r. r\<lparr>p_flag := p_flag r OR P_WAITED\<rparr>) s) \<or> s' = s"
    using assms(1) find_in unfolding wait1_def Let_def
    by (auto simp del: updp_sel split: option.splits if_splits)
  moreover have "reap q p status rusage s = (Wsleep, s') \<Longrightarrow> False" for p by (auto simp: reap_def split: option.splits)
  moreover have "ptab_ok n (updp p (\<lambda>r. r\<lparr>p_flag := p_flag r OR P_WAITED\<rparr>) s)" for p
    by (rule table_ok_same[OF assms(2) same_ptab_updp]) (rule tview_flag)
  ultimately show "ptab_ok n s'" "r = Wsleep \<Longrightarrow> s' = s" using reap_ok assms(2) by blast+
qed

section \<open>Steps\<close>

lemma kproc_step_ok:
  assumes "kproc_step s s'" "ptab_ok n s"
  shows "ptab_ok n s'"
proof -
  have live: "curp s \<in> set (allproc (K s)) \<and> curp s \<noteq> 0 \<and> live_stat (p_stat (prc s (curp s)))" if "runs_in c s" for c
  proof -
    have st: "p_stat (prc s (curp s)) = SRUN" "curp s \<noteq> 0" using that by (simp_all add: runs_in_def)
    have "lists_ok n s" using assms(2) by (simp add: ptab_ok_def)
    then show ?thesis using st by (auto simp: lists_ok_def)
  qed
  have tab: "same_ptab s t \<Longrightarrow> ptab_ok n t" for t using table_ok_same[OF assms(2)] .
  have w: "ptab_ok n (wait_resume s)" "allproc (K (wait_resume s)) = allproc (K s)" "curp (wait_resume s) = curp s"
    using tab[OF wait_resume_tab] same_ptab_lists[OF wait_resume_tab] by (auto simp: wait_resume_def tsleep_resume_def Let_def)
  have g: "ptab_ok n t \<Longrightarrow> ptab_ok n (goes p c t)" for t p c by (rule table_ok_same[OF _ same_ptab_simple(3)])
  from assms(1) show ?thesis
  proof cases
    case (Fork v pl r)
    then show ?thesis using fork1_ok assms(2) live by blast
  next
    case (Vfork_sleeps c)
    then show ?thesis using psleep_tab live tab by blast
  next
    case (Vfork_done c)
    then show ?thesis using vfork_done_tab tab by blast
  next
    case (Exit fclose rv)
    then show ?thesis using exit_call_ok assms(2) live by blast
  next
    case (Exec s1)
    then show ?thesis using tab[OF endvfork_start_tab] g by blast
  next
    case (End_sleeps c rv)
    then show ?thesis using psleep_tab live tab by blast
  next
    case (Exit_on rv)
    have "ptab_ok n (endvfork_finish (curp s) s)" "curp s \<in> set (allproc (K (endvfork_finish (curp s) s)))"
      using tab[OF endvfork_finish_tab] same_ptab_lists[OF endvfork_finish_tab] live[OF Exit_on(1)] by auto
    then show ?thesis using exit_final_ok[OF Exit_on(3)] live[OF Exit_on(1)] by blast
  next
    case (Exec_on m')
    have "same_ptab s s'" unfolding Exec_on(1) by (intro same_ptab_intros endvfork_finish_tab)
    then show ?thesis by (rule tab)
  next
    case (Wait pid options status rusage r)
    then show ?thesis using wait1_ok(1) assms(2) by blast
  next
    case (Wait_sleeps pid options status rusage s1 s2)
    then have "s1 = s" using wait1_ok(2) assms(2) by blast
    then show ?thesis using Wait_sleeps psleep_tab live tab g by metis
  next
    case (Wait_on pid options status rusage r s1)
    then show ?thesis using wait1_ok(1) w(1) g by blast
  next
    case (Wait_again pid options status rusage s1)
    then have "s1 = wait_resume s" using wait1_ok(2) w(1) by blast
    moreover have "live_stat (p_stat (prc (wait_resume s) (curp (wait_resume s))))"
      using same_ptab_live[OF wait_resume_tab] live[OF Wait_again(1)] w(3) by simp
    ultimately show ?thesis using Wait_again psleep_tab table_ok_same[OF w(1)] by metis
  next
    case (Wait_interrupted pid options)
    then show ?thesis using g w(1) by blast
  next
    case (Setpgrp p g)
    show ?thesis unfolding Setpgrp(1) by (rule table_ok_cong[OF assms(2)]) simp_all
  next
    case (Posts p sig)
    then show ?thesis using tab[OF same_ptab_psignal[OF same_ptab_refl]] by blast
  next
    case (Kernel k)
    then show ?thesis using tab[OF same_ptab_setK[OF sched_step_tab]] by simp
  next
    case (Wakes chan)
    then show ?thesis using tab[OF same_ptab_wakeup[OF same_ptab_refl]] by blast
  next
    case (Switches r k)
    then show ?thesis using tab[OF same_ptab_setK[OF swtch_tab]] by blast
  qed
qed

end
