(* ===== verification/Proc_Thms.thy ===== *)
theory Proc_Thms
  imports Proc_Inv Sig_Take
begin
text \<open>The properties of the process table, from the start of the system on.\<close>

section \<open>The start\<close>

text \<open>The table when \<^verbatim>\<open>main\<close> calls \<^verbatim>\<open>newproc\<close> to make \<^verbatim>\<open>init\<close>: only the swapper, on the queues of \<open>boot\<close>.\<close>

definition kboot :: "nat \<Rightarrow> kproc \<Rightarrow> kproc" where
  "kboot n s = (pqinit n (setK s boot))\<lparr>mpid := 0, pidchecked := 0, sg := (sg (pqinit n (setK s boot)))\<lparr>pidhash := (\<lambda>h. [])\<rparr>\<rparr>"

lemma kboot_sel:
  "allproc (K (kboot n s)) = [0]" "zombproc (kboot n s) = []" "freeproc (kboot n s) = [1..<n]" "mpid (kboot n s) = 0" "pidchecked (kboot n s) = 0"
  "pidhash (sg (kboot n s)) h = []" "curp (kboot n s) = 0" "prc (kboot n s) p = (if p = 0 then proc0 else proc0\<lparr>p_stat := SNULL\<rparr>)"
  by (simp_all add: kboot_def pqinit_def boot_def setK_def)

lemma first_pid: "newpid [(0, 0)] 1 0 = Some (1, 30000)"
  by (subst newpid_eq) simp

lemma start_ok:
  assumes n: "2 \<le> n" and r: "newproc False pl (kboot n s) = Ok (c, s1)"
  shows "ptab_ok n s1"
proof -
  have f: "freeproc (kboot n s) = 1 # [2..<n]" using n by (simp add: kboot_sel upt_conv_Cons numeral_2_eq_2)
  have p: "pids (kboot n s) = [(0, 0)]" by (simp add: pids_def kboot_sel proc0_def)
  obtain pid checked rest s2 where "newpid (pids (kboot n s)) (mpid (kboot n s) + 1) (pidchecked (kboot n s)) = Some (pid, checked)"
    "freeproc (kboot n s) = c # rest" and np0: "newproc_image (curp (kboot n s)) c pl False (newproc_entry (curp (kboot n s)) c pid checked False (kboot n s)) = Ok s2"
    "same_ptab s2 s1" by (rule newprocE[OF r])
  then have np: "newpid [(0, 0)] 1 0 = Some (pid, checked)" "c = 1" "newproc_image 0 c pl False (newproc_entry 0 c pid checked False (kboot n s)) = Ok s2"
    "same_ptab s2 s1" using p f by (simp_all add: kboot_sel)
  let ?e = "newproc_entry 0 1 1 30000 False (kboot n s)"
  have im: "newproc_image 0 1 pl False ?e = Ok s2" using np first_pid by simp
  have e: "prc ?e p = (if p = 0 then proc0 else if p = 1 then child_proc proc0 0 1 (proc0\<lparr>p_stat := SNULL\<rparr>) else proc0\<lparr>p_stat := SNULL\<rparr>)" for p
    by (simp add: newproc_entry_sel kboot_sel)
  have sl: "slots ?e = {0, 1}" "set (allproc (K ?e)) = {0, 1}" by (auto simp: newproc_entry_sel kboot_sel)
  have "lists_ok n ?e" unfolding lists_ok_def sl e newproc_entry_sel(1-3) kboot_sel f using n
    by (auto simp: proc0_def child_proc_def newproc_entry_sel(2) kboot_sel(2))
  moreover have "pids_ok ?e" unfolding pids_ok_def sl e newproc_entry_sel(4,5) by (simp add: proc0_def child_proc_def newproc_entry_sel(1,2) kboot_sel(1,2))
  moreover have "hash_exact ?e" unfolding hash_exact_def sl e newproc_entry_sel(6) kboot_sel by (auto simp: proc0_def child_proc_def)
  moreover have "tree_ok ?e" unfolding tree_ok_def sl e by (auto simp: proc0_def child_proc_def newproc_entry_sel(1,2) kboot_sel(1,2) intro: exI[of _ "\<lambda>p. p"])
  ultimately have "ptab_ok n ?e" by (simp add: ptab_ok_def)
  moreover have "live_stat (p_stat (prc ?e 1))" using e[of 1] by (simp add: child_proc_def)
  ultimately show ?thesis using table_ok_same newproc_image_tab[OF im] np(4) by blast
qed

lemma run_tab: "kproc_step\<^sup>*\<^sup>* s1 s \<Longrightarrow> ptab_ok n s1 \<Longrightarrow> ptab_ok n s"
  by (induction rule: rtranclp_induct) (auto intro: kproc_step_ok)

lemma inferior_ends:
  assumes t: "tree_ok s" and d: "\<And>p. p \<in> slots s \<Longrightarrow> p \<noteq> 0 \<Longrightarrow> d (p_pptr (prc s p)) < d p" and p: "p \<in> slots s"
  shows "d p < k \<Longrightarrow> inferior (Suc k) p (K s) \<noteq> None"
  using p
proof (induction k arbitrary: p)
  case (Suc k)
  show ?case
  proof (cases "p = 0")
    case True
    then show ?thesis using t by (auto simp: tree_ok_def)
  next
    case False
    then have "p_pptr (prc s p) \<in> slots s" "d (p_pptr (prc s p)) < k" using t Suc.prems d[of p] by (auto simp: tree_ok_def)
    then have "inferior (Suc k) (p_pptr (prc s p)) (K s) \<noteq> None" using Suc.IH by blast
    then show ?thesis by (subst inferior.simps(2)) (simp del: inferior.simps not_None_eq)
  qed
qed simp

lemma find_unique: "x \<in> set xs \<Longrightarrow> P x \<Longrightarrow> \<exists>y. find P xs = Some y \<and> y \<in> set xs \<and> P y"
  by (induction xs) auto

section \<open>A small table\<close>

text \<open>Four processes: the swapper, \<^verbatim>\<open>init\<close>, a process stopped by job control and its child, which runs.\<close>

definition family_proc :: "nat \<Rightarrow> proc" where
  "family_proc p = (if p = 0 then proc0
     else if p = 1 then proc0\<lparr>p_pid := 1, p_pgrp := 1\<rparr>
     else if p = 2 then proc0\<lparr>p_pid := 200, p_pgrp := 200, p_pptr := 1, p_ppid := 1, p_stat := SSTOP, p_sigignore := sigmask SIGCHLD\<rparr>
     else if p = 3 then proc0\<lparr>p_pid := 201, p_pgrp := 200, p_pptr := 2, p_ppid := 200\<rparr>
     else proc0\<lparr>p_stat := SNULL\<rparr>)"

definition family :: kproc where
  "family =
     \<lparr>sg = (usr (boot\<lparr>procs := family_proc, allproc := [3, 2, 1, 0], u_procp := 3\<rparr>))\<lparr>pidhash := (\<lambda>h. if h = 1 then [1] else if h = 8 then [2] else if h = 9 then [3] else [])\<rparr>,
      zombproc = [], freeproc = [4], mpid = 199, pidchecked = 200, p_xstat = (\<lambda>p. 0), p_ru = (\<lambda>p. ruzero),
      pm = (\<lambda>p. \<lparr>p_dsize = 1, p_ssize = 1, p_daddr = 1, p_saddr = 1, p_addr = 1, p_textp = 0\<rparr>),
      ua = (\<lambda>p. \<lparr>u_uid = 0, u_ru = ruzero, u_cru = ruzero, u_ofile = [], u_pofile = [], u_lastfile = -1\<rparr>),
      dsc = \<lparr>files = [], lastf = 0, ofile = [], pofile = [], lastfile = -1, ilocks = (\<lambda>i. \<lparr>i_shlockc = 0, i_exlockc = 0, ISHLOCK = False, IEXLOCK = False, ILWAIT = False\<rparr>), so_pgrp = (\<lambda>s. 0)\<rparr>,
      cont = (\<lambda>p. User)\<rparr>"

lemma family_ok: "ptab_ok 5 family"
proof -
  have a: "allproc (K family) = [3, 2, 1, 0]" "zombproc family = []" "freeproc family = [4]" "mpid family = 199" "pidchecked family = 200"
    "pidhash (sg family) = (\<lambda>h. if h = 1 then [1] else if h = 8 then [2] else if h = 9 then [3] else [])" "prc family p = family_proc p" for p
    by (simp_all add: family_def usr_def)
  have n: "{0..<5} = {4, 3, 2, 1, 0 :: nat}" by auto
  have "lists_ok 5 family" unfolding lists_ok_def a n by (auto simp: family_proc_def proc0_def)
  moreover have "pids_ok family" unfolding pids_ok_def a by (simp add: family_proc_def proc0_def)
  moreover have "hash_exact family" unfolding hash_exact_def a by (auto simp: family_proc_def proc0_def PIDHASH_def)
  moreover have "tree_ok family" unfolding tree_ok_def a by (auto simp: family_proc_def proc0_def intro: exI[of _ "\<lambda>p. p"])
  ultimately show ?thesis by (simp add: ptab_ok_def)
qed

section \<open>Properties\<close>

text \<open>
  C3. The process table is well formed in every state reached from the start: every slot is on exactly one of the three lists and the
  state of its process says on which; numbers are below 30000; the parent of every process but the swapper, zombies included, is
  a live process and has the number in \<^verbatim>\<open>p_ppid\<close>; a process can be found in the hash table by its number just as long as it is alive; and the walk up the
  parents in \<^verbatim>\<open>inferior\<close> ends.
\<close>

theorem process_table_well_formed:
  assumes "2 \<le> n" "newproc False pl (kboot n s0) = Ok (c, s1)" "kproc_step\<^sup>*\<^sup>* s1 s"
  shows "distinct (allproc (K s) @ zombproc s @ freeproc s) \<and> set (allproc (K s) @ zombproc s @ freeproc s) = {0..<n} \<and>
    (\<forall>p<n. (p \<in> set (zombproc s) \<longleftrightarrow> p_stat (prc s p) = SZOMB) \<and> (p \<in> set (freeproc s) \<longleftrightarrow> p_stat (prc s p) = SNULL)) \<and>
    (\<forall>p\<in>slots s. 0 \<le> p_pid (prc s p) \<and> p_pid (prc s p) < 30000) \<and>
    (\<forall>p\<in>slots s. p \<noteq> 0 \<longrightarrow> p_pptr (prc s p) \<in> set (allproc (K s)) \<and> p_ppid (prc s p) = p_pid (prc s (p_pptr (prc s p)))) \<and>
    (\<forall>p\<in>set (allproc (K s)). p \<noteq> 0 \<longrightarrow> pfind (p_pid (prc s p)) (sg s) \<noteq> None) \<and>
    (\<forall>pid p. pfind pid (sg s) = Some p \<longrightarrow> p \<in> set (allproc (K s)) \<and> p_pid (prc s p) = pid) \<and>
    (\<forall>p\<in>slots s. \<exists>k. inferior k p (K s) \<noteq> None)"
proof -
  have ok: "ptab_ok n s" by (rule run_tab[OF assms(3) start_ok[OF assms(1,2)]])
  then have l: "lists_ok n s" and pi: "pids_ok s" and h: "hash_exact s" and t: "tree_ok s" by (simp_all add: ptab_ok_def)
  have f1: "p \<in> set (freeproc s) \<longleftrightarrow> p_stat (prc s p) = SNULL" "p \<in> set (zombproc s) \<longleftrightarrow> p_stat (prc s p) = SZOMB" if "p < n" for p
  proof -
    have "p \<in> set (allproc (K s)) \<union> set (zombproc s) \<union> set (freeproc s)" using l that by (auto simp: lists_ok_def)
    then show "p \<in> set (freeproc s) \<longleftrightarrow> p_stat (prc s p) = SNULL" "p \<in> set (zombproc s) \<longleftrightarrow> p_stat (prc s p) = SZOMB"
      using l by (auto simp: lists_ok_def live_stat_def)
  qed
  have f2: "pfind (p_pid (prc s p)) (sg s) \<noteq> None" if "p \<in> set (allproc (K s))" "p \<noteq> 0" for p
  proof -
    have "p \<in> set (pidhash (sg s) (PIDHASH (p_pid (prc s p))))" using h that by (simp add: hash_exact_def)
    from find_unique[OF this, of "\<lambda>q. p_pid (prc s q) = p_pid (prc s p)"] show ?thesis by (auto simp: pfind_def)
  qed
  have f3: "p \<in> set (allproc (K s)) \<and> p_pid (prc s p) = pid" if "pfind pid (sg s) = Some p" for pid p
    using h that by (auto simp: pfind_def hash_exact_def find_Some_iff) (metis (mono_tags, lifting) mem_Collect_eq nth_mem)
  have f4: "\<exists>k. inferior k p (K s) \<noteq> None" if "p \<in> slots s" for p
  proof -
    obtain d :: "nat \<Rightarrow> nat" where d: "\<And>p. p \<in> slots s \<Longrightarrow> p \<noteq> 0 \<Longrightarrow> d (p_pptr (prc s p)) < d p" using t by (auto simp: tree_ok_def)
    from inferior_ends[of s d, OF t d that lessI] show ?thesis by blast
  qed
  have f5: "distinct (allproc (K s) @ zombproc s @ freeproc s)" "set (allproc (K s) @ zombproc s @ freeproc s) = {0..<n}" using l by (simp_all add: lists_ok_def)
  have f6: "\<forall>p\<in>slots s. 0 \<le> p_pid (prc s p) \<and> p_pid (prc s p) < 30000" using pi unfolding pids_ok_def by blast
  have f7: "\<forall>p\<in>slots s. p \<noteq> 0 \<longrightarrow> p_pptr (prc s p) \<in> set (allproc (K s)) \<and> p_ppid (prc s p) = p_pid (prc s (p_pptr (prc s p)))"
    using t unfolding tree_ok_def by blast
  show ?thesis by (intro conjI f5 f6 f7 allI impI ballI f2 f4) (use f1 f3 in blast)+
qed

text \<open>
  C17. While the process table is well formed (\<open>ptab_ok\<close>, as it is in every state reached) and has fewer than 14950 slots \<^verbatim>\<open>newproc\<close> finds a number, between 2 and 29999, and no process or zombie has it, or else one whose
  process group has the number before.
\<close>

theorem fork_number:
  assumes ok: "ptab_ok n s" and "n < 14950"
  shows "\<exists>pid checked. newpid (pids s) (mpid s + 1) (pidchecked s) = Some (pid, checked) \<and> 1 < pid \<and> pid < 30000 \<and>
    (\<forall>p\<in>slots s. p_pid (prc s p) = pid \<longrightarrow> p_pgrp (prc s p) + 1 = pid) \<and>
    (\<forall>v pl c s'. newproc v pl s = Ok (c, s') \<longrightarrow> p_pid (prc s' c) = pid)"
proof -
  have p: "pids_ok s" and l: "lists_ok n s" using ok by (simp_all add: ptab_ok_def)
  have "slots s \<subseteq> {0..<n}" using l by (auto simp: lists_ok_def)
  moreover have "length (pids s) = card (slots s)"
  proof -
    have "distinct (allproc (K s) @ zombproc s)" using l by (auto simp: lists_ok_def)
    from distinct_card[OF this] show ?thesis by (simp add: pids_def)
  qed
  ultimately have "length (pids s) \<le> n" using card_mono[of "{0..<n}" "slots s"] by simp
  then obtain y where "y \<notin> ids_of (pids s)" "100 \<le> y" "y < 30000" using free_number[of "pids s"] assms(2) by auto
  from newpid_ends[OF this] obtain pid checked where np: "newpid (pids s) (mpid s + 1) (pidchecked s) = Some (pid, checked)" by fastforce
  have "1 < mpid s + 1" "pidchecked s \<le> 30000" using p by (simp_all add: pids_ok_def)
  note u = newpid_unused[OF np pids_cache[OF p] this, simplified]
  have "p_pgrp (prc s q) + 1 = pid" if "q \<in> slots s" "p_pid (prc s q) = pid" for q
  proof -
    have "(p_pid (prc s q), p_pgrp (prc s q)) \<in> set (pids s)" using that(1) by (auto simp: pids_def)
    then show ?thesis using u that(2) by fastforce
  qed
  moreover have "p_pid (prc s' c) = pid" if r: "newproc v pl s = Ok (c, s')" for v pl c s'
  proof -
    obtain rest s2 where im: "newproc_image (curp s) c pl v (newproc_entry (curp s) c pid checked v s) = Ok s2" and e: "p_pid (prc s' c) = p_pid (prc s2 c)"
      using newprocE[OF r] np by (metis option.inject prod.inject)
    have "live_stat (p_stat (prc (newproc_entry (curp s) c pid checked v s) c))" by (simp add: newproc_entry_sel child_proc_def)
    from newproc_image_tab[OF im this] have "p_pid (prc s2 c) = p_pid (prc (newproc_entry (curp s) c pid checked v s) c)"
      by (simp add: same_ptab_def same_tabD(2))
    then show ?thesis using e by (simp add: newproc_entry_sel child_proc_def)
  qed
  ultimately show ?thesis using np u by auto
qed

text \<open>Exit, then wait.\<close>

lemma exit_result:
  assumes r: "exit_final rv p s = Ok s'" and ok: "ptab_ok n s" and p: "p \<in> set (allproc (K s))" "p \<noteq> 0"
  shows "zombproc s' = p # zombproc s" "p_pptr (prc s' p) = p_pptr (prc s p)" "p_pid (prc s' p) = p_pid (prc s p)" "p_xstat s' p = rv"
    "p_ru s' p = ruadd (u_ru (ua s p)) (u_cru (ua s p))" "p_pgrp (prc s' p) = sint (wlo (ruadd (u_ru (ua s p)) (u_cru (ua s p)) ! 4))"
proof -
  let ?m = "exit_mid rv p s" and ?ru = "ruadd (u_ru (ua s p)) (u_cru (ua s p))"
  note sh = exit_final_shape[OF r ok]
  have t: "same_tab (reparent p (slots ?m) (K ?m)) (K s')" "zombproc s' = p # zombproc s" using sh(3) by (simp_all add: same_ptab_def exit_mid_sel)
  then show "zombproc s' = p # zombproc s" by simp
  have np: "p_pptr (prc s p) \<noteq> p"
  proof -
    obtain d :: "nat \<Rightarrow> nat" where "d (p_pptr (prc s p)) < d p" using ok p by (auto simp: ptab_ok_def tree_ok_def)
    then show ?thesis by auto
  qed
  show "p_pptr (prc s' p) = p_pptr (prc s p)" "p_pid (prc s' p) = p_pid (prc s p)" "p_pgrp (prc s' p) = sint (wlo (?ru ! 4))"
    using np same_tabD(2,4,8)[OF t(1), of p] by (simp_all add: reparent_def exit_mid_sel(8,10)) (simp add: exit_mid_def Let_def bury_proc_def)
  show "p_xstat s' p = rv" "p_ru s' p = ?ru" using sh(4) by (auto simp: exit_mid_def Let_def exit_lists_def goes_def updm_def)
qed

lemma exit_begin_sel:
  "p_pid (prc (exit_begin fclose p s) q) = p_pid (prc s q)" "p_pptr (prc (exit_begin fclose p s) q) = p_pptr (prc s q)"
  "u_ru (ua (exit_begin fclose p s) q) = u_ru (ua s q)" "u_cru (ua (exit_begin fclose p s) q) = u_cru (ua s q)"
  "zombproc (exit_begin fclose p s) = zombproc s" "allproc (K (exit_begin fclose p s)) = allproc (K s)"
  by (simp_all add: exit_begin_def Let_def updu_def)

lemma exit_begin_vfork: "flagged SVFORK (prc (exit_begin fclose p s) p) = flagged SVFORK (prc s p)"
  by (simp add: exit_begin_def Let_def flagged_def and.assoc)

lemma exit_call_result:
  assumes r: "exit_call fclose rv p s = Ok s'" and ok: "ptab_ok n s" and p: "p \<in> set (allproc (K s))" "p \<noteq> 0" and v: "\<not> flagged SVFORK (prc s p)"
  shows "zombproc s' = p # zombproc s" "p_pptr (prc s' p) = p_pptr (prc s p)" "p_pid (prc s' p) = p_pid (prc s p)" "p_xstat s' p = rv"
    "p_ru s' p = ruadd (u_ru (ua s p)) (u_cru (ua s p))" "p_pgrp (prc s' p) = sint (wlo (ruadd (u_ru (ua s p)) (u_cru (ua s p)) ! 4))"
    "q \<noteq> p \<Longrightarrow> p_pptr (prc s' q) \<in> {p_pptr (prc s q), 1}" "allproc (K s') = remove1 p (allproc (K s))"
proof -
  let ?b = "exit_begin fclose p s"
  have f: "exit_final rv p ?b = Ok s'" using r v by (simp add: exit_call_def Let_def exit_begin_vfork)
  have ok': "ptab_ok n ?b" "p \<in> set (allproc (K ?b))" using table_ok_same[OF ok exit_begin_tab] p by (simp_all add: exit_begin_sel)
  note x = exit_result[OF f ok' p(2), unfolded exit_begin_sel]
  show "zombproc s' = p # zombproc s" "p_pptr (prc s' p) = p_pptr (prc s p)" "p_pid (prc s' p) = p_pid (prc s p)" "p_xstat s' p = rv"
    "p_ru s' p = ruadd (u_ru (ua s p)) (u_cru (ua s p))" "p_pgrp (prc s' p) = sint (wlo (ruadd (u_ru (ua s p)) (u_cru (ua s p)) ! 4))" by (rule x)+
  let ?m = "exit_mid rv p ?b"
  have t: "same_tab (reparent p (slots ?m) (K ?m)) (K s')" using exit_final_shape(3)[OF f ok'(1)] by (simp add: same_ptab_def)
  show "allproc (K s') = remove1 p (allproc (K s))" using same_tabD(1)[OF t] by (simp add: reparent_def exit_mid_sel exit_begin_sel)
  show "p_pptr (prc s' q) \<in> {p_pptr (prc s q), 1}" using same_tabD(4)[OF t, of q] by (simp add: reparent_def exit_mid_sel exit_begin_sel)
qed

text \<open>
  C16. What a process exits with is what its parent gets, in any well-formed table: when a process (not a child of \<^verbatim>\<open>vfork\<close> that still has its parent's memory) has exited,
  the next \<^verbatim>\<open>wait\<close> of its parent for it or for any child returns its number and status, adds the resources used by it and its children to
  those of the parent's children, and puts its slot at the front of the free list.
\<close>

theorem exit_status_reaches_parent:
  assumes ok: "ptab_ok n s" and "p \<in> set (allproc (K s))" "p \<noteq> 0"
    "\<not> flagged SVFORK (prc s p)" "exit_call fclose rv p s = Ok s'" "pid = -1 \<or> pid = p_pid (prc s p)" "q = p_pptr (prc s p)"
  shows "\<exists>s''. wait1 q pid options (Some None) None s' = (Wret (p_pid (prc s p)) rv, s'') \<and>
    freeproc s'' = p # freeproc s' \<and> zombproc s'' = zombproc s \<and> p_stat (prc s'' p) = SNULL \<and>
    u_cru (ua s'' q) = ruadd (u_cru (ua s' q)) (ruadd (u_ru (ua s p)) (u_cru (ua s p)))"
proof -
  note x = exit_call_result[OF assms(5) ok assms(2-4)]
  have "find (wanted s' q pid) (zombproc s') = Some p" using x assms(6,7) by (auto simp: wanted_def)
  then have "wait1 q pid options (Some None) None s' =
      (Wret (p_pid (prc s p)) rv, give_slot p (updu q (\<lambda>u. u\<lparr>u_cru := ruadd (u_cru u) (p_ru s' p)\<rparr>) s'))"
    using x by (simp add: wait1_def reap_def)
  then show ?thesis using x(1,5) give_slot_sel(8) by (simp add: give_slot_def Let_def)
qed

text \<open>
  C36. Waiting for a process group does not work. The process group of a zombie is overwritten, being in the union with the resources used: it is the
  low word of the number of blocks read. If that is not by chance the number of its group, a parent that waits for the
  group is told that it has no such child, though the child is there and has exited.
\<close>

theorem wait_for_group_misses_zombie:
  assumes ok: "ptab_ok n s" and "p \<in> set (allproc (K s))" "p \<noteq> 0"
    "\<not> flagged SVFORK (prc s p)" "exit_call fclose rv p s = Ok s'" "q = p_pptr (prc s p)" "q \<noteq> 1"
    and only: "\<forall>r\<in>slots s. p_pptr (prc s r) = q \<longrightarrow> r = p"
    and g: "g = p_pgrp (prc s p)" "1 < g" "g < 30000"
    and blocks: "sint (wlo (ruadd (u_ru (ua s p)) (u_cru (ua s p)) ! 4)) \<noteq> g"
  shows "wait1 q (- g) options status rusage s' = (Werror ECHILD, s') \<and> p \<in> set (zombproc s') \<and> p_pptr (prc s' p) = q"
proof -
  note x = exit_call_result[OF assms(5) ok assms(2-4)]
  have pid: "0 \<le> p_pid (prc s p)" using ok assms(2) by (auto simp: ptab_ok_def pids_ok_def)
  have w: "wrap16 (- (- g)) = g" using g by (simp add: wrap16_def)
  have "\<not> wanted s' q (- g) p" using x(3,6) g blocks pid w by (simp add: wanted_def)
  moreover have "\<not> wanted s' q (- g) r" if "r \<in> slots s" "r \<noteq> p" for r
    using only that x(7)[OF that(2)] assms(7) by (auto simp: wanted_def)
  ultimately have no: "\<not> wanted s' q (- g) r" if "r \<in> slots s" for r using that by (cases "r = p") auto
  have "find (wanted s' q (- g)) (zombproc s') = None" "find (stopped_news s' q (- g) (bit options 1)) (allproc (K s')) = None"
    "\<not> list_ex (wanted s' q (- g)) (allproc (K s'))"
    using no assms(2) set_remove1_subset[of p "allproc (K s)"] unfolding x(1,8) by (auto simp: find_None_iff list_ex_iff stopped_news_def)
  then show ?thesis using x(1,2) assms(6) by (simp add: wait1_def)
qed

text \<open>
  C35. The exception is real: with \<^verbatim>\<open>mpid\<close> at 200, a process of group 200 with number 201 ahead in the list makes the scan go on to 201, which
  it then does not compare with that process any more. The child gets the number of a living process, and \<^verbatim>\<open>kill\<close> finds only one of them.
\<close>

lemma dup_pid: "newpid [(201, 200), (200, 200), (1, 1), (0, 0)] 200 200 = Some (201, 30000)"
  by (subst newpid_eq) simp

theorem fork_duplicates_pid:
  "ptab_ok 5 family \<and> (\<exists>s'. fork1 False (InCore 2 3 4) family = Ok (Inr 201, s') \<and> {3, 4} \<subseteq> set (allproc (K s')) \<and>
     p_pid (prc s' 3) = 201 \<and> p_pid (prc s' 4) = 201 \<and> pfind 201 (sg s') = Some 4)"
proof -
  have "pids family = [(201, 200), (200, 200), (1, 1), (0, 0)]" by (simp add: pids_def family_def usr_def family_proc_def proc0_def)
  then have "newpid (pids family) (mpid family + 1) (pidchecked family) = Some (201, 30000)" using dup_pid by (simp add: family_def)
  then have "\<exists>s'. newproc False (InCore 2 3 4) family = Ok (4, s') \<and> {3, 4} \<subseteq> set (allproc (K s')) \<and> p_pid (prc s' 3) = 201 \<and> p_pid (prc s' 4) = 201 \<and> pfind 201 (sg s') = Some 4"
    by (simp add: newproc_def family_def usr_def newproc_image_def newproc_entry_def Let_def pfind_def PIDHASH_def setrq_def family_proc_def child_proc_def proc0_def
        setK_def updp_def upd_proc_def updm_def updu_def)
  then obtain s' where s': "newproc False (InCore 2 3 4) family = Ok (4, s')" "{3, 4} \<subseteq> set (allproc (K s'))" "p_pid (prc s' 3) = 201" "p_pid (prc s' 4) = 201"
    "pfind 201 (sg s') = Some 4" by blast
  then have "fork1 False (InCore 2 3 4) family = Ok (Inr 201, goes 4 User (updu 4 (\<lambda>u. u\<lparr>u_ru := ruzero, u_cru := ruzero\<rparr>) s'))"
    by (simp add: fork1_def family_def)
  then show ?thesis using s'(2-5) family_ok by simp
qed


lemma newproc_incore:
  assumes np: "newpid (pids s) (mpid s + 1) (pidchecked s) = Some (pid, ch)" and f: "freeproc s = c # rest"
  shows "\<exists>s'. newproc False (InCore a0 a1 a2) s = Ok (c, s')"
  using np f by (simp add: newproc_def newproc_image_def Let_def)

theorem process_table_well_formed_witness: "\<exists>s. newproc False (InCore 2 3 4) (kboot 5 family) = Ok (1, s) \<and>
    distinct (allproc (K s) @ zombproc s @ freeproc s) \<and> (\<forall>p\<in>set (allproc (K s)). p \<noteq> 0 \<longrightarrow> pfind (p_pid (prc s p)) (sg s) \<noteq> None)"
proof -
  let ?b = "kboot 5 family"
  have "pids ?b = [(0, 0)]" by (simp add: pids_def kboot_sel proc0_def)
  then have "newpid (pids ?b) (mpid ?b + 1) (pidchecked ?b) = Some (1, 30000)" using first_pid by (simp add: kboot_sel)
  moreover have "freeproc ?b = 1 # [2, 3, 4]" by (simp add: kboot_sel upt_rec)
  ultimately obtain s where "newproc False (InCore 2 3 4) ?b = Ok (1, s)" using newproc_incore by blast
  moreover have "2 \<le> (5 :: nat)" by simp
  ultimately show ?thesis using process_table_well_formed[OF _ _ rtranclp.rtrancl_refl, of 5 "InCore 2 3 4" family 1 s] by (intro exI[of _ s] conjI) simp_all
qed

theorem fork_number_witness: "\<exists>pid checked. newpid (pids family) (mpid family + 1) (pidchecked family) = Some (pid, checked) \<and> 1 < pid \<and> pid < 30000"
proof -
  have "(5 :: nat) < 14950" by simp
  from fork_number[OF family_ok this] show ?thesis by blast
qed

lemma exit_final_eq:
  assumes "p_pid (prc s p) \<noteq> 1" "p \<in> set (pidhash (sg s) (PIDHASH (p_pid (prc s p))))"
  shows "exit_final rv p s = obind (orphans p (allproc (K (exit_mid rv p s)) @ zombproc (exit_mid rv p s)) (exit_mid rv p s)) (\<lambda>s4.
     obind (onK (psignal (p_pptr (prc s4 p)) SIGCHLD) s4) (\<lambda>s5. omap (goes p Gone) (onK (wakeup (procaddr (p_pptr (prc s5 p)))) s5)))"
proof -
  have "p_pid (prc (exit_lists p s) p) = p_pid (prc s p)" "pidhash (sg (exit_lists p s)) = pidhash (sg s)" by (simp_all add: exit_lists_def)
  then show ?thesis using assms unfolding exit_final_def Let_def by (simp add: exit_mid_def Let_def del: updp_sel upd_sel)
qed

lemma orphans_none: "\<forall>q\<in>set xs. p_pptr (prc s q) \<noteq> p \<Longrightarrow> orphans p xs s = Ok s"
  by (induction xs) auto

lemma exit_without_children:
  assumes p: "p_pid (prc s p) \<noteq> 1" "p \<in> set (pidhash (sg s) (PIDHASH (p_pid (prc s p))))" "p \<in> set (allproc (K s))"
    and ch: "\<forall>q\<in>slots s. p_pptr (prc s q) \<noteq> p"
    and up: "q = p_pptr (prc s p)" "q \<noteq> p" "p_sigignore (prc s q) AND sigmask SIGCHLD \<noteq> 0" "\<not> flagged P_TRACED (prc s q)"
    and noone: "sleepers (K s) = []" "slpque (K s) (HASH (procaddr q)) = []"
  shows "\<exists>s'. exit_final rv p s = Ok s'"
proof -
  let ?m = "exit_mid rv p s"
  have o: "orphans p (allproc (K ?m) @ zombproc ?m) ?m = Ok ?m"
    using p ch by (intro orphans_none) (auto simp: exit_mid_sel dest: set_remove1_subset[THEN subsetD])
  have q: "p_pptr (prc ?m p) = q" "prc ?m q = prc s q" using up by (simp_all add: exit_mid_sel)
  then have ps: "psignal q SIGCHLD (K ?m) = Ok (K ?m)" using up by (simp add: psignal_def psignal_with_def Let_def)
  have w: "wakeup (procaddr q) (K ?m) = Ok (K ?m)"
  proof -
    have "sleepers (K ?m) = []" "slpque (K ?m) (HASH (procaddr q)) = []" using noone by (simp_all add: exit_mid_def Let_def exit_lists_def sleepers_def)
    then show ?thesis by (simp add: wakeup_def wakeup_fuel_def)
  qed
  show ?thesis unfolding exit_final_eq[OF p(1,2)] o using q ps w by (simp add: onK_def omap_def setK_def)
qed

lemma family_exits: "\<exists>s'. exit_call (\<lambda>f. None) 7 3 family = Ok s'"
proof -
  let ?b = "exit_begin (\<lambda>f. None) 3 family"
  have sel: "prc family = family_proc" "allproc (K family) = [3, 2, 1, 0]" "zombproc family = []" "pidhash (sg family) 9 = [3]"
    "slpque (K family) = (\<lambda>h. [])" by (simp_all add: family_def usr_def boot_def)
  have b: "pidhash (sg ?b) = pidhash (sg family)" "slpque (K ?b) = slpque (K family)" "prc ?b 2 = family_proc 2"
    by (simp_all add: exit_begin_def Let_def updu_def sel)
  have "\<exists>s'. exit_final 7 3 ?b = Ok s'"
    by (rule exit_without_children[of _ _ 2])
       (simp_all add: exit_begin_sel b sel sleepers_def, simp_all add: sel(4) family_proc_def proc0_def PIDHASH_def sigmask_def flagged_def)
  moreover have "\<not> flagged SVFORK (prc ?b 3)" unfolding exit_begin_vfork sel by (simp add: family_proc_def proc0_def flagged_def)
  ultimately show ?thesis by (simp add: exit_call_def Let_def)
qed

theorem exit_status_reaches_parent_witness:
  "\<exists>s' s''. exit_call (\<lambda>f. None) 7 3 family = Ok s' \<and> wait1 2 (-1) 0 (Some None) None s' = (Wret 201 7, s'') \<and> freeproc s'' = 3 # freeproc s'"
proof -
  obtain s' where e: "exit_call (\<lambda>f. None) 7 3 family = Ok s'" using family_exits by blast
  have a: "3 \<in> set (allproc (K family))" "\<not> flagged SVFORK (prc family 3)" "p_pptr (prc family 3) = 2" "p_pid (prc family 3) = 201"
    by (simp_all add: family_def usr_def family_proc_def proc0_def flagged_def)
  from exit_status_reaches_parent[OF family_ok a(1) _ a(2) e _ a(3)[symmetric], of "-1" 0] e a(4) show ?thesis by auto
qed

theorem wait_for_group_misses_zombie_witness:
  "\<exists>s'. exit_call (\<lambda>f. None) 7 3 family = Ok s' \<and> wait1 2 (-200) 0 (Some None) None s' = (Werror ECHILD, s') \<and> 3 \<in> set (zombproc s')"
proof -
  obtain s' where e: "exit_call (\<lambda>f. None) 7 3 family = Ok s'" using family_exits by blast
  have a: "3 \<in> set (allproc (K family))" "\<not> flagged SVFORK (prc family 3)" "p_pptr (prc family 3) = 2" "p_pgrp (prc family 3) = 200"
    "\<forall>r\<in>slots family. p_pptr (prc family r) = 2 \<longrightarrow> r = 3" "u_ru (ua family 3) = ruzero" "u_cru (ua family 3) = ruzero"
    by (simp_all add: family_def usr_def family_proc_def proc0_def flagged_def)
  from a(6,7) have "sint (wlo (ruadd (u_ru (ua family 3)) (u_cru (ua family 3)) ! 4)) \<noteq> 200" by (simp add: ruadd_def ruzero_def)
  from wait_for_group_misses_zombie[OF family_ok a(1) _ a(2) e a(3)[symmetric] _ a(5) a(4)[symmetric] _ _ this, of 0 "Some None" None] e show ?thesis by simp
qed

end
