(* ===== verification/Bmap.thy ===== *)
theory Bmap
  imports Fs_Props
begin

text \<open>
  The blocks of files: \<^verbatim>\<open>sys/sys/ufs_bmap.c\<close> and the truncation of \<^verbatim>\<open>sys/sys/ufs_inode.c\<close>, on the block allocator of \<open>Fs_Alloc\<close>. A file has four
  direct blocks and three trees of pointers, of one, two and three levels. Blocks are sequences of 1024 bytes, in which
  a \<^verbatim>\<open>long\<close> has its high word first and a word its low byte.

  The buffer cache is seen as the contents of the disk: \<open>bwrite\<close>, \<open>bdwrite\<close> and \<open>bawrite\<close> store, \<open>bread\<close> reads what was
  stored last, which is a property of the buffer cache. What is in a buffer that \<^verbatim>\<open>balloc\<close> has not cleared, and in a block after \<^verbatim>\<open>free\<close> (which
  may have put the free list in it), is left open: \<open>stale\<close> is any contents.
\<close>

section \<open>Bytes\<close>

type_synonym bytes = "u8 list"

definition DEV_BSIZE :: nat where "DEV_BSIZE = 1024"

definition short_at :: "bytes \<Rightarrow> nat \<Rightarrow> u16" where
  "short_at bs k = push_bit 8 (ucast (bs ! Suc k)) OR ucast (bs ! k)"

definition long_at :: "bytes \<Rightarrow> nat \<Rightarrow> int" where
  "long_at bs k = sint (push_bit 16 (ucast (short_at bs k)) OR ucast (short_at bs (k + 2)) :: u32)"

definition put_short :: "nat \<Rightarrow> u16 \<Rightarrow> bytes \<Rightarrow> bytes" where
  "put_short k w bs = bs[k := ucast w, Suc k := ucast (drop_bit 8 w)]"

definition put_long :: "nat \<Rightarrow> int \<Rightarrow> bytes \<Rightarrow> bytes" where
  "put_long k v bs = put_short (k + 2) (ucast (word_of_int v :: u32)) (put_short k (ucast (drop_bit 16 (word_of_int v :: u32))) bs)"

definition clrblk :: bytes where
  "clrblk = replicate DEV_BSIZE 0"

text \<open>Zeroing from an offset on.\<close>

definition zero_from :: "nat \<Rightarrow> bytes \<Rightarrow> bytes" where
  "zero_from n bs = take n bs @ replicate (DEV_BSIZE - n) 0"

text \<open>A block seen as a batch of the free list, \<^verbatim>\<open>struct fblk\<close>.\<close>

definition fblk_of :: "bytes \<Rightarrow> fblk" where
  "fblk_of bs = \<lparr>df_nfree = sint (short_at bs 0), df_free = map (\<lambda>k. long_at bs (2 + 4 * k)) [0..<nat NICFREE]\<rparr>"

section \<open>State\<close>

text \<open>Of an inode: the addresses, the size, \<^verbatim>\<open>IPIPE\<close>, the flags \<^verbatim>\<open>ICHG\<close> and \<^verbatim>\<open>IUPD\<close> together.\<close>

record binode =
  i_addr :: "int list"
  i_size :: int
  IPIPE :: bool
  IUPD :: bool

record bstate =
  bvol :: vol
  blk :: "int \<Rightarrow> bytes"
  stale :: "int \<Rightarrow> bytes"
  ino :: "nat \<Rightarrow> binode"
  di_addr :: "nat \<Rightarrow> int list"
  di_size :: "nat \<Rightarrow> int"
  rablock :: int
  b_uerr :: "errno option"

definition NDADDR :: nat where "NDADDR = 4"
definition NIADDR :: nat where "NIADDR = 3"
definition NADDR :: nat where "NADDR = NDADDR + NIADDR"
definition NSHIFT :: nat where "NSHIFT = 8"
definition NINDIR :: int where "NINDIR = 256"

text \<open>\<^verbatim>\<open>NINDIR * NINDIR\<close>, a product of 16-bit integers.\<close>

definition NINDIR2 :: int where "NINDIR2 = uint (256 * 256 :: u16)"

definition put_blk :: "int \<Rightarrow> bytes \<Rightarrow> bstate \<Rightarrow> bstate" where
  "put_blk b bs s = s\<lparr>bvol := write_data b (fblk_of bs) (bvol s), blk := (blk s)(b := bs)\<rparr>"

definition upd_ino :: "nat \<Rightarrow> (binode \<Rightarrow> binode) \<Rightarrow> bstate \<Rightarrow> bstate" where
  "upd_ino ip f s = s\<lparr>ino := (ino s)(ip := f (ino s ip))\<rparr>"

definition set_addr :: "nat \<Rightarrow> nat \<Rightarrow> int \<Rightarrow> bstate \<Rightarrow> bstate" where
  "set_addr ip r b = upd_ino ip (\<lambda>i. i\<lparr>i_addr := (i_addr i)[r := b], IUPD := True\<rparr>)"

text \<open>\<^verbatim>\<open>balloc\<close> with its error number, and \<^verbatim>\<open>free\<close>.\<close>

definition alloc_blk :: "bool \<Rightarrow> bstate \<Rightarrow> (int option \<times> bstate) outcome" where
  "alloc_blk clr s =
     obind (balloc (bvol s)) (\<lambda>(r, v).
       case r of
         None \<Rightarrow> Ok (None, s\<lparr>bvol := v, b_uerr := Some ENOSPC\<rparr>)
       | Some b \<Rightarrow> Ok (Some b, put_blk b (if clr then clrblk else stale s b) (s\<lparr>bvol := v\<rparr>)))"

definition free_blk :: "int \<Rightarrow> bstate \<Rightarrow> bstate outcome" where
  "free_blk b s =
     obind (bfree b (bvol s)) (\<lambda>v. Ok (if badblock (sb (bvol s)) b then s else s\<lparr>bvol := v, blk := (blk s)(b := stale s b)\<rparr>))"

section \<open>bmap\<close>

text \<open>How many levels of indirection: \<^verbatim>\<open>j\<close>, \<^verbatim>\<open>sh\<close> and the block number within the tree.\<close>

fun bmap_level :: "nat \<Rightarrow> nat \<Rightarrow> int \<Rightarrow> int \<Rightarrow> (nat \<times> nat \<times> int) option" where
  "bmap_level 0 sh nb bn = None"
| "bmap_level (Suc j) sh nb bn =
     (let sh1 = sh + NSHIFT; nb1 = push_bit NSHIFT nb in
      if bn < nb1 then Some (Suc j, sh1, bn) else bmap_level j sh1 nb1 (bn - nb1))"

text \<open>The loop through the indirect blocks, with the number of rounds that are left.\<close>

fun bmap_walk :: "bool \<Rightarrow> nat \<Rightarrow> nat \<Rightarrow> int \<Rightarrow> int \<Rightarrow> int \<Rightarrow> bstate \<Rightarrow> (int \<times> bstate) outcome" where
  "bmap_walk wr 0 sh bn nb ra s = Ok (nb, s\<lparr>rablock := ra\<rparr>)"
| "bmap_walk wr (Suc n) sh bn nb ra s =
     (if rderr (bvol s) nb then Ok (0, s\<lparr>b_uerr := Some EIO\<rparr>)
      else let sh1 = sh - NSHIFT;
               i = nat (drop_bit sh1 bn AND 0xFF);
               nb1 = long_at (blk s nb) (4 * i);
               ra1 = (if int i < NINDIR - 1 then long_at (blk s nb) (4 * (i + 1)) else ra)
           in if nb1 \<noteq> 0 then bmap_walk wr n sh1 bn nb1 ra1 s
              else if \<not> wr then Ok (-1, s)
              else obind (alloc_blk True s) (\<lambda>(r, s1).
                     case r of
                       None \<Rightarrow> Ok (-1, s1)
                     | Some b \<Rightarrow> bmap_walk wr n sh1 bn b ra1 (put_blk nb (put_long (4 * i) b (blk s1 nb)) s1)))"

definition bmap_direct :: "nat \<Rightarrow> nat \<Rightarrow> bool \<Rightarrow> bool \<Rightarrow> bstate \<Rightarrow> (int \<times> bstate) outcome" where
  "bmap_direct ip i wr clr s =
     obind (if i_addr (ino s ip) ! i \<noteq> 0 then Ok (Some (i_addr (ino s ip) ! i), s)
            else if \<not> wr then Ok (None, s)
            else omap (\<lambda>(r, s1). case r of None \<Rightarrow> (None, s1) | Some b \<Rightarrow> (Some b, set_addr ip i b s1)) (alloc_blk clr s))
       (\<lambda>(r, s1). case r of
          None \<Rightarrow> Ok (-1, s1)
        | Some nb \<Rightarrow> Ok (nb, if i < NADDR - 4 then s1\<lparr>rablock := i_addr (ino s1 ip) ! (i + 1)\<rparr> else s1))"

definition bmap :: "nat \<Rightarrow> int \<Rightarrow> bool \<Rightarrow> bool \<Rightarrow> bstate \<Rightarrow> (int \<times> bstate) outcome" where
  "bmap ip bn wr clr s =
     (if bn < 0 then Ok (0, s\<lparr>b_uerr := Some EFBIG\<rparr>)
      else let s0 = s\<lparr>rablock := 0\<rparr> in
        if bn < int NADDR - 3 then bmap_direct ip (nat bn) wr clr s0
        else case bmap_level 3 0 1 (bn - (int NADDR - 3)) of
               None \<Rightarrow> Ok (0, s0\<lparr>b_uerr := Some EFBIG\<rparr>)
             | Some (j, sh, bn1) \<Rightarrow>
                 let nb = i_addr (ino s0 ip) ! (NADDR - j) in
                 if nb \<noteq> 0 then bmap_walk wr (4 - j) sh bn1 nb 0 s0
                 else if \<not> wr then Ok (-1, s0)
                 else obind (alloc_blk True s0) (\<lambda>(r, s1).
                        case r of
                          None \<Rightarrow> Ok (-1, s1)
                        | Some b \<Rightarrow> bmap_walk wr (4 - j) sh bn1 b 0 (set_addr ip (NADDR - j) b s1)))"

section \<open>itrunc\<close>

fun each :: "('a \<Rightarrow> 's \<Rightarrow> 's outcome) \<Rightarrow> 'a list \<Rightarrow> 's \<Rightarrow> 's outcome" where
  "each f [] s = Ok s"
| "each f (x # xs) s = obind (f x s) (each f xs)"

text \<open>\<^verbatim>\<open>trsingle\<close>: the pointers after \<open>last\<close>, from the end of the block; \<open>last\<close> is -1 for all of them.\<close>

definition after :: "int \<Rightarrow> bytes \<Rightarrow> int list" where
  "after lst bs = map (\<lambda>i. long_at bs (4 * i)) (rev [nat (lst + 1)..<nat NINDIR])"

definition trsingle :: "bytes \<Rightarrow> int \<Rightarrow> bstate \<Rightarrow> bstate outcome" where
  "trsingle bs lst = each (\<lambda>nb s. if nb = 0 then Ok s else free_blk nb s) (after lst bs)"

fun factor :: "nat \<Rightarrow> int" where
  "factor 0 = 1"
| "factor (Suc 0) = NINDIR"
| "factor (Suc (Suc l)) = NINDIR2"

text \<open>A division by zero has no value.\<close>

primrec indirtrunc :: "nat \<Rightarrow> int \<Rightarrow> int \<Rightarrow> bstate \<Rightarrow> bstate outcome" where
  "indirtrunc 0 bn lastbn s =
     (if rderr (bvol s) bn then Ok (s\<lparr>b_uerr := Some EIO\<rparr>)
      else let bs = blk s bn in trsingle bs lastbn (put_blk bn (zero_from (4 * nat (lastbn + 1)) bs) s))"
| "indirtrunc (Suc l) bn lastbn s =
     (if lastbn > 0 \<and> factor (Suc l) = 0 then Fault
      else let lst = (if lastbn > 0 then lastbn div factor (Suc l) else lastbn) in
        if rderr (bvol s) bn then Ok (s\<lparr>b_uerr := Some EIO\<rparr>)
        else let bs = blk s bn in
          obind (each (\<lambda>nb s. if nb = 0 then Ok s else obind (indirtrunc l nb (-1) s) (free_blk nb)) (after lst bs)
                   (put_blk bn (zero_from (4 * nat (lst + 1)) bs) s)) (\<lambda>s1.
          if lastbn < 0 then Ok s1
          else if factor (Suc l) = 0 then Fault
          else let nb = long_at bs (4 * nat lst) in
            if nb = 0 then Ok s1 else indirtrunc l nb (lastbn mod factor (Suc l)) s1))"

definition lblkno :: "int \<Rightarrow> int" where "lblkno x = x div int DEV_BSIZE"
definition blkoff :: "int \<Rightarrow> nat" where "blkoff x = nat (x mod int DEV_BSIZE)"
definition MAXPIPSIZ :: int where "MAXPIPSIZ = int NDADDR * 1024"

text \<open>The last block that stays, by an unsigned addition; -1 when none does.\<close>

definition lastblk :: "int \<Rightarrow> int" where
  "lastblk len = lblkno ((len + int DEV_BSIZE - 1) mod 2 ^ 32) - 1"

text \<open>\<^verbatim>\<open>lastiblock\<close>, by level.\<close>

fun lastiblock :: "int \<Rightarrow> nat \<Rightarrow> int" where
  "lastiblock lst 0 = lst - int NDADDR"
| "lastiblock lst (Suc 0) = lastiblock lst 0 - NINDIR"
| "lastiblock lst (Suc (Suc l)) = lastiblock lst (Suc 0) - NINDIR2"

text \<open>
  \<^verbatim>\<open>iupdat\<close> copies an inode that has changed to its block, if that can be read. The times are left out, and the
  file system is mounted for writing.
\<close>

definition iupdat :: "nat \<Rightarrow> bstate \<Rightarrow> bstate" where
  "iupdat ip s =
     (if \<not> IUPD (ino s ip) then s
      else if rderr (bvol s) (itod (int ip)) then s\<lparr>b_uerr := Some EIO\<rparr>
      else upd_ino ip (\<lambda>i. i\<lparr>IUPD := False\<rparr>)
             (s\<lparr>di_addr := (di_addr s)(ip := i_addr (ino s ip)), di_size := (di_size s)(ip := i_size (ino s ip))\<rparr>))"

definition updret :: "nat \<Rightarrow> bstate \<Rightarrow> bstate" where
  "updret ip s = iupdat ip (upd_ino ip (\<lambda>i. i\<lparr>IUPD := True\<rparr>) s)"

text \<open>The addresses that go: an index into \<^verbatim>\<open>i_addr\<close> is cleared when nothing below it stays.\<close>

definition addr_goes :: "int \<Rightarrow> nat \<Rightarrow> bool" where
  "addr_goes lst r \<longleftrightarrow> (if r < NDADDR then int r > lst else lastiblock lst (r - NDADDR) < 0)"

definition cut_ino :: "int \<Rightarrow> int \<Rightarrow> binode \<Rightarrow> binode" where
  "cut_ino len lst i =
     i\<lparr>i_size := len, i_addr := map (\<lambda>r. if addr_goes lst r then 0 else i_addr i ! r) [0..<NADDR]\<rparr>"

text \<open>The three trees from the largest, until one of which something stays.\<close>

fun trunc_trees :: "int list \<Rightarrow> int \<Rightarrow> nat list \<Rightarrow> bstate \<Rightarrow> (bool \<times> bstate) outcome" where
  "trunc_trees ad lst [] s = Ok (True, s)"
| "trunc_trees ad lst (l # ls) s =
     (let bn = ad ! (NDADDR + l); li = max (-1) (lastiblock lst l) in
      obind (if bn = 0 then Ok s
             else obind (indirtrunc l bn li s) (\<lambda>s1. if li < 0 then free_blk bn s1 else Ok s1)) (\<lambda>s1.
      if li \<ge> 0 then Ok (False, s1) else trunc_trees ad lst ls s1))"

definition trunc_direct :: "int list \<Rightarrow> int \<Rightarrow> bstate \<Rightarrow> bstate outcome" where
  "trunc_direct ad lst = each (\<lambda>i s. if ad ! i = 0 then Ok s else free_blk (ad ! i) s) (rev [nat (lst + 1)..<NDADDR])"

definition trunc_blocks :: "nat \<Rightarrow> int \<Rightarrow> bstate \<Rightarrow> bstate outcome" where
  "trunc_blocks ip len s =
     (let lst = lastblk len; ad = i_addr (ino s ip) in
      obind (trunc_trees ad lst [2, 1, 0] (upd_ino ip (cut_ino len lst) s)) (\<lambda>(go, s1).
      if go then trunc_direct ad lst s1 else Ok s1))"

text \<open>Clearing the rest of the last block; \<open>None\<close> when \<^verbatim>\<open>itrunc\<close> returns.\<close>

definition clear_tail :: "nat \<Rightarrow> int \<Rightarrow> bstate \<Rightarrow> (bool \<times> bstate) outcome" where
  "clear_tail ip len s =
     (if blkoff len = 0 then Ok (True, s)
      else obind (bmap ip (lblkno len) True True s) (\<lambda>(bn, s1).
        if b_uerr s1 \<noteq> None \<or> bn < 0 then Ok (False, s1)
        else if rderr (bvol s1) bn then Ok (False, s1\<lparr>b_uerr := Some EIO\<rparr>)
        else Ok (True, put_blk bn (zero_from (blkoff len) (blk s1 bn)) s1)))"

definition itrunc :: "nat \<Rightarrow> int \<Rightarrow> bstate \<Rightarrow> bstate outcome" where
  "itrunc ip len s =
     (let s0 = (if IPIPE (ino s ip) then upd_ino ip (\<lambda>i. i\<lparr>i_size := MAXPIPSIZ\<rparr>) s else s) in
      if \<not> IPIPE (ino s ip) \<and> i_size (ino s ip) = len then Ok (updret ip s)
      else if i_size (ino s0 ip) < len
      then obind (bmap ip (lblkno (len - 1)) True True s0) (\<lambda>(bn, s1).
             if b_uerr s1 \<noteq> None \<or> bn < 0 then Ok s1
             else Ok (updret ip (upd_ino ip (\<lambda>i. i\<lparr>i_size := len\<rparr>) s1)))
      else obind (clear_tail ip len s0) (\<lambda>(on, s1).
             if \<not> on then Ok s1 else omap (updret ip) (trunc_blocks ip len s1)))"

end
