(* ===== verification/Bmap_Props.thy ===== *)
theory Bmap_Props
  imports Bmap
begin

text \<open>The trees of blocks as tries over the disk, and what setting one pointer and clearing many does to them.\<close>

section \<open>Bytes\<close>

lemma put_short_at: "Suc k < length bs \<Longrightarrow> short_at (put_short k w bs) k = w"
  unfolding short_at_def put_short_def
  by (simp, rule bit_eqI) (auto simp: bit_simps)

lemma put_short_other: "j \<noteq> k \<Longrightarrow> j \<noteq> Suc k \<Longrightarrow> Suc j \<noteq> k \<Longrightarrow> short_at (put_short k w bs) j = short_at bs j"
  by (simp add: short_at_def put_short_def)

lemma length_put [simp]: "length (put_short k w bs) = length bs" "length (put_long k v bs) = length bs"
  by (simp_all add: put_short_def put_long_def)

lemma long_halves: "push_bit 16 (ucast (ucast (drop_bit 16 w) :: u16)) OR ucast (ucast w :: u16) = (w :: u32)"
  by (rule bit_eqI) (auto simp: bit_simps)

lemma put_long_at:
  assumes "k + 3 < length bs" "- (2 ^ 31) \<le> v" "v < 2 ^ 31"
  shows "long_at (put_long k v bs) k = v"
proof -
  have "long_at (put_long k v bs) k = sint (word_of_int v :: u32)"
    using assms(1) by (simp add: long_at_def put_long_def put_short_at put_short_other long_halves)
  then show ?thesis using assms(2,3) by (simp add: sint_sbintrunc' signed_take_bit_int_eq_self)
qed

lemma put_long_other: "i \<noteq> j \<Longrightarrow> long_at (put_long (4 * i) v bs) (4 * j) = long_at bs (4 * j)"
proof -
  assume a: "i \<noteq> j"
  then have "4 * j \<noteq> 4 * i + 2" "4 * j + 2 \<noteq> 4 * i" "Suc (4 * j) \<noteq> 4 * i" "Suc (4 * j) \<noteq> 4 * i + 2" "4 * j \<noteq> Suc (4 * i)" "4 * j + 2 \<noteq> Suc (4 * i)"
    "4 * j \<noteq> Suc (4 * i + 2)" "Suc (4 * j + 2) \<noteq> 4 * i" by presburger+
  then show ?thesis using a by (simp add: long_at_def put_long_def put_short_other)
qed

lemma long_at_clrblk [simp]: "k + 3 < DEV_BSIZE \<Longrightarrow> long_at clrblk k = 0"
  by (simp add: long_at_def short_at_def clrblk_def)

lemma length_clrblk [simp]: "length clrblk = DEV_BSIZE"
  by (simp add: clrblk_def)

lemma length_zero_from [simp]: "length bs = DEV_BSIZE \<Longrightarrow> n \<le> DEV_BSIZE \<Longrightarrow> length (zero_from n bs) = DEV_BSIZE"
  by (simp add: zero_from_def)

lemma zero_from_at:
  assumes "length bs = DEV_BSIZE" "m \<le> 256" "i < 256"
  shows "long_at (zero_from (4 * m) bs) (4 * i) = (if i < m then long_at bs (4 * i) else 0)"
  using assms by (auto simp: long_at_def short_at_def zero_from_def nth_append DEV_BSIZE_def)

section \<open>Trees\<close>

text \<open>The block a path of indices leads to from a root; 0 when there is none. The paths of a tree with so many levels.\<close>

fun node :: "(int \<Rightarrow> bytes) \<Rightarrow> int \<Rightarrow> nat list \<Rightarrow> int" where
  "node B b [] = b"
| "node B b (i # is) = (if b = 0 then 0 else node B (long_at (B b) (4 * i)) is)"

definition paths :: "nat \<Rightarrow> nat list set" where
  "paths l = {is. length is \<le> l \<and> set is \<subseteq> {..<256}}"

lemma node_0 [simp]: "node B 0 is = 0"
  by (cases "is") auto

lemma node_snoc: "node B b (is @ [i]) = (if node B b is = 0 then 0 else long_at (B (node B b is)) (4 * i))"
  by (induction "is" arbitrary: b) auto

lemma node_append: "node B b (is @ js) = node B (node B b is) js"
  by (induction "is" arbitrary: b) auto

lemma paths_Nil [simp]: "[] \<in> paths l"
  by (simp add: paths_def)

lemma paths_0 [simp]: "is \<in> paths 0 \<longleftrightarrow> is = []"
  by (auto simp: paths_def)

lemma paths_Cons [simp]: "i # is \<in> paths (Suc l) \<longleftrightarrow> i < 256 \<and> is \<in> paths l"
  by (auto simp: paths_def)

lemma paths_snocD: "is @ [i] \<in> paths l \<Longrightarrow> is \<in> paths l \<and> i < 256 \<and> length is < l"
  by (auto simp: paths_def)

text \<open>The places of a file system: a file, one of its seven addresses, and a path below it.\<close>

definition places :: "(nat \<times> nat \<times> nat list) set" where
  "places = {(ip, r, is). r < NADDR \<and> is \<in> paths (r - 3)}"

definition addr :: "bstate \<Rightarrow> nat \<times> nat \<times> nat list \<Rightarrow> int" where
  "addr s = (\<lambda>(ip, r, is). node (blk s) (i_addr (ino s ip) ! r) is)"

lemma addr_snoc: "addr s (ip, r, js @ [j]) = (if addr s (ip, r, js) = 0 then 0 else long_at (blk s (addr s (ip, r, js))) (4 * j))"
  by (simp add: addr_def node_snoc)

lemma addr_root: "addr s (ip, r, []) = i_addr (ino s ip) ! r"
  by (simp add: addr_def)

text \<open>
  The blocks in \<open>T\<close> are shared out between the free list \<open>F\<close> and the places of the files, no block being in two places.
\<close>

definition files_ok :: "int set \<Rightarrow> int set \<Rightarrow> bstate \<Rightarrow> int list \<Rightarrow> bool" where
  "files_ok U T s F \<longleftrightarrow> fs_ok U (bvol s) F \<and> set F \<subseteq> T \<and> T \<subseteq> U \<and> U \<subseteq> {0<..<2 ^ 31} \<and>
     (\<forall>b. length (blk s b) = DEV_BSIZE) \<and> (\<forall>b. length (stale s b) = DEV_BSIZE) \<and> (\<forall>ip. length (i_addr (ino s ip)) = NADDR) \<and>
     (\<forall>p\<in>places. \<forall>q\<in>places. addr s p = addr s q \<longrightarrow> addr s p \<noteq> 0 \<longrightarrow> p = q) \<and>
     addr s ` places - {0} = T - set F"

lemma files_okD:
  assumes "files_ok U T s F"
  shows "fs_ok U (bvol s) F" "set F \<subseteq> T" "T \<subseteq> U" "U \<subseteq> {0<..<2 ^ 31}" "length (blk s b) = DEV_BSIZE" "length (stale s b) = DEV_BSIZE"
    "length (i_addr (ino s ip)) = NADDR" "p \<in> places \<Longrightarrow> q \<in> places \<Longrightarrow> addr s p = addr s q \<Longrightarrow> addr s p \<noteq> 0 \<Longrightarrow> p = q"
    "addr s ` places - {0} = T - set F" "p \<in> places \<Longrightarrow> addr s p \<noteq> 0 \<Longrightarrow> addr s p \<in> T \<and> addr s p \<notin> set F"
    "distinct F"
proof -
  show "fs_ok U (bvol s) F" "set F \<subseteq> T" "T \<subseteq> U" "U \<subseteq> {0<..<2 ^ 31}" "length (blk s b) = DEV_BSIZE" "length (stale s b) = DEV_BSIZE"
    "length (i_addr (ino s ip)) = NADDR" and i: "addr s ` places - {0} = T - set F"
    using assms by (simp_all add: files_ok_def)
  show "p \<in> places \<Longrightarrow> q \<in> places \<Longrightarrow> addr s p = addr s q \<Longrightarrow> addr s p \<noteq> 0 \<Longrightarrow> p = q" using assms unfolding files_ok_def by blast
  show "p \<in> places \<Longrightarrow> addr s p \<noteq> 0 \<Longrightarrow> addr s p \<in> T \<and> addr s p \<notin> set F" using i by blast
  show "distinct F" using assms disk.ok_distinct[of U "bvol s" F] unfolding files_ok_def by blast
qed

text \<open>Selectors of the updates.\<close>

lemma put_blk_sel [simp]:
  "blk (put_blk b bs s) = (blk s)(b := bs)" "stale (put_blk b bs s) = stale s" "ino (put_blk b bs s) = ino s" "b_uerr (put_blk b bs s) = b_uerr s"
  "bvol (put_blk b bs s) = write_data b (fblk_of bs) (bvol s)" "di_addr (put_blk b bs s) = di_addr s" "di_size (put_blk b bs s) = di_size s"
  by (simp_all add: put_blk_def)

lemma upd_ino_sel [simp]:
  "blk (upd_ino ip f s) = blk s" "stale (upd_ino ip f s) = stale s" "ino (upd_ino ip f s) = (ino s)(ip := f (ino s ip))" "b_uerr (upd_ino ip f s) = b_uerr s"
  "bvol (upd_ino ip f s) = bvol s" "di_addr (upd_ino ip f s) = di_addr s" "di_size (upd_ino ip f s) = di_size s"
  by (simp_all add: upd_ino_def)

section \<open>A new block\<close>

text \<open>The state in which one more place has a block.\<close>

lemma files_ok_extend:
  assumes ok: "files_ok U T s (b # F)" and p: "p \<in> places" "addr s p = 0" and v: "fs_ok U (bvol s') F"
    and a: "\<And>q. q \<in> places \<Longrightarrow> addr s' q = (if q = p then b else addr s q)"
    and len: "\<And>b. length (blk s' b) = DEV_BSIZE" "\<And>b. length (stale s' b) = DEV_BSIZE" "\<And>ip. length (i_addr (ino s' ip)) = NADDR"
  shows "files_ok U T s' F"
proof -
  note o = files_okD[OF ok]
  have b: "b \<in> T" "b \<notin> set F" "b \<noteq> 0" using o(2,3,4,11) by auto
  have nb: "addr s q \<noteq> b" if "q \<in> places" for q using o(10)[OF that] b(3) by auto
  have "addr s' ` places = insert b (addr s ` (places - {p}))" using p(1) a by (auto simp: image_iff)
  moreover have "addr s ` (places - {p}) - {0} = addr s ` places - {0}" using p(2) by auto
  ultimately have im: "addr s' ` places - {0} = T - set F" using o(9) b by auto
  have "q = q'" if "q \<in> places" "q' \<in> places" "addr s' q = addr s' q'" "addr s' q \<noteq> 0" for q q'
    using that nb[OF that(1)] nb[OF that(2)] o(8)[OF that(1,2)] unfolding a[OF that(1)] a[OF that(2)] by (auto split: if_splits)
  then show ?thesis unfolding files_ok_def using v o(2-4) im len by auto
qed

lemma link_root:
  assumes ok: "files_ok U T s (b # F)" and v: "fs_ok U v F" and p: "r < NADDR" "i_addr (ino s ip) ! r = 0"
    and bs: "length bs = DEV_BSIZE" "r - 3 = 0 \<or> bs = clrblk"
  defines "s' \<equiv> set_addr ip r b (put_blk b bs (s\<lparr>bvol := v\<rparr>))"
  shows "files_ok U T s' F \<and> (\<forall>q\<in>places. addr s' q = (if q = (ip, r, []) then b else addr s q))"
proof -
  note o = files_okD[OF ok]
  have b: "b \<in> T" "b \<notin> set F" "b \<noteq> 0" using o(2,3,4,11) by auto
  have s': "blk s' = (blk s)(b := bs)" "ino s' = (ino s)(ip := (ino s ip)\<lparr>i_addr := (i_addr (ino s ip))[r := b], IUPD := True\<rparr>)" "stale s' = stale s"
    "bvol s' = write_data b (fblk_of bs) v" by (simp_all add: s'_def set_addr_def)
  have a: "addr s' (ip', r', js) = (if (ip', r', js) = (ip, r, []) then b else addr s (ip', r', js))" if "(ip', r', js) \<in> places" for ip' r' js
    using that
  proof (induction js rule: rev_induct)
    case Nil
    then show ?case using p o(7)[of ip] by (auto simp: addr_def s')
  next
    case (snoc j js)
    have pl: "(ip', r', js) \<in> places" "j < 256" "length js < r' - 3" using snoc.prems by (auto simp: places_def dest: paths_snocD)
    show ?case
    proof (cases "(ip', r', js) = (ip, r, [])")
      case True
      then have "bs = clrblk" "addr s' (ip', r', js) = b" "addr s (ip', r', js) = 0" using bs(2) pl snoc.IH p by (auto simp: addr_def)
      then show ?thesis using b(3) pl(2) by (simp add: addr_snoc s' DEV_BSIZE_def)
    next
      case False
      then have "addr s' (ip', r', js) = addr s (ip', r', js)" using snoc.IH[OF pl(1)] by (simp only: if_False)
      moreover have "addr s (ip', r', js) \<noteq> b" using o(10)[OF pl(1)] b(3) by auto
      ultimately show ?thesis by (simp add: addr_snoc s')
    qed
  qed
  have "(ip, r, []) \<in> places" "addr s (ip, r, []) = 0" using p by (simp_all add: places_def addr_def)
  moreover have "addr s' q = (if q = (ip, r, []) then b else addr s q)" if "q \<in> places" for q using a that by (cases q) blast
  moreover have "fs_ok U (bvol s') F" unfolding s' by (rule disk.write_law[OF v b(2)])
  ultimately have "files_ok U T s' F" using o(5,6,7) bs(1) by (intro files_ok_extend[OF ok]) (auto simp: s')
  then show ?thesis using \<open>\<And>q. q \<in> places \<Longrightarrow> _\<close> by blast
qed

lemma link_below:
  assumes ok: "files_ok U T s (b # F)" and v: "fs_ok U v F" and p: "(ip, r, is @ [i]) \<in> places" "addr s (ip, r, is) = nb" "nb \<noteq> 0"
    and z: "addr s (ip, r, is @ [i]) = 0"
  defines "s' \<equiv> put_blk nb (put_long (4 * i) b (blk s nb)) (put_blk b clrblk (s\<lparr>bvol := v\<rparr>))"
  shows "files_ok U T s' F \<and> (\<forall>q\<in>places. addr s' q = (if q = (ip, r, is @ [i]) then b else addr s q))"
proof -
  note o = files_okD[OF ok]
  have b: "b \<in> T" "b \<notin> set F" "b \<noteq> 0" "b < 2 ^ 31" "0 < b" using o(2,3,4,11) by auto
  have pp: "(ip, r, is) \<in> places" "i < 256" using p(1) by (auto simp: places_def dest: paths_snocD)
  have nb: "nb \<noteq> b" "nb \<notin> set F" using o(10)[OF pp(1)] p(2,3) by auto
  have s': "blk s' = (blk s)(b := clrblk, nb := put_long (4 * i) b (blk s nb))" "ino s' = ino s" "stale s' = stale s"
    "bvol s' = write_data nb (fblk_of (put_long (4 * i) b (blk s nb))) (write_data b (fblk_of clrblk) v)" using nb by (simp_all add: s'_def)
  have a: "addr s' (ip', r', js) = (if (ip', r', js) = (ip, r, is @ [i]) then b else addr s (ip', r', js))" if "(ip', r', js) \<in> places" for ip' r' js
    using that
  proof (induction js rule: rev_induct)
    case Nil
    then show ?case by (auto simp: addr_root s')
  next
    case (snoc j js)
    have pl: "(ip', r', js) \<in> places" "j < 256" using snoc.prems by (auto simp: places_def dest: paths_snocD)
    show ?case
    proof (cases "(ip', r', js) = (ip, r, is @ [i])")
      case True
      then have "addr s' (ip', r', js) = b" "addr s (ip', r', js) = 0" using pl snoc.IH z by auto
      then show ?thesis using b(3) pl(2) True nb(1) by (simp add: addr_snoc s' DEV_BSIZE_def del: append_assoc)
    next
      case False
      then have e: "addr s' (ip', r', js) = addr s (ip', r', js)" using snoc.IH[OF pl(1)] by (simp only: if_False)
      consider "addr s (ip', r', js) = 0" | "addr s (ip', r', js) = nb" | "addr s (ip', r', js) \<noteq> 0" "addr s (ip', r', js) \<noteq> nb" by blast
      then show ?thesis
      proof cases
        case 1
        then show ?thesis using e p by (auto simp: addr_snoc)
      next
        case 2
        then have q: "(ip', r', js) = (ip, r, is)" using o(8)[OF pl(1) pp(1)] p by simp
        have "long_at (put_long (4 * i) b (blk s nb)) (4 * j) = (if j = i then b else long_at (blk s nb) (4 * j))"
          using put_long_at[of "4 * i" "blk s nb" b] put_long_other[of i j] pp(2) b o(5)[of nb] by (simp add: DEV_BSIZE_def)
        then show ?thesis using 2 q e p(3) by (auto simp: addr_snoc s')
      next
        case 3
        then have "addr s (ip', r', js) \<noteq> b" using o(10)[OF pl(1)] by auto
        moreover have "(ip', r', js) \<noteq> (ip, r, is)" using 3 p by auto
        ultimately show ?thesis using 3 e by (auto simp: addr_snoc s')
      qed
    qed
  qed
  have "addr s' q = (if q = (ip, r, is @ [i]) then b else addr s q)" if "q \<in> places" for q using a that by (cases q) blast
  moreover have "fs_ok U (bvol s') F" unfolding s' by (intro disk.write_law v b nb)
  ultimately have "files_ok U T s' F" using o(5,6,7) by (intro files_ok_extend[OF ok p(1) z]) (auto simp: s')
  then show ?thesis using \<open>\<And>q. q \<in> places \<Longrightarrow> _\<close> by blast
qed

section \<open>bmap\<close>

text \<open>The path to a block in a tree of so many levels.\<close>

fun digits :: "nat \<Rightarrow> int \<Rightarrow> nat list" where
  "digits 0 bn = []"
| "digits (Suc n) bn = nat (bn div 256 ^ n mod 256) # digits n bn"

lemma length_digits [simp]: "length (digits n bn) = n"
  by (induction n) auto

lemma digits_paths [simp]: "set (digits n bn) \<subseteq> {..<256}"
  by (induction n) auto

lemma index_digit: "nat (drop_bit (NSHIFT * Suc n - NSHIFT) bn AND 255) = nat (bn div 256 ^ n mod 256)"
proof -
  have "bn div 2 ^ (8 * n) = bn div 256 ^ n" by (simp add: power_mult)
  moreover have "x AND 255 = x mod 256" for x :: int using take_bit_eq_mask[of 8 x] by (simp add: take_bit_eq_mod mask_eq_exp_minus_1)
  ultimately show ?thesis by (simp add: NSHIFT_def drop_bit_eq_div)
qed

text \<open>What a call that asks for one place may change: places above it get a block. Data blocks keep their contents.\<close>

fun leaf :: "nat \<times> nat \<times> nat list \<Rightarrow> bool" where
  "leaf (ip, r, is) \<longleftrightarrow> length is = r - 3"

fun above :: "nat \<times> nat \<times> nat list \<Rightarrow> nat \<times> nat \<times> nat list \<Rightarrow> bool" where
  "above (ip, r, is) (ip', r', js) \<longleftrightarrow> ip = ip' \<and> r = r' \<and> (\<exists>k. is = take k js)"

definition grows :: "bool \<Rightarrow> nat \<times> nat \<times> nat list \<Rightarrow> bstate \<Rightarrow> bstate \<Rightarrow> bool" where
  "grows c p s s' \<longleftrightarrow> (\<forall>q\<in>places. addr s' q = addr s q \<or> addr s q = 0 \<and> above q p) \<and>
     (\<forall>q\<in>places. leaf q \<longrightarrow> addr s q \<noteq> 0 \<longrightarrow> blk s' (addr s q) = blk s (addr s q)) \<and>
     (c \<longrightarrow> addr s p = 0 \<longrightarrow> addr s' p \<noteq> 0 \<longrightarrow> blk s' (addr s' p) = clrblk) \<and>
     (\<forall>jp. i_size (ino s' jp) = i_size (ino s jp) \<and> IPIPE (ino s' jp) = IPIPE (ino s jp)) \<and> stale s' = stale s \<and>
     di_addr s' = di_addr s \<and> di_size s' = di_size s"

lemma grows_refl [simp]: "grows c p s s"
  by (simp add: grows_def)

lemma grows_same [simp]: "grows c p s (s\<lparr>rablock := x\<rparr>)" "grows c p s (s\<lparr>b_uerr := e\<rparr>)"
  by (simp_all add: grows_def addr_def)

lemma grows_trans:
  assumes g: "grows c p s s'" "grows c p s' s''" and p: "p \<in> places" "leaf p"
  shows "grows c p s s''"
proof -
  have a: "addr s'' q = addr s q \<or> addr s q = 0 \<and> above q p" if "q \<in> places" for q
    using g that unfolding grows_def by metis
  have b: "blk s'' (addr s q) = blk s (addr s q)" if "q \<in> places" "leaf q" "addr s q \<noteq> 0" for q
  proof -
    have "addr s' q = addr s q" "blk s' (addr s q) = blk s (addr s q)" using g(1) that unfolding grows_def by blast+
    then show ?thesis using g(2) that unfolding grows_def by metis
  qed
  have d: "blk s'' (addr s'' p) = clrblk" if "c" "addr s p = 0" "addr s'' p \<noteq> 0"
  proof (cases "addr s' p = 0")
    case True
    then show ?thesis using g(2) that unfolding grows_def by blast
  next
    case False
    then have "blk s' (addr s' p) = clrblk" "addr s'' p = addr s' p" "blk s'' (addr s' p) = blk s' (addr s' p)"
      using g that p unfolding grows_def by blast+
    then show ?thesis by simp
  qed
  show ?thesis using a b d g unfolding grows_def by simp
qed

lemma alloc_blk_none:
  assumes "files_ok U T s []"
  shows "\<exists>s'. alloc_blk clr s = Ok (None, s') \<and> files_ok U T s' [] \<and> grows c p s s' \<and> b_uerr s' = Some ENOSPC"
proof -
  obtain v where v: "balloc (bvol s) = Ok (None, v)" "fs_ok U v []" using balloc_none files_okD(1)[OF assms] by blast
  have "addr (s\<lparr>bvol := v, b_uerr := Some ENOSPC\<rparr>) = addr s" by (simp add: addr_def)
  then show ?thesis using v assms by (simp add: alloc_blk_def files_ok_def grows_def)
qed

lemma alloc_blk_some:
  assumes "files_ok U T s (b # F)"
  shows "\<exists>v. alloc_blk clr s = Ok (Some b, put_blk b (if clr then clrblk else stale s b) (s\<lparr>bvol := v\<rparr>)) \<and> fs_ok U v F"
  using balloc_some[of U "bvol s" b F] files_okD(1)[OF assms] by (auto simp: alloc_blk_def)

lemma link_below_grows:
  assumes ok: "files_ok U T s (b # F)" and v: "fs_ok U v F" and p: "(ip, r, is @ [i]) \<in> places" "addr s (ip, r, is) = nb" "nb \<noteq> 0"
    and z: "addr s (ip, r, is @ [i]) = 0" and t: "above (ip, r, is @ [i]) p" "p \<in> places"
  shows "grows c p s (put_blk nb (put_long (4 * i) b (blk s nb)) (put_blk b clrblk (s\<lparr>bvol := v\<rparr>)))" (is "grows c p s ?s")
proof -
  note o = files_okD[OF ok] and l = link_below[OF ok v p z]
  have pp: "(ip, r, is) \<in> places" "length is < r - 3" using p(1) by (auto simp: places_def dest: paths_snocD)
  have nb: "nb \<noteq> b" "b \<noteq> 0" using o(2,3,4) o(10)[OF pp(1)] p(2,3) by auto
  have 1: "addr ?s q = addr s q \<or> addr s q = 0 \<and> above q p" if "q \<in> places" for q using l that z t(1) by auto
  have 2: "blk ?s (addr s q) = blk s (addr s q)" if "q \<in> places" "leaf q" "addr s q \<noteq> 0" for q
  proof -
    have "addr s q \<noteq> b" using o(10)[OF that(1,3)] by auto
    moreover have "addr s q \<noteq> nb" using o(8)[OF that(1) pp(1)] that p(2,3) pp(2) by auto
    ultimately show ?thesis by simp
  qed
  have "blk ?s (addr ?s p) = clrblk" if "addr s p = 0" "addr ?s p \<noteq> 0"
    using bspec[OF conjunct2[OF l] t(2)] that nb by (auto split: if_splits)
  then show ?thesis using 1 2 unfolding grows_def by (intro conjI ballI allI impI) (assumption | simp)+
qed

lemma bmap_walk_Suc:
  assumes "\<not> rderr (bvol s) nb" "i = nat (bn div 256 ^ n mod 256)"
  shows "bmap_walk wr (Suc n) (NSHIFT * Suc n) bn nb ra s =
    (let ra1 = (if int i < NINDIR - 1 then long_at (blk s nb) (4 * (i + 1)) else ra) in
     if long_at (blk s nb) (4 * i) \<noteq> 0 then bmap_walk wr n (NSHIFT * n) bn (long_at (blk s nb) (4 * i)) ra1 s
     else if \<not> wr then Ok (-1, s)
     else obind (alloc_blk True s) (\<lambda>(r, s1).
            case r of
              None \<Rightarrow> Ok (-1, s1)
            | Some b \<Rightarrow> bmap_walk wr n (NSHIFT * n) bn b ra1 (put_blk nb (put_long (4 * i) b (blk s1 nb)) s1)))"
proof -
  have "NSHIFT * Suc n - NSHIFT = NSHIFT * n" by simp
  then show ?thesis using assms(1) index_digit[of n bn] unfolding assms(2) by (simp only: bmap_walk.simps Let_def if_False)
qed

lemma bmap_walk_read:
  assumes ok: "files_ok U T s F"
  shows "\<lbrakk>(ip, r, is) \<in> places; length is + n = r - 3; addr s (ip, r, is) = nb; nb \<noteq> 0\<rbrakk> \<Longrightarrow>
    \<exists>ra'. bmap_walk False n (NSHIFT * n) bn nb ra s =
      Ok (if addr s (ip, r, is @ digits n bn) = 0 then (-1, s) else (addr s (ip, r, is @ digits n bn), s\<lparr>rablock := ra'\<rparr>))"
proof (induction n arbitrary: "is" nb ra)
  case (Suc n)
  let ?i = "nat (bn div 256 ^ n mod 256)"
  note o = files_okD[OF ok]
  have "nb \<in> U" using o(3) o(10)[OF Suc.prems(1)] Suc.prems(3,4) by auto
  then have e: "\<not> rderr (bvol s) nb" using o(1) by (auto simp: fs_ok_def)
  have pl: "(ip, r, is @ [?i]) \<in> places" using Suc.prems(1,2) by (auto simp: places_def paths_def)
  have a: "addr s (ip, r, is @ [?i]) = long_at (blk s nb) (4 * ?i)" using Suc.prems by (simp add: addr_snoc)
  have z: "addr s (ip, r, is @ ?i # digits n bn) = 0" if "addr s (ip, r, is @ [?i]) = 0"
    using that node_append[of "blk s" "i_addr (ino s ip) ! r" "is @ [?i]" "digits n bn"] by (simp add: addr_def)
  show ?case
  proof (cases "long_at (blk s nb) (4 * ?i) = 0")
    case True
    then show ?thesis using a z unfolding bmap_walk_Suc[OF e refl] by simp
  next
    case False
    have "length (is @ [?i]) + n = r - 3" using Suc.prems(2) by simp
    from Suc.IH[OF pl this a False] False show ?thesis unfolding bmap_walk_Suc[OF e refl] Let_def by (simp only: if_True digits.simps append_assoc append_Cons append_Nil not_False_eq_True)
  qed
qed auto

lemma bmap_walk_write:
  assumes "files_ok U T s F" "(ip, r, is) \<in> places" "length is + n = r - 3" "addr s (ip, r, is) = nb" "nb \<noteq> 0"
  shows "\<exists>nb' s' F'. bmap_walk True n (NSHIFT * n) bn nb ra s = Ok (nb', s') \<and> files_ok U T s' F' \<and> grows True (ip, r, is @ digits n bn) s s' \<and>
    (if nb' = -1 then length F < n \<and> F' = [] \<and> b_uerr s' = Some ENOSPC else nb' = addr s' (ip, r, is @ digits n bn) \<and> nb' \<noteq> 0 \<and> b_uerr s' = b_uerr s)"
  using assms
proof (induction n arbitrary: s F "is" nb ra)
  case 0
  then have "files_ok U T (s\<lparr>rablock := ra\<rparr>) F" by (simp add: files_ok_def addr_def)
  moreover have "nb \<noteq> -1" using files_okD(3,4,10)[OF 0(1)] 0 by fastforce
  ultimately show ?case using 0 by (auto simp: addr_def)
next
  case (Suc n)
  let ?i = "nat (bn div 256 ^ n mod 256)" and ?p = "(ip, r, is @ digits (Suc n) bn)"
  note o = files_okD[OF Suc.prems(1)]
  have "nb \<in> U" using o(3) o(10)[OF Suc.prems(2)] Suc.prems(4,5) by auto
  then have e: "\<not> rderr (bvol s) nb" using o(1) by (auto simp: fs_ok_def)
  have pl: "(ip, r, is @ [?i]) \<in> places" "?p \<in> places" "leaf ?p" "above (ip, r, is @ [?i]) ?p" "length (is @ [?i]) + n = r - 3"
    using Suc.prems(2,3) by (auto simp: places_def paths_def intro: exI[of _ "Suc (length is)"])
  have a: "addr s (ip, r, is @ [?i]) = long_at (blk s nb) (4 * ?i)" using Suc.prems by (simp add: addr_snoc)
  let ?ra = "if int ?i < NINDIR - 1 then long_at (blk s nb) (4 * (?i + 1)) else ra"
  show ?case
  proof (cases "long_at (blk s nb) (4 * ?i) = 0")
    case False
    from Suc.IH[OF Suc.prems(1) pl(1,5) a False, of ?ra] obtain nb' s' F' where w: "bmap_walk True n (NSHIFT * n) bn (long_at (blk s nb) (4 * ?i)) ?ra s = Ok (nb', s')"
      "files_ok U T s' F'" "grows True (ip, r, (is @ [?i]) @ digits n bn) s s'"
      "if nb' = -1 then length F < n \<and> F' = [] \<and> b_uerr s' = Some ENOSPC else nb' = addr s' (ip, r, (is @ [?i]) @ digits n bn) \<and> nb' \<noteq> 0 \<and> b_uerr s' = b_uerr s" by blast
    show ?thesis unfolding bmap_walk_Suc[OF e refl] Let_def using w False
      by (intro exI[of _ nb'] exI[of _ s'] exI[of _ F']) (auto split: if_splits)
  next
    case True
    show ?thesis
    proof (cases F)
      case Nil
      then obtain s1 where "alloc_blk True s = Ok (None, s1)" "files_ok U T s1 []" "grows True ?p s s1" "b_uerr s1 = Some ENOSPC"
        using alloc_blk_none[of U T s True True ?p] Suc.prems(1) by auto
      then show ?thesis unfolding bmap_walk_Suc[OF e refl] Let_def using True Nil by auto
    next
      case (Cons b G)
      then have ok: "files_ok U T s (b # G)" using Suc.prems(1) by simp
      obtain v where v: "alloc_blk True s = Ok (Some b, put_blk b clrblk (s\<lparr>bvol := v\<rparr>))" "fs_ok U v G" using alloc_blk_some[OF ok, of True] by auto
      let ?s = "put_blk nb (put_long (4 * ?i) b (blk s nb)) (put_blk b clrblk (s\<lparr>bvol := v\<rparr>))"
      note l = link_below[OF ok v(2) pl(1) Suc.prems(4,5)] link_below_grows[OF ok v(2) pl(1) Suc.prems(4,5) _ pl(4,2), of True]
      have z: "addr s (ip, r, is @ [?i]) = 0" using a True by simp
      have b: "b \<noteq> 0" "nb \<noteq> b" using o(2,3,4) o(10)[OF Suc.prems(2)] Suc.prems(4,5) Cons by auto
      have ls: "files_ok U T ?s G" "addr ?s (ip, r, is @ [?i]) = b" "grows True ?p s ?s" using l z pl(1) by auto
      obtain nb' s' F' where r: "bmap_walk True n (NSHIFT * n) bn b ?ra ?s = Ok (nb', s')" "files_ok U T s' F'"
        "grows True (ip, r, (is @ [?i]) @ digits n bn) ?s s'"
        "if nb' = -1 then length G < n \<and> F' = [] \<and> b_uerr s' = Some ENOSPC else nb' = addr s' (ip, r, (is @ [?i]) @ digits n bn) \<and> nb' \<noteq> 0 \<and> b_uerr s' = b_uerr ?s"
        using Suc.IH[OF ls(1) pl(1,5) ls(2) b(1), of ?ra] by blast
      have "grows True ?p ?s s'" using r(3) by simp
      note g = grows_trans[OF ls(3) this pl(2,3)]
      have "bmap_walk True (Suc n) (NSHIFT * Suc n) bn nb ra s = Ok (nb', s')"
        unfolding bmap_walk_Suc[OF e refl] Let_def using True v(1) b r(1) by simp
      moreover have "if nb' = -1 then length F < Suc n \<and> F' = [] \<and> b_uerr s' = Some ENOSPC else nb' = addr s' ?p \<and> nb' \<noteq> 0 \<and> b_uerr s' = b_uerr s" using r(4) Cons by auto
      ultimately show ?thesis using r(2) g by blast
    qed
  qed
qed

text \<open>The place of a logical block: the abstract layout of a file.\<close>

definition place_of :: "int \<Rightarrow> (nat \<times> nat list) option" where
  "place_of bn =
     (if bn < 0 then None
      else if bn < 4 then Some (nat bn, [])
      else if bn - 4 < 256 then Some (4, digits 1 (bn - 4))
      else if bn - 260 < 256 ^ 2 then Some (5, digits 2 (bn - 260))
      else if bn - 65796 < 256 ^ 3 then Some (6, digits 3 (bn - 65796))
      else None)"

definition fmap :: "bstate \<Rightarrow> nat \<Rightarrow> int \<Rightarrow> int" where
  "fmap s ip bn = (case place_of bn of None \<Rightarrow> 0 | Some (r, is) \<Rightarrow> addr s (ip, r, is))"

lemma place_of_places: "place_of bn = Some (r, is) \<Longrightarrow> (ip, r, is) \<in> places \<and> leaf (ip, r, is)"
  by (auto simp: place_of_def places_def paths_def NADDR_def NDADDR_def NIADDR_def numeral_2_eq_2 numeral_3_eq_3 split: if_splits)

lemma digits_inj: "digits n a = digits n b \<Longrightarrow> a mod 256 ^ n = b mod 256 ^ n"
proof (induction n)
  case (Suc n)
  have e: "x mod 256 ^ Suc n = 256 ^ n * (x div 256 ^ n mod 256) + x mod 256 ^ n" for x :: int
    using mod_mult2_eq'[of x "256 ^ n" 256] by (simp add: mult.commute)
  have "a div 256 ^ n mod 256 = b div 256 ^ n mod 256" "digits n a = digits n b" using Suc.prems by (simp_all add: nat_eq_iff2)
  then show ?case using Suc.IH e[of a] e[of b] by simp
qed simp

lemma place_of_inj:
  assumes "place_of a = Some x" "place_of b = Some x"
  shows "a = b"
proof -
  have d: "u = v" if "digits n u = digits n v" "0 \<le> u" "u < 256 ^ n" "0 \<le> v" "v < 256 ^ n" for n u v
    using digits_inj[OF that(1)] that(2-5) by (simp add: mod_pos_pos_trivial)
  obtain r "is" where x: "x = (r, is)" by (cases x)
  have c: "0 \<le> a \<and> a < 4 \<and> a = int r \<and> r < 4 \<or> (\<exists>n k. r = 3 + n \<and> 0 < n \<and> k = (if n = 1 then 4 else if n = 2 then 260 else 65796) \<and> is = digits n (a - k) \<and> 0 \<le> a - k \<and> a - k < 256 ^ n)"
    if "place_of a = Some (r, is)" for a using that by (auto simp: place_of_def split: if_splits intro: exI[of _ 1] exI[of _ 2] exI[of _ 3])
  from c[OF assms(1)[unfolded x]] c[OF assms(2)[unfolded x]] show ?thesis
  proof (elim disjE exE conjE)
    fix n k n' k' assume h: "r = 3 + n" "is = digits n (a - k)" "0 \<le> a - k" "a - k < 256 ^ n" "r = 3 + n'" "is = digits n' (b - k')" "0 \<le> b - k'" "b - k' < 256 ^ n'"
      "k = (if n = 1 then 4 else if n = 2 then 260 else 65796)" "k' = (if n' = 1 then 4 else if n' = 2 then 260 else 65796)"
    then have "n' = n" "k' = k" by simp_all
    then show "a = b" using d[of n "a - k" "b - k"] h by simp
  qed simp_all
qed

lemma level_of:
  "bmap_level 3 0 1 x = (if x < 256 then Some (3, 8, x) else if x - 256 < 65536 then Some (2, 16, x - 256)
     else if x - 65792 < 16777216 then Some (1, 24, x - 65792) else None)"
proof -
  have "bmap_level (Suc (Suc (Suc 0))) 0 1 x = (if x < 256 then Some (Suc (Suc (Suc 0)), 8, x) else if x - 256 < 65536 then Some (Suc (Suc 0), 16, x - 256)
     else if x - 65792 < 16777216 then Some (Suc 0, 24, x - 65792) else None)"
    by (simp add: NSHIFT_def Let_def push_bit_eq_mult)
  then show ?thesis by (simp add: numeral_3_eq_3 numeral_2_eq_2)
qed

lemma bmap_tree:
  assumes "place_of bn = Some (r, is)" "4 \<le> bn"
  shows "\<exists>n bn1. bmap_level 3 0 1 (bn - 4) = Some (4 - n, NSHIFT * n, bn1) \<and> is = digits n bn1 \<and> r = 3 + n \<and> 0 < n \<and> n < 4"
proof -
  consider "bn - 4 < 256" "r = 4" "is = digits 1 (bn - 4)" | "\<not> bn - 4 < 256" "bn - 260 < 65536" "r = 5" "is = digits 2 (bn - 260)"
    | "\<not> bn - 4 < 256" "\<not> bn - 260 < 65536" "bn - 65796 < 16777216" "r = 6" "is = digits 3 (bn - 65796)"
    using assms by (auto simp: place_of_def split: if_splits)
  then show ?thesis
  proof cases
    case 1 then show ?thesis by (intro exI[of _ 1] exI[of _ "bn - 4"]) (simp add: level_of NSHIFT_def)
  next
    case 2 then show ?thesis by (intro exI[of _ 2] exI[of _ "bn - 260"]) (simp add: level_of NSHIFT_def)
  next
    case 3 then show ?thesis by (intro exI[of _ 3] exI[of _ "bn - 65796"]) (simp add: level_of NSHIFT_def)
  qed
qed

lemma bmap_large: "place_of bn = None \<Longrightarrow> 0 \<le> bn \<Longrightarrow> 4 \<le> bn \<and> bmap_level 3 0 1 (bn - 4) = None"
  by (auto simp: place_of_def level_of split: if_splits)

lemma NADDR_eq [simp]: "int NADDR - 3 = 4" "NADDR - 4 = 3" "NADDR = 7"
  by (simp_all add: NADDR_def NDADDR_def NIADDR_def)


lemma bmap_none: "place_of bn = None \<Longrightarrow> \<exists>ra. bmap ip bn wr clr s = Ok (0, s\<lparr>rablock := ra, b_uerr := Some EFBIG\<rparr>)"
proof -
  assume p: "place_of bn = None"
  show ?thesis
  proof (cases "bn < 0")
    case True
    then show ?thesis by (intro exI[of _ "rablock s"]) (simp add: bmap_def)
  next
    case False
    then show ?thesis using bmap_large[OF p] by (intro exI[of _ 0]) (simp add: bmap_def)
  qed
qed

lemma ok_rablock [simp]: "files_ok U T (s\<lparr>rablock := x\<rparr>) F = files_ok U T s F" "addr (s\<lparr>rablock := x\<rparr>) = addr s"
  by (simp_all add: files_ok_def addr_def)

lemma if_rablock: "\<exists>ra. (if c then s\<lparr>rablock := x\<rparr> else s) = s\<lparr>rablock := ra\<rparr>"
  by (cases c) (auto intro: exI[of _ "rablock s"])

lemma bmap_direct_found: "i_addr (ino s ip) ! r \<noteq> 0 \<Longrightarrow> \<exists>ra. bmap_direct ip r wr clr s = Ok (i_addr (ino s ip) ! r, s\<lparr>rablock := ra\<rparr>)"
  unfolding bmap_direct_def using if_rablock[where c = "r < NADDR - 4" and s = s and x = "i_addr (ino s ip) ! (r + 1)"] by (auto simp del: NADDR_eq)

lemma bmap_direct_new:
  assumes "i_addr (ino s ip) ! r = 0" "alloc_blk clr s = Ok (Some b, s1)"
  shows "\<exists>ra. bmap_direct ip r True clr s = Ok (b, (set_addr ip r b s1)\<lparr>rablock := ra\<rparr>)"
proof -
  let ?s = "set_addr ip r b s1"
  obtain ra where "(if r < NADDR - 4 then ?s\<lparr>rablock := i_addr (ino ?s ip) ! (r + 1)\<rparr> else ?s) = ?s\<lparr>rablock := ra\<rparr>" using if_rablock by blast
  then show ?thesis unfolding bmap_direct_def using assms by (auto simp del: NADDR_eq)
qed

lemma bmap_read:
  assumes ok: "files_ok U T s F" and p: "place_of bn = Some (r, is)"
  shows "\<exists>ra. bmap ip bn False clr s = Ok (if fmap s ip bn = 0 then -1 else fmap s ip bn, s\<lparr>rablock := ra\<rparr>)"
proof (cases "bn < 4")
  case True
  then have r: "r = nat bn" "is = []" "0 \<le> bn" using p by (auto simp: place_of_def split: if_splits)
  then have f: "fmap s ip bn = i_addr (ino s ip) ! nat bn" using p by (simp add: fmap_def addr_root)
  have e: "bmap ip bn False clr s = bmap_direct ip (nat bn) False clr (s\<lparr>rablock := 0\<rparr>)" using True r by (simp add: bmap_def)
  show ?thesis
  proof (cases "i_addr (ino s ip) ! nat bn = 0")
    case True
    then show ?thesis unfolding e f by (intro exI[of _ 0]) (simp add: bmap_direct_def)
  next
    case False
    then show ?thesis unfolding e f using bmap_direct_found[of "s\<lparr>rablock := 0\<rparr>" ip "nat bn" False clr] by auto
  qed
next
  case False
  then have "4 \<le> bn" by simp
  from bmap_tree[OF p this] obtain n bn1 where n: "bmap_level 3 0 1 (bn - 4) = Some (4 - n, NSHIFT * n, bn1)" "is = digits n bn1" "r = 3 + n" "0 < n" "n < 4"
    by blast
  let ?s = "s\<lparr>rablock := 0\<rparr>"
  have ok': "files_ok U T ?s F" using ok by simp
  have pl: "(ip, r, []) \<in> places" "length [] + n = r - 3" "7 - (4 - n) = r" "4 - (4 - n) = n" using n(3-5) by (simp_all add: places_def)
  have f: "fmap s ip bn = addr ?s (ip, r, [] @ digits n bn1)" using p n(2) by (simp add: fmap_def)
  show ?thesis
  proof (cases "i_addr (ino s ip) ! r = 0")
    case True
    then have "fmap s ip bn = 0" unfolding f by (simp add: addr_def)
    then show ?thesis using False n(1) pl(3) True by (intro exI[of _ 0]) (simp add: bmap_def)
  next
    case nz: False
    then have a: "addr ?s (ip, r, []) = i_addr (ino s ip) ! r" by (simp add: addr_root)
    obtain ra' where "bmap_walk False n (NSHIFT * n) bn1 (i_addr (ino s ip) ! r) 0 ?s =
        Ok (if addr ?s (ip, r, [] @ digits n bn1) = 0 then (-1, ?s) else (addr ?s (ip, r, [] @ digits n bn1), ?s\<lparr>rablock := ra'\<rparr>))"
      using bmap_walk_read[OF ok' pl(1,2) a nz, of bn1 0] by blast
    then have "bmap ip bn False clr s = Ok (if fmap s ip bn = 0 then (-1, ?s) else (fmap s ip bn, s\<lparr>rablock := ra'\<rparr>))"
      unfolding f using False n(1) nz pl(3,4) by (simp add: bmap_def)
    then show ?thesis by auto
  qed
qed

lemma link_root_grows:
  assumes ok: "files_ok U T s (b # F)" and v: "fs_ok U v F" and p: "r < NADDR" "i_addr (ino s ip) ! r = 0"
    and bs: "length bs = DEV_BSIZE" "r - 3 = 0 \<or> bs = clrblk" "c \<Longrightarrow> bs = clrblk" and t: "(ip, r, is) \<in> places"
  shows "grows c (ip, r, is) s (set_addr ip r b (put_blk b bs (s\<lparr>bvol := v\<rparr>)))" (is "grows c ?p s ?s")
proof -
  note o = files_okD[OF ok] and l = link_root[OF ok v p bs(1,2)]
  have z: "addr s (ip, r, []) = 0" using p by (simp add: addr_root)
  have 1: "addr ?s q = addr s q \<or> addr s q = 0 \<and> above q ?p" if "q \<in> places" for q
  proof (cases "q = (ip, r, [])")
    case True
    then show ?thesis using z by (auto intro: exI[of _ 0])
  next
    case False
    then show ?thesis using l that by auto
  qed
  have 2: "blk ?s (addr s q) = blk s (addr s q)" if "q \<in> places" "leaf q" "addr s q \<noteq> 0" for q
    using o(10)[OF that(1,3)] by (auto simp: set_addr_def)
  have 3: "blk ?s (addr ?s ?p) = clrblk" if "c" "addr s ?p = 0" "addr ?s ?p \<noteq> 0"
    using bspec[OF conjunct2[OF l] t] that bs(3) by (auto simp: set_addr_def split: if_splits)
  show ?thesis using 1 2 3 unfolding grows_def by (intro conjI ballI allI impI) (assumption | simp add: set_addr_def)+
qed

lemma grows_weaken: "grows True q u v \<Longrightarrow> grows c q u v"
  by (simp add: grows_def)

text \<open>When no block is left, those that have been allocated on the way hold zeros.\<close>

lemma bmap_write_full:
  assumes ok: "files_ok U T s F" and p: "place_of bn = Some (r, is)"
  shows "\<exists>nb s' F'. bmap ip bn True clr s = Ok (nb, s') \<and> files_ok U T s' F' \<and> grows (clr \<or> nb = -1) (ip, r, is) s s' \<and>
    (if nb = -1 then length F \<le> 3 \<and> F' = [] \<and> b_uerr s' = Some ENOSPC else nb = addr s' (ip, r, is) \<and> nb \<noteq> 0 \<and> b_uerr s' = b_uerr s)"
proof (cases "bn < 4")
  case True
  then have r: "r = nat bn" "is = []" "0 \<le> bn" using p by (auto simp: place_of_def split: if_splits)
  let ?s = "s\<lparr>rablock := 0\<rparr>"
  have e: "bmap ip bn True clr s = bmap_direct ip r True clr ?s" using True r by (simp add: bmap_def)
  have pl: "(ip, r, []) \<in> places" using True r by (simp add: places_def)
  have pos: "addr s (ip, r, []) \<noteq> -1" using files_okD(3,4,10)[OF ok] pl by fastforce
  show ?thesis
  proof (cases "i_addr (ino s ip) ! r = 0")
    case False
    have "\<exists>ra. bmap ip bn True clr s = Ok (i_addr (ino s ip) ! r, s\<lparr>rablock := ra\<rparr>)" unfolding e using bmap_direct_found[of ?s ip r True clr] False by auto
    then show ?thesis using ok False r(2) pos grows_same(1) by (fastforce simp: addr_root)
  next
    case z: True
    show ?thesis
    proof (cases F)
      case Nil
      then have "files_ok U T ?s []" using ok by simp
      from alloc_blk_none[OF this, of clr True "(ip, r, is)"] obtain s' where "alloc_blk clr ?s = Ok (None, s')" "files_ok U T s' []"
        "grows True (ip, r, is) ?s s'" "b_uerr s' = Some ENOSPC" by blast
      moreover from this have "grows True (ip, r, is) s s'" using grows_trans[OF grows_same(1)] pl r place_of_places[OF p] by blast
      ultimately show ?thesis unfolding e using z Nil by (auto simp: bmap_direct_def)
    next
      case (Cons b G)
      then have ok': "files_ok U T ?s (b # G)" using ok by simp
      obtain v where v: "alloc_blk clr ?s = Ok (Some b, put_blk b (if clr then clrblk else stale ?s b) (?s\<lparr>bvol := v\<rparr>))" "fs_ok U v G"
        using alloc_blk_some[OF ok', of clr] by blast
      let ?bs = "if clr then clrblk else stale ?s b" let ?s1 = "set_addr ip r b (put_blk b ?bs (?s\<lparr>bvol := v\<rparr>))"
      have h: "r < NADDR" "i_addr (ino ?s ip) ! r = 0" "length ?bs = DEV_BSIZE" "r - 3 = 0 \<or> ?bs = clrblk" "clr \<Longrightarrow> ?bs = clrblk"
        using True r z files_okD(6)[OF ok] by auto
      note l = link_root[OF ok' v(2) h(1-4)] and g = link_root_grows[OF ok' v(2) h pl, of clr]
      have b: "b \<noteq> 0" "b \<noteq> -1" using files_okD(2,3,4)[OF ok'] by auto
      have "grows clr (ip, r, is) s ?s1" using grows_trans[OF grows_same(1)] g pl r place_of_places[OF p] by blast
      moreover have "\<exists>ra. bmap ip bn True clr s = Ok (b, ?s1\<lparr>rablock := ra\<rparr>)"
        unfolding e using bmap_direct_new[OF h(2) v(1)] .
      then obtain ra where "bmap ip bn True clr s = Ok (b, ?s1\<lparr>rablock := ra\<rparr>)" by blast
      moreover have "files_ok U T (?s1\<lparr>rablock := ra\<rparr>) G" "addr (?s1\<lparr>rablock := ra\<rparr>) (ip, r, is) = b" using l pl r by simp_all
      moreover have "grows clr (ip, r, is) s (?s1\<lparr>rablock := ra\<rparr>)"
        using grows_trans[OF calculation(1) grows_same(1)] pl r place_of_places[OF p] by blast
      ultimately show ?thesis using b by (intro exI[of _ b] exI[of _ "?s1\<lparr>rablock := ra\<rparr>"] exI[of _ G]) (simp add: set_addr_def)
    qed
  qed
next
  case False
  then have "4 \<le> bn" by simp
  from bmap_tree[OF p this] obtain n bn1 where n: "bmap_level 3 0 1 (bn - 4) = Some (4 - n, NSHIFT * n, bn1)" "is = digits n bn1" "r = 3 + n" "0 < n" "n < 4"
    by blast
  let ?s = "s\<lparr>rablock := 0\<rparr>"
  have ok0: "files_ok U T ?s F" using ok by simp
  have pl: "(ip, r, []) \<in> places" "length [] + n = r - 3" "7 - (4 - n) = r" "4 - (4 - n) = n" using n(3-5) by (simp_all add: places_def)
  have pp: "(ip, r, is) \<in> places" "leaf (ip, r, is)" using place_of_places[OF p] by blast+
  show ?thesis
  proof (cases "i_addr (ino s ip) ! r = 0")
    case False
    then have a: "addr ?s (ip, r, []) = i_addr (ino s ip) ! r" by (simp add: addr_root)
    have e: "bmap ip bn True clr s = bmap_walk True n (NSHIFT * n) bn1 (i_addr (ino s ip) ! r) 0 ?s" using \<open>\<not> bn < 4\<close> n(1) False pl(3,4) by (simp add: bmap_def)
    from bmap_walk_write[OF ok0 pl(1,2) a False, of bn1 0] obtain nb s' F' where w: "bmap_walk True n (NSHIFT * n) bn1 (i_addr (ino s ip) ! r) 0 ?s = Ok (nb, s')"
      "files_ok U T s' F'" "grows True (ip, r, [] @ digits n bn1) ?s s'"
      "if nb = -1 then length F < n \<and> F' = [] \<and> b_uerr s' = Some ENOSPC else nb = addr s' (ip, r, [] @ digits n bn1) \<and> nb \<noteq> 0 \<and> b_uerr s' = b_uerr ?s" by blast
    have "grows (clr \<or> nb = -1) (ip, r, is) s s'" using grows_trans[OF grows_same(1) grows_weaken[OF w(3)]] pp n(2) by simp
    then show ?thesis unfolding e using w n(2,5) by auto
  next
    case z: True
    show ?thesis
    proof (cases F)
      case Nil
      then have "files_ok U T ?s []" using ok by simp
      from alloc_blk_none[OF this, of True True "(ip, r, is)"] obtain s' where "alloc_blk True ?s = Ok (None, s')" "files_ok U T s' []"
        "grows True (ip, r, is) ?s s'" "b_uerr s' = Some ENOSPC" by blast
      moreover from this have "grows True (ip, r, is) s s'" using grows_trans[OF grows_same(1)] pp by blast
      ultimately show ?thesis using \<open>\<not> bn < 4\<close> n(1) z pl(3) Nil by (auto simp: bmap_def)
    next
      case (Cons b G)
      then have ok': "files_ok U T ?s (b # G)" using ok by simp
      obtain v where v: "alloc_blk True ?s = Ok (Some b, put_blk b clrblk (?s\<lparr>bvol := v\<rparr>))" "fs_ok U v G"
        using alloc_blk_some[OF ok', of True] by auto
      let ?s1 = "set_addr ip r b (put_blk b clrblk (?s\<lparr>bvol := v\<rparr>))"
      have h: "r < NADDR" "i_addr (ino ?s ip) ! r = 0" "length clrblk = DEV_BSIZE" "r - 3 = 0 \<or> clrblk = clrblk" using n z by simp_all
      note l = link_root[OF ok' v(2) h] and g = link_root_grows[OF ok' v(2) h refl pp(1), of True]
      have b: "b \<noteq> 0" using files_okD(2,3,4)[OF ok'] by auto
      have ls: "files_ok U T ?s1 G" "addr ?s1 (ip, r, []) = b" "b_uerr ?s1 = b_uerr s" using l pl(1) by (simp_all add: set_addr_def)
      have e: "bmap ip bn True clr s = bmap_walk True n (NSHIFT * n) bn1 b 0 ?s1" using \<open>\<not> bn < 4\<close> n(1) z pl(3,4) v(1) by (simp add: bmap_def)
      from bmap_walk_write[OF ls(1) pl(1,2) ls(2) b, of bn1 0] obtain nb s' F' where w: "bmap_walk True n (NSHIFT * n) bn1 b 0 ?s1 = Ok (nb, s')"
        "files_ok U T s' F'" "grows True (ip, r, [] @ digits n bn1) ?s1 s'"
        "if nb = -1 then length G < n \<and> F' = [] \<and> b_uerr s' = Some ENOSPC else nb = addr s' (ip, r, [] @ digits n bn1) \<and> nb \<noteq> 0 \<and> b_uerr s' = b_uerr ?s1" by blast
      have "grows True (ip, r, is) s ?s1" using grows_trans[OF grows_same(1) g pp] .
      from grows_trans[OF this, of s'] have "grows True (ip, r, is) s s'" using w(3) n(2) pp by simp
      then have "grows (clr \<or> nb = -1) (ip, r, is) s s'" by (rule grows_weaken)
      then show ?thesis unfolding e using w ls(3) n(2,5) Cons by auto
    qed
  qed
qed

lemma bmap_write:
  assumes "files_ok U T s F" "place_of bn = Some (r, is)"
  shows "\<exists>nb s' F'. bmap ip bn True clr s = Ok (nb, s') \<and> files_ok U T s' F' \<and> grows clr (ip, r, is) s s' \<and>
    (if nb = -1 then length F \<le> 3 \<and> F' = [] \<and> b_uerr s' = Some ENOSPC else nb = addr s' (ip, r, is) \<and> nb \<noteq> 0 \<and> b_uerr s' = b_uerr s)"
proof -
  have w: "grows clr q u v" if "grows (clr \<or> x) q u v" for q u v x using that by (cases x) (auto simp: grows_def)
  show ?thesis using bmap_write_full[OF assms, of ip clr] w by blast
qed

end
