(* ===== verification/Bmap_Trunc.thy ===== *)
theory Bmap_Trunc
  imports Bmap_Props
begin

text \<open>Truncation: which blocks \<^verbatim>\<open>indirtrunc\<close> gives back and what is left of a tree.\<close>

section \<open>Trees that are given back\<close>

definition tree_blocks :: "(int \<Rightarrow> bytes) \<Rightarrow> int \<Rightarrow> nat \<Rightarrow> int set" where
  "tree_blocks B b k = node B b ` paths k - {0}"

lemma tree_blocks_0 [simp]: "tree_blocks B 0 k = {}"
  by (auto simp: tree_blocks_def)

lemma node_cong:
  assumes "\<And>x. x \<in> tree_blocks B b k \<Longrightarrow> B' x = B x"
  shows "is \<in> paths k \<Longrightarrow> node B' b is = node B b is"
proof (induction "is" rule: rev_induct)
  case (snoc i "is")
  then have "is \<in> paths k" by (auto dest: paths_snocD)
  then have "node B' b is = node B b is" "node B b is \<noteq> 0 \<Longrightarrow> B' (node B b is) = B (node B b is)"
    using snoc.IH assms by (auto simp: tree_blocks_def)
  then show ?case by (simp add: node_snoc)
qed simp

lemma tree_blocks_cong: "(\<And>x. x \<in> tree_blocks B b k \<Longrightarrow> B' x = B x) \<Longrightarrow> tree_blocks B' b k = tree_blocks B b k"
  using node_cong[of B b k B'] by (auto simp: tree_blocks_def)

text \<open>A tree without sharing, apart from the free list.\<close>

definition tree_inj :: "(int \<Rightarrow> bytes) \<Rightarrow> int \<Rightarrow> nat \<Rightarrow> bool" where
  "tree_inj B b k \<longleftrightarrow> (\<forall>is\<in>paths k. \<forall>js\<in>paths k. node B b is = node B b js \<longrightarrow> node B b is \<noteq> 0 \<longrightarrow> is = js)"

lemma tree_inj_cong: "tree_inj B b k \<Longrightarrow> (\<And>x. x \<in> tree_blocks B b k \<Longrightarrow> B' x = B x) \<Longrightarrow> tree_inj B' b k"
  using node_cong[of B b k B'] by (auto simp: tree_inj_def)

lemma tree_entry:
  assumes "tree_inj B b (Suc k)" "b \<noteq> 0" "i < 256" "e = long_at (B b) (4 * i)"
  shows "tree_inj B e k" "tree_blocks B e k \<subseteq> tree_blocks B b (Suc k)" "b \<notin> tree_blocks B e k"
proof -
  have n: "node B e is = node B b (i # is)" for "is" using assms by simp
  have p: "is \<in> paths k \<Longrightarrow> i # is \<in> paths (Suc k)" for "is" using assms(3) by simp
  show "tree_inj B e k" unfolding tree_inj_def n using assms(1) p unfolding tree_inj_def by blast
  show "tree_blocks B e k \<subseteq> tree_blocks B b (Suc k)" unfolding tree_blocks_def n using p by blast
  show "b \<notin> tree_blocks B e k"
  proof
    assume "b \<in> tree_blocks B e k"
    then obtain "is" where "is \<in> paths k" "node B b (i # is) = node B b []" unfolding tree_blocks_def n by auto
    then show False using assms(1,2) p unfolding tree_inj_def by (metis list.distinct(1) node.simps(1) paths_Nil)
  qed
qed

lemma tree_entries_disjoint:
  assumes "tree_inj B b (Suc k)" "b \<noteq> 0" "i < 256" "j < 256" "i \<noteq> j"
  shows "tree_blocks B (long_at (B b) (4 * i)) k \<inter> tree_blocks B (long_at (B b) (4 * j)) k = {}"
proof (rule ccontr)
  assume "\<not> ?thesis"
  then obtain "is" js where h: "is \<in> paths k" "js \<in> paths k" "node B b (i # is) = node B b (j # js)" "node B b (i # is) \<noteq> 0"
    using assms(2) by (auto simp: tree_blocks_def)
  then have "i # is = j # js" using assms(1,3,4) unfolding tree_inj_def by (metis paths_Cons)
  then show False using assms(5) by simp
qed

text \<open>A routine that gives a tree back: its blocks are put on the free list, other blocks keep their contents.\<close>

definition good :: "int set \<Rightarrow> bstate \<Rightarrow> int list \<Rightarrow> bool" where
  "good U s F \<longleftrightarrow> fs_ok U (bvol s) F \<and> (\<forall>b. length (blk s b) = DEV_BSIZE) \<and> (\<forall>b. length (stale s b) = DEV_BSIZE)"

definition gives_back :: "int set \<Rightarrow> int set \<Rightarrow> bstate \<Rightarrow> int list \<Rightarrow> bstate outcome \<Rightarrow> bool" where
  "gives_back U A s F r \<longleftrightarrow> (\<exists>v B G. r = Ok (s\<lparr>bvol := v, blk := B\<rparr>) \<and> good U (s\<lparr>bvol := v, blk := B\<rparr>) (G @ F) \<and> set G = A \<and> (\<forall>x. x \<notin> A \<longrightarrow> B x = blk s x))"

lemma free_gives_back:
  assumes "good U s F" "b \<in> U" "b \<notin> set F"
  shows "gives_back U {b} s F (free_blk b s)"
proof -
  obtain v where v: "bfree b (bvol s) = Ok v" "fs_ok U v (b # F)" using bfree_ok assms unfolding good_def by blast
  moreover have "\<not> badblock (sb (bvol s)) b" using assms(1,2) by (auto simp: good_def fs_ok_def data_blocks_def)
  ultimately show ?thesis using assms(1) unfolding gives_back_def
    by (intro exI[of _ v] exI[of _ "(blk s)(b := stale s b)"] exI[of _ "[b]"]) (auto simp: free_blk_def good_def)
qed

lemma gives_back_then:
  assumes "gives_back U A s F r" "A \<inter> A' = {}"
    and "\<And>v B G. r = Ok (s\<lparr>bvol := v, blk := B\<rparr>) \<Longrightarrow> good U (s\<lparr>bvol := v, blk := B\<rparr>) (G @ F) \<Longrightarrow> set G = A \<Longrightarrow> (\<And>x. x \<notin> A \<Longrightarrow> B x = blk s x) \<Longrightarrow>
      gives_back U A' (s\<lparr>bvol := v, blk := B\<rparr>) (G @ F) (g (s\<lparr>bvol := v, blk := B\<rparr>))"
  shows "gives_back U (A \<union> A') s F (obind r g)"
proof -
  obtain v B G where r: "r = Ok (s\<lparr>bvol := v, blk := B\<rparr>)" "good U (s\<lparr>bvol := v, blk := B\<rparr>) (G @ F)" "set G = A" "\<And>x. x \<notin> A \<Longrightarrow> B x = blk s x"
    using assms(1) unfolding gives_back_def by blast
  from assms(3)[OF r] obtain v' B' G' where "g (s\<lparr>bvol := v, blk := B\<rparr>) = Ok (s\<lparr>bvol := v', blk := B'\<rparr>)"
    "good U (s\<lparr>bvol := v', blk := B'\<rparr>) (G' @ G @ F)" "set G' = A'" "\<And>x. x \<notin> A' \<Longrightarrow> B' x = B x"
    unfolding gives_back_def by auto
  then show ?thesis using r assms(2) unfolding gives_back_def
    by (intro exI[of _ v'] exI[of _ B'] exI[of _ "G' @ G"]) auto
qed

text \<open>The trees below a list of roots, each with its number of levels.\<close>

definition forest :: "(int \<Rightarrow> bytes) \<Rightarrow> (nat \<times> int) list \<Rightarrow> int set" where
  "forest B xs = (\<Union>(k, x)\<in>set xs. tree_blocks B x k)"

definition apart :: "(int \<Rightarrow> bytes) \<Rightarrow> (nat \<times> int) list \<Rightarrow> bool" where
  "apart B = sorted_wrt (\<lambda>(k, a) (l, b). tree_blocks B a k \<inter> tree_blocks B b l = {})"

lemma each_gives_back:
  shows "(\<And>k b s F. (k, b) \<in> set xs \<Longrightarrow> good U s F \<Longrightarrow> tree_inj (blk s) b k \<Longrightarrow> tree_blocks (blk s) b k \<subseteq> U - set F \<Longrightarrow>
      gives_back U (tree_blocks (blk s) b k) s F (f (k, b) s)) \<Longrightarrow>
    good U s F \<Longrightarrow> (\<And>k b. (k, b) \<in> set xs \<Longrightarrow> tree_inj (blk s) b k) \<Longrightarrow> forest (blk s) xs \<subseteq> U - set F \<Longrightarrow> apart (blk s) xs \<Longrightarrow>
    gives_back U (forest (blk s) xs) s F (each f xs s)"
proof (induction xs arbitrary: s F)
  case Nil
  then show ?case unfolding gives_back_def by (intro exI[of _ "bvol s"] exI[of _ "blk s"] exI[of _ "[]"]) (simp add: forest_def)
next
  case (Cons x xs)
  obtain k a where x: "x = (k, a)" by (cases x)
  let ?A = "tree_blocks (blk s) a k"
  have A: "gives_back U ?A s F (f x s)" unfolding x using Cons.prems x by (intro Cons.prems(1)) (auto simp: forest_def)
  have d: "?A \<inter> tree_blocks (blk s) b l = {}" if "(l, b) \<in> set xs" for l b using Cons.prems(5) that unfolding x by (auto simp: apart_def)
  then have dF: "?A \<inter> forest (blk s) xs = {}" by (auto simp: forest_def)
  have "gives_back U (?A \<union> forest (blk s) xs) s F (obind (f x s) (each f xs))"
  proof (rule gives_back_then[OF A dF])
    fix v B G
    let ?s = "s\<lparr>bvol := v, blk := B\<rparr>"
    assume h: "f x s = Ok ?s" "good U ?s (G @ F)" "set G = ?A" "\<And>x. x \<notin> ?A \<Longrightarrow> B x = blk s x"
    have B: "B y = blk s y" if "(l, b) \<in> set xs" "y \<in> tree_blocks (blk s) b l" for l b y using h(4) d[OF that(1)] that(2) by blast
    have tb: "tree_blocks B b l = tree_blocks (blk s) b l" if "(l, b) \<in> set xs" for l b using tree_blocks_cong[of "blk s" b l B] B[OF that] by blast
    then have fo: "forest B xs = forest (blk s) xs" by (auto simp: forest_def)
    have "gives_back U (forest (blk ?s) xs) ?s (G @ F) (each f xs ?s)"
    proof (rule Cons.IH[OF Cons.prems(1) h(2)])
      show "tree_inj (blk ?s) b l" if "(l, b) \<in> set xs" for l b using tree_inj_cong[of "blk s" b l B] B[OF that] Cons.prems(3) that by simp
      show "forest (blk ?s) xs \<subseteq> U - set (G @ F)" using fo Cons.prems(4) h(3) dF unfolding x by (auto simp: forest_def)
      have "apart (blk s) xs" using Cons.prems(5) by (simp add: apart_def)
      then show "apart (blk ?s) xs" unfolding apart_def by (rule sorted_wrt_mono_rel[rotated]) (use tb in auto)
    qed simp_all
    then show "gives_back U (forest (blk s) xs) ?s (G @ F) (each f xs ?s)" using fo by simp
  qed
  then show ?case unfolding x by (simp add: forest_def)
qed

lemma each_map: "each f (map g xs) s = each (\<lambda>x. f (g x)) xs s"
proof (induction xs arbitrary: s)
  case (Cons a xs)
  then show ?case by (cases "f (g a) s") simp_all
qed simp

lemma each_Cons: "each f (x # xs) = (\<lambda>s. obind (f x s) (each f xs))"
  by (intro ext) simp

lemma each_cong: "(\<And>x s. x \<in> set xs \<Longrightarrow> f x s = g x s) \<Longrightarrow> each f xs s = each g xs s"
proof (induction xs arbitrary: s)
  case (Cons a xs)
  then show ?case by (cases "g a s") simp_all
qed simp

lemma each_append: "each f (xs @ ys) s = obind (each f xs s) (each f ys)"
proof (induction xs arbitrary: s)
  case (Cons a xs)
  then show ?case by (cases "f a s") simp_all
qed simp

section \<open>indirtrunc\<close>

text \<open>The paths that stay when a tree of so many levels is cut after a block; all but the root go when that is negative.\<close>

fun kept :: "nat \<Rightarrow> int \<Rightarrow> nat list \<Rightarrow> bool" where
  "kept l lst [] = True"
| "kept 0 lst (i # is) = False"
| "kept (Suc l) lst (i # is) = (0 \<le> lst \<and> (int i < lst div 256 ^ l \<or> int i = lst div 256 ^ l \<and> kept l (lst mod 256 ^ l) is))"

definition goes_below :: "(int \<Rightarrow> bytes) \<Rightarrow> int \<Rightarrow> nat \<Rightarrow> int \<Rightarrow> int set" where
  "goes_below B b k lst = node B b ` {is \<in> paths k. \<not> kept k lst is} - {0}"

lemma goes_below_sub: "goes_below B b k lst \<subseteq> tree_blocks B b k"
  by (auto simp: goes_below_def tree_blocks_def)

lemma goes_below_cong: "(\<And>x. x \<in> tree_blocks B b k \<Longrightarrow> B' x = B x) \<Longrightarrow> goes_below B' b k lst = goes_below B b k lst"
  using node_cong[of B b k B'] by (auto simp: goes_below_def)

lemma goes_below_all: "b \<noteq> 0 \<Longrightarrow> tree_inj B b k \<Longrightarrow> goes_below B b k (-1) = tree_blocks B b k - {b}"
proof -
  assume b: "b \<noteq> 0" "tree_inj B b k"
  have k: "kept k (-1) is \<longleftrightarrow> is = []" for "is" by (cases "(k, -1 :: int, is)" rule: kept.cases) auto
  have "node B b is \<noteq> b" if "is \<in> paths k" "is \<noteq> []" for "is" using b that unfolding tree_inj_def by (metis node.simps(1) paths_Nil)
  then show ?thesis unfolding goes_below_def tree_blocks_def k by (auto simp: image_iff)
qed

text \<open>The routine that is applied to each pointer that goes.\<close>

fun drop_tree :: "nat \<Rightarrow> int \<Rightarrow> bstate \<Rightarrow> bstate outcome" where
  "drop_tree 0 nb s = (if nb = 0 then Ok s else free_blk nb s)"
| "drop_tree (Suc l) nb s = (if nb = 0 then Ok s else obind (indirtrunc l nb (-1) s) (free_blk nb))"

lemma drop_tree_0 [simp]: "drop_tree l 0 s = Ok s"
  by (cases l) auto

lemma factor_eq: "l < 2 \<Longrightarrow> factor l = 256 ^ l"
  by (cases l rule: factor.cases) (auto simp: NINDIR_def)

definition cut_at :: "nat \<Rightarrow> int \<Rightarrow> int" where
  "cut_at l lst = (if lst < 0 then -1 else lst div 256 ^ l)"

lemma indirtrunc_Suc:
  "\<lbrakk>\<not> rderr (bvol s) bn; 0 \<le> lastbn; factor (Suc l) \<noteq> 0; lst = (if lastbn > 0 then lastbn div factor (Suc l) else lastbn)\<rbrakk> \<Longrightarrow>
    indirtrunc (Suc l) bn lastbn s =
      obind (each (drop_tree (Suc l)) (after lst (blk s bn)) (put_blk bn (zero_from (4 * nat (lst + 1)) (blk s bn)) s)) (\<lambda>s1.
      if long_at (blk s bn) (4 * nat lst) = 0 then Ok s1 else indirtrunc l (long_at (blk s bn) (4 * nat lst)) (lastbn mod factor (Suc l)) s1)"
proof -
  assume h: "\<not> rderr (bvol s) bn" "0 \<le> lastbn" "factor (Suc l) \<noteq> 0" "lst = (if lastbn > 0 then lastbn div factor (Suc l) else lastbn)"
  have d: "drop_tree (Suc l) = (\<lambda>nb s. if nb = 0 then Ok s else obind (indirtrunc l nb (-1) s) (free_blk nb))" by (intro ext) simp
  show ?thesis unfolding d h(4) using h(1-3) by (simp del: factor.simps add: Let_def)
qed

lemma indirtrunc_eq:
  assumes e: "\<not> rderr (bvol s) b" and l: "lst < 0 \<or> l < 2" "-1 \<le> lst"
  shows "indirtrunc l b lst s =
    obind (each (drop_tree l) (after (cut_at l lst) (blk s b)) (put_blk b (zero_from (4 * nat (cut_at l lst + 1)) (blk s b)) s)) (\<lambda>s1.
      if lst < 0 \<or> l = 0 \<or> long_at (blk s b) (4 * nat (cut_at l lst)) = 0 then Ok s1
      else indirtrunc (l - 1) (long_at (blk s b) (4 * nat (cut_at l lst))) (lst mod 256 ^ l) s1)"
proof (cases l)
  case 0
  have "drop_tree 0 = (\<lambda>nb s. if nb = 0 then Ok s else free_blk nb s)" by (intro ext) simp
  moreover have "cut_at 0 lst = lst" using l by (simp add: cut_at_def)
  moreover have "obind m Ok = m" for m :: "bstate outcome" by (cases m) auto
  ultimately show ?thesis using e 0 by (simp add: trsingle_def Let_def)
next
  case (Suc k)
  have d: "drop_tree (Suc k) = (\<lambda>nb s. if nb = 0 then Ok s else obind (indirtrunc k nb (-1) s) (free_blk nb))" by (intro ext) simp
  show ?thesis
  proof (cases "lst < 0")
    case True
    then have "lst = -1" using l by simp
    then show ?thesis using e Suc d by (simp add: Let_def cut_at_def)
  next
    case False
    then have "l < 2" using l by simp
    then have f: "factor (Suc k) = 256 ^ Suc k" unfolding Suc[symmetric] by (rule factor_eq)
    have c: "cut_at l lst = (if lst > 0 then lst div factor (Suc k) else lst)" unfolding f using False Suc by (simp add: cut_at_def)
    have "factor (Suc k) \<noteq> 0" unfolding f by simp
    from indirtrunc_Suc[OF e _ this c] False show ?thesis unfolding f Suc diff_Suc_1 by (simp del: factor.simps indirtrunc.simps drop_tree.simps power_Suc)
  qed
qed

text \<open>Zeroing the root block and giving back the trees behind the cut.\<close>

lemma cut_gives_back:
  assumes g: "good U s F" and i: "tree_inj (blk s) b (Suc l)" and b: "b \<noteq> 0" and sub: "tree_blocks (blk s) b (Suc l) \<subseteq> U - set F"
    and f: "\<And>s F b. good U s F \<Longrightarrow> tree_inj (blk s) b l \<Longrightarrow> tree_blocks (blk s) b l \<subseteq> U - set F \<Longrightarrow>
      gives_back U (tree_blocks (blk s) b l) s F (drop_tree l b s)"
    and m: "m \<le> 256"
  defines "e \<equiv> \<lambda>i. long_at (blk s b) (4 * i)"
  shows "\<exists>v B G. each (drop_tree l) (map e (rev [m..<256])) (put_blk b (zero_from (4 * m) (blk s b)) s) = Ok (s\<lparr>bvol := v, blk := B\<rparr>) \<and>
    good U (s\<lparr>bvol := v, blk := B\<rparr>) (G @ F) \<and> set G = (\<Union>i\<in>{m..<256}. tree_blocks (blk s) (e i) l) \<and>
    B b = zero_from (4 * m) (blk s b) \<and> (\<forall>x. x \<noteq> b \<longrightarrow> x \<notin> set G \<longrightarrow> B x = blk s x)"
proof -
  let ?z = "zero_from (4 * m) (blk s b)" let ?s = "put_blk b ?z s"
  have bF: "b \<notin> set F" using sub b unfolding tree_blocks_def by (metis DiffD2 DiffI empty_iff image_eqI insert_iff node.simps(1) paths_Nil subsetD)
  have gs: "good U ?s F" using g bF m disk.write_law[of U "bvol s" F b] by (auto simp: good_def DEV_BSIZE_def)
  note en = tree_entry[OF i b _ refl]
  have nb: "b \<notin> tree_blocks (blk s) (e i) l" "tree_inj (blk s) (e i) l" "tree_blocks (blk s) (e i) l \<subseteq> U - set F" if "i < 256" for i
    using en[OF that] sub unfolding e_def by blast+
  have tb: "tree_blocks (blk ?s) (e i) l = tree_blocks (blk s) (e i) l" "tree_inj (blk ?s) (e i) l" if "i < 256" for i
    using tree_blocks_cong[of "blk s" "e i" l "blk ?s"] tree_inj_cong[of "blk s" "e i" l "blk ?s"] nb[OF that] by fastforce+
  let ?xs = "map (\<lambda>i. (l, e i)) (rev [m..<256])"
  have fo: "forest (blk ?s) ?xs = (\<Union>i\<in>{m..<256}. tree_blocks (blk s) (e i) l)" using tb by (auto simp: forest_def)
  have dj: "tree_blocks (blk ?s) (e i) l \<inter> tree_blocks (blk ?s) (e j) l = {}" if "i < 256" "j < 256" "i \<noteq> j" for i j
    using tree_entries_disjoint[OF i b that] tb(1)[OF that(1)] tb(1)[OF that(2)] unfolding e_def by simp
  have "sorted_wrt (\<lambda>i j. tree_blocks (blk ?s) (e i) l \<inter> tree_blocks (blk ?s) (e j) l = {}) (rev [m..<256])"
    unfolding sorted_wrt_rev using dj by (intro sorted_wrt_mono_rel[OF _ sorted_wrt_upt]) auto
  then have so: "apart (blk ?s) ?xs" by (simp add: apart_def sorted_wrt_map del: put_blk_sel)
  have "gives_back U (forest (blk ?s) ?xs) ?s F (each (\<lambda>(k, b). drop_tree k b) ?xs ?s)"
  proof (rule each_gives_back[OF _ gs _ _ so])
    show "gives_back U (tree_blocks (blk s) b k) s F ((\<lambda>(k, b). drop_tree k b) (k, b) s)"
      if "(k, b) \<in> set ?xs" "good U s F" "tree_inj (blk s) b k" "tree_blocks (blk s) b k \<subseteq> U - set F" for k b s F
      using f[OF that(2)] that by auto
    show "tree_inj (blk ?s) a k" if "(k, a) \<in> set ?xs" for k a using that tb(2) by auto
    show "forest (blk ?s) ?xs \<subseteq> U - set F" unfolding fo using nb(3) by (intro UN_least) simp
  qed
  then have "gives_back U (forest (blk ?s) ?xs) ?s F (each (drop_tree l) (map e (rev [m..<256])) ?s)" by (simp add: each_map)
  then obtain v B G where r: "each (drop_tree l) (map e (rev [m..<256])) ?s = Ok (?s\<lparr>bvol := v, blk := B\<rparr>)" "good U (?s\<lparr>bvol := v, blk := B\<rparr>) (G @ F)"
    "set G = (\<Union>i\<in>{m..<256}. tree_blocks (blk s) (e i) l)" "\<forall>x. x \<notin> (\<Union>i\<in>{m..<256}. tree_blocks (blk s) (e i) l) \<longrightarrow> B x = blk ?s x"
    unfolding gives_back_def fo by (elim exE conjE) (rule that)
  have st: "?s\<lparr>bvol := v, blk := B\<rparr> = s\<lparr>bvol := v, blk := B\<rparr>" by (simp add: put_blk_def)
  have "b \<notin> set G" using r(3) nb(1) by auto
  then have "B b = ?z" using r(4) unfolding r(3)[symmetric] by simp
  moreover have "\<forall>x. x \<noteq> b \<longrightarrow> x \<notin> set G \<longrightarrow> B x = blk s x" using r(4) unfolding r(3)[symmetric] by simp
  ultimately show ?thesis using r(1-3) unfolding st by (intro exI[of _ v] exI[of _ B] exI[of _ G] conjI)
qed

text \<open>What \<^verbatim>\<open>indirtrunc\<close> does to a tree; a cut inside the tree is treated for one and two levels only.\<close>

definition trunc_spec :: "int set \<Rightarrow> nat \<Rightarrow> int \<Rightarrow> int \<Rightarrow> bstate \<Rightarrow> int list \<Rightarrow> bstate outcome \<Rightarrow> bool" where
  "trunc_spec U l b lst s F r \<longleftrightarrow> (\<exists>v B G. r = Ok (s\<lparr>bvol := v, blk := B\<rparr>) \<and> good U (s\<lparr>bvol := v, blk := B\<rparr>) (G @ F) \<and>
     set G = goes_below (blk s) b (Suc l) lst \<and> (\<forall>x. x \<notin> tree_blocks (blk s) b (Suc l) \<longrightarrow> B x = blk s x) \<and>
     (\<forall>is\<in>paths (Suc l). node B b is = (if kept (Suc l) lst is then node (blk s) b is else 0)) \<and>
     (\<forall>is\<in>paths (Suc l). kept (Suc l) lst is \<longrightarrow> length is = Suc l \<longrightarrow> node (blk s) b is \<noteq> 0 \<longrightarrow> B (node (blk s) b is) = blk s (node (blk s) b is)))"

lemma kept_Cons:
  assumes "lst < 256 ^ Suc l" "-1 \<le> lst"
  shows "kept (Suc l) lst (i # is) \<longleftrightarrow> int i < cut_at l lst \<or> 0 \<le> lst \<and> int i = cut_at l lst \<and> kept l (lst mod 256 ^ l) is"
  using assms by (auto simp: cut_at_def)

declare kept.simps(3) [simp del]

lemma cut_at_range: "lst < 256 ^ Suc l \<Longrightarrow> -1 \<le> cut_at l lst \<and> cut_at l lst < 256 \<and> (0 \<le> lst \<longrightarrow> 0 \<le> cut_at l lst)"
proof -
  let ?P = "256 ^ l :: int"
  assume l: "lst < 256 ^ Suc l"
  have P: "0 < ?P" by simp
  have "lst div ?P < 256"
  proof (rule ccontr)
    assume "\<not> lst div ?P < 256"
    then have "256 * ?P \<le> lst div ?P * ?P" by (intro mult_right_mono) simp_all
    also have "\<dots> \<le> lst" using pos_mod_sign[OF P, of lst] div_mult_mod_eq[of lst ?P] by linarith
    finally show False using l by simp
  qed
  moreover have "0 \<le> lst div ?P" if "0 \<le> lst" using that P by (simp only: pos_imp_zdiv_nonneg_iff)
  ultimately show ?thesis unfolding cut_at_def by (cases "lst < 0") auto
qed

lemma goes_below_Suc:
  assumes "lst < 256 ^ Suc l" "-1 \<le> lst" "b \<noteq> 0"
  shows "goes_below B b (Suc l) lst = (\<Union>i\<in>{nat (cut_at l lst + 1)..<256}. tree_blocks B (long_at (B b) (4 * i)) l) \<union>
    (if lst < 0 then {} else goes_below B (long_at (B b) (4 * nat (cut_at l lst))) l (lst mod 256 ^ l))" (is "?L = ?R")
proof -
  note k = kept_Cons[OF assms(1,2)] and c = cut_at_range[OF assms(1)]
  have "x \<in> ?R" if x: "x \<in> ?L" for x
  proof -
    obtain "is" where h: "is \<in> paths (Suc l)" "\<not> kept (Suc l) lst is" "x = node B b is" "x \<noteq> 0" using x by (auto simp: goes_below_def)
    then obtain i js where j: "is = i # js" "i < 256" "js \<in> paths l" by (cases "is") auto
    then have x: "x = node B (long_at (B b) (4 * i)) js" using h assms(3) by simp
    show ?thesis
    proof (cases "int i = cut_at l lst")
      case True
      then have "\<not> lst < 0" "\<not> kept l (lst mod 256 ^ l) js" "nat (cut_at l lst) = i" using h(2) j k by (auto simp: cut_at_def split: if_splits)
      then show ?thesis using h(4) j x by (auto simp: goes_below_def)
    next
      case False
      then have "cut_at l lst < int i" using h(2) j k by auto
      then show ?thesis using h(4) j x by (auto simp: tree_blocks_def intro!: bexI[of _ i])
    qed
  qed
  moreover have "x \<in> ?L" if x: "x \<in> ?R" for x
    using x
  proof
    assume "x \<in> (\<Union>i\<in>{nat (cut_at l lst + 1)..<256}. tree_blocks B (long_at (B b) (4 * i)) l)"
    then obtain i js where "nat (cut_at l lst + 1) \<le> i" "i < 256" "js \<in> paths l" "x = node B b (i # js)" "x \<noteq> 0" using assms(3) by (auto simp: tree_blocks_def)
    moreover from this(1) have "\<not> kept (Suc l) lst (i # js)" unfolding k by auto
    ultimately show ?thesis unfolding goes_below_def by (intro DiffI image_eqI[of x _ "i # js"]) auto
  next
    assume "x \<in> (if lst < 0 then {} else goes_below B (long_at (B b) (4 * nat (cut_at l lst))) l (lst mod 256 ^ l))"
    then obtain js where j: "\<not> lst < 0" "js \<in> paths l" "\<not> kept l (lst mod 256 ^ l) js" "x = node B b (nat (cut_at l lst) # js)" "x \<noteq> 0"
      using assms(3) by (auto simp: goes_below_def split: if_splits)
    then have "\<not> kept (Suc l) lst (nat (cut_at l lst) # js)" "nat (cut_at l lst) < 256" unfolding k using c by auto
    then show ?thesis using j unfolding goes_below_def by (intro DiffI image_eqI[of x _ "nat (cut_at l lst) # js"]) auto
  qed
  ultimately show ?thesis by blast
qed

lemma cut_finish:
  assumes b: "b \<noteq> 0" "lst < 256 ^ Suc l" "-1 \<le> lst" and len: "length (blk s b) = DEV_BSIZE"
    and r: "r = Ok (s\<lparr>bvol := v, blk := B\<rparr>)" "good U (s\<lparr>bvol := v, blk := B\<rparr>) (G @ F)"
    and G: "set G = (\<Union>i\<in>{nat (cut_at l lst + 1)..<256}. tree_blocks (blk s) (long_at (blk s b) (4 * i)) l) \<union>
      (if lst < 0 then {} else goes_below (blk s) (long_at (blk s b) (4 * nat (cut_at l lst))) l (lst mod 256 ^ l))"
    and n: "B b = zero_from (4 * nat (cut_at l lst + 1)) (blk s b)"
      "\<And>i x. i < 256 \<Longrightarrow> int i < cut_at l lst \<Longrightarrow> x \<in> tree_blocks (blk s) (long_at (blk s b) (4 * i)) l \<Longrightarrow> B x = blk s x"
      "\<And>is. 0 \<le> lst \<Longrightarrow> is \<in> paths l \<Longrightarrow> node B (long_at (blk s b) (4 * nat (cut_at l lst))) is =
         (if kept l (lst mod 256 ^ l) is then node (blk s) (long_at (blk s b) (4 * nat (cut_at l lst))) is else 0)"
      "\<And>is. 0 \<le> lst \<Longrightarrow> is \<in> paths l \<Longrightarrow> kept l (lst mod 256 ^ l) is \<Longrightarrow> length is = l \<Longrightarrow> node (blk s) (long_at (blk s b) (4 * nat (cut_at l lst))) is \<noteq> 0 \<Longrightarrow>
         B (node (blk s) (long_at (blk s b) (4 * nat (cut_at l lst))) is) = blk s (node (blk s) (long_at (blk s b) (4 * nat (cut_at l lst))) is)"
      "\<And>x. x \<notin> tree_blocks (blk s) b (Suc l) \<Longrightarrow> B x = blk s x"
  shows "trunc_spec U l b lst s F r"
proof -
  note k = kept_Cons[OF b(2,3)] and c = cut_at_range[OF b(2)]
  let ?C = "cut_at l lst"
  have e: "long_at (B b) (4 * i) = (if int i \<le> ?C then long_at (blk s b) (4 * i) else 0)" if "i < 256" for i
    using zero_from_at[OF len, of "nat (?C + 1)" i] that c unfolding n(1) by auto
  have 1: "node B b is = (if kept (Suc l) lst is then node (blk s) b is else 0) \<and>
      (kept (Suc l) lst is \<longrightarrow> length is = Suc l \<longrightarrow> node (blk s) b is \<noteq> 0 \<longrightarrow> B (node (blk s) b is) = blk s (node (blk s) b is))" if p: "is \<in> paths (Suc l)" for "is"
  proof (cases "is")
    case (Cons i js)
    then have j: "i < 256" "js \<in> paths l" using p by auto
    have nd: "node B b is = node B (long_at (B b) (4 * i)) js" "node (blk s) b is = node (blk s) (long_at (blk s b) (4 * i)) js" using Cons b(1) by simp_all
    consider "int i < ?C" | "int i = ?C" | "?C < int i" by linarith
    then show ?thesis
    proof cases
      case 1
      then have "node B (long_at (blk s b) (4 * i)) js = node (blk s) (long_at (blk s b) (4 * i)) js" using node_cong n(2)[OF j(1) 1] j(2) by blast
      moreover have "kept (Suc l) lst is" unfolding Cons k using 1 by simp
      moreover have "B (node (blk s) b is) = blk s (node (blk s) b is)" if "node (blk s) b is \<noteq> 0"
        using n(2)[OF j(1) 1, of "node (blk s) b is"] j(2) that unfolding nd(2) tree_blocks_def by blast
      ultimately show ?thesis unfolding nd(1) e[OF j(1)] using 1 nd(2) by simp
    next
      case 2
      then have "0 \<le> lst" "nat ?C = i" using c b(3) by (auto simp: cut_at_def split: if_splits)
      moreover have "long_at (B b) (4 * i) = long_at (blk s b) (4 * i)" using e[OF j(1)] 2 by simp
      ultimately show ?thesis using n(3,4)[OF _ j(2)] 2 unfolding nd by (simp add: Cons k)
    next
      case 3
      then have "\<not> kept (Suc l) lst is" unfolding Cons k by simp
      then show ?thesis unfolding nd(1) e[OF j(1)] using 3 by simp
    qed
  qed simp
  show ?thesis unfolding trunc_spec_def goes_below_Suc[OF b(2,3,1)]
    using r G 1 n(5) by (intro exI[of _ v] exI[of _ B] exI[of _ G]) auto
qed

lemma drop_tree_step:
  assumes h: "good U s F" "tree_inj (blk s) b l" "tree_blocks (blk s) b l \<subseteq> U - set F"
  and sp: "\<And>k. l = Suc k \<Longrightarrow> b \<noteq> 0 \<Longrightarrow> trunc_spec U k b (-1) s F (indirtrunc k b (-1) s)"
  shows "gives_back U (tree_blocks (blk s) b l) s F (drop_tree l b s)"
proof (cases "b = 0")
  case True
  then show ?thesis using h(1) unfolding gives_back_def by (intro exI[of _ "bvol s"] exI[of _ "blk s"] exI[of _ "[]"]) simp
next
  case False
  have bin: "b \<in> tree_blocks (blk s) b l" using False unfolding tree_blocks_def by (auto simp: image_iff intro!: bexI[of _ "[]"])
  show ?thesis
  proof (cases l)
    case 0
    then have "tree_blocks (blk s) b l = {b}" using False by (auto simp: tree_blocks_def)
    then show ?thesis using free_gives_back[of U s F b] h False 0 by simp
  next
    case (Suc k)
    from sp[OF Suc False] obtain v B G where r: "indirtrunc k b (-1) s = Ok (s\<lparr>bvol := v, blk := B\<rparr>)" "good U (s\<lparr>bvol := v, blk := B\<rparr>) (G @ F)"
      "set G = tree_blocks (blk s) b l - {b}" "\<And>x. x \<notin> tree_blocks (blk s) b l \<Longrightarrow> B x = blk s x"
      using goes_below_all[OF False h(2)] Suc unfolding trunc_spec_def by metis
    have "b \<in> U" "b \<notin> set (G @ F)" using r(3) h(3) bin by auto
    from free_gives_back[OF r(2) this] obtain v' B' G' where q: "free_blk b (s\<lparr>bvol := v, blk := B\<rparr>) = Ok (s\<lparr>bvol := v', blk := B'\<rparr>)"
      "good U (s\<lparr>bvol := v', blk := B'\<rparr>) (G' @ G @ F)" "set G' = {b}" "\<And>x. x \<noteq> b \<Longrightarrow> B' x = B x" unfolding gives_back_def by auto
    have "B' x = blk s x" if "x \<notin> tree_blocks (blk s) b l" for x using q(4)[of x] r(4)[OF that] that bin by auto
    moreover have "set (G' @ G) = tree_blocks (blk s) b l" using q(3) r(3) bin by auto
    moreover have "drop_tree l b s = Ok (s\<lparr>bvol := v', blk := B'\<rparr>)" using Suc False r(1) q(1) by simp
    ultimately show ?thesis using q(2) unfolding gives_back_def by (intro exI[of _ v'] exI[of _ B'] exI[of _ "G' @ G"]) auto
  qed
qed

lemma indirtrunc_spec:
  "\<lbrakk>good U s F; tree_inj (blk s) b (Suc l); b \<noteq> 0; tree_blocks (blk s) b (Suc l) \<subseteq> U - set F; lst < 0 \<or> l < 2; -1 \<le> lst; lst < 256 ^ Suc l\<rbrakk>
    \<Longrightarrow> trunc_spec U l b lst s F (indirtrunc l b lst s)"
proof (induction l arbitrary: s F b lst rule: less_induct)
  case (less l)
  note g = less.prems(1) and i = less.prems(2) and b = less.prems(3) and sub = less.prems(4)
  let ?B = "blk s" let ?e = "\<lambda>i. long_at (?B b) (4 * i)" let ?T = "\<lambda>i. tree_blocks ?B (?e i) l"
  have f: "gives_back U (tree_blocks (blk s) b l) s F (drop_tree l b s)"
    if h: "good U s F" "tree_inj (blk s) b l" "tree_blocks (blk s) b l \<subseteq> U - set F" for s F b
  proof (rule drop_tree_step[OF h])
    show "trunc_spec U k b (-1) s F (indirtrunc k b (-1) s)" if "l = Suc k" "b \<noteq> 0" for k
      using less.IH[of k s F b "-1"] that h less_trans[of "-1" 0 "256 ^ l :: int"] by simp
  qed
  have c: "-1 \<le> cut_at l lst" "cut_at l lst < 256" "0 \<le> lst \<Longrightarrow> 0 \<le> cut_at l lst" using cut_at_range[OF less.prems(7)] by blast+
  let ?m = "nat (cut_at l lst + 1)" and ?C = "nat (cut_at l lst)"
  have m: "?m \<le> 256" using c(1,2) by linarith
  have len: "length (?B b) = DEV_BSIZE" using g by (simp add: good_def)
  have bin: "b \<in> tree_blocks ?B b (Suc l)" using b unfolding tree_blocks_def by (auto simp: image_iff intro!: bexI[of _ "[]"])
  then have e: "\<not> rderr (bvol s) b" using g sub by (auto simp: good_def fs_ok_def)
  note en = tree_entry[OF i b _ refl]
  obtain v B G where h: "each (drop_tree l) (map ?e (rev [?m..<256])) (put_blk b (zero_from (4 * ?m) (?B b)) s) = Ok (s\<lparr>bvol := v, blk := B\<rparr>)"
    "good U (s\<lparr>bvol := v, blk := B\<rparr>) (G @ F)" "set G = (\<Union>i\<in>{?m..<256}. ?T i)" "B b = zero_from (4 * ?m) (?B b)"
    "\<And>x. x \<noteq> b \<Longrightarrow> x \<notin> set G \<Longrightarrow> B x = ?B x" using cut_gives_back[OF g i b sub f m] by blast
  have a: "after (cut_at l lst) (?B b) = map ?e (rev [?m..<256])" by (simp add: after_def NINDIR_def)
  let ?s = "s\<lparr>bvol := v, blk := B\<rparr>"
  have q: "indirtrunc l b lst s = (if lst < 0 \<or> l = 0 \<or> ?e ?C = 0 then Ok ?s else indirtrunc (l - 1) (?e ?C) (lst mod 256 ^ l) ?s)"
    unfolding indirtrunc_eq[OF e less.prems(5,6)] a h(1) by simp
  have keep: "B x = ?B x" if "i < 256" "int i \<le> cut_at l lst" "x \<in> ?T i" for i x
  proof (rule h(5))
    show "x \<noteq> b" using en(3)[OF that(1)] that(3) by blast
    show "x \<notin> set G"
    proof
      assume "x \<in> set G"
      then obtain j where j: "?m \<le> j" "j < 256" "x \<in> ?T j" unfolding h(3) by auto
      then have "i \<noteq> j" using that(2) by auto
      then show False using tree_entries_disjoint[OF i b that(1) j(2)] j(3) that(3) by blast
    qed
  qed
  have out: "B x = ?B x" if "x \<notin> tree_blocks ?B b (Suc l)" for x
  proof (rule h(5))
    show "x \<noteq> b" using that bin by blast
    show "x \<notin> set G"
    proof
      assume "x \<in> set G"
      then obtain j where "j < 256" "x \<in> ?T j" unfolding h(3) by auto
      then show False using en(2) that by blast
    qed
  qed
  show ?case
  proof (cases "lst < 0 \<or> l = 0 \<or> ?e ?C = 0")
    case True
    have z: "kept l (lst mod 256 ^ l) is \<or> node (blk s) (?e ?C) is = 0" if "0 \<le> lst" "is \<in> paths l" for "is" using True that by auto
    then have "goes_below ?B (?e ?C) l (lst mod 256 ^ l) = {}" if "0 \<le> lst" using that by (auto simp: goes_below_def)
    then have G: "set G = (\<Union>i\<in>{?m..<256}. ?T i) \<union> (if lst < 0 then {} else goes_below ?B (?e ?C) l (lst mod 256 ^ l))" using h(3) by auto
    have k: "B x = ?B x" if "0 \<le> lst" "x \<in> ?T ?C" for x using keep[of ?C x] c that by simp
    have nd: "node B (?e ?C) is = node ?B (?e ?C) is" if "0 \<le> lst" "is \<in> paths l" for "is" using node_cong[of ?B "?e ?C" l B] k that by blast
    have r: "indirtrunc l b lst s = Ok ?s" using q True by simp
    show ?thesis
    proof (rule cut_finish[OF b less.prems(7,6) len r h(2) G h(4) _ _ _ out])
      show "B x = ?B x" if "i < 256" "int i < cut_at l lst" "x \<in> ?T i" for i x using keep[OF that(1) _ that(3)] that(2) by simp
      show "node B (?e ?C) is = (if kept l (lst mod 256 ^ l) is then node ?B (?e ?C) is else 0)" if "0 \<le> lst" "is \<in> paths l" for "is"
        using nd[OF that] z[OF that] by auto
      show "B (node ?B (?e ?C) is) = ?B (node ?B (?e ?C) is)" if "0 \<le> lst" "is \<in> paths l" "node ?B (?e ?C) is \<noteq> 0" for "is"
        using k[OF that(1), of "node ?B (?e ?C) is"] that by (auto simp: tree_blocks_def)
    qed
  next
    case False
    then obtain k where l: "l = Suc k" "0 \<le> lst" "l < 2" using less.prems(5) by (cases l) auto
    let ?c = "?e ?C" and ?lst = "lst mod 256 ^ l"
    have C: "?C < 256" "int ?C = cut_at l lst" using c l(2) by auto
    have tc: "tree_blocks B ?c l = ?T ?C" "tree_inj B ?c l" "goes_below B ?c l ?lst = goes_below ?B ?c l ?lst" "\<And>is. is \<in> paths l \<Longrightarrow> node B ?c is = node ?B ?c is"
      using tree_blocks_cong[of ?B ?c l B] tree_inj_cong[OF en(1)[OF C(1)], of B] goes_below_cong[of ?B ?c l B ?lst] node_cong[of ?B ?c l B] keep[OF C(1)] C(2) by simp_all
    have "?T ?C \<inter> ?T j = {}" if "?m \<le> j" "j < 256" for j
    proof -
      have "?C \<noteq> j" using that(1) c(3) l(2) by linarith
      then show ?thesis by (rule tree_entries_disjoint[OF i b C(1) that(2)])
    qed
    then have dG: "?T ?C \<inter> set G = {}" unfolding h(3) by (fastforce simp: disjoint_iff)
    have "tree_blocks (blk ?s) ?c (Suc k) \<subseteq> U - set (G @ F)" using tc(1) l(1) dG en(2)[OF C(1)] sub by auto
    then have "trunc_spec U k ?c ?lst ?s (G @ F) (indirtrunc k ?c ?lst ?s)"
      using False l tc(2) h(2) by (intro less.IH) simp_all
    then obtain v' B' G' where w: "indirtrunc k ?c ?lst ?s = Ok (s\<lparr>bvol := v', blk := B'\<rparr>)" "good U (s\<lparr>bvol := v', blk := B'\<rparr>) (G' @ G @ F)"
      "set G' = goes_below ?B ?c l ?lst" "\<And>x. x \<notin> ?T ?C \<Longrightarrow> B' x = B x" "\<And>is. is \<in> paths l \<Longrightarrow> node B' ?c is = (if kept l ?lst is then node B ?c is else 0)"
      "\<And>is. is \<in> paths l \<Longrightarrow> kept l ?lst is \<Longrightarrow> length is = l \<Longrightarrow> node B ?c is \<noteq> 0 \<Longrightarrow> B' (node B ?c is) = B (node B ?c is)"
      unfolding trunc_spec_def l(1)[symmetric] using tc(1,3) by auto
    have r: "indirtrunc l b lst s = Ok (s\<lparr>bvol := v', blk := B'\<rparr>)" using q False w(1) l(1) by simp
    have g': "good U (s\<lparr>bvol := v', blk := B'\<rparr>) ((G' @ G) @ F)" using w(2) by simp
    have G: "set (G' @ G) = (\<Union>i\<in>{?m..<256}. ?T i) \<union> (if lst < 0 then {} else goes_below ?B ?c l ?lst)" using h(3) w(3) l(2) by auto
    have B'b: "B' b = zero_from (4 * ?m) (?B b)" using w(4)[of b] en(3)[OF C(1)] h(4) by simp
    show ?thesis
    proof (rule cut_finish[OF b less.prems(7,6) len r g' G B'b])
      show "B' x = blk s x" if "i < 256" "int i < cut_at l lst" "x \<in> ?T i" for i x
      proof -
        have "x \<notin> ?T ?C" using tree_entries_disjoint[OF i b that(1) C(1)] that C(2) by auto
        then show ?thesis using w(4) keep[OF that(1) _ that(3)] that(2) by simp
      qed
      show "B' x = blk s x" if "x \<notin> tree_blocks (blk s) b (Suc l)" for x
      proof -
        have "x \<notin> ?T ?C" using that en(2)[OF C(1)] by blast
        then show ?thesis using w(4) out[OF that] by simp
      qed
      show "node B' ?c is = (if kept l ?lst is then node (blk s) ?c is else 0)" if "is \<in> paths l" for "is" using w(5)[OF that] tc(4)[OF that] by simp
      show "B' (node (blk s) ?c is) = blk s (node (blk s) ?c is)" if "is \<in> paths l" "kept l ?lst is" "length is = l" "node (blk s) ?c is \<noteq> 0" for "is"
      proof -
        have "node (blk s) ?c is \<in> ?T ?C" using that by (auto simp: tree_blocks_def)
        then show ?thesis using w(6)[OF that(1-3)] that(4) tc(4)[OF that(1)] keep[OF C(1)] C(2) by simp
      qed
    qed
  qed
qed

lemma drop_tree_gives_back:
  assumes "good U s F" "tree_inj (blk s) b l" "tree_blocks (blk s) b l \<subseteq> U - set F"
  shows "gives_back U (tree_blocks (blk s) b l) s F (drop_tree l b s)"
proof (rule drop_tree_step[OF assms])
  show "trunc_spec U k b (-1) s F (indirtrunc k b (-1) s)" if "l = Suc k" "b \<noteq> 0" for k
    using indirtrunc_spec[of U s F b k "-1"] that assms less_trans[of "-1" 0 "256 ^ l :: int"] by simp
qed

section \<open>Truncating a file\<close>

text \<open>The places that go when a file is cut after a block that is direct or in the first tree.\<close>

fun stays :: "int \<Rightarrow> nat \<Rightarrow> nat list \<Rightarrow> bool" where
  "stays lst r is \<longleftrightarrow> (if r < 4 then int r \<le> lst else r = 4 \<and> 4 \<le> lst \<and> kept 1 (lst - 4) is)"

definition cut_places :: "nat \<Rightarrow> int \<Rightarrow> (nat \<times> nat \<times> nat list) set" where
  "cut_places ip lst = {(jp, r, is). (jp, r, is) \<in> places \<and> jp = ip \<and> \<not> stays lst r is}"

lemma stays_block:
  assumes "place_of bn = Some (r, is)" "lst < 260"
  shows "stays lst r is \<longleftrightarrow> bn \<le> lst"
  using assms by (auto simp: place_of_def kept.simps(3) split: if_splits)

lemma files_ok_good: "files_ok U T s F \<Longrightarrow> good U s F"
  by (simp add: good_def files_ok_def)

lemma file_tree:
  assumes ok: "files_ok U T s F" and r: "r < 7"
  shows "tree_blocks (blk s) (i_addr (ino s ip) ! r) (r - 3) = addr s ` {(ip, r, is) |is. is \<in> paths (r - 3)} - {0}"
    "tree_inj (blk s) (i_addr (ino s ip) ! r) (r - 3)" "tree_blocks (blk s) (i_addr (ino s ip) ! r) (r - 3) \<subseteq> T - set F"
proof -
  let ?b = "i_addr (ino s ip) ! r"
  have n: "node (blk s) ?b is = addr s (ip, r, is)" for "is" by (simp add: addr_def)
  have p: "is \<in> paths (r - 3) \<Longrightarrow> (ip, r, is) \<in> places" for "is" using r by (simp add: places_def)
  show t: "tree_blocks (blk s) ?b (r - 3) = addr s ` {(ip, r, is) |is. is \<in> paths (r - 3)} - {0}" unfolding tree_blocks_def n by blast
  show "tree_inj (blk s) ?b (r - 3)" unfolding tree_inj_def n using files_okD(8)[OF ok] p by blast
  show "tree_blocks (blk s) ?b (r - 3) \<subseteq> T - set F" unfolding t using files_okD(10)[OF ok] p by blast
qed

lemma file_trees_apart:
  assumes ok: "files_ok U T s F" and r: "r < 7" "r' < 7" "(ip, r) \<noteq> (jp, r')"
  shows "tree_blocks (blk s) (i_addr (ino s ip) ! r) (r - 3) \<inter> tree_blocks (blk s) (i_addr (ino s jp) ! r') (r' - 3) = {}"
proof (rule ccontr)
  assume "\<not> ?thesis"
  then obtain "is" js where "is \<in> paths (r - 3)" "js \<in> paths (r' - 3)" "addr s (ip, r, is) = addr s (jp, r', js)" "addr s (ip, r, is) \<noteq> 0"
    unfolding file_tree(1)[OF ok r(1)] file_tree(1)[OF ok r(2)] by auto
  then have "(ip, r, is) = (jp, r', js)" using r by (intro files_okD(8)[OF ok]) (auto simp: places_def)
  then show False using r(3) by simp
qed

lemma files_ok_shrink:
  assumes ok: "files_ok U T s F" and g: "good U s' (G @ F)" and i: "\<And>ip. length (i_addr (ino s' ip)) = NADDR" and D: "D \<subseteq> places"
    and a: "\<And>q. q \<in> places \<Longrightarrow> addr s' q = (if q \<in> D then 0 else addr s q)" and G: "set G = addr s ` D - {0}"
  shows "files_ok U T s' (G @ F)"
proof -
  note o = files_okD[OF ok]
  have GT: "set G \<subseteq> T - set F" unfolding G using o(10) D by blast
  have inj: "q = q'" if "q \<in> places" "q' \<in> places" "addr s' q = addr s' q'" "addr s' q \<noteq> 0" for q q'
    using that o(8)[OF that(1,2)] unfolding a[OF that(1)] a[OF that(2)] by (auto split: if_splits)
  have "addr s' ` places - {0} = addr s ` (places - D) - {0}" using a by (auto simp: image_iff split: if_splits)
  also have "\<dots> = addr s ` places - {0} - set G"
  proof -
    have "addr s q \<notin> set G" if "q \<in> places - D" "addr s q \<noteq> 0" for q using that o(8)[of q] D unfolding G by auto
    moreover have "q \<notin> D" if "addr s q \<noteq> 0" "addr s q \<notin> set G" for q using that unfolding G by auto
    ultimately show ?thesis by blast
  qed
  finally have "addr s' ` places - {0} = T - set (G @ F)" using o(9) by auto
  then show ?thesis unfolding files_ok_def using g i inj GT o(2-4) by (auto simp: good_def)
qed

text \<open>The roots that are given back whole.\<close>

definition dropp :: "nat \<times> int \<Rightarrow> bstate \<Rightarrow> bstate outcome" where
  "dropp = (\<lambda>(k, b). drop_tree k b)"

lemma roots_give_back:
  fixes ip :: nat
  assumes ok: "files_ok U T s F" and rs: "set rs \<subseteq> {..<7}" "distinct rs" and s1: "blk s1 = blk s" "bvol s1 = bvol s" "stale s1 = stale s"
  defines "A \<equiv> \<Union>r\<in>set rs. tree_blocks (blk s) (i_addr (ino s ip) ! r) (r - 3)"
  shows "gives_back U A s1 F (each dropp (map (\<lambda>r. (r - 3, i_addr (ino s ip) ! r)) rs) s1)"
proof -
  let ?xs = "map (\<lambda>r. (r - 3, i_addr (ino s ip) ! r)) rs"
  have A: "forest (blk s1) ?xs = A" unfolding s1 by (auto simp: forest_def A_def)
  have "gives_back U (forest (blk s1) ?xs) s1 F (each dropp ?xs s1)"
  proof (rule each_gives_back)
    show "gives_back U (tree_blocks (blk s) b k) s F (dropp (k, b) s)"
      if "(k, b) \<in> set ?xs" "good U s F" "tree_inj (blk s) b k" "tree_blocks (blk s) b k \<subseteq> U - set F" for k b s F
      using drop_tree_gives_back[OF that(2-4)] by (simp add: dropp_def)
    show "good U s1 F" using files_ok_good[OF ok] s1 by (simp add: good_def)
    show "tree_inj (blk s1) b k" if "(k, b) \<in> set ?xs" for k b using that file_tree(2)[OF ok, of _ ip] rs(1) unfolding s1 by auto
    show "forest (blk s1) ?xs \<subseteq> U - set F" using file_tree(3)[OF ok, of _ ip] rs(1) files_okD(3)[OF ok] unfolding A A_def by fastforce
    have "sorted_wrt (\<lambda>r r'. tree_blocks (blk s) (i_addr (ino s ip) ! r) (r - 3) \<inter> tree_blocks (blk s) (i_addr (ino s ip) ! r') (r' - 3) = {}) rs"
      unfolding sorted_wrt_iff_nth_less
    proof (intro allI impI)
      fix i j assume "i < j" "j < length rs"
      then have "rs ! i < 7" "rs ! j < 7" "(ip, rs ! i) \<noteq> (ip, rs ! j)" using rs(2) subsetD[OF rs(1) nth_mem, of i] subsetD[OF rs(1) nth_mem, of j] by (auto simp: nth_eq_iff_index_eq)
      then show "tree_blocks (blk s) (i_addr (ino s ip) ! (rs ! i)) (rs ! i - 3) \<inter> tree_blocks (blk s) (i_addr (ino s ip) ! (rs ! j)) (rs ! j - 3) = {}"
        by (rule file_trees_apart[OF ok])
    qed
    then show "apart (blk s1) ?xs" unfolding s1 apart_def by (simp add: sorted_wrt_map)
  qed
  then show ?thesis unfolding A .
qed

lemma addr_goes_eq:
  assumes "lst < 260" "r < 7"
  shows "addr_goes lst r \<longleftrightarrow> (if r < 4 then int r > lst else r = 4 \<longrightarrow> lst < 4)"
proof -
  have n: "NINDIR2 = 0" by (simp add: NINDIR2_def)
  consider "r < 4" | "r = 4" | "r = 5" | "r = 6" using assms(2) by linarith
  then show ?thesis using assms(1) n by cases (auto simp: addr_goes_def NDADDR_def NINDIR_def numeral_2_eq_2)
qed

lemma cut_roots:
  fixes len :: int and s :: bstate
  assumes "length (i_addr (ino s ip)) = NADDR" "lst < 260" "r < 7"
  defines "s1 \<equiv> upd_ino ip (cut_ino len lst) s"
  shows "i_addr (ino s1 jp) ! r = (if jp = ip \<and> (if r < 4 then int r > lst else r = 4 \<longrightarrow> lst < 4) then 0 else i_addr (ino s jp) ! r)"
    "length (i_addr (ino s1 ip)) = NADDR"
  using addr_goes_eq[OF assms(2,3)] assms(3) by (auto simp: s1_def cut_ino_def)

lemma trunc_tree_step:
  "trunc_trees ad lst (l # ls) s = (if lastiblock lst l < 0
     then obind (drop_tree (Suc l) (ad ! (4 + l)) s) (trunc_trees ad lst ls)
     else omap (Pair False) (if ad ! (4 + l) = 0 then Ok s else indirtrunc l (ad ! (4 + l)) (lastiblock lst l) s))"
proof -
  have "obind m Ok = m" for m :: "bstate outcome" by (cases m) auto
  moreover have "max (-1) (lastiblock lst l) = (if lastiblock lst l < 0 then -1 else lastiblock lst l)" by simp
  ultimately show ?thesis by (auto simp: Let_def NDADDR_def omap_def simp del: indirtrunc.simps lastiblock.simps)
qed

lemma trunc_blocks_eq:
  fixes len :: int and ip :: nat and s :: bstate
  assumes "lastblk len < 260" "-1 \<le> lastblk len"
  defines "lst \<equiv> lastblk len" and "ad \<equiv> i_addr (ino s ip)" and "s1 \<equiv> upd_ino ip (cut_ino len (lastblk len)) s"
  shows "trunc_blocks ip len s =
    (if lst < 4 then each dropp (map (\<lambda>r. (r - 3, ad ! r)) ([6, 5, 4] @ rev [nat (lst + 1)..<4])) s1
     else obind (each dropp (map (\<lambda>r. (r - 3, ad ! r)) [6, 5]) s1) (\<lambda>s. if ad ! 4 = 0 then Ok s else indirtrunc 0 (ad ! 4) (lst - 4) s))"
proof -
  have n: "NINDIR2 = 0" by (simp add: NINDIR2_def)
  have l: "lastiblock lst 2 < 0" "lastiblock lst 1 < 0" "lastiblock lst 0 = lst - 4" using assms(1) n by (simp_all add: lst_def NDADDR_def NINDIR_def numeral_2_eq_2)
  have d: "trunc_direct ad lst s = each dropp (map (\<lambda>r. (r - 3, ad ! r)) (rev [nat (lst + 1)..<4])) s" for s
  proof -
    have "each (\<lambda>i s. if ad ! i = 0 then Ok s else free_blk (ad ! i) s) (rev [nat (lst + 1)..<4]) s = each (\<lambda>r. dropp (r - 3, ad ! r)) (rev [nat (lst + 1)..<4]) s"
      by (rule each_cong) (auto simp: dropp_def)
    then show ?thesis unfolding trunc_direct_def each_map by (simp add: NDADDR_def)
  qed
  have e: "trunc_blocks ip len s = obind (trunc_trees ad lst [2, 1, 0] s1) (\<lambda>(go, s1). if go then trunc_direct ad lst s1 else Ok s1)"
    by (simp only: trunc_blocks_def Let_def lst_def ad_def s1_def)
  note st = trunc_tree_step[of ad lst]
  have m: "Suc 2 = 3" "Suc 1 = 2" "(4::nat) + 2 = 6" "(4::nat) + 1 = 5" "(4::nat) + 0 = 4" "Suc 0 = 1" by simp_all
  have t1: "trunc_trees ad lst [1, 0] = (\<lambda>s. obind (drop_tree 2 (ad ! 5) s) (trunc_trees ad lst [0]))"
    using l(2) by (intro ext) (simp only: st m if_True)
  have t: "trunc_trees ad lst [2, 1, 0] s1 = obind (drop_tree 3 (ad ! 6) s1) (\<lambda>s. obind (drop_tree 2 (ad ! 5) s) (trunc_trees ad lst [0]))"
    using l(1) unfolding t1[symmetric] by (simp only: st m if_True)
  show ?thesis
  proof (cases "lst < 4")
    case True
    then have "lastiblock lst 0 < 0" using l(3) by simp
    then have "trunc_trees ad lst [0] = (\<lambda>s. obind (drop_tree 1 (ad ! 4) s) (trunc_trees ad lst []))"
      by (intro ext) (simp only: st m if_True)
    moreover have "trunc_trees ad lst [] = (\<lambda>s. Ok (True, s))" by (intro ext) simp
    ultimately show ?thesis unfolding e t each_append using True d by (simp add: dropp_def each_Cons del: drop_tree.simps)
  next
    case False
    then have "trunc_trees ad lst [0] = (\<lambda>s. omap (Pair False) (if ad ! 4 = 0 then Ok s else indirtrunc 0 (ad ! 4) (lst - 4) s))"
      by (intro ext) (simp only: st m l(3), simp del: indirtrunc.simps)
    moreover have "obind (omap (Pair False) m) (\<lambda>(go, s1). if go then trunc_direct ad lst s1 else Ok s1) = m" for m by (cases m) auto
    ultimately show ?thesis unfolding e t using False by (simp add: dropp_def del: indirtrunc.simps drop_tree.simps)
  qed
qed

text \<open>Data blocks that stay keep their contents.\<close>

definition same_data :: "bstate \<Rightarrow> bstate \<Rightarrow> bool" where
  "same_data s s' \<longleftrightarrow> (\<forall>q\<in>places. leaf q \<longrightarrow> addr s' q \<noteq> 0 \<longrightarrow> blk s' (addr s' q) = blk s (addr s' q))"

lemma place_tree:
  assumes ok: "files_ok U T s F" and q: "(jp, r, is) \<in> places"
  shows "\<And>B. (\<And>x. x \<in> tree_blocks (blk s) (i_addr (ino s jp) ! r) (r - 3) \<Longrightarrow> B x = blk s x) \<Longrightarrow>
      node B (i_addr (ino s jp) ! r) is = addr s (jp, r, is)"
    "addr s (jp, r, is) \<noteq> 0 \<Longrightarrow> addr s (jp, r, is) \<in> tree_blocks (blk s) (i_addr (ino s jp) ! r) (r - 3)"
proof -
  have p: "is \<in> paths (r - 3)" "r < 7" using q by (auto simp: places_def)
  show "node B (i_addr (ino s jp) ! r) is = addr s (jp, r, is)"
    if "\<And>x. x \<in> tree_blocks (blk s) (i_addr (ino s jp) ! r) (r - 3) \<Longrightarrow> B x = blk s x" for B
    using node_cong[of "blk s" _ "r - 3" B] that p by (simp add: addr_def)
  show "addr s (jp, r, is) \<noteq> 0 \<Longrightarrow> addr s (jp, r, is) \<in> tree_blocks (blk s) (i_addr (ino s jp) ! r) (r - 3)"
    unfolding file_tree(1)[OF ok p(2)] using p by blast
qed

lemma trunc_case:
  assumes ok: "files_ok U T s F" and D: "D \<subseteq> places" and i: "\<And>ip. length (i_addr (ino s' ip)) = NADDR"
    and g: "good U s' (G @ F)" "set G = addr s ` D - {0}"
    and gone: "\<And>q. q \<in> D \<Longrightarrow> addr s' q = 0"
    and stay: "\<And>q. q \<in> places \<Longrightarrow> q \<notin> D \<Longrightarrow> addr s' q = addr s q \<and> (leaf q \<longrightarrow> addr s q \<noteq> 0 \<longrightarrow> blk s' (addr s q) = blk s (addr s q))"
  shows "files_ok U T s' (G @ F) \<and> (\<forall>q\<in>places. addr s' q = (if q \<in> D then 0 else addr s q)) \<and> same_data s s'"
proof -
  have a: "addr s' q = (if q \<in> D then 0 else addr s q)" if "q \<in> places" for q using gone stay that by auto
  have "blk s' (addr s' q) = blk s (addr s' q)" if "q \<in> places" "leaf q" "addr s' q \<noteq> 0" for q
    using a[OF that(1)] stay[OF that(1)] that by (auto split: if_splits)
  then show ?thesis using files_ok_shrink[OF ok g(1) i D a g(2)] a by (simp add: same_data_def)
qed

text \<open>A tree of which nothing has changed.\<close>

lemma tree_stays:
  assumes ok: "files_ok U T s F" and q: "(jp, r, is) \<in> places" and i: "i_addr (ino s' jp) ! r = i_addr (ino s jp) ! r"
    and b: "\<And>x. x \<in> tree_blocks (blk s) (i_addr (ino s jp) ! r) (r - 3) \<Longrightarrow> blk s' x = blk s x"
  shows "addr s' (jp, r, is) = addr s (jp, r, is) \<and> (leaf (jp, r, is) \<longrightarrow> addr s (jp, r, is) \<noteq> 0 \<longrightarrow> blk s' (addr s (jp, r, is)) = blk s (addr s (jp, r, is)))"
  using place_tree(1)[OF ok q b] place_tree(2)[OF ok q] i b by (simp add: addr_def)

definition rest_same :: "bstate \<Rightarrow> bstate \<Rightarrow> bool" where
  "rest_same s s' \<longleftrightarrow> stale s' = stale s \<and> di_addr s' = di_addr s \<and> di_size s' = di_size s \<and> b_uerr s' = b_uerr s \<and> (\<forall>ip. IPIPE (ino s' ip) = IPIPE (ino s ip))"

lemma trunc_blocks_ok:
  assumes ok: "files_ok U T s F" and lst: "lastblk len < 260" "-1 \<le> lastblk len"
  shows "\<exists>s' G. trunc_blocks ip len s = Ok s' \<and> files_ok U T s' (G @ F) \<and> set G = addr s ` cut_places ip (lastblk len) - {0} \<and>
    (\<forall>q\<in>places. addr s' q = (if q \<in> cut_places ip (lastblk len) then 0 else addr s q)) \<and> same_data s s' \<and>
    (\<forall>jp. i_size (ino s' jp) = (if jp = ip then len else i_size (ino s jp))) \<and> rest_same s s'"
proof -
  let ?lst = "lastblk len" let ?D = "cut_places ip ?lst" let ?s1 = "upd_ino ip (cut_ino len ?lst) s" let ?ad = "i_addr (ino s ip)"
  let ?t = "\<lambda>jp r. tree_blocks (blk s) (i_addr (ino s jp) ! r) (r - 3)"
  note o = files_okD[OF ok] and e = trunc_blocks_eq[OF lst, of ip s] and cr = cut_roots[OF o(7) lst(1)]
  have D: "?D \<subseteq> places" by (auto simp: cut_places_def)
  have li: "length (i_addr (ino ?s1 jp)) = NADDR" for jp using cr(2)[of 0 ip len] o(7)[of jp] by (cases "jp = ip") simp_all
  have im: "addr s ` {(ip, r, is) |is. is \<in> paths (r - 3)} - {0} = ?t ip r" if "r < 7" for r using file_tree(1)[OF ok that] by simp
  have fin: ?thesis
    if r: "trunc_blocks ip len s = Ok (?s1\<lparr>bvol := v, blk := B\<rparr>)" "good U (?s1\<lparr>bvol := v, blk := B\<rparr>) (G @ F)" "set G = addr s ` ?D - {0}"
      and gone: "\<And>q. q \<in> ?D \<Longrightarrow> addr (?s1\<lparr>bvol := v, blk := B\<rparr>) q = 0"
      and stay: "\<And>q. q \<in> places \<Longrightarrow> q \<notin> ?D \<Longrightarrow> addr (?s1\<lparr>bvol := v, blk := B\<rparr>) q = addr s q \<and> (leaf q \<longrightarrow> addr s q \<noteq> 0 \<longrightarrow> B (addr s q) = blk s (addr s q))" for v B G
  proof -
    let ?s = "?s1\<lparr>bvol := v, blk := B\<rparr>"
    have "files_ok U T ?s (G @ F) \<and> (\<forall>q\<in>places. addr ?s q = (if q \<in> ?D then 0 else addr s q)) \<and> same_data s ?s"
      by (rule trunc_case[OF ok D _ r(2,3) gone]) (use li stay in simp_all)
    then show ?thesis using r(1,3) by (intro exI[of _ ?s] exI[of _ G]) (simp add: cut_ino_def rest_same_def)
  qed
  have root: "i_addr (ino ?s1 jp) ! r = (if jp = ip \<and> (if r < 4 then int r > ?lst else r = 4 \<longrightarrow> ?lst < 4) then 0 else i_addr (ino s jp) ! r)" if "r < 7" for jp r
    using cr(1)[OF that] .
  show ?thesis
  proof (cases "?lst < 4")
    case True
    let ?rs = "[6, 5, 4] @ rev [nat (?lst + 1)..<4]"
    have rs: "set ?rs \<subseteq> {..<7}" "distinct ?rs" by auto
    have mem: "r \<in> set ?rs \<longleftrightarrow> r < 7 \<and> \<not> (r < 4 \<and> int r \<le> ?lst)" for r using lst(2) by auto
    have st: "stays ?lst r is \<longleftrightarrow> r < 4 \<and> int r \<le> ?lst" for r "is" using True by auto
    have "gives_back U (\<Union>r\<in>set ?rs. ?t ip r) ?s1 F (trunc_blocks ip len s)"
      unfolding e using True roots_give_back[OF ok rs, of ?s1 ip] by simp
    then obtain v B G where r: "trunc_blocks ip len s = Ok (?s1\<lparr>bvol := v, blk := B\<rparr>)" "good U (?s1\<lparr>bvol := v, blk := B\<rparr>) (G @ F)"
      "set G = (\<Union>r\<in>set ?rs. ?t ip r)" "\<forall>x. x \<notin> (\<Union>r\<in>set ?rs. ?t ip r) \<longrightarrow> B x = blk s x" unfolding gives_back_def by auto
    have inD: "(jp, r, is) \<in> ?D \<longleftrightarrow> (jp, r, is) \<in> places \<and> jp = ip \<and> r \<in> set ?rs" for jp r "is" using mem st by (auto simp: cut_places_def places_def)
    show ?thesis
    proof (rule fin[OF r(1,2)])
      have "addr s q \<in> (\<Union>r\<in>set ?rs. ?t ip r)" if "q \<in> ?D" "addr s q \<noteq> 0" for q
      proof -
        obtain jp r "is" where q: "q = (jp, r, is)" by (cases q)
        have "(jp, r, is) \<in> places \<and> jp = ip \<and> r \<in> set ?rs" using that(1) unfolding q inD .
        then have "(ip, r, is) \<in> places" "jp = ip" "r \<in> set ?rs" by blast+
        then show ?thesis using place_tree(2)[OF ok, of ip r "is"] that(2) unfolding q by blast
      qed
      moreover have "x \<in> addr s ` ?D \<and> x \<noteq> 0" if x: "x \<in> ?t ip r" "r \<in> set ?rs" for x r
      proof -
        have "r < 7" using x(2) rs(1) by auto
        then obtain "is" where "is \<in> paths (r - 3)" "x = addr s (ip, r, is)" "x \<noteq> 0" using x(1) unfolding file_tree(1)[OF ok \<open>r < 7\<close>] by auto
        moreover from this(1) have "(ip, r, is) \<in> ?D" using inD x(2) \<open>r < 7\<close> by (simp add: places_def)
        ultimately show ?thesis by blast
      qed
      ultimately show "set G = addr s ` ?D - {0}" unfolding r(3) by blast
      show "addr (?s1\<lparr>bvol := v, blk := B\<rparr>) q = 0" if "q \<in> ?D" for q
      proof -
        obtain jp r "is" where q': "q = (jp, r, is)" by (cases q)
        have "(jp, r, is) \<in> places \<and> jp = ip \<and> r \<in> set ?rs" using that unfolding q' inD .
        then have q: "q = (ip, r, is)" "r < 7" "r \<in> set ?rs" unfolding q' by (auto simp: places_def)
        then have "i_addr (ino ?s1 ip) ! r = 0" using root[OF q(2), of ip] mem[of r] True by (simp split: if_splits)
        then show ?thesis unfolding q by (simp add: addr_def)
      qed
      show "addr (?s1\<lparr>bvol := v, blk := B\<rparr>) q = addr s q \<and> (leaf q \<longrightarrow> addr s q \<noteq> 0 \<longrightarrow> B (addr s q) = blk s (addr s q))" if h: "q \<in> places" "q \<notin> ?D" for q
      proof -
        obtain jp r' "is" where q: "q = (jp, r', is)" by (cases q)
        have r7: "r' < 7" using h(1) by (simp add: q places_def)
        have nr: "\<not> (jp = ip \<and> r' \<in> set ?rs)" using h inD unfolding q by blast
        have "i_addr (ino ?s1 jp) ! r' = i_addr (ino s jp) ! r'" using root[OF r7, of jp] nr mem[of r'] r7 True by (auto split: if_splits)
        moreover have "x \<notin> (\<Union>r\<in>set ?rs. ?t ip r)" if x: "x \<in> ?t jp r'" for x
        proof
          assume "x \<in> (\<Union>r\<in>set ?rs. ?t ip r)"
          then obtain r where "r \<in> set ?rs" "x \<in> ?t ip r" by blast
          moreover from this(1) have "r < 7" "(jp, r') \<noteq> (ip, r)" using rs(1) nr by auto
          ultimately show False using file_trees_apart[OF ok r7] x by blast
        qed
        ultimately show ?thesis using tree_stays[OF ok h(1)[unfolded q], of "?s1\<lparr>bvol := v, blk := B\<rparr>"] r(4) unfolding q by simp
      qed
    qed
  next
    case False
    let ?c = "?ad ! 4" and ?l = "?lst - 4"
    have rs: "set [6, 5] \<subseteq> {..<7 :: nat}" "distinct [6, 5 :: nat]" by auto
    have "gives_back U (?t ip 6 \<union> ?t ip 5) ?s1 F (each dropp (map (\<lambda>r. (r - 3, ?ad ! r)) [6, 5]) ?s1)"
      using roots_give_back[OF ok rs, of ?s1 ip] by (simp del: each.simps)
    then obtain v1 B1 G1 where r1: "each dropp (map (\<lambda>r. (r - 3, ?ad ! r)) [6, 5]) ?s1 = Ok (?s1\<lparr>bvol := v1, blk := B1\<rparr>)" "good U (?s1\<lparr>bvol := v1, blk := B1\<rparr>) (G1 @ F)"
      "set G1 = ?t ip 6 \<union> ?t ip 5" "\<forall>x. x \<notin> ?t ip 6 \<union> ?t ip 5 \<longrightarrow> B1 x = blk s x" unfolding gives_back_def by auto
    let ?s2 = "?s1\<lparr>bvol := v1, blk := B1\<rparr>"
    have ap: "?t ip 4 \<inter> (?t ip 6 \<union> ?t ip 5) = {}" using file_trees_apart[OF ok, of 4 6 ip ip] file_trees_apart[OF ok, of 4 5 ip ip] by auto
    then have B1: "B1 x = blk s x" if "x \<in> tree_blocks (blk s) ?c 1" for x using r1(4) that by auto
    have tc: "tree_inj B1 ?c 1" "tree_blocks B1 ?c 1 = tree_blocks (blk s) ?c 1" "goes_below B1 ?c 1 ?l = goes_below (blk s) ?c 1 ?l"
      "\<And>is. is \<in> paths 1 \<Longrightarrow> node B1 ?c is = node (blk s) ?c is"
      using tree_inj_cong[of "blk s" ?c 1 B1] tree_blocks_cong[of "blk s" ?c 1 B1] goes_below_cong[of "blk s" ?c 1 B1] node_cong[of "blk s" ?c 1 B1] B1 file_tree(2)[OF ok, of 4 ip] by simp_all
    obtain v B G2 where u: "trunc_blocks ip len s = Ok (?s1\<lparr>bvol := v, blk := B\<rparr>)" "good U (?s1\<lparr>bvol := v, blk := B\<rparr>) (G2 @ G1 @ F)" "set G2 = goes_below (blk s) ?c 1 ?l"
      "\<And>x. x \<notin> ?t ip 4 \<Longrightarrow> B x = B1 x" "\<And>is. is \<in> paths 1 \<Longrightarrow> node B ?c is = (if kept 1 ?l is then node (blk s) ?c is else 0)"
      "\<And>is. is \<in> paths 1 \<Longrightarrow> kept 1 ?l is \<Longrightarrow> length is = 1 \<Longrightarrow> node (blk s) ?c is \<noteq> 0 \<Longrightarrow> B (node (blk s) ?c is) = blk s (node (blk s) ?c is)"
    proof (cases "?c = 0")
      case True
      have "trunc_blocks ip len s = Ok ?s2" unfolding e using False r1(1) True by simp
      moreover have z: "node X ?c is = 0" for X "is" using True by simp
      ultimately show ?thesis using that[of B1 v1 "[]"] r1(2) unfolding z by (simp add: goes_below_def z image_subset_iff)
    next
      case nz: False
      have "tree_blocks (blk ?s2) ?c (Suc 0) \<subseteq> U - set (G1 @ F)" using tc(2) ap r1(3) file_tree(3)[OF ok, of 4 ip] o(3) by auto
      then have "trunc_spec U 0 ?c ?l ?s2 (G1 @ F) (indirtrunc 0 ?c ?l ?s2)" using nz False lst tc(1) r1(2) by (intro indirtrunc_spec) simp_all
      then obtain v B G2 where w: "indirtrunc 0 ?c ?l ?s2 = Ok (?s1\<lparr>bvol := v, blk := B\<rparr>)" "good U (?s1\<lparr>bvol := v, blk := B\<rparr>) (G2 @ G1 @ F)"
        "set G2 = goes_below B1 ?c 1 ?l" "\<And>x. x \<notin> tree_blocks B1 ?c 1 \<Longrightarrow> B x = B1 x" "\<And>is. is \<in> paths 1 \<Longrightarrow> node B ?c is = (if kept 1 ?l is then node B1 ?c is else 0)"
        "\<And>is. is \<in> paths 1 \<Longrightarrow> kept 1 ?l is \<Longrightarrow> length is = 1 \<Longrightarrow> node B1 ?c is \<noteq> 0 \<Longrightarrow> B (node B1 ?c is) = B1 (node B1 ?c is)"
        unfolding trunc_spec_def by auto
      have "trunc_blocks ip len s = Ok (?s1\<lparr>bvol := v, blk := B\<rparr>)" unfolding e using False nz r1(1) w(1) by (simp del: indirtrunc.simps)
      moreover have "node (blk s) ?c is \<in> tree_blocks (blk s) ?c 1" if "is \<in> paths 1" "node (blk s) ?c is \<noteq> 0" for "is" using that by (auto simp: tree_blocks_def)
      ultimately show ?thesis using that[of B v G2] w tc B1 by simp
    qed
    let ?s = "?s1\<lparr>bvol := v, blk := B\<rparr>"
    have st: "stays ?lst r is \<longleftrightarrow> r < 4 \<or> r = 4 \<and> kept 1 ?l is" for r "is" using False by auto
    have inD: "(jp, r, is) \<in> ?D \<longleftrightarrow> (jp, r, is) \<in> places \<and> jp = ip \<and> (r = 6 \<or> r = 5 \<or> r = 4 \<and> \<not> kept 1 ?l is)" for jp r "is"
      using st[of r "is"] by (auto simp: cut_places_def places_def)
    have g: "good U ?s ((G2 @ G1) @ F)" using u(2) by simp
    have n4: "node B0 ?c is = node B0 (i_addr (ino s ip) ! 4) is" for B0 "is" by simp
    show ?thesis
    proof (rule fin[OF u(1) g])
      have a4: "addr s (ip, 4, is) = node (blk s) ?c is" for "is" by (simp add: addr_def)
      have "addr s q \<in> set (G2 @ G1)" if "q \<in> ?D" "addr s q \<noteq> 0" for q
      proof -
        obtain jp r "is" where q: "q = (jp, r, is)" by (cases q)
        have "(jp, r, is) \<in> places \<and> jp = ip \<and> (r = 6 \<or> r = 5 \<or> r = 4 \<and> \<not> kept 1 ?l is)" using that(1) unfolding q inD .
        then have h: "(ip, r, is) \<in> places" "jp = ip" "r = 6 \<or> r = 5 \<or> r = 4 \<and> \<not> kept 1 ?l is" by blast+
        then have "addr s q \<in> ?t ip r" using place_tree(2)[OF ok h(1)] that(2) unfolding q by blast
        moreover have "addr s q \<in> goes_below (blk s) ?c 1 ?l" if "r = 4" "\<not> kept 1 ?l is"
          using that h(1,2) \<open>addr s q \<noteq> 0\<close> a4 unfolding q goes_below_def by (auto simp: places_def)
        ultimately show ?thesis using h(3) u(3) r1(3) by auto
      qed
      moreover have "x \<in> addr s ` ?D \<and> x \<noteq> 0" if x: "x \<in> set (G2 @ G1)" for x
      proof -
        consider "x \<in> ?t ip 6" | "x \<in> ?t ip 5" | "x \<in> goes_below (blk s) ?c 1 ?l" using x u(3) r1(3) by auto
        then show ?thesis
        proof cases
          case 1
          then obtain "is" where "is \<in> paths (6 - 3)" "x = addr s (ip, 6, is)" "x \<noteq> 0" using file_tree(1)[OF ok, of 6 ip] by auto
          moreover from this(1) have "(ip, 6, is) \<in> ?D" unfolding inD by (simp add: places_def)
          ultimately show ?thesis by blast
        next
          case 2
          then obtain "is" where "is \<in> paths (5 - 3)" "x = addr s (ip, 5, is)" "x \<noteq> 0" using file_tree(1)[OF ok, of 5 ip] by auto
          moreover from this(1) have "(ip, 5, is) \<in> ?D" unfolding inD by (simp add: places_def)
          ultimately show ?thesis by blast
        next
          case 3
          then obtain "is" where "is \<in> paths 1" "\<not> kept 1 ?l is" "x = addr s (ip, 4, is)" "x \<noteq> 0" unfolding goes_below_def a4 by auto
          moreover from this(1,2) have "(ip, 4, is) \<in> ?D" unfolding inD by (simp add: places_def)
          ultimately show ?thesis by blast
        qed
      qed
      ultimately show "set (G2 @ G1) = addr s ` ?D - {0}" by blast
      show "addr ?s q = 0" if "q \<in> ?D" for q
      proof -
        obtain jp r "is" where q: "q = (jp, r, is)" by (cases q)
        have "(jp, r, is) \<in> places \<and> jp = ip \<and> (r = 6 \<or> r = 5 \<or> r = 4 \<and> \<not> kept 1 ?l is)" using that unfolding q inD .
        then have h: "(ip, r, is) \<in> places" "jp = ip" "r = 6 \<or> r = 5 \<or> r = 4 \<and> \<not> kept 1 ?l is" by blast+
        show ?thesis
        proof (cases "r = 4")
          case True
          then have "node B ?c is = 0" using u(5)[of "is"] h by (simp add: places_def)
          then show ?thesis using root[of 4 ip] False h(2) True unfolding q by (simp add: addr_def)
        next
          case nr: False
          then have "i_addr (ino ?s1 ip) ! r = 0" using root[of r ip] h(3) False by auto
          then show ?thesis unfolding q using h(2) by (simp add: addr_def)
        qed
      qed
      show "addr ?s q = addr s q \<and> (leaf q \<longrightarrow> addr s q \<noteq> 0 \<longrightarrow> B (addr s q) = blk s (addr s q))" if h: "q \<in> places" "q \<notin> ?D" for q
      proof -
        obtain jp r "is" where q: "q = (jp, r, is)" by (cases q)
        have r7: "r < 7" using h(1) by (simp add: q places_def)
        have nr: "jp \<noteq> ip \<or> r < 4 \<or> r = 4 \<and> kept 1 ?l is" using h inD[of jp r "is"] r7 unfolding q by auto
        have i: "i_addr (ino ?s1 jp) ! r = i_addr (ino s jp) ! r" using root[OF r7, of jp] nr r7 False by (auto split: if_splits)
        show ?thesis
        proof (cases "jp = ip \<and> r = 4")
          case True
          then have p: "is \<in> paths 1" "kept 1 ?l is" "jp = ip" "r = 4" using h(1) nr by (auto simp: q places_def)
          then have "addr ?s q = addr s q" using i u(5)[OF p(1)] unfolding q by (simp add: addr_def)
          moreover have "B (addr s q) = blk s (addr s q)" if "leaf q" "addr s q \<noteq> 0"
            using u(6)[OF p(1,2)] that p(3,4) unfolding q by (simp add: addr_def)
          ultimately show ?thesis by blast
        next
          case nt: False
          have "B x = blk s x" if x: "x \<in> ?t jp r" for x
          proof -
            have n: "x \<notin> ?t ip r'" if "r' < 7" "(jp, r) \<noteq> (ip, r')" for r' using file_trees_apart[OF ok r7 that] x by blast
            have "x \<notin> ?t ip 4" "x \<notin> ?t ip 5" "x \<notin> ?t ip 6" by (rule n, simp, use nt nr in force)+
            then show ?thesis using u(4) r1(4) by simp
          qed
          then show ?thesis using tree_stays[OF ok h(1)[unfolded q], of ?s] i unfolding q by simp
        qed
      qed
    qed
  qed
qed

end
