(* ===== verification/Bmap_Thms.thy ===== *)
theory Bmap_Thms
  imports Bmap_Trunc
begin

text \<open>The properties of the blocks of files.\<close>

section \<open>Whole calls\<close>

lemma blkoff_range: "blkoff len \<le> DEV_BSIZE"
  by (simp add: blkoff_def DEV_BSIZE_def nat_le_iff)

text \<open>Writing to a data block changes no pointer.\<close>

lemma write_leaf:
  assumes ok: "files_ok U T s F" and q: "q \<in> places" "leaf q" "addr s q = b" "b \<noteq> 0" and bs: "length bs = DEV_BSIZE"
  shows "files_ok U T (put_blk b bs s) F" "p \<in> places \<Longrightarrow> addr (put_blk b bs s) p = addr s p"
proof -
  note o = files_okD[OF ok]
  have a: "addr (put_blk b bs s) (jp, r, js) = addr s (jp, r, js)" if "(jp, r, js) \<in> places" for jp r js
    using that
  proof (induction js rule: rev_induct)
    case Nil
    then show ?case by (simp add: addr_root)
  next
    case (snoc j js)
    have pl: "(jp, r, js) \<in> places" "length js < r - 3" using snoc.prems by (auto simp: places_def dest: paths_snocD)
    then have "addr s (jp, r, js) \<noteq> b" using o(8)[OF pl(1) q(1)] q by (cases q) auto
    then show ?case using snoc.IH[OF pl(1)] by (simp add: addr_snoc)
  qed
  then show a': "p \<in> places \<Longrightarrow> addr (put_blk b bs s) p = addr s p" for p by (cases p) blast
  have "addr (put_blk b bs s) ` places = addr s ` places" using a' by (auto simp: image_iff)
  moreover have "b \<notin> set F" using o(10)[OF q(1)] q by auto
  ultimately show "files_ok U T (put_blk b bs s) F"
    using ok bs a' disk.write_law[of U "bvol s" F b] unfolding files_ok_def by simp
qed

lemma bmap_keeps:
  assumes "files_ok U T s F" "bmap ip bn wr clr s = Ok (nb, s')"
  shows "\<exists>F'. files_ok U T s' F'"
proof (cases "place_of bn")
  case None
  obtain ra where "s' = s\<lparr>rablock := ra, b_uerr := Some EFBIG\<rparr>" using bmap_none[OF None, of ip wr clr s] assms(2) by auto
  then show ?thesis using assms(1) by (auto simp: files_ok_def addr_def)
next
  case (Some x)
  obtain r "is" where x: "x = (r, is)" by (cases x)
  show ?thesis
  proof (cases wr)
    case True
    then show ?thesis using bmap_write[OF assms(1) Some[unfolded x], of ip clr] assms(2) by auto
  next
    case False
    then obtain ra where "s' = s\<lparr>rablock := ra\<rparr>" using bmap_read[OF assms(1) Some[unfolded x], of ip clr] assms(2) by auto
    then show ?thesis using assms(1) by auto
  qed
qed

lemma upd_ino_addr: "(\<And>i. i_addr (f i) = i_addr i) \<Longrightarrow> addr (upd_ino ip f s) = addr s"
  by (rule ext) (auto simp: addr_def)

lemma upd_ino_ok: "(\<And>i. i_addr (f i) = i_addr i) \<Longrightarrow> files_ok U T (upd_ino ip f s) F = files_ok U T s F"
proof -
  assume f: "\<And>i. i_addr (f i) = i_addr i"
  have "(\<forall>jp. length (i_addr (ino (upd_ino ip f s) jp)) = NADDR) = (\<forall>jp. length (i_addr (ino s jp)) = NADDR)" using f by auto
  then show ?thesis using upd_ino_addr[of f ip s, OF f] unfolding files_ok_def by (simp del: NADDR_eq)
qed

lemma updret_ok [simp]: "files_ok U T (updret ip s) F = files_ok U T s F" "addr (updret ip s) = addr s" "blk (updret ip s) = blk s" "bvol (updret ip s) = bvol s"
  "i_addr (ino (updret ip s) jp) = i_addr (ino s jp)" "i_size (ino (updret ip s) jp) = i_size (ino s jp)"
proof -
  show a: "addr (updret ip s) = addr s" by (rule ext) (auto simp: addr_def updret_def iupdat_def)
  show "files_ok U T (updret ip s) F = files_ok U T s F" unfolding files_ok_def a by (auto simp: updret_def iupdat_def)
qed (auto simp: updret_def iupdat_def)

lemma updret_disk: "\<not> rderr (bvol s) (itod (int ip)) \<Longrightarrow> di_size (updret ip s) ip = i_size (ino s ip) \<and> di_addr (updret ip s) ip = i_addr (ino s ip)"
  by (simp add: updret_def iupdat_def)

lemma fmap_updret [simp]: "fmap (updret ip s) = fmap s"
  by (intro ext) (simp only: fmap_def updret_ok(2))

lemma fmap_place: "place_of bn = Some (r, is) \<Longrightarrow> fmap s ip bn = addr s (ip, r, is)"
  by (simp add: fmap_def)

lemma clear_tail_keeps:
  assumes ok: "files_ok U T s F" and r: "clear_tail ip len s = Ok (on, s')"
  shows "\<exists>F'. files_ok U T s' F'"
proof (cases "blkoff len = 0")
  case True
  then show ?thesis using assms by (auto simp: clear_tail_def)
next
  case False
  obtain bn s1 where b: "bmap ip (lblkno len) True True s = Ok (bn, s1)" using r False by (auto simp: clear_tail_def obind_Ok_iff)
  show ?thesis
  proof (cases "b_uerr s1 \<noteq> None \<or> bn < 0 \<or> rderr (bvol s1) bn")
    case True
    then have "s' = s1 \<or> s' = s1\<lparr>b_uerr := Some EIO\<rparr>" using r False b by (auto simp: clear_tail_def split: if_splits)
    then show ?thesis using bmap_keeps[OF ok b] by (auto simp: files_ok_def addr_def)
  next
    case nerr: False
    then have s': "s' = put_blk bn (zero_from (blkoff len) (blk s1 bn)) s1" using r False b by (auto simp: clear_tail_def)
    obtain r "is" where p: "place_of (lblkno len) = Some (r, is)"
      using bmap_none[of "lblkno len" ip True True s] b nerr by (cases "place_of (lblkno len)") auto
    from bmap_write[OF ok p, of ip True] b nerr obtain F1 where w: "files_ok U T s1 F1" "bn = addr s1 (ip, r, is)" "bn \<noteq> 0" by (auto split: if_splits)
    have "length (zero_from (blkoff len) (blk s1 bn)) = DEV_BSIZE" using files_okD(5)[OF w(1)] blkoff_range by simp
    then show ?thesis unfolding s' using write_leaf(1)[OF w(1), of "(ip, r, is)" bn] place_of_places[OF p] w(2,3) by blast
  qed
qed

text \<open>Past the first tree the call that cuts changes nothing but the size: the product of the two 16-bit numbers is zero.\<close>

lemma trunc_blocks_large:
  assumes ok: "files_ok U T s F" and lst: "260 \<le> lastblk len" and r: "trunc_blocks ip len s = Ok s'"
  shows "s' = upd_ino ip (\<lambda>i. i\<lparr>i_size := len\<rparr>) s \<and> i_addr (ino s ip) ! 6 = 0"
proof -
  let ?lst = "lastblk len" let ?ad = "i_addr (ino s ip)" let ?s1 = "upd_ino ip (cut_ino len ?lst) s"
  have n: "NINDIR2 = 0" by (simp add: NINDIR2_def)
  have li: "lastiblock ?lst 2 \<ge> 0" "lastiblock ?lst 1 \<ge> 0" "lastiblock ?lst 0 \<ge> 0" using lst n by (simp_all add: NDADDR_def NINDIR_def numeral_2_eq_2)
  have ag: "\<not> addr_goes ?lst r" if r7: "r < 7" for r
  proof -
    consider "r < 4" | "r = 4" | "r = 5" | "r = 6" using r7 by linarith
    then show ?thesis using lst li by cases (auto simp: addr_goes_def NDADDR_def)
  qed
  have "cut_ino len ?lst (ino s ip) = (ino s ip)\<lparr>i_size := len\<rparr>"
  proof -
    have "map (\<lambda>r. if addr_goes ?lst r then 0 else ?ad ! r) [0..<NADDR] = map (\<lambda>r. ?ad ! r) [0..<NADDR]" using ag by simp
    also have "\<dots> = ?ad" using files_okD(7)[OF ok, of ip] map_nth[of ?ad] by simp
    finally show ?thesis unfolding cut_ino_def by simp
  qed
  then have s1: "?s1 = upd_ino ip (\<lambda>i. i\<lparr>i_size := len\<rparr>) s" by (simp add: upd_ino_def)
  have z: "?ad ! 6 = 0"
  proof (rule ccontr)
    assume nz: "?ad ! 6 \<noteq> 0"
    have "(ip, 6, []) \<in> places" "addr s (ip, 6, []) \<noteq> 0" using nz by (simp_all add: places_def addr_root)
    then have "?ad ! 6 \<in> U" using files_okD(10)[OF ok, of "(ip, 6, [])"] files_okD(3)[OF ok] by (auto simp: addr_root)
    then have "\<not> rderr (bvol ?s1) (?ad ! 6)" using files_okD(1)[OF ok] by (auto simp: fs_ok_def)
    then have "indirtrunc (Suc 1) (?ad ! 6) (lastiblock ?lst 2) ?s1 \<noteq> Ok s2" for s2
      using li n by (auto simp: Let_def obind_Ok_iff simp del: lastiblock.simps)
    then show False using r nz li by (auto simp: trunc_blocks_def Let_def obind_Ok_iff NDADDR_def numeral_2_eq_2 simp del: lastiblock.simps indirtrunc.simps)
  qed
  then show ?thesis using r li s1 by (auto simp: trunc_blocks_def Let_def NDADDR_def simp del: lastiblock.simps indirtrunc.simps)
qed

lemma trunc_blocks_keeps:
  assumes ok: "files_ok U T s F" and r: "trunc_blocks ip len s = Ok s'" "0 \<le> len"
  shows "\<exists>F'. files_ok U T s' F'"
proof -
  have l: "-1 \<le> lastblk len" by (simp add: lastblk_def lblkno_def DEV_BSIZE_def pos_imp_zdiv_nonneg_iff)
  show ?thesis
  proof (cases "lastblk len < 260")
    case True
    then show ?thesis using trunc_blocks_ok[OF ok True l, of ip] r by auto
  next
    case False
    then show ?thesis using trunc_blocks_large[OF ok _ r(1)] ok upd_ino_ok[of "i_size_update (\<lambda>_. len)"] by auto
  qed
qed

lemma itrunc_keeps:
  assumes ok: "files_ok U T s F" and r: "itrunc ip len s = Ok s'" "0 \<le> len"
  shows "\<exists>F'. files_ok U T s' F'"
proof -
  let ?s0 = "if IPIPE (ino s ip) then upd_ino ip (\<lambda>i. i\<lparr>i_size := MAXPIPSIZ\<rparr>) s else s"
  have ok0: "files_ok U T ?s0 F" using ok upd_ino_ok[of "i_size_update (\<lambda>_. MAXPIPSIZ)"] by simp
  consider "s' = updret ip s" | bn s1 where "bmap ip (lblkno (len - 1)) True True ?s0 = Ok (bn, s1)" "s' = s1 \<or> s' = updret ip (upd_ino ip (\<lambda>i. i\<lparr>i_size := len\<rparr>) s1)"
    | on s1 where "clear_tail ip len ?s0 = Ok (on, s1)" "s' = s1 \<or> (\<exists>s2. trunc_blocks ip len s1 = Ok s2 \<and> s' = updret ip s2)"
    using r(1) by (auto simp: itrunc_def Let_def obind_Ok_iff omap_def split: if_splits)
  then show ?thesis
  proof cases
    case 1
    then show ?thesis using ok by auto
  next
    case 2
    from bmap_keeps[OF ok0 2(1)] obtain F1 where "files_ok U T s1 F1" ..
    then show ?thesis using 2(2) upd_ino_ok[of "i_size_update (\<lambda>_. len)"] by auto
  next
    case 3
    from clear_tail_keeps[OF ok0 3(1)] obtain F1 where "files_ok U T s1 F1" ..
    then show ?thesis using 3(2) trunc_blocks_keeps[OF _ _ r(2)] by (metis updret_ok(1))
  qed
qed

section \<open>Blocks that are there\<close>

lemma bmap_walk_present:
  assumes ok: "files_ok U T s F"
  shows "\<lbrakk>(ip, r, is) \<in> places; length is + n = r - 3; addr s (ip, r, is) = nb; addr s (ip, r, is @ digits n bn) \<noteq> 0\<rbrakk> \<Longrightarrow>
    bmap_walk True n (NSHIFT * n) bn nb ra s = bmap_walk False n (NSHIFT * n) bn nb ra s"
proof (induction n arbitrary: "is" nb ra)
  case (Suc n)
  let ?i = "nat (bn div 256 ^ n mod 256)"
  note o = files_okD[OF ok]
  have z: "addr s (ip, r, js @ ks) = 0" if "addr s (ip, r, js) = 0" for js ks using that by (simp add: addr_def node_append)
  have nb: "nb \<noteq> 0" using z[of "is"] Suc.prems(3,4) by auto
  then have "nb \<in> U" using o(3) o(10)[OF Suc.prems(1)] Suc.prems(3) by auto
  then have e: "\<not> rderr (bvol s) nb" using o(1) by (auto simp: fs_ok_def)
  have pl: "(ip, r, is @ [?i]) \<in> places" using Suc.prems(1,2) by (auto simp: places_def paths_def)
  have a: "addr s (ip, r, is @ [?i]) = long_at (blk s nb) (4 * ?i)" using nb Suc.prems(3) by (simp add: addr_snoc)
  have t: "addr s (ip, r, (is @ [?i]) @ digits n bn) \<noteq> 0" using Suc.prems(4) by simp
  then have "long_at (blk s nb) (4 * ?i) \<noteq> 0" using z[of "is @ [?i]" "digits n bn"] a by auto
  moreover have "length (is @ [?i]) + n = r - 3" using Suc.prems(2) by simp
  ultimately show ?case unfolding bmap_walk_Suc[OF e refl] Let_def using Suc.IH[OF pl _ a t] by simp
qed simp

lemma bmap_present:
  assumes ok: "files_ok U T s F" and p: "fmap s ip bn \<noteq> 0"
  shows "\<exists>ra. bmap ip bn wr clr s = Ok (fmap s ip bn, s\<lparr>rablock := ra\<rparr>)"
proof -
  obtain r "is" where pl: "place_of bn = Some (r, is)" using p by (auto simp: fmap_def split: option.splits)
  have "bmap ip bn True clr s = bmap ip bn False clr s"
  proof (cases "bn < 4")
    case True
    then have "i_addr (ino s ip) ! nat bn \<noteq> 0" using p pl by (auto simp: fmap_def place_of_def addr_root split: if_splits)
    then have "bmap_direct ip (nat bn) True clr (s\<lparr>rablock := 0\<rparr>) = bmap_direct ip (nat bn) False clr (s\<lparr>rablock := 0\<rparr>)"
      unfolding bmap_direct_def by (simp del: NADDR_eq)
    moreover have "0 \<le> bn" using pl by (simp add: place_of_def split: if_splits)
    then have "bmap ip bn w clr s = bmap_direct ip (nat bn) w clr (s\<lparr>rablock := 0\<rparr>)" for w
      using True by (simp add: bmap_def)
    ultimately show ?thesis by (simp only:)
  next
    case False
    then have "4 \<le> bn" by simp
    from bmap_tree[OF pl this] obtain n bn1 where n: "bmap_level 3 0 1 (bn - 4) = Some (4 - n, NSHIFT * n, bn1)" "is = digits n bn1" "r = 3 + n" "0 < n" "n < 4"
      by blast
    have ok0: "files_ok U T (s\<lparr>rablock := 0\<rparr>) F" using ok by simp
    have q: "(ip, r, []) \<in> places" "length [] + n = r - 3" "7 - (4 - n) = r" "4 - (4 - n) = n" using n(3-5) by (simp_all add: places_def)
    have f: "addr (s\<lparr>rablock := 0\<rparr>) (ip, r, [] @ digits n bn1) \<noteq> 0" using p pl n(2) by (simp add: fmap_def)
    then have "i_addr (ino s ip) ! r \<noteq> 0" by (auto simp: addr_def)
    moreover have "addr (s\<lparr>rablock := 0\<rparr>) (ip, r, []) = i_addr (ino s ip) ! r" by (simp add: addr_root)
    ultimately show ?thesis using False n(1) q(3,4) bmap_walk_present[OF ok0 q(1,2) _ f, of "i_addr (ino s ip) ! r" 0] by (simp add: bmap_def)
  qed
  then have "bmap ip bn wr clr s = bmap ip bn False clr s" by (cases wr) simp_all
  then show ?thesis using bmap_read[OF ok pl, of ip clr] p by simp
qed

lemma lastblk_eq: "0 \<le> len \<Longrightarrow> len < 2 ^ 31 \<Longrightarrow> lastblk len = (len + 1023) div 1024 - 1"
  by (simp add: lastblk_def lblkno_def DEV_BSIZE_def)

lemma past_end:
  assumes "0 \<le> len" "len < 2 ^ 31"
  shows "lastblk len < bn \<longleftrightarrow> len \<le> 1024 * bn" "0 < blkoff len \<Longrightarrow> lastblk len = lblkno len" "-1 \<le> lastblk len" "lastblk len < 260 \<longleftrightarrow> len \<le> 260 * 1024"
proof -
  have d: "(len + 1023) div 1024 \<le> x \<longleftrightarrow> len \<le> 1024 * x" for x
    using div_mult_mod_eq[of "len + 1023" 1024] pos_mod_sign[of 1024 "len + 1023"] pos_mod_bound[of 1024 "len + 1023"] by auto
  show "lastblk len < bn \<longleftrightarrow> len \<le> 1024 * bn" unfolding lastblk_eq[OF assms] using d[of bn] by linarith
  show "lastblk len < 260 \<longleftrightarrow> len \<le> 260 * 1024" unfolding lastblk_eq[OF assms] using d[of 260] by linarith
  show "-1 \<le> lastblk len" unfolding lastblk_eq[OF assms] using assms by (simp add: pos_imp_zdiv_nonneg_iff)
  show "lastblk len = lblkno len" if "0 < blkoff len"
  proof -
    have "len mod 1024 \<noteq> 0" using that by (simp add: blkoff_def DEV_BSIZE_def)
    moreover have "0 \<le> len mod 1024" "len mod 1024 < 1024" by simp_all
    ultimately have "(len + 1023) div 1024 = len div 1024 + 1"
      using div_mult_mod_eq[of len 1024] div_mult_mod_eq[of "len + 1023" 1024] pos_mod_sign[of 1024 "len + 1023"] pos_mod_bound[of 1024 "len + 1023"] by linarith
    then show ?thesis unfolding lastblk_eq[OF assms] by (simp add: lblkno_def DEV_BSIZE_def)
  qed
qed

lemma cut_fmap:
  assumes "lastblk len < 260" and a: "\<forall>q\<in>places. addr s' q = (if q \<in> cut_places ip (lastblk len) then 0 else addr s q)"
  shows "fmap s' jp bn = (if jp = ip \<and> lastblk len < bn then 0 else fmap s jp bn)"
proof (cases "place_of bn")
  case (Some x)
  obtain r "is" where x: "x = (r, is)" by (cases x)
  have p: "(jp, r, is) \<in> places" using place_of_places Some x by blast
  then have "(jp, r, is) \<in> cut_places ip (lastblk len) \<longleftrightarrow> jp = ip \<and> lastblk len < bn"
    using stays_block[OF Some[unfolded x] assms(1)] by (auto simp: cut_places_def simp del: stays.simps)
  then show ?thesis using a p Some x by (simp add: fmap_def)
qed (simp add: fmap_def)

lemma clear_tail_present:
  assumes ok: "files_ok U T s F" and p: "0 < blkoff len \<Longrightarrow> fmap s ip (lblkno len) \<noteq> 0" and e: "b_uerr s = None"
  shows "\<exists>s'. clear_tail ip len s = Ok (True, s') \<and> files_ok U T s' F \<and> (\<forall>q\<in>places. addr s' q = addr s q) \<and> b_uerr s' = None \<and> ino s' = ino s \<and>
    (\<forall>x. blk s' x = (if 0 < blkoff len \<and> x = fmap s ip (lblkno len) then zero_from (blkoff len) (blk s x) else blk s x))"
proof (cases "blkoff len = 0")
  case True
  then show ?thesis using ok e by (simp add: clear_tail_def)
next
  case False
  let ?b = "fmap s ip (lblkno len)"
  obtain ra where r: "bmap ip (lblkno len) True True s = Ok (?b, s\<lparr>rablock := ra\<rparr>)" using bmap_present[OF ok, of ip "lblkno len" True True] p False by auto
  obtain r' "is" where pl: "place_of (lblkno len) = Some (r', is)" using p False by (auto simp: fmap_def split: option.splits)
  have q: "(ip, r', is) \<in> places" "leaf (ip, r', is)" "addr s (ip, r', is) = ?b" using place_of_places[OF pl] fmap_place[OF pl] by auto
  have "?b \<in> U" "0 < ?b" using files_okD(3,4,10)[OF ok] q(1,3) p False by fastforce+
  then have "\<not> rderr (bvol s) ?b" "\<not> ?b < 0" using files_okD(1)[OF ok] by (auto simp: fs_ok_def)
  then have c: "clear_tail ip len s = Ok (True, put_blk ?b (zero_from (blkoff len) (blk s ?b)) (s\<lparr>rablock := ra\<rparr>))"
    using False r e by (simp add: clear_tail_def)
  have ok1: "files_ok U T (s\<lparr>rablock := ra\<rparr>) F" using ok by simp
  have len: "length (zero_from (blkoff len) (blk s ?b)) = DEV_BSIZE" using files_okD(5)[OF ok] blkoff_range by simp
  have q1: "addr (s\<lparr>rablock := ra\<rparr>) (ip, r', is) = ?b" "?b \<noteq> 0" using q p False by simp_all
  show ?thesis unfolding c using write_leaf[OF ok1 q(1,2) q1 len] e False by simp
qed

section \<open>Properties\<close>

text \<open>What may happen to the files: a block is looked up, allocated if need be, and written; a file is cut or lengthened; a size is set.\<close>

inductive file_step :: "bstate \<Rightarrow> bstate \<Rightarrow> bool" where
  Maps: "bmap ip bn wr clr (s\<lparr>b_uerr := None\<rparr>) = Ok (nb, s') \<Longrightarrow> file_step s s'"
| Stores: "bmap ip bn wr clr (s\<lparr>b_uerr := None\<rparr>) = Ok (nb, s') \<Longrightarrow> 0 < nb \<Longrightarrow> length bs = DEV_BSIZE \<Longrightarrow> file_step s (put_blk nb bs s')"
| Truncs: "0 \<le> len \<Longrightarrow> itrunc ip len (s\<lparr>b_uerr := None\<rparr>) = Ok s' \<Longrightarrow> file_step s s'"
| Sizes: "file_step s (upd_ino ip (\<lambda>i. i\<lparr>i_size := n\<rparr>) s)"

lemma file_step_ok:
  assumes "file_step s s'" "files_ok U T s F"
  shows "\<exists>F'. files_ok U T s' F'"
proof -
  have ok: "files_ok U T (s\<lparr>b_uerr := None\<rparr>) F" using assms(2) by (simp add: files_ok_def addr_def)
  show ?thesis
    using assms(1)
  proof cases
    case Maps
    then show ?thesis using bmap_keeps[OF ok] by blast
  next
    case (Stores ip bn wr clr nb s1 bs)
    obtain r "is" where p: "place_of bn = Some (r, is)" using bmap_none[of bn ip wr clr "s\<lparr>b_uerr := None\<rparr>"] Stores(2,3) by (cases "place_of bn") auto
    have q: "(ip, r, is) \<in> places" "leaf (ip, r, is)" using place_of_places[OF p] by auto
    have "\<exists>F1. files_ok U T s1 F1 \<and> addr s1 (ip, r, is) = nb"
    proof (cases wr)
      case True
      then show ?thesis using bmap_write[OF ok p, of ip clr] Stores(2,3) by auto
    next
      case False
      obtain ra where "(nb, s1) = (if fmap (s\<lparr>b_uerr := None\<rparr>) ip bn = 0 then -1 else fmap (s\<lparr>b_uerr := None\<rparr>) ip bn, s\<lparr>b_uerr := None, rablock := ra\<rparr>)"
        using bmap_read[OF ok p, of ip clr] Stores(2) False by auto
      then show ?thesis using ok Stores(3) fmap_place[OF p] by (auto split: if_splits)
    qed
    then obtain F1 where "files_ok U T s1 F1" "addr s1 (ip, r, is) = nb" by blast
    from write_leaf(1)[OF this(1) q this(2) _ Stores(4)] show ?thesis using Stores(1,3) by auto
  next
    case Truncs
    then show ?thesis using itrunc_keeps[OF ok] by blast
  next
    case Sizes
    then show ?thesis using assms(2) upd_ino_ok[of "i_size_update (\<lambda>_. _)"] by auto
  qed
qed

lemma file_run_ok: "file_step\<^sup>*\<^sup>* s0 s \<Longrightarrow> files_ok U T s0 F0 \<Longrightarrow> \<exists>F. files_ok U T s F"
  by (induction rule: rtranclp_induct) (auto dest: file_step_ok)

lemma fmap_inj:
  assumes ok: "files_ok U T s F" and h: "fmap s ip bn = fmap s jp bn'" "fmap s ip bn \<noteq> 0"
  shows "ip = jp \<and> bn = bn'"
proof -
  obtain r "is" r' "is'" where p: "place_of bn = Some (r, is)" "place_of bn' = Some (r', is')"
    using h by (auto simp: fmap_def split: option.splits)
  then have "(ip, r, is) = (jp, r', is')" using place_of_places h by (intro files_okD(8)[OF ok]) (auto simp: fmap_def)
  then show ?thesis using place_of_inj p by auto
qed

text \<open>
  C6. No block of a file system is ever in two files, or twice in one, or in a file and free, and none is lost: through any
  sequence of lookups and allocations by \<^verbatim>\<open>bmap\<close>, writes of the blocks it returns, truncations and extensions by \<^verbatim>\<open>itrunc\<close>, the data and indirect
  blocks of all files and the free list share out the blocks there were, and different logical blocks have different
  physical blocks.
\<close>

theorem files_share_no_block:
  assumes "files_ok U T s0 F0" "file_step\<^sup>*\<^sup>* s0 s"
  shows "\<exists>F. fs_ok U (bvol s) F \<and> (\<forall>p\<in>places. \<forall>q\<in>places. addr s p = addr s q \<longrightarrow> addr s p \<noteq> 0 \<longrightarrow> p = q) \<and>
    (addr s ` places - {0}) \<inter> set F = {} \<and> addr s ` places - {0} \<union> set F = T \<and>
    (\<forall>ip bn jp bn'. fmap s ip bn = fmap s jp bn' \<longrightarrow> fmap s ip bn \<noteq> 0 \<longrightarrow> ip = jp \<and> bn = bn')"
proof -
  obtain F where ok: "files_ok U T s F" using file_run_ok[OF assms(2,1)] by blast
  note o = files_okD[OF ok]
  have "(addr s ` places - {0}) \<inter> set F = {}" "addr s ` places - {0} \<union> set F = T" using o(2,9) by blast+
  moreover have "\<forall>p\<in>places. \<forall>q\<in>places. addr s p = addr s q \<longrightarrow> addr s p \<noteq> 0 \<longrightarrow> p = q" using o(8) by blast
  ultimately show ?thesis using o(1) fmap_inj[OF ok] by blast
qed

lemma grows_fmap:
  assumes g: "grows c (ip, r, is) s s'" and p: "place_of bn = Some (r, is)" and ne: "(jp, bn') \<noteq> (ip, bn)"
  shows "fmap s' jp bn' = fmap s jp bn'" "fmap s jp bn' \<noteq> 0 \<Longrightarrow> blk s' (fmap s jp bn') = blk s (fmap s jp bn')"
proof -
  have "fmap s' jp bn' = fmap s jp bn' \<and> (fmap s jp bn' \<noteq> 0 \<longrightarrow> blk s' (fmap s jp bn') = blk s (fmap s jp bn'))"
  proof (cases "place_of bn'")
    case (Some x)
    obtain r' js where x: "x = (r', js)" by (cases x)
    have q: "(jp, r', js) \<in> places" "leaf (jp, r', js)" and q': "leaf (ip, r, is)" using place_of_places Some x p by blast+
    have "\<not> above (jp, r', js) (ip, r, is)"
    proof
      assume "above (jp, r', js) (ip, r, is)"
      then have "(jp, r', js) = (ip, r, is)" using q(2) q' by auto
      then show False using place_of_inj[OF p, of bn'] Some x ne by auto
    qed
    then have "addr s' (jp, r', js) = addr s (jp, r', js)" using g q(1) unfolding grows_def by blast
    moreover have "addr s (jp, r', js) \<noteq> 0 \<longrightarrow> blk s' (addr s (jp, r', js)) = blk s (addr s (jp, r', js))" using g q unfolding grows_def by blast
    ultimately show ?thesis using Some x by (simp add: fmap_def)
  qed (simp add: fmap_def)
  then show "fmap s' jp bn' = fmap s jp bn'" "fmap s jp bn' \<noteq> 0 \<Longrightarrow> blk s' (fmap s jp bn') = blk s (fmap s jp bn')" by blast+
qed

lemma place_of_some: "0 \<le> bn \<Longrightarrow> bn < 4 + 256 + 256 ^ 2 + 256 ^ 3 \<Longrightarrow> \<exists>r is. place_of bn = Some (r, is)"
  by (auto simp: place_of_def)

text \<open>
  C14. What \<^verbatim>\<open>bmap\<close> allocates it finds again: for every block number a file can have, \<^verbatim>\<open>bmap\<close> for writing returns the block that is there or a new one
  (cleared where it has to be), which \<^verbatim>\<open>bmap\<close> for reading then returns; all other blocks of all files and their contents stay.
  It fails, with \<^verbatim>\<open>ENOSPC\<close>, only when no more than three blocks were free.
\<close>

theorem bmap_write_then_read:
  assumes "files_ok U T s F" "b_uerr s = None" "0 \<le> bn" "bn < 4 + 256 + 256 ^ 2 + 256 ^ 3"
  shows "\<exists>nb s' F'. bmap ip bn True clr s = Ok (nb, s') \<and> files_ok U T s' F' \<and>
    (nb = -1 \<and> length F \<le> 3 \<and> F' = [] \<and> b_uerr s' = Some ENOSPC \<or>
     nb \<in> T - set F' \<and> b_uerr s' = None \<and> (\<forall>clr'. \<exists>s''. bmap ip bn False clr' s' = Ok (nb, s'')) \<and>
     (if fmap s ip bn = 0 then clr \<longrightarrow> blk s' nb = clrblk else nb = fmap s ip bn \<and> blk s' nb = blk s nb)) \<and>
    (\<forall>jp bn'. (jp, bn') \<noteq> (ip, bn) \<longrightarrow> fmap s' jp bn' = fmap s jp bn' \<and> (fmap s jp bn' \<noteq> 0 \<longrightarrow> blk s' (fmap s jp bn') = blk s (fmap s jp bn')))"
proof -
  obtain r "is" where p: "place_of bn = Some (r, is)" using place_of_some assms(3,4) by blast
  obtain nb s' F' where w: "bmap ip bn True clr s = Ok (nb, s')" "files_ok U T s' F'" "grows clr (ip, r, is) s s'"
    "if nb = -1 then length F \<le> 3 \<and> F' = [] \<and> b_uerr s' = Some ENOSPC else nb = addr s' (ip, r, is) \<and> nb \<noteq> 0 \<and> b_uerr s' = b_uerr s"
    using bmap_write[OF assms(1) p] by blast
  note q = place_of_places[OF p, of ip] and f = fmap_place[OF p]
  have 1: "nb = -1 \<and> length F \<le> 3 \<and> F' = [] \<and> b_uerr s' = Some ENOSPC \<or>
     nb \<in> T - set F' \<and> b_uerr s' = None \<and> (\<forall>clr'. \<exists>s''. bmap ip bn False clr' s' = Ok (nb, s'')) \<and>
     (if fmap s ip bn = 0 then clr \<longrightarrow> blk s' nb = clrblk else nb = fmap s ip bn \<and> blk s' nb = blk s nb)"
  proof (cases "nb = -1")
    case False
    then have n: "nb = addr s' (ip, r, is)" "nb \<noteq> 0" "b_uerr s' = None" using w(4) assms(2) by auto
    have "nb \<in> T - set F'" using files_okD(10)[OF w(2)] q n by blast
    moreover have "\<exists>s''. bmap ip bn False clr' s' = Ok (nb, s'')" for clr' using bmap_read[OF w(2) p, of ip clr'] n f by auto
    moreover have "if fmap s ip bn = 0 then clr \<longrightarrow> blk s' nb = clrblk else nb = fmap s ip bn \<and> blk s' nb = blk s nb"
      using w(3) n q f unfolding grows_def by auto
    ultimately show ?thesis using n(3) by blast
  qed (use w(4) in simp)
  have 2: "\<forall>jp bn'. (jp, bn') \<noteq> (ip, bn) \<longrightarrow> fmap s' jp bn' = fmap s jp bn' \<and> (fmap s jp bn' \<noteq> 0 \<longrightarrow> blk s' (fmap s jp bn') = blk s (fmap s jp bn'))"
    using grows_fmap[OF w(3) p] by blast
  show ?thesis using w(1,2) 1 2 by blast
qed

lemma diff_sets:
  assumes "A - {z} = T - F" "B - {z} = T - (G \<union> F)" "G \<subseteq> T" "G \<inter> F = {}" "z \<in> B"
  shows "G = A - B"
proof -
  have "x \<in> A \<and> x \<noteq> z \<longleftrightarrow> x \<in> T \<and> x \<notin> F" "x \<in> B \<and> x \<noteq> z \<longleftrightarrow> x \<in> T \<and> x \<notin> G \<and> x \<notin> F" for x
    using assms(1,2) by (simp_all add: set_eq_iff)
  then show ?thesis using assms(3-5) by auto
qed

lemma itrunc_shorten:
  assumes "\<not> IPIPE (ino s ip)" "len < i_size (ino s ip)"
  shows "itrunc ip len s = obind (clear_tail ip len s) (\<lambda>(on, s1). if \<not> on then Ok s1 else omap (updret ip) (trunc_blocks ip len s1))"
  using assms by (simp add: itrunc_def Let_def)

text \<open>
  C13. Cutting a file to at most 260 blocks gives back exactly what is behind the new end: the file keeps its blocks up to there with their
  contents, the rest of a partial last block is zeroed, no other file changes, and the blocks that are in no file any more, indirect ones included, are
  exactly those that have been put on the free list. The inode on disk agrees with the one in core, unless its block cannot be read.
\<close>

theorem itrunc_frees_exactly:
  assumes "files_ok U T s F" "b_uerr s = None" "\<not> IPIPE (ino s ip)" "0 \<le> len" "len < i_size (ino s ip)" "len \<le> 260 * 1024"
    and hole: "0 < blkoff len \<longrightarrow> fmap s ip (lblkno len) \<noteq> 0"
  shows "\<exists>s' G. itrunc ip len s = Ok s' \<and> files_ok U T s' (G @ F) \<and> set G = addr s ` places - addr s' ` places \<and>
    i_size (ino s' ip) = len \<and> (\<not> rderr (bvol s') (itod (int ip)) \<longrightarrow> di_size s' ip = len \<and> di_addr s' ip = i_addr (ino s' ip)) \<and>
    (\<forall>jp bn. fmap s' jp bn = (if jp = ip \<and> len \<le> 1024 * bn then 0 else fmap s jp bn)) \<and>
    (\<forall>jp bn. fmap s' jp bn \<noteq> 0 \<longrightarrow> blk s' (fmap s' jp bn) =
       (if jp = ip \<and> bn = lblkno len \<and> 0 < blkoff len then zero_from (blkoff len) (blk s (fmap s jp bn)) else blk s (fmap s jp bn)))"
proof -
  have L: "len < 2 ^ 31" using assms(6) by simp
  note pe = past_end[OF assms(4) L]
  have lst: "lastblk len < 260" "-1 \<le> lastblk len" using pe(3,4) assms(6) by simp_all
  have ht: "fmap s ip (lblkno len) \<noteq> 0" if "0 < blkoff len" using hole that by blast
  from clear_tail_present[OF assms(1) ht assms(2)] obtain s1 where c: "clear_tail ip len s = Ok (True, s1)" "files_ok U T s1 F" "\<forall>q\<in>places. addr s1 q = addr s q"
    "ino s1 = ino s" "\<forall>x. blk s1 x = (if 0 < blkoff len \<and> x = fmap s ip (lblkno len) then zero_from (blkoff len) (blk s x) else blk s x)" by blast
  from trunc_blocks_ok[OF c(2) lst, of ip] obtain s2 G where t: "trunc_blocks ip len s1 = Ok s2" "files_ok U T s2 (G @ F)" "set G = addr s1 ` cut_places ip (lastblk len) - {0}"
    "\<forall>q\<in>places. addr s2 q = (if q \<in> cut_places ip (lastblk len) then 0 else addr s1 q)" "same_data s1 s2"
    "\<forall>jp. i_size (ino s2 jp) = (if jp = ip then len else i_size (ino s1 jp))" by blast
  have r: "itrunc ip len s = Ok (updret ip s2)" unfolding itrunc_shorten[OF assms(3,5)] c(1) using t(1) by simp
  have f1: "fmap s1 jp bn = fmap s jp bn" for jp bn using c(3) place_of_places by (cases "place_of bn") (auto simp: fmap_def)
  have f2: "fmap (updret ip s2) jp bn = (if jp = ip \<and> len \<le> 1024 * bn then 0 else fmap s jp bn)" for jp bn
    using cut_fmap[OF lst(1) t(4), of jp bn] f1[of jp bn] pe(1) by simp
  have G: "set G = addr s ` places - addr (updret ip s2) ` places"
  proof -
    have u1: "addr s1 ` places = addr s ` places" using c(3) by (auto simp: image_iff)
    have h: "addr s1 ` places - {0} = T - set F" "addr s2 ` places - {0} = T - (set G \<union> set F)" using files_okD(9)[OF c(2)] files_okD(9)[OF t(2)] by simp_all
    have g: "set G \<subseteq> T" "set G \<inter> set F = {}" using files_okD(2)[OF t(2)] files_okD(11)[OF t(2)] by auto
    have p6: "(ip, 6, []) \<in> places" "(ip, 6, []) \<in> cut_places ip (lastblk len)" by (simp_all add: cut_places_def places_def)
    then have "addr s2 (ip, 6, []) = 0" using bspec[OF t(4) p6(1)] by simp
    then have z: "0 \<in> addr s2 ` places" using imageI[OF p6(1), of "addr s2"] by simp
    show ?thesis unfolding u1[symmetric] updret_ok(2) by (rule diff_sets[OF h g z])
  qed
  have d: "blk (updret ip s2) (fmap (updret ip s2) jp bn) = (if jp = ip \<and> bn = lblkno len \<and> 0 < blkoff len then zero_from (blkoff len) (blk s (fmap s jp bn)) else blk s (fmap s jp bn))"
    if nz: "fmap (updret ip s2) jp bn \<noteq> 0" for jp bn
  proof -
    obtain r "is" where p: "place_of bn = Some (r, is)" using nz by (auto simp: fmap_def split: option.splits)
    have e: "fmap (updret ip s2) jp bn = addr s2 (jp, r, is)" "fmap s jp bn = addr s2 (jp, r, is)" using p f2[of jp bn] nz by (auto simp: fmap_def split: if_splits)
    have "blk s2 (addr s2 (jp, r, is)) = blk s1 (addr s2 (jp, r, is))" using t(5) place_of_places[OF p] nz e(1) unfolding same_data_def by auto
    moreover have "fmap s jp bn = fmap s ip (lblkno len) \<longleftrightarrow> jp = ip \<and> bn = lblkno len" if bo: "0 < blkoff len"
    proof
      assume h: "fmap s jp bn = fmap s ip (lblkno len)"
      obtain r' "is'" where p': "place_of (lblkno len) = Some (r', is')" using ht[OF bo] by (auto simp: fmap_def split: option.splits)
      have "(jp, r, is) = (ip, r', is')" using place_of_places[OF p] place_of_places[OF p'] h nz e fmap_place[OF p] fmap_place[OF p']
        by (intro files_okD(8)[OF assms(1)]) auto
      then show "jp = ip \<and> bn = lblkno len" using place_of_inj[OF p] p' by simp
    qed simp
    ultimately show ?thesis using c(5) e by auto
  qed
  show ?thesis using r t(2,6) G f2 d updret_disk[of s2 ip] by (intro exI[of _ "updret ip s2"] exI[of _ G]) simp
qed

text \<open>
  C34. Cutting a file to a length above 260 blocks gives nothing back. \<^verbatim>\<open>NINDIR * NINDIR\<close> is a product of 16-bit numbers and is 0, so that the count for the
  third tree is not negative when that for the second is not, and \<^verbatim>\<open>itrunc\<close> is done after the third tree, which the file does not have. The size is set and all
  blocks stay; \<^verbatim>\<open>bmap\<close> finds what was behind the new end with its old contents.
\<close>

theorem itrunc_frees_nothing:
  assumes "files_ok U T s F" "b_uerr s = None" "\<not> IPIPE (ino s ip)" "260 * 1024 < len" "len < i_size (ino s ip)" "len < 2 ^ 31" "blkoff len = 0" "i_addr (ino s ip) ! 6 = 0"
  shows "\<exists>s'. itrunc ip len s = Ok s' \<and> files_ok U T s' F \<and> i_size (ino s' ip) = len \<and> blk s' = blk s \<and>
    (\<forall>jp bn. fmap s' jp bn = fmap s jp bn \<and> (fmap s jp bn \<noteq> 0 \<longrightarrow> (\<exists>s''. bmap jp bn False False s' = Ok (fmap s jp bn, s''))))"
proof -
  have L: "0 \<le> len" using assms(4) by simp
  note pe = past_end[OF L assms(6)]
  have lst: "260 \<le> lastblk len" using pe(4) assms(4) by linarith
  have c: "clear_tail ip len s = Ok (True, s)" using assms(7) by (simp add: clear_tail_def)
  have n: "NINDIR2 = 0" by (simp add: NINDIR2_def)
  have li: "lastiblock (lastblk len) 2 \<ge> 0" using lst n by (simp add: NDADDR_def NINDIR_def numeral_2_eq_2)
  have "\<exists>s2. trunc_blocks ip len s = Ok s2" using li assms(8) by (simp add: trunc_blocks_def Let_def NDADDR_def)
  then obtain s2 where t: "trunc_blocks ip len s = Ok s2" ..
  have s2: "s2 = upd_ino ip (\<lambda>i. i\<lparr>i_size := len\<rparr>) s" using trunc_blocks_large[OF assms(1) lst t] by simp
  have r: "itrunc ip len s = Ok (updret ip s2)" unfolding itrunc_shorten[OF assms(3,5)] c using t by simp
  have ok: "files_ok U T (updret ip s2) F" using assms(1) upd_ino_ok[of "i_size_update (\<lambda>_. len)"] s2 by simp
  have a: "addr s2 = addr s" using upd_ino_addr[of "i_size_update (\<lambda>_. len)"] s2 by simp
  have f: "fmap (updret ip s2) jp bn = fmap s jp bn" for jp bn by (simp only: fmap_updret) (simp only: fmap_def a)
  have "\<exists>s''. bmap jp bn False False (updret ip s2) = Ok (fmap s jp bn, s'')" if "fmap s jp bn \<noteq> 0" for jp bn
    using bmap_present[OF ok, of jp bn False False] that f by auto
  then show ?thesis using r ok f s2 by (intro exI[of _ "updret ip s2"]) simp
qed

section \<open>A small file system\<close>

text \<open>Six free blocks and no file that has any.\<close>

definition vol1 :: vol where
  "vol1 = vol0\<lparr>sb := (sb vol0)\<lparr>fs_fsize := 12, fs_nfree := 7, fs_free := [0, 5, 6, 7, 8, 9, 10] @ replicate 43 0, fs_tfree := 6\<rparr>\<rparr>"

definition no_files :: bstate where
  "no_files = \<lparr>bvol = vol1, blk = (\<lambda>b. clrblk), stale = (\<lambda>b. clrblk), ino = (\<lambda>ip. \<lparr>i_addr = replicate 7 0, i_size = 0, IPIPE = False, IUPD = False\<rparr>),
     di_addr = (\<lambda>ip. replicate 7 0), di_size = (\<lambda>ip. 0), rablock = 0, b_uerr = None\<rparr>"

lemma vol1_ok: "fs_ok {3..11} vol1 [10, 9, 8, 7, 6, 5]"
  using flist.last[of "\<lambda>b. \<lparr>df_nfree = 0, df_free = []\<rparr>" "[5, 6, 7, 8, 9, 10]"]
  by (auto simp: fs_ok_def vol1_def vol0_def data_blocks_def badblock_def NICFREE_def)

lemma no_files_ok: "files_ok {3..11} {5..10} no_files [10, 9, 8, 7, 6, 5]"
proof -
  have a: "addr no_files p = 0" if "p \<in> places" for p using that by (cases p) (auto simp: addr_def no_files_def places_def)
  moreover have "{5..10} = set [10, 9, 8, 7, 6, 5 :: int]" by auto
  ultimately show ?thesis unfolding files_ok_def using vol1_ok by (auto simp: no_files_def)
qed

lemma one_block:
  assumes "place_of bn = Some (r, is)" "r \<noteq> 6"
  shows "\<exists>s F. bmap ip bn True True no_files = Ok (fmap s ip bn, s) \<and> files_ok {3..11} {5..10} s F \<and> fmap s ip bn \<noteq> 0 \<and> b_uerr s = None \<and>
    \<not> IPIPE (ino s ip) \<and> i_addr (ino s ip) ! 6 = 0"
proof -
  obtain nb s' F' where w: "bmap ip bn True True no_files = Ok (nb, s')" "files_ok {3..11} {5..10} s' F'" "grows True (ip, r, is) no_files s'"
    "if nb = -1 then length [10, 9, 8, 7, 6, 5 :: int] \<le> 3 \<and> F' = [] \<and> b_uerr s' = Some ENOSPC else nb = addr s' (ip, r, is) \<and> nb \<noteq> 0 \<and> b_uerr s' = b_uerr no_files"
    using bmap_write[OF no_files_ok assms(1), of ip True] by blast
  have "(ip, 6, []) \<in> places" "\<not> above (ip, 6, []) (ip, r, is)" using assms(2) by (simp_all add: places_def)
  then have "addr s' (ip, 6, []) = addr no_files (ip, 6, [])" using w(3) unfolding grows_def by blast
  then have "i_addr (ino s' ip) ! 6 = 0" by (simp add: addr_root no_files_def)
  moreover have "\<not> IPIPE (ino s' ip)" using w(3) by (simp add: grows_def no_files_def)
  ultimately show ?thesis using w(1,2,4) fmap_place[OF assms(1)] by (auto simp: no_files_def split: if_splits)
qed

lemma with_size:
  assumes "files_ok U T s F"
  shows "files_ok U T (upd_ino ip (\<lambda>i. i\<lparr>i_size := n\<rparr>) s) F" "fmap (upd_ino ip (\<lambda>i. i\<lparr>i_size := n\<rparr>) s) = fmap s"
proof -
  show "files_ok U T (upd_ino ip (\<lambda>i. i\<lparr>i_size := n\<rparr>) s) F" using assms upd_ino_ok[of "i_size_update (\<lambda>_. n)"] by simp
  have "addr (upd_ino ip (\<lambda>i. i\<lparr>i_size := n\<rparr>) s) = addr s" by (rule upd_ino_addr) simp
  then show "fmap (upd_ino ip (\<lambda>i. i\<lparr>i_size := n\<rparr>) s) = fmap s" by (intro ext) (simp only: fmap_def)
qed

theorem files_share_no_block_witness:
  "\<exists>s F. file_step\<^sup>*\<^sup>* no_files s \<and> fmap s 0 300 \<noteq> 0 \<and> (\<forall>jp bn. fmap s jp bn = fmap s 0 300 \<longrightarrow> jp = 0 \<and> bn = 300) \<and> fs_ok {3..11} (bvol s) F"
proof -
  have "place_of 300 = Some (5, digits 2 40)" by (simp add: place_of_def)
  from one_block[OF this, of 0] obtain s F where s: "bmap 0 300 True True no_files = Ok (fmap s 0 300, s)" "fmap s 0 300 \<noteq> 0" by auto
  have "no_files\<lparr>b_uerr := None\<rparr> = no_files" by (simp add: no_files_def)
  then have st: "file_step\<^sup>*\<^sup>* no_files s" using file_step.Maps[of 0 300 True True no_files "fmap s 0 300" s] s(1) by (metis r_into_rtranclp)
  from files_share_no_block[OF no_files_ok st] obtain F' where "fs_ok {3..11} (bvol s) F'"
    "\<forall>ip bn jp bn'. fmap s ip bn = fmap s jp bn' \<longrightarrow> fmap s ip bn \<noteq> 0 \<longrightarrow> ip = jp \<and> bn = bn'" by (elim exE conjE) (rule that, assumption+)
  note F = this
  have "jp = 0 \<and> bn = 300" if e: "fmap s jp bn = fmap s 0 300" for jp bn using F(2)[rule_format, of jp bn 0 300] e s(2) by simp
  then have "\<forall>jp bn. fmap s jp bn = fmap s 0 300 \<longrightarrow> jp = 0 \<and> bn = 300" by (intro allI impI)
  then show ?thesis using st s(2) F(1) by (intro exI[of _ s] exI[of _ F'] conjI)
qed

theorem bmap_write_then_read_witness: "\<exists>nb s. bmap 0 300 True True no_files = Ok (nb, s) \<and> nb \<noteq> -1 \<and> blk s nb = clrblk \<and> (\<exists>s''. bmap 0 300 False False s = Ok (nb, s''))"
proof -
  have "b_uerr no_files = None" "fmap no_files 0 300 = 0" by (simp_all add: no_files_def fmap_def place_of_def addr_def numeral_2_eq_2)
  note h = this
  have r: "(0 :: int) \<le> 300" "(300 :: int) < 4 + 256 + 256 ^ 2 + 256 ^ 3" by simp_all
  from bmap_write_then_read[OF no_files_ok h(1) r, of 0 True] obtain nb s F' where w: "bmap 0 300 True True no_files = Ok (nb, s)"
    "nb = -1 \<and> length [10, 9, 8, 7, 6, 5 :: int] \<le> 3 \<and> F' = [] \<and> b_uerr s = Some ENOSPC \<or>
     nb \<in> {5..10} - set F' \<and> b_uerr s = None \<and> (\<forall>clr'. \<exists>s''. bmap 0 300 False clr' s = Ok (nb, s'')) \<and>
     (if fmap no_files 0 300 = 0 then True \<longrightarrow> blk s nb = clrblk else nb = fmap no_files 0 300 \<and> blk s nb = blk no_files nb)" by blast
  from w(2) h(2) have "nb \<noteq> -1" "blk s nb = clrblk" "\<exists>s''. bmap 0 300 False False s = Ok (nb, s'')" by auto
  then show ?thesis using w(1) by blast
qed

theorem itrunc_frees_exactly_witness: "\<exists>s s' G. fmap s 0 3 \<noteq> 0 \<and> itrunc 0 2048 s = Ok s' \<and> fmap s' 0 3 = 0 \<and> i_size (ino s' 0) = 2048 \<and> set G = addr s ` places - addr s' ` places"
proof -
  have "place_of 3 = Some (3, [])" by (simp add: place_of_def)
  from one_block[OF this, of 0] obtain s0 F where s0: "files_ok {3..11} {5..10} s0 F" "fmap s0 0 3 \<noteq> 0" "b_uerr s0 = None" "\<not> IPIPE (ino s0 0)" by auto
  let ?s = "upd_ino 0 (\<lambda>i. i\<lparr>i_size := 4096\<rparr>) s0"
  have h: "files_ok {3..11} {5..10} ?s F" "b_uerr ?s = None" "\<not> IPIPE (ino ?s 0)" "(0 :: int) \<le> 2048" "2048 < i_size (ino ?s 0)" "(2048 :: int) \<le> 260 * 1024"
    "0 < blkoff 2048 \<longrightarrow> fmap ?s 0 (lblkno 2048) \<noteq> 0" using s0 with_size[OF s0(1), of 0 4096] by (simp_all add: blkoff_def DEV_BSIZE_def)
  from itrunc_frees_exactly[OF h] obtain s' G where "itrunc 0 2048 ?s = Ok s'" "i_size (ino s' 0) = 2048" "set G = addr ?s ` places - addr s' ` places"
    "\<forall>jp bn. fmap s' jp bn = (if jp = 0 \<and> 2048 \<le> 1024 * bn then 0 else fmap ?s jp bn)" by blast
  moreover from this(4) have "fmap s' 0 3 = 0" by simp
  moreover have "fmap ?s 0 3 \<noteq> 0" using s0(2) with_size(2)[OF s0(1)] by simp
  ultimately show ?thesis by blast
qed

theorem itrunc_frees_nothing_witness: "\<exists>s s'. fmap s 0 301 \<noteq> 0 \<and> itrunc 0 (301 * 1024) s = Ok s' \<and> i_size (ino s' 0) = 301 * 1024 \<and> fmap s' 0 301 = fmap s 0 301"
proof -
  have "place_of 301 = Some (5, digits 2 41)" by (simp add: place_of_def)
  from one_block[OF this, of 0] obtain s0 F where s0: "files_ok {3..11} {5..10} s0 F" "fmap s0 0 301 \<noteq> 0" "b_uerr s0 = None" "\<not> IPIPE (ino s0 0)" "i_addr (ino s0 0) ! 6 = 0" by auto
  let ?s = "upd_ino 0 (\<lambda>i. i\<lparr>i_size := 302 * 1024\<rparr>) s0"
  have h: "files_ok {3..11} {5..10} ?s F" "b_uerr ?s = None" "\<not> IPIPE (ino ?s 0)" "260 * 1024 < (301 * 1024 :: int)" "301 * 1024 < i_size (ino ?s 0)"
    "(301 * 1024 :: int) < 2 ^ 31" "blkoff (301 * 1024) = 0" "i_addr (ino ?s 0) ! 6 = 0" using s0 with_size[OF s0(1), of 0 "302 * 1024"] by (simp_all add: blkoff_def DEV_BSIZE_def)
  from itrunc_frees_nothing[OF h] obtain s' where "itrunc 0 (301 * 1024) ?s = Ok s'" "i_size (ino s' 0) = 301 * 1024" "\<forall>jp bn. fmap s' jp bn = fmap ?s jp bn" by blast
  then show ?thesis using s0(2) with_size(2)[OF s0(1)] by (intro exI[of _ ?s] exI[of _ s']) simp
qed

end
