(* ===== verification/Rwip.thy ===== *)
theory Rwip
  imports Bmap_Thms
begin

text \<open>
  Reading and writing files: \<^verbatim>\<open>rwip\<close>, \<^verbatim>\<open>rdwri\<close> and \<^verbatim>\<open>ino_rw\<close> of \<^verbatim>\<open>sys/sys/sys_inode.c\<close> and \<^verbatim>\<open>uiomove\<close> of \<^verbatim>\<open>sys/sys/kern_subr.c\<close>, for files that
  live in blocks (not devices) and transfers with one address vector. A file is then a function from offsets to bytes.
\<close>

section \<open>The request\<close>

text \<open>
  \<open>uio_data\<close> is, of a write, what is left to be written, and of a read, what has been delivered. Only the first \<open>uio_ok\<close> bytes
  of the caller's memory can be accessed; a transfer that goes beyond them faults, and has moved the bytes before.
\<close>

record uio =
  uio_offset :: int
  uio_resid :: nat
  uio_data :: bytes
  uio_ok :: nat

datatype ftype = IFREG | IFDIR | IFLNK | IFOTHER

text \<open>What else decides: type and flags of the file, the limit of the process, the answer of the quota check, the flags of the call.\<close>

record rwctx =
  i_type :: ftype
  APPEND :: bool
  RLIMIT_FSIZE :: int
  chkdq :: "errno option"
  IO_APPEND :: bool
  IO_UNIT :: bool

definition uio_moved :: "nat \<Rightarrow> uio \<Rightarrow> uio" where
  "uio_moved n u = u\<lparr>uio_offset := wrap32 (uio_offset u + int n), uio_resid := uio_resid u - n, uio_ok := uio_ok u - n\<rparr>"

text \<open>\<^verbatim>\<open>uiomove\<close> from and to the caller.\<close>

definition uio_in :: "nat \<Rightarrow> uio \<Rightarrow> errno option \<times> bytes \<times> uio" where
  "uio_in n u =
     (if n \<le> uio_ok u then (None, take n (uio_data u), (uio_moved n u)\<lparr>uio_data := drop n (uio_data u)\<rparr>)
      else (Some EFAULT, take (uio_ok u) (uio_data u), u))"

definition uio_out :: "nat \<Rightarrow> bytes \<Rightarrow> uio \<Rightarrow> errno option \<times> uio" where
  "uio_out n bs u =
     (if n \<le> uio_ok u then (None, (uio_moved n u)\<lparr>uio_data := uio_data u @ take n bs\<rparr>)
      else (Some EFAULT, u))"

text \<open>Bytes put into a block at an offset.\<close>

definition splice :: "nat \<Rightarrow> bytes \<Rightarrow> bytes \<Rightarrow> bytes" where
  "splice on bs base = take on base @ bs @ drop (on + length bs) base"

section \<open>Writing\<close>

lemma uio_moved_less:
  "(e, bs, u1) = uio_in n u \<Longrightarrow> e = None \<Longrightarrow> uio_resid u1 \<noteq> 0 \<Longrightarrow> n \<noteq> 0 \<Longrightarrow> uio_resid u1 < uio_resid u"
  "(e, u1) = uio_out n bs' u \<Longrightarrow> e = None \<Longrightarrow> uio_resid u1 \<noteq> 0 \<Longrightarrow> n \<noteq> 0 \<Longrightarrow> uio_resid u1 < uio_resid u"
  by (auto simp: uio_in_def uio_out_def uio_moved_def split: if_splits)

lemma obind_cong [fundef_cong]: "m = m' \<Longrightarrow> (\<And>x. m' = Ok x \<Longrightarrow> f x = g x) \<Longrightarrow> obind m f = obind m' g"
  by (cases m') auto

text \<open>
  The loop. The flag in the result tells a \<^verbatim>\<open>return\<close> from the end of the loop. When a whole block is written it is not read: \<^verbatim>\<open>getblk\<close> gives a
  buffer with any contents.
\<close>

function write_loop :: "rwctx \<Rightarrow> nat \<Rightarrow> uio \<Rightarrow> bstate \<Rightarrow> (errno option \<times> bool \<times> uio \<times> bstate) outcome" where
  "write_loop c ip u s =
     (let on = blkoff (uio_offset u); n = min (DEV_BSIZE - on) (uio_resid u) in
      obind (bmap ip (lblkno (uio_offset u)) True (n \<noteq> DEV_BSIZE) s) (\<lambda>(bn, s1).
        if b_uerr s1 \<noteq> None \<or> bn < 0 then Ok (b_uerr s1, True, u, s1)
        else let s2 = (if wrap32 (uio_offset u + int n) > i_size (ino s1 ip) \<and> i_type c \<noteq> IFOTHER
                       then upd_ino ip (\<lambda>i. i\<lparr>i_size := wrap32 (uio_offset u + int n)\<rparr>) s1 else s1) in
          if n \<noteq> DEV_BSIZE \<and> rderr (bvol s2) bn then Ok (Some EIO, False, u, s2\<lparr>b_uerr := Some EIO\<rparr>)
          else let (e, bs, u1) = uio_in n u;
                   s3 = put_blk bn (splice on bs (if n = DEV_BSIZE then stale s2 bn else blk s2 bn)) s2;
                   s4 = upd_ino ip (\<lambda>i. i\<lparr>IUPD := True\<rparr>) (s3\<lparr>b_uerr := e\<rparr>)
               in if e = None \<and> uio_resid u1 \<noteq> 0 \<and> n \<noteq> 0 then write_loop c ip u1 s4 else Ok (e, False, u1, s4)))"
  by pat_completeness auto
termination
  by (relation "measure (\<lambda>(c, ip, u, s). uio_resid u)") (simp, elim conjE, simp only: in_measure split_conv, metis uio_moved_less(1) prod.inject)

declare write_loop.simps [simp del]

text \<open>
  \<^verbatim>\<open>rwip\<close>, writing. Left out are the signal that goes with \<^verbatim>\<open>EFBIG\<close>, the access time, the set-id bits of the mode and the choice between
  synchronous and delayed writes.
\<close>

definition rwip_write :: "rwctx \<Rightarrow> nat \<Rightarrow> uio \<Rightarrow> bstate \<Rightarrow> (errno option \<times> uio \<times> bstate) outcome" where
  "rwip_write c ip u s =
     (if uio_offset u < 0 then Ok (Some EINVAL, u, s)
      else if i_type c = IFOTHER then Ok (Some EFTYPE, u, s)
      else let u0 = (if i_type c = IFREG \<and> IO_APPEND c then u\<lparr>uio_offset := i_size (ino s ip)\<rparr> else u);
               osize = i_size (ino s ip); eof = wrap32 (uio_offset u0 + int (uio_resid u0)) in
        if i_type c = IFREG \<and> APPEND c \<and> uio_offset u0 \<noteq> osize then Ok (Some EPERM, u0, s)
        else if uio_resid u0 = 0 then Ok (None, u0, s)
        else if i_type c = IFREG \<and> eof > RLIMIT_FSIZE c then Ok (Some EFBIG, u0, s)
        else if \<not> IPIPE (ino s ip) \<and> eof > osize \<and> chkdq c \<noteq> None then Ok (chkdq c, u0, s)
        else obind (write_loop c ip u0 s) (\<lambda>(e, ret, u1, s1).
               if \<not> ret \<and> e \<noteq> None \<and> IO_UNIT c
               then omap (\<lambda>s2. (e, u1\<lparr>uio_offset := wrap32 (uio_offset u1 - int (uio_resid u0 - uio_resid u1)), uio_resid := uio_resid u0\<rparr>, s2))
                      (itrunc ip osize s1)
               else Ok (e, u1, s1)))"

section \<open>Reading\<close>

function read_loop :: "nat \<Rightarrow> uio \<Rightarrow> bstate \<Rightarrow> (errno option \<times> uio \<times> bstate) outcome" where
  "read_loop ip u s =
     (let on = blkoff (uio_offset u); diff = i_size (ino s ip) - uio_offset u in
      if diff \<le> 0 then Ok (None, u, s)
      else let n = min (min (DEV_BSIZE - on) (uio_resid u)) (nat diff) in
        obind (bmap ip (lblkno (uio_offset u)) False False s) (\<lambda>(bn, s1).
          if b_uerr s1 \<noteq> None then Ok (b_uerr s1, u, s1)
          else if bn \<ge> 0 \<and> rderr (bvol s1) bn then Ok (Some EIO, u, s1\<lparr>b_uerr := Some EIO\<rparr>)
          else let (e, u1) = uio_out n (drop on (if bn < 0 then clrblk else blk s1 bn)) u; s2 = s1\<lparr>b_uerr := e\<rparr>
               in if e = None \<and> uio_resid u1 \<noteq> 0 \<and> n \<noteq> 0 then read_loop ip u1 s2 else Ok (e, u1, s2)))"
  by pat_completeness auto
termination
  by (relation "measure (\<lambda>(ip, u, s). uio_resid u)") (simp, elim conjE, simp only: in_measure split_conv, metis uio_moved_less(2) prod.inject)

declare read_loop.simps [simp del]

definition rwip_read :: "nat \<Rightarrow> uio \<Rightarrow> bstate \<Rightarrow> (errno option \<times> uio \<times> bstate) outcome" where
  "rwip_read ip u s =
     (if uio_offset u < 0 then Ok (Some EINVAL, u, s)
      else if uio_resid u = 0 then Ok (None, u, s) else read_loop ip u s)"

section \<open>Callers\<close>

text \<open>\<^verbatim>\<open>rdwri\<close>, from and to the kernel's memory; without a place for the rest, a rest is an error.\<close>

definition kuio :: "int \<Rightarrow> nat \<Rightarrow> bytes \<Rightarrow> uio" where
  "kuio off len bs = \<lparr>uio_offset = off, uio_resid = len, uio_data = bs, uio_ok = len\<rparr>"

definition rdwri_write :: "rwctx \<Rightarrow> nat \<Rightarrow> bytes \<Rightarrow> int \<Rightarrow> bool \<Rightarrow> bstate \<Rightarrow> (errno option \<times> nat \<times> bstate) outcome" where
  "rdwri_write c ip bs off aresid s =
     omap (\<lambda>(e, u, s1). (if \<not> aresid \<and> uio_resid u \<noteq> 0 then Some EIO else e, uio_resid u, s1)) (rwip_write c ip (kuio off (length bs) bs) s)"

definition rdwri_read :: "nat \<Rightarrow> nat \<Rightarrow> int \<Rightarrow> bool \<Rightarrow> bstate \<Rightarrow> (errno option \<times> nat \<times> bytes \<times> bstate) outcome" where
  "rdwri_read ip len off aresid s =
     omap (\<lambda>(e, u, s1). (if \<not> aresid \<and> uio_resid u \<noteq> 0 then Some EIO else e, uio_resid u, uio_data u, s1)) (rwip_read ip (kuio off len []) s)"

text \<open>\<^verbatim>\<open>ino_rw\<close>: reading and writing at the offset of an open file, which is returned.\<close>

definition ino_read :: "int \<Rightarrow> nat \<Rightarrow> uio \<Rightarrow> bstate \<Rightarrow> (errno option \<times> int \<times> uio \<times> bstate) outcome" where
  "ino_read f_offset ip u s =
     omap (\<lambda>(e, u1, s1). (e, wrap32 (f_offset + int (uio_resid u - uio_resid u1)), u1, s1)) (rwip_read ip (u\<lparr>uio_offset := f_offset\<rparr>) s)"

definition ino_write :: "rwctx \<Rightarrow> bool \<Rightarrow> int \<Rightarrow> nat \<Rightarrow> uio \<Rightarrow> bstate \<Rightarrow> (errno option \<times> int \<times> uio \<times> bstate) outcome" where
  "ino_write c FAPPEND f_offset ip u s =
     (let app = (i_type c = IFREG \<and> FAPPEND) in
      omap (\<lambda>(e, u1, s1). (e, if app then uio_offset u1 else wrap32 (f_offset + int (uio_resid u - uio_resid u1)), u1, s1))
        (rwip_write (c\<lparr>IO_APPEND := app, IO_UNIT := False\<rparr>) ip (u\<lparr>uio_offset := f_offset\<rparr>) s))"

section \<open>Files as bytes\<close>

text \<open>The byte at an offset, 0 in a hole; the contents up to the size. Behind its end a file should have zeros only.\<close>

definition fbyte :: "bstate \<Rightarrow> nat \<Rightarrow> nat \<Rightarrow> u8" where
  "fbyte s ip k = (let b = fmap s ip (int (k div DEV_BSIZE)) in if b = 0 then 0 else blk s b ! (k mod DEV_BSIZE))"

definition contents_of :: "bstate \<Rightarrow> nat \<Rightarrow> bytes" where
  "contents_of s ip = map (fbyte s ip) [0..<nat (i_size (ino s ip))]"

definition tail_clear :: "bstate \<Rightarrow> nat \<Rightarrow> bool" where
  "tail_clear s ip \<longleftrightarrow> (\<forall>k. i_size (ino s ip) \<le> int k \<longrightarrow> fbyte s ip k = 0)"

end
