(* ===== verification/Rwip_Props.thy ===== *)
theory Rwip_Props
  imports Rwip
begin

text \<open>What the loops of \<^verbatim>\<open>rwip\<close> do to the bytes of files.\<close>

section \<open>Bytes\<close>

lemma length_splice [simp]: "on + length bs \<le> length base \<Longrightarrow> length (splice on bs base) = length base"
  by (simp add: splice_def)

lemma splice_at: "on + length bs \<le> length base \<Longrightarrow> k < length base \<Longrightarrow> splice on bs base ! k = (if on \<le> k \<and> k < on + length bs then bs ! (k - on) else base ! k)"
  by (auto simp: splice_def nth_append)

lemma blkoff_nat: "blkoff (int k) = k mod DEV_BSIZE"
  by (simp add: blkoff_def zmod_int[symmetric])

lemma lblkno_nat: "lblkno (int k) = int (k div DEV_BSIZE)"
  by (simp add: lblkno_def zdiv_int)

lemma bsize_pos [simp]: "0 < DEV_BSIZE"
  by (simp add: DEV_BSIZE_def)

lemma place_of_off: "int k < 2 ^ 31 \<Longrightarrow> \<exists>r is. place_of (int (k div DEV_BSIZE)) = Some (r, is)"
proof -
  assume "int k < 2 ^ 31"
  then have "k div 1024 < 2 ^ 21" by (simp add: less_mult_imp_div_less)
  then show ?thesis by (intro place_of_some) (simp_all add: DEV_BSIZE_def)
qed

lemma offset_in_block: "j div DEV_BSIZE = k div DEV_BSIZE \<Longrightarrow> n \<le> DEV_BSIZE - k mod DEV_BSIZE \<Longrightarrow>
    k \<le> j \<and> j < k + n \<longleftrightarrow> k mod DEV_BSIZE \<le> j mod DEV_BSIZE \<and> j mod DEV_BSIZE < k mod DEV_BSIZE + n"
  "j div DEV_BSIZE = k div DEV_BSIZE \<Longrightarrow> j - k = j mod DEV_BSIZE - k mod DEV_BSIZE"
proof -
  assume e: "j div DEV_BSIZE = k div DEV_BSIZE"
  have "j = DEV_BSIZE * (k div DEV_BSIZE) + j mod DEV_BSIZE" "k = DEV_BSIZE * (k div DEV_BSIZE) + k mod DEV_BSIZE"
    using mult_div_mod_eq[of DEV_BSIZE j] mult_div_mod_eq[of DEV_BSIZE k] e by simp_all
  then show "j - k = j mod DEV_BSIZE - k mod DEV_BSIZE" "k \<le> j \<and> j < k + n \<longleftrightarrow> k mod DEV_BSIZE \<le> j mod DEV_BSIZE \<and> j mod DEV_BSIZE < k mod DEV_BSIZE + n"
    by linarith+
qed

lemma same_block: "k \<le> j \<Longrightarrow> j < k + n \<Longrightarrow> n \<le> DEV_BSIZE - k mod DEV_BSIZE \<Longrightarrow> j div DEV_BSIZE = k div DEV_BSIZE"
proof -
  assume h: "k \<le> j" "j < k + n" "n \<le> DEV_BSIZE - k mod DEV_BSIZE"
  have k: "k = DEV_BSIZE * (k div DEV_BSIZE) + k mod DEV_BSIZE" by simp
  have "k mod DEV_BSIZE < DEV_BSIZE" by simp
  then have "DEV_BSIZE * (k div DEV_BSIZE) \<le> j" "j < DEV_BSIZE * (k div DEV_BSIZE) + DEV_BSIZE" using h k by linarith+
  then show ?thesis by (intro div_nat_eqI) (simp_all add: mult.commute)
qed

section \<open>What a write does\<close>

definition wrote :: "nat \<Rightarrow> nat \<Rightarrow> bytes \<Rightarrow> bstate \<Rightarrow> bstate \<Rightarrow> bool" where
  "wrote ip off bs s s' \<longleftrightarrow>
     (\<forall>jp k. fbyte s' jp k = (if jp = ip \<and> off \<le> k \<and> k < off + length bs then bs ! (k - off) else fbyte s jp k)) \<and>
     (\<forall>jp. i_size (ino s' jp) = (if jp = ip \<and> bs \<noteq> [] then max (i_size (ino s jp)) (int (off + length bs)) else i_size (ino s jp)) \<and>
       IPIPE (ino s' jp) = IPIPE (ino s jp)) \<and> stale s' = stale s"

lemma wrote_none [simp]: "wrote ip off [] s s' \<longleftrightarrow> fbyte s' = fbyte s \<and> (\<forall>jp. i_size (ino s' jp) = i_size (ino s jp) \<and> IPIPE (ino s' jp) = IPIPE (ino s jp)) \<and> stale s' = stale s"
  by (auto simp: wrote_def fun_eq_iff)

lemma wrote_trans:
  assumes "wrote ip off bs s s1" "wrote ip (off + length bs) bs' s1 s2"
  shows "wrote ip off (bs @ bs') s s2"
proof -
  have "fbyte s2 jp k = (if jp = ip \<and> off \<le> k \<and> k < off + length (bs @ bs') then (bs @ bs') ! (k - off) else fbyte s jp k)" for jp k
  proof -
    have "fbyte s2 jp k = (if jp = ip \<and> off + length bs \<le> k \<and> k < off + length bs + length bs' then bs' ! (k - (off + length bs)) else fbyte s1 jp k)"
      "fbyte s1 jp k = (if jp = ip \<and> off \<le> k \<and> k < off + length bs then bs ! (k - off) else fbyte s jp k)" using assms unfolding wrote_def by blast+
    then show ?thesis by (auto simp: nth_append)
  qed
  moreover have "i_size (ino s2 jp) = (if jp = ip \<and> bs @ bs' \<noteq> [] then max (i_size (ino s jp)) (int (off + length (bs @ bs'))) else i_size (ino s jp)) \<and>
      IPIPE (ino s2 jp) = IPIPE (ino s jp)" for jp
  proof -
    have "i_size (ino s2 jp) = (if jp = ip \<and> bs' \<noteq> [] then max (i_size (ino s1 jp)) (int (off + length bs + length bs')) else i_size (ino s1 jp)) \<and> IPIPE (ino s2 jp) = IPIPE (ino s1 jp)"
      "i_size (ino s1 jp) = (if jp = ip \<and> bs \<noteq> [] then max (i_size (ino s jp)) (int (off + length bs)) else i_size (ino s jp)) \<and> IPIPE (ino s1 jp) = IPIPE (ino s jp)"
      using assms unfolding wrote_def by blast+
    then show ?thesis by auto
  qed
  moreover have "stale s2 = stale s" using assms by (simp add: wrote_def)
  ultimately show ?thesis unfolding wrote_def by blast
qed

lemma fbyte_cong: "fmap s' jp (int (k div DEV_BSIZE)) = fmap s jp (int (k div DEV_BSIZE)) \<Longrightarrow>
    (fmap s jp (int (k div DEV_BSIZE)) \<noteq> 0 \<Longrightarrow> blk s' (fmap s jp (int (k div DEV_BSIZE))) = blk s (fmap s jp (int (k div DEV_BSIZE)))) \<Longrightarrow> fbyte s' jp k = fbyte s jp k"
  by (auto simp: fbyte_def Let_def)

lemma bmap_bytes:
  assumes ok: "files_ok U T s F" and p: "place_of bn = Some (r, is)"
  shows "\<exists>nb s1 F1. bmap ip bn True clr s = Ok (nb, s1) \<and> files_ok U T s1 F1 \<and>
    (\<forall>jp. i_size (ino s1 jp) = i_size (ino s jp) \<and> IPIPE (ino s1 jp) = IPIPE (ino s jp)) \<and> stale s1 = stale s \<and>
    (if nb = -1 then F1 = [] \<and> b_uerr s1 = Some ENOSPC \<and> fbyte s1 = fbyte s
     else 0 < nb \<and> nb = fmap s1 ip bn \<and> nb \<in> T \<and> b_uerr s1 = b_uerr s \<and> \<not> rderr (bvol s1) nb \<and>
       (\<forall>jp k. clr \<or> (jp, int (k div DEV_BSIZE)) \<noteq> (ip, bn) \<longrightarrow> fbyte s1 jp k = fbyte s jp k) \<and> (fmap s ip bn \<noteq> 0 \<longrightarrow> fbyte s1 = fbyte s))"
proof -
  obtain nb s1 F1 where w: "bmap ip bn True clr s = Ok (nb, s1)" "files_ok U T s1 F1" "grows (clr \<or> nb = -1) (ip, r, is) s s1"
    "if nb = -1 then length F \<le> 3 \<and> F1 = [] \<and> b_uerr s1 = Some ENOSPC else nb = addr s1 (ip, r, is) \<and> nb \<noteq> 0 \<and> b_uerr s1 = b_uerr s"
    using bmap_write_full[OF assms] by blast
  note q = place_of_places[OF p, of ip] and fp = fmap_place[OF p]
  have o: "fbyte s1 jp k = fbyte s jp k" if "(jp, int (k div DEV_BSIZE)) \<noteq> (ip, bn)" for jp k
    using grows_fmap[OF w(3) p that] by (intro fbyte_cong) blast+
  have h: "fbyte s1 jp k = fbyte s jp k" if "jp = ip" "int (k div DEV_BSIZE) = bn" "clr \<or> nb = -1 \<or> fmap s ip bn \<noteq> 0" for jp k
  proof (cases "fmap s ip bn = 0")
    case False
    then have "addr s1 (ip, r, is) = addr s (ip, r, is)" "blk s1 (addr s (ip, r, is)) = blk s (addr s (ip, r, is))" using w(3) q fp unfolding grows_def by auto
    then show ?thesis using that fp by (simp add: fbyte_def Let_def)
  next
    case True
    then have "addr s1 (ip, r, is) \<noteq> 0 \<longrightarrow> blk s1 (addr s1 (ip, r, is)) = clrblk" using w(3) q fp that(3) unfolding grows_def by auto
    then show ?thesis using that True fp by (simp add: fbyte_def Let_def clrblk_def)
  qed
  have sz: "\<forall>jp. i_size (ino s1 jp) = i_size (ino s jp) \<and> IPIPE (ino s1 jp) = IPIPE (ino s jp)" "stale s1 = stale s" using w(3) unfolding grows_def by blast+
  show ?thesis
  proof (cases "nb = -1")
    case True
    then have "fbyte s1 = fbyte s" using o h by (intro ext) blast
    then show ?thesis using w sz True by (intro exI[of _ nb] exI[of _ s1] exI[of _ F1]) simp
  next
    case False
    then have nb: "nb = addr s1 (ip, r, is)" "nb \<noteq> 0" "b_uerr s1 = b_uerr s" using w(4) by simp_all
    have t: "nb \<in> T" using files_okD(10)[OF w(2)] q nb by blast
    then have "0 < nb" "\<not> rderr (bvol s1) nb" using files_okD(1,3,4)[OF w(2)] by (auto simp: fs_ok_def)
    moreover have "fbyte s1 = fbyte s" if "fmap s ip bn \<noteq> 0" using that o h by (intro ext) blast
    moreover have "fbyte s1 jp k = fbyte s jp k" if "clr \<or> (jp, int (k div DEV_BSIZE)) \<noteq> (ip, bn)" for jp k using that o h by blast
    ultimately show ?thesis using w(1,2) sz False t nb fp by (intro exI[of _ nb] exI[of _ s1] exI[of _ F1]) simp
  qed
qed

lemma put_bytes:
  assumes ok: "files_ok U T s F" and b: "fmap s ip bn = b" "b \<noteq> 0" and bs: "length bs = DEV_BSIZE"
  shows "files_ok U T (put_blk b bs s) F \<and> fmap (put_blk b bs s) = fmap s \<and>
    (\<forall>jp k. fbyte (put_blk b bs s) jp k = (if jp = ip \<and> int (k div DEV_BSIZE) = bn then bs ! (k mod DEV_BSIZE) else fbyte s jp k))"
proof -
  obtain r "is" where p: "place_of bn = Some (r, is)" using b by (auto simp: fmap_def split: option.splits)
  note q = place_of_places[OF p, of ip]
  have a: "addr s (ip, r, is) = b" using fmap_place[OF p] b(1) by simp
  note wl = write_leaf[OF ok q[THEN conjunct1] q[THEN conjunct2] a b(2) bs]
  have f: "fmap (put_blk b bs s) jp n = fmap s jp n" for jp n using wl(2) place_of_places by (cases "place_of n") (auto simp: fmap_def)
  have "fbyte (put_blk b bs s) jp k = (if jp = ip \<and> int (k div DEV_BSIZE) = bn then bs ! (k mod DEV_BSIZE) else fbyte s jp k)" for jp k
  proof (cases "fmap s jp (int (k div DEV_BSIZE)) = b")
    case True
    then have "jp = ip \<and> int (k div DEV_BSIZE) = bn" using fmap_inj[OF ok, of jp "int (k div DEV_BSIZE)" ip bn] b by simp
    then show ?thesis using True b(2) by (simp add: fbyte_def f Let_def)
  next
    case False
    then have n: "\<not> (jp = ip \<and> int (k div DEV_BSIZE) = bn)" using b(1) by auto
    show ?thesis unfolding if_not_P[OF n] using False by (simp add: fbyte_def f Let_def)
  qed
  then show ?thesis using wl(1) f by (intro conjI allI ext)
qed

section \<open>Writing\<close>

lemma fbyte_ino: "i_addr (f (ino s ip)) = i_addr (ino s ip) \<Longrightarrow> fmap (upd_ino ip f s) = fmap s \<and> fbyte (upd_ino ip f s) = fbyte s"
proof -
  assume a: "i_addr (f (ino s ip)) = i_addr (ino s ip)"
  then have f: "fmap (upd_ino ip f s) = fmap s" by (intro ext) (auto simp: fmap_def addr_def split: option.splits)
  then show ?thesis by (intro conjI ext) (simp_all add: fbyte_def Let_def)
qed

lemma fbyte_uerr [simp]: "fmap (s\<lparr>b_uerr := e\<rparr>) = fmap s" "fbyte (s\<lparr>b_uerr := e\<rparr>) = fbyte s" "files_ok U T (s\<lparr>b_uerr := e\<rparr>) F = files_ok U T s F"
  "fmap (s\<lparr>rablock := x\<rparr>) = fmap s" "fbyte (s\<lparr>rablock := x\<rparr>) = fbyte s"
proof -
  have a: "addr (s\<lparr>b_uerr := e\<rparr>) = addr s" "addr (s\<lparr>rablock := x\<rparr>) = addr s" by (simp_all add: addr_def)
  then show f: "fmap (s\<lparr>b_uerr := e\<rparr>) = fmap s" "fmap (s\<lparr>rablock := x\<rparr>) = fmap s" by (auto simp: fmap_def fun_eq_iff split: option.splits)
  show "fbyte (s\<lparr>b_uerr := e\<rparr>) = fbyte s" "fbyte (s\<lparr>rablock := x\<rparr>) = fbyte s" by (simp_all add: fbyte_def fun_eq_iff f Let_def)
  show "files_ok U T (s\<lparr>b_uerr := e\<rparr>) F = files_ok U T s F" by (simp add: files_ok_def a)
qed

text \<open>The size and the flag in the inode.\<close>

lemma ino_size:
  assumes "files_ok U T s F"
  shows "files_ok U T (upd_ino ip (\<lambda>i. i\<lparr>i_size := n\<rparr>) s) F" "fmap (upd_ino ip (\<lambda>i. i\<lparr>i_size := n\<rparr>) s) = fmap s" "fbyte (upd_ino ip (\<lambda>i. i\<lparr>i_size := n\<rparr>) s) = fbyte s"
    "files_ok U T (upd_ino ip (\<lambda>i. i\<lparr>IUPD := c\<rparr>) s) F" "fmap (upd_ino ip (\<lambda>i. i\<lparr>IUPD := c\<rparr>) s) = fmap s" "fbyte (upd_ino ip (\<lambda>i. i\<lparr>IUPD := c\<rparr>) s) = fbyte s"
  using upd_ino_ok[of "i_size_update (\<lambda>_. n)"] upd_ino_ok[of "IUPD_update (\<lambda>_. c)"] assms fbyte_ino[of "i_size_update (\<lambda>_. n)" s ip] fbyte_ino[of "IUPD_update (\<lambda>_. c)" s ip]
  by simp_all

definition uio_ready :: "nat \<Rightarrow> bytes \<Rightarrow> uio \<Rightarrow> bool" where
  "uio_ready off bs u \<longleftrightarrow> uio_offset u = int off \<and> uio_data u = bs \<and> uio_resid u = length bs \<and> length bs \<le> uio_ok u \<and> off + length bs < 2 ^ 31"

lemma write_loop_go:
  assumes "bmap ip (lblkno (uio_offset u)) True (n \<noteq> DEV_BSIZE) s = Ok (bn, s1)" "b_uerr s1 = None" "\<not> bn < 0"
    and n: "n = min (DEV_BSIZE - blkoff (uio_offset u)) (uio_resid u)"
    and s2: "s2 = (if wrap32 (uio_offset u + int n) > i_size (ino s1 ip) \<and> i_type c \<noteq> IFOTHER
               then upd_ino ip (\<lambda>i. i\<lparr>i_size := wrap32 (uio_offset u + int n)\<rparr>) s1 else s1)"
    and "\<not> (n \<noteq> DEV_BSIZE \<and> rderr (bvol s2) bn)" "uio_in n u = (e, bs, u1)"
    and s4: "s4 = upd_ino ip (\<lambda>i. i\<lparr>IUPD := True\<rparr>) ((put_blk bn (splice (blkoff (uio_offset u)) bs (if n = DEV_BSIZE then stale s2 bn else blk s2 bn)) s2)\<lparr>b_uerr := e\<rparr>)"
  shows "write_loop c ip u s = (if e = None \<and> uio_resid u1 \<noteq> 0 \<and> n \<noteq> 0 then write_loop c ip u1 s4 else Ok (e, False, u1, s4))"
  by (subst write_loop.simps) (simp only: Let_def n[symmetric] assms(1,2,3,6,7) obind.simps prod.case s2[symmetric] s4[symmetric] simp_thms if_False)

lemma write_round:
  assumes ok: "files_ok U T s F" "b_uerr s = None" and u: "uio_ready off bs u" "bs \<noteq> []" and ty: "i_type c \<noteq> IFOTHER"
    and n: "n = min (DEV_BSIZE - off mod DEV_BSIZE) (length bs)"
  shows "(\<exists>s1. write_loop c ip u s = Ok (Some ENOSPC, True, u, s1) \<and> files_ok U T s1 [] \<and> b_uerr s1 = Some ENOSPC \<and> wrote ip off [] s s1) \<or>
    (\<exists>s4 F4 u4. write_loop c ip u s = (if drop n bs = [] then Ok (None, False, u4, s4) else write_loop c ip u4 s4) \<and> files_ok U T s4 F4 \<and>
      b_uerr s4 = None \<and> wrote ip off (take n bs) s s4 \<and> uio_ready (off + n) (drop n bs) u4)"
proof -
  have r: "uio_offset u = int off" "uio_data u = bs" "uio_resid u = length bs" "length bs \<le> uio_ok u" "off + length bs < 2 ^ 31" using u(1) by (simp_all add: uio_ready_def)
  obtain rr "is" where p: "place_of (int (off div DEV_BSIZE)) = Some (rr, is)" using place_of_off[of off] r(5) by auto
  have nn: "0 < n" "n \<le> length bs" "n \<le> DEV_BSIZE - off mod DEV_BSIZE" using u(2) by (simp_all add: n)
  have w32: "wrap32 (int off + int n) = int (off + n)" using nn(2) r(5) by (simp add: wrap32_id)
  from bmap_bytes[OF ok(1) p, of ip "n \<noteq> DEV_BSIZE"] obtain nb s1 F1 where b: "bmap ip (int (off div DEV_BSIZE)) True (n \<noteq> DEV_BSIZE) s = Ok (nb, s1)"
    "files_ok U T s1 F1" "\<forall>jp. i_size (ino s1 jp) = i_size (ino s jp) \<and> IPIPE (ino s1 jp) = IPIPE (ino s jp)" "stale s1 = stale s"
    "if nb = -1 then F1 = [] \<and> b_uerr s1 = Some ENOSPC \<and> fbyte s1 = fbyte s
     else 0 < nb \<and> nb = fmap s1 ip (int (off div DEV_BSIZE)) \<and> nb \<in> T \<and> b_uerr s1 = b_uerr s \<and> \<not> rderr (bvol s1) nb \<and>
       (\<forall>jp k. n \<noteq> DEV_BSIZE \<or> (jp, int (k div DEV_BSIZE)) \<noteq> (ip, int (off div DEV_BSIZE)) \<longrightarrow> fbyte s1 jp k = fbyte s jp k) \<and>
       (fmap s ip (int (off div DEV_BSIZE)) \<noteq> 0 \<longrightarrow> fbyte s1 = fbyte s)" by blast
  have blk: "blkoff (int off) = off mod DEV_BSIZE" "lblkno (int off) = int (off div DEV_BSIZE)" by (simp_all add: blkoff_nat lblkno_nat)
  show ?thesis
  proof (cases "nb = -1")
    case True
    then have "write_loop c ip u s = Ok (Some ENOSPC, True, u, s1)" using b(1,5) n by (subst write_loop.simps) (simp add: r blk Let_def)
    then show ?thesis using b True by auto
  next
    case False
    let ?sz = "int (off + n) > i_size (ino s1 ip)"
    let ?s2 = "if ?sz then upd_ino ip (\<lambda>i. i\<lparr>i_size := int (off + n)\<rparr>) s1 else s1"
    let ?base = "if n = DEV_BSIZE then stale ?s2 nb else blk ?s2 nb" let ?new = "splice (off mod DEV_BSIZE) (take n bs) ?base"
    let ?s3 = "put_blk nb ?new ?s2" let ?s4 = "upd_ino ip (\<lambda>i. i\<lparr>IUPD := True\<rparr>) (?s3\<lparr>b_uerr := None\<rparr>)"
    let ?u4 = "(uio_moved n u)\<lparr>uio_data := drop n bs\<rparr>"
    have B: "0 < nb" "fmap s1 ip (int (off div DEV_BSIZE)) = nb" "b_uerr s1 = None" "\<not> rderr (bvol s1) nb"
      "\<And>jp k. n \<noteq> DEV_BSIZE \<or> (jp, int (k div DEV_BSIZE)) \<noteq> (ip, int (off div DEV_BSIZE)) \<Longrightarrow> fbyte s1 jp k = fbyte s jp k" using b(5) False ok(2) by auto
    have s2: "files_ok U T ?s2 F1" "fmap ?s2 = fmap s1" "fbyte ?s2 = fbyte s1" "b_uerr ?s2 = None" "\<not> rderr (bvol ?s2) nb" "stale ?s2 = stale s1"
      using ino_size[OF b(2)] b(2) B(3,4) by simp_all
    have base: "length ?base = DEV_BSIZE"
      using files_okD(5)[OF s2(1), of nb] files_okD(6)[OF s2(1), of nb] by (cases "n = DEV_BSIZE") (simp_all only: if_True if_False simp_thms)
    have on: "off mod DEV_BSIZE + n \<le> DEV_BSIZE" using nn(3) mod_less_divisor[OF bsize_pos, of off] by linarith
    then have len: "off mod DEV_BSIZE + length (take n bs) \<le> length ?base" unfolding base using nn(2) by simp
    have new: "length ?new = DEV_BSIZE" unfolding length_splice[OF len] by (rule base)
    have s3: "files_ok U T ?s3 F1" "fmap ?s3 = fmap s1"
      "\<And>jp k. fbyte ?s3 jp k = (if jp = ip \<and> int (k div DEV_BSIZE) = int (off div DEV_BSIZE) then ?new ! (k mod DEV_BSIZE) else fbyte s1 jp k)"
      using put_bytes[OF s2(1), of ip "int (off div DEV_BSIZE)" nb ?new] s2 B(1,2) new by simp_all
    have m: "uio_in n u = (None, take n bs, ?u4)" using nn r by (simp add: uio_in_def)
    have e: "write_loop c ip u s = (if drop n bs = [] then Ok (None, False, ?u4, ?s4) else write_loop c ip ?u4 ?s4)"
    proof -
      have z: "uio_resid ?u4 \<noteq> 0 \<longleftrightarrow> drop n bs \<noteq> []" using nn r by (auto simp: uio_moved_def)
      have g: "bmap ip (lblkno (uio_offset u)) True (n \<noteq> DEV_BSIZE) s = Ok (nb, s1)" "\<not> nb < 0" "n = min (DEV_BSIZE - blkoff (uio_offset u)) (uio_resid u)"
        using b(1) B(1) n by (simp_all only: r blk)
      have g2: "?s2 = (if wrap32 (uio_offset u + int n) > i_size (ino s1 ip) \<and> i_type c \<noteq> IFOTHER
          then upd_ino ip (\<lambda>i. i\<lparr>i_size := wrap32 (uio_offset u + int n)\<rparr>) s1 else s1)" unfolding r(1) w32 using ty by (simp only: simp_thms)
      have g3: "\<not> (n \<noteq> DEV_BSIZE \<and> rderr (bvol ?s2) nb)" using s2(5) by blast
      have g4: "?s4 = upd_ino ip (\<lambda>i. i\<lparr>IUPD := True\<rparr>)
          ((put_blk nb (splice (blkoff (uio_offset u)) (take n bs) (if n = DEV_BSIZE then stale ?s2 nb else blk ?s2 nb)) ?s2)\<lparr>b_uerr := None\<rparr>)" by (simp only: r(1) blk)
      note write_loop_go[OF g(1) B(3) g(2,3) g2 g3 m g4]
      then show ?thesis using nn(1) unfolding z by simp
    qed
    have s4: "files_ok U T ?s4 F1" "fbyte ?s4 = fbyte ?s3" "b_uerr ?s4 = None" using ino_size(4,6)[of U T "?s3\<lparr>b_uerr := None\<rparr>" F1 ip True] s3(1) by simp_all
    have "fbyte ?s3 jp k = (if jp = ip \<and> off \<le> k \<and> k < off + length (take n bs) then take n bs ! (k - off) else fbyte s jp k)" for jp k
    proof (cases "jp = ip \<and> k div DEV_BSIZE = off div DEV_BSIZE")
      case True
      note i = offset_in_block[OF conjunct2[OF True]]
      have f: "fbyte ?s3 jp k = ?new ! (k mod DEV_BSIZE)" using s3(3)[of jp k] True by simp
      have k: "k mod DEV_BSIZE < length ?base" unfolding base by simp
      have lt: "length (take n bs) = n" using nn(2) by simp
      show ?thesis
      proof (cases "off \<le> k \<and> k < off + n")
        case inn: True
        then show ?thesis unfolding f splice_at[OF len k] lt using True i(1)[OF nn(3)] i(2) by simp
      next
        case outs: False
        then have m: "\<not> (off mod DEV_BSIZE \<le> k mod DEV_BSIZE \<and> k mod DEV_BSIZE < off mod DEV_BSIZE + n)" using i(1)[OF nn(3)] by simp
        then have nd: "n \<noteq> DEV_BSIZE" using nn(3) mod_less_divisor[OF bsize_pos, of k] by linarith
        have "fbyte s1 jp k = blk s1 nb ! (k mod DEV_BSIZE)" using True B(1,2) by (simp add: fbyte_def Let_def)
        moreover have "fbyte s1 jp k = fbyte s jp k" using B(5) nd by blast
        moreover have "blk ?s2 nb = blk s1 nb" by simp
        moreover have o: "\<not> (jp = ip \<and> off \<le> k \<and> k < off + n)" using outs by blast
        ultimately show ?thesis unfolding f splice_at[OF len k] lt if_not_P[OF m] if_not_P[OF o] using nd by simp
      qed
    next
      case False
      have "fbyte ?s3 jp k = fbyte s1 jp k" using s3(3)[of jp k] False by auto
      moreover have "fbyte s1 jp k = fbyte s jp k" using B(5) False by auto
      moreover have o: "\<not> (jp = ip \<and> off \<le> k \<and> k < off + length (take n bs))" using False same_block[of off k n] nn by auto
      ultimately show ?thesis unfolding if_not_P[OF o] by (simp only:)
    qed
    moreover have "i_size (ino ?s4 jp) = (if jp = ip \<and> take n bs \<noteq> [] then max (i_size (ino s jp)) (int (off + length (take n bs))) else i_size (ino s jp)) \<and>
        IPIPE (ino ?s4 jp) = IPIPE (ino s jp)" for jp
    proof -
      have "take n bs \<noteq> []" "length (take n bs) = n" using nn by auto
      then show ?thesis using b(3) by (cases "jp = ip"; cases ?sz) auto
    qed
    moreover have "stale ?s4 = stale s" using s2(6) b(4) by simp
    ultimately have w: "wrote ip off (take n bs) s ?s4" unfolding wrote_def s4(2) by blast
    have "uio_ready (off + n) (drop n bs) ?u4" using r nn w32 by (simp add: uio_ready_def uio_moved_def)
    then show ?thesis using e s4(1,3) w by blast
  qed
qed

lemma write_loop_ok:
  assumes "files_ok U T s F" "b_uerr s = None" "uio_ready off bs u" "bs \<noteq> []" "i_type c \<noteq> IFOTHER"
  shows "\<exists>e ret u' s' F' m. write_loop c ip u s = Ok (e, ret, u', s') \<and> files_ok U T s' F' \<and> m \<le> length bs \<and> wrote ip off (take m bs) s s' \<and>
    uio_resid u' = length bs - m \<and> uio_offset u' = int (off + m) \<and>
    (if m = length bs then e = None \<and> \<not> ret \<and> b_uerr s' = None else e = Some ENOSPC \<and> ret \<and> F' = [] \<and> b_uerr s' = Some ENOSPC)"
  using assms(1-4)
proof (induction "length bs" arbitrary: bs off u s F rule: less_induct)
  case less
  define n where "n = min (DEV_BSIZE - off mod DEV_BSIZE) (length bs)"
  have n: "0 < n" "n \<le> length bs" using less.prems(4) by (simp_all add: n_def)
  have u0: "uio_resid u = length bs" "uio_offset u = int off" using less.prems(3) by (simp_all add: uio_ready_def)
  from write_round[OF less.prems assms(5) n_def, of ip] show ?case
  proof (elim disjE exE conjE)
    fix s1
    assume "write_loop c ip u s = Ok (Some ENOSPC, True, u, s1)" "files_ok U T s1 []" "b_uerr s1 = Some ENOSPC" "wrote ip off [] s s1"
    then show ?case using u0 less.prems(4)
      by (intro exI[of _ "Some ENOSPC"] exI[of _ True] exI[of _ u] exI[of _ s1] exI[of _ "[]"] exI[of _ 0]) simp
  next
    fix s4 F4 u4
    assume h: "write_loop c ip u s = (if drop n bs = [] then Ok (None, False, u4, s4) else write_loop c ip u4 s4)" "files_ok U T s4 F4"
      "b_uerr s4 = None" "wrote ip off (take n bs) s s4" "uio_ready (off + n) (drop n bs) u4"
    show ?case
    proof (cases "drop n bs = []")
      case True
      then show ?thesis using h n by (intro exI[of _ None] exI[of _ False] exI[of _ u4] exI[of _ s4] exI[of _ F4] exI[of _ n]) (auto simp: uio_ready_def)
    next
      case False
      have "length (drop n bs) < length bs" using n by simp
      from less.hyps[OF this h(2,3,5) False] obtain e ret u' s' F' m where w: "write_loop c ip u4 s4 = Ok (e, ret, u', s')" "files_ok U T s' F'"
        "m \<le> length (drop n bs)" "wrote ip (off + n) (take m (drop n bs)) s4 s'" "uio_resid u' = length (drop n bs) - m" "uio_offset u' = int (off + n + m)"
        "if m = length (drop n bs) then e = None \<and> \<not> ret \<and> b_uerr s' = None else e = Some ENOSPC \<and> ret \<and> F' = [] \<and> b_uerr s' = Some ENOSPC" by blast
      have l: "length (take n bs) = n" using n by simp
      have "wrote ip off (take n bs @ take m (drop n bs)) s s'" using wrote_trans[OF h(4)] w(4) l by simp
      then have "wrote ip off (take (n + m) bs) s s'" by (simp add: take_add)
      then show ?thesis using h(1) w n False
        by (intro exI[of _ e] exI[of _ ret] exI[of _ u'] exI[of _ s'] exI[of _ F'] exI[of _ "n + m"]) (auto split: if_splits)
    qed
  qed
qed

section \<open>Reading\<close>

lemma bmap_read_bytes:
  assumes ok: "files_ok U T s F" and p: "place_of (int (off div DEV_BSIZE)) = Some (r, is)"
  shows "\<exists>bn ra. bmap ip (int (off div DEV_BSIZE)) False clr s = Ok (bn, s\<lparr>rablock := ra\<rparr>) \<and> (bn < 0 \<or> \<not> rderr (bvol s) bn) \<and>
    (\<forall>n. n \<le> DEV_BSIZE - off mod DEV_BSIZE \<longrightarrow> take n (drop (off mod DEV_BSIZE) (if bn < 0 then clrblk else blk s bn)) = map (fbyte s ip) [off..<off + n])"
proof -
  let ?b = "fmap s ip (int (off div DEV_BSIZE))"
  obtain ra where b: "bmap ip (int (off div DEV_BSIZE)) False clr s = Ok (if ?b = 0 then -1 else ?b, s\<lparr>rablock := ra\<rparr>)" using bmap_read[OF ok p] by blast
  have q: "?b \<noteq> 0 \<Longrightarrow> ?b \<in> T" using files_okD(10)[OF ok] place_of_places[OF p] fmap_place[OF p] by auto
  then have pos: "?b \<noteq> 0 \<Longrightarrow> 0 < ?b \<and> \<not> rderr (bvol s) ?b" using files_okD(1,3,4)[OF ok] by (auto simp: fs_ok_def)
  let ?base = "if ?b = 0 then clrblk else blk s ?b"
  have len: "length ?base = DEV_BSIZE" using files_okD(5)[OF ok] by simp
  have "take n (drop (off mod DEV_BSIZE) ?base) = map (fbyte s ip) [off..<off + n]" if n: "n \<le> DEV_BSIZE - off mod DEV_BSIZE" for n
  proof (rule nth_equalityI)
    show l: "length (take n (drop (off mod DEV_BSIZE) ?base)) = length (map (fbyte s ip) [off..<off + n])" using len n by simp
    fix i
    assume "i < length (take n (drop (off mod DEV_BSIZE) ?base))"
    then have i: "i < n" using l by simp
    have d: "(off + i) div DEV_BSIZE = off div DEV_BSIZE" using same_block[of off "off + i" n] i n by simp
    then have m: "(off + i) mod DEV_BSIZE = off mod DEV_BSIZE + i" using offset_in_block(2)[OF d] offset_in_block(1)[OF d n] i by linarith
    have "off mod DEV_BSIZE + i < DEV_BSIZE" using i n by linarith
    then have "fbyte s ip (off + i) = ?base ! (off mod DEV_BSIZE + i)" unfolding fbyte_def Let_def d m by (simp add: clrblk_def)
    then show "take n (drop (off mod DEV_BSIZE) ?base) ! i = map (fbyte s ip) [off..<off + n] ! i" using i len n by simp
  qed
  then show ?thesis using b pos by (intro exI[of _ "if ?b = 0 then -1 else ?b"] exI[of _ ra]) auto
qed

lemma read_loop_ok:
  assumes "files_ok U T s F" "b_uerr s = None" "uio_offset u = int off" "0 < uio_resid u" "uio_resid u \<le> uio_ok u" "off + uio_resid u < 2 ^ 31"
  shows "\<exists>u' ra. read_loop ip u s = Ok (None, u', s\<lparr>rablock := ra\<rparr>) \<and>
    uio_data u' = uio_data u @ map (fbyte s ip) [off..<min (off + uio_resid u) (nat (i_size (ino s ip)))] \<and>
    uio_resid u' = uio_resid u - (nat (i_size (ino s ip)) - off)"
  using assms
proof (induction "uio_resid u" arbitrary: off u s rule: less_induct)
  case less
  let ?sz = "nat (i_size (ino s ip))"
  show ?case
  proof (cases "i_size (ino s ip) \<le> int off")
    case True
    then have "read_loop ip u s = Ok (None, u, s\<lparr>rablock := rablock s\<rparr>)" using less.prems(3) by (subst read_loop.simps) (simp add: Let_def)
    moreover have "?sz - off = 0" "min (off + uio_resid u) ?sz \<le> off" using True by auto
    ultimately show ?thesis by (intro exI[of _ u] exI[of _ "rablock s"]) simp
  next
    case False
    define n where "n = min (min (DEV_BSIZE - off mod DEV_BSIZE) (uio_resid u)) (?sz - off)"
    have n: "0 < n" "n \<le> uio_resid u" "n \<le> DEV_BSIZE - off mod DEV_BSIZE" "off + n \<le> ?sz" using less.prems(4) False by (auto simp: n_def)
    have d: "nat (i_size (ino s ip) - int off) = ?sz - off" using False by simp
    obtain r "is" where p: "place_of (int (off div DEV_BSIZE)) = Some (r, is)" using place_of_off[of off] less.prems(6) by auto
    from bmap_read_bytes[OF less.prems(1) p, of ip False] obtain bn ra where b: "bmap ip (int (off div DEV_BSIZE)) False False s = Ok (bn, s\<lparr>rablock := ra\<rparr>)"
      "bn < 0 \<or> \<not> rderr (bvol s) bn"
      "take n (drop (off mod DEV_BSIZE) (if bn < 0 then clrblk else blk s bn)) = map (fbyte s ip) [off..<off + n]" using n(3) by blast
    let ?u = "(uio_moved n u)\<lparr>uio_data := uio_data u @ map (fbyte s ip) [off..<off + n]\<rparr>" let ?s = "s\<lparr>rablock := ra, b_uerr := None\<rparr>"
    have s': "?s = s\<lparr>rablock := ra\<rparr>" using less.prems(2) by simp
    have o: "uio_out n (drop (off mod DEV_BSIZE) (if bn < 0 then clrblk else blk s bn)) u = (None, ?u)" using n(2) less.prems(5) b(3) by (simp add: uio_out_def)
    have l: "read_loop ip u s = (if uio_resid ?u \<noteq> 0 \<and> n \<noteq> 0 then read_loop ip ?u ?s else Ok (None, ?u, ?s))"
    proof -
      have c: "(b_uerr (s\<lparr>rablock := ra\<rparr>) \<noteq> None) = False" "(bn \<ge> 0 \<and> rderr (bvol (s\<lparr>rablock := ra\<rparr>)) bn) = False"
        "blk (s\<lparr>rablock := ra\<rparr>) = blk s" "(i_size (ino s ip) - int off \<le> 0) = False" using b(2) less.prems(2) False by auto
      show ?thesis by (subst read_loop.simps)
        (simp only: Let_def less.prems(3) lblkno_nat blkoff_nat d n_def[symmetric] b(1) c o obind.simps prod.case if_False simp_thms)
    qed
    have w32: "wrap32 (int off + int n) = int (off + n)" using n(2) less.prems(6) by (simp add: wrap32_id)
    have u: "uio_offset ?u = int (off + n)" "uio_resid ?u = uio_resid u - n" "uio_ok ?u = uio_ok u - n" using less.prems(3) w32 by (simp_all add: uio_moved_def)
    show ?thesis
    proof (cases "uio_resid u = n")
      case True
      then have "read_loop ip u s = Ok (None, ?u, s\<lparr>rablock := ra\<rparr>)" using l s' u(2) by simp
      moreover have "min (off + uio_resid u) ?sz = off + n" "uio_resid u - (?sz - off) = 0" using True n(4) by simp_all
      ultimately show ?thesis using u(2) True by (intro exI[of _ ?u] exI[of _ ra]) simp
    next
      case F: False
      have h: "uio_resid ?u < uio_resid u" "files_ok U T ?s F" "b_uerr ?s = None" "uio_offset ?u = int (off + n)" "0 < uio_resid ?u" "uio_resid ?u \<le> uio_ok ?u" "off + n + uio_resid ?u < 2 ^ 31"
        using n F u less.prems by simp_all
      from less.hyps[OF h] obtain u' ra' where w: "read_loop ip ?u ?s = Ok (None, u', ?s\<lparr>rablock := ra'\<rparr>)"
        "uio_data u' = uio_data ?u @ map (fbyte ?s ip) [off + n..<min (off + n + uio_resid ?u) (nat (i_size (ino ?s ip)))]"
        "uio_resid u' = uio_resid ?u - (nat (i_size (ino ?s ip)) - (off + n))" by blast
      have "read_loop ip u s = Ok (None, u', s\<lparr>rablock := ra'\<rparr>)" using l w(1) h(5) n(1) less.prems(2) by simp
      moreover have "[off..<min (off + uio_resid u) ?sz] = [off..<off + n] @ [off + n..<min (off + n + uio_resid ?u) ?sz]"
        using n upt_add_eq_append[of off "off + n" "min (off + uio_resid u) ?sz - (off + n)"] u(2) by (simp add: min_def)
      ultimately show ?thesis using w(2,3) u(2) n by (intro exI[of _ u'] exI[of _ ra']) simp
    qed
  qed
qed

end
