(* ===== verification/Rwip_Thms.thy ===== *)
theory Rwip_Thms
  imports Rwip_Props
begin

text \<open>Files as bytes: the properties of reading and writing.\<close>

section \<open>The checks before the loop\<close>

text \<open>A write of so many bytes that passes the checks, with the offset it goes to.\<close>

definition write_goes :: "rwctx \<Rightarrow> int \<Rightarrow> nat \<Rightarrow> nat \<Rightarrow> nat \<Rightarrow> bool" where
  "write_goes c sz off len to \<longleftrightarrow> i_type c \<noteq> IFOTHER \<and> chkdq c = None \<and> int to = (if i_type c = IFREG \<and> IO_APPEND c then sz else int off) \<and>
     (i_type c = IFREG \<longrightarrow> int (to + len) \<le> RLIMIT_FSIZE c \<and> (APPEND c \<longrightarrow> int to = sz))"

lemma rwip_write_loop:
  assumes g: "write_goes c (i_size (ino s ip)) off (uio_resid u) to" and u: "uio_offset u = int off" "0 < uio_resid u" "to + uio_resid u < 2 ^ 31"
  shows "rwip_write c ip u s =
    obind (write_loop c ip (u\<lparr>uio_offset := int to\<rparr>) s) (\<lambda>(e, ret, u1, s1).
      if \<not> ret \<and> e \<noteq> None \<and> IO_UNIT c
      then omap (\<lambda>s2. (e, u1\<lparr>uio_offset := wrap32 (uio_offset u1 - int (uio_resid u - uio_resid u1)), uio_resid := uio_resid u\<rparr>, s2))
             (itrunc ip (i_size (ino s ip)) s1)
      else Ok (e, u1, s1))"
proof -
  have w: "wrap32 (int to + int (uio_resid u)) = int (to + uio_resid u)" using u(3) by (simp add: wrap32_id)
  have u0: "(if i_type c = IFREG \<and> IO_APPEND c then u\<lparr>uio_offset := i_size (ino s ip)\<rparr> else u) = u\<lparr>uio_offset := int to\<rparr>"
    using g u(1) by (cases u) (auto simp: write_goes_def)
  have s: "uio_offset (u\<lparr>uio_offset := int to\<rparr>) = int to" "uio_resid (u\<lparr>uio_offset := int to\<rparr>) = uio_resid u" by simp_all
  have c: "(i_type c = IFOTHER) = False" "(i_type c = IFREG \<and> APPEND c \<and> int to \<noteq> i_size (ino s ip)) = False" "(uio_resid u = 0) = False"
    "(i_type c = IFREG \<and> int (to + uio_resid u) > RLIMIT_FSIZE c) = False" "(\<not> IPIPE (ino s ip) \<and> int (to + uio_resid u) > i_size (ino s ip) \<and> chkdq c \<noteq> None) = False"
    "(int off < 0) = False" using g u(2) by (auto simp: write_goes_def)
  show ?thesis unfolding rwip_write_def u(1) u0 Let_def s w c if_False ..
qed

section \<open>Properties\<close>

text \<open>
  C11. A write changes exactly the bytes it is asked to, of one file: the bytes from its offset on (the end of the file when it appends) become those
  of the caller, and no other byte of any file changes, holes and what is behind the end included; the size grows
  to the end of what has been written. When blocks run out the first part of the request
  has been written and the error is \<^verbatim>\<open>ENOSPC\<close>, whether the write was to be atomic (\<^verbatim>\<open>IO_UNIT\<close>) or not.
\<close>

theorem rwip_writes_exactly:
  assumes "files_ok U T s F" "b_uerr s = None" "write_goes c (i_size (ino s ip)) off (length bs) to" "bs \<noteq> []" "to + length bs < 2 ^ 31"
  shows "\<exists>e u' s' F' m. rwip_write c ip (kuio (int off) (length bs) bs) s = Ok (e, u', s') \<and> files_ok U T s' F' \<and> uio_resid u' = length bs - m \<and>
    (if e = None then m = length bs else e = Some ENOSPC \<and> m < length bs \<and> F' = []) \<and>
    (\<forall>jp k. fbyte s' jp k = (if jp = ip \<and> to \<le> k \<and> k < to + m then bs ! (k - to) else fbyte s jp k)) \<and>
    (\<forall>jp. i_size (ino s' jp) = (if jp = ip \<and> m \<noteq> 0 then max (i_size (ino s ip)) (int (to + m)) else i_size (ino s jp)))"
proof -
  let ?u = "kuio (int off) (length bs) bs"
  have ty: "i_type c \<noteq> IFOTHER" using assms(3) by (simp add: write_goes_def)
  have r: "uio_ready to bs (kuio (int to) (length bs) bs)" using assms(5) by (simp add: uio_ready_def kuio_def)
  from write_loop_ok[OF assms(1,2) r assms(4) ty, of ip] obtain e ret u' s' F' m where w: "write_loop c ip (kuio (int to) (length bs) bs) s = Ok (e, ret, u', s')"
    "files_ok U T s' F'" "m \<le> length bs" "wrote ip to (take m bs) s s'" "uio_resid u' = length bs - m"
    "if m = length bs then e = None \<and> \<not> ret \<and> b_uerr s' = None else e = Some ENOSPC \<and> ret \<and> F' = [] \<and> b_uerr s' = Some ENOSPC" by blast
  have "rwip_write c ip (kuio (int off) (length bs) bs) s = Ok (e, u', s')" using rwip_write_loop[of c s ip off ?u to] assms(3-5) w(1,6) by (simp add: kuio_def split: if_splits)
  moreover have "if e = None then m = length bs else e = Some ENOSPC \<and> m < length bs \<and> F' = []" using w(3,6) by (auto split: if_splits)
  moreover have l: "length (take m bs) = m" "take m bs \<noteq> [] \<longleftrightarrow> m \<noteq> 0" using w(3) assms(4) by auto
  have "fbyte s' jp k = (if jp = ip \<and> to \<le> k \<and> k < to + m then bs ! (k - to) else fbyte s jp k)" for jp k
  proof -
    have "fbyte s' jp k = (if jp = ip \<and> to \<le> k \<and> k < to + m then take m bs ! (k - to) else fbyte s jp k)" using w(4) unfolding wrote_def l(1) by blast
    then show ?thesis by (cases "jp = ip \<and> to \<le> k \<and> k < to + m") auto
  qed
  moreover have "i_size (ino s' jp) = (if jp = ip \<and> m \<noteq> 0 then max (i_size (ino s ip)) (int (to + m)) else i_size (ino s jp))" for jp
    using w(4) unfolding wrote_def l by auto
  ultimately show ?thesis using w(2,5) by (intro exI[of _ e] exI[of _ u'] exI[of _ s'] exI[of _ F'] exI[of _ m]) blast
qed

text \<open>
  C15. A read delivers the bytes of the file from its offset on up to its size, zeros for holes, changes nothing but the hint for reading ahead,
  and reports no error; at or behind the end it delivers nothing.
\<close>

theorem rwip_reads_contents:
  assumes "files_ok U T s F" "b_uerr s = None" "off + len < 2 ^ 31"
  shows "\<exists>u' ra. rwip_read ip (kuio (int off) len []) s = Ok (None, u', s\<lparr>rablock := ra\<rparr>) \<and>
    uio_data u' = take len (drop off (contents_of s ip)) \<and> uio_resid u' = len - length (uio_data u')"
proof (cases "len = 0")
  case True
  then have "rwip_read ip (kuio (int off) len []) s = Ok (None, kuio (int off) len [], s\<lparr>rablock := rablock s\<rparr>)" by (simp add: rwip_read_def kuio_def)
  then show ?thesis using True by (intro exI[of _ "kuio (int off) len []"] exI[of _ "rablock s"]) (simp add: kuio_def)
next
  case False
  let ?u = "kuio (int off) len []" let ?sz = "nat (i_size (ino s ip))"
  have u: "uio_offset ?u = int off" "0 < uio_resid ?u" "uio_resid ?u \<le> uio_ok ?u" "off + uio_resid ?u < 2 ^ 31" using False assms(3) by (simp_all add: kuio_def)
  from read_loop_ok[OF assms(1,2) u, of ip] obtain u' ra where r: "read_loop ip ?u s = Ok (None, u', s\<lparr>rablock := ra\<rparr>)"
    "uio_data u' = uio_data ?u @ map (fbyte s ip) [off..<min (off + uio_resid ?u) ?sz]" "uio_resid u' = uio_resid ?u - (?sz - off)" by blast
  have d: "take len (drop off (contents_of s ip)) = map (fbyte s ip) [off..<min (off + len) ?sz]"
    by (cases "off + len \<le> ?sz") (simp_all add: contents_of_def drop_map take_map min_def)
  have "rwip_read ip ?u s = read_loop ip ?u s" using False by (simp add: rwip_read_def kuio_def)
  moreover have "uio_data u' = take len (drop off (contents_of s ip))" "uio_resid u' = len - (?sz - off)" using r(2,3) unfolding d by (simp_all add: kuio_def)
  moreover from this(1) have "length (uio_data u') = min len (?sz - off)" by (simp add: contents_of_def min.commute)
  ultimately show ?thesis using r(1) by (intro exI[of _ u'] exI[of _ ra]) (simp add: min_def)
qed

text \<open>
  C33. A write of a whole block from an address that cannot be read leaves in the file what was in a free block before: \<^verbatim>\<open>bmap\<close> is told not
  to clear a block that is written whole, the size is set before the transfer, and when the transfer fails the buffer goes to the file all the
  same. The call reports \<^verbatim>\<open>EFAULT\<close>, and a read then returns data of a file that has been removed.
\<close>

theorem failed_write_shows_old_data:
  assumes ok: "files_ok U T s (b # F)" and e: "b_uerr s = None" and bn: "bn < 4" "i_addr (ino s ip) ! bn = 0" "i_size (ino s ip) \<le> int (DEV_BSIZE * bn)"
    and g: "write_goes c (i_size (ino s ip)) (DEV_BSIZE * bn) DEV_BSIZE (DEV_BSIZE * bn)" "\<not> IO_UNIT c"
    and u: "uio_offset u = int (DEV_BSIZE * bn)" "uio_resid u = DEV_BSIZE" "uio_ok u = 0"
  shows "\<exists>s' u' s''. rwip_write c ip u s = Ok (Some EFAULT, u, s') \<and> i_size (ino s' ip) = int (DEV_BSIZE * bn + DEV_BSIZE) \<and>
    rwip_read ip (kuio (int (DEV_BSIZE * bn)) DEV_BSIZE []) (s'\<lparr>b_uerr := None\<rparr>) = Ok (None, u', s'') \<and> uio_data u' = stale s b"
proof -
  let ?off = "DEV_BSIZE * bn" let ?s = "s\<lparr>rablock := 0\<rparr>"
  have small: "?off + DEV_BSIZE < 2 ^ 31" using bn(1) by (simp add: DEV_BSIZE_def)
  have ok0: "files_ok U T ?s (b # F)" using ok by simp
  obtain v where v: "alloc_blk False ?s = Ok (Some b, put_blk b (stale s b) (?s\<lparr>bvol := v\<rparr>))" "fs_ok U v F" using alloc_blk_some[OF ok0, of False] by auto
  let ?s1 = "set_addr ip bn b (put_blk b (stale s b) (?s\<lparr>bvol := v\<rparr>))"
  have h: "bn < NADDR" "i_addr (ino ?s ip) ! bn = 0" "length (stale s b) = DEV_BSIZE" "bn - 3 = 0 \<or> stale s b = clrblk"
    using bn files_okD(6)[OF ok] by simp_all
  note l = link_root[OF ok0 v(2) h]
  have "bmap ip (int bn) True False s = bmap_direct ip bn True False ?s" using bn(1) by (simp add: bmap_def)
  then obtain ra where b: "bmap ip (int bn) True False s = Ok (b, ?s1\<lparr>rablock := ra\<rparr>)" using bmap_direct_new[OF h(2) v(1)] by auto
  let ?s1 = "?s1\<lparr>rablock := ra\<rparr>" let ?s2 = "upd_ino ip (\<lambda>i. i\<lparr>i_size := int (?off + DEV_BSIZE)\<rparr>) ?s1"
  let ?s4 = "upd_ino ip (\<lambda>i. i\<lparr>IUPD := True\<rparr>) ((put_blk b (stale s b) ?s2)\<lparr>b_uerr := Some EFAULT\<rparr>)"
  have pb: "0 < b" "b \<noteq> 0" using files_okD(2,3,4)[OF ok] by auto
  have p: "place_of (int bn) = Some (bn, [])" "(ip, bn, []) \<in> places" using bn(1) by (simp_all add: place_of_def places_def)
  have ok1: "files_ok U T ?s1 F" and f1: "fmap ?s1 ip (int bn) = b" using l p fmap_place[OF p(1)] by simp_all
  have sz: "i_size (ino ?s1 ip) = i_size (ino s ip)" "b_uerr ?s1 = None" using e by (simp_all add: set_addr_def)
  have ok2: "files_ok U T ?s2 F" "fmap ?s2 ip (int bn) = b" using ino_size[OF ok1] f1 by simp_all
  have st: "stale ?s2 b = stale s b" by (simp add: set_addr_def)
  note pt = put_bytes[OF ok2(1,2) pb(2) h(3)]
  have "wrap32 (int x + int y) = int (x + y)" if "x + y < 2 ^ 31" for x y using that by (simp add: wrap32_id)
  note w = this[OF small]
  have lb: "lblkno (int ?off) = int bn" "blkoff (int ?off) = 0" by (simp_all only: lblkno_nat blkoff_nat) (simp_all add: DEV_BSIZE_def)
  have ui: "u\<lparr>uio_offset := int ?off\<rparr> = u" using u(1) by (cases u) simp
  have "write_loop c ip u s = Ok (Some EFAULT, False, u, ?s4)"
  proof -
    have g1: "bmap ip (lblkno (uio_offset u)) True (DEV_BSIZE \<noteq> DEV_BSIZE) s = Ok (b, ?s1)" using b by (simp only: u(1) lb simp_thms)
    have g2: "\<not> b < 0" "DEV_BSIZE = min (DEV_BSIZE - blkoff (uio_offset u)) (uio_resid u)" using pb(1) by (simp_all only: u lb)
    have lt: "i_size (ino s ip) < int (?off + DEV_BSIZE)" using bn(3) bsize_pos by linarith
    have g3: "?s2 = (if wrap32 (uio_offset u + int DEV_BSIZE) > i_size (ino ?s1 ip) \<and> i_type c \<noteq> IFOTHER
        then upd_ino ip (\<lambda>i. i\<lparr>i_size := wrap32 (uio_offset u + int DEV_BSIZE)\<rparr>) ?s1 else ?s1)" unfolding u(1) w sz(1) using lt g(1) by (simp only: write_goes_def if_True simp_thms)
    have g4: "\<not> (DEV_BSIZE \<noteq> DEV_BSIZE \<and> rderr (bvol ?s2) b)" "uio_in DEV_BSIZE u = (Some EFAULT, [], u)" using u(3) by (simp_all add: uio_in_def)
    have "splice 0 [] (stale s b) = stale s b" by (simp add: splice_def)
    then have g5: "?s4 = upd_ino ip (\<lambda>i. i\<lparr>IUPD := True\<rparr>) ((put_blk b (splice (blkoff (uio_offset u)) [] (if DEV_BSIZE = DEV_BSIZE then stale ?s2 b else blk ?s2 b)) ?s2)\<lparr>b_uerr := Some EFAULT\<rparr>)"
      by (simp only: u(1) lb st simp_thms if_True)
    show ?thesis using write_loop_go[OF g1 sz(2) g2 g3 g4 g5] by simp
  qed
  note wl = this
  have g': "write_goes c (i_size (ino s ip)) ?off (uio_resid u) ?off" "0 < uio_resid u" "?off + uio_resid u < 2 ^ 31" unfolding u(2) using g(1) small by simp_all
  have wr: "rwip_write c ip u s = Ok (Some EFAULT, u, ?s4)"
    unfolding rwip_write_loop[OF g'(1) u(1) g'(2,3)] ui wl obind.simps prod.case using g(2) by (simp only: simp_thms if_False)
  let ?r = "?s4\<lparr>b_uerr := None\<rparr>"
  have ok4: "files_ok U T ?r F" using ino_size(4)[of U T "(put_blk b (stale s b) ?s2)\<lparr>b_uerr := Some EFAULT\<rparr>" F ip True] pt by simp
  have fb: "fbyte ?r ip k = stale s b ! (k mod DEV_BSIZE)" if "k div DEV_BSIZE = bn" for k
    using ino_size(6)[of U T "(put_blk b (stale s b) ?s2)\<lparr>b_uerr := Some EFAULT\<rparr>" F ip True] pt that by simp
  have s4: "i_size (ino ?r ip) = int (?off + DEV_BSIZE)" by simp
  have ur: "b_uerr ?r = None" "uio_offset (kuio (int ?off) DEV_BSIZE []) = int ?off" "0 < uio_resid (kuio (int ?off) DEV_BSIZE [])"
    "uio_resid (kuio (int ?off) DEV_BSIZE []) \<le> uio_ok (kuio (int ?off) DEV_BSIZE [])" "?off + uio_resid (kuio (int ?off) DEV_BSIZE []) < 2 ^ 31" using small by (simp_all add: kuio_def)
  have k: "uio_resid (kuio (int ?off) DEV_BSIZE []) = DEV_BSIZE" "uio_data (kuio (int ?off) DEV_BSIZE []) = []" by (simp_all add: kuio_def)
  from read_loop_ok[OF ok4 ur, of ip, unfolded s4 nat_int k min.idem append_Nil] obtain u' ra' where
    r: "read_loop ip (kuio (int ?off) DEV_BSIZE []) ?r = Ok (None, u', ?r\<lparr>rablock := ra'\<rparr>)" "uio_data u' = map (fbyte ?r ip) [?off..<?off + DEV_BSIZE]" by blast
  have "map (fbyte ?r ip) [?off..<?off + DEV_BSIZE] = stale s b"
  proof (rule nth_equalityI)
    show "length (map (fbyte ?r ip) [?off..<?off + DEV_BSIZE]) = length (stale s b)" using h(3) by simp
    fix i
    assume "i < length (map (fbyte ?r ip) [?off..<?off + DEV_BSIZE])"
    then have "i < DEV_BSIZE" by simp
    then show "map (fbyte ?r ip) [?off..<?off + DEV_BSIZE] ! i = stale s b ! i" using fb[of "?off + i"] by simp
  qed
  then have d: "uio_data u' = stale s b" using r(2) by simp
  have "rwip_read ip (kuio (int ?off) DEV_BSIZE []) ?r = read_loop ip (kuio (int ?off) DEV_BSIZE []) ?r" by (simp add: rwip_read_def kuio_def DEV_BSIZE_def)
  then show ?thesis using wr s4 r(1) d by (intro exI[of _ ?s4] exI[of _ u'] exI[of _ "?r\<lparr>rablock := ra'\<rparr>"]) simp
qed

text \<open>
  C12. What is written through an open file is read back through it: a successful write moves the offset of the file by the length of the request, and
  a read of as many bytes from the old offset delivers them and moves the offset to the same place.
\<close>

theorem ino_write_then_read:
  assumes "files_ok U T s F" "b_uerr s = None" "write_goes (c\<lparr>IO_APPEND := False, IO_UNIT := False\<rparr>) (i_size (ino s ip)) off (length bs) off"
    "bs \<noteq> []" "off + length bs < 2 ^ 31"
  shows "\<exists>e off' u' s'. ino_write c False (int off) ip (kuio 0 (length bs) bs) s = Ok (e, off', u', s') \<and> (e = None \<or> e = Some ENOSPC) \<and>
    (e = None \<longrightarrow> off' = int (off + length bs) \<and>
      (\<exists>u'' s''. ino_read (int off) ip (kuio 0 (length bs) []) s' = Ok (None, off', u'', s'') \<and> uio_data u'' = bs))"
proof -
  let ?c = "c\<lparr>IO_APPEND := False, IO_UNIT := False\<rparr>" let ?u = "kuio (int off) (length bs) bs" let ?r = "kuio (int off) (length bs) []"
  have k: "(kuio 0 (length bs) xs)\<lparr>uio_offset := int off\<rparr> = kuio (int off) (length bs) xs" for xs by (simp add: kuio_def)
  have u: "uio_ready off bs ?u" "uio_offset ?u = int off" "uio_resid ?u = length bs" "?u\<lparr>uio_offset := int off\<rparr> = ?u" using assms(5) by (simp_all add: uio_ready_def kuio_def)
  have ty: "i_type ?c \<noteq> IFOTHER" using assms(3) by (simp add: write_goes_def)
  from write_loop_ok[OF assms(1,2) u(1) assms(4) ty, of ip] obtain e ret u' s' F' m where w: "write_loop ?c ip ?u s = Ok (e, ret, u', s')"
    "files_ok U T s' F'" "m \<le> length bs" "wrote ip off (take m bs) s s'" "uio_resid u' = length bs - m"
    "if m = length bs then e = None \<and> \<not> ret \<and> b_uerr s' = None else e = Some ENOSPC \<and> ret \<and> F' = [] \<and> b_uerr s' = Some ENOSPC" by blast
  have g: "write_goes ?c (i_size (ino s ip)) off (uio_resid ?u) off" "0 < uio_resid ?u" "off + uio_resid ?u < 2 ^ 31" unfolding u(3) using assms(3-5) by simp_all
  have rw: "rwip_write ?c ip ?u s = Ok (e, u', s')" unfolding rwip_write_loop[OF g(1) u(2) g(2,3)] u(4) w(1) by simp
  have w32: "wrap32 (int off + int n) = int (off + n)" if "n \<le> length bs" for n using that assms(5) by (simp add: wrap32_id)
  have wr: "ino_write c False (int off) ip (kuio 0 (length bs) bs) s = Ok (e, int (off + m), u', s')"
    using rw w(3,5) w32[OF w(3)] by (simp add: ino_write_def Let_def k) (simp add: kuio_def)
  have rd: "\<exists>u'' s''. ino_read (int off) ip (kuio 0 (length bs) []) s' = Ok (None, int (off + m), u'', s'') \<and> uio_data u'' = bs" if "e = None"
  proof -
    have m: "m = length bs" "b_uerr s' = None" using w(6) that by (auto split: if_splits)
    have h: "uio_offset ?r = int off" "0 < uio_resid ?r" "uio_resid ?r \<le> uio_ok ?r" "off + uio_resid ?r < 2 ^ 31" using assms(4,5) by (simp_all add: kuio_def)
    have wd: "i_size (ino s' ip) = max (i_size (ino s ip)) (int (off + length bs))"
      "fbyte s' ip j = (if off \<le> j \<and> j < off + length bs then bs ! (j - off) else fbyte s ip j)" for j
      using w(4) assms(4) unfolding wrote_def m(1) by simp_all
    have sz: "off + length bs \<le> nat (i_size (ino s' ip))" unfolding wd(1) by linarith
    have k1: "uio_resid ?r = length bs" "uio_data ?r = []" by (simp_all add: kuio_def)
    have mn: "min (off + length bs) (nat (i_size (ino s' ip))) = off + length bs" "length bs - (nat (i_size (ino s' ip)) - off) = 0" using sz by simp_all
    from read_loop_ok[OF w(2) m(2) h, of ip, unfolded k1 mn append_Nil] obtain u'' ra where
      r: "read_loop ip ?r s' = Ok (None, u'', s'\<lparr>rablock := ra\<rparr>)" "uio_data u'' = map (fbyte s' ip) [off..<off + length bs]" "uio_resid u'' = 0" by blast
    have "map (fbyte s' ip) [off..<off + length bs] = bs" by (rule nth_equalityI) (simp_all add: wd(2))
    moreover have "rwip_read ip ?r s' = read_loop ip ?r s'" using assms(4) by (simp add: rwip_read_def kuio_def)
    ultimately show ?thesis using r w32[of "length bs"] m(1)
      by (intro exI[of _ u''] exI[of _ "s'\<lparr>rablock := ra\<rparr>"]) (simp add: ino_read_def k, simp add: kuio_def)
  qed
  have "e = None \<or> e = Some ENOSPC" "e = None \<longrightarrow> m = length bs" using w(6) by (auto split: if_splits)
  then show ?thesis using wr rd by (intro exI[of _ e] exI[of _ "int (off + m)"] exI[of _ u'] exI[of _ s']) simp
qed

section \<open>Examples\<close>

definition plain :: rwctx where
  "plain = \<lparr>i_type = IFREG, APPEND = False, RLIMIT_FSIZE = 100000, chkdq = None, IO_APPEND = False, IO_UNIT = False\<rparr>"

text \<open>Free blocks that hold what somebody has written.\<close>

definition old_data :: bstate where
  "old_data = no_files\<lparr>stale := (\<lambda>b. replicate DEV_BSIZE 7)\<rparr>"

lemma old_data_ok: "files_ok {3..11} {5..10} old_data [10, 9, 8, 7, 6, 5]"
proof -
  have "addr old_data = addr no_files" by (simp add: addr_def old_data_def)
  then show ?thesis using no_files_ok unfolding files_ok_def by (simp add: old_data_def)
qed

theorem rwip_writes_exactly_witness:
  "\<exists>e u' s' m. rwip_write plain 2 (kuio 1030 3 [1, 2, 3]) no_files = Ok (e, u', s') \<and> (e = None \<longrightarrow> m = 3) \<and>
    (\<forall>jp k. fbyte s' jp k = (if jp = 2 \<and> 1030 \<le> k \<and> k < 1030 + m then [1, 2, 3] ! (k - 1030) else 0))"
proof -
  have g: "write_goes plain (i_size (ino no_files 2)) 1030 (length [1, 2, 3 :: u8]) 1030" by (simp add: write_goes_def plain_def)
  have z: "fbyte no_files jp k = 0" for jp k
    using no_files_ok by (auto simp: fbyte_def fmap_def addr_def no_files_def place_of_def clrblk_def nth_Cons' split: option.splits if_splits)
  have h: "b_uerr no_files = None" "[1, 2, 3 :: u8] \<noteq> []" "1030 + length [1, 2, 3 :: u8] < 2 ^ 31" by (simp_all add: no_files_def)
  from rwip_writes_exactly[OF no_files_ok h(1) g h(2,3)] obtain e u' s' F' m where
    "rwip_write plain 2 (kuio (int 1030) (length [1, 2, 3 :: u8]) [1, 2, 3]) no_files = Ok (e, u', s')"
    "if e = None then m = length [1, 2, 3 :: u8] else e = Some ENOSPC \<and> m < length [1, 2, 3 :: u8] \<and> F' = ([] :: int list)"
    "\<forall>jp k. fbyte s' jp k = (if jp = 2 \<and> 1030 \<le> k \<and> k < 1030 + m then [1, 2, 3] ! (k - 1030) else fbyte no_files jp k)" by (elim exE conjE) (rule that, assumption+)
  then show ?thesis by (intro exI[of _ e] exI[of _ u'] exI[of _ s'] exI[of _ m]) (simp add: z numeral_3_eq_3)
qed

theorem rwip_reads_contents_witness:
  "\<exists>s u' s'. i_size (ino s 2) = 4 \<and> rwip_read 2 (kuio 1 10 []) s = Ok (None, u', s') \<and> uio_data u' = take 10 (drop 1 (contents_of s 2)) \<and> length (uio_data u') = 3"
proof -
  let ?s = "upd_ino 2 (\<lambda>i. i\<lparr>i_size := 4\<rparr>) no_files"
  have h: "files_ok {3..11} {5..10} ?s [10, 9, 8, 7, 6, 5]" "b_uerr ?s = None" "1 + 10 < (2 :: nat) ^ 31" using with_size(1)[OF no_files_ok] by (simp_all add: no_files_def)
  from rwip_reads_contents[OF h] obtain u' ra where "rwip_read 2 (kuio (int 1) 10 []) ?s = Ok (None, u', ?s\<lparr>rablock := ra\<rparr>)"
    "uio_data u' = take 10 (drop 1 (contents_of ?s 2))" by blast
  moreover have "length (contents_of ?s 2) = 4" by (simp add: contents_of_def)
  ultimately show ?thesis by (intro exI[of _ ?s] exI[of _ u'] exI[of _ "?s\<lparr>rablock := ra\<rparr>"]) simp
qed

theorem failed_write_shows_old_data_witness:
  "\<exists>s' u' s''. rwip_write plain 2 \<lparr>uio_offset = 0, uio_resid = DEV_BSIZE, uio_data = replicate DEV_BSIZE 1, uio_ok = 0\<rparr> old_data =
      Ok (Some EFAULT, \<lparr>uio_offset = 0, uio_resid = DEV_BSIZE, uio_data = replicate DEV_BSIZE 1, uio_ok = 0\<rparr>, s') \<and>
    rwip_read 2 (kuio 0 DEV_BSIZE []) (s'\<lparr>b_uerr := None\<rparr>) = Ok (None, u', s'') \<and> uio_data u' = replicate DEV_BSIZE 7"
proof -
  let ?u = "\<lparr>uio_offset = 0, uio_resid = DEV_BSIZE, uio_data = replicate DEV_BSIZE 1, uio_ok = 0\<rparr>"
  have h: "b_uerr old_data = None" "(0 :: nat) < 4" "i_addr (ino old_data 2) ! 0 = 0" "i_size (ino old_data 2) \<le> int (DEV_BSIZE * 0)"
    "write_goes plain (i_size (ino old_data 2)) (DEV_BSIZE * 0) DEV_BSIZE (DEV_BSIZE * 0)" "\<not> IO_UNIT plain"
    "uio_offset ?u = int (DEV_BSIZE * 0)" "uio_resid ?u = DEV_BSIZE" "uio_ok ?u = 0"
    by (simp_all add: old_data_def no_files_def write_goes_def plain_def DEV_BSIZE_def)
  have "stale old_data 10 = replicate DEV_BSIZE 7" by (simp add: old_data_def)
  then show ?thesis using failed_write_shows_old_data[OF old_data_ok h] by auto
qed

theorem ino_write_then_read_witness:
  "\<exists>e off' u' s'. ino_write plain False 7 2 (kuio 0 4 [1, 2, 3, 4]) no_files = Ok (e, off', u', s') \<and> (e = None \<or> e = Some ENOSPC) \<and>
    (e = None \<longrightarrow> off' = 11 \<and> (\<exists>u'' s''. ino_read 7 2 (kuio 0 4 []) s' = Ok (None, off', u'', s'') \<and> uio_data u'' = [1, 2, 3, 4]))"
proof -
  let ?bs = "[1, 2, 3, 4 :: u8]"
  have g: "write_goes (plain\<lparr>IO_APPEND := False, IO_UNIT := False\<rparr>) (i_size (ino no_files 2)) 7 (length ?bs) 7" by (simp add: write_goes_def plain_def)
  have h: "b_uerr no_files = None" "?bs \<noteq> []" "7 + length ?bs < 2 ^ 31" by (simp_all add: no_files_def)
  have l: "length ?bs = 4" by simp
  from ino_write_then_read[OF no_files_ok h(1) g h(2,3)] show ?thesis unfolding l by simp
qed

end
