(* ===== verification/Spec2Isabelle.thy ===== *)
theory Spec2Isabelle
  imports Rmap3 Sig_Take Clock_Props Fs_Props Desc_Locks Clist_Thms Vm_Run Bio_Thms Proc_Thms Rwip_Thms
begin

text \<open>
  A verification development for the kernel of 2.11BSD, the system for the PDP-11, as it stands in \<^verbatim>\<open>src/sys\<close>: the parts of
  \<^verbatim>\<open>sys/sys\<close> that keep the kernel's own data structures. File names below are relative to \<^verbatim>\<open>src/sys\<close>.

  \<^bold>\<open>The program.\<close> The kernel is one program in which every process, when it enters the kernel, runs the same routines over shared
  tables. A process that has to wait calls \<^verbatim>\<open>sleep\<close> on an address and is put on a hashed queue; \<^verbatim>\<open>wakeup\<close> on the address moves
  it to the run queue, \<^verbatim>\<open>swtch\<close> picks the next. The clock interrupt ages priorities, keeps the time and runs the callout queue.
  Signals are posted by other processes and by the kernel, and take a process out of a sleep or a stop. Core and swap space are cut out of
  resource maps; shared program texts are cached in both and thrown out when a map runs short. Files are reached through descriptors, the
  table of open files and inodes; blocks and inodes on disk come from the free lists of the super block,
  and the blocks of a file hang on its inode. Blocks pass
  between the disk and the processes through the buffer cache. Terminals pass characters through lists of small blocks.

  \<^bold>\<open>Conventions\<close> (\<open>Prelude\<close>). A routine ends in an \<open>outcome\<close>: it returns, panics, sleeps on a channel, or leaves an array (\<open>Fault\<close>). Where a
  routine cannot do some of these its model has a plain value, an error number as an option or an option for a routine that may not
  end. 16-bit \<^verbatim>\<open>unsigned\<close> and 8-bit \<^verbatim>\<open>u_char\<close> are words; signed quantities are \<open>int\<close> with \<open>wrap16\<close> or \<open>wrap32\<close> written where the
  code can reach the limit. Linked lists whose links nobody else reads are HOL lists; arrays that are indexed are lists with checked access.
  The configuration is that of the file \<^verbatim>\<open>conf/CURLY\<close>: \<^verbatim>\<open>UCB_METER\<close>, \<^verbatim>\<open>INET\<close> and \<^verbatim>\<open>QUOTA\<close> on, \<^verbatim>\<open>DIAGNOSTIC\<close> off. Interrupt
  priorities (\<^verbatim>\<open>splclock\<close> and the like) are dropped: each operation is one step of the model.

  \<^bold>\<open>The theories.\<close>

  \<^item> \<open>Rmap\<close>, \<open>Allocator\<close>, \<open>Rmap3\<close>: \<^verbatim>\<open>sys/subr_rmap.c\<close>. \<open>rmalloc\<close>, \<open>rmfree\<close> and \<open>rmalloc3\<close> work on the array of a map entry by entry.
    The lemmas show first fit, what is free afterwards, that the map stays sorted and coalesced, and that \<^verbatim>\<open>malloc3\<close> is all or nothing.
    The locale \<open>extent_allocator\<close> states what a client relies on and proves that extents never overlap over any sequence
    of calls; its interpretation \<open>rm\<close> is the code's model.
  \<^item> \<open>Vm_Text\<close>, \<open>Vm_Props\<close>, \<open>Vm_Thms\<close>, \<open>Vm_Run\<close>: \<^verbatim>\<open>sys/vm_text.c\<close> and the choice of map, metering and retry of \<^verbatim>\<open>malloc\<close> and \<^verbatim>\<open>mfree\<close>.
    \<open>vm_ok\<close> ties the text table to the inodes, the processes, the free list and both maps; \<open>vm_step\<close> is one call by anyone. The lemmas rest
    on the facts of \<open>rm\<close> and show that allocation, which throws other texts out, keeps all extents apart.
  \<^item> \<open>Sched\<close>, \<open>Sched_Props\<close>: \<^verbatim>\<open>sys/kern_synch.c\<close> with \<^verbatim>\<open>h/proc.h\<close>. \<open>sched_ok\<close> says which queue a process is on in each state; \<open>sched_step\<close> is
    one operation. \<^verbatim>\<open>wakeup\<close> starts its scan over after each process it has made ready, and may wake the swapper first: its loop has fuel
    \<open>wakeup_fuel\<close>, quadratic in the number of sleepers, and is proved to need no more.
  \<^item> \<open>Sig\<close>, \<open>Sig_Props\<close>, \<open>Sig_Take\<close>: \<^verbatim>\<open>sys/kern_sig.c\<close>, \<^verbatim>\<open>sys/kern_sig2.c\<close>, \<^verbatim>\<open>h/signalvar.h\<close>. Posting, taking and the system calls, on the
    process table of \<open>Sched\<close>; \<^verbatim>\<open>issignal\<close> takes one pending signal per round, so 33 rounds are enough, which is proved. The lemmas show that
    posting keeps the queues, which signal is taken, who may post, and that \<^verbatim>\<open>SIGKILL\<close> is never held, ignored or caught.
  \<^item> \<open>Proc\<close>, \<open>Proc_Pid\<close>, \<open>Proc_Props\<close>, \<open>Proc_Inv\<close>, \<open>Proc_Thms\<close>: \<^verbatim>\<open>sys/kern_fork.c\<close>, \<^verbatim>\<open>sys/kern_exit.c\<close> and \<^verbatim>\<open>sys/kern_proc.c\<close>, on top of the
    queues, the signals and the file table. \<open>kproc_step\<close> is one call, or the rest of a call after a sleep; \<open>ptab_ok\<close> says that the three lists
    share the slots out by the state of their processes, what numbers \<^verbatim>\<open>newproc\<close> need not look at, that the hash table has just the living,
    and that parents form a tree of living processes. The search for a process number may not end, so it is a \<open>partial_function (option)\<close>,
    and is proved to end with fewer than 14950 slots: each process or zombie rules out at most two of the 29900 numbers.
    The union in \<^verbatim>\<open>struct proc\<close> is overlaid by \<^verbatim>\<open>exit\<close> byte by byte, which shows what a \<^verbatim>\<open>wait\<close> for a process group reads.
  \<^item> \<open>Clock\<close>, \<open>Clock_Props\<close>: \<^verbatim>\<open>sys/kern_clock.c\<close> and \<^verbatim>\<open>schedcpu\<close>. The callout queue holds differences; the locale \<open>timer_queue\<close> is the abstract
    queue of calls with their remaining ticks, and \<open>callouts\<close> its interpretation.
  \<^item> \<open>Fs_Alloc\<close>, \<open>Fs_Props\<close>: \<^verbatim>\<open>sys/ufs_alloc.c\<close>. The super block caches free blocks, the rest of the list lies in the free blocks
    themselves. The locale \<open>block_allocator\<close>, interpreted as \<open>disk\<close>, says that no block is handed out twice. \<^verbatim>\<open>ialloc\<close> starts its search over at
    most once.
  \<^item> \<open>Bmap\<close>, \<open>Bmap_Props\<close>, \<open>Bmap_Trunc\<close>, \<open>Bmap_Thms\<close>: \<^verbatim>\<open>sys/ufs_bmap.c\<close> and \<^verbatim>\<open>itrunc\<close> of \<^verbatim>\<open>sys/ufs_inode.c\<close>, on the facts of \<open>disk\<close>. A
    file is four blocks and three trees of pointers in blocks of bytes. A place is an inode, an index into its addresses and a path of
    indices; \<open>files_ok\<close> says that no block has two places and that the blocks in places and those on the free list share the file system out,
    \<open>fmap\<close> is the abstract map from block numbers of a file to blocks. Trees have three levels, so \<open>indirtrunc\<close> recurses on the level. A cut that
    leaves part of the second or third tree is not described by a lemma: there the code does nothing, which is a property.
  \<^item> \<open>Rwip\<close>, \<open>Rwip_Props\<close>, \<open>Rwip_Thms\<close>: \<^verbatim>\<open>rwip\<close>, \<^verbatim>\<open>rdwri\<close> and \<^verbatim>\<open>ino_rw\<close> of \<^verbatim>\<open>sys/sys_inode.c\<close>, \<^verbatim>\<open>uiomove\<close> of \<^verbatim>\<open>sys/kern_subr.c\<close>, on
    block maps. \<open>fbyte\<close> is the abstract file, a function from offsets to bytes; \<open>wrote\<close> says what a write does to it. Both loops move at least one byte
    per round, which is their termination proof. A process's memory is what is transferred and how many bytes of it can be accessed.
  \<^item> \<open>Bio\<close>, \<open>Bio_Props\<close>, \<open>Bio_Coh\<close>, \<open>Bio_Thms\<close>: \<^verbatim>\<open>sys/ufs_bio.c\<close> with \<^verbatim>\<open>h/buf.h\<close>. The one component in which processes stop inside
    routines: a \<open>task\<close> is where a process stands, \<open>run\<close> takes it to its next sleep, \<open>bio_step\<close> lets processes, devices and flushes go
    on in any order. \<open>cache_ok\<close> and \<open>tasks_ok\<close> share the buffers out among lists, processes and devices; \<open>coh\<close> relates buffers and disk to the
    abstract disk, on which a block is what was last stored in it, for the runs \<open>clean_run\<close> describes. Another run shows why that is needed.
  \<^item> \<open>Desc\<close>, \<open>Desc_Props\<close>, \<open>Desc_Locks\<close>: \<^verbatim>\<open>sys/kern_descrip.c\<close>, the locks of \<^verbatim>\<open>sys/sys_inode.c\<close> and \<^verbatim>\<open>copen\<close> of \<^verbatim>\<open>sys/ufs_syscalls.c\<close>.
    The lemmas show that reference counts are exact until they wrap and that locks exclude each other. \<open>ino_lock\<close> has three rounds of fuel: it
    goes round again only when it gives up a shared lock of its own, which happens once.
  \<^item> \<open>Clist\<close>, \<open>Clist_Rep\<close>, \<open>Clist_Block\<close>, \<open>Clist_Props\<close>, \<open>Clist_Thms\<close>: \<^verbatim>\<open>sys/tty_subr.c\<close> at the level of addresses, 32-byte blocks and their links.
    \<open>clq\<close> is the representation: a chain of blocks apart from the free list. The locale \<open>byte_queue\<close>, interpreted as \<open>clists\<close>, is a bounded
    queue; the block-wise routines are shown equal to repeated \<^verbatim>\<open>getc\<close> and \<^verbatim>\<open>putc\<close>. The loops that may not end on a broken list are
    \<open>partial_function (option)\<close> and are proved to end on a well-formed one.

  \<^bold>\<open>What the properties assume.\<close> The invariants hold in the state the boot code sets up and after every modelled operation. Assumptions
  that the code does not check are written into the steps or the statements: that a client frees only what it holds, that 8-bit counts do
  not reach 255, that a text has a size; where such an assumption can be violated from outside there is a property that shows what happens then
  (the reference count that wraps, the panic of \<^verbatim>\<open>xalloc\<close>, the entry \<^verbatim>\<open>xalloc\<close> loses, the overrun of a full map,
  the block that gets two buffers, the process number that is given out twice, the truncation that frees nothing,
  the failed write that shows old data).

  \<^bold>\<open>Not modelled.\<close> User memory and devices: what \<^verbatim>\<open>copyin\<close> reads, what a driver does and what \<^verbatim>\<open>vn_open\<close> or \<^verbatim>\<open>iget\<close> find are arguments. Of the
  modelled files: \<^verbatim>\<open>sleep\<close> (a \<^verbatim>\<open>tsleep\<close> followed by a \<^verbatim>\<open>longjmp\<close>), the core dump, the text read in \<^verbatim>\<open>xalloc\<close> and the \<^verbatim>\<open>swapout\<close> in
  \<^verbatim>\<open>xexpand\<close>, statistics and messages. In the text component a call that has to wait for a locked text takes no step, that is,
  its effects before the wait are not seen on their own. Of \<^verbatim>\<open>fork\<close> and \<^verbatim>\<open>exit\<close>: core and swap space, the counts of texts and inodes,
  accounting and quotas. Of files: devices, quotas, times, modes, transfers with several
  vectors, the order in which blocks reach the disk. The file
  system models see the cache as the contents of the disk. Not yet modelled: names of files, \<^verbatim>\<open>exec\<close>, swapping, the terminal line discipline, mbufs. The network, the drivers, the
  assembly code and everything in user space are outside the scope of this development.
\<close>

end
